(* ===== verification/Prelude.thy ===== *)
theory Prelude
  imports Main "HOL-Library.Word" "HOL-Library.Monad_Syntax"
begin

unbundle bit_operations_syntax

section \<open>Shared vocabulary: bytes, C strings, arrays, decimal digits\<close>

text \<open>
  What every component of the user land shares.  A \<open>char\<close> of the source is a HOL \<^typ>\<open>char\<close>
  (a byte).  A NUL-terminated string that is only read is the list of its bytes without the
  terminator, so that \<open>*p == 0\<close> is \<open>p = []\<close> and \<open>p + 1\<close> is the tail; \<open>cstring\<close> says that the
  list holds no NUL, as every such list does.  A fixed-size array that is written is a list of
  that length, and every access goes through \<open>aget\<close>, \<open>aset\<close> or \<open>awrite\<close>, whose \<^const>\<open>None\<close> is an
  access outside the array: that no operation of a component yields it is its memory safety.
\<close>

named_theorems arr_simps \<open>reads and writes inside an array\<close>
named_theorems len_simps \<open>lengths kept by the operations\<close>

subsection \<open>Bytes\<close>

abbreviation NUL :: char where
  "NUL \<equiv> CHR 0x00"

text \<open>The value of a byte read as \<open>unsigned char\<close>, and as the signed plain \<open>char\<close> of x86\_64.\<close>

definition uc :: "char \<Rightarrow> int" where
  "uc c = of_char c"

definition sc :: "char \<Rightarrow> int" where
  "sc c = (if of_char c < (128 :: int) then of_char c else of_char c - 256)"

lemma uc_bounds [simp]: "0 \<le> uc c" "uc c < 256"
proof -
  have "uc c mod 256 = uc c"
    by (simp add: uc_def)
  then show "0 \<le> uc c" "uc c < 256"
    using pos_mod_sign [of 256 "uc c"] pos_mod_bound [of 256 "uc c"] by simp_all
qed

lemma uc_eq_iff [simp]: "uc c = uc d \<longleftrightarrow> c = d"
  by (simp add: uc_def)

lemma sc_uc: "sc c = (if uc c < 128 then uc c else uc c - 256)"
  by (simp add: sc_def uc_def)

lemma sc_eq_iff [simp]: "sc c = sc d \<longleftrightarrow> c = d"
  using uc_bounds [of c] uc_bounds [of d] by (auto simp: sc_uc simp del: uc_bounds split: if_splits)

lemma uc_zero_iff [simp]: "uc c = 0 \<longleftrightarrow> c = NUL"
  using uc_eq_iff [of c NUL] by (simp add: uc_def)

lemma uc_NUL [simp]: "uc NUL = 0"
  by simp

lemma uc_pos: "c \<noteq> NUL \<Longrightarrow> 0 < uc c"
  using uc_bounds(1) [of c] uc_zero_iff [of c] by linarith

text \<open>Storing an \<open>int\<close> into a \<open>char\<close> keeps its low eight bits.\<close>

definition to_char :: "int \<Rightarrow> char" where
  "to_char i = char_of i"

lemma uc_to_char [simp]: "uc (to_char i) = i mod 256"
  by (simp add: uc_def to_char_def)

lemma to_char_uc [simp]: "to_char (uc c) = c"
  by (simp add: to_char_def uc_def)

definition cstring :: "string \<Rightarrow> bool" where
  "cstring s \<longleftrightarrow> NUL \<notin> set s"

lemma cstring_simps [simp]:
  "cstring []"
  "cstring (c # s) \<longleftrightarrow> c \<noteq> NUL \<and> cstring s"
  "cstring (s @ t) \<longleftrightarrow> cstring s \<and> cstring t"
  by (auto simp: cstring_def)

lemma cstring_take [simp]: "cstring s \<Longrightarrow> cstring (take n s)"
  by (auto simp: cstring_def dest: in_set_takeD)

lemma cstring_drop [simp]: "cstring s \<Longrightarrow> cstring (drop n s)"
  by (auto simp: cstring_def dest: in_set_dropD)

lemma cstring_sub: "cstring s \<Longrightarrow> set t \<subseteq> set s \<Longrightarrow> cstring t"
  by (auto simp: cstring_def)

lemma cstring_parts:
  "cstring s \<Longrightarrow> cstring (takeWhile P s)"
  "cstring s \<Longrightarrow> cstring (dropWhile P s)"
  "cstring s \<Longrightarrow> cstring (tl s)"
  "cstring s \<Longrightarrow> cstring (butlast s)"
  by (auto simp: cstring_def dest: set_takeWhileD set_dropWhileD in_set_butlastD list.set_sel(2) [rotated])
    (metis list.sel(2) list.set_sel(2))

text \<open>The byte a string pointer points to: the terminator at the end of the string.\<close>

definition deref :: "string \<Rightarrow> char" where
  "deref s = (case s of [] \<Rightarrow> NUL | c # _ \<Rightarrow> c)"

lemma deref_simps [simp]: "deref [] = NUL" "deref (c # s) = c"
  by (simp_all add: deref_def)

subsection \<open>Arrays\<close>

definition aget :: "'a list \<Rightarrow> nat \<Rightarrow> 'a option" where
  "aget xs i = (if i < length xs then Some (xs ! i) else None)"

definition aset :: "'a list \<Rightarrow> nat \<Rightarrow> 'a \<Rightarrow> 'a list option" where
  "aset xs i v = (if i < length xs then Some (xs[i := v]) else None)"

text \<open>Copying the block \<open>ys\<close> into the array at offset \<open>i\<close>.\<close>

definition awrite :: "'a list \<Rightarrow> nat \<Rightarrow> 'a list \<Rightarrow> 'a list option" where
  "awrite xs i ys =
     (if i + length ys \<le> length xs then Some (take i xs @ ys @ drop (i + length ys) xs) else None)"

text \<open>Reading \<open>n\<close> elements from offset \<open>i\<close> on.\<close>

definition aslice :: "'a list \<Rightarrow> nat \<Rightarrow> nat \<Rightarrow> 'a list option" where
  "aslice xs i n = (if i + n \<le> length xs then Some (take n (drop i xs)) else None)"

lemma aslice_in [simp, arr_simps]: "i + n \<le> length xs \<Longrightarrow> aslice xs i n = Some (take n (drop i xs))"
  by (simp add: aslice_def)

lemma aget_in [simp, arr_simps]: "i < length xs \<Longrightarrow> aget xs i = Some (xs ! i)"
  by (simp add: aget_def)

lemma aset_in [simp, arr_simps]: "i < length xs \<Longrightarrow> aset xs i v = Some (xs[i := v])"
  by (simp add: aset_def)

lemma aset_out: "length xs \<le> i \<Longrightarrow> aset xs i v = None"
  by (simp add: aset_def)

lemma aset_SomeD: "aset xs i v = Some ys \<Longrightarrow> ys = xs[i := v] \<and> i < length xs"
  by (auto simp: aset_def split: if_splits)

lemma awrite_in [arr_simps]:
  "i + length ys \<le> length xs \<Longrightarrow>
   awrite xs i ys = Some (take i xs @ ys @ drop (i + length ys) xs)"
  by (simp add: awrite_def)

lemma awrite_length [len_simps]: "awrite xs i ys = Some zs \<Longrightarrow> length zs = length xs"
  by (auto simp: awrite_def split: if_splits)

lemma list_update_drop:
  "n < length xs \<Longrightarrow> length ys = n \<Longrightarrow> (ys @ drop n xs)[n := v] = ys @ v # drop (Suc n) xs"
  by (simp add: list_update_append Cons_nth_drop_Suc [symmetric])

text \<open>The C string that starts at offset \<open>i\<close> of an array: up to the first NUL.\<close>

definition str_at :: "char list \<Rightarrow> nat \<Rightarrow> string" where
  "str_at xs i = takeWhile (\<lambda>c. c \<noteq> NUL) (drop i xs)"

lemma cstring_str_at [simp]: "cstring (str_at xs i)"
  by (auto simp: cstring_def str_at_def dest: set_takeWhileD)

lemma takeWhile_cstring: "cstring s \<Longrightarrow> takeWhile (\<lambda>c. c \<noteq> NUL) (s @ NUL # t) = s"
  by (induction s) auto

lemma str_at_write: "cstring s \<Longrightarrow> str_at (s @ NUL # t) 0 = s"
  by (simp add: str_at_def takeWhile_cstring)

text \<open>A loop over the lines of a text goes on behind the separator.\<close>

lemma rest_less: "s \<noteq> [] \<Longrightarrow> length (tl (dropWhile P s)) < length s"
  using length_dropWhile_le [of P s] by (cases s) (simp_all add: less_Suc_eq_le)

subsection \<open>Counting on machine words\<close>

lemma unat_Suc_less: "i < n \<Longrightarrow> unat (i + 1) = Suc (unat i)" for i n :: "'a::len word"
proof -
  assume "i < n"
  then have "unat i < unat n"
    by (simp add: word_less_nat_alt)
  moreover have "unat n < 2 ^ LENGTH('a)"
    by (rule unsigned_less)
  ultimately have "Suc (unat i) < 2 ^ LENGTH('a)"
    by linarith
  then show ?thesis
    by (simp add: unat_word_ariths)
qed

lemma unat_diff_Suc_less: "i < n \<Longrightarrow> unat (n - (i + 1)) < unat (n - i)" for i n :: "'a::len word"
  using unat_Suc_less [of i n] by (auto simp: unat_sub_if' word_less_nat_alt)

text \<open>A word read as signed, from the word read as unsigned.\<close>

lemma sint_cases: "sint w = (if uint w < 2 ^ (LENGTH('a) - 1) then uint w else uint w - 2 ^ LENGTH('a))"
  for w :: "'a::len word"
proof -
  obtain n where n: "LENGTH('a) = Suc n"
    using len_gt_0 gr0_implies_Suc by blast
  have u: "0 \<le> uint w" "uint w < 2 ^ Suc n"
    using uint_lt2p [of w] n by simp_all
  have q: "uint w div 2 ^ n = (if uint w < 2 ^ n then 0 else 1)"
  proof (cases "uint w < 2 ^ n")
    case False
    then show ?thesis using u by (intro trans [OF int_div_pos_eq [where r = "uint w - 2 ^ n" and q = 1]]) auto
  qed (use u in simp)
  have "sint w = take_bit (Suc n) (uint w) - 2 ^ Suc n * of_bool (bit (uint w) n)"
    using n by (simp add: sint_uint signed_take_bit_eq_take_bit_minus)
  also have "take_bit (Suc n) (uint w) = uint w"
    using u by (simp add: take_bit_int_eq_self_iff)
  also have "bit (uint w) n \<longleftrightarrow> \<not> uint w < 2 ^ n"
    by (simp add: bit_iff_odd q)
  finally show ?thesis
    using n by simp
qed

lemma sint32: "sint w = (if uint w < 2147483648 then uint w else uint w - 4294967296)" for w :: "32 word"
  by (simp add: sint_cases)

lemma sint64:
  "sint w = (if uint w < 9223372036854775808 then uint w else uint w - 18446744073709551616)"
  for w :: "64 word"
  by (simp add: sint_cases)

lemma uint_bounds32: "0 \<le> uint w" "uint w < 4294967296" for w :: "32 word"
  using uint_lt2p [of w] by simp_all

lemma uint_bounds64: "0 \<le> uint w" "uint w < 18446744073709551616" for w :: "64 word"
  using uint_lt2p [of w] by simp_all

lemma unat_less_iff: "unat w < k \<longleftrightarrow> uint w < int k" for w :: "'a::len word"
proof -
  have "unat w < k \<longleftrightarrow> int (unat w) < int k"
    by (simp only: of_nat_less_iff)
  then show ?thesis by simp
qed

lemma unat_ge_iff: "k \<le> unat w \<longleftrightarrow> int k \<le> uint w" for w :: "'a::len word"
  using unat_less_iff [of w k] by linarith

subsection \<open>Decimal digits\<close>

text \<open>
  The user land reads decimal numbers in many places, each with its own loop and its own width.
  The locale states what such a loop's step promises, modulo the size of the accumulator, and
  proves once what the loop computes; every reader interprets it.
\<close>

definition is_digit :: "char \<Rightarrow> bool" where
  "is_digit c \<longleftrightarrow> 48 \<le> sc c \<and> sc c \<le> 57"

definition digit :: "char \<Rightarrow> nat" where
  "digit c = nat (sc c - 48)"

lemma is_digit_uc: "is_digit c \<longleftrightarrow> 48 \<le> uc c \<and> uc c \<le> 57"
  using uc_bounds(2) [of c] by (auto simp: is_digit_def sc_uc simp del: uc_bounds split: if_splits)

lemma digit_less_10: "is_digit c \<Longrightarrow> digit c < 10"
  by (auto simp: is_digit_def digit_def)

lemma int_digit: "is_digit c \<Longrightarrow> int (digit c) = sc c - 48"
  by (auto simp: is_digit_def digit_def)

definition dec_value :: "string \<Rightarrow> nat" where
  "dec_value s = foldl (\<lambda>n c. 10 * n + digit c) 0 s"

lemma foldl_dec: "foldl (\<lambda>n c. 10 * n + digit c) k s = k * 10 ^ length s + dec_value s"
proof (induction s arbitrary: k)
  case Nil
  show ?case by (simp add: dec_value_def)
next
  case (Cons c s)
  show ?case
    using Cons.IH [of "10 * k + digit c"] Cons.IH [of "digit c"]
    by (simp add: dec_value_def algebra_simps)
qed

lemma dec_value_simps [simp]:
  "dec_value [] = 0"
  "dec_value (c # s) = digit c * 10 ^ length s + dec_value s"
  "dec_value (s @ [c]) = 10 * dec_value s + digit c"
  using foldl_dec [of "digit c" s] by (simp_all add: dec_value_def)

lemma dec_value_bound: "\<forall>c\<in>set s. is_digit c \<Longrightarrow> dec_value s < 10 ^ length s"
proof (induction s)
  case (Cons c s)
  have "digit c * 10 ^ length s + dec_value s < Suc (digit c) * 10 ^ length s"
    using Cons by simp
  also have "\<dots> \<le> 10 * 10 ^ length s"
    using Cons.prems digit_less_10 [of c] by (intro mult_le_mono) auto
  finally show ?case by simp
qed simp

locale digit_reader =
  fixes acc :: "'n \<Rightarrow> char \<Rightarrow> 'n" and val :: "'n \<Rightarrow> int" and modulus :: int
  assumes acc_digit:
    "is_digit c \<Longrightarrow> val (acc n c) mod modulus = (10 * val n + int (digit c)) mod modulus"
begin

lemma fold_digits:
  "\<forall>c\<in>set s. is_digit c \<Longrightarrow>
   val (foldl acc n s) mod modulus = (val n * 10 ^ length s + int (dec_value s)) mod modulus"
proof (induction s arbitrary: n)
  case (Cons c s)
  have "val (foldl acc n (c # s)) mod modulus
      = (val (acc n c) * 10 ^ length s + int (dec_value s)) mod modulus"
    using Cons by simp
  also have "\<dots> = ((val (acc n c) mod modulus) * 10 ^ length s + int (dec_value s)) mod modulus"
    by (metis mod_add_left_eq mod_mult_left_eq)
  also have "\<dots> = ((10 * val n + int (digit c)) * 10 ^ length s + int (dec_value s)) mod modulus"
    using Cons.prems acc_digit [of c n] by (metis list.set_intros(1) mod_add_left_eq mod_mult_left_eq)
  finally show ?case
    by (simp add: algebra_simps)
qed simp

lemma fold_digits_zero:
  "\<forall>c\<in>set s. is_digit c \<Longrightarrow> val z = 0 \<Longrightarrow>
   val (foldl acc z s) mod modulus = int (dec_value s) mod modulus"
  using fold_digits [of s z] by simp

end

lemma set_takeWhile_digit: "\<forall>c\<in>set (takeWhile is_digit s). is_digit c"
  by (auto dest: set_takeWhileD)

subsection \<open>Bounded string comparison\<close>

text \<open>
  The user library has no \<open>strncmp\<close>; the shell, \<open>mount\<close>, \<open>init\<close> and \<open>top\<close> each bring their own.
  This is what the programs rely on in any of them, and what follows for the prefix tests that they
  all make with it.
\<close>

locale bounded_strcmp =
  fixes cmp :: "string \<Rightarrow> string \<Rightarrow> nat \<Rightarrow> int"
  assumes cmp_zero: "cstring a \<Longrightarrow> cstring b \<Longrightarrow> cmp a b n = 0 \<longleftrightarrow> take n a = take n b"
begin

lemma cmp_prefix:
  "cstring s \<Longrightarrow> cstring key \<Longrightarrow> cmp s key (length key) = 0 \<longleftrightarrow> (\<exists>t. s = key @ t)"
  by (auto simp: cmp_zero) (metis append_take_drop_id)

lemma cmp_prefixD:
  "cmp s key (length key) = 0 \<Longrightarrow> cstring s \<Longrightarrow> cstring key \<Longrightarrow> s = key @ drop (length key) s"
  by (auto simp: cmp_prefix)

lemma cmp_word:
  "cstring s \<Longrightarrow> cstring key \<Longrightarrow> length key \<le> length s \<Longrightarrow>
   cmp s key (length key) = 0 \<longleftrightarrow> take (length key) s = key"
  by (simp add: cmp_zero)

end

subsection \<open>Simulation\<close>

text \<open>
  What it is for a component's steps to implement an abstract machine: from every state that
  satisfies the invariant a step succeeds, keeps the invariant and commutes with the abstraction.
  Sequences of steps then do the same.
\<close>

fun run_steps :: "('k \<Rightarrow> 's \<Rightarrow> 's option) \<Rightarrow> 'k list \<Rightarrow> 's \<Rightarrow> 's option" where
  "run_steps step [] s = Some s"
| "run_steps step (k # ks) s = Option.bind (step k s) (run_steps step ks)"

locale simulation =
  fixes ok :: "'s \<Rightarrow> bool" and abs :: "'s \<Rightarrow> 'a"
    and step :: "'k \<Rightarrow> 's \<Rightarrow> 's option" and astep :: "'k \<Rightarrow> 'a \<Rightarrow> 'a"
  assumes simulate: "ok s \<Longrightarrow> \<exists>s'. step k s = Some s' \<and> ok s' \<and> abs s' = astep k (abs s)"
begin

lemma simulate_run:
  "ok s \<Longrightarrow> \<exists>s'. run_steps step ks s = Some s' \<and> ok s' \<and> abs s' = fold astep ks (abs s)"
proof (induction ks arbitrary: s)
  case (Cons k ks)
  obtain s' where "step k s = Some s'" "ok s'" "abs s' = astep k (abs s)"
    using simulate [OF Cons.prems] by blast
  with Cons.IH [of s'] show ?case by auto
qed simp

end

end
