(* ===== verification/Ulib.thy ===== *)
theory Ulib
  imports Prelude
begin

section \<open>ulib.c: strings and memory\<close>

text \<open>
  The string and memory routines of \<^verbatim>\<open>lib/ulib.c\<close>.  The routines that write through pointers, or
  whose loops depend on a terminator being there, are stated over a memory, a function from
  addresses to bytes; the loops that a missing terminator makes endless are partial functions with
  an \<open>option\<close> result.  The read-only string routines also have a version over C strings as lists,
  which the other components call, and a lemma that the two agree.
\<close>

type_synonym mem = "int \<Rightarrow> char"

text \<open>Memory \<open>m\<close> holds the C string \<open>s\<close> at address \<open>p\<close>.\<close>

fun holds :: "mem \<Rightarrow> int \<Rightarrow> string \<Rightarrow> bool" where
  "holds m p [] \<longleftrightarrow> m p = NUL"
| "holds m p (c # s) \<longleftrightarrow> c \<noteq> NUL \<and> m p = c \<and> holds m (p + 1) s"

lemma holds_cong:
  "(\<And>a. p \<le> a \<Longrightarrow> a \<le> p + int (length s) \<Longrightarrow> m' a = m a) \<Longrightarrow> holds m' p s = holds m p s"
  by (induction s arbitrary: p) auto

subsection \<open>strlen, strcmp, strchr, strcpy\<close>

partial_function (option) strlen_loop :: "mem \<Rightarrow> int \<Rightarrow> nat \<Rightarrow> nat option" where
  "strlen_loop m s n = (if m (s + int n) = NUL then Some n else strlen_loop m s (Suc n))"

definition strlen_mem :: "mem \<Rightarrow> int \<Rightarrow> nat option" where
  "strlen_mem m s = strlen_loop m s 0"

lemma strlen_loop_holds: "holds m (p + int n) s \<Longrightarrow> strlen_loop m p n = Some (n + length s)"
proof (induction s arbitrary: n)
  case (Cons c s)
  have "holds m (p + int (Suc n)) s"
    using Cons.prems by (simp add: algebra_simps)
  with Cons show ?case
    by (auto simp: strlen_loop.simps [of m p n])
qed (simp add: strlen_loop.simps)

fun strcmp :: "string \<Rightarrow> string \<Rightarrow> int" where
  "strcmp (p # ps) (q # qs) = (if p = q then strcmp ps qs else uc p - uc q)"
| "strcmp [] qs = - uc (deref qs)"
| "strcmp (p # ps) [] = uc p"

partial_function (option) strcmp_mem :: "mem \<Rightarrow> int \<Rightarrow> int \<Rightarrow> int option" where
  "strcmp_mem m p q =
     (if m p \<noteq> NUL \<and> m p = m q then strcmp_mem m (p + 1) (q + 1)
      else Some (uc (m p) - uc (m q)))"

lemma strcmp_mem_holds: "holds m p s \<Longrightarrow> holds m q t \<Longrightarrow> strcmp_mem m p q = Some (strcmp s t)"
proof (induction s t arbitrary: p q rule: strcmp.induct)
  case (1 c s d t)
  then show ?case by (auto simp: strcmp_mem.simps [of m p q])
next
  case (2 t)
  then show ?case by (cases t) (auto simp: strcmp_mem.simps [of m p q])
next
  case (3 c s)
  then show ?case by (cases s) (auto simp: strcmp_mem.simps [of m p q])
qed

lemma strcmp_eq_0_iff [simp]: "cstring s \<Longrightarrow> cstring t \<Longrightarrow> strcmp s t = 0 \<longleftrightarrow> s = t"
proof (induction s t rule: strcmp.induct)
  case (2 t)
  then show ?case by (cases t) auto
next
  case (3 c s)
  then show ?case by (cases s) auto
qed (auto simp: uc_eq_iff)

lemma strcmp_refl [simp]: "strcmp s s = 0"
  by (induction s) auto

lemma strcmp_Nil [simp]: "strcmp s [] = uc (deref s)"
  by (cases s) auto

lemma strcmp_antisym: "strcmp t s = - strcmp s t"
  by (induction s t rule: strcmp.induct) auto

text \<open>\<open>strcmp\<close> orders strings by their bytes, read as unsigned.\<close>

lemma strcmp_neg_iff:
  "cstring s \<Longrightarrow> cstring t \<Longrightarrow> strcmp s t < 0 \<longleftrightarrow> (s, t) \<in> lexord {(a, b). uc a < uc b}"
proof (induction s t rule: strcmp.induct)
  case (1 p ps q qs)
  show ?case
  proof (cases "p = q")
    case True
    with "1" show ?thesis by (simp add: lexord_cons_cons)
  next
    case False
    then show ?thesis by (simp add: lexord_cons_cons)
  qed
next
  case (2 t)
  then show ?case by (cases t) (simp_all add: uc_pos)
next
  case (3 c s)
  then show ?case by (simp add: not_less)
qed

fun strchr :: "string \<Rightarrow> char \<Rightarrow> string option" where
  "strchr [] c = None"
| "strchr (x # s) c = (if x = c then Some (x # s) else strchr s c)"

lemma strchr_None_iff [simp]: "strchr s c = None \<longleftrightarrow> c \<notin> set s"
  by (induction s) auto

lemma strchr_SomeD: "strchr s c = Some t \<Longrightarrow> s = takeWhile (\<lambda>x. x \<noteq> c) s @ t \<and> t = c # tl t"
  by (induction s) (auto split: if_splits)

lemma strchr_split: "strchr (s @ c # t) c = Some (c # t)" if "c \<notin> set s"
  using that by (induction s) auto

partial_function (option) strcpy_loop :: "mem \<Rightarrow> int \<Rightarrow> int \<Rightarrow> mem option" where
  "strcpy_loop m s t =
     (if m t = NUL then Some (m(s := m t)) else strcpy_loop (m(s := m t)) (s + 1) (t + 1))"

text \<open>
  Copying a string into memory that does not overlap it writes the string and its terminator, and
  nothing else.
\<close>

lemma strcpy_loop_holds:
  assumes "holds m t cs" and "s + int (length cs) < t \<or> t + int (length cs) < s"
  shows "\<exists>m'. strcpy_loop m s t = Some m' \<and> holds m' s cs \<and>
    (\<forall>a. a < s \<or> s + int (length cs) < a \<longrightarrow> m' a = m a)"
  using assms
proof (induction cs arbitrary: m s t)
  case Nil
  then show ?case by (simp add: strcpy_loop.simps)
next
  case (Cons c cs)
  let ?m = "m(s := c)"
  have "holds ?m (t + 1) cs"
    using Cons.prems by (subst holds_cong [where m = m]) auto
  then obtain m' where m': "strcpy_loop ?m (s + 1) (t + 1) = Some m'" "holds m' (s + 1) cs"
    and frame: "\<And>a. a < s + 1 \<or> s + 1 + int (length cs) < a \<Longrightarrow> m' a = ?m a"
    using Cons.IH [of ?m "t + 1" "s + 1"] Cons.prems(2) unfolding length_Cons of_nat_Suc
    by (smt (verit, ccfv_threshold))
  have "strcpy_loop m s t = Some m'"
    using Cons.prems(1) m'(1) by (simp add: strcpy_loop.simps [of m s t])
  then show ?case
    using m'(2) frame [of s] Cons.prems(1) by (auto intro!: frame [THEN trans])
qed

subsection \<open>memset, memmove, memcpy, memcmp\<close>

text \<open>The loop counter is a signed \<open>int\<close>, compared with the unsigned \<open>n\<close>.\<close>

function memset_loop :: "mem \<Rightarrow> int \<Rightarrow> int \<Rightarrow> 32 word \<Rightarrow> 32 word \<Rightarrow> mem" where
  "memset_loop m dst c n i =
     (if i < n then memset_loop (m(dst + sint i := to_char c)) dst c n (i + 1) else m)"
  by pat_completeness auto
termination
  by (relation "measure (\<lambda>(m, dst, c, n, i). unat (n - i))")
    (simp_all add: unat_diff_Suc_less)

declare memset_loop.simps [simp del]

definition memset :: "mem \<Rightarrow> int \<Rightarrow> int \<Rightarrow> 32 word \<Rightarrow> mem" where
  "memset m dst c n = memset_loop m dst c n 0"

fun memmove_fwd :: "mem \<Rightarrow> int \<Rightarrow> int \<Rightarrow> nat \<Rightarrow> mem" where
  "memmove_fwd m dst src 0 = m"
| "memmove_fwd m dst src (Suc n) = memmove_fwd (m(dst := m src)) (dst + 1) (src + 1) n"

fun memmove_bwd :: "mem \<Rightarrow> int \<Rightarrow> int \<Rightarrow> nat \<Rightarrow> mem" where
  "memmove_bwd m dst src 0 = m"
| "memmove_bwd m dst src (Suc n) = memmove_bwd (m(dst - 1 := m (src - 1))) (dst - 1) (src - 1) n"

definition memmove :: "mem \<Rightarrow> int \<Rightarrow> int \<Rightarrow> int \<Rightarrow> mem" where
  "memmove m dst src n =
     (if dst < src then memmove_fwd m dst src (nat n)
      else memmove_bwd m (dst + n) (src + n) (nat n))"

definition memcpy :: "mem \<Rightarrow> int \<Rightarrow> int \<Rightarrow> 32 word \<Rightarrow> mem" where
  "memcpy m dst src n = memmove m dst src (sint n)"

lemma memmove_fwd_eq:
  "dst < src \<Longrightarrow>
   memmove_fwd m dst src n a = (if dst \<le> a \<and> a < dst + int n then m (src + (a - dst)) else m a)"
  by (induction n arbitrary: m dst src) auto

lemma memmove_bwd_eq:
  "src \<le> dst \<Longrightarrow>
   memmove_bwd m dst src n a = (if dst - int n \<le> a \<and> a < dst then m (src + (a - dst)) else m a)"
  by (induction n arbitrary: m dst src) auto

lemma memmove_eq:
  "memmove m dst src n a = (if dst \<le> a \<and> a < dst + n then m (src + (a - dst)) else m a)"
  by (auto simp: memmove_def memmove_fwd_eq memmove_bwd_eq)

fun memcmp_loop :: "mem \<Rightarrow> int \<Rightarrow> int \<Rightarrow> nat \<Rightarrow> int" where
  "memcmp_loop m p1 p2 0 = 0"
| "memcmp_loop m p1 p2 (Suc n) =
     (if m p1 \<noteq> m p2 then sc (m p1) - sc (m p2) else memcmp_loop m (p1 + 1) (p2 + 1) n)"

definition memcmp :: "mem \<Rightarrow> int \<Rightarrow> int \<Rightarrow> 32 word \<Rightarrow> int" where
  "memcmp m p1 p2 n = memcmp_loop m p1 p2 (unat n)"

text \<open>
  \<open>memmove\<close> moves the block as a whole: whatever the overlap, every byte of the destination
  range is the byte that stood at the same offset of the source range before the call, and every
  other byte of memory is untouched.
\<close>

theorem memmove_moves_block:
  "memmove m dst src n a = (if dst \<le> a \<and> a < dst + n then m (src + (a - dst)) else m a)"
  by (rule memmove_eq)

lemma sint_as_unat: "unat n < 2 ^ 31 \<Longrightarrow> sint n = int (unat n)" for n :: "32 word"
  by (simp add: sint32 unat_less_iff)

text \<open>
  \<open>memcpy\<close> takes an unsigned length and hands it to \<open>memmove\<close> as an \<open>int\<close>: lengths below
  \<open>2^31\<close> are copied, larger ones copy nothing.
\<close>

lemma memcpy_small: "unat n < 2 ^ 31 \<Longrightarrow> memcpy m dst src n = memmove m dst src (int (unat n))"
  by (simp add: memcpy_def sint_as_unat)

lemma memcpy_large: "2 ^ 31 \<le> unat n \<Longrightarrow> memcpy m dst src n = m" for n :: "32 word"
proof -
  assume "2 ^ 31 \<le> unat n"
  then have "sint n < 0"
    using uint_bounds32 [of n] by (simp add: sint32 unat_ge_iff)
  then show ?thesis
    by (auto simp: memcpy_def memmove_eq fun_eq_iff)
qed

lemma memcmp_loop_eq_0:
  "memcmp_loop m p1 p2 n = 0 \<longleftrightarrow> (\<forall>i<n. m (p1 + int i) = m (p2 + int i))"
proof (induction n arbitrary: p1 p2)
  case (Suc n)
  show ?case
    using Suc.IH [of "p1 + 1" "p2 + 1"]
    by (auto simp: less_Suc_eq_0_disj all_conj_distrib algebra_simps)
qed simp

lemma memset_loop_eq:
  assumes "unat n \<le> 2 ^ 31" "i \<le> n"
  shows "memset_loop m dst c n i a =
    (if dst + int (unat i) \<le> a \<and> a < dst + int (unat n) then to_char c else m a)"
  using assms
proof (induction m dst c n i arbitrary: a rule: memset_loop.induct)
  case (1 m dst c n i)
  show ?case
  proof (cases "i < n")
    case True
    then have i: "unat i < unat n"
      by (simp add: word_less_nat_alt)
    have i1: "unat (i + 1) = Suc (unat i)"
      using True by (rule unat_Suc_less)
    have si: "sint i = int (unat i)"
      using i "1.prems"(1) by (intro sint_as_unat) linarith
    have "i + 1 \<le> n"
      using i i1 by (simp add: word_le_nat_alt)
    then have "memset_loop (m(dst + sint i := to_char c)) dst c n (i + 1) a =
      (if dst + int (unat (i + 1)) \<le> a \<and> a < dst + int (unat n) then to_char c
       else (m(dst + sint i := to_char c)) a)"
      using "1.IH" True "1.prems"(1) by blast
    then show ?thesis
      using True i i1 by (auto simp: memset_loop.simps [of m dst c n i] si simp del: of_nat_unat)
  next
    case False
    with "1.prems"(2) have "i = n" by simp
    then show ?thesis by (auto simp: memset_loop.simps [of m dst c n n])
  qed
qed

subsection \<open>atoi\<close>

text \<open>
  The accumulator is an \<open>int\<close>; \<open>n * 10 + *s - '0'\<close> adds the character before it subtracts \<open>'0'\<close>.
\<close>

definition atoi_step :: "32 word \<Rightarrow> char \<Rightarrow> 32 word" where
  "atoi_step n c = n * 10 + word_of_int (sc c) - 48"

fun atoi_loop :: "string \<Rightarrow> 32 word \<Rightarrow> 32 word" where
  "atoi_loop [] n = n"
| "atoi_loop (c # s) n = (if is_digit c then atoi_loop s (atoi_step n c) else n)"

definition atoi :: "string \<Rightarrow> int" where
  "atoi s = sint (atoi_loop s 0)"

lemma atoi_loop_foldl: "atoi_loop s n = foldl atoi_step n (takeWhile is_digit s)"
  by (induction s arbitrary: n) auto

interpretation atoi_digits: digit_reader atoi_step uint "2 ^ 32"
proof
  fix c and n :: "32 word" assume "is_digit c"
  then have "atoi_step n c = word_of_int (10 * uint n + int (digit c))"
    by (simp add: atoi_step_def int_digit)
  then have "uint (atoi_step n c) = (10 * uint n + int (digit c)) mod 2 ^ 32"
    by (simp only: uint_word_of_int) simp
  then show "uint (atoi_step n c) mod 2 ^ 32 = (10 * uint n + int (digit c)) mod 2 ^ 32"
    by simp
qed

lemma atoi_run_value:
  assumes "dec_value (takeWhile is_digit s) < 2 ^ 31"
  shows "atoi s = int (dec_value (takeWhile is_digit s))"
proof -
  let ?w = "atoi_loop s 0" and ?v = "int (dec_value (takeWhile is_digit s))"
  have "uint ?w mod 2 ^ 32 = ?v mod 2 ^ 32"
    unfolding atoi_loop_foldl
    by (rule atoi_digits.fold_digits_zero) (simp_all add: set_takeWhile_digit)
  then have "uint ?w = ?v"
    using assms uint_bounds32 [of ?w] by simp
  then have "unat ?w = dec_value (takeWhile is_digit s)"
    by (simp add: unat_eq_nat_uint)
  then show ?thesis
    using assms by (simp add: atoi_def sint_as_unat)
qed

text \<open>
  \<open>atoi\<close> returns the value of the longest run of decimal digits at the start of its
  argument, whenever that value fits an \<open>int\<close>: leading zeros and whatever follows the digits do not
  change it.
\<close>

theorem atoi_value:
  assumes "dec_value (takeWhile is_digit s) < 2 ^ 31"
  shows "atoi s = int (dec_value (takeWhile is_digit s))"
  using assms by (rule atoi_run_value)

theorem atoi_value_witness: "atoi ''00420 ms'' = 420"
proof -
  have "dec_value (takeWhile is_digit ''00420 ms'') = 420"
    by (simp add: is_digit_def digit_def sc_def)
  then show ?thesis
    using atoi_value [of "''00420 ms''"] by simp
qed

subsection \<open>gets\<close>

text \<open>
  \<open>read(0, &c, 1)\<close> is the parameter \<open>rd\<close>: from the state of the outside world it gives the
  return value, the byte, and the next state.  The caller's buffer is an array.
\<close>

function gets_loop ::
  "('w \<Rightarrow> int \<times> char \<times> 'w) \<Rightarrow> int \<Rightarrow> char list \<Rightarrow> nat \<Rightarrow> 'w \<Rightarrow> (char list \<times> nat \<times> 'w) option" where
  "gets_loop rd maxn buf i w =
     (if int i + 1 < maxn then
        (case rd w of (cc, c, w') \<Rightarrow>
           if cc < 1 then Some (buf, i, w')
           else do {
             buf' \<leftarrow> aset buf i c;
             if c = CHR 0x0A \<or> c = CHR 0x0D then Some (buf', Suc i, w')
             else gets_loop rd maxn buf' (Suc i) w'
           })
      else Some (buf, i, w))"
  by pat_completeness auto
termination
  by (relation "measure (\<lambda>(rd, maxn, buf, i, w). nat (maxn - int i))") auto

declare gets_loop.simps [simp del]

definition gets :: "('w \<Rightarrow> int \<times> char \<times> 'w) \<Rightarrow> char list \<Rightarrow> int \<Rightarrow> 'w \<Rightarrow> (char list \<times> 'w) option" where
  "gets rd buf maxn w = do {
     (buf', i, w') \<leftarrow> gets_loop rd maxn buf 0 w;
     buf'' \<leftarrow> aset buf' i NUL;
     Some (buf'', w')
   }"

text \<open>The bytes \<open>gets\<close> takes from the input: it stops after a line end, at end of input or when full.\<close>

lemma gets_loop_safe:
  assumes "maxn \<le> int (length buf)" "int i < maxn"
  shows "\<exists>buf' j w'. gets_loop rd maxn buf i w = Some (buf', j, w') \<and> length buf' = length buf \<and>
    i \<le> j \<and> int j < maxn \<and> take i buf' = take i buf \<and>
    (\<forall>k. i \<le> k \<and> Suc k < j \<longrightarrow> buf' ! k \<notin> {CHR 0x0A, CHR 0x0D})"
  using assms
proof (induction rd maxn buf i w rule: gets_loop.induct)
  case (1 rd maxn buf i w)
  show ?case
  proof (cases "int i + 1 < maxn \<and> \<not> fst (rd w) < 1")
    case False
    then show ?thesis
      using "1.prems" by (auto simp: gets_loop.simps [of rd maxn buf i w] split: prod.splits)
  next
    case True
    obtain cc c w' where rd: "rd w = (cc, c, w')" by (cases "rd w")
    have i: "i < length buf" using True "1.prems" by linarith
    show ?thesis
    proof (cases "c = CHR 0x0A \<or> c = CHR 0x0D")
      case True': True
      then show ?thesis
        using True rd i by (auto simp: gets_loop.simps [of rd maxn buf i w])
    next
      case False
      let ?b = "buf[i := c]"
      obtain buf' j w'' where *: "gets_loop rd maxn ?b (Suc i) w' = Some (buf', j, w'')"
        "length buf' = length ?b" "Suc i \<le> j" "int j < maxn" "take (Suc i) buf' = take (Suc i) ?b"
        "\<forall>k. Suc i \<le> k \<and> Suc k < j \<longrightarrow> buf' ! k \<notin> {CHR 0x0A, CHR 0x0D}"
        using "1.IH" [of cc "(c, w')" c w' ?b] True rd i False "1.prems" by auto
      have "buf' ! i = take (Suc i) buf' ! i" "take i buf' = take i (take (Suc i) buf')"
        by (simp_all add: min_def)
      then have "buf' ! i = c" and "take i buf' = take i buf"
        unfolding *(5) using i by (simp_all add: min_def)
      moreover have "gets_loop rd maxn buf i w = Some (buf', j, w'')"
        using True rd i False *(1) by (simp add: gets_loop.simps [of rd maxn buf i w])
      moreover have "buf' ! k \<notin> {CHR 0x0A, CHR 0x0D}" if "i \<le> k" "Suc k < j" for k
        using that *(6) False \<open>buf' ! i = c\<close> by (cases "k = i") auto
      ultimately show ?thesis
        using *(2-4) by (intro exI [of _ buf'] exI [of _ j] exI [of _ w'']) auto
    qed
  qed
qed

text \<open>
  With a buffer of at least \<open>max\<close> bytes, \<open>gets\<close> writes only inside it whatever the input does,
  and what it leaves there is a terminated line: fewer than \<open>max\<close> bytes before a NUL, with no line
  end except possibly as the last of them.
\<close>

theorem gets_safe:
  assumes "0 < maxn" and "maxn \<le> int (length buf)"
  shows "\<exists>buf' w' j. gets rd buf maxn w = Some (buf', w') \<and> length buf' = length buf \<and>
    int j < maxn \<and> buf' ! j = NUL \<and> (\<forall>k. Suc k < j \<longrightarrow> buf' ! k \<notin> {CHR 0x0A, CHR 0x0D})"
proof -
  obtain buf' j w' where *: "gets_loop rd maxn buf 0 w = Some (buf', j, w')" "length buf' = length buf"
    "int j < maxn" "\<forall>k. Suc k < j \<longrightarrow> buf' ! k \<notin> {CHR 0x0A, CHR 0x0D}"
    using gets_loop_safe [of maxn buf 0 rd w] assms by auto
  moreover have "j < length buf'"
    using * assms by linarith
  ultimately show ?thesis
    by (intro exI [of _ "buf'[j := NUL]"] exI [of _ w'] exI [of _ j]) (auto simp: gets_def)
qed

text \<open>An input that is a list of bytes still to come.\<close>

definition read1 :: "string \<Rightarrow> int \<times> char \<times> string" where
  "read1 inp = (case inp of [] \<Rightarrow> (0, NUL, []) | c # cs \<Rightarrow> (1, c, cs))"

theorem gets_safe_witness:
  "\<exists>buf' w' j. gets read1 (replicate 4 NUL) 4 ''abcdef'' = Some (buf', w') \<and>
    length buf' = 4 \<and> int j < 4 \<and> buf' ! j = NUL"
  using gets_safe [of 4 "replicate 4 NUL" read1 "''abcdef''"] by auto

end
