(* ===== verification/ShEnv.thy ===== *)
theory ShEnv
  imports Ulib
begin

section \<open>sh.c: string helpers, the environment table and variable expansion\<close>

text \<open>
  The shell keeps its environment in \<open>env_vars\<close>, a table of 64 slots (\<open>record\<close> \<open>env_var\<close>), each
  with a name of at most 63 bytes, a value of at most 255 and a \<open>used\<close> flag.  The abstract view is
  the map \<^verbatim>\<open>env_get t\<close>: the locale \<open>env_table\<close> states the map laws the rest of the shell relies on,
  and the interpretation at the end of the table's section proves them for the table.
\<close>

subsection \<open>String helpers\<close>

fun strncmp_local :: "string \<Rightarrow> string \<Rightarrow> nat \<Rightarrow> int" where
  "strncmp_local a b 0 = 0"
| "strncmp_local a b (Suc n) =
     (if deref a \<noteq> deref b then uc (deref a) - uc (deref b)
      else if deref a = NUL then 0
      else strncmp_local (tl a) (tl b) n)"

lemma strncmp_local_0_iff:
  "cstring a \<Longrightarrow> cstring b \<Longrightarrow> strncmp_local a b n = 0 \<longleftrightarrow> take n a = take n b"
proof (induction a b n rule: strncmp_local.induct)
  case (2 a b n)
  then show ?case by (cases a; cases b) auto
qed simp

interpretation sh_cmp: bounded_strcmp strncmp_local
  by unfold_locales (rule strncmp_local_0_iff)

fun contains_loop :: "string \<Rightarrow> string \<Rightarrow> bool" where
  "contains_loop [] needle = False"
| "contains_loop (c # p) needle =
     (strncmp_local (c # p) needle (length needle) = 0 \<or> contains_loop p needle)"

definition contains_local :: "string \<Rightarrow> string \<Rightarrow> bool" where
  "contains_local haystack needle = (needle = [] \<or> contains_loop haystack needle)"

lemma contains_local_iff:
  assumes "cstring h" "cstring n"
  shows "contains_local h n \<longleftrightarrow> (\<exists>u v. h = u @ n @ v)"
proof (cases "n = []")
  case False
  then have "contains_loop h n \<longleftrightarrow> (\<exists>u v. h = u @ n @ v)"
    using assms
  proof (induction h)
    case (Cons c h)
    have "contains_loop (c # h) n \<longleftrightarrow> (\<exists>v. c # h = n @ v) \<or> (\<exists>u v. h = u @ n @ v)"
      using Cons by (simp add: sh_cmp.cmp_prefix)
    also have "\<dots> \<longleftrightarrow> (\<exists>u v. c # h = u @ n @ v)"
      by (metis append_Cons append_Nil neq_Nil_conv list.inject)
    finally show ?case .
  qed simp
  with False show ?thesis by (simp add: contains_local_def)
next
  case True
  then show ?thesis by (metis append_Nil contains_local_def)
qed

fun strcat_local :: "string \<Rightarrow> string \<Rightarrow> string" where
  "strcat_local (d # ds) src = d # strcat_local ds src"
| "strcat_local [] src = src"

text \<open>
  \<open>itoa_local\<close> writes into \<open>buf + off\<close>; \<open>-val\<close> is 32-bit negation.  The digits are produced in
  reverse into \<open>tmp[16]\<close>, at most 15 of them.
\<close>

definition neg32 :: "int \<Rightarrow> int" where
  "neg32 v = (if v = - 2147483648 then v else - v)"

fun rev_digits :: "nat \<Rightarrow> int \<Rightarrow> string" where
  "rev_digits 0 val = []"
| "rev_digits (Suc k) val =
     (if val = 0 then [] else to_char (48 + val mod 10) # rev_digits k (val div 10))"

function itoa_local :: "char list \<Rightarrow> nat \<Rightarrow> int \<Rightarrow> int \<Rightarrow> (char list \<times> nat) option" where
  "itoa_local buf off val bufsz =
     (if bufsz < 2 then Some (buf, 0)
      else if val < 0 then do {
        buf1 \<leftarrow> aset buf off (CHR ''-'');
        (buf2, n) \<leftarrow> itoa_local buf1 (Suc off) (neg32 val) (bufsz - 1);
        Some (buf2, n + 1)
      }
      else if val = 0 then do {
        buf1 \<leftarrow> aset buf off (CHR ''0'');
        buf2 \<leftarrow> aset buf1 (Suc off) NUL;
        Some (buf2, 1)
      }
      else do {
        let tmp = rev_digits 15 val;
        let len = (if bufsz \<le> int (length tmp) then nat (bufsz - 1) else length tmp);
        buf1 \<leftarrow> awrite buf off (rev (take len tmp));
        buf2 \<leftarrow> aset buf1 (off + len) NUL;
        Some (buf2, len)
      })"
  by pat_completeness auto
termination
  by (relation "measure (\<lambda>(buf, off, val, bufsz). nat bufsz)") auto

declare itoa_local.simps [simp del]

lemma rev_digits_value:
  "0 \<le> val \<Longrightarrow> val < 10 ^ k \<Longrightarrow>
   (\<forall>c\<in>set (rev_digits k val). is_digit c) \<and> int (dec_value (rev (rev_digits k val))) = val \<and>
   length (rev_digits k val) \<le> k"
proof (induction k arbitrary: val)
  case (Suc k)
  let ?c = "to_char (48 + val mod 10)"
  have uc: "uc ?c = 48 + val mod 10"
    using pos_mod_bound [of 10 val] pos_mod_sign [of 10 val] by (subst uc_to_char) (auto intro!: mod_pos_pos_trivial)
  then have d: "is_digit ?c" "int (digit ?c) = val mod 10"
    using pos_mod_bound [of 10 val] pos_mod_sign [of 10 val]
    by (auto simp: is_digit_uc digit_def sc_uc)
  have "val div 10 < 10 ^ k"
    using Suc.prems by (simp add: div_less_iff_less_mult)
  with Suc.IH [of "val div 10"] Suc.prems(1) d show ?case
    by auto
qed (simp add: dec_value_def)

lemma rev_digits_nonempty: "0 < val \<Longrightarrow> rev_digits (Suc k) val \<noteq> []"
  by simp

text \<open>
  With room for fifteen digits, \<open>itoa_local\<close> writes the decimal digits of a non-negative number and
  their terminator, and returns how many.
\<close>

lemma itoa_local_nonneg:
  assumes "0 \<le> val" "val < 10 ^ 15" "16 \<le> bufsz" "nat bufsz \<le> length buf"
  shows "\<exists>buf' n. itoa_local buf 0 val bufsz = Some (buf', n) \<and> length buf' = length buf \<and>
    n \<le> 15 \<and> n = length (str_at buf' 0) \<and> (\<forall>c\<in>set (str_at buf' 0). is_digit c) \<and>
    int (dec_value (str_at buf' 0)) = val"
proof (cases "val = 0")
  case True
  have d: "is_digit (CHR ''0'')" "digit (CHR ''0'') = 0"
    by (simp_all add: is_digit_def digit_def sc_def)
  obtain x y b where "buf = x # y # b"
    using assms(3,4) by (cases buf; cases "tl buf") auto
  then show ?thesis
    using True assms d by (auto simp: itoa_local.simps [of "x # y # b" 0 0 bufsz] str_at_def)
next
  case False
  let ?r = "rev_digits 15 val"
  have r: "\<forall>c\<in>set ?r. is_digit c" "int (dec_value (rev ?r)) = val" "length ?r \<le> 15"
    using rev_digits_value [of val 15] assms by auto
  have c: "cstring (rev ?r)"
    using r(1) by (auto simp: cstring_def is_digit_def sc_def)
  let ?b = "rev ?r @ NUL # drop (Suc (length ?r)) buf"
  have "itoa_local buf 0 val bufsz = Some (?b, length ?r)"
    using False assms r(3)
    by (simp add: itoa_local.simps [of buf 0 val bufsz] awrite_def list_update_drop Let_def
        del: rev_digits.simps)
  moreover have "str_at ?b 0 = rev ?r"
    using c by (rule str_at_write)
  ultimately show ?thesis
    using r assms by auto
qed

subsection \<open>The environment table\<close>

record env_var =
  ev_name :: string
  ev_value :: string
  ev_used :: bool

abbreviation MAX_ENV_VARS :: nat where "MAX_ENV_VARS \<equiv> 64"
abbreviation MAX_ENV_NAME :: nat where "MAX_ENV_NAME \<equiv> 64"
abbreviation MAX_ENV_VALUE :: nat where "MAX_ENV_VALUE \<equiv> 256"

type_synonym env = "env_var list"

text \<open>Copying a string into an array of \<open>cap\<close> bytes keeps \<open>cap - 1\<close> of them.\<close>

definition clip :: "nat \<Rightarrow> string \<Rightarrow> string" where
  "clip cap s = (if cap \<le> length s then take (cap - 1) s else s)"

lemma clip_take: "0 < cap \<Longrightarrow> clip cap s = take (cap - 1) s"
  by (auto simp: clip_def)

lemma clip_id [simp]: "length s < cap \<Longrightarrow> clip cap s = s"
  by (simp add: clip_def)

lemma cstring_clip [simp]: "cstring s \<Longrightarrow> cstring (clip cap s)"
  by (simp add: clip_def)

lemma length_clip: "0 < cap \<Longrightarrow> length (clip cap s) < cap"
  by (auto simp: clip_def)

fun env_get :: "env \<Rightarrow> string \<Rightarrow> string option" where
  "env_get [] nm = None"
| "env_get (v # vs) nm =
     (if ev_used v \<and> strcmp (ev_name v) nm = 0 then Some (ev_value v) else env_get vs nm)"

text \<open>The two loops of \<open>env_set\<close>: update the slot that has the name, or fill the first free one.\<close>

fun env_update :: "env \<Rightarrow> string \<Rightarrow> string \<Rightarrow> env option" where
  "env_update [] nm val = None"
| "env_update (v # vs) nm val =
     (if ev_used v \<and> strcmp (ev_name v) nm = 0
      then Some (v\<lparr>ev_value := clip MAX_ENV_VALUE val\<rparr> # vs)
      else map_option ((#) v) (env_update vs nm val))"

fun env_insert :: "env \<Rightarrow> string \<Rightarrow> string \<Rightarrow> env option" where
  "env_insert [] nm val = None"
| "env_insert (v # vs) nm val =
     (if \<not> ev_used v
      then Some (v\<lparr>ev_name := clip MAX_ENV_NAME nm, ev_value := clip MAX_ENV_VALUE val,
                   ev_used := True\<rparr> # vs)
      else map_option ((#) v) (env_insert vs nm val))"

definition env_set :: "env \<Rightarrow> string \<Rightarrow> string \<Rightarrow> env \<times> int" where
  "env_set t nm val =
     (case env_update t nm val of
        Some t' \<Rightarrow> (t', 0)
      | None \<Rightarrow> (case env_insert t nm val of Some t' \<Rightarrow> (t', 0) | None \<Rightarrow> (t, -1)))"

fun env_unset :: "env \<Rightarrow> string \<Rightarrow> env \<times> int" where
  "env_unset [] nm = ([], -1)"
| "env_unset (v # vs) nm =
     (if ev_used v \<and> strcmp (ev_name v) nm = 0 then (v\<lparr>ev_used := False\<rparr> # vs, 0)
      else case env_unset vs nm of (vs', r) \<Rightarrow> (v # vs', r))"

text \<open>
  The invariant of the table: 64 slots; used slots hold terminated strings that fit, under pairwise
  different names.
\<close>

definition slot_ok :: "env_var \<Rightarrow> bool" where
  "slot_ok v \<longleftrightarrow> cstring (ev_name v) \<and> cstring (ev_value v) \<and>
     length (ev_name v) < MAX_ENV_NAME \<and> length (ev_value v) < MAX_ENV_VALUE"

definition used_names :: "env \<Rightarrow> string list" where
  "used_names t = map ev_name (filter ev_used t)"

definition env_ok :: "env \<Rightarrow> bool" where
  "env_ok t \<longleftrightarrow> length t = MAX_ENV_VARS \<and> (\<forall>v\<in>set t. ev_used v \<longrightarrow> slot_ok v) \<and> distinct (used_names t)"

text \<open>The same without the number of slots, for inductions along the table.\<close>

definition slots_ok :: "env \<Rightarrow> bool" where
  "slots_ok t \<longleftrightarrow> (\<forall>v\<in>set t. ev_used v \<longrightarrow> slot_ok v) \<and> distinct (used_names t)"

lemma slots_ok_simps [simp]:
  "slots_ok []"
  "slots_ok (v # vs) \<longleftrightarrow>
     slots_ok vs \<and> (ev_used v \<longrightarrow> slot_ok v \<and> ev_name v \<notin> set (used_names vs))"
  by (auto simp: slots_ok_def used_names_def)

lemma used_names_simps [simp]:
  "used_names [] = []"
  "used_names (v # vs) = (if ev_used v then ev_name v # used_names vs else used_names vs)"
  by (simp_all add: used_names_def)

lemma env_get_None_iff:
  "slots_ok t \<Longrightarrow> cstring nm \<Longrightarrow> env_get t nm = None \<longleftrightarrow> nm \<notin> set (used_names t)"
  by (induction t) (auto simp: slot_ok_def)

lemma env_update_correct:
  assumes "slots_ok t" "cstring nm" "cstring val" "env_update t nm val = Some t'"
  shows "slots_ok t' \<and> length t' = length t \<and> used_names t' = used_names t \<and>
    (\<forall>k. cstring k \<longrightarrow> env_get t' k = (if k = nm then Some (clip MAX_ENV_VALUE val) else env_get t k))"
  using assms
proof (induction t arbitrary: t')
  case (Cons v t)
  then show ?case
    by (cases "ev_used v \<and> ev_name v = nm") (auto simp: slot_ok_def length_clip)
qed simp

lemma env_update_None_iff:
  "slots_ok t \<Longrightarrow> cstring nm \<Longrightarrow> env_update t nm val = None \<longleftrightarrow> nm \<notin> set (used_names t)"
  by (induction t) (auto simp: slot_ok_def)

lemma env_insert_correct:
  assumes "slots_ok t" "cstring nm" "cstring val" "length nm < MAX_ENV_NAME"
    "nm \<notin> set (used_names t)" "env_insert t nm val = Some t'"
  shows "slots_ok t' \<and> length t' = length t \<and> set (used_names t') = insert nm (set (used_names t)) \<and>
    length (used_names t') = Suc (length (used_names t)) \<and>
    (\<forall>k. cstring k \<longrightarrow> env_get t' k = (if k = nm then Some (clip MAX_ENV_VALUE val) else env_get t k))"
  using assms
proof (induction t arbitrary: t')
  case (Cons v t)
  show ?case
  proof (cases "ev_used v")
    case True
    then obtain t1 where "env_insert t nm val = Some t1" "t' = v # t1"
      using Cons.prems by auto
    then show ?thesis
      using Cons True by (auto simp: slot_ok_def)
  next
    case False
    then show ?thesis
      using Cons.prems env_get_None_iff [of t nm] by (auto simp: slot_ok_def length_clip)
  qed
qed simp

lemma env_insert_None_iff: "env_insert t nm val = None \<longleftrightarrow> (\<forall>v\<in>set t. ev_used v)"
  by (induction t) auto

lemma used_names_full: "(\<forall>v\<in>set t. ev_used v) \<longleftrightarrow> length (used_names t) = length t"
  by (metis filter_id_conv length_filter_less length_map nat_neq_iff used_names_def)

lemma env_unset_correct:
  assumes "slots_ok t" "cstring nm" "env_unset t nm = (t', r)"
  shows "slots_ok t' \<and> length t' = length t \<and> set (used_names t') = set (used_names t) - {nm} \<and>
    (r = 0 \<longleftrightarrow> nm \<in> set (used_names t)) \<and>
    (\<forall>k. cstring k \<longrightarrow> env_get t' k = (if k = nm then None else env_get t k))"
  using assms
proof (induction t arbitrary: t' r)
  case (Cons v t)
  show ?case
  proof (cases "ev_used v \<and> ev_name v = nm")
    case True
    then show ?thesis
      using Cons.prems env_get_None_iff [of t nm] by (auto simp: slot_ok_def)
  next
    case False
    obtain t1 r1 where t1: "env_unset t nm = (t1, r1)"
      by (cases "env_unset t nm")
    then have t': "t' = v # t1" "r = r1"
      using Cons.prems False by (auto simp: slot_ok_def)
    show ?thesis
      using Cons.IH [OF _ _ t1] Cons.prems(1,2) False unfolding t' slots_ok_simps slot_ok_def
      by (simp split: if_splits) blast
  qed
qed simp

lemma env_ok_slots: "env_ok t \<longleftrightarrow> length t = MAX_ENV_VARS \<and> slots_ok t"
  by (auto simp: env_ok_def slots_ok_def)

text \<open>
  What the rest of the shell relies on: a bounded map from names to values, that stores at most a
  prefix \<open>stored v\<close> of a value and has \<open>free t\<close> slots left.
\<close>

locale env_table =
  fixes get :: "'t \<Rightarrow> string \<Rightarrow> string option"
    and put :: "'t \<Rightarrow> string \<Rightarrow> string \<Rightarrow> 't \<times> int"
    and del :: "'t \<Rightarrow> string \<Rightarrow> 't \<times> int"
    and ok :: "'t \<Rightarrow> bool"
    and name_ok :: "string \<Rightarrow> bool"
    and stored :: "string \<Rightarrow> string"
    and free :: "'t \<Rightarrow> nat"
  assumes put_ok: "ok t \<Longrightarrow> name_ok k \<Longrightarrow> cstring v \<Longrightarrow> ok (fst (put t k v))"
    and put_succeeds:
      "ok t \<Longrightarrow> name_ok k \<Longrightarrow> cstring v \<Longrightarrow> snd (put t k v) = 0 \<longleftrightarrow> get t k \<noteq> None \<or> 0 < free t"
    and put_fails: "snd (put t k v) \<noteq> 0 \<Longrightarrow> fst (put t k v) = t"
    and get_put:
      "ok t \<Longrightarrow> name_ok k \<Longrightarrow> cstring v \<Longrightarrow> snd (put t k v) = 0 \<Longrightarrow> cstring k' \<Longrightarrow>
       get (fst (put t k v)) k' = (if k' = k then Some (stored v) else get t k')"
    and free_put: "ok t \<Longrightarrow> name_ok k \<Longrightarrow> cstring v \<Longrightarrow> free t \<le> Suc (free (fst (put t k v)))"
    and del_ok: "ok t \<Longrightarrow> cstring k \<Longrightarrow> ok (fst (del t k))"
    and get_del:
      "ok t \<Longrightarrow> cstring k \<Longrightarrow> cstring k' \<Longrightarrow>
       get (fst (del t k)) k' = (if k' = k then None else get t k')"
    and free_del: "ok t \<Longrightarrow> cstring k \<Longrightarrow> free t \<le> free (fst (del t k))"
begin

text \<open>A sequence of assignments with room for all of them: the last one for a name wins.\<close>

lemma put_all:
  assumes "ok t" "\<forall>(k, v)\<in>set kvs. name_ok k \<and> cstring v" "length kvs \<le> free t"
  shows "ok (foldl (\<lambda>t (k, v). fst (put t k v)) t kvs) \<and>
    free t \<le> length kvs + free (foldl (\<lambda>t (k, v). fst (put t k v)) t kvs) \<and>
    (\<forall>k'. cstring k' \<longrightarrow> get (foldl (\<lambda>t (k, v). fst (put t k v)) t kvs) k' =
      (case map_of (rev kvs) k' of Some v \<Rightarrow> Some (stored v) | None \<Rightarrow> get t k'))"
  using assms
proof (induction kvs arbitrary: t)
  case (Cons kv kvs)
  obtain k v where kv: "kv = (k, v)" by (cases kv)
  let ?t = "fst (put t k v)"
  have hyps: "ok t" "name_ok k" "cstring v"
    using Cons.prems kv by auto
  have zero: "snd (put t k v) = 0"
    using put_succeeds [OF hyps] Cons.prems(3) by simp
  have "ok ?t"
    by (rule put_ok [OF hyps])
  moreover have "free t \<le> Suc (free ?t)"
    by (rule free_put [OF hyps])
  moreover have "length kvs \<le> free ?t"
    using \<open>free t \<le> Suc (free ?t)\<close> Cons.prems(3) by simp
  ultimately show ?case
    using Cons.IH [of ?t] Cons.prems(2) get_put [OF hyps zero]
    by (auto simp: kv map_add_def split: option.splits)
qed simp

end

definition env_name_ok :: "string \<Rightarrow> bool" where
  "env_name_ok k \<longleftrightarrow> cstring k \<and> length k < MAX_ENV_NAME"

definition env_free :: "env \<Rightarrow> nat" where
  "env_free t = MAX_ENV_VARS - length (used_names t)"

lemma env_set_cases:
  assumes "env_ok t" "env_name_ok k" "cstring v"
  obtains (updated) t' where "k \<in> set (used_names t)" "env_update t k v = Some t'" "env_set t k v = (t', 0)"
    | (inserted) t' where "k \<notin> set (used_names t)" "env_insert t k v = Some t'" "env_set t k v = (t', 0)"
        "0 < env_free t"
    | (full) "k \<notin> set (used_names t)" "env_set t k v = (t, -1)" "env_free t = 0"
proof -
  have ok: "slots_ok t" "length t = MAX_ENV_VARS" "cstring k"
    using assms by (simp_all add: env_ok_slots env_name_ok_def)
  have le: "length (used_names t) \<le> MAX_ENV_VARS"
    unfolding ok(2) [symmetric] by (simp add: used_names_def)
  show thesis
  proof (cases "k \<in> set (used_names t)")
    case True
    then obtain t' where "env_update t k v = Some t'"
      using env_update_None_iff [OF ok(1,3), of v] by auto
    then show thesis using True by (intro updated [of t']) (auto simp: env_set_def)
  next
    case False
    then have none: "env_update t k v = None"
      using env_update_None_iff [OF ok(1,3), of v] by auto
    show thesis
    proof (cases "env_insert t k v")
      case None
      then have "length (used_names t) = length t"
        using used_names_full [of t] env_insert_None_iff [of t k v] by auto
      with None show thesis
        using False none ok(2) by (intro full) (simp_all add: env_set_def env_free_def)
    next
      case (Some t')
      then have "length (used_names t) \<noteq> length t"
        using used_names_full [of t] env_insert_None_iff [of t k v] by auto
      with Some show thesis
        using False none le ok(2) by (intro inserted [of t']) (auto simp: env_set_def env_free_def)
    qed
  qed
qed

interpretation sh_env: env_table env_get env_set env_unset env_ok env_name_ok "clip MAX_ENV_VALUE" env_free
proof
  fix t k v k'
  { assume h: "env_ok t" "env_name_ok k" "cstring v"
    then have ok: "slots_ok t" "length t = MAX_ENV_VARS" "cstring k" "length k < MAX_ENV_NAME"
      by (simp_all add: env_ok_slots env_name_ok_def)
    note upd = env_update_correct [OF ok(1,3) h(3)]
    note ins = env_insert_correct [OF ok(1,3) h(3) ok(4)]
    show "env_ok (fst (env_set t k v))"
      using h ok by (cases rule: env_set_cases [OF h]) (auto simp: env_ok_slots dest: upd ins)
    show "snd (env_set t k v) = 0 \<longleftrightarrow> env_get t k \<noteq> None \<or> 0 < env_free t"
      using env_get_None_iff [OF ok(1,3)] by (cases rule: env_set_cases [OF h]) auto
    show "env_free t \<le> Suc (env_free (fst (env_set t k v)))"
      by (cases rule: env_set_cases [OF h]) (auto simp: env_free_def dest: upd ins)
    show "env_get (fst (env_set t k v)) k' = (if k' = k then Some (clip MAX_ENV_VALUE v) else env_get t k')"
      if "snd (env_set t k v) = 0" "cstring k'"
      using that by (cases rule: env_set_cases [OF h]) (auto dest: upd ins) }
  show "fst (env_set t k v) = t" if "snd (env_set t k v) \<noteq> 0"
    using that by (auto simp: env_set_def split: option.splits)
  { assume h: "env_ok t" "cstring k"
    obtain t1 r1 where t1: "env_unset t k = (t1, r1)"
      by (cases "env_unset t k")
    note un = env_unset_correct [OF _ h(2) t1]
    show "env_ok (fst (env_unset t k))"
      using un h t1 by (auto simp: env_ok_slots)
    show "env_get (fst (env_unset t k)) k' = (if k' = k then None else env_get t k')" if "cstring k'"
      using un h t1 that by (auto simp: env_ok_slots)
    have "distinct (used_names t)" "distinct (used_names t1)" "set (used_names t1) \<subseteq> set (used_names t)"
      using un h(1) by (auto simp: env_ok_slots slots_ok_def)
    then have "length (used_names t1) \<le> length (used_names t)"
      by (metis card_mono distinct_card finite_set)
    then show "env_free t \<le> env_free (fst (env_unset t k))"
      using t1 by (simp add: env_free_def) }
qed

text \<open>
  The environment table is a bounded map.  On a well-formed table, \<open>env_set\<close> of a name of at
  most 63 bytes keeps the table well-formed and succeeds exactly when the name is already there or a
  slot is free; after a success \<open>env_get\<close> yields the (at most 255-byte prefix of the) value for that
  name and is unchanged for every other; after a failure the table is unchanged.
\<close>

theorem env_set_get:
  assumes "env_ok t" "env_name_ok k" "cstring v"
  shows "env_ok (fst (env_set t k v)) \<and>
    (snd (env_set t k v) = 0 \<longleftrightarrow> env_get t k \<noteq> None \<or> 0 < env_free t) \<and>
    (snd (env_set t k v) \<noteq> 0 \<longrightarrow> fst (env_set t k v) = t) \<and>
    (snd (env_set t k v) = 0 \<longrightarrow> (\<forall>k'. cstring k' \<longrightarrow> env_get (fst (env_set t k v)) k' =
      (if k' = k then Some (clip MAX_ENV_VALUE v) else env_get t k')))"
  using sh_env.put_ok [OF assms] sh_env.put_succeeds [OF assms] sh_env.put_fails [of t k v]
    sh_env.get_put [OF assms] by blast

text \<open>The table before the shell starts: 64 unused slots.\<close>

definition env_blank :: env where
  "env_blank = replicate MAX_ENV_VARS \<lparr>ev_name = [], ev_value = [], ev_used = False\<rparr>"

lemma env_ok_blank [simp]: "env_ok env_blank"
  by (simp add: env_ok_def env_blank_def used_names_def)

lemma env_free_blank [simp]: "env_free env_blank = MAX_ENV_VARS"
  by (simp add: env_free_def env_blank_def used_names_def)

lemma env_get_unused [simp]: "\<forall>v\<in>set t. \<not> ev_used v \<Longrightarrow> env_get t k = None"
  by (induction t) auto

theorem env_set_get_witness:
  "env_get (fst (env_set env_blank ''PATH'' ''/bin'')) ''PATH'' = Some ''/bin''"
proof -
  have h: "env_ok env_blank" "env_name_ok ''PATH''" "cstring ''/bin''"
    by (simp_all add: env_name_ok_def)
  show ?thesis
    using env_set_get [OF h] by auto
qed

subsection \<open>Assignment words\<close>

definition env_name_start :: "int \<Rightarrow> bool" where
  "env_name_start c \<longleftrightarrow> (65 \<le> c \<and> c \<le> 90) \<or> (97 \<le> c \<and> c \<le> 122) \<or> c = 95"

definition env_name_char :: "int \<Rightarrow> bool" where
  "env_name_char c \<longleftrightarrow> env_name_start c \<or> (48 \<le> c \<and> c \<le> 57)"

fun name_len_loop :: "string \<Rightarrow> nat \<Rightarrow> nat" where
  "name_len_loop [] i = 0"
| "name_len_loop (c # w) i =
     (if c = CHR ''='' then i
      else if env_name_char (uc c) then name_len_loop w (Suc i)
      else 0)"

definition env_assignment_name_len :: "string \<Rightarrow> nat" where
  "env_assignment_name_len word =
     (case word of [] \<Rightarrow> 0 | c # w \<Rightarrow> if env_name_start (uc c) then name_len_loop w 1 else 0)"

definition is_env_assignment_word :: "string \<Rightarrow> bool" where
  "is_env_assignment_word word \<longleftrightarrow> 0 < env_assignment_name_len word"

definition assignment_matches_name :: "string \<Rightarrow> string \<Rightarrow> bool" where
  "assignment_matches_name a nm =
     (let alen = env_assignment_name_len a in
      if alen = 0 then False else alen = length nm \<and> strncmp_local a nm alen = 0)"

definition env_set_assignment :: "env \<Rightarrow> string \<Rightarrow> env \<times> int" where
  "env_set_assignment t a =
     (let nlen = env_assignment_name_len a in
      if nlen = 0 then (t, -1)
      else env_set t (take (if MAX_ENV_NAME \<le> nlen then MAX_ENV_NAME - 1 else nlen) a)
             (drop (nlen + 1) a))"

text \<open>A shell identifier, and the assignment words: an identifier, \<open>=\<close>, a value.\<close>

definition ident :: "string \<Rightarrow> bool" where
  "ident s \<longleftrightarrow>
     (case s of [] \<Rightarrow> False | c # cs \<Rightarrow> env_name_start (uc c) \<and> (\<forall>x\<in>set cs. env_name_char (uc x)))"

lemma uc_eq_sign: "uc (CHR ''='') = 61"
  by (simp add: uc_def)

lemma not_name_eq [simp]: "\<not> env_name_char (uc (CHR ''=''))" "\<not> env_name_start (uc (CHR ''=''))"
  by (simp_all add: uc_eq_sign env_name_char_def env_name_start_def)

lemma name_len_loop_pos:
  assumes "0 < name_len_loop w (Suc i)"
  shows "\<exists>u v. w = u @ CHR ''='' # v \<and> (\<forall>x\<in>set u. env_name_char (uc x)) \<and>
    name_len_loop w (Suc i) = Suc i + length u"
  using assms
proof (induction w arbitrary: i)
  case (Cons c w)
  show ?case
  proof (cases "c = CHR ''=''")
    case True
    then show ?thesis by (auto intro!: exI [of _ "[]"])
  next
    case False
    then have c: "env_name_char (uc c)" and pos: "0 < name_len_loop w (Suc (Suc i))"
      using Cons.prems by (auto split: if_splits)
    obtain u v where "w = u @ CHR ''='' # v" "\<forall>x\<in>set u. env_name_char (uc x)"
      "name_len_loop w (Suc (Suc i)) = Suc (Suc i) + length u"
      using Cons.IH [OF pos] by auto
    then show ?thesis
      using False c by (intro exI [of _ "c # u"] exI [of _ v]) auto
  qed
qed simp

lemma assignment_name_len_pos:
  assumes "0 < env_assignment_name_len a"
  shows "\<exists>nm v. ident nm \<and> a = nm @ CHR ''='' # v \<and> env_assignment_name_len a = length nm"
proof -
  obtain c w where a: "a = c # w" "env_name_start (uc c)" "env_assignment_name_len a = name_len_loop w 1"
    using assms by (auto simp: env_assignment_name_len_def split: list.splits if_splits)
  then obtain u v where "w = u @ CHR ''='' # v" "\<forall>x\<in>set u. env_name_char (uc x)"
    "env_assignment_name_len a = Suc (length u)"
    using name_len_loop_pos [of w 0] assms by auto
  with a show ?thesis
    by (intro exI [of _ "c # u"] exI [of _ v]) (auto simp: ident_def)
qed

lemma name_len_loop_word:
  "\<forall>x\<in>set u. env_name_char (uc x) \<Longrightarrow> name_len_loop (u @ CHR ''='' # v) i = i + length u"
proof (induction u arbitrary: i)
  case (Cons c u)
  then have "c \<noteq> CHR ''=''" by auto
  with Cons show ?case by simp
qed simp

lemma assignment_name_len_word:
  "ident nm \<Longrightarrow> env_assignment_name_len (nm @ CHR ''='' # v) = length nm"
  by (cases nm) (auto simp: ident_def env_assignment_name_len_def name_len_loop_word)

lemma is_env_assignment_word_iff:
  "is_env_assignment_word a \<longleftrightarrow> (\<exists>nm v. ident nm \<and> a = nm @ CHR ''='' # v)"
proof
  assume "is_env_assignment_word a"
  then show "\<exists>nm v. ident nm \<and> a = nm @ CHR ''='' # v"
    using assignment_name_len_pos [of a] by (auto simp: is_env_assignment_word_def)
next
  assume "\<exists>nm v. ident nm \<and> a = nm @ CHR ''='' # v"
  then obtain nm v where "ident nm" "a = nm @ CHR ''='' # v" by blast
  moreover from this have "nm \<noteq> []" by (auto simp: ident_def)
  ultimately show "is_env_assignment_word a"
    by (simp add: is_env_assignment_word_def assignment_name_len_word)
qed

lemma ident_cstring: "ident nm \<Longrightarrow> cstring nm"
proof -
  assume "ident nm"
  then have "\<forall>x\<in>set nm. env_name_char (uc x)"
    by (auto simp: ident_def env_name_char_def split: list.splits)
  then show ?thesis
    by (auto simp: cstring_def env_name_char_def env_name_start_def)
qed

lemma assignment_matches_name_iff:
  assumes "ident nm" "cstring v" "cstring k"
  shows "assignment_matches_name (nm @ CHR ''='' # v) k \<longleftrightarrow> nm = k"
proof -
  have "nm \<noteq> []" "cstring nm"
    using assms ident_cstring by (auto simp: ident_def)
  then show ?thesis
    using assms
    by (auto simp: assignment_matches_name_def Let_def assignment_name_len_word sh_cmp.cmp_zero)
qed

end
