(* ===== verification/ShExpand.thy ===== *)
theory ShExpand
  imports ShEnv
begin

section \<open>sh.c: expansion of variables\<close>

text \<open>
  \<open>expand_env_vars\<close> rewrites a line into a static buffer of 2048 bytes, replacing \<^verbatim>\<open>$NAME\<close>,
  \<^verbatim>\<open>${NAME}\<close>, \<^verbatim>\<open>$$\<close> and \<^verbatim>\<open>$?\<close> outside single quotes, and stops when the buffer is full.  The model
  passes the rest of the input and the output so far; \<open>expand_ref\<close> is the same expansion without a
  buffer, and the theorem at the end says how far the two agree.  The process id that replaces
  \<^verbatim>\<open>$$\<close> is the string that \<open>itoa_local (getpid ())\<close> gives, a parameter.
\<close>

abbreviation QUOTE :: char where "QUOTE \<equiv> CHR 0x27"

text \<open>\<open>out_end - expand_buf\<close>: the last byte of the buffer is the terminator's.\<close>

definition out_cap :: nat where
  "out_cap = 2047"

text \<open>\<open>while (*val && out < out_end) *out++ = *val++\<close>\<close>

definition emit :: "string \<Rightarrow> string \<Rightarrow> string" where
  "emit out v = out @ take (out_cap - length out) v"

definition emit_var :: "env \<Rightarrow> string \<Rightarrow> string \<Rightarrow> string" where
  "emit_var e out nm =
     (case env_get e (clip MAX_ENV_NAME nm) of Some v \<Rightarrow> emit out v | None \<Rightarrow> out)"

fun copy_squote :: "string \<Rightarrow> string \<Rightarrow> string \<times> string" where
  "copy_squote [] out = ([], out)"
| "copy_squote (c # p) out =
     (if length out < out_cap
      then (if c = QUOTE then (p, out @ [c]) else copy_squote p (out @ [c]))
      else (c # p, out))"

lemma copy_squote_length: "length (fst (copy_squote p out)) \<le> length p"
  by (induction p out rule: copy_squote.induct) auto

text \<open>Skipping \<^verbatim>\<open>NAME}\<close> after \<^verbatim>\<open>${\<close>; a missing brace is tolerated.\<close>

definition brace_rest :: "string \<Rightarrow> string" where
  "brace_rest p = (case dropWhile (\<lambda>c. c \<noteq> CHR ''}'') p of [] \<Rightarrow> [] | _ # q \<Rightarrow> q)"

lemma brace_rest_length: "length (brace_rest p) \<le> length p"
proof -
  have "length (dropWhile (\<lambda>c. c \<noteq> CHR ''}'') p) \<le> length p"
    by (rule length_dropWhile_le)
  then show ?thesis
    by (auto simp: brace_rest_def split: list.splits)
qed

function (sequential) expand_loop :: "env \<Rightarrow> string \<Rightarrow> string \<Rightarrow> string \<Rightarrow> string \<times> string" where
  "expand_loop e pid [] out = ([], out)"
| "expand_loop e pid (c # p) out =
     (if out_cap \<le> length out then (c # p, out)
      else if c = QUOTE then
        (case copy_squote p (out @ [c]) of (p', out') \<Rightarrow> expand_loop e pid p' out')
      else if c = CHR ''$'' then
        (case p of
           [] \<Rightarrow> expand_loop e pid p (out @ ''$'')
         | d # q \<Rightarrow>
             if d = CHR ''{'' then
               expand_loop e pid (brace_rest q)
                 (emit_var e out (takeWhile (\<lambda>x. x \<noteq> CHR ''}'') q))
             else if d = CHR ''$'' then expand_loop e pid q (emit out pid)
             else if d = CHR ''?'' then expand_loop e pid q (emit out ''0'')
             else if env_name_start (sc d) then
               expand_loop e pid (dropWhile (\<lambda>x. env_name_char (sc x)) p)
                 (emit_var e out (takeWhile (\<lambda>x. env_name_char (sc x)) p))
             else expand_loop e pid p (out @ ''$''))
      else expand_loop e pid p (out @ [c]))"
  by pat_completeness auto
termination
  by (relation "measure (\<lambda>(e, pid, p, out). length p)")
    (auto simp: case_prod_beta
      intro: le_imp_less_Suc le_SucI copy_squote_length brace_rest_length length_dropWhile_le)

text \<open>The contents of \<open>expand_buf\<close>, and \<open>expand_truncated\<close>.\<close>

definition expand_env_vars :: "env \<Rightarrow> string \<Rightarrow> string \<Rightarrow> string \<times> bool" where
  "expand_env_vars e pid input =
     (case expand_loop e pid input [] of (p, out) \<Rightarrow> (out, p \<noteq> []))"

subsection \<open>The expansion without a buffer\<close>

definition var_ref :: "env \<Rightarrow> string \<Rightarrow> string" where
  "var_ref e nm = (case env_get e (clip MAX_ENV_NAME nm) of Some v \<Rightarrow> v | None \<Rightarrow> [])"

text \<open>A single-quoted part, up to its closing quote (or the end), and what follows it.\<close>

fun squote_ref :: "string \<Rightarrow> string \<times> string" where
  "squote_ref [] = ([], [])"
| "squote_ref (c # p) = (if c = QUOTE then ([c], p) else case squote_ref p of (u, r) \<Rightarrow> (c # u, r))"

lemma squote_ref_split: "squote_ref p = (u, r) \<Longrightarrow> p = u @ r"
  by (induction p arbitrary: u r) (auto split: if_splits prod.splits)

lemma squote_ref_length: "length (snd (squote_ref p)) \<le> length p"
  using squote_ref_split [of p "fst (squote_ref p)" "snd (squote_ref p)"]
  by (metis length_append le_add2 prod.collapse)

function (sequential) expand_ref :: "env \<Rightarrow> string \<Rightarrow> string \<Rightarrow> string" where
  "expand_ref e pid [] = []"
| "expand_ref e pid (c # p) =
     (if c = QUOTE then c # fst (squote_ref p) @ expand_ref e pid (snd (squote_ref p))
      else if c = CHR ''$'' then
        (case p of
           [] \<Rightarrow> ''$''
         | d # q \<Rightarrow>
             if d = CHR ''{'' then
               var_ref e (takeWhile (\<lambda>x. x \<noteq> CHR ''}'') q) @ expand_ref e pid (brace_rest q)
             else if d = CHR ''$'' then pid @ expand_ref e pid q
             else if d = CHR ''?'' then ''0'' @ expand_ref e pid q
             else if env_name_start (sc d) then
               var_ref e (takeWhile (\<lambda>x. env_name_char (sc x)) p) @
               expand_ref e pid (dropWhile (\<lambda>x. env_name_char (sc x)) p)
             else ''$'' @ expand_ref e pid p)
      else c # expand_ref e pid p)"
  by pat_completeness auto
termination
  by (relation "measure (\<lambda>(e, pid, p). length p)")
    (auto intro: le_imp_less_Suc le_SucI squote_ref_length brace_rest_length length_dropWhile_le)

text \<open>
  Appending a block to the buffer: from then on the buffer holds the first \<open>out_cap\<close> bytes of the
  text with the block in it.
\<close>

lemma emit_take: "length out \<le> out_cap \<Longrightarrow> emit out v = take out_cap (out @ v)"
  by (simp add: emit_def)

lemma emit_var_take: "length out \<le> out_cap \<Longrightarrow> emit_var e out nm = take out_cap (out @ var_ref e nm)"
  by (auto simp: emit_var_def var_ref_def emit_take split: option.splits)

lemma copy_squote_take:
  "length out \<le> out_cap \<Longrightarrow> copy_squote p out = (p', out') \<Longrightarrow>
   out' = take out_cap (out @ fst (squote_ref p)) \<and>
   (length out' < out_cap \<longrightarrow> p' = snd (squote_ref p))"
proof (induction p out rule: copy_squote.induct)
  case (2 c p out)
  then show ?case by (auto split: if_splits prod.splits)
qed auto

lemma expand_loop_full: "length out = out_cap \<Longrightarrow> expand_loop e pid p out = (p, out)"
  by (cases p) auto

text \<open>One step of the loop, that appends the block \<open>x\<close> and goes on at \<open>q\<close>.\<close>

lemma expand_step:
  assumes run: "expand_loop e pid q ob = (p', out')"
    and ob: "ob = take out_cap (out @ x)"
    and r: "r = x @ y" "length ob < out_cap \<Longrightarrow> y = expand_ref e pid q"
    and IH: "length ob \<le> out_cap \<Longrightarrow>
      out' = take out_cap (ob @ expand_ref e pid q) \<and> (p' \<noteq> [] \<longrightarrow> length out' = out_cap)"
  shows "out' = take out_cap (out @ r) \<and> (p' \<noteq> [] \<longrightarrow> length out' = out_cap)"
proof (cases "length ob < out_cap")
  case True
  then have "ob @ expand_ref e pid q = out @ r" "length ob \<le> out_cap"
    using ob r by simp_all
  then show ?thesis
    using IH by metis
next
  case False
  then have full: "length ob = out_cap"
    using ob by simp
  then have "out_cap \<le> length (out @ x)"
    using ob by simp
  then have "take out_cap (out @ r) = ob"
    using ob r(1) by simp
  moreover have "out' = ob"
    using run expand_loop_full [OF full, of e pid q] by simp
  ultimately show ?thesis
    using full by simp
qed

lemma expand_loop_take:
  assumes "length out \<le> out_cap" "expand_loop e pid p out = (p', out')"
  shows "out' = take out_cap (out @ expand_ref e pid p) \<and> (p' \<noteq> [] \<longrightarrow> length out' = out_cap)"
  using assms
proof (induction e pid p out arbitrary: p' out' rule: expand_loop.induct)
  case (1 e pid out)
  then show ?case by auto
next
  case (2 e pid c p out)
  show ?case
  proof (cases "length out = out_cap")
    case True
    with "2.prems" show ?thesis by auto
  next
    case lt: False
    then have room: "\<not> out_cap \<le> length out"
      using "2.prems" by simp
    note sub = "2.IH" [OF room]
    consider (quote) "c = QUOTE" | (dollar) "c \<noteq> QUOTE" "c = CHR ''$''"
      | (other) "c \<noteq> QUOTE" "c \<noteq> CHR ''$''"
      by blast
    then show ?thesis
    proof cases
      case other
      then have run: "expand_loop e pid p (out @ [c]) = (p', out')"
        using "2.prems"(2) room by simp
      show ?thesis
        by (rule expand_step [OF run _ _ _ sub(8) [OF other _ run], where x = "[c]"])
          (use other room in auto)
    next
      case quote
      obtain q w where q: "copy_squote p (out @ [c]) = (q, w)"
        by (cases "copy_squote p (out @ [c])")
      then have run: "expand_loop e pid q w = (p', out')"
        using "2.prems"(2) room quote by simp
      have w: "w = take out_cap (out @ c # fst (squote_ref p))"
        "length w < out_cap \<longrightarrow> q = snd (squote_ref p)"
        using copy_squote_take [OF _ q] room by auto
      show ?thesis
        by (rule expand_step [OF run w(1) _ _ sub(1) [OF quote q [symmetric] _ run],
              where y = "expand_ref e pid (snd (squote_ref p))"])
          (use quote w(2) in auto)
    next
      case dollar
      show ?thesis
      proof (cases p)
        case Nil
        then have run: "expand_loop e pid p (out @ ''$'') = (p', out')"
          using "2.prems"(2) room dollar by simp
        show ?thesis
          by (rule expand_step [OF run _ _ _ sub(2) [OF dollar Nil _ run], where x = "''$''"])
            (use dollar room Nil in auto)
      next
        case (Cons d q)
        note case_d = sub(3-7) [OF dollar Cons]
        note ref = dollar Cons
        consider (brace) "d = CHR ''{''"
          | (pid) "d \<noteq> CHR ''{''" "d = CHR ''$''"
          | (status) "d \<noteq> CHR ''{''" "d \<noteq> CHR ''$''" "d = CHR ''?''"
          | (name) "d \<noteq> CHR ''{''" "d \<noteq> CHR ''$''" "d \<noteq> CHR ''?''" "env_name_start (sc d)"
          | (lone) "d \<noteq> CHR ''{''" "d \<noteq> CHR ''$''" "d \<noteq> CHR ''?''" "\<not> env_name_start (sc d)"
          by blast
        then show ?thesis
        proof cases
          case brace
          let ?nm = "takeWhile (\<lambda>x. x \<noteq> CHR ''}'') q"
          have run: "expand_loop e pid (brace_rest q) (emit_var e out ?nm) = (p', out')"
            using "2.prems"(2) room dollar Cons brace by simp
          show ?thesis
            by (rule expand_step [OF run emit_var_take _ _ case_d(1) [OF brace _ run]])
              (use dollar Cons brace "2.prems"(1) in auto)
        next
          case pid
          then have run: "expand_loop e pid q (emit out pid) = (p', out')"
            using "2.prems"(2) room dollar Cons by simp
          show ?thesis
            by (rule expand_step [OF run emit_take _ _ case_d(2) [OF pid _ run]])
              (use dollar Cons pid "2.prems"(1) in auto)
        next
          case status
          then have run: "expand_loop e pid q (emit out ''0'') = (p', out')"
            using "2.prems"(2) room dollar Cons by simp
          show ?thesis
            by (rule expand_step [OF run emit_take _ _ case_d(3) [OF status _ run]])
              (use dollar Cons status "2.prems"(1) in auto)
        next
          case name
          let ?nm = "takeWhile (\<lambda>x. env_name_char (sc x)) p"
          have run: "expand_loop e pid (dropWhile (\<lambda>x. env_name_char (sc x)) p) (emit_var e out ?nm) = (p', out')"
            using "2.prems"(2) room dollar Cons name by simp
          show ?thesis
            by (rule expand_step [OF run emit_var_take _ _ case_d(4) [OF name _ run]])
              (use dollar Cons name "2.prems"(1) in auto)
        next
          case lone
          then have run: "expand_loop e pid p (out @ ''$'') = (p', out')"
            using "2.prems"(2) room dollar Cons by simp
          show ?thesis
            by (rule expand_step [OF run _ _ _ case_d(5) [OF lone _ run], where x = "''$''"])
              (use dollar Cons lone room in auto)
        qed
      qed
    qed
  qed
qed

text \<open>
  C8. \<open>expand_env_vars\<close> never writes past its buffer and expands exactly: the buffer holds the first
  2047 bytes of the unbounded expansion \<open>expand_ref\<close>, all of it when that fits; and the flag
  \<open>expand_truncated\<close> is only raised over a full buffer.
\<close>

theorem expand_env_vars_exact:
  "fst (expand_env_vars e pid s) = take out_cap (expand_ref e pid s) \<and>
   (snd (expand_env_vars e pid s) \<longrightarrow> length (fst (expand_env_vars e pid s)) = out_cap)"
  using expand_loop_take [of "[]" e pid s] by (auto simp: expand_env_vars_def split: prod.splits)

theorem expand_env_vars_exact_witness:
  "fst (expand_env_vars [\<lparr>ev_name = ''HOME'', ev_value = ''/root'', ev_used = True\<rparr>] ''7''
     ''a=$HOME/x ${HOME} $$ $? '') = ''a=/root/x /root 7 0 ''"
proof -
  let ?e = "[\<lparr>ev_name = ''HOME'', ev_value = ''/root'', ev_used = True\<rparr>]"
  have "expand_ref ?e ''7'' ''a=$HOME/x ${HOME} $$ $? '' = ''a=/root/x /root 7 0 ''"
    by (simp add: env_name_start_def env_name_char_def sc_def var_ref_def brace_rest_def)
  then show ?thesis
    using expand_env_vars_exact [of ?e "''7''" "''a=$HOME/x ${HOME} $$ $? ''"]
    by (simp add: out_cap_def)
qed

text \<open>Text without quotes and dollars is copied as it is.\<close>

lemma expand_loop_plain:
  "\<forall>c\<in>set u. c \<noteq> QUOTE \<and> c \<noteq> CHR ''$'' \<Longrightarrow> length out + length u \<le> out_cap \<Longrightarrow>
   expand_loop e pid (u @ p) out = expand_loop e pid p (out @ u)"
  by (induction u arbitrary: out) auto

lemma expand_ref_plain:
  "\<forall>c\<in>set u. c \<noteq> QUOTE \<and> c \<noteq> CHR ''$'' \<Longrightarrow> expand_ref e pid (u @ p) = u @ expand_ref e pid p"
  by (induction u) auto

lemma expand_ref_id:
  "\<forall>c\<in>set u. c \<noteq> QUOTE \<and> c \<noteq> CHR ''$'' \<Longrightarrow> expand_ref e pid u = u"
  using expand_ref_plain [of u e pid "[]"] by simp

lemma env_name_char_sc: "env_name_char (sc c) \<longleftrightarrow> env_name_char (uc c)"
  using uc_bounds(2) [of c]
  by (auto simp: sc_uc env_name_char_def env_name_start_def simp del: uc_bounds)

lemma env_name_start_sc: "env_name_start (sc c) \<longleftrightarrow> env_name_start (uc c)"
  using uc_bounds(2) [of c] by (auto simp: sc_uc env_name_start_def simp del: uc_bounds)

lemma ident_scan:
  assumes "ident nm"
  shows "takeWhile (\<lambda>x. env_name_char (sc x)) nm = nm" "dropWhile (\<lambda>x. env_name_char (sc x)) nm = []"
proof -
  have "\<forall>x\<in>set nm. env_name_char (uc x)"
    using assms by (auto simp: ident_def env_name_char_def split: list.splits)
  then show "takeWhile (\<lambda>x. env_name_char (sc x)) nm = nm" "dropWhile (\<lambda>x. env_name_char (sc x)) nm = []"
    by (simp_all add: env_name_char_sc takeWhile_eq_all_conv dropWhile_eq_Nil_conv)
qed

lemma expand_var_at_end:
  assumes "ident nm" "length nm < MAX_ENV_NAME" "env_get e nm = Some v"
    and "\<forall>c\<in>set u. c \<noteq> QUOTE \<and> c \<noteq> CHR ''$''" "length u < out_cap"
  shows "expand_env_vars e pid (u @ CHR ''$'' # nm) = (u @ take (out_cap - length u) v, False)"
proof -
  obtain d q where nm: "nm = d # q" "env_name_start (sc d)"
    using assms(1) by (auto simp: ident_def env_name_start_sc split: list.splits)
  then have d: "d \<noteq> CHR ''{''" "d \<noteq> CHR ''$''" "d \<noteq> CHR ''?''"
    by (auto simp: env_name_start_def sc_def)
  have "expand_loop e pid (u @ CHR ''$'' # nm) [] = expand_loop e pid (CHR ''$'' # nm) u"
    using expand_loop_plain [of u "[]"] assms by simp
  also have "\<dots> = expand_loop e pid [] (emit_var e u nm)"
    using assms(5) nm d ident_scan [OF assms(1)] by simp
  also have "\<dots> = ([], emit u v)"
    using assms by (simp add: emit_var_def)
  finally show ?thesis
    by (simp add: expand_env_vars_def emit_def)
qed

text \<open>
  A value cut off by the end of the buffer is not always reported: when the line ends with
  the variable whose value overflows the buffer, \<open>expand_truncated\<close> stays 0 and the shell goes on
  with the cut line.
\<close>

theorem expand_silent_truncation:
  assumes "ident nm" "length nm < MAX_ENV_NAME" "env_get e nm = Some v"
    and "\<forall>c\<in>set u. c \<noteq> QUOTE \<and> c \<noteq> CHR ''$''"
    and "length u < out_cap" "out_cap < length u + length v"
  shows "length (expand_ref e pid (u @ CHR ''$'' # nm)) > out_cap \<and>
    expand_env_vars e pid (u @ CHR ''$'' # nm) = (u @ take (out_cap - length u) v, False)"
proof -
  obtain d q where nm: "nm = d # q" "env_name_start (sc d)"
    using assms(1) by (auto simp: ident_def env_name_start_sc split: list.splits)
  then have d: "d \<noteq> CHR ''{''" "d \<noteq> CHR ''$''" "d \<noteq> CHR ''?''"
    by (auto simp: env_name_start_def sc_def)
  have "expand_ref e pid (u @ CHR ''$'' # nm) = u @ v"
    using nm d ident_scan [OF assms(1)] assms(2-4) by (simp add: expand_ref_plain var_ref_def)
  then show ?thesis
    using expand_var_at_end [OF assms(1-5)] assms(6) by simp
qed

theorem expand_silent_truncation_witness:
  "snd (expand_env_vars [\<lparr>ev_name = ''V'', ev_value = replicate 200 (CHR ''x''), ev_used = True\<rparr>] ''1''
     (replicate 2000 (CHR ''a'') @ ''$V'')) = False"
proof -
  let ?e = "[\<lparr>ev_name = ''V'', ev_value = replicate 200 (CHR ''x''), ev_used = True\<rparr>]"
  have "length (expand_ref ?e ''1'' (replicate 2000 (CHR ''a'') @ CHR ''$'' # ''V'')) > out_cap \<and>
    expand_env_vars ?e ''1'' (replicate 2000 (CHR ''a'') @ CHR ''$'' # ''V'') =
    (replicate 2000 (CHR ''a'') @ take (out_cap - length (replicate 2000 (CHR ''a''))) (replicate 200 (CHR ''x'')), False)"
    by (rule expand_silent_truncation) (simp_all add: ident_def env_name_start_def uc_def out_cap_def)
  then show ?thesis by simp
qed

end
