(* ===== verification/ShEnvp.thy ===== *)
theory ShEnvp
  imports ShEnv
begin

section \<open>sh.c: default environments, GUI gating, the environment and paths given to exec\<close>

text \<open>
  What the shell puts into its table at start-up, when a command needs the GUI session, the
  \<open>envp\<close> array it builds for a command with leading assignments, and the sequence of paths it tries
  to execute.  Opening device nodes and reading \<^verbatim>\<open>/proc\<close> are parameters.
\<close>

subsection \<open>Default environments\<close>

definition env_sets :: "(string \<times> string) list \<Rightarrow> env \<Rightarrow> env" where
  "env_sets kvs t = foldl (\<lambda>t (k, v). fst (env_set t k v)) t kvs"

definition init_vars :: "(string \<times> string) list" where
  "init_vars =
    [(''PATH'', ''/usr/local/bin:/usr/bin:/bin:/''),
     (''HOME'', ''/root''),
     (''TERM'', ''xterm''),
     (''SHELL'', ''/bin/bash''),
     (''LANG'', ''C''),
     (''LC_ALL'', ''C''),
     (''PYTHONUTF8'', ''1''),
     (''PYTHONIOENCODING'', ''utf-8''),
     (''PYTHONHOME'', ''/''),
     (''PYTHONPATH'', ''/lib/python3.12:/lib/python3.12/site-packages''),
     (''PYTHONDONTWRITEBYTECODE'', ''1'')]"

definition env_init :: "env \<Rightarrow> env" where
  "env_init t = env_sets init_vars (map (\<lambda>v. v\<lparr>ev_used := False\<rparr>) t)"

definition wsl_lib :: string where
  "wsl_lib = ''/usr/lib/wsl/lib''"

text \<open>\<open>dxg\<close> and \<open>render\<close>: whether opening \<^verbatim>\<open>/dev/dxg\<close>, \<^verbatim>\<open>/dev/dri/renderD128\<close> succeeds.\<close>

definition env_enable_gpu_defaults :: "bool \<Rightarrow> bool \<Rightarrow> env \<Rightarrow> env" where
  "env_enable_gpu_defaults dxg render t =
     (if dxg then
        let t1 = env_sets [(''LIBGL_ALWAYS_SOFTWARE'', ''0''), (''GALLIUM_DRIVER'', ''d3d12''),
                           (''MESA_D3D12_DEFAULT_ADAPTER_NAME'', ''NVIDIA''),
                           (''LIBGL_DRIVERS_PATH'', ''/lib/dri'')] t
        in (case env_get t1 ''LD_LIBRARY_PATH'' of
              Some (c # cur) \<Rightarrow>
                if contains_local (c # cur) wsl_lib then t1
                else env_sets [(''LD_LIBRARY_PATH'',
                       take (MAX_ENV_VALUE - 1) (wsl_lib @ '':'' @ c # cur))] t1
            | _ \<Rightarrow> env_sets [(''LD_LIBRARY_PATH'',
                       ''/usr/lib/wsl/lib:/lib:/usr/lib:/lib/x86_64-linux-gnu:/usr/lib/x86_64-linux-gnu'')] t1)
      else if render then
        env_sets [(''LIBGL_ALWAYS_SOFTWARE'', ''0''), (''GALLIUM_DRIVER'', ''virgl''),
                  (''LIBGL_DRIVERS_PATH'', ''/lib/dri'')] t
      else
        fst (env_unset (fst (env_unset (env_sets [(''LIBGL_ALWAYS_SOFTWARE'', ''1'')] t)
          ''GALLIUM_DRIVER'')) ''MESA_D3D12_DEFAULT_ADAPTER_NAME''))"

definition gui_vars1 :: "(string \<times> string) list" where
  "gui_vars1 =
    [(''HOME'', ''/root''), (''PATH'', ''/usr/local/bin:/usr/bin:/bin:/''), (''TERM'', ''dumb''),
     (''PS1'', CHR 0x5C # ''w# ''), (''XDG_RUNTIME_DIR'', ''/tmp''), (''XDG_CACHE_HOME'', ''/tmp/.cache''),
     (''WAYLAND_DISPLAY'', ''wayland-0''), (''GDK_BACKEND'', ''wayland''), (''GDK_GL'', ''gles'')]"

definition gui_vars2 :: "(string \<times> string) list" where
  "gui_vars2 =
    [(''EGL_PLATFORM'', ''wayland''), (''XCURSOR_PATH'', ''/share/icons''), (''XCURSOR_THEME'', ''Adwaita''),
     (''SSL_CERT_FILE'', ''/share/netsurf/ca-bundle''), (''XV6_GUI_SESSION'', ''wayland'')]"

definition env_enable_gui_session :: "bool \<Rightarrow> bool \<Rightarrow> env \<Rightarrow> env" where
  "env_enable_gui_session dxg render t =
     env_sets gui_vars2 (env_enable_gpu_defaults dxg render (env_sets gui_vars1 t))"

subsection \<open>Gating of GUI commands\<close>

fun basename_loop :: "string \<Rightarrow> string \<Rightarrow> string" where
  "basename_loop [] base = base"
| "basename_loop (c # p) base = basename_loop p (if c = CHR ''/'' then p else base)"

definition path_basename :: "string \<Rightarrow> string" where
  "path_basename path = basename_loop path path"

definition is_gui_only_command :: "string \<Rightarrow> bool" where
  "is_gui_only_command cmd \<longleftrightarrow> cmd \<noteq> [] \<and>
     (let base = path_basename cmd in
      strcmp base ''netsurf'' = 0 \<or> strcmp base ''MiniBrowser'' = 0 \<or>
      strcmp base ''weston'' = 0 \<or> strcmp base ''weston-session'' = 0)"

definition is_wayland_client_command :: "string \<Rightarrow> bool" where
  "is_wayland_client_command cmd \<longleftrightarrow> cmd \<noteq> [] \<and>
     (let base = path_basename cmd in
      strcmp base ''weston-terminal'' = 0 \<or> strcmp base ''filemgr'' = 0 \<or>
      strcmp base ''glmaze'' = 0 \<or> strcmp base ''glsmoke'' = 0 \<or>
      strcmp base ''mesaglsmoke'' = 0 \<or> strcmp base ''mesawlegl'' = 0 \<or>
      strcmp base ''mesademo'' = 0 \<or> strcmp base ''peanutgb'' = 0 \<or>
      strcmp base ''netsurf'' = 0 \<or> strcmp base ''MiniBrowser'' = 0)"

definition has_gui_session :: "bool \<Rightarrow> env \<Rightarrow> bool" where
  "has_gui_session gui_shell t \<longleftrightarrow> gui_shell \<and>
     (case env_get t ''XV6_GUI_SESSION'' of None \<Rightarrow> False | Some s \<Rightarrow> strcmp s ''wayland'' = 0) \<and>
     (case env_get t ''XDG_RUNTIME_DIR'' of None \<Rightarrow> False | Some r \<Rightarrow> r \<noteq> []) \<and>
     (case env_get t ''WAYLAND_DISPLAY'' of None \<Rightarrow> False | Some d \<Rightarrow> d \<noteq> [])"

definition refuse_gui_only_without_session :: "bool \<Rightarrow> env \<Rightarrow> string \<Rightarrow> bool" where
  "refuse_gui_only_without_session gui_shell t cmd \<longleftrightarrow>
     \<not> (\<not> is_gui_only_command cmd \<or> has_gui_session gui_shell t)"

text \<open>
  \<open>parent_is_gui_session\<close>: \<open>pid\<close> is the text of \<open>getppid ()\<close>; \<open>rd path n\<close> is what opening and
  reading at most \<open>n\<close> bytes of the file gives (\<^const>\<open>None\<close> when it cannot be opened).
\<close>

definition parent_is_gui_session :: "string \<Rightarrow> (string \<Rightarrow> nat \<Rightarrow> string option) \<Rightarrow> bool" where
  "parent_is_gui_session pid rd =
     (case rd (''/proc/'' @ pid @ ''/status'') 255 of
        None \<Rightarrow> False
      | Some buf \<Rightarrow>
          if buf = [] then False
          else let s = str_at (buf @ [NUL]) 0 in
            contains_local s (''Name:'' @ CHR 0x09 # ''weston-session'' @ [CHR 0x0A]) \<or>
            contains_local s (''Name:'' @ CHR 0x09 # ''weston'' @ [CHR 0x0A]))"

text \<open>The text after the last slash.\<close>

lemma basename_loop_no_slash: "CHR ''/'' \<notin> set p \<Longrightarrow> basename_loop p base = base"
  by (induction p arbitrary: base) auto

lemma basename_loop_slash:
  "CHR ''/'' \<notin> set b \<Longrightarrow> basename_loop (d @ CHR ''/'' # b) base = b"
  by (induction d arbitrary: base) (auto simp: basename_loop_no_slash)

lemma path_basename_no_slash: "CHR ''/'' \<notin> set p \<Longrightarrow> path_basename p = p"
  by (simp add: path_basename_def basename_loop_no_slash)

lemma path_basename_slash: "CHR ''/'' \<notin> set b \<Longrightarrow> path_basename (d @ CHR ''/'' # b) = b"
  by (simp add: path_basename_def basename_loop_slash)

text \<open>
  A GUI-only program is refused outside a GUI session however it is addressed: for any
  directory prefix of \<open>weston\<close>, the shell that was not started as a session shell refuses to run it.
\<close>

theorem gui_only_refused:
  "refuse_gui_only_without_session False t (d @ CHR ''/'' # ''weston'') \<and>
   refuse_gui_only_without_session False t ''weston''"
  using path_basename_slash [of "''weston''" d] path_basename_no_slash [of "''weston''"]
  by (auto simp: refuse_gui_only_without_session_def is_gui_only_command_def has_gui_session_def Let_def)

lemma env_sets_correct:
  assumes "env_ok t" "\<forall>(k, v)\<in>set kvs. env_name_ok k \<and> cstring v" "length kvs \<le> env_free t"
  shows "env_ok (env_sets kvs t)" "env_free t \<le> length kvs + env_free (env_sets kvs t)"
    "cstring k \<Longrightarrow> env_get (env_sets kvs t) k =
      (case map_of (rev kvs) k of Some v \<Rightarrow> Some (clip MAX_ENV_VALUE v) | None \<Rightarrow> env_get t k)"
  using sh_env.put_all [OF assms] by (auto simp: env_sets_def)

lemma env_ok_cleared:
  assumes "length t = MAX_ENV_VARS"
  shows "env_ok (map (\<lambda>v. v\<lparr>ev_used := False\<rparr>) t)" "env_free (map (\<lambda>v. v\<lparr>ev_used := False\<rparr>) t) = MAX_ENV_VARS"
  using assms by (auto simp: env_ok_def used_names_def filter_map o_def env_free_def)

lemma env_init_ok:
  assumes "length t = MAX_ENV_VARS"
  shows "env_ok (env_init t)" "53 \<le> env_free (env_init t)"
  using env_sets_correct(1,2) [OF env_ok_cleared(1) [OF assms], of init_vars] env_ok_cleared(2) [OF assms]
  by (auto simp: env_init_def env_name_ok_def init_vars_def)

text \<open>
  \<open>t'\<close> comes from \<open>t\<close> by operations that use up at most \<open>n\<close> slots and only concern the names of
  \<open>K\<close>.
\<close>

definition env_extends :: "nat \<Rightarrow> string set \<Rightarrow> env \<Rightarrow> env \<Rightarrow> bool" where
  "env_extends n K t t' \<longleftrightarrow> env_ok t' \<and> env_free t \<le> n + env_free t' \<and>
     (\<forall>k. cstring k \<and> k \<notin> K \<longrightarrow> env_get t' k = env_get t k)"

lemma env_extends_refl: "env_ok t \<Longrightarrow> env_extends 0 K t t"
  by (simp add: env_extends_def)

lemma env_extends_mono: "env_extends n K t t' \<Longrightarrow> n \<le> m \<Longrightarrow> env_extends m K t t'"
  by (auto simp: env_extends_def)

lemma env_extends_sets:
  assumes "env_extends n K t t'" "\<forall>(k, v)\<in>set kvs. env_name_ok k \<and> cstring v \<and> k \<in> K"
    "n + length kvs \<le> m" "m \<le> env_free t"
  shows "env_extends m K t (env_sets kvs t')"
proof -
  have "env_ok t'" "length kvs \<le> env_free t'" "\<forall>(k, v)\<in>set kvs. env_name_ok k \<and> cstring v"
    using assms by (auto simp: env_extends_def)
  note sets = env_sets_correct [OF this(1,3,2)]
  have "map_of (rev kvs) k = None" if "k \<notin> K" for k
    using assms(2) that by (auto simp: map_of_eq_None_iff)
  then show ?thesis
    using assms(1,3) sets by (auto simp: env_extends_def)
qed

lemma env_extends_unset:
  assumes "env_extends n K t t'" "cstring k" "k \<in> K"
  shows "env_extends n K t (fst (env_unset t' k))"
proof -
  have ok: "env_ok t'"
    using assms(1) by (simp add: env_extends_def)
  show ?thesis
    using assms sh_env.del_ok [OF ok assms(2)] sh_env.get_del [OF ok assms(2)]
      sh_env.free_del [OF ok assms(2)]
    by (auto simp: env_extends_def)
qed

text \<open>The value found in a well-formed table fits its slot.\<close>

lemma env_get_value:
  "slots_ok t \<Longrightarrow> env_get t k = Some v \<Longrightarrow> cstring v \<and> length v < MAX_ENV_VALUE"
  by (induction t) (auto simp: slot_ok_def split: if_splits)

definition gpu_names :: "string set" where
  "gpu_names = {''LIBGL_ALWAYS_SOFTWARE'', ''GALLIUM_DRIVER'', ''MESA_D3D12_DEFAULT_ADAPTER_NAME'',
     ''LIBGL_DRIVERS_PATH'', ''LD_LIBRARY_PATH''}"

lemma gpu_defaults_extends:
  assumes "env_ok t" "5 \<le> env_free t"
  shows "env_extends 5 gpu_names t (env_enable_gpu_defaults dxg render t)"
proof -
  note sets = env_extends_sets [OF env_extends_refl [OF assms(1)], of _ gpu_names]
  let ?a = "[(''LIBGL_ALWAYS_SOFTWARE'', ''0''), (''GALLIUM_DRIVER'', ''d3d12''),
     (''MESA_D3D12_DEFAULT_ADAPTER_NAME'', ''NVIDIA''), (''LIBGL_DRIVERS_PATH'', ''/lib/dri'')]"
  have a: "env_extends 4 gpu_names t (env_sets ?a t)"
    using assms(2) by (intro sets) (auto simp: env_name_ok_def gpu_names_def)
  have ld: "env_extends 5 gpu_names t (env_sets [(''LD_LIBRARY_PATH'', v)] (env_sets ?a t))"
    if "cstring v" for v
    using that assms(2) by (intro env_extends_sets [OF a]) (auto simp: env_name_ok_def gpu_names_def)
  have path: "cstring (take 255 (wsl_lib @ CHR '':'' # c # cur))"
    if "env_get (env_sets ?a t) ''LD_LIBRARY_PATH'' = Some (c # cur)" for c cur
    using env_get_value [OF _ that] a by (auto simp: env_ok_slots env_extends_def wsl_lib_def)
  have b: "env_extends 3 gpu_names t (env_sets [(''LIBGL_ALWAYS_SOFTWARE'', ''0''),
     (''GALLIUM_DRIVER'', ''virgl''), (''LIBGL_DRIVERS_PATH'', ''/lib/dri'')] t)"
    using assms(2) by (intro sets) (auto simp: env_name_ok_def gpu_names_def)
  have "env_extends 1 gpu_names t (env_sets [(''LIBGL_ALWAYS_SOFTWARE'', ''1'')] t)"
    using assms(2) by (intro sets) (auto simp: env_name_ok_def gpu_names_def)
  then have "env_extends 1 gpu_names t (fst (env_unset (fst (env_unset
      (env_sets [(''LIBGL_ALWAYS_SOFTWARE'', ''1'')] t) ''GALLIUM_DRIVER''))
      ''MESA_D3D12_DEFAULT_ADAPTER_NAME''))"
    by (intro env_extends_unset) (simp_all add: gpu_names_def)
  note c = env_extends_mono [OF this, of 5]
  show ?thesis
    using env_extends_mono [OF a, of 5] env_extends_mono [OF b, of 5] c ld path
    by (auto simp: env_enable_gpu_defaults_def Let_def split: option.splits list.splits)
qed

text \<open>
  After \<open>env_init\<close> and \<open>env_enable_gui_session\<close>, on whatever was in the table before and
  whichever GPU transport is present, the table is well-formed, a shell started as a session shell
  has its GUI session, and it no longer refuses GUI programs.
\<close>

theorem gui_session_established:
  assumes "length t = MAX_ENV_VARS"
  shows "env_ok (env_enable_gui_session dxg render (env_init t)) \<and>
    has_gui_session True (env_enable_gui_session dxg render (env_init t)) \<and>
    \<not> refuse_gui_only_without_session True (env_enable_gui_session dxg render (env_init t)) cmd"
proof -
  let ?t1 = "env_sets gui_vars1 (env_init t)"
  let ?t2 = "env_enable_gpu_defaults dxg render ?t1"
  have "\<forall>(k, v)\<in>set gui_vars1. env_name_ok k \<and> cstring v" "\<forall>(k, v)\<in>set gui_vars2. env_name_ok k \<and> cstring v"
    by (simp_all add: gui_vars1_def gui_vars2_def env_name_ok_def)
  moreover have len: "length gui_vars1 = 9" "length gui_vars2 = 5"
    by (simp_all add: gui_vars1_def gui_vars2_def)
  ultimately have t1: "env_ok ?t1" "44 \<le> env_free ?t1"
    and get1: "\<And>k. cstring k \<Longrightarrow> env_get ?t1 k =
      (case map_of (rev gui_vars1) k of Some v \<Rightarrow> Some (clip MAX_ENV_VALUE v) | None \<Rightarrow> env_get (env_init t) k)"
    using env_sets_correct [OF env_init_ok(1) [OF assms], of gui_vars1] env_init_ok(2) [OF assms]
    by auto
  have t2: "env_extends 5 gpu_names ?t1 ?t2"
    using t1 by (intro gpu_defaults_extends) simp_all
  then have ok2: "env_ok ?t2" "5 \<le> env_free ?t2"
    using t1(2) by (auto simp: env_extends_def)
  have get3: "env_get (env_sets gui_vars2 ?t2) k =
      (case map_of (rev gui_vars2) k of Some v \<Rightarrow> Some (clip MAX_ENV_VALUE v) | None \<Rightarrow> env_get ?t2 k)"
    and ok3: "env_ok (env_sets gui_vars2 ?t2)" if "cstring k" for k
    using env_sets_correct [OF ok2(1), of gui_vars2] ok2(2) len that
    by (auto simp: gui_vars2_def env_name_ok_def)
  have keep: "env_get (env_sets gui_vars2 ?t2) k = Some v"
    if "map_of (rev gui_vars1) k = Some v" "map_of (rev gui_vars2) k = None" "k \<notin> gpu_names"
      "cstring k" "length v < MAX_ENV_VALUE" for k v
    using that t2 by (simp add: get3 get1 env_extends_def)
  have "env_get (env_sets gui_vars2 ?t2) ''XV6_GUI_SESSION'' = Some ''wayland''"
    by (subst get3) (simp_all add: gui_vars2_def)
  moreover have "env_get (env_sets gui_vars2 ?t2) ''XDG_RUNTIME_DIR'' = Some ''/tmp''"
    "env_get (env_sets gui_vars2 ?t2) ''WAYLAND_DISPLAY'' = Some ''wayland-0''"
    by (rule keep; simp add: gui_vars1_def gui_vars2_def gpu_names_def)+
  ultimately have "has_gui_session True (env_enable_gui_session dxg render (env_init t))"
    by (simp add: has_gui_session_def env_enable_gui_session_def)
  then show ?thesis
    using ok3 [of "[]"] by (simp add: env_enable_gui_session_def refuse_gui_only_without_session_def)
qed

theorem gui_session_established_witness:
  "has_gui_session True (env_enable_gui_session True False (env_init env_blank))"
  using gui_session_established [of env_blank True False "''weston''"] by (simp add: env_blank_def)

subsection \<open>The environment given to exec\<close>

definition copy_assignment_env :: "string \<Rightarrow> string" where
  "copy_assignment_env a =
     (let nlen = env_assignment_name_len a in
      take (if MAX_ENV_NAME \<le> nlen then MAX_ENV_NAME - 1 else nlen) a @ CHR ''='' #
      clip MAX_ENV_VALUE (drop (nlen + 1) a))"

text \<open>A later assignment with the same name, looked for among those behind the one at hand.\<close>

fun assignment_has_later_override :: "string \<Rightarrow> string list \<Rightarrow> bool" where
  "assignment_has_later_override a [] = False"
| "assignment_has_later_override a (b # bs) =
     (let nlen = env_assignment_name_len a in
      (nlen = env_assignment_name_len b \<and> strncmp_local a b nlen = 0) \<or>
      assignment_has_later_override a bs)"

fun last_match :: "string list \<Rightarrow> string \<Rightarrow> string option \<Rightarrow> string option" where
  "last_match [] nm m = m"
| "last_match (a # as) nm m = last_match as nm (if assignment_matches_name a nm then Some a else m)"

text \<open>The two loops of \<open>build_exec_envp_with_assignments\<close>; \<open>n\<close> is \<open>out\<close>.\<close>

fun envp_vars :: "env \<Rightarrow> string list \<Rightarrow> nat \<Rightarrow> string list" where
  "envp_vars [] assignv n = []"
| "envp_vars (v # vs) assignv n =
     (if \<not> n < MAX_ENV_VARS then []
      else if \<not> ev_used v then envp_vars vs assignv n
      else
        (case last_match assignv (ev_name v) None of
           Some a \<Rightarrow> copy_assignment_env a
         | None \<Rightarrow> clip MAX_ENV_NAME (ev_name v) @ CHR ''='' # clip MAX_ENV_VALUE (ev_value v))
        # envp_vars vs assignv (Suc n))"

fun envp_new :: "env \<Rightarrow> string list \<Rightarrow> nat \<Rightarrow> string list" where
  "envp_new t [] n = []"
| "envp_new t (a # as) n =
     (if \<not> n < MAX_ENV_VARS then []
      else if \<not> is_env_assignment_word a \<or> assignment_has_later_override a as then envp_new t as n
      else if \<exists>v\<in>set t. ev_used v \<and> assignment_matches_name a (ev_name v) then envp_new t as n
      else copy_assignment_env a # envp_new t as (Suc n))"

definition build_exec_envp_with_assignments :: "env \<Rightarrow> string list \<Rightarrow> string list" where
  "build_exec_envp_with_assignments t assignv =
     (let vars = envp_vars t assignv 0 in vars @ envp_new t assignv (length vars))"

definition gui_defaults :: "string list" where
  "gui_defaults =
    [''XDG_RUNTIME_DIR=/tmp'', ''XDG_CACHE_HOME=/tmp/.cache'', ''WAYLAND_DISPLAY=wayland-0'',
     ''GDK_BACKEND=wayland'', ''GDK_GL=gles'', ''EGL_PLATFORM=wayland'', ''XCURSOR_PATH=/share/icons'',
     ''XCURSOR_THEME=Adwaita'', ''SSL_CERT_FILE=/share/netsurf/ca-bundle'', ''XV6_GUI_SESSION=wayland'']"

definition maybe_add_wayland_client_env :: "bool \<Rightarrow> env \<Rightarrow> string \<Rightarrow> string list \<Rightarrow> nat \<Rightarrow> string list" where
  "maybe_add_wayland_client_env gui_shell t cmd assignv cap =
     (let defaults =
        (if is_wayland_client_command cmd \<and> \<not> has_gui_session gui_shell t
         then take cap gui_defaults else [])
      in defaults @ take (cap - length defaults) assignv)"

text \<open>
  How a program finds a variable in the \<open>envp\<close> it is given: the first entry that starts with the
  name and an equals sign.
\<close>

definition env_entry :: "string \<Rightarrow> string \<Rightarrow> string" where
  "env_entry nm v = nm @ CHR ''='' # v"

fun envp_get :: "string list \<Rightarrow> string \<Rightarrow> string option" where
  "envp_get [] k = None"
| "envp_get (x # xs) k =
     (if take (length k + 1) x = k @ ''='' then Some (drop (length k + 1) x) else envp_get xs k)"

text \<open>An assignment word whose name fits, as the parser hands them to exec.\<close>

definition assignment_ok :: "string \<Rightarrow> bool" where
  "assignment_ok a \<longleftrightarrow> (\<exists>nm v. ident nm \<and> length nm < MAX_ENV_NAME \<and> cstring v \<and> a = env_entry nm v)"

definition assigned :: "string \<Rightarrow> string \<times> string" where
  "assigned a = (let n = env_assignment_name_len a in (take n a, drop (n + 1) a))"

lemma assigned_entry: "ident nm \<Longrightarrow> assigned (env_entry nm v) = (nm, v)"
  by (simp add: assigned_def env_entry_def assignment_name_len_word)

lemma copy_assignment_entry:
  "ident nm \<Longrightarrow> length nm < MAX_ENV_NAME \<Longrightarrow>
   copy_assignment_env (env_entry nm v) = env_entry nm (clip MAX_ENV_VALUE v)"
  by (simp add: copy_assignment_env_def env_entry_def assignment_name_len_word)

lemma assignment_okE:
  assumes "assignment_ok a"
  obtains nm v where "a = env_entry nm v" "ident nm" "length nm < MAX_ENV_NAME" "cstring v" "cstring a"
    "assigned a = (nm, v)" "copy_assignment_env a = env_entry nm (clip MAX_ENV_VALUE v)"
    "is_env_assignment_word a" "\<And>k. cstring k \<Longrightarrow> assignment_matches_name a k \<longleftrightarrow> nm = k"
proof -
  obtain nm v where nm: "ident nm" "length nm < MAX_ENV_NAME" "cstring v" "a = env_entry nm v"
    using assms by (auto simp: assignment_ok_def)
  have "assignment_matches_name a k \<longleftrightarrow> nm = k" if "cstring k" for k
    using nm that by (simp add: env_entry_def assignment_matches_name_iff)
  moreover have "is_env_assignment_word a"
    using nm by (auto simp: is_env_assignment_word_iff env_entry_def)
  moreover have "cstring a"
    using nm ident_cstring by (auto simp: env_entry_def)
  ultimately show thesis
    using nm that assigned_entry copy_assignment_entry by blast
qed

lemma last_match_assigned:
  assumes "\<forall>a\<in>set as. assignment_ok a" "cstring k"
  shows "last_match as k m =
    (case map_of (rev (map assigned as)) k of Some v \<Rightarrow> Some (env_entry k v) | None \<Rightarrow> m)"
  using assms(1)
proof (induction as arbitrary: m)
  case (Cons a as)
  have "assignment_ok a" using Cons.prems by simp
  then obtain nm v where a: "assigned a = (nm, v)" "assignment_matches_name a k \<longleftrightarrow> nm = k" "a = env_entry nm v"
    by (elim assignment_okE) (use assms(2) in auto)
  with Cons show ?case
    by (auto simp: map_add_def split: option.splits)
qed simp

lemma later_override_assigned:
  assumes "\<forall>b\<in>set bs. assignment_ok b" "assignment_ok a"
  shows "assignment_has_later_override a bs \<longleftrightarrow> fst (assigned a) \<in> fst ` assigned ` set bs"
  using assms(1)
proof (induction bs)
  case (Cons b bs)
  have "assignment_ok b" using Cons.prems by simp
  then obtain nb vb where b: "b = env_entry nb vb" "ident nb" "assigned b = (nb, vb)" "cstring b"
    by (elim assignment_okE) blast
  obtain na va where a: "a = env_entry na va" "ident na" "assigned a = (na, va)" "cstring a"
    using assms(2) by (elim assignment_okE) blast
  have "length na = length nb \<and> strncmp_local a b (length na) = 0 \<longleftrightarrow> na = nb"
    using a b by (auto simp: sh_cmp.cmp_zero env_entry_def)
  with Cons a b show ?case
    by (simp add: assignment_name_len_word env_entry_def Let_def)
qed simp

abbreviation no_eq :: "string \<Rightarrow> bool" where
  "no_eq k \<equiv> CHR ''='' \<notin> set k"

lemma entry_match:
  "no_eq nm \<Longrightarrow> no_eq k \<Longrightarrow> take (Suc (length k)) (env_entry nm v) = k @ ''='' \<longleftrightarrow> nm = k"
proof (induction nm arbitrary: k)
  case Nil
  then show ?case by (cases k) (auto simp: env_entry_def)
next
  case (Cons c nm)
  then show ?case by (cases k) (auto simp: env_entry_def)
qed

lemma envp_get_entry:
  "no_eq nm \<Longrightarrow> no_eq k \<Longrightarrow>
   envp_get (env_entry nm v # xs) k = (if nm = k then Some v else envp_get xs k)"
  using entry_match [of nm k v] by (auto simp: env_entry_def)

declare envp_get.simps(2) [simp del]

lemma ident_no_eq: "ident nm \<Longrightarrow> no_eq nm"
proof
  assume "ident nm" "CHR ''='' \<in> set nm"
  then have "\<forall>x\<in>set nm. env_name_char (uc x)"
    by (auto simp: ident_def env_name_char_def split: list.splits)
  then show False
    using \<open>CHR ''='' \<in> set nm\<close> not_name_eq(1) by blast
qed

lemma envp_vars_get:
  assumes "slots_ok t" "\<forall>nm\<in>set (used_names t). no_eq nm" "\<forall>a\<in>set as. assignment_ok a"
    "n + length (used_names t) \<le> MAX_ENV_VARS" "cstring k" "no_eq k"
  shows "length (envp_vars t as n) = length (used_names t) \<and>
    envp_get (envp_vars t as n @ rest) k =
      (if k \<in> set (used_names t)
       then (case map_of (rev (map assigned as)) k of
               Some v \<Rightarrow> Some (clip MAX_ENV_VALUE v) | None \<Rightarrow> env_get t k)
       else envp_get rest k)"
  using assms(1,2,4)
proof (induction t arbitrary: n)
  case (Cons s t)
  show ?case
  proof (cases "ev_used s")
    case False
    then have "n < MAX_ENV_VARS \<or> used_names t = []"
      using Cons.prems(3) by (cases "used_names t") auto
    with Cons False show ?thesis
      by (auto split: option.splits)
  next
    case True
    then have s: "slot_ok s" "no_eq (ev_name s)" "ev_name s \<notin> set (used_names t)" "n < MAX_ENV_VARS"
      using Cons.prems by auto
    let ?e = "case last_match as (ev_name s) None of Some a \<Rightarrow> copy_assignment_env a
       | None \<Rightarrow> clip MAX_ENV_NAME (ev_name s) @ CHR ''='' # clip MAX_ENV_VALUE (ev_value s)"
    let ?v = "case map_of (rev (map assigned as)) (ev_name s) of
       Some v \<Rightarrow> clip MAX_ENV_VALUE v | None \<Rightarrow> ev_value s"
    have "?e = env_entry (ev_name s) ?v"
    proof (cases "map_of (rev (map assigned as)) (ev_name s)")
      case None
      with s show ?thesis
        using last_match_assigned [OF assms(3), of "ev_name s" None]
        by (simp add: slot_ok_def env_entry_def)
    next
      case (Some v)
      then obtain a where a: "a \<in> set as" "assigned a = (ev_name s, v)"
        by (auto dest!: map_of_SomeD)
      then have "ident (ev_name s)"
        using assms(3) by (metis assignment_okE prod.inject)
      with Some s show ?thesis
        using last_match_assigned [OF assms(3), of "ev_name s" None]
        by (simp add: slot_ok_def copy_assignment_entry)
    qed
    then have "envp_vars (s # t) as n = env_entry (ev_name s) ?v # envp_vars t as (Suc n)"
      using True s(4) by simp
    moreover have "slots_ok t" "\<forall>nm\<in>set (used_names t). no_eq nm" "Suc n + length (used_names t) \<le> MAX_ENV_VARS"
      using Cons.prems True by auto
    note Cons.IH [OF this]
    ultimately show ?thesis
      using True s assms(5,6) by (auto simp: envp_get_entry slot_ok_def split: option.splits)
  qed
qed simp

lemma envp_new_get:
  assumes "slots_ok t" "\<forall>a\<in>set as. assignment_ok a" "n + length as \<le> MAX_ENV_VARS"
    "cstring k" "no_eq k" "k \<notin> set (used_names t)"
  shows "envp_get (envp_new t as n) k =
    map_option (clip MAX_ENV_VALUE) (map_of (rev (map assigned as)) k)"
  using assms(2,3)
proof (induction as arbitrary: n)
  case (Cons a as)
  have "assignment_ok a" using Cons.prems by simp
  then obtain nm v where a: "ident nm" "assigned a = (nm, v)" "is_env_assignment_word a"
      "copy_assignment_env a = env_entry nm (clip MAX_ENV_VALUE v)"
      "\<And>k. cstring k \<Longrightarrow> assignment_matches_name a k \<longleftrightarrow> nm = k"
    by (elim assignment_okE) blast
  have IH: "envp_get (envp_new t as m) k =
      map_option (clip MAX_ENV_VALUE) (map_of (rev (map assigned as)) k)" if "m + length as \<le> MAX_ENV_VARS" for m
    using Cons.IH [OF _ that] Cons.prems(1) by simp
  have later: "assignment_has_later_override a as \<longleftrightarrow> map_of (rev (map assigned as)) nm \<noteq> None"
    using later_override_assigned [of as a] Cons.prems(1) a(2) by (auto simp: map_of_eq_None_iff)
  have present: "(\<exists>v\<in>set t. ev_used v \<and> assignment_matches_name a (ev_name v)) \<longleftrightarrow> nm \<in> set (used_names t)"
    using assms(1) a(5) by (auto simp: slots_ok_def slot_ok_def used_names_def)
  show ?case
    using Cons.prems(2) assms(5,6) a IH [of n] IH [of "Suc n"]
    by (auto simp: later present map_add_def envp_get_entry ident_no_eq split: option.splits)
qed simp

text \<open>
  C24. The environment a command is executed with is the shell's table overridden by the command's
  assignment words, the last word for a name winning: with room for all of them, a program that
  looks a name up in the \<open>envp\<close> it gets finds the (at most 255-byte prefix of the) last value
  assigned to it, else the value in the table, else nothing.
\<close>

theorem build_exec_envp_lookup:
  assumes "env_ok t" "\<forall>nm\<in>set (used_names t). no_eq nm" "\<forall>a\<in>set as. assignment_ok a"
    and "length (used_names t) + length as \<le> MAX_ENV_VARS" "cstring k" "no_eq k"
  shows "envp_get (build_exec_envp_with_assignments t as) k =
    (case map_of (rev (map assigned as)) k of
       Some v \<Rightarrow> Some (clip MAX_ENV_VALUE v) | None \<Rightarrow> env_get t k)"
proof -
  have ok: "slots_ok t" using assms(1) by (simp add: env_ok_slots)
  note vars = envp_vars_get [OF ok assms(2,3) _ assms(5,6), of 0]
  show ?thesis
    using vars [of "envp_new t as (length (used_names t))"] assms(4)
      envp_new_get [OF ok assms(3) assms(4) assms(5,6)] env_get_None_iff [OF ok assms(5)]
    by (auto simp: build_exec_envp_with_assignments_def Let_def split: option.splits)
qed

theorem build_exec_envp_lookup_witness:
  "envp_get (build_exec_envp_with_assignments env_blank [''A=1'', ''B=2'', ''A=3'']) ''A'' = Some ''3''"
proof -
  have A: "assignment_ok ''A=1''" "assignment_ok ''B=2''" "assignment_ok ''A=3''"
    by (auto simp: assignment_ok_def ident_def env_name_start_def uc_def env_entry_def
        intro: exI [of _ "''A''"] exI [of _ "''B''"])
  have "used_names env_blank = []"
    by (simp add: used_names_def env_blank_def)
  then show ?thesis
    using build_exec_envp_lookup [of env_blank "[''A=1'', ''B=2'', ''A=3'']" "''A''"] A
    by (auto simp: assigned_def env_assignment_name_len_def env_name_start_def uc_def)
qed

subsection \<open>The paths tried by exec\<close>

text \<open>
  \<open>execve\<close> only returns when it fails, so what \<open>exec_with_path_env\<close> does is determined by the
  sequence of paths it tries; \<^const>\<open>None\<close> is a write past \<open>fullpath[512]\<close>.
\<close>

definition exec_fullpath :: "string \<Rightarrow> string \<Rightarrow> string option" where
  "exec_fullpath dir cmd =
     (let d = (if last dir \<noteq> CHR ''/'' then dir @ ''/'' else dir) in
      if length d + length cmd + 1 \<le> 512 then Some (d @ cmd) else None)"

text \<open>The first component of a colon-separated path, and what follows its colon.\<close>

definition colon_head :: "string \<Rightarrow> string" where
  "colon_head p = takeWhile (\<lambda>c. c \<noteq> CHR '':'') p"

definition colon_rest :: "string \<Rightarrow> string" where
  "colon_rest p = (case dropWhile (\<lambda>c. c \<noteq> CHR '':'') p of [] \<Rightarrow> [] | _ # q \<Rightarrow> q)"

lemma colon_rest_less: "p \<noteq> [] \<Longrightarrow> length (colon_rest p) < length p"
proof (cases "dropWhile (\<lambda>c. c \<noteq> CHR '':'') p")
  case (Cons c q)
  then show ?thesis
    using length_dropWhile_le [of "\<lambda>c. c \<noteq> CHR '':''" p] by (simp add: colon_rest_def)
qed (simp only: colon_rest_def, simp)

lemma colon_split:
  "CHR '':'' \<notin> set d \<Longrightarrow> colon_head (d @ CHR '':'' # p) = d"
  "CHR '':'' \<notin> set d \<Longrightarrow> colon_rest (d @ CHR '':'' # p) = p"
  "CHR '':'' \<notin> set d \<Longrightarrow> colon_head d = d"
  "CHR '':'' \<notin> set d \<Longrightarrow> colon_rest d = []"
  by (induction d) (auto simp: colon_head_def colon_rest_def)

function exec_search :: "string \<Rightarrow> string \<Rightarrow> string list option" where
  "exec_search p cmd =
     (if p = [] then Some []
      else if colon_head p = [] then exec_search (colon_rest p) cmd
      else do {
        full \<leftarrow> exec_fullpath (colon_head p) cmd;
        more \<leftarrow> exec_search (colon_rest p) cmd;
        Some (full # more)
      })"
  by pat_completeness auto
termination
  by (relation "measure (\<lambda>(p, cmd). length p)") (simp_all add: colon_rest_less)

declare exec_search.simps [simp del]

definition exec_attempts :: "env \<Rightarrow> string \<Rightarrow> string list option" where
  "exec_attempts t cmd =
     (if CHR ''/'' \<in> set cmd then Some [cmd]
      else case env_get t ''PATH'' of
        None \<Rightarrow> Some [cmd]
      | Some path \<Rightarrow> map_option ((#) cmd) (exec_search (clip MAX_ENV_VALUE path) cmd))"

text \<open>The directories of a \<open>PATH\<close>: its non-empty components.\<close>

fun path_join :: "string list \<Rightarrow> string" where
  "path_join [] = []"
| "path_join [d] = d"
| "path_join (d # ds) = d @ CHR '':'' # path_join ds"

lemma exec_search_Nil: "exec_search [] cmd = Some []"
  by (simp add: exec_search.simps)

lemma exec_search_last:
  "CHR '':'' \<notin> set d \<Longrightarrow> d \<noteq> [] \<Longrightarrow>
   exec_search d cmd = map_option (\<lambda>full. [full]) (exec_fullpath d cmd)"
  by (subst exec_search.simps) (simp add: colon_split exec_search_Nil split: bind_splits option.splits)

lemma exec_search_colon:
  "CHR '':'' \<notin> set d \<Longrightarrow> exec_search (d @ CHR '':'' # p) cmd =
     (if d = [] then exec_search p cmd
      else Option.bind (exec_fullpath d cmd) (\<lambda>full. map_option ((#) full) (exec_search p cmd)))"
  using colon_split(2) [of "[]" p]
  by (subst exec_search.simps) (auto simp: colon_split split: option.splits bind_splits)

lemma exec_fullpath_fits:
  "length d + length cmd + 2 \<le> 512 \<Longrightarrow> exec_fullpath d cmd = Some (the (exec_fullpath d cmd))"
  by (simp add: exec_fullpath_def Let_def)

lemma exec_search_dirs:
  assumes "\<forall>d\<in>set ds. CHR '':'' \<notin> set d \<and> length d + length cmd + 2 \<le> 512"
  shows "exec_search (path_join ds) cmd =
    Some (map (\<lambda>d. the (exec_fullpath d cmd)) (filter (\<lambda>d. d \<noteq> []) ds))"
  using assms
proof (induction ds rule: path_join.induct)
  case 1
  show ?case by (simp add: exec_search_Nil)
next
  case (2 d)
  then show ?case
    using exec_fullpath_fits [of d cmd] by (auto simp: exec_search_Nil exec_search_last)
next
  case (3 d e ds)
  have IH: "exec_search (path_join (e # ds)) cmd =
    Some (map (\<lambda>d. the (exec_fullpath d cmd)) (filter (\<lambda>d. d \<noteq> []) (e # ds)))"
    by (rule "3.IH") (use "3.prems" in simp)
  obtain full where "exec_fullpath d cmd = Some full"
    using "3.prems" exec_fullpath_fits [of d cmd] by auto
  then show ?case
    using "3.prems" IH by (simp add: exec_search_colon)
qed

text \<open>
  A command name without a slash is tried in the current directory first and then in each
  non-empty directory of \<open>PATH\<close>, in order, with exactly one slash between directory and name.
\<close>

theorem exec_attempts_path:
  assumes "env_get t ''PATH'' = Some (path_join ds)" "length (path_join ds) < MAX_ENV_VALUE"
    and "\<forall>d\<in>set ds. CHR '':'' \<notin> set d" "CHR ''/'' \<notin> set cmd" "length cmd \<le> 254"
  shows "exec_attempts t cmd = Some (cmd #
    map (\<lambda>d. (if last d = CHR ''/'' then d else d @ ''/'') @ cmd) (filter (\<lambda>d. d \<noteq> []) ds))"
proof -
  have len: "length d \<le> length (path_join ds)" if "d \<in> set ds" for d
    using that by (induction ds rule: path_join.induct) auto
  then have fits: "\<forall>d\<in>set ds. CHR '':'' \<notin> set d \<and> length d + length cmd + 2 \<le> 512"
    using assms by fastforce
  have "the (exec_fullpath d cmd) = (if last d = CHR ''/'' then d else d @ ''/'') @ cmd" if "d \<in> set ds" for d
    using fits that by (auto simp: exec_fullpath_def Let_def)
  then show ?thesis
    using exec_search_dirs [OF fits] assms by (auto simp: exec_attempts_def)
qed

theorem exec_attempts_path_witness:
  "exec_attempts (env_init env_blank) ''wc'' =
     Some [''wc'', ''/usr/local/bin/wc'', ''/usr/bin/wc'', ''/bin/wc'', ''/wc'']"
proof -
  let ?ds = "[''/usr/local/bin'', ''/usr/bin'', ''/bin'', ''/'']"
  have "env_get (env_init env_blank) ''PATH'' = Some (path_join ?ds)"
    using env_sets_correct(3) [OF env_ok_cleared(1), of env_blank init_vars "''PATH''"] env_ok_cleared(2) [of env_blank]
    by (simp add: env_init_def init_vars_def env_name_ok_def env_blank_def)
  then have "exec_attempts (env_init env_blank) ''wc'' = Some (''wc'' #
    map (\<lambda>d. (if last d = CHR ''/'' then d else d @ ''/'') @ ''wc'') (filter (\<lambda>d. d \<noteq> []) ?ds))"
    by (rule exec_attempts_path) simp_all
  then show ?thesis by simp
qed

text \<open>
  The path buffer is not guarded: a command word without a slash that is longer than the
  buffer leaves for it overruns \<open>fullpath\<close> at the first directory of \<open>PATH\<close>.
\<close>

theorem exec_long_command_overruns:
  assumes "env_get t ''PATH'' = Some (d @ CHR '':'' # path)" "d \<noteq> []" "CHR '':'' \<notin> set d"
    and "length d < 200" "CHR ''/'' \<notin> set cmd" "512 \<le> length d + length cmd"
  shows "exec_attempts t cmd = None"
proof -
  have "\<exists>rest. clip MAX_ENV_VALUE (d @ CHR '':'' # path) = d @ CHR '':'' # rest"
    using assms(4) by (auto simp: clip_take take_Cons' intro!: exI)
  then obtain rest where rest: "clip MAX_ENV_VALUE (d @ CHR '':'' # path) = d @ CHR '':'' # rest"
    by auto
  have "exec_search (d @ CHR '':'' # rest) cmd = None"
    using assms(2,3,6) by (simp add: exec_search_colon exec_fullpath_def Let_def)
  then show ?thesis
    using assms(1,5) rest by (simp add: exec_attempts_def)
qed

theorem exec_long_command_overruns_witness:
  "exec_attempts (env_init env_blank) (replicate 600 (CHR ''a'')) = None"
proof -
  have "env_get (env_init env_blank) ''PATH'' = Some (''/usr/local/bin'' @ CHR '':'' # ''/usr/bin:/bin:/'')"
    using env_sets_correct(3) [OF env_ok_cleared(1), of env_blank init_vars "''PATH''"] env_ok_cleared(2) [of env_blank]
    by (simp add: env_init_def init_vars_def env_name_ok_def env_blank_def)
  then show ?thesis
    by (rule exec_long_command_overruns) simp_all
qed

end
