(* ===== verification/ShEdit.thy ===== *)
theory ShEdit
  imports Ulib
begin

section \<open>sh.c: the line buffer, the history and the terminal\<close>

text \<open>
  The interactive shell edits a line in a fixed buffer of 1024 bytes, keeps the last 32 lines in a
  ring and redraws the line with a few control sequences.  The record holds the global variables of
  \<open>sh.c\<close> that this code reads and writes, \<open>term_out\<close> the bytes it has written to the terminal, and
  every buffer access goes through the checked array operations, so that an operation is
  \<^const>\<open>None\<close> when it leaves a buffer.

  The abstract machine of the second half is a zipper (the text before and after the cursor) with a
  list of at most 32 lines, and a row of a terminal that understands the control sequences;
  the lemmas show that each operation implements its abstract counterpart and that the row
  keeps showing the line, with the terminal's cursor where the editor believes it to be.
\<close>

abbreviation LINE_BUF_SIZE :: nat where "LINE_BUF_SIZE \<equiv> 1024"
abbreviation HISTORY_SIZE :: nat where "HISTORY_SIZE \<equiv> 32"
abbreviation ESC :: char where "ESC \<equiv> CHR 0x1b"
abbreviation BEL :: char where "BEL \<equiv> CHR 0x07"
abbreviation BS :: char where "BS \<equiv> CHR 0x08"

record editor =
  line_buf :: "char list"
  line_len :: nat
  cursor_pos :: nat
  history :: "string list"
  history_count :: nat
  history_idx :: nat
  history_start :: nat
  cwd_path :: string
  user_name :: string
  user_uid :: int
  term_out :: string

subsection \<open>Terminal control\<close>

definition term_write :: "string \<Rightarrow> editor \<Rightarrow> editor" where
  "term_write s e = e\<lparr>term_out := term_out e @ s\<rparr>"

definition term_putc :: "char \<Rightarrow> editor \<Rightarrow> editor" where
  "term_putc c = term_write [c]"

text \<open>\<open>term_write(&line_buf[i], n)\<close>\<close>

definition term_write_buf :: "nat \<Rightarrow> nat \<Rightarrow> editor \<Rightarrow> editor option" where
  "term_write_buf i n e = map_option (\<lambda>s. term_write s e) (aslice (line_buf e) i n)"

fun term_cursor_left :: "nat \<Rightarrow> editor \<Rightarrow> editor" where
  "term_cursor_left 0 e = e"
| "term_cursor_left (Suc n) e = term_cursor_left n (term_write (ESC # ''[D'') e)"

fun term_cursor_right :: "nat \<Rightarrow> editor \<Rightarrow> editor" where
  "term_cursor_right 0 e = e"
| "term_cursor_right (Suc n) e = term_cursor_right n (term_write (ESC # ''[C'') e)"

definition term_clear_to_eol :: "editor \<Rightarrow> editor" where
  "term_clear_to_eol = term_write (ESC # ''[K'')"

definition term_bell :: "editor \<Rightarrow> editor" where
  "term_bell = term_putc BEL"

definition term_clear_screen :: "editor \<Rightarrow> editor" where
  "term_clear_screen = term_write (ESC # ''[2J'' @ ESC # ''[H'')"

definition term_show_prompt :: "editor \<Rightarrow> editor" where
  "term_show_prompt e =
     term_write (if user_uid e = 0 then ''# '' else ''$ '')
       (term_write (cwd_path e) (term_write '':'' (term_write (user_name e) e)))"

subsection \<open>Line buffer operations\<close>

definition line_clear :: "editor \<Rightarrow> editor option" where
  "line_clear e = do {
     b \<leftarrow> aset (line_buf e) 0 NUL;
     Some (e\<lparr>line_buf := b, line_len := 0, cursor_pos := 0\<rparr>)
   }"

text \<open>\<open>for (int i = line_len; i > cursor_pos; i--) line_buf[i] = line_buf[i - 1];\<close>\<close>

fun shift_right :: "nat \<Rightarrow> char list \<Rightarrow> nat \<Rightarrow> char list option" where
  "shift_right cur b i =
     (if cur < i then do {
        c \<leftarrow> aget b (i - 1);
        b' \<leftarrow> aset b i c;
        shift_right cur b' (i - 1)
      } else Some b)"

text \<open>\<open>for (int i = cursor_pos; i < line_len - 1; i++) line_buf[i] = line_buf[i + 1];\<close>\<close>

function shift_left :: "nat \<Rightarrow> char list \<Rightarrow> nat \<Rightarrow> char list option" where
  "shift_left len b i =
     (if i + 1 < len then do {
        c \<leftarrow> aget b (i + 1);
        b' \<leftarrow> aset b i c;
        shift_left len b' (i + 1)
      } else Some b)"
  by pat_completeness auto
termination
  by (relation "measure (\<lambda>(len, b, i). len - i)") auto

declare shift_right.simps [simp del] shift_left.simps [simp del]

definition cursor_back :: "editor \<Rightarrow> editor" where
  "cursor_back e =
     (if cursor_pos e < line_len e then term_cursor_left (line_len e - cursor_pos e) e else e)"

definition line_insert_char :: "char \<Rightarrow> editor \<Rightarrow> editor option" where
  "line_insert_char c e =
     (if LINE_BUF_SIZE - 1 \<le> line_len e then Some (term_bell e)
      else do {
        b \<leftarrow> shift_right (cursor_pos e) (line_buf e) (line_len e);
        b \<leftarrow> aset b (cursor_pos e) c;
        b \<leftarrow> aset b (line_len e + 1) NUL;
        let e = e\<lparr>line_buf := b, line_len := line_len e + 1\<rparr>;
        e \<leftarrow> term_write_buf (cursor_pos e) (line_len e - cursor_pos e) e;
        Some (cursor_back (e\<lparr>cursor_pos := cursor_pos e + 1\<rparr>))
      })"

text \<open>The part that both deletions share: the tail moves left over the character at the cursor.\<close>

definition delete_at_cursor :: "editor \<Rightarrow> editor option" where
  "delete_at_cursor e = do {
     b \<leftarrow> shift_left (line_len e) (line_buf e) (cursor_pos e);
     b \<leftarrow> aset b (line_len e - 1) NUL;
     Some (e\<lparr>line_buf := b, line_len := line_len e - 1\<rparr>)
   }"

definition redraw_tail :: "editor \<Rightarrow> editor option" where
  "redraw_tail e =
     map_option (\<lambda>e. cursor_back (term_clear_to_eol e))
       (term_write_buf (cursor_pos e) (line_len e - cursor_pos e) e)"

definition line_delete_char :: "editor \<Rightarrow> editor option" where
  "line_delete_char e =
     (if cursor_pos e = 0 then Some (term_bell e)
      else do {
        e \<leftarrow> delete_at_cursor (e\<lparr>cursor_pos := cursor_pos e - 1\<rparr>);
        redraw_tail (term_write [BS] e)
      })"

definition line_delete_forward :: "editor \<Rightarrow> editor option" where
  "line_delete_forward e =
     (if line_len e \<le> cursor_pos e then Some (term_bell e)
      else do {
        e \<leftarrow> delete_at_cursor e;
        redraw_tail e
      })"

definition line_move_left :: "editor \<Rightarrow> editor" where
  "line_move_left e =
     (if 0 < cursor_pos e then term_cursor_left 1 (e\<lparr>cursor_pos := cursor_pos e - 1\<rparr>) else e)"

definition line_move_right :: "editor \<Rightarrow> editor" where
  "line_move_right e =
     (if cursor_pos e < line_len e then term_cursor_right 1 (e\<lparr>cursor_pos := cursor_pos e + 1\<rparr>) else e)"

definition line_move_home :: "editor \<Rightarrow> editor" where
  "line_move_home e =
     (if 0 < cursor_pos e then (term_cursor_left (cursor_pos e) e)\<lparr>cursor_pos := 0\<rparr> else e)"

definition line_move_end :: "editor \<Rightarrow> editor" where
  "line_move_end e =
     (if cursor_pos e < line_len e
      then (term_cursor_right (line_len e - cursor_pos e) e)\<lparr>cursor_pos := line_len e\<rparr> else e)"

definition line_kill_to_end :: "editor \<Rightarrow> editor option" where
  "line_kill_to_end e = do {
     let e = (term_clear_to_eol e)\<lparr>line_len := cursor_pos e\<rparr>;
     b \<leftarrow> aset (line_buf e) (line_len e) NUL;
     Some (e\<lparr>line_buf := b\<rparr>)
   }"

definition line_kill_all :: "editor \<Rightarrow> editor option" where
  "line_kill_all e =
     line_clear (term_clear_to_eol (if 0 < cursor_pos e then term_cursor_left (cursor_pos e) e else e))"

definition line_set :: "string \<Rightarrow> editor \<Rightarrow> editor option" where
  "line_set s e = do {
     let e = term_clear_to_eol (if 0 < cursor_pos e then term_cursor_left (cursor_pos e) e else e);
     let n = (if LINE_BUF_SIZE \<le> length s then LINE_BUF_SIZE - 1 else length s);
     b \<leftarrow> awrite (line_buf e) 0 (take n s);
     b \<leftarrow> aset b n NUL;
     term_write_buf 0 n (e\<lparr>line_buf := b, line_len := n, cursor_pos := n\<rparr>)
   }"

subsection \<open>History\<close>

definition history_add :: "string \<Rightarrow> editor \<Rightarrow> editor option" where
  "history_add line e =
     (if line = [] then Some e
      else do {
        dup \<leftarrow> (if 0 < history_count e
                 then map_option (\<lambda>l. strcmp l line = 0)
                        (aget (history e) ((history_start e + history_count e - 1) mod HISTORY_SIZE))
                 else Some False);
        if dup then Some e
        else do {
          let (idx, e) =
            (if history_count e < HISTORY_SIZE
             then (history_count e, e\<lparr>history_count := history_count e + 1\<rparr>)
             else (history_start e, e\<lparr>history_start := (history_start e + 1) mod HISTORY_SIZE\<rparr>));
          let n = (if LINE_BUF_SIZE \<le> length line then LINE_BUF_SIZE - 1 else length line);
          h \<leftarrow> aset (history e) idx (take n line);
          Some (e\<lparr>history := h\<rparr>)
        }
      })"

definition history_prev :: "editor \<Rightarrow> editor option" where
  "history_prev e =
     (if history_count e = 0 \<or> history_idx e = 0 then Some (term_bell e)
      else do {
        let e = e\<lparr>history_idx := history_idx e - 1\<rparr>;
        s \<leftarrow> aget (history e) ((history_start e + history_idx e) mod HISTORY_SIZE);
        line_set s e
      })"

definition history_next :: "editor \<Rightarrow> editor option" where
  "history_next e =
     (if history_idx e + 1 < history_count e then do {
        let e = e\<lparr>history_idx := history_idx e + 1\<rparr>;
        s \<leftarrow> aget (history e) ((history_start e + history_idx e) mod HISTORY_SIZE);
        line_set s e
      }
      else if history_idx e + 1 = history_count e
      then line_set [] (e\<lparr>history_idx := history_count e\<rparr>)
      else Some (term_bell e))"

definition history_reset :: "editor \<Rightarrow> editor" where
  "history_reset e = e\<lparr>history_idx := history_count e\<rparr>"

subsection \<open>The keys that edit\<close>

text \<open>The extended keys, and the arms of the \<open>switch\<close> of \<open>do_readline\<close> that only edit the line.\<close>

abbreviation KEY_EXT_UP :: int where "KEY_EXT_UP \<equiv> 257"
abbreviation KEY_EXT_DOWN :: int where "KEY_EXT_DOWN \<equiv> 258"
abbreviation KEY_EXT_LEFT :: int where "KEY_EXT_LEFT \<equiv> 259"
abbreviation KEY_EXT_RIGHT :: int where "KEY_EXT_RIGHT \<equiv> 260"
abbreviation KEY_EXT_HOME :: int where "KEY_EXT_HOME \<equiv> 261"
abbreviation KEY_EXT_END :: int where "KEY_EXT_END \<equiv> 262"
abbreviation KEY_EXT_DELETE :: int where "KEY_EXT_DELETE \<equiv> 263"

definition edit_key :: "int \<Rightarrow> editor \<Rightarrow> editor option" where
  "edit_key k e =
     (if k = 0x15 then line_kill_all e
      else if k = 0x0b then line_kill_to_end e
      else if k = 0x01 then Some (line_move_home e)
      else if k = 0x05 then Some (line_move_end e)
      else if k = 0x08 \<or> k = 0x7f then line_delete_char e
      else if k = KEY_EXT_UP then history_prev e
      else if k = KEY_EXT_DOWN then history_next e
      else if k = KEY_EXT_LEFT then Some (line_move_left e)
      else if k = KEY_EXT_RIGHT then Some (line_move_right e)
      else if k = KEY_EXT_HOME then Some (line_move_home e)
      else if k = KEY_EXT_END then Some (line_move_end e)
      else if k = KEY_EXT_DELETE then line_delete_forward e
      else if 32 \<le> k \<and> k < 127 then line_insert_char (to_char k) e
      else Some e)"

section \<open>The abstract line editor\<close>

record zipper =
  z_left :: string
  z_right :: string
  z_hist :: "string list"
  z_idx :: nat

definition z_line :: "zipper \<Rightarrow> string" where
  "z_line z = z_left z @ z_right z"

definition z_insert :: "char \<Rightarrow> zipper \<Rightarrow> zipper" where
  "z_insert c z = (if length (z_line z) < 1023 then z\<lparr>z_left := z_left z @ [c]\<rparr> else z)"

definition z_backspace :: "zipper \<Rightarrow> zipper" where
  "z_backspace z = z\<lparr>z_left := butlast (z_left z)\<rparr>"

definition z_delete :: "zipper \<Rightarrow> zipper" where
  "z_delete z = z\<lparr>z_right := tl (z_right z)\<rparr>"

definition z_move_left :: "zipper \<Rightarrow> zipper" where
  "z_move_left z =
     (if z_left z = [] then z
      else z\<lparr>z_left := butlast (z_left z), z_right := last (z_left z) # z_right z\<rparr>)"

definition z_move_right :: "zipper \<Rightarrow> zipper" where
  "z_move_right z =
     (case z_right z of [] \<Rightarrow> z | c # r \<Rightarrow> z\<lparr>z_left := z_left z @ [c], z_right := r\<rparr>)"

definition z_home :: "zipper \<Rightarrow> zipper" where
  "z_home z = z\<lparr>z_left := [], z_right := z_line z\<rparr>"

definition z_end :: "zipper \<Rightarrow> zipper" where
  "z_end z = z\<lparr>z_left := z_line z, z_right := []\<rparr>"

definition z_set :: "string \<Rightarrow> zipper \<Rightarrow> zipper" where
  "z_set s z = z\<lparr>z_left := s, z_right := []\<rparr>"

definition z_prev :: "zipper \<Rightarrow> zipper" where
  "z_prev z =
     (if z_hist z = [] \<or> z_idx z = 0 then z
      else z_set (z_hist z ! (z_idx z - 1)) (z\<lparr>z_idx := z_idx z - 1\<rparr>))"

definition z_next :: "zipper \<Rightarrow> zipper" where
  "z_next z =
     (if z_idx z + 1 < length (z_hist z)
      then z_set (z_hist z ! (z_idx z + 1)) (z\<lparr>z_idx := z_idx z + 1\<rparr>)
      else if z_idx z + 1 = length (z_hist z) then z_set [] (z\<lparr>z_idx := length (z_hist z)\<rparr>)
      else z)"

definition z_key :: "int \<Rightarrow> zipper \<Rightarrow> zipper" where
  "z_key k z =
     (if k = 0x15 then z_set [] z
      else if k = 0x0b then z\<lparr>z_right := []\<rparr>
      else if k = 0x01 \<or> k = KEY_EXT_HOME then z_home z
      else if k = 0x05 \<or> k = KEY_EXT_END then z_end z
      else if k = 0x08 \<or> k = 0x7f then z_backspace z
      else if k = KEY_EXT_UP then z_prev z
      else if k = KEY_EXT_DOWN then z_next z
      else if k = KEY_EXT_LEFT then z_move_left z
      else if k = KEY_EXT_RIGHT then z_move_right z
      else if k = KEY_EXT_DELETE then z_delete z
      else if 32 \<le> k \<and> k < 127 then z_insert (to_char k) z
      else z)"

text \<open>The history as a list, oldest line first, and adding a line to at most 32 of them.\<close>

definition hist :: "editor \<Rightarrow> string list" where
  "hist e = map (\<lambda>i. history e ! ((history_start e + i) mod HISTORY_SIZE)) [0..<history_count e]"

definition h_add :: "string \<Rightarrow> string list \<Rightarrow> string list" where
  "h_add line h =
     (if line = [] \<or> (h \<noteq> [] \<and> last h = line) then h
      else drop (Suc (length h) - HISTORY_SIZE) (h @ [line]))"

definition ed_abs :: "editor \<Rightarrow> zipper" where
  "ed_abs e = \<lparr>z_left = take (cursor_pos e) (line_buf e),
     z_right = take (line_len e - cursor_pos e) (drop (cursor_pos e) (line_buf e)),
     z_hist = hist e, z_idx = history_idx e\<rparr>"

definition hist_ok :: "editor \<Rightarrow> bool" where
  "hist_ok e \<longleftrightarrow> length (history e) = HISTORY_SIZE \<and> history_count e \<le> HISTORY_SIZE \<and>
     history_start e < HISTORY_SIZE \<and> history_idx e \<le> history_count e \<and>
     (history_count e < HISTORY_SIZE \<longrightarrow> history_start e = 0) \<and>
     (\<forall>s\<in>set (history e). cstring s \<and> length s < LINE_BUF_SIZE)"

definition line_ok :: "editor \<Rightarrow> bool" where
  "line_ok e \<longleftrightarrow> length (line_buf e) = LINE_BUF_SIZE \<and> line_len e < LINE_BUF_SIZE \<and>
     cursor_pos e \<le> line_len e \<and> line_buf e ! line_len e = NUL \<and> cstring (take (line_len e) (line_buf e))"

definition ed_ok :: "editor \<Rightarrow> bool" where
  "ed_ok e \<longleftrightarrow> line_ok e \<and> hist_ok e"

text \<open>An editor at a given buffer split: what \<open>line_ok\<close> gives and takes.\<close>

lemma line_okE:
  assumes "line_ok e"
  obtains l r t where "line_buf e = l @ r @ NUL # t" "cursor_pos e = length l"
    "line_len e = length l + length r" "length l + length r + length t = 1023"
    "cstring l" "cstring r" "z_left (ed_abs e) = l" "z_right (ed_abs e) = r"
proof
  let ?b = "line_buf e"
  let ?l = "take (cursor_pos e) ?b" and ?r = "take (line_len e - cursor_pos e) (drop (cursor_pos e) ?b)"
  have lr: "?l @ ?r = take (line_len e) ?b"
    using assms by (simp add: line_ok_def flip: take_add)
  show "?b = ?l @ ?r @ NUL # drop (Suc (line_len e)) ?b"
    using assms lr id_take_nth_drop [of "line_len e" ?b]
    by (simp add: line_ok_def flip: append_assoc)
  have "cstring (?l @ ?r)"
    using assms by (simp only: lr line_ok_def)
  then show "cstring ?l" "cstring ?r" by simp_all
qed (use assms in \<open>auto simp: line_ok_def ed_abs_def\<close>)

lemma line_okI:
  assumes "line_buf e = l @ r @ NUL # t" "cursor_pos e = length l" "line_len e = length l + length r"
    and "length l + length r + length t = 1023" "cstring l" "cstring r"
  shows "line_ok e" "z_left (ed_abs e) = l" "z_right (ed_abs e) = r"
  using assms by (simp_all add: line_ok_def ed_abs_def nth_append)

lemma shift_right_split:
  "shift_right (length l) (l @ r @ x # t) (length l + length r) = Some (l @ hd (r @ [x]) # r @ t)"
proof (induction r arbitrary: x t rule: rev_induct)
  case Nil
  show ?case by (simp add: shift_right.simps)
next
  case (snoc y r)
  show ?case
    using snoc.IH [of y "y # t"]
    by (subst shift_right.simps) (simp add: nth_append list_update_append hd_append)
qed

lemma shift_left_split:
  "shift_left (length l + Suc (length r)) (l @ d # r @ t) (length l) = Some (l @ r @ last (d # r) # t)"
proof (induction r arbitrary: l d)
  case Nil
  show ?case by (simp add: shift_left.simps)
next
  case (Cons y r)
  show ?case
    using Cons.IH [of "l @ [y]" y]
    by (subst shift_left.simps) (simp add: nth_append list_update_append)
qed

subsection \<open>The terminal's row\<close>

text \<open>
  The row of the terminal that the prompt stands in, and what the bytes the editor writes do to it:
  a printable byte is put at the column and moves it, backspace and \<^verbatim>\<open>ESC [ D\<close> move left,
  \<^verbatim>\<open>ESC [ C\<close> right, \<^verbatim>\<open>ESC [ K\<close> clears to the end of the row, the bell does nothing.
\<close>

type_synonym screen = "(nat \<Rightarrow> char) \<times> nat"

fun vt :: "string \<Rightarrow> screen \<Rightarrow> screen" where
  "vt [] scr = scr"
| "vt (c # w) (row, col) =
     (if c = BS then vt w (row, col - 1)
      else if c = BEL then vt w (row, col)
      else if c = ESC then
        (case w of
           b # d # w' \<Rightarrow>
             vt w' (if d = CHR ''D'' then (row, col - 1)
                    else if d = CHR ''C'' then (row, col + 1)
                    else if d = CHR ''K'' then (\<lambda>i. if i < col then row i else CHR '' '', col)
                    else (row, col))
         | _ \<Rightarrow> (row, col))
      else vt w (row(col := c), col + 1))"

definition printable :: "char \<Rightarrow> bool" where
  "printable c \<longleftrightarrow> 32 \<le> uc c \<and> uc c < 127"

definition paint :: "string \<Rightarrow> nat \<Rightarrow> char" where
  "paint s = (\<lambda>i. if i < length s then s ! i else CHR '' '')"

text \<open>What the row shows when the prompt is \<open>pr\<close>: the line behind it, the cursor in its place.\<close>

definition view :: "string \<Rightarrow> zipper \<Rightarrow> screen" where
  "view pr z = (paint (pr @ z_line z), length pr + length (z_left z))"

definition plain :: "zipper \<Rightarrow> bool" where
  "plain z \<longleftrightarrow> (\<forall>c\<in>set (z_line z). printable c) \<and> (\<forall>s\<in>set (z_hist z). \<forall>c\<in>set s. printable c)"

lemma paint_put: "(paint (x @ y))(length x := c) = paint (x @ c # tl y)"
proof
  fix i
  show "((paint (x @ y))(length x := c)) i = paint (x @ c # tl y) i"
    by (cases y; cases "i - length x") (auto simp: paint_def nth_append nth_Cons')
qed

lemma printable_ctl: "printable c \<Longrightarrow> c \<noteq> BS \<and> c \<noteq> BEL \<and> c \<noteq> ESC"
  by (auto simp: printable_def uc_def)

lemma vt_print:
  "\<forall>c\<in>set s. printable c \<Longrightarrow>
   vt (s @ w) (paint (x @ y), length x) = vt w (paint (x @ s @ drop (length s) y), length x + length s)"
proof (induction s arbitrary: x y)
  case (Cons c s)
  then show ?case
    using Cons.IH [of "x @ [c]" "tl y"] printable_ctl [of c] paint_put [of x y c]
    by (simp add: drop_Suc)
qed simp

lemma vt_left: "vt (concat (replicate n (ESC # ''[D'')) @ w) (row, col) = vt w (row, col - n)"
  by (induction n arbitrary: col) auto

lemma vt_right: "vt (concat (replicate n (ESC # ''[C'')) @ w) (row, col) = vt w (row, col + n)"
  by (induction n arbitrary: col) auto

lemma vt_clear: "vt (ESC # CHR ''['' # CHR ''K'' # w) (paint (x @ y), length x) = vt w (paint x, length x)"
proof -
  have "(\<lambda>i. if i < length x then paint (x @ y) i else CHR '' '') = paint x"
    by (auto simp: paint_def nth_append)
  then show ?thesis by simp
qed

subsection \<open>Each operation implements its counterpart\<close>

definition implements :: "(editor \<Rightarrow> editor option) \<Rightarrow> (zipper \<Rightarrow> zipper) \<Rightarrow> bool" where
  "implements op zop \<longleftrightarrow> (\<forall>e. ed_ok e \<longrightarrow> (\<exists>e' w. op e = Some e' \<and> ed_ok e' \<and>
     ed_abs e' = zop (ed_abs e) \<and> term_out e' = term_out e @ w \<and>
     (plain (ed_abs e) \<longrightarrow> plain (ed_abs e') \<and>
       (\<forall>pr rest. vt (w @ rest) (view pr (ed_abs e)) = vt rest (view pr (ed_abs e'))))))"

lemma term_ops [simp]:
  "term_putc c e = term_write [c] e"
  "term_bell e = term_write [BEL] e"
  "term_clear_to_eol e = term_write (ESC # ''[K'') e"
  by (simp_all add: term_putc_def term_bell_def term_clear_to_eol_def)

lemma term_cursor_left_eq [simp]:
  "term_cursor_left n e = term_write (concat (replicate n (ESC # ''[D''))) e"
  by (induction n arbitrary: e) (auto simp: term_write_def)

lemma term_cursor_right_eq [simp]:
  "term_cursor_right n e = term_write (concat (replicate n (ESC # ''[C''))) e"
  by (induction n arbitrary: e) (auto simp: term_write_def)

lemma term_write_fields [simp]:
  "line_buf (term_write s e) = line_buf e" "line_len (term_write s e) = line_len e"
  "cursor_pos (term_write s e) = cursor_pos e" "history (term_write s e) = history e"
  "history_count (term_write s e) = history_count e" "history_idx (term_write s e) = history_idx e"
  "history_start (term_write s e) = history_start e" "term_out (term_write s e) = term_out e @ s"
  "ed_abs (term_write s e) = ed_abs e" "ed_ok (term_write s e) = ed_ok e"
  by (simp_all add: term_write_def ed_abs_def hist_def ed_ok_def line_ok_def hist_ok_def)

lemma hist_cong:
  assumes "history e' = history e" "history_count e' = history_count e"
    "history_start e' = history_start e"
  shows "hist e' = hist e" "history_idx e' = history_idx e \<Longrightarrow> hist_ok e \<Longrightarrow> hist_ok e'"
  using assms by (simp_all add: hist_def hist_ok_def)

lemma ed_abs_eqI:
  "z_left (ed_abs e) = z_left z \<Longrightarrow> z_right (ed_abs e) = z_right z \<Longrightarrow> hist e = z_hist z \<Longrightarrow>
   history_idx e = z_idx z \<Longrightarrow> ed_abs e = z"
  by (cases z) (simp add: ed_abs_def)

lemma ed_abs_hist [simp]: "z_hist (ed_abs e) = hist e" "z_idx (ed_abs e) = history_idx e"
  by (simp_all add: ed_abs_def)

text \<open>
  The shared shape of the proofs: an editor at the split \<open>l\<close>, \<open>r\<close> of its line, the editor it
  becomes when an operation leaves the split \<open>l'\<close>, \<open>r'\<close> and history index \<open>i\<close> and has written \<open>w\<close>,
  and what \<open>w\<close> has to do to the terminal.
\<close>

definition at_split :: "editor \<Rightarrow> string \<Rightarrow> string \<Rightarrow> string \<Rightarrow> bool" where
  "at_split e l r t \<longleftrightarrow> ed_ok e \<and> line_buf e = l @ r @ NUL # t \<and> cursor_pos e = length l \<and>
     line_len e = length l + length r \<and> length l + length r + length t = 1023 \<and> cstring l \<and> cstring r \<and>
     ed_abs e = \<lparr>z_left = l, z_right = r, z_hist = hist e, z_idx = history_idx e\<rparr> \<and>
     history_idx e \<le> history_count e"

definition to_split :: "editor \<Rightarrow> string \<Rightarrow> string \<Rightarrow> string \<Rightarrow> nat \<Rightarrow> string \<Rightarrow> editor" where
  "to_split e l r t i w = e\<lparr>line_buf := l @ r @ NUL # t, line_len := length l + length r,
     cursor_pos := length l, history_idx := i, term_out := term_out e @ w\<rparr>"

definition draws :: "string \<Rightarrow> string \<Rightarrow> string \<Rightarrow> string \<Rightarrow> string \<Rightarrow> bool" where
  "draws w l r l' r' \<longleftrightarrow> (\<forall>pr rest. vt (w @ rest) (paint (pr @ l @ r), length pr + length l) =
     vt rest (paint (pr @ l' @ r'), length pr + length l'))"

definition text_ok :: "string \<Rightarrow> bool" where
  "text_ok s \<longleftrightarrow> (\<forall>c\<in>set s. printable c)"

lemma text_ok_simps [simp]:
  "text_ok []" "text_ok (c # s) \<longleftrightarrow> printable c \<and> text_ok s" "text_ok (s @ t) \<longleftrightarrow> text_ok s \<and> text_ok t"
  by (auto simp: text_ok_def)

lemma ed_ok_splitE:
  assumes "ed_ok e" obtains l r t where "at_split e l r t"
proof -
  have "line_ok e" using assms by (simp add: ed_ok_def)
  then obtain l r t where "line_buf e = l @ r @ NUL # t" "cursor_pos e = length l"
    "line_len e = length l + length r" "length l + length r + length t = 1023"
    "cstring l" "cstring r" "z_left (ed_abs e) = l" "z_right (ed_abs e) = r"
    by (rule line_okE)
  then show ?thesis
    using assms that [of l r t] by (cases "ed_abs e") (auto simp: at_split_def ed_ok_def hist_ok_def ed_abs_def)
qed

lemma to_split_ok:
  assumes "ed_ok e" "length l + length r + length t = 1023" "cstring l" "cstring r" "i \<le> history_count e"
  shows "ed_ok (to_split e l r t i w)"
    and "ed_abs (to_split e l r t i w) = \<lparr>z_left = l, z_right = r, z_hist = hist e, z_idx = i\<rparr>"
  using assms by (simp_all add: ed_ok_def line_ok_def hist_ok_def to_split_def ed_abs_def hist_def nth_append)

definition outcome :: "editor \<Rightarrow> string \<Rightarrow> string \<Rightarrow> editor option \<Rightarrow> zipper \<Rightarrow> bool" where
  "outcome e l r res z \<longleftrightarrow> (\<exists>l' r' t' i w. res = Some (to_split e l' r' t' i w) \<and>
     length l' + length r' + length t' = 1023 \<and> cstring l' \<and> cstring r' \<and> i \<le> history_count e \<and>
     z = \<lparr>z_left = l', z_right = r', z_hist = hist e, z_idx = i\<rparr> \<and>
     (text_ok (l @ r) \<and> (\<forall>s\<in>set (hist e). text_ok s) \<longrightarrow> text_ok (l' @ r') \<and> draws w l r l' r'))"

lemma outcomeI:
  "res = Some (to_split e l' r' t' i w) \<Longrightarrow> length l' + length r' + length t' = 1023 \<Longrightarrow>
   cstring l' \<Longrightarrow> cstring r' \<Longrightarrow> i \<le> history_count e \<Longrightarrow>
   z = \<lparr>z_left = l', z_right = r', z_hist = hist e, z_idx = i\<rparr> \<Longrightarrow>
   (text_ok (l @ r) \<Longrightarrow> \<forall>s\<in>set (hist e). text_ok s \<Longrightarrow> text_ok (l' @ r') \<and> draws w l r l' r') \<Longrightarrow>
   outcome e l r res z"
  unfolding outcome_def by blast

lemma implementsI:
  assumes "\<And>e l r t. at_split e l r t \<Longrightarrow> outcome e l r (op e) (zop (ed_abs e))"
  shows "implements op zop"
  unfolding implements_def
proof (intro allI impI)
  fix e assume ok: "ed_ok e"
  then obtain l r t where s: "at_split e l r t" by (rule ed_ok_splitE)
  from assms [OF s] obtain l' r' t' i w where e': "op e = Some (to_split e l' r' t' i w)"
    and s': "length l' + length r' + length t' = 1023" "cstring l'" "cstring r'" "i \<le> history_count e"
    and z: "zop (ed_abs e) = \<lparr>z_left = l', z_right = r', z_hist = hist e, z_idx = i\<rparr>"
    and d: "text_ok (l @ r) \<and> (\<forall>s\<in>set (hist e). text_ok s) \<longrightarrow> text_ok (l' @ r') \<and> draws w l r l' r'"
    unfolding outcome_def by (elim exE conjE)
  note ok' = to_split_ok [OF ok s', of w]
  have "plain (ed_abs e) \<longrightarrow> plain (zop (ed_abs e)) \<and>
       (\<forall>pr rest. vt (w @ rest) (view pr (ed_abs e)) = vt rest (view pr (zop (ed_abs e))))"
    unfolding z using d s by (auto simp: at_split_def plain_def view_def z_line_def text_ok_def draws_def)
  then show "\<exists>e' w. op e = Some e' \<and> ed_ok e' \<and> ed_abs e' = zop (ed_abs e) \<and>
     term_out e' = term_out e @ w \<and> (plain (ed_abs e) \<longrightarrow> plain (ed_abs e') \<and>
       (\<forall>pr rest. vt (w @ rest) (view pr (ed_abs e)) = vt rest (view pr (ed_abs e'))))"
    using e' ok' z
    by (intro exI [of _ "to_split e l' r' t' i w"] exI [of _ w]) (simp add: to_split_def)
qed

lemma cursor_back_eq:
  "cursor_back e = term_write (concat (replicate (line_len e - cursor_pos e) (ESC # ''[D''))) e"
  by (auto simp: cursor_back_def term_write_def)

lemma draws_left: "draws (concat (replicate (length l) (ESC # ''[D''))) l r [] (l @ r)"
  by (simp add: draws_def vt_left del: vt.simps)

lemma draws_comp: "draws w l r l' r' \<Longrightarrow> draws w' l' r' l'' r'' \<Longrightarrow> draws (w @ w') l r l'' r''"
  by (simp add: draws_def)

lemma draws_write: "text_ok s \<Longrightarrow> draws s l r (l @ s) (drop (length s) r)"
proof (unfold draws_def, intro allI)
  fix pr rest assume "text_ok s"
  then show "vt (s @ rest) (paint (pr @ l @ r), length pr + length l) =
    vt rest (paint (pr @ (l @ s) @ drop (length s) r), length pr + length (l @ s))"
    using vt_print [of s rest "pr @ l" r] by (simp add: text_ok_def add.assoc)
qed

lemma draws_clear: "draws (ESC # ''[K'') l r l []"
  using vt_clear by (simp add: draws_def flip: append_assoc length_append del: vt.simps)

lemma draws_back: "length r = n \<Longrightarrow> draws (concat (replicate n (ESC # ''[D''))) (l @ r) s l (r @ s)"
  using vt_left by (simp add: draws_def del: vt.simps)

lemma draws_BS: "draws [BS] (l @ [c]) r l (c # r)"
  by (simp add: draws_def)

lemma draws_bell: "draws [BEL] l r l r"
  by (simp add: draws_def)

lemma draws_none: "draws [] l r l r"
  by (simp add: draws_def)

lemma draws_right: "draws (concat (replicate (length r) (ESC # ''[C''))) l r (l @ r) []"
  using vt_right by (simp add: draws_def add.assoc del: vt.simps)

lemma draws_tail:
  assumes "text_ok (c # r)"
  shows "draws ((c # r) @ concat (replicate (length r) (ESC # ''[D''))) l r (l @ [c]) r"
proof -
  have "draws (c # r) l r ((l @ [c]) @ r) []"
    using draws_write [OF assms, of l r] by simp
  from draws_comp [OF this draws_back [OF refl]] show ?thesis by simp
qed

lemma draws_redraw:
  assumes "text_ok s"
  shows "draws ((s @ ESC # ''[K'') @ concat (replicate (length s) (ESC # ''[D''))) l r l s"
  using draws_comp [OF draws_comp [OF draws_write [OF assms, of l r] draws_clear] draws_back [OF refl]]
  by simp

subsection \<open>The operations\<close>

abbreviation lefts :: "nat \<Rightarrow> string" where
  "lefts n \<equiv> concat (replicate n (ESC # ''[D''))"

lemma bell_split: "at_split e l r t \<Longrightarrow> term_write [BEL] e = to_split e l r t (history_idx e) [BEL]"
  by (simp add: at_split_def to_split_def term_write_def)

lemma id_split: "at_split e l r t \<Longrightarrow> e = to_split e l r t (history_idx e) []"
  by (simp add: at_split_def to_split_def)

lemma insert_split:
  assumes "at_split e l r (x # t)" "c \<noteq> NUL"
  shows "line_insert_char c e = Some (to_split e (l @ [c]) r t (history_idx e) (c # r @ lefts (length r)))"
proof -
  have "shift_right (cursor_pos e) (line_buf e) (line_len e) = Some (l @ hd (r @ [NUL]) # r @ x # t)"
    using shift_right_split [of l r NUL "x # t"] assms by (simp add: at_split_def)
  then show ?thesis
    using assms
    by (simp add: at_split_def line_insert_char_def term_write_buf_def cursor_back_eq to_split_def
        term_write_def list_update_append)
qed

lemma delete_split:
  assumes "at_split e l (d # r) t"
  shows "delete_at_cursor e = Some (e\<lparr>line_buf := l @ r @ NUL # NUL # t, line_len := length l + length r\<rparr>)"
  using assms shift_left_split [of l r d "NUL # t"]
  by (simp add: at_split_def delete_at_cursor_def list_update_append)

lemma at_splitD:
  "at_split e l r t \<Longrightarrow> ed_abs e = \<lparr>z_left = l, z_right = r, z_hist = hist e, z_idx = history_idx e\<rparr>"
  "at_split e l r t \<Longrightarrow> history_idx e \<le> history_count e"
  "at_split e l r t \<Longrightarrow> length l + length r + length t = 1023"
  "at_split e l r t \<Longrightarrow> cstring l" "at_split e l r t \<Longrightarrow> cstring r"
  "at_split e l r t \<Longrightarrow> cursor_pos e = length l"
  "at_split e l r t \<Longrightarrow> line_len e = length l + length r"
  "at_split e l r t \<Longrightarrow> line_buf e = l @ r @ NUL # t"
  by (simp_all add: at_split_def)

lemma bell_outcome:
  "at_split e l r t \<Longrightarrow> zop (ed_abs e) = ed_abs e \<Longrightarrow> outcome e l r (Some (term_write [BEL] e)) (zop (ed_abs e))"
  by (rule outcomeI, subst bell_split, assumption, rule refl) (auto simp: at_splitD draws_bell)

lemma id_outcome:
  "at_split e l r t \<Longrightarrow> zop (ed_abs e) = ed_abs e \<Longrightarrow> outcome e l r (Some e) (zop (ed_abs e))"
  by (rule outcomeI, subst id_split, assumption, rule refl) (auto simp: at_splitD draws_none)

lemma implements_insert:
  assumes "printable c"
  shows "implements (line_insert_char c) (z_insert c)"
proof (rule implementsI)
  fix e l r t assume s: "at_split e l r t"
  have c: "c \<noteq> NUL" using assms by (auto simp: printable_def)
  show "outcome e l r (line_insert_char c e) (z_insert c (ed_abs e))"
  proof (cases t)
    case Nil
    then show ?thesis
      using bell_outcome [OF s, of "z_insert c"] at_splitD [OF s]
      by (simp add: line_insert_char_def z_insert_def z_line_def)
  next
    case (Cons x t')
    show ?thesis
      using draws_tail [of c r l] at_splitD [OF s] Cons c assms
      by (intro outcomeI [OF insert_split [OF s [unfolded Cons] c]]) (auto simp: z_insert_def z_line_def)
  qed
qed

lemma delete_outcome:
  assumes "at_split e l (d # r) t"
  shows "outcome e l (d # r) (Option.bind (delete_at_cursor e) redraw_tail) (z_delete (ed_abs e))"
proof (rule outcomeI)
  show "Option.bind (delete_at_cursor e) redraw_tail =
      Some (to_split e l r (NUL # t) (history_idx e) ((r @ ESC # ''[K'') @ lefts (length r)))"
    using delete_split [OF assms] at_splitD [OF assms]
    by (simp add: redraw_tail_def term_write_buf_def cursor_back_eq to_split_def term_write_def)
qed (use draws_redraw [of r l "d # r"] at_splitD [OF assms] in \<open>auto simp: z_delete_def\<close>)

lemma implements_delete_forward: "implements line_delete_forward z_delete"
proof (rule implementsI)
  fix e l r t assume s: "at_split e l r t"
  show "outcome e l r (line_delete_forward e) (z_delete (ed_abs e))"
  proof (cases r)
    case Nil
    then show ?thesis
      using bell_outcome [OF s, of z_delete] at_splitD [OF s]
      by (simp add: line_delete_forward_def z_delete_def)
  next
    case (Cons d q)
    then show ?thesis
      using delete_outcome [OF s [unfolded Cons]] at_splitD [OF s]
      by (simp add: line_delete_forward_def)
  qed
qed

lemma implements_delete_char: "implements line_delete_char z_backspace"
proof (rule implementsI)
  fix e l r t assume s: "at_split e l r t"
  show "outcome e l r (line_delete_char e) (z_backspace (ed_abs e))"
  proof (cases l rule: rev_cases)
    case Nil
    then show ?thesis
      using bell_outcome [OF s, of z_backspace] at_splitD [OF s]
      by (simp add: line_delete_char_def z_backspace_def)
  next
    case (snoc q d)
    let ?b = "q @ r @ NUL # NUL # t"
    have "shift_left (line_len e) (line_buf e) (length q) = Some (q @ r @ last (d # r) # NUL # t)"
      using shift_left_split [of q r d "NUL # t"] at_splitD [OF s] snoc by simp
    then have "line_delete_char e =
        Some (to_split e q r (NUL # t) (history_idx e) ([BS] @ (r @ ESC # ''[K'') @ lefts (length r)))"
      using at_splitD [OF s] snoc
      by (simp add: line_delete_char_def delete_at_cursor_def redraw_tail_def term_write_buf_def
          cursor_back_eq to_split_def term_write_def list_update_append)
    moreover have "draws ([BS] @ (r @ ESC # ''[K'') @ lefts (length r)) l r q r" if "text_ok r"
      unfolding snoc by (rule draws_comp [OF draws_BS draws_redraw [OF that]])
    ultimately show ?thesis
      using at_splitD [OF s] snoc by (intro outcomeI) (auto simp: z_backspace_def)
  qed
qed

lemma implements_move_left: "implements (\<lambda>e. Some (line_move_left e)) z_move_left"
proof (rule implementsI)
  fix e l r t assume s: "at_split e l r t"
  show "outcome e l r (Some (line_move_left e)) (z_move_left (ed_abs e))"
  proof (cases l rule: rev_cases)
    case Nil
    then show ?thesis
      using id_outcome [OF s, of z_move_left] at_splitD [OF s]
      by (simp add: line_move_left_def z_move_left_def)
  next
    case (snoc q d)
    have "draws (ESC # ''[D'') (q @ [d]) r q (d # r)"
      using draws_back [of "[d]" 1 q r] by simp
    then show ?thesis
      using at_splitD [OF s] snoc
      by (intro outcomeI [where l' = q and r' = "d # r" and t' = t and i = "history_idx e"])
        (auto simp: line_move_left_def z_move_left_def to_split_def term_write_def)
  qed
qed

lemma implements_move_right: "implements (\<lambda>e. Some (line_move_right e)) z_move_right"
proof (rule implementsI)
  fix e l r t assume s: "at_split e l r t"
  show "outcome e l r (Some (line_move_right e)) (z_move_right (ed_abs e))"
  proof (cases r)
    case Nil
    then show ?thesis
      using id_outcome [OF s, of z_move_right] at_splitD [OF s]
      by (simp add: line_move_right_def z_move_right_def)
  next
    case (Cons d q)
    have "draws (ESC # ''[C'') l (d # q) (l @ [d]) q"
      by (simp add: draws_def)
    then show ?thesis
      using at_splitD [OF s] Cons
      by (intro outcomeI [where l' = "l @ [d]" and r' = q and t' = t and i = "history_idx e"])
        (auto simp: line_move_right_def z_move_right_def to_split_def term_write_def)
  qed
qed

lemma implements_home: "implements (\<lambda>e. Some (line_move_home e)) z_home"
proof (rule implementsI)
  fix e l r t assume s: "at_split e l r t"
  show "outcome e l r (Some (line_move_home e)) (z_home (ed_abs e))"
    using at_splitD [OF s] draws_left [of l r]
    by (intro outcomeI [where l' = "[]" and r' = "l @ r" and t' = t and i = "history_idx e"])
      (auto simp: line_move_home_def z_home_def z_line_def to_split_def term_write_def)
qed

lemma implements_end: "implements (\<lambda>e. Some (line_move_end e)) z_end"
proof (rule implementsI)
  fix e l r t assume s: "at_split e l r t"
  show "outcome e l r (Some (line_move_end e)) (z_end (ed_abs e))"
    using at_splitD [OF s] draws_right [of r l]
    by (intro outcomeI [where l' = "l @ r" and r' = "[]" and t' = t and i = "history_idx e"])
      (auto simp: line_move_end_def z_end_def z_line_def to_split_def term_write_def)
qed

lemma implements_kill_to_end: "implements line_kill_to_end (\<lambda>z. z\<lparr>z_right := []\<rparr>)"
proof (rule implementsI)
  fix e l r t assume s: "at_split e l r t"
  let ?t = "drop 1 (r @ NUL # t)"
  have "line_kill_to_end e = Some (to_split e l [] ?t (history_idx e) (ESC # ''[K''))"
    using at_splitD [OF s]
    by (cases r) (simp_all add: line_kill_to_end_def to_split_def term_write_def list_update_append)
  then show "outcome e l r (line_kill_to_end e) ((ed_abs e)\<lparr>z_right := []\<rparr>)"
    using at_splitD [OF s] draws_clear [of l r] by (intro outcomeI) auto
qed

text \<open>What \<open>line_kill_all\<close> and \<open>line_set\<close> write to the terminal, and the buffer \<open>line_set\<close> leaves.\<close>

lemma draws_set:
  assumes "text_ok s"
  shows "draws (lefts (length l) @ (ESC # ''[K'') @ s) l r s []"
proof -
  have "draws s [] [] s []"
    using draws_write [OF assms, of "[]" "[]"] by simp
  from draws_comp [OF draws_left draws_comp [OF draws_clear this]] show ?thesis by simp
qed

lemma set_split:
  assumes "at_split e l r t" "length s < LINE_BUF_SIZE"
  shows "line_set s (e\<lparr>history_idx := i\<rparr>) =
    Some (to_split e s [] (drop (Suc (length s)) (line_buf e)) i (lefts (length l) @ (ESC # ''[K'') @ s))"
proof -
  have len: "length (line_buf e) = 1024"
    using at_splitD [OF assms(1)] by simp
  have "awrite (line_buf e) 0 s = Some (s @ drop (length s) (line_buf e))"
    using assms(2) len by (simp add: awrite_def)
  moreover have "aset (s @ drop (length s) (line_buf e)) (length s) NUL =
      Some (s @ NUL # drop (Suc (length s)) (line_buf e))"
    using assms(2) len list_update_drop [of "length s" "line_buf e" s NUL] by simp
  ultimately show ?thesis
    using at_splitD(6) [OF assms(1)] assms(2) len
    by (simp add: line_set_def term_write_buf_def to_split_def term_write_def Let_def)
qed

lemma set_outcome:
  assumes "at_split e l r t" "length s < LINE_BUF_SIZE" "cstring s" "i \<le> history_count e"
    and "\<forall>s\<in>set (hist e). text_ok s \<Longrightarrow> text_ok s"
  shows "outcome e l r (line_set s (e\<lparr>history_idx := i\<rparr>)) (z_set s ((ed_abs e)\<lparr>z_idx := i\<rparr>))"
  using assms(2-) at_splitD [OF assms(1)] draws_set [of s l r]
  by (intro outcomeI [OF set_split [OF assms(1,2)]]) (auto simp: z_set_def)

lemma implements_kill_all: "implements line_kill_all (z_set [])"
proof (rule implementsI)
  fix e l r t assume s: "at_split e l r t"
  let ?t = "drop 1 (l @ r @ NUL # t)"
  have "line_kill_all e = Some (to_split e [] [] ?t (history_idx e) (lefts (length l) @ (ESC # ''[K'') @ []))"
    using at_splitD [OF s]
    by (cases l; cases r) (simp_all add: line_kill_all_def line_clear_def to_split_def term_write_def)
  then show "outcome e l r (line_kill_all e) (z_set [] (ed_abs e))"
    using at_splitD [OF s] draws_set [of "[]" l r] by (intro outcomeI) (auto simp: z_set_def)
qed

lemma hist_nth: "i < history_count e \<Longrightarrow> hist e ! i = history e ! ((history_start e + i) mod HISTORY_SIZE)"
  by (simp add: hist_def)

lemma length_hist [simp]: "length (hist e) = history_count e"
  by (simp add: hist_def)

lemma hist_entry:
  assumes "ed_ok e" "i < history_count e"
  shows "aget (history e) ((history_start e + i) mod HISTORY_SIZE) = Some (hist e ! i)"
    and "cstring (hist e ! i)" "length (hist e ! i) < LINE_BUF_SIZE" "hist e ! i \<in> set (hist e)"
proof -
  have "(history_start e + i) mod HISTORY_SIZE < length (history e)"
    using assms(1) by (simp add: ed_ok_def hist_ok_def)
  moreover from this have "history e ! ((history_start e + i) mod HISTORY_SIZE) \<in> set (history e)"
    by (rule nth_mem)
  ultimately show "aget (history e) ((history_start e + i) mod HISTORY_SIZE) = Some (hist e ! i)"
    "cstring (hist e ! i)" "length (hist e ! i) < LINE_BUF_SIZE"
    using assms by (auto simp: hist_nth ed_ok_def hist_ok_def)
qed (use assms in simp)

lemma implements_prev: "implements history_prev z_prev"
proof (rule implementsI)
  fix e l r t assume s: "at_split e l r t"
  show "outcome e l r (history_prev e) (z_prev (ed_abs e))"
  proof (cases "history_count e = 0 \<or> history_idx e = 0")
    case True
    then show ?thesis
      using bell_outcome [OF s, of z_prev] by (auto simp: history_prev_def z_prev_def hist_def)
  next
    case False
    let ?i = "history_idx e - 1"
    have i: "?i < history_count e" and ok: "ed_ok e" and ne: "hist e \<noteq> []"
      using False s by (auto simp: at_split_def hist_def)
    note entry = hist_entry [OF ok i]
    show ?thesis
      using set_outcome [OF s entry(3,2), of ?i] i entry False ne
      by (simp add: history_prev_def z_prev_def)
  qed
qed

lemma implements_next: "implements history_next z_next"
proof (rule implementsI)
  fix e l r t assume s: "at_split e l r t"
  have ok: "ed_ok e" using s by (simp add: at_split_def)
  show "outcome e l r (history_next e) (z_next (ed_abs e))"
  proof (cases "history_idx e + 1 < history_count e")
    case True
    note entry = hist_entry [OF ok True]
    show ?thesis
      using set_outcome [OF s entry(3,2), of "history_idx e + 1"] True entry
      by (simp add: history_next_def z_next_def)
  next
    case False
    then show ?thesis
      using set_outcome [OF s, of "[]" "history_count e"] bell_outcome [OF s, of z_next]
      by (auto simp: history_next_def z_next_def)
  qed
qed

lemma implements_id: "implements Some (\<lambda>z. z)"
proof (rule implementsI)
  fix e l r t assume s: "at_split e l r t"
  show "outcome e l r (Some e) (ed_abs e)"
    using id_outcome [OF s, of "\<lambda>z. z"] by simp
qed

lemma printable_to_char: "32 \<le> k \<Longrightarrow> k < 127 \<Longrightarrow> printable (to_char k)"
  by (simp add: printable_def)

lemmas implements_ops = implements_insert implements_delete_char implements_delete_forward
  implements_move_left implements_move_right implements_home implements_end implements_kill_to_end
  implements_kill_all implements_prev implements_next implements_id

lemma implements_if:
  "(P \<Longrightarrow> implements f f') \<Longrightarrow> (\<not> P \<Longrightarrow> implements g g') \<Longrightarrow>
   implements (\<lambda>e. if P then f e else g e) (\<lambda>z. if P then f' z else g' z)"
  by (cases P) simp_all

lemma z_key_alt:
  "z_key k z =
     (if k = 0x15 then z_set [] z
      else if k = 0x0b then z\<lparr>z_right := []\<rparr>
      else if k = 0x01 then z_home z
      else if k = 0x05 then z_end z
      else if k = 0x08 \<or> k = 0x7f then z_backspace z
      else if k = KEY_EXT_UP then z_prev z
      else if k = KEY_EXT_DOWN then z_next z
      else if k = KEY_EXT_LEFT then z_move_left z
      else if k = KEY_EXT_RIGHT then z_move_right z
      else if k = KEY_EXT_HOME then z_home z
      else if k = KEY_EXT_END then z_end z
      else if k = KEY_EXT_DELETE then z_delete z
      else if 32 \<le> k \<and> k < 127 then z_insert (to_char k) z
      else z)"
  by (simp add: z_key_def)

lemma implements_key: "implements (edit_key k) (z_key k)"
  unfolding edit_key_def [abs_def] z_key_alt [abs_def]
  by (intro implements_if implements_ops printable_to_char) simp_all

text \<open>Together with the screen, the keys are a simulation of the abstract editor.\<close>

definition screen_key :: "int \<Rightarrow> editor \<times> screen \<Rightarrow> (editor \<times> screen) option" where
  "screen_key k es =
     map_option (\<lambda>e'. (e', vt (drop (length (term_out (fst es))) (term_out e')) (snd es))) (edit_key k (fst es))"

definition in_sync :: "string \<Rightarrow> editor \<times> screen \<Rightarrow> bool" where
  "in_sync pr es \<longleftrightarrow> ed_ok (fst es) \<and> plain (ed_abs (fst es)) \<and> snd es = view pr (ed_abs (fst es))"

interpretation line_editor: simulation "in_sync pr" "\<lambda>es. ed_abs (fst es)" screen_key z_key for pr
proof
  fix es k assume ok: "in_sync pr es"
  then obtain e' w where "edit_key k (fst es) = Some e'" "ed_ok e'" "ed_abs e' = z_key k (ed_abs (fst es))"
    "term_out e' = term_out (fst es) @ w" "plain (ed_abs e')"
    "vt (w @ []) (view pr (ed_abs (fst es))) = vt [] (view pr (ed_abs e'))"
    using implements_key [of k] unfolding implements_def in_sync_def by blast
  then show "\<exists>es'. screen_key k es = Some es' \<and> in_sync pr es' \<and> ed_abs (fst es') = z_key k (ed_abs (fst es))"
    using ok by (simp add: screen_key_def in_sync_def)
qed


definition ed_blank :: editor where
  "ed_blank = \<lparr>line_buf = replicate 1024 NUL, line_len = 0, cursor_pos = 0, history = replicate 32 [],
     history_count = 0, history_idx = 0, history_start = 0, cwd_path = ''/'', user_name = ''root'',
     user_uid = 0, term_out = []\<rparr>"

lemma ed_blank_ok: "ed_ok ed_blank" "ed_abs ed_blank = \<lparr>z_left = [], z_right = [], z_hist = [], z_idx = 0\<rparr>"
  by (simp_all add: ed_ok_def line_ok_def hist_ok_def ed_blank_def ed_abs_def hist_def)


subsection \<open>The history\<close>

lemma last_hist:
  "hist_ok e \<Longrightarrow> 0 < history_count e \<Longrightarrow>
   aget (history e) ((history_start e + history_count e - 1) mod HISTORY_SIZE) = Some (last (hist e))"
  using hist_entry(1) [of e "history_count e - 1"]
  by (auto simp: last_conv_nth hist_def hist_ok_def aget_def)

text \<open>Storing a line in a ring that is not full, and over the oldest line of one that is.\<close>

lemma hist_store_free:
  assumes "length (history e) = HISTORY_SIZE" "history_count e < HISTORY_SIZE" "history_start e = 0"
  shows "hist (e\<lparr>history_count := Suc (history_count e), history := (history e)[history_count e := line]\<rparr>) =
    hist e @ [line]"
  using assms by (intro nth_equalityI) (auto simp: hist_nth nth_append hist_def less_Suc_eq)

lemma hist_store_full:
  assumes "length (history e) = HISTORY_SIZE" "history_count e = HISTORY_SIZE" "history_start e < HISTORY_SIZE"
  shows "hist (e\<lparr>history_start := (history_start e + 1) mod HISTORY_SIZE,
      history := (history e)[history_start e := line]\<rparr>) = tl (hist e) @ [line]"
proof (rule nth_equalityI)
  fix i assume "i < length (hist (e\<lparr>history_start := (history_start e + 1) mod HISTORY_SIZE,
      history := (history e)[history_start e := line]\<rparr>))"
  then have i: "i < 32" using assms by simp
  let ?j = "(history_start e + Suc i) mod 32"
  have "?j = history_start e \<longleftrightarrow> i = 31"
    using i assms(3) by (auto simp: mod_if)
  then show "hist (e\<lparr>history_start := (history_start e + 1) mod HISTORY_SIZE,
      history := (history e)[history_start e := line]\<rparr>) ! i = (tl (hist e) @ [line]) ! i"
    using i assms by (auto simp: hist_nth nth_append nth_tl mod_Suc_eq mod_add_left_eq nth_list_update)
qed (use assms in simp)

text \<open>
  The history ring is a list of the last 32 distinct lines: adding a line never leaves the ring,
  ignores the empty line and a repetition of the last one, and otherwise appends the line and drops
  the oldest when there were 32 already.
\<close>

theorem history_add_list:
  assumes "hist_ok e" "cstring line" "length line < LINE_BUF_SIZE"
  shows "\<exists>e'. history_add line e = Some e' \<and> hist_ok e' \<and> hist e' = h_add line (hist e)"
proof -
  have ok: "length (history e) = HISTORY_SIZE" "history_count e \<le> HISTORY_SIZE" "history_start e < HISTORY_SIZE"
    "history_idx e \<le> history_count e" "history_count e < HISTORY_SIZE \<Longrightarrow> history_start e = 0"
    "\<forall>s\<in>set (history e). cstring s \<and> length s < LINE_BUF_SIZE"
    using assms(1) by (simp_all add: hist_ok_def)
  have dup: "(if 0 < history_count e
      then map_option (\<lambda>l. strcmp l line = 0)
        (aget (history e) ((history_start e + history_count e - 1) mod HISTORY_SIZE))
      else Some False) = Some (hist e \<noteq> [] \<and> last (hist e) = line)"
    using assms last_hist [OF assms(1)] last_in_set [of "hist e"] ok
    by (auto simp: hist_def)
  have upd: "\<forall>s\<in>set ((history e)[i := line]). cstring s \<and> length s < LINE_BUF_SIZE" for i
    using ok(6) assms(2,3) set_update_subset_insert [of "history e" i line] by blast
  consider "line = [] \<or> hist e \<noteq> [] \<and> last (hist e) = line"
    | (free) "\<not> (line = [] \<or> hist e \<noteq> [] \<and> last (hist e) = line)" "history_count e < HISTORY_SIZE"
    | (full) "\<not> (line = [] \<or> hist e \<noteq> [] \<and> last (hist e) = line)" "history_count e = HISTORY_SIZE"
    using ok(2) by linarith
  then show ?thesis
  proof cases
    case 1
    then show ?thesis
      using assms(1) dup by (auto simp: history_add_def h_add_def)
  next
    case free
    let ?e = "e\<lparr>history_count := Suc (history_count e), history := (history e)[history_count e := line]\<rparr>"
    have "history_add line e = Some ?e"
      using free dup ok assms(3) by (auto simp: history_add_def)
    moreover have "hist ?e = h_add line (hist e)"
      using hist_store_free [of e line] free ok by (simp add: h_add_def)
    moreover have "hist_ok ?e"
      using ok upd free by (simp add: hist_ok_def)
    ultimately show ?thesis by blast
  next
    case full
    let ?e = "e\<lparr>history_start := (history_start e + 1) mod HISTORY_SIZE,
      history := (history e)[history_start e := line]\<rparr>"
    have "history_add line e = Some ?e"
      using full dup ok assms(3) by (auto simp: history_add_def)
    moreover have "hist ?e = h_add line (hist e)"
      using hist_store_full [of e line] full ok by (auto simp: h_add_def drop_Suc)
    moreover have "hist_ok ?e"
      using ok upd full by (simp add: hist_ok_def)
    ultimately show ?thesis by blast
  qed
qed

theorem history_add_list_witness:
  "\<exists>e'. history_add ''ls'' ed_blank = Some e' \<and> hist_ok e' \<and> hist e' = [''ls'']"
  using history_add_list [of ed_blank "''ls''"] ed_blank_ok
  by (simp add: ed_ok_def h_add_def ed_abs_def)

end
