(* ===== verification/ShReadline.thy ===== *)
theory ShReadline
  imports ShEdit ShEnvp
begin

section \<open>sh.c: keys, completion and reading a line\<close>

text \<open>
  \<open>do_readline\<close> reads keys until the line is entered.  The terminal's input is the list of results of
  \<open>read(0, &c, 1)\<close>: \<^const>\<open>Some\<close> a byte, or \<^const>\<open>None\<close> for a failed read, which \<open>read_char\<close> retries; the
  end of the list is the end of the input.  Completion asks the file system for directory entries
  and file types, which the record \<open>dirfs\<close> gives; what \<open>tcgetattr\<close> and \<open>tcsetattr\<close> do is part of the
  record \<open>tty\<close>.
\<close>

subsection \<open>Word completion\<close>

abbreviation MAX_MATCHES :: nat where "MAX_MATCHES \<equiv> 64"
abbreviation NAME_MAX :: nat where "NAME_MAX \<equiv> 255"

text \<open>
  The directory listings and file types that completion sees: \<open>fs_dents d\<close> is \<^const>\<open>None\<close> when \<open>d\<close>
  cannot be opened and else the inode numbers and names that \<open>getdents\<close> delivers.
\<close>

record dirfs =
  fs_dents :: "string \<Rightarrow> (nat \<times> string) list option"
  fs_reg :: "string \<Rightarrow> bool"
  fs_dir :: "string \<Rightarrow> bool"

definition match_exists :: "string list \<Rightarrow> string \<Rightarrow> bool" where
  "match_exists ms nm \<longleftrightarrow> (\<exists>m\<in>set ms. strcmp m nm = 0)"

definition is_word_boundary :: "char \<Rightarrow> bool" where
  "is_word_boundary c \<longleftrightarrow> c = CHR '' '' \<or> c = CHR 0x09 \<or> c = CHR ''|'' \<or> c = CHR '';'' \<or> c = CHR ''&'' \<or>
     c = CHR ''>'' \<or> c = CHR ''<'' \<or> c = CHR ''('' \<or> c = CHR '')''"

text \<open>\<open>while (start > 0 && !is_word_boundary(line_buf[start - 1])) start--;\<close>\<close>

fun word_start :: "char list \<Rightarrow> nat \<Rightarrow> nat option" where
  "word_start b 0 = Some 0"
| "word_start b (Suc n) = do {
     c \<leftarrow> aget b n;
     if \<not> is_word_boundary c then word_start b n else Some (Suc n)
   }"

fun first_word :: "string \<Rightarrow> bool \<Rightarrow> bool" where
  "first_word [] first = first"
| "first_word (c # s) first =
     (if c = CHR '' '' \<or> c = CHR 0x09 then first_word s first
      else first_word s (c = CHR ''|'' \<or> c = CHR '';'' \<or> c = CHR ''&''))"

definition get_completion_word :: "nat \<Rightarrow> editor \<Rightarrow> (string \<times> bool) option" where
  "get_completion_word maxlen e = do {
     start \<leftarrow> word_start (line_buf e) (cursor_pos e);
     before \<leftarrow> aslice (line_buf e) 0 start;
     let len = cursor_pos e - start;
     word \<leftarrow> aslice (line_buf e) start (if maxlen \<le> len then maxlen - 1 else len);
     Some (word, first_word before True)
   }"

text \<open>The text up to and with the last slash, and what follows it.\<close>

fun last_slash :: "string \<Rightarrow> string \<Rightarrow> string option \<Rightarrow> string option" where
  "last_slash seen [] found = found"
| "last_slash seen (c # s) found =
     last_slash (seen @ [c]) s (if c = CHR ''/'' then Some (seen @ [c]) else found)"

definition get_completion_dir :: "nat \<Rightarrow> string \<Rightarrow> string \<times> string" where
  "get_completion_dir maxdir word =
     (case last_slash [] word None of
        Some d \<Rightarrow> (take (if maxdir \<le> length d then maxdir - 1 else length d) d, drop (length d) word)
      | None \<Rightarrow> (''.'', word))"

fun add_entries :: "dirfs \<Rightarrow> string \<Rightarrow> string \<Rightarrow> bool \<Rightarrow> (nat \<times> string) list \<Rightarrow> string list \<Rightarrow> string list" where
  "add_entries fs dir prefix exec_only [] ms = ms"
| "add_entries fs dir prefix exec_only ((ino, nm) # es) ms =
     (if MAX_MATCHES \<le> length ms then ms
      else if ino \<noteq> 0 \<and> (prefix = [] \<or> strncmp_local nm prefix (length prefix) = 0) \<and>
        strcmp nm ''.'' \<noteq> 0 \<and> strcmp nm ''..'' \<noteq> 0 \<and> \<not> match_exists ms nm \<and>
        (exec_only \<longrightarrow>
          fs_reg fs ((if dir \<noteq> [] \<and> last dir \<noteq> CHR ''/'' then dir @ ''/'' else dir) @ nm))
      then add_entries fs dir prefix exec_only es (ms @ [nm])
      else add_entries fs dir prefix exec_only es ms)"

definition add_matches_from_dir :: "dirfs \<Rightarrow> string \<Rightarrow> string \<Rightarrow> bool \<Rightarrow> string list \<Rightarrow> string list" where
  "add_matches_from_dir fs dir prefix exec_only ms =
     (case fs_dents fs dir of None \<Rightarrow> ms | Some es \<Rightarrow> add_entries fs dir prefix exec_only es ms)"

function add_path_dirs :: "dirfs \<Rightarrow> string \<Rightarrow> string \<Rightarrow> string list \<Rightarrow> string list" where
  "add_path_dirs fs prefix p ms =
     (if p = [] \<or> MAX_MATCHES \<le> length ms then ms
      else
        let dir = colon_head p in
        add_path_dirs fs prefix (colon_rest p)
          (if 0 < length dir \<and> length dir < 256 then add_matches_from_dir fs dir prefix True ms else ms))"
  by pat_completeness auto
termination
  by (relation "measure (\<lambda>(fs, prefix, p, ms). length p)") (simp_all add: colon_rest_less)

declare add_path_dirs.simps [simp del]

definition builtins :: "string list" where
  "builtins = [''cd'', ''ls'', ''echo'', ''exit'', ''export'', ''unset'', ''env'', ''history'', ''waitgdb'']"

fun add_builtins :: "string \<Rightarrow> string list \<Rightarrow> string list \<Rightarrow> string list" where
  "add_builtins prefix [] ms = ms"
| "add_builtins prefix (b # bs) ms =
     (if MAX_MATCHES \<le> length ms then ms
      else if (prefix = [] \<or> strncmp_local b prefix (length prefix) = 0) \<and> \<not> match_exists ms b
      then add_builtins prefix bs (ms @ [b]) else add_builtins prefix bs ms)"

definition collect_path_matches :: "dirfs \<Rightarrow> env \<Rightarrow> string \<Rightarrow> string list" where
  "collect_path_matches fs t prefix =
     (let ms = add_matches_from_dir fs ''.'' prefix False [];
          ms = (case env_get t ''PATH'' of
                  Some path \<Rightarrow> add_path_dirs fs prefix (clip MAX_ENV_VALUE path) ms
                | None \<Rightarrow> ms)
      in add_builtins prefix builtins ms)"

fun common_loop :: "string \<Rightarrow> string list \<Rightarrow> nat \<Rightarrow> nat" where
  "common_loop [] ms len = len"
| "common_loop (c # s) ms len =
     (if \<forall>m\<in>set ms. deref (drop len m) = c then common_loop s ms (Suc len) else len)"

definition common_prefix_len :: "string list \<Rightarrow> nat" where
  "common_prefix_len ms =
     (case ms of [] \<Rightarrow> 0 | [m] \<Rightarrow> length m | m # ms' \<Rightarrow> common_loop m ms' 0)"

fun insert_chars :: "string \<Rightarrow> editor \<Rightarrow> editor option" where
  "insert_chars [] e = Some e"
| "insert_chars (c # s) e = Option.bind (line_insert_char c e) (insert_chars s)"

fun show_candidates :: "string list \<Rightarrow> nat \<Rightarrow> nat \<Rightarrow> nat \<Rightarrow> editor \<Rightarrow> editor" where
  "show_candidates [] i cols width e = e"
| "show_candidates (m # ms) i cols width e =
     show_candidates ms (i + 1) cols width
       (if (i + 1) mod cols = 0 \<or> ms = []
        then term_write [CHR 0x0d, CHR 0x0a] (term_write m e)
        else term_write (replicate (width - length m) (CHR '' '')) (term_write m e))"

text \<open>The second half of \<open>do_tab_completion\<close>: what it does with the matches, and the listing of candidates.\<close>

definition list_matches :: "string list \<Rightarrow> editor \<Rightarrow> editor option" where
  "list_matches matches e = do {
     let maxlen = fold (\<lambda>m k. if k < length m then length m else k) matches 0;
     let colwidth = (if maxlen + 2 < 8 then 8 else maxlen + 2);
     let cols = (if 80 div colwidth < 1 then 1 else 80 div colwidth);
     let e = show_candidates matches 0 cols colwidth (term_write [CHR 0x0d, CHR 0x0a] e);
     e \<leftarrow> term_write_buf 0 (line_len e) (term_show_prompt e);
     Some (cursor_back e)
   }"

definition insert_match :: "dirfs \<Rightarrow> string \<Rightarrow> string \<Rightarrow> string list \<Rightarrow> editor \<Rightarrow> editor option" where
  "insert_match fs dir prefix matches e = do {
     e \<leftarrow> insert_chars (drop (length prefix) (take (common_prefix_len matches) (hd matches))) e;
     if length matches = 1 then
       let path = (if strcmp dir ''.'' = 0 then hd matches else strcat_local dir (hd matches)) in
       line_insert_char (if fs_dir fs path then CHR ''/'' else CHR '' '') e
     else Some e
   }"

definition use_matches :: "dirfs \<Rightarrow> string \<Rightarrow> string \<Rightarrow> string list \<Rightarrow> editor \<Rightarrow> editor option" where
  "use_matches fs dir prefix matches e =
     (if matches = [] then Some (term_bell e)
      else if length prefix < common_prefix_len matches then insert_match fs dir prefix matches e
      else if 1 < length matches then list_matches matches e
      else Some e)"

definition do_tab_completion :: "dirfs \<Rightarrow> env \<Rightarrow> editor \<Rightarrow> editor option" where
  "do_tab_completion fs t e = do {
     (word, is_first_word) \<leftarrow> get_completion_word (NAME_MAX + 1) e;
     let (dir, prefix) = get_completion_dir 256 word;
     use_matches fs dir prefix
       (if is_first_word \<and> strcmp dir ''.'' = 0 then collect_path_matches fs t prefix
        else add_matches_from_dir fs dir prefix False []) e
   }"

subsection \<open>Keys\<close>

type_synonym input = "char option list"

fun read_char :: "input \<Rightarrow> int \<times> input" where
  "read_char [] = (-1, [])"
| "read_char (None # i) = read_char i"
| "read_char (Some c # i) = (uc c, i)"

lemma read_char_length: "length (snd (read_char i)) \<le> length i"
  by (induction i rule: read_char.induct) auto

lemma read_char_less: "0 \<le> fst (read_char i) \<Longrightarrow> length (snd (read_char i)) < length i"
  by (induction i rule: read_char.induct) auto

definition read_tilde :: "int \<Rightarrow> input \<Rightarrow> int \<times> input" where
  "read_tilde key i = (case read_char i of (c, i) \<Rightarrow> (if c = 0x7e then key else 0x1b, i))"

definition read_key :: "input \<Rightarrow> int \<times> input" where
  "read_key i =
     (case read_char i of (c, i) \<Rightarrow>
      if c \<noteq> 0x1b then (c, i)
      else case read_char i of (c1, i) \<Rightarrow>
      if c1 < 0 then (0x1b, i)
      else if c1 = 0x5b then
        (case read_char i of (c2, i) \<Rightarrow>
         if c2 < 0 then (0x1b, i)
         else if c2 = 0x41 then (KEY_EXT_UP, i)
         else if c2 = 0x42 then (KEY_EXT_DOWN, i)
         else if c2 = 0x43 then (KEY_EXT_RIGHT, i)
         else if c2 = 0x44 then (KEY_EXT_LEFT, i)
         else if c2 = 0x48 then (KEY_EXT_HOME, i)
         else if c2 = 0x46 then (KEY_EXT_END, i)
         else if c2 = 0x33 then read_tilde KEY_EXT_DELETE i
         else if c2 = 0x31 \<or> c2 = 0x37 then read_tilde KEY_EXT_HOME i
         else if c2 = 0x34 \<or> c2 = 0x38 then read_tilde KEY_EXT_END i
         else (0x1b, i))
      else if c1 = 0x4f then
        (case read_char i of (c2, i) \<Rightarrow>
         if c2 = 0x41 then (KEY_EXT_UP, i)
         else if c2 = 0x42 then (KEY_EXT_DOWN, i)
         else if c2 = 0x43 then (KEY_EXT_RIGHT, i)
         else if c2 = 0x44 then (KEY_EXT_LEFT, i)
         else if c2 = 0x48 then (KEY_EXT_HOME, i)
         else if c2 = 0x46 then (KEY_EXT_END, i)
         else (0x1b, i))
      else (0x1b, i))"

lemma read_key_less:
  assumes "0 \<le> fst (read_key i)" shows "length (snd (read_key i)) < length i"
proof -
  obtain c j where c: "read_char i = (c, j)" by force
  have "0 \<le> c"
    using assms c by (auto simp: read_key_def split: if_splits)
  then have "length j < length i"
    using read_char_less [of i] c by simp
  moreover have "length (snd (read_key i)) \<le> length j"
    using c read_char_length [of j] read_char_length [of "snd (read_char j)"]
      read_char_length [of "snd (read_char (snd (read_char j)))"]
    by (auto simp: read_key_def read_tilde_def split: prod.splits)
  ultimately show ?thesis by simp
qed

subsection \<open>Raw mode\<close>

record termios =
  c_iflag :: "32 word"
  c_lflag :: "32 word"
  c_vmin :: "8 word"
  c_vtime :: "8 word"

text \<open>
  The attributes the kernel keeps for the terminal, whether \<open>tcgetattr\<close> and \<open>tcsetattr\<close> succeed on
  it, the flags that raw mode clears (\<^verbatim>\<open>ICANON | ECHO | ECHOE | ECHOK | ISIG\<close> and \<^verbatim>\<open>ICRNL | IXON\<close>, whose
  values are the kernel's), and the three variables of the shell.
\<close>

record tty =
  tty_attr :: termios
  tty_works :: bool
  raw_lflags :: "32 word"
  raw_iflags :: "32 word"
  orig_termios :: termios
  orig_termios_saved :: bool
  raw_mode :: bool

definition enable_raw_mode :: "tty \<Rightarrow> tty" where
  "enable_raw_mode tt =
     (if raw_mode tt then tt
      else if \<not> orig_termios_saved tt \<and> \<not> tty_works tt then tt
      else
        let tt = (if \<not> orig_termios_saved tt
                  then tt\<lparr>orig_termios := tty_attr tt, orig_termios_saved := True\<rparr> else tt);
            raw = (orig_termios tt)\<lparr>c_lflag := c_lflag (orig_termios tt) AND NOT (raw_lflags tt),
                     c_iflag := c_iflag (orig_termios tt) AND NOT (raw_iflags tt),
                     c_vmin := 1, c_vtime := 0\<rparr>
        in if \<not> tty_works tt then tt else tt\<lparr>tty_attr := raw, raw_mode := True\<rparr>)"

definition disable_raw_mode :: "tty \<Rightarrow> tty" where
  "disable_raw_mode tt =
     (if \<not> raw_mode tt then tt
      else (if tty_works tt then tt\<lparr>tty_attr := orig_termios tt\<rparr> else tt)\<lparr>raw_mode := False\<rparr>)"

subsection \<open>Reading a line\<close>

text \<open>
  The loop returns the value of \<open>do_readline\<close>, the caller's buffer, and what is left of the input;
  \<^const>\<open>None\<close> is a write past \<open>buf\<close> (or past a buffer of the editor).
\<close>

type_synonym readline_result = "int \<times> char list \<times> editor \<times> tty \<times> input"

definition enter_line :: "char list \<Rightarrow> nat \<Rightarrow> editor \<Rightarrow> tty \<Rightarrow> input \<Rightarrow> readline_result option" where
  "enter_line buf nbuf e tt i = do {
     let e = term_write [CHR 0x0d, CHR 0x0a] e;
     let tt = disable_raw_mode tt;
     e \<leftarrow> (if 0 < line_len e then history_add (str_at (line_buf e) 0) e else Some e);
     let e = (if nbuf \<le> line_len e then e\<lparr>line_len := nbuf - 1\<rparr> else e);
     line \<leftarrow> aslice (line_buf e) 0 (line_len e);
     buf \<leftarrow> awrite buf 0 line;
     buf \<leftarrow> aset buf (line_len e) (CHR 0x0a);
     buf \<leftarrow> aset buf (line_len e + 1) NUL;
     Some (int (line_len e + 1), buf, e, tt, i)
   }"

text \<open>The arms of the \<open>switch\<close> that neither return nor read further keys.\<close>

definition readline_key :: "dirfs \<Rightarrow> env \<Rightarrow> int \<Rightarrow> editor \<Rightarrow> tty \<Rightarrow> (editor \<times> tty) option" where
  "readline_key fs t c e tt =
     (if c = 0x04 then map_option (\<lambda>e. (e, tt)) (line_delete_forward e)
      else if c = 0x03 then do {
        e \<leftarrow> line_clear (term_write (''^C'' @ [CHR 0x0d, CHR 0x0a]) e);
        Some (term_show_prompt e, enable_raw_mode (disable_raw_mode tt))
      }
      else if c = 0x09 then map_option (\<lambda>e. (e, tt)) (do_tab_completion fs t e)
      else if c = 0x0c then do {
        let e = term_show_prompt (term_clear_screen e);
        e \<leftarrow> term_write_buf 0 (line_len e) e;
        Some (cursor_back e, tt)
      }
      else map_option (\<lambda>e. (e, tt)) (edit_key c e))"

function readline_loop ::
    "dirfs \<Rightarrow> env \<Rightarrow> char list \<Rightarrow> nat \<Rightarrow> editor \<Rightarrow> tty \<Rightarrow> input \<Rightarrow> readline_result option" where
  "readline_loop fs t buf nbuf e tt i =
     (let (c, i') = read_key i in
      if c < 0 then Some (-1, buf, e, disable_raw_mode tt, i')
      else if c = 0x0d \<or> c = 0x0a then enter_line buf nbuf e tt i'
      else if c = 0x04 \<and> line_len e = 0
      then Some (-1, buf, term_write [CHR 0x0d, CHR 0x0a] e, disable_raw_mode tt, i')
      else do {
        (e, tt) \<leftarrow> readline_key fs t c e tt;
        readline_loop fs t buf nbuf e tt i'
      })"
  by pat_completeness auto
termination
proof (relation "measure (\<lambda>(fs, t, buf, nbuf, e, tt, i). length i)", goal_cases)
  case (2 fs t buf nbuf e tt i p c i')
  then have "fst (read_key i) = c" "snd (read_key i) = i'"
    by (metis fst_conv, metis snd_conv)
  then show ?case using 2 read_key_less [of i] by simp
qed simp

declare readline_loop.simps [simp del]

definition do_readline ::
    "dirfs \<Rightarrow> env \<Rightarrow> char list \<Rightarrow> nat \<Rightarrow> editor \<Rightarrow> tty \<Rightarrow> input \<Rightarrow> readline_result option" where
  "do_readline fs t buf nbuf e tt i = do {
     e \<leftarrow> line_clear e;
     let e = history_reset e;
     let tt = enable_raw_mode tt;
     readline_loop fs t buf nbuf (term_show_prompt e) tt i
   }"

definition getcmd ::
    "dirfs \<Rightarrow> env \<Rightarrow> char list \<Rightarrow> nat \<Rightarrow> editor \<Rightarrow> tty \<Rightarrow> input \<Rightarrow> readline_result option" where
  "getcmd fs t buf nbuf e tt i = do {
     buf \<leftarrow> awrite buf 0 (replicate nbuf NUL);
     (n, rest) \<leftarrow> do_readline fs t buf nbuf e tt i;
     Some (if n < 0 then -1 else 0, rest)
   }"

subsection \<open>Safety\<close>

text \<open>An operation that cannot leave its buffers.\<close>

definition safe_op :: "(editor \<Rightarrow> editor option) \<Rightarrow> bool" where
  "safe_op op \<longleftrightarrow> (\<forall>e. ed_ok e \<longrightarrow> (\<exists>e'. op e = Some e' \<and> ed_ok e'))"

lemma safe_opD: "safe_op op \<Longrightarrow> ed_ok e \<Longrightarrow> \<exists>e'. op e = Some e' \<and> ed_ok e'"
  by (simp add: safe_op_def)

lemma implements_safe: "implements op zop \<Longrightarrow> safe_op op"
  unfolding implements_def safe_op_def by blast

lemma insert_char_safe: "c \<noteq> NUL \<Longrightarrow> safe_op (line_insert_char c)"
  unfolding safe_op_def
proof (intro allI impI)
  fix e assume c: "c \<noteq> NUL" and "ed_ok e"
  then obtain l r t where s: "at_split e l r t" by (blast elim: ed_ok_splitE)
  show "\<exists>e'. line_insert_char c e = Some e' \<and> ed_ok e'"
  proof (cases t)
    case Nil
    then have "line_insert_char c e = Some (term_write [BEL] e)"
      using at_splitD [OF s] by (simp add: line_insert_char_def)
    then show ?thesis using \<open>ed_ok e\<close> by simp
  next
    case (Cons x t')
    show ?thesis
      using insert_split [OF s [unfolded Cons] c] to_split_ok(1) [OF \<open>ed_ok e\<close>] at_splitD [OF s] Cons c by simp
  qed
qed

lemma insert_chars_safe: "cstring s \<Longrightarrow> safe_op (insert_chars s)"
proof (induction s)
  case (Cons c s)
  then show ?case
    using insert_char_safe [of c] by (fastforce simp: safe_op_def)
qed (simp add: safe_op_def)

lemma clear_safe: "safe_op line_clear"
  by (auto simp: safe_op_def line_clear_def ed_ok_def line_ok_def hist_ok_def)

lemma ok_term_write [simp]: "line_ok (term_write s e) = line_ok e" "hist_ok (term_write s e) = hist_ok e"
  by (simp_all add: line_ok_def hist_ok_def)

lemma redisplay_safe:
  assumes "ed_ok e"
  shows "\<exists>e'. term_write_buf 0 (line_len e) e = Some e' \<and> ed_ok (cursor_back e')"
  using assms by (simp add: term_write_buf_def cursor_back_eq ed_ok_def line_ok_def)

text \<open>The names of directory entries hold no NUL, as \<open>getdents\<close> promises.\<close>

definition fs_names_ok :: "dirfs \<Rightarrow> bool" where
  "fs_names_ok fs \<longleftrightarrow> (\<forall>d es. fs_dents fs d = Some es \<longrightarrow> list_all (\<lambda>(ino, nm). cstring nm) es)"

lemma add_entries_names:
  "list_all (\<lambda>(ino, nm). cstring nm) es \<Longrightarrow> list_all cstring ms \<Longrightarrow>
   list_all cstring (add_entries fs dir prefix x es ms)"
proof (induction es arbitrary: ms)
  case (Cons a es)
  obtain ino nm where a: "a = (ino, nm)" by force
  have "list_all cstring (add_entries fs dir prefix x es ms)"
    "list_all cstring (add_entries fs dir prefix x es (ms @ [nm]))"
    using Cons.prems a by (auto intro!: Cons.IH)
  then show ?case
    using Cons.prems unfolding a by (simp only: add_entries.simps split: if_split) simp
qed simp

lemma add_matches_names:
  "fs_names_ok fs \<Longrightarrow> list_all cstring ms \<Longrightarrow> list_all cstring (add_matches_from_dir fs dir prefix x ms)"
  by (cases "fs_dents fs dir") (simp_all add: add_matches_from_dir_def fs_names_ok_def add_entries_names)

lemma add_path_names:
  "fs_names_ok fs \<Longrightarrow> list_all cstring ms \<Longrightarrow> list_all cstring (add_path_dirs fs prefix p ms)"
proof (induction fs prefix p ms rule: add_path_dirs.induct)
  case (1 fs prefix p ms)
  show ?case
  proof (cases "p = [] \<or> MAX_MATCHES \<le> length ms")
    case True
    then show ?thesis using "1.prems" by (subst add_path_dirs.simps) simp
  next
    case False
    then show ?thesis
      using "1.IH" [OF False refl "1.prems"(1)] "1.prems" add_matches_names
      by (subst add_path_dirs.simps) (simp add: Let_def)
  qed
qed

lemma add_builtins_names:
  "list_all cstring bs \<Longrightarrow> list_all cstring ms \<Longrightarrow> list_all cstring (add_builtins prefix bs ms)"
proof (induction bs arbitrary: ms)
  case (Cons b bs)
  have "list_all cstring (add_builtins prefix bs ms)" "list_all cstring (add_builtins prefix bs (ms @ [b]))"
    using Cons.prems by (auto intro!: Cons.IH)
  then show ?case
    using Cons.prems by (simp only: add_builtins.simps split: if_split) simp
qed simp

lemma collect_names:
  assumes "fs_names_ok fs" shows "list_all cstring (collect_path_matches fs t prefix)"
proof -
  have "list_all cstring (add_matches_from_dir fs ''.'' prefix False [])"
    using add_matches_names [OF assms] by simp
  then have "list_all cstring (case env_get t ''PATH'' of
      Some path \<Rightarrow> add_path_dirs fs prefix (clip MAX_ENV_VALUE path) (add_matches_from_dir fs ''.'' prefix False [])
    | None \<Rightarrow> add_matches_from_dir fs ''.'' prefix False [])"
    using add_path_names [OF assms] by (simp split: option.split)
  moreover have "list_all cstring builtins"
    by (simp add: builtins_def)
  ultimately show ?thesis
    unfolding collect_path_matches_def Let_def by (intro add_builtins_names)
qed

lemma word_start_ok: "n \<le> length b \<Longrightarrow> \<exists>k\<le>n. word_start b n = Some k"
  by (induction n) (auto intro: le_SucI)

lemma show_candidates_safe: "ed_ok e \<Longrightarrow> ed_ok (show_candidates ms i cols width e)"
  by (induction ms i cols width e rule: show_candidates.induct) auto

lemma prompt_safe [simp]: "ed_ok (term_show_prompt e) = ed_ok e" "line_len (term_show_prompt e) = line_len e"
  by (simp_all add: term_show_prompt_def)

lemma completion_word_safe: "ed_ok e \<Longrightarrow> \<exists>w f. get_completion_word n e = Some (w, f)"
proof -
  assume "ed_ok e"
  then have "cursor_pos e \<le> length (line_buf e)" by (simp add: ed_ok_def line_ok_def)
  moreover from this obtain k where "k \<le> cursor_pos e" "word_start (line_buf e) (cursor_pos e) = Some k"
    using word_start_ok by blast
  ultimately show ?thesis
    by (simp add: get_completion_word_def Let_def)
qed

lemma list_matches_safe: "safe_op (list_matches ms)"
  unfolding safe_op_def
proof (intro allI impI)
  fix e assume "ed_ok e"
  then have "\<exists>e'. Option.bind (term_write_buf 0 (line_len f) (term_show_prompt f)) (\<lambda>e. Some (cursor_back e)) =
      Some e' \<and> ed_ok e'" if "f = show_candidates ms 0 cols w (term_write x e)" for f cols w x
    using redisplay_safe [of "term_show_prompt f"] that show_candidates_safe by auto
  then show "\<exists>e'. list_matches ms e = Some e' \<and> ed_ok e'"
    unfolding list_matches_def Let_def by blast
qed

lemma insert_match_safe:
  assumes "list_all cstring ms" "ms \<noteq> []"
  shows "safe_op (insert_match fs dir prefix ms)"
  unfolding safe_op_def
proof (intro allI impI)
  fix e assume ok: "ed_ok e"
  have "cstring (hd ms)"
    using assms by (cases ms) auto
  then have "safe_op (insert_chars (drop (length prefix) (take (common_prefix_len ms) (hd ms))))"
    by (intro insert_chars_safe) simp
  then obtain e1 where e1: "insert_chars (drop (length prefix) (take (common_prefix_len ms) (hd ms))) e = Some e1"
    "ed_ok e1" using ok by (blast dest: safe_opD)
  have "\<exists>e'. line_insert_char (if b then CHR ''/'' else CHR '' '') e1 = Some e' \<and> ed_ok e'" for b
    using safe_opD [OF insert_char_safe e1(2)] by simp
  then show "\<exists>e'. insert_match fs dir prefix ms e = Some e' \<and> ed_ok e'"
    unfolding insert_match_def Let_def using e1 by (cases "length ms = 1") simp_all
qed

lemma use_matches_safe: "list_all cstring ms \<Longrightarrow> safe_op (use_matches fs dir prefix ms)"
  using insert_match_safe [of ms fs dir prefix] list_matches_safe [of ms]
  by (auto simp: use_matches_def safe_op_def)

lemma tab_completion_safe:
  assumes "fs_names_ok fs" shows "safe_op (do_tab_completion fs t)"
  unfolding safe_op_def
proof (intro allI impI)
  fix e assume ok: "ed_ok e"
  obtain word first where w: "get_completion_word (NAME_MAX + 1) e = Some (word, first)"
    using completion_word_safe [OF ok] by blast
  obtain dir prefix where d: "get_completion_dir 256 word = (dir, prefix)" by force
  have "safe_op (use_matches fs dir prefix (if b then collect_path_matches fs t prefix
      else add_matches_from_dir fs dir prefix False []))" for b
    using assms by (intro use_matches_safe) (simp add: collect_names add_matches_names)
  from safe_opD [OF this ok] show "\<exists>e'. do_tab_completion fs t e = Some e' \<and> ed_ok e'"
    by (simp only: do_tab_completion_def w d bind.bind_lunit prod.case Let_def)
qed

lemma key_safe:
  assumes "fs_names_ok fs" "ed_ok e"
  shows "\<exists>e' tt'. readline_key fs t c e tt = Some (e', tt') \<and> ed_ok e'"
proof -
  note ops = safe_opD [OF _ assms(2)]
  show ?thesis
    using ops [OF implements_safe [OF implements_delete_forward]] ops [OF tab_completion_safe [OF assms(1), of t]]
      ops [OF implements_safe [OF implements_key [of c]]]
      safe_opD [OF clear_safe, of "term_write (''^C'' @ [CHR 0x0d, CHR 0x0a]) e"] assms(2)
      redisplay_safe [of "term_show_prompt (term_clear_screen e)"]
    by (auto simp: readline_key_def Let_def term_clear_screen_def)
qed

subsection \<open>What the terminal is left in\<close>

text \<open>\<open>A\<close> are the attributes of the terminal outside raw mode.\<close>

definition tty_inv :: "termios \<Rightarrow> tty \<Rightarrow> bool" where
  "tty_inv A tt \<longleftrightarrow> (\<not> raw_mode tt \<longrightarrow> tty_attr tt = A) \<and>
     (orig_termios_saved tt \<longrightarrow> orig_termios tt = A) \<and> (raw_mode tt \<longrightarrow> orig_termios_saved tt \<and> tty_works tt)"

lemma tty_inv_enable: "tty_inv A tt \<Longrightarrow> tty_inv A (enable_raw_mode tt)"
  by (auto simp: tty_inv_def enable_raw_mode_def Let_def)

lemma tty_inv_disable:
  "tty_inv A tt \<Longrightarrow> tty_inv A (disable_raw_mode tt)"
  "tty_inv A tt \<Longrightarrow> tty_attr (disable_raw_mode tt) = A"
  "\<not> raw_mode (disable_raw_mode tt)"
  by (auto simp: tty_inv_def disable_raw_mode_def)

lemma readline_key_tty:
  "tty_inv A tt \<Longrightarrow> readline_key fs t c e tt = Some (e', tt') \<Longrightarrow> tty_inv A tt'"
  by (auto simp: readline_key_def Let_def tty_inv_enable tty_inv_disable split: if_splits bind_splits)

subsection \<open>Entering the line\<close>

lemma str_at_line: "at_split e l r t \<Longrightarrow> str_at (line_buf e) 0 = l @ r"
  using str_at_write [of "l @ r" t] by (simp add: at_split_def)

lemma history_add_frame:
  "history_add line e = Some e' \<Longrightarrow>
   line_buf e' = line_buf e \<and> line_len e' = line_len e \<and> cursor_pos e' = cursor_pos e"
  by (auto simp: history_add_def Let_def split: if_splits bind_splits)

lemma enter_history:
  assumes "at_split e l r t"
  obtains e' where
    "(if 0 < line_len e then history_add (str_at (line_buf e) 0) e else Some e) = Some e'"
    "hist_ok e'" "hist e' = h_add (l @ r) (hist e)" "line_buf e' = line_buf e" "line_len e' = length l + length r"
    "cursor_pos e' = cursor_pos e"
proof -
  have ok: "hist_ok e" "cstring (l @ r)" "length (l @ r) < LINE_BUF_SIZE" "line_len e = length l + length r"
    using assms by (simp_all add: at_split_def ed_ok_def)
  from history_add_list [OF ok(1-3)] obtain e' where
    "history_add (l @ r) e = Some e'" "hist_ok e'" "hist e' = h_add (l @ r) (hist e)" by blast
  then show ?thesis
    using that [of e'] that [of e] ok str_at_line [OF assms] history_add_frame [of "l @ r" e e']
    by (cases "l @ r = []") (auto simp: h_add_def)
qed

text \<open>The line as the caller gets it: cut to the buffer's size, a newline and a terminator.\<close>

lemma enter_line_fits:
  assumes "at_split e l r t" "0 < nbuf" "m = (if nbuf \<le> length (l @ r) then nbuf - 1 else length (l @ r))"
    and "m + 2 \<le> length buf"
  shows "\<exists>e'. enter_line buf nbuf e tt i =
      Some (int (m + 1), take m (l @ r) @ CHR 0x0a # NUL # drop (m + 2) buf, e', disable_raw_mode tt, i) \<and>
      hist_ok e' \<and> hist e' = h_add (l @ r) (hist e)"
proof -
  let ?f = "term_write [CHR 0x0d, CHR 0x0a] e"
  have "at_split ?f l r t"
    using assms(1) by (simp add: at_split_def hist_def)
  from enter_history [OF this] obtain e' where e': 
    "(if 0 < line_len ?f then history_add (str_at (line_buf ?f) 0) ?f else Some ?f) = Some e'"
    "hist_ok e'" "hist e' = h_add (l @ r) (hist ?f)" "line_buf e' = line_buf ?f" "line_len e' = length (l @ r)"
    by (metis length_append)
  define e2 where "e2 = (if nbuf \<le> line_len e' then e'\<lparr>line_len := nbuf - 1\<rparr> else e')"
  have e2: "line_len e2 = m" "line_buf e2 = l @ r @ NUL # t" "hist_ok e2" "hist e2 = h_add (l @ r) (hist e)"
    using e' assms at_splitD(8) [OF assms(1)] by (simp_all add: e2_def hist_ok_def hist_def)
  have m: "m \<le> length (l @ r)" using assms(2,3) by auto
  define s where "s = take m (l @ r)"
  have len: "length s = m" using m by (simp add: s_def)
  have sl: "aslice (line_buf e2) 0 m = Some s"
    using e2 m by (simp add: aslice_def s_def)
  have w: "awrite buf 0 s = Some (s @ drop m buf)"
    using assms(4) unfolding awrite_def len by simp
  obtain x y rest where rest: "drop m buf = x # y # rest" "drop (m + 2) buf = rest"
    using assms(4) by (metis Cons_nth_drop_Suc Suc_le_lessD add_2_eq_Suc' less_Suc_eq_le Suc_lessD)
  have "aset (s @ drop m buf) m (CHR 0x0a) = Some (s @ CHR 0x0a # y # rest)"
    "aset (s @ CHR 0x0a # y # rest) (m + 1) NUL = Some (s @ CHR 0x0a # NUL # rest)"
    using rest len by (simp_all add: aset_def list_update_append)
  then show ?thesis
    unfolding s_def [symmetric] using e'(1) e2 sl w rest(2)
    by (simp add: enter_line_def Let_def e2_def [symmetric])
qed

lemma enter_line_overruns:
  assumes "at_split e l r t" "length buf \<le> length (l @ r) + 1" "length (l @ r) < nbuf"
  shows "enter_line buf nbuf e tt i = None"
proof -
  let ?f = "term_write [CHR 0x0d, CHR 0x0a] e"
  have "at_split ?f l r t"
    using assms(1) by (simp add: at_split_def hist_def)
  from enter_history [OF this] obtain e' where e': 
    "(if 0 < line_len ?f then history_add (str_at (line_buf ?f) 0) ?f else Some ?f) = Some e'"
    "line_buf e' = line_buf ?f" "line_len e' = length (l @ r)"
    by (metis length_append)
  then show ?thesis
    using assms(2,3) by (simp add: enter_line_def Let_def aset_def awrite_def split: bind_splits)
qed


definition some_fs :: dirfs where
  "some_fs = \<lparr>fs_dents = (\<lambda>d. if d = ''.'' then Some [(1, ''notes''), (2, ''note2'')] else None),
     fs_reg = (\<lambda>p. True), fs_dir = (\<lambda>p. False)\<rparr>"

definition cooked :: termios where
  "cooked = \<lparr>c_iflag = 0x500, c_lflag = 0x8a3b, c_vmin = 0, c_vtime = 0\<rparr>"

definition some_tty :: tty where
  "some_tty = \<lparr>tty_attr = cooked, tty_works = True, raw_lflags = 0x3b, raw_iflags = 0x500,
     orig_termios = cooked, orig_termios_saved = False, raw_mode = False\<rparr>"

lemma some_world_ok: "fs_names_ok some_fs" "tty_inv cooked some_tty"
  by (simp_all add: fs_names_ok_def some_fs_def tty_inv_def some_tty_def)


subsection \<open>What is typed is what is read\<close>

text \<open>The keys that only edit, and the bytes a terminal sends for them.\<close>

definition edit_keys :: "int set" where
  "edit_keys = {0x15, 0x0b, 0x01, 0x05, 0x08, 0x7f, KEY_EXT_UP, KEY_EXT_DOWN, KEY_EXT_LEFT, KEY_EXT_RIGHT,
     KEY_EXT_HOME, KEY_EXT_END, KEY_EXT_DELETE} \<union> {32..126}"

definition key_bytes :: "int \<Rightarrow> string" where
  "key_bytes k =
     (if k = KEY_EXT_UP then ESC # ''[A'' else if k = KEY_EXT_DOWN then ESC # ''[B''
      else if k = KEY_EXT_LEFT then ESC # ''[D'' else if k = KEY_EXT_RIGHT then ESC # ''[C''
      else if k = KEY_EXT_HOME then ESC # ''[H'' else if k = KEY_EXT_END then ESC # ''[F''
      else if k = KEY_EXT_DELETE then ESC # ''[3~'' else [to_char k])"

lemma read_key_bytes:
  assumes "k \<in> edit_keys" shows "read_key (map Some (key_bytes k) @ i) = (k, i)"
proof (cases "k < 257")
  case True
  then have "k mod 256 = k" "k \<noteq> 0x1b" using assms by (auto simp: edit_keys_def)
  with True show ?thesis by (simp add: key_bytes_def read_key_def)
next
  case False
  then have "k \<in> {KEY_EXT_UP, KEY_EXT_DOWN, KEY_EXT_LEFT, KEY_EXT_RIGHT, KEY_EXT_HOME, KEY_EXT_END, KEY_EXT_DELETE}"
    using assms by (auto simp: edit_keys_def)
  then show ?thesis by (auto simp: key_bytes_def read_key_def read_tilde_def uc_def)
qed

lemma readline_key_edit:
  assumes "k \<in> edit_keys" "ed_ok e"
  obtains e' where "readline_key fs t k e tt = Some (e', tt)" "ed_ok e'" "ed_abs e' = z_key k (ed_abs e)"
proof -
  obtain e' where "edit_key k e = Some e'" "ed_ok e'" "ed_abs e' = z_key k (ed_abs e)"
    using implements_key [of k] assms(2) unfolding implements_def by blast
  moreover have "k \<noteq> 0x04" "k \<noteq> 0x03" "k \<noteq> 0x09" "k \<noteq> 0x0c"
    using assms(1) by (auto simp: edit_keys_def)
  ultimately show ?thesis using that by (simp add: readline_key_def)
qed

lemma readline_loop_keys:
  assumes "set ks \<subseteq> edit_keys" "ed_ok e"
  shows "\<exists>e'. readline_loop fs t buf nbuf e tt (concat (map (\<lambda>k. map Some (key_bytes k)) ks) @ Some (CHR 0x0d) # i)
      = enter_line buf nbuf e' tt i \<and> ed_ok e' \<and> ed_abs e' = fold z_key ks (ed_abs e)"
  using assms
proof (induction ks arbitrary: e)
  case Nil
  then show ?case
    by (subst readline_loop.simps) (auto simp: read_key_def uc_def)
next
  case (Cons k ks)
  then have k: "k \<in> edit_keys" by simp
  obtain e1 where e1: "readline_key fs t k e tt = Some (e1, tt)" "ed_ok e1" "ed_abs e1 = z_key k (ed_abs e)"
    using readline_key_edit [OF k Cons.prems(2)] .
  have "\<not> k < 0" "k \<noteq> 0x0d" "k \<noteq> 0x0a" "k \<noteq> 0x04" using k by (auto simp: edit_keys_def)
  then have "readline_loop fs t buf nbuf e tt
      (map Some (key_bytes k) @ concat (map (\<lambda>k. map Some (key_bytes k)) ks) @ Some (CHR 0x0d) # i) =
    readline_loop fs t buf nbuf e1 tt (concat (map (\<lambda>k. map Some (key_bytes k)) ks) @ Some (CHR 0x0d) # i)"
    by (subst readline_loop.simps) (simp add: read_key_bytes [OF k] e1(1))
  then show ?case
    using Cons.IH [OF _ e1(2)] Cons.prems(1) e1(3) by auto
qed

text \<open>The machine that \<open>do_readline\<close> starts: an empty line behind the history.\<close>

definition z_start :: "string list \<Rightarrow> zipper" where
  "z_start h = \<lparr>z_left = [], z_right = [], z_hist = h, z_idx = length h\<rparr>"

lemma readline_start:
  assumes "ed_ok e"
  obtains e1 where "ed_ok e1" "ed_abs e1 = z_start (hist e)"
    "\<And>fs t buf nbuf tt i. do_readline fs t buf nbuf e tt i = readline_loop fs t buf nbuf e1 (enable_raw_mode tt) i"
proof -
  have b: "0 < length (line_buf e)" using assms by (simp add: ed_ok_def line_ok_def)
  let ?e = "history_reset (e\<lparr>line_buf := (line_buf e)[0 := NUL], line_len := 0, cursor_pos := 0\<rparr>)"
  have "ed_ok (term_show_prompt ?e)" "ed_abs (term_show_prompt ?e) = z_start (hist e)"
    using assms b by (auto simp: history_reset_def ed_ok_def line_ok_def hist_ok_def ed_abs_def hist_def
        z_start_def term_show_prompt_def)
  moreover have "do_readline fs t buf nbuf e tt i =
      readline_loop fs t buf nbuf (term_show_prompt ?e) (enable_raw_mode tt) i" for fs t buf nbuf tt i
    using b by (simp add: do_readline_def line_clear_def Let_def)
  ultimately show ?thesis by (rule that)
qed

lemma z_key_hist: "z_hist (z_key k z) = z_hist z"
  by (simp add: z_key_def z_set_def z_home_def z_end_def z_backspace_def z_prev_def z_next_def
      z_move_left_def z_move_right_def z_delete_def z_insert_def split: list.split)

lemma fold_z_key_hist: "z_hist (fold z_key ks z) = z_hist z"
  by (induction ks arbitrary: z) (simp_all add: z_key_hist)

text \<open>
  C13. The shell reads what the user typed: for every sequence of editing keys, sent as the bytes a
  terminal sends and followed by Enter, \<open>do_readline\<close> returns the line that the zipper machine
  ends with, whenever the line leaves room in the buffer for a newline and a terminator; the line
  goes to the history, the rest of the input is untouched.
\<close>

theorem do_readline_types:
  assumes "ed_ok e" "set ks \<subseteq> edit_keys"
    and "line = z_line (fold z_key ks (z_start (hist e)))"
    and "length line + 2 \<le> length buf" "length line < nbuf"
  shows "\<exists>e' tt'. do_readline fs t buf nbuf e tt
      (concat (map (\<lambda>k. map Some (key_bytes k)) ks) @ Some (CHR 0x0d) # i) =
      Some (int (length line) + 1, line @ CHR 0x0a # NUL # drop (length line + 2) buf, e', tt', i) \<and>
    hist_ok e' \<and> hist e' = h_add line (hist e)"
proof -
  obtain e1 where e1: "ed_ok e1" "ed_abs e1 = z_start (hist e)"
    "\<And>fs t buf nbuf tt i. do_readline fs t buf nbuf e tt i = readline_loop fs t buf nbuf e1 (enable_raw_mode tt) i"
    using readline_start [OF assms(1)] by blast
  obtain e2 where e2: "readline_loop fs t buf nbuf e1 (enable_raw_mode tt)
      (concat (map (\<lambda>k. map Some (key_bytes k)) ks) @ Some (CHR 0x0d) # i) = enter_line buf nbuf e2 (enable_raw_mode tt) i"
    "ed_ok e2" "ed_abs e2 = fold z_key ks (z_start (hist e))"
    using readline_loop_keys [OF assms(2) e1(1)] e1(2) by metis
  obtain l r u where s: "at_split e2 l r u" using e2(2) by (blast elim: ed_ok_splitE)
  then have line: "line = l @ r" using at_splitD(1) [OF s] e2(3) assms(3) by (simp add: z_line_def)
  have "length (l @ r) = (if nbuf \<le> length (l @ r) then nbuf - 1 else length (l @ r))" "0 < nbuf"
    "length (l @ r) + 2 \<le> length buf"
    using assms(4,5) line by auto
  from enter_line_fits [OF s this(2,1,3)] obtain e3 where e3: "enter_line buf nbuf e2 (enable_raw_mode tt) i =
      Some (int (length (l @ r) + 1), take (length (l @ r)) (l @ r) @ CHR 0x0a # NUL # drop (length (l @ r) + 2) buf,
        e3, disable_raw_mode (enable_raw_mode tt), i)" "hist_ok e3" "hist e3 = h_add (l @ r) (hist e2)"
    by blast
  have "hist e2 = hist e"
    using e2(3) fold_z_key_hist [of ks "z_start (hist e)"] ed_abs_hist(1) [of e2] by (simp add: z_start_def)
  then show ?thesis
    using e1(3) e2(1) e3 by (auto simp: line add.commute)
qed

theorem do_readline_types_witness:
  "\<exists>e' tt'. do_readline some_fs env_blank (replicate 1024 NUL) 1024 ed_blank some_tty
      (concat (map (\<lambda>k. map Some (key_bytes k)) [108, 115, KEY_EXT_LEFT, 0x78]) @ Some (CHR 0x0d) # []) =
      Some (4, ''lxs'' @ CHR 0x0a # NUL # drop 5 (replicate 1024 NUL), e', tt', []) \<and>
    hist_ok e' \<and> hist e' = [''lxs'']"
proof -
  let ?ks = "[108, 115, KEY_EXT_LEFT, 0x78]"
  have h: "hist ed_blank = []" by (simp add: hist_def ed_blank_def)
  have line: "''lxs'' = z_line (fold z_key ?ks (z_start (hist ed_blank)))"
    by (simp add: h z_start_def z_key_def z_insert_def z_move_left_def z_line_def to_char_def char_of_def)
  have "\<exists>e' tt'. do_readline some_fs env_blank (replicate 1024 NUL) 1024 ed_blank some_tty
      (concat (map (\<lambda>k. map Some (key_bytes k)) ?ks) @ Some (CHR 0x0d) # []) =
      Some (int (length ''lxs'') + 1, ''lxs'' @ CHR 0x0a # NUL # drop (length ''lxs'' + 2) (replicate 1024 NUL), e', tt', []) \<and>
    hist_ok e' \<and> hist e' = h_add ''lxs'' (hist ed_blank)"
    by (rule do_readline_types [OF ed_blank_ok(1) _ line]) (simp_all add: edit_keys_def)
  then show ?thesis by (simp add: h h_add_def)
qed

text \<open>
  The buffer is one byte short: with a buffer of exactly the size that is passed, as
  \<open>getcmd\<close>'s caller has it, a line that fills the line buffer makes \<open>do_readline\<close> write its
  terminator past the end.
\<close>

theorem do_readline_full_line_overruns:
  assumes "ed_ok e" "set ks \<subseteq> edit_keys" "length (z_line (fold z_key ks (z_start (hist e)))) = 1023"
    and "length buf = 1024"
  shows "do_readline fs t buf 1024 e tt
      (concat (map (\<lambda>k. map Some (key_bytes k)) ks) @ Some (CHR 0x0d) # i) = None"
proof -
  obtain e1 where e1: "ed_ok e1" "ed_abs e1 = z_start (hist e)"
    "\<And>fs t buf nbuf tt i. do_readline fs t buf nbuf e tt i = readline_loop fs t buf nbuf e1 (enable_raw_mode tt) i"
    using readline_start [OF assms(1)] by blast
  obtain e2 where e2: "readline_loop fs t buf 1024 e1 (enable_raw_mode tt)
      (concat (map (\<lambda>k. map Some (key_bytes k)) ks) @ Some (CHR 0x0d) # i) = enter_line buf 1024 e2 (enable_raw_mode tt) i"
    "ed_ok e2" "ed_abs e2 = fold z_key ks (z_start (hist e))"
    using readline_loop_keys [OF assms(2) e1(1)] e1(2) by metis
  obtain l r u where s: "at_split e2 l r u" using e2(2) by (blast elim: ed_ok_splitE)
  then have "length (l @ r) = 1023" using at_splitD(1) [OF s] e2(3) assms(3) by (simp add: z_line_def)
  then show ?thesis
    using enter_line_overruns [OF s] assms(4) e1(3) e2(1) by simp
qed

lemma type_chars:
  "length (z_line z) + n \<le> 1023 \<Longrightarrow>
   length (z_line (fold z_key (replicate n 97) z)) = length (z_line z) + n"
proof (induction n arbitrary: z)
  case (Suc n)
  then have "length (z_line (z_key 97 z)) = length (z_line z) + 1"
    by (simp add: z_key_def z_insert_def z_line_def)
  then show ?case using Suc by simp
qed simp

theorem do_readline_full_line_overruns_witness:
  "do_readline some_fs env_blank (replicate 1024 NUL) 1024 ed_blank some_tty
      (concat (map (\<lambda>k. map Some (key_bytes k)) (replicate 1023 97)) @ Some (CHR 0x0d) # []) = None"
proof (rule do_readline_full_line_overruns [OF ed_blank_ok(1)])
  have "length (z_line (z_start (hist ed_blank))) = 0"
    by (simp add: z_start_def z_line_def)
  with type_chars [of "z_start (hist ed_blank)" 1023]
  show "length (z_line (fold z_key (replicate 1023 97) (z_start (hist ed_blank)))) = 1023"
    by linarith
qed (auto simp: edit_keys_def)

end
