(* ===== verification/ShComplete.thy ===== *)
theory ShComplete
  imports ShReadline "HOL-Library.Sublist"
begin

section \<open>sh.c: what completion inserts\<close>

text \<open>
  The functional correctness of completion: the length that \<open>common_prefix_len\<close> computes is that of
  the longest common prefix of the matches, and \<open>do_tab_completion\<close> inserts what it adds to the
  word at the cursor.
\<close>

lemma insert_char_abs:
  assumes "c \<noteq> NUL" "ed_ok e" "length (z_line (ed_abs e)) < 1023"
  shows "\<exists>e'. line_insert_char c e = Some e' \<and> ed_ok e' \<and>
    ed_abs e' = (ed_abs e)\<lparr>z_left := z_left (ed_abs e) @ [c]\<rparr>"
proof -
  obtain l r t where s: "at_split e l r t" using assms(2) by (blast elim: ed_ok_splitE)
  obtain x t' where t: "t = x # t'"
    using at_splitD(1,3) [OF s] assms(3) by (cases t) (auto simp: z_line_def)
  show ?thesis
    using insert_split [OF s [unfolded t] assms(1)] to_split_ok [OF assms(2), of "l @ [c]" r t'] at_splitD [OF s] t assms(1)
    by simp
qed

lemma insert_chars_abs:
  assumes "cstring s" "ed_ok e" "length (z_line (ed_abs e)) + length s \<le> 1023"
  shows "\<exists>e'. insert_chars s e = Some e' \<and> ed_ok e' \<and> ed_abs e' = (ed_abs e)\<lparr>z_left := z_left (ed_abs e) @ s\<rparr>"
  using assms
proof (induction s arbitrary: e)
  case (Cons c s)
  obtain e1 where e1: "line_insert_char c e = Some e1" "ed_ok e1"
    "ed_abs e1 = (ed_abs e)\<lparr>z_left := z_left (ed_abs e) @ [c]\<rparr>"
    using insert_char_abs [of c e] Cons.prems by auto
  then have "length (z_line (ed_abs e1)) + length s \<le> 1023"
    using Cons.prems by (simp add: z_line_def)
  with Cons.IH [OF _ e1(2)] e1 Cons.prems(1) show ?case by auto
qed simp

lemma prefix_deref: "cstring (c # s) \<Longrightarrow> deref (drop n m) = c \<longleftrightarrow> (\<exists>u. drop n m = c # u)"
  by (cases "drop n m") auto

lemma common_loop_prefix:
  assumes "cstring s" "\<forall>m\<in>set ms. take n m = a" "length a = n"
  shows "\<exists>k. common_loop s ms n = n + k \<and> k \<le> length s \<and>
    (\<forall>q. prefix q (a @ take k s) \<longleftrightarrow> prefix q (a @ s) \<and> (\<forall>m\<in>set ms. prefix q m))"
  using assms
proof (induction s arbitrary: n a)
  case Nil
  then have "prefix a m" if "m \<in> set ms" for m using that take_is_prefix by metis
  then show ?case by (auto intro: prefix_order.trans)
next
  case (Cons c s)
  show ?case
  proof (cases "\<forall>m\<in>set ms. deref (drop n m) = c")
    case True
    have "\<forall>m\<in>set ms. take (Suc n) m = a @ [c]"
    proof
      fix m assume m: "m \<in> set ms"
      then obtain u where "drop n m = c # u"
        using True prefix_deref [OF Cons.prems(1)] by blast
      moreover have "m = a @ drop n m" using Cons.prems(2) m append_take_drop_id by metis
      ultimately have "m = a @ c # u" by simp
      then show "take (Suc n) m = a @ [c]" using Cons.prems(3) by simp
    qed
    then obtain k where "common_loop s ms (Suc n) = Suc n + k" "k \<le> length s"
      "\<forall>q. prefix q ((a @ [c]) @ take k s) \<longleftrightarrow> prefix q ((a @ [c]) @ s) \<and> (\<forall>m\<in>set ms. prefix q m)"
      using Cons.IH [of "Suc n" "a @ [c]"] Cons.prems by auto
    then show ?thesis
      using True by (intro exI [of _ "Suc k"]) simp
  next
    case False
    then obtain m where m: "m \<in> set ms" "deref (drop n m) \<noteq> c" by blast
    have "prefix q a" if "prefix q (a @ c # s)" "prefix q m" for q
    proof (rule ccontr)
      assume "\<not> prefix q a"
      with that(1) obtain w where "q = a @ c # w"
        by (auto simp: prefix_append prefix_Cons)
      with that(2) have "drop n m = c # drop (Suc n) m"
        using Cons.prems(3) by (auto simp: prefix_def)
      with m(2) show False by simp
    qed
    moreover have "prefix a m" if "m \<in> set ms" for m
      using that Cons.prems(2) take_is_prefix by metis
    ultimately show ?thesis
      using False m(1) by (intro exI [of _ 0]) (auto intro: prefix_order.trans)
  qed
qed

text \<open>\<open>common_prefix_len\<close> computes the longest common prefix.\<close>

lemma common_prefix_longest:
  assumes "ms \<noteq> []" "list_all cstring ms"
  shows "common_prefix_len ms \<le> length (hd ms)"
    "prefix q (take (common_prefix_len ms) (hd ms)) \<longleftrightarrow> (\<forall>m\<in>set ms. prefix q m)"
proof -
  obtain m ms' where ms: "ms = m # ms'" using assms(1) by (cases ms) auto
  have "common_prefix_len ms \<le> length (hd ms) \<and>
    (prefix q (take (common_prefix_len ms) (hd ms)) \<longleftrightarrow> (\<forall>m\<in>set ms. prefix q m))"
  proof (cases ms')
    case Nil
    then show ?thesis by (simp add: ms common_prefix_len_def)
  next
    case (Cons m2 ms2)
    then show ?thesis
      using common_loop_prefix [of m ms' 0 "[]"] assms(2) by (auto simp: ms common_prefix_len_def)
  qed
  then show "common_prefix_len ms \<le> length (hd ms)"
    "prefix q (take (common_prefix_len ms) (hd ms)) \<longleftrightarrow> (\<forall>m\<in>set ms. prefix q m)" by simp_all
qed

lemma strcat_append: "strcat_local d s = d @ s"
  by (induction d) auto

lemma show_candidates_abs: "ed_abs (show_candidates ms i cols width e) = ed_abs e"
  by (induction ms i cols width e rule: show_candidates.induct) auto

lemma list_matches_abs:
  assumes "ed_ok e" shows "\<exists>e'. list_matches ms e = Some e' \<and> ed_ok e' \<and> ed_abs e' = ed_abs e"
proof -
  have "\<exists>e'. Option.bind (term_write_buf 0 (line_len f) (term_show_prompt f)) (\<lambda>e. Some (cursor_back e)) =
      Some e' \<and> ed_ok e' \<and> ed_abs e' = ed_abs e"
    if "f = show_candidates ms 0 cols w (term_write x e)" for f cols w x
  proof -
    have f: "ed_ok f" "ed_abs f = ed_abs e"
      using that show_candidates_safe assms by (simp_all add: show_candidates_abs)
    then show ?thesis
      using redisplay_safe [of "term_show_prompt f"]
      by (auto simp: term_write_buf_def cursor_back_eq term_show_prompt_def)
  qed
  then show ?thesis
    unfolding list_matches_def Let_def by blast
qed

text \<open>
  Completion inserts exactly what all candidates agree on: when every match extends the typed
  prefix and the line has room, the text before the cursor grows by the rest of the longest common
  prefix of the matches, and a single match that is longer than the prefix is closed with a slash or
  a blank; nothing else changes.
\<close>

theorem completion_inserts:
  assumes "ed_ok e" "ms \<noteq> []" "list_all cstring ms" "\<forall>m\<in>set ms. prefix pre m"
    and "length (z_line (ed_abs e)) + length (hd ms) < 1023"
  shows "\<exists>e' p close. use_matches fs dir pre ms e = Some e' \<and> ed_ok e' \<and>
    (\<forall>q. prefix q p \<longleftrightarrow> (\<forall>m\<in>set ms. prefix q m)) \<and>
    close = (if length ms = 1 \<and> p \<noteq> pre
      then [if fs_dir fs (if strcmp dir ''.'' = 0 then hd ms else dir @ hd ms) then CHR ''/'' else CHR '' ''] else []) \<and>
    ed_abs e' = (ed_abs e)\<lparr>z_left := z_left (ed_abs e) @ drop (length pre) p @ close\<rparr>"
proof -
  define p where "p = take (common_prefix_len ms) (hd ms)"
  note lcp = common_prefix_longest [OF assms(2,3)]
  have p: "\<forall>q. prefix q p \<longleftrightarrow> (\<forall>m\<in>set ms. prefix q m)" "length p = common_prefix_len ms"
    using lcp by (simp_all add: p_def)
  have pre: "prefix pre p" using p(1) assms(4) by simp
  have "cstring (hd ms)" using assms(2,3) by (cases ms) auto
  then have cs: "cstring (drop (length pre) p)" by (simp add: p_def)
  have room: "length (z_line (ed_abs e)) + length (drop (length pre) p) < 1023"
    using assms(5) lcp(1) p(2) by simp
  obtain zs where zs: "p = pre @ zs" using pre by (auto simp: prefix_def)
  have longer: "length pre < common_prefix_len ms \<longleftrightarrow> p \<noteq> pre"
    using p(2) by (cases zs) (simp_all add: zs)
  show ?thesis
  proof (cases "p = pre")
    case True
    have "\<exists>e'. list_matches ms e = Some e' \<and> ed_ok e' \<and> ed_abs e' = ed_abs e"
      by (rule list_matches_abs [OF assms(1)])
    then show ?thesis
      using True longer assms(1,2) p(1)
      by (cases "1 < length ms") (auto simp: use_matches_def intro!: exI [of _ p])
  next
    case False
    obtain e1 where e1: "insert_chars (drop (length pre) p) e = Some e1" "ed_ok e1"
      "ed_abs e1 = (ed_abs e)\<lparr>z_left := z_left (ed_abs e) @ drop (length pre) p\<rparr>"
      using insert_chars_abs [OF cs assms(1)] room by auto
    have room1: "length (z_line (ed_abs e1)) < 1023"
      using room e1(3) by (simp add: z_line_def)
    define d where "d = (if fs_dir fs (if strcmp dir ''.'' = 0 then hd ms else dir @ hd ms) then CHR ''/'' else CHR '' '')"
    have dn: "d \<noteq> NUL" by (simp add: d_def)
    obtain e2 where e2: "line_insert_char d e1 = Some e2" "ed_ok e2"
      "ed_abs e2 = (ed_abs e1)\<lparr>z_left := z_left (ed_abs e1) @ [d]\<rparr>"
      using insert_char_abs [OF dn e1(2) room1] by blast
    have "use_matches fs dir pre ms e = (if length ms = 1 then Some e2 else Some e1)"
      using False longer assms(2) e1(1) e2(1)
      by (auto simp: use_matches_def insert_match_def p_def [symmetric] d_def strcat_append Let_def split: if_splits)
    then show ?thesis
      using False p(1) e1 e2
      by (cases "length ms = 1")
        (auto simp: d_def intro!: exI [of _ p] split: if_splits)
  qed
qed

theorem completion_inserts_witness:
  "\<exists>e' p close. use_matches some_fs ''.'' ''n'' [''notes'', ''note2''] ed_blank = Some e' \<and> ed_ok e' \<and>
    (\<forall>q. prefix q p \<longleftrightarrow> (\<forall>m\<in>set [''notes'', ''note2'']. prefix q m)) \<and> close = [] \<and>
    ed_abs e' = (ed_abs ed_blank)\<lparr>z_left := z_left (ed_abs ed_blank) @ drop (length ''n'') p @ close\<rparr>"
proof -
  have "\<exists>e' p close. use_matches some_fs ''.'' ''n'' [''notes'', ''note2''] ed_blank = Some e' \<and> ed_ok e' \<and>
    (\<forall>q. prefix q p \<longleftrightarrow> (\<forall>m\<in>set [''notes'', ''note2'']. prefix q m)) \<and>
    close = (if length [''notes'', ''note2''] = 1 \<and> p \<noteq> ''n''
      then [if fs_dir some_fs (if strcmp ''.'' ''.'' = 0 then hd [''notes'', ''note2''] else ''.'' @ hd [''notes'', ''note2''])
            then CHR ''/'' else CHR '' ''] else []) \<and>
    ed_abs e' = (ed_abs ed_blank)\<lparr>z_left := z_left (ed_abs ed_blank) @ drop (length ''n'') p @ close\<rparr>"
    by (rule completion_inserts [OF ed_blank_ok(1)]) (simp_all add: ed_blank_ok z_line_def)
  then show ?thesis by simp
qed

end
