(* ===== verification/ShParse.thy ===== *)
theory ShParse
  imports Ulib
begin

section \<open>sh.c: the parser\<close>

text \<open>
  The recursive-descent parser of the shell.  A position in the line is the rest of the line, so
  \<open>s < es\<close> is \<open>s \<noteq> []\<close>; a token is the text between \<open>q\<close> and \<open>eq\<close>, still quoted, and \<open>nulterminate\<close>,
  which cuts the tokens out of the line and strips their quotes in place, maps \<open>dequote\<close> over them.
  A parser function ends with a command and the rest of the line, or with the message of \<open>panic\<close>, which
  exits the shell.  The functions call each other, so they carry fuel; the first theorem says how
  much is enough.
\<close>

subsection \<open>Commands\<close>

datatype open_mode = RdOnly | WrTrunc | WrAppend

text \<open>
  \<open>O_RDONLY\<close>, \<open>O_WRONLY | O_CREAT | O_TRUNC\<close> and \<open>O_WRONLY | O_CREAT | O_APPEND\<close>; the structures
  \<open>execcmd\<close>, \<open>redircmd\<close>, \<open>pipecmd\<close>, \<open>listcmd\<close> and \<open>backcmd\<close>.
\<close>

datatype cmd =
    Exec "string list"
  | Redir cmd string open_mode nat
  | Pipe cmd cmd
  | List cmd cmd
  | Back cmd

abbreviation MAXARGS :: nat where "MAXARGS \<equiv> 32"

datatype 'a parse = Fuel | Panic string | Got 'a

fun and_then :: "'a parse \<Rightarrow> ('a \<Rightarrow> 'b parse) \<Rightarrow> 'b parse" where
  "and_then Fuel f = Fuel"
| "and_then (Panic msg) f = Panic msg"
| "and_then (Got x) f = f x"

lemma and_then_cong [fundef_cong]:
  "r = r' \<Longrightarrow> (\<And>x. r' = Got x \<Longrightarrow> f x = f' x) \<Longrightarrow> and_then r f = and_then r' f'"
  by (cases r') simp_all

subsection \<open>Tokens\<close>

abbreviation DQUOTE :: char where "DQUOTE \<equiv> CHR 0x22"
abbreviation SQUOTE :: char where "SQUOTE \<equiv> CHR 0x27"
abbreviation BACKSLASH :: char where "BACKSLASH \<equiv> CHR 0x5c"

definition whitespace :: string where
  "whitespace = [CHR '' '', CHR 0x09, CHR 0x0d, CHR 0x0a, CHR 0x0b]"

definition symbols :: string where
  "symbols = ''<|>&;()''"

definition is_white :: "char \<Rightarrow> bool" where
  "is_white c \<longleftrightarrow> strchr whitespace c \<noteq> None"

definition is_symbol :: "char \<Rightarrow> bool" where
  "is_symbol c \<longleftrightarrow> strchr symbols c \<noteq> None"

fun skip_white :: "string \<Rightarrow> string" where
  "skip_white [] = []"
| "skip_white (c # s) = (if is_white c then skip_white s else c # s)"

text \<open>Behind the opening quote: to behind the closing one, or to the end of the line.\<close>

fun skip_squote :: "string \<Rightarrow> string" where
  "skip_squote [] = []"
| "skip_squote [c] = []"
| "skip_squote (c # d # s) =
     (if c = SQUOTE then d # s
      else if c = BACKSLASH \<and> d = SQUOTE then skip_squote s
      else skip_squote (d # s))"

fun skip_dquote :: "string \<Rightarrow> string" where
  "skip_dquote [] = []"
| "skip_dquote [c] = []"
| "skip_dquote (c # d # s) =
     (if c = DQUOTE then d # s
      else if c = BACKSLASH then skip_dquote s
      else skip_dquote (d # s))"

lemma skip_squote_length: "length (skip_squote s) \<le> length s"
  by (induction s rule: skip_squote.induct) auto

lemma skip_dquote_length: "length (skip_dquote s) \<le> length s"
  by (induction s rule: skip_dquote.induct) auto

function skip_word :: "string \<Rightarrow> string" where
  "skip_word s =
     (case s of
        [] \<Rightarrow> []
      | c # t \<Rightarrow>
          if is_white c \<or> is_symbol c then s
          else if c = BACKSLASH \<and> t \<noteq> [] then skip_word (tl t)
          else if c = SQUOTE then skip_word (skip_squote t)
          else if c = DQUOTE then skip_word (skip_dquote t)
          else skip_word t)"
  by pat_completeness auto
termination
  by (relation "measure length") (auto simp: less_Suc_eq_le skip_squote_length skip_dquote_length)

declare skip_word.simps [simp del]

text \<open>The kind of the token (0, \<open>'a'\<close> for a word, \<open>'+'\<close> for \<open>>>\<close>, else the symbol), its text, the rest.\<close>

definition gettoken :: "string \<Rightarrow> char \<times> string \<times> string" where
  "gettoken s =
     (let s = skip_white s;
          (ret, r) =
            (case s of
               [] \<Rightarrow> (NUL, s)
             | c # t \<Rightarrow>
                 if c \<in> set ''|();&<'' then (c, t)
                 else if c = CHR ''>'' then
                   (case t of d # t' \<Rightarrow> if d = CHR ''>'' then (CHR ''+'', t') else (c, t) | [] \<Rightarrow> (c, t))
                 else (CHR ''a'', skip_word s))
      in (ret, take (length s - length r) s, skip_white r))"

definition peek :: "string \<Rightarrow> string \<Rightarrow> string \<times> bool" where
  "peek s toks = (let s = skip_white s in (s, deref s \<noteq> NUL \<and> strchr toks (deref s) \<noteq> None))"

lemma skip_white_length: "length (skip_white s) \<le> length s"
  by (induction s) auto

lemma skip_word_length: "length (skip_word s) \<le> length s"
proof (induction s rule: length_induct)
  case (1 s)
  show ?case
  proof (cases s)
    case (Cons c t)
    have "length (skip_word u) \<le> Suc (length t)" if "length u \<le> length t" for u
      using "1.IH" [rule_format, of u] that Cons by simp
    note IH = this [OF skip_squote_length] this [OF skip_dquote_length] this [of t] this [of "tl t"]
    show ?thesis
      unfolding Cons by (subst skip_word.simps) (simp add: IH)
  qed (simp add: skip_word.simps)
qed

lemma skip_word_less:
  assumes "\<not> is_white c" "\<not> is_symbol c" shows "length (skip_word (c # t)) \<le> length t"
proof -
  have "length (skip_word u) \<le> length t" if "length u \<le> length t" for u
    using skip_word_length [of u] that by simp
  note le = this [OF skip_squote_length] this [OF skip_dquote_length] this [of t] this [of "tl t"]
  show ?thesis
    using assms by (subst skip_word.simps) (simp add: le)
qed

lemma peek_length: "length (fst (peek s toks)) \<le> length s"
  by (simp add: peek_def Let_def skip_white_length)

text \<open>The text of a token before blanks are skipped: what is left of it.\<close>

definition token_rest :: "string \<Rightarrow> char \<times> string" where
  "token_rest s =
     (case s of
        [] \<Rightarrow> (NUL, s)
      | c # t \<Rightarrow>
          if c \<in> set ''|();&<'' then (c, t)
          else if c = CHR ''>'' then
            (case t of d # t' \<Rightarrow> if d = CHR ''>'' then (CHR ''+'', t') else (c, t) | [] \<Rightarrow> (c, t))
          else (CHR ''a'', skip_word s))"

lemma gettoken_alt:
  "gettoken s = (case token_rest (skip_white s) of
     (ret, r) \<Rightarrow> (ret, take (length (skip_white s) - length r) (skip_white s), skip_white r))"
  by (simp add: gettoken_def token_rest_def Let_def)

lemma skip_white_head: "skip_white s = c # t \<Longrightarrow> \<not> is_white c"
  by (induction s) (auto split: if_splits)

lemma token_rest_less:
  assumes "\<not> is_white c" shows "length (snd (token_rest (c # t))) \<le> length t"
  using assms skip_word_less [of c t]
  by (auto simp: token_rest_def is_symbol_def symbols_def split: list.split)

lemma gettoken_less:
  assumes "skip_white s \<noteq> []" shows "length (snd (snd (gettoken s))) < length s"
proof -
  obtain c t where c: "skip_white s = c # t" using assms by (cases "skip_white s") auto
  then have "length (c # t) \<le> length s" using skip_white_length [of s] by simp
  moreover have "length (skip_white (snd (token_rest (c # t)))) \<le> length t"
    using order.trans [OF skip_white_length token_rest_less [OF skip_white_head [OF c]]] .
  ultimately show ?thesis
    by (simp add: gettoken_alt c split: prod.split) (metis Suc_le_eq le_imp_less_Suc order.trans snd_conv)
qed

lemma gettoken_length: "length (snd (snd (gettoken s))) \<le> length s"
proof (cases "skip_white s = []")
  case True
  then show ?thesis by (simp add: gettoken_alt token_rest_def)
qed (simp add: gettoken_less less_imp_le)

lemma skip_white_idem [simp]: "skip_white (skip_white s) = skip_white s"
  by (induction s) auto

lemma gettoken_nonempty:
  assumes "peek s toks = (s', True)" shows "length (snd (snd (gettoken s'))) < length s"
proof -
  have s': "s' = skip_white s" "skip_white s' \<noteq> []"
    using assms by (auto simp: peek_def Let_def)
  then show ?thesis
    using gettoken_less [OF s'(2)] skip_white_length [of s] by simp
qed

subsection \<open>The parser\<close>

type_synonym redirs = "(string \<times> open_mode \<times> nat) list"

text \<open>The redirections in the order they stand in, each wrapped around the command so far.\<close>

definition redircmd :: "cmd \<Rightarrow> redirs \<Rightarrow> cmd" where
  "redircmd c rs = foldl (\<lambda>c (f, m, d). Redir c f m d) c rs"

lemma redir_less:
  assumes "peek s toks = (s1, b)" "b" "gettoken s1 = (tok, f, s2)" "gettoken s2 = (tok2, f2, s3)"
  shows "length s3 < length s"
  using gettoken_nonempty [of s toks s1] gettoken_length [of s2] assms by simp

function parseredirs :: "string \<Rightarrow> (redirs \<times> string) parse" where
  "parseredirs s =
     (case peek s ''<>'' of (s, b) \<Rightarrow>
      if \<not> b then Got ([], s)
      else case gettoken s of (tok, _, s) \<Rightarrow>
      case gettoken s of (tok2, f, s') \<Rightarrow>
      if tok2 \<noteq> CHR ''a'' then Panic ''missing file for redirection''
      else and_then (parseredirs s') (\<lambda>(rs, s).
        Got ((if tok = CHR ''<'' then [(f, RdOnly, 0)]
              else if tok = CHR ''>'' then [(f, WrTrunc, 1)]
              else if tok = CHR ''+'' then [(f, WrAppend, 1)] else []) @ rs, s)))"
  by pat_completeness auto
termination
  by (relation "measure length") (auto intro!: redir_less [OF sym _ sym sym])

declare parseredirs.simps [simp del]

lemma and_then_GotD: "and_then r f = Got y \<Longrightarrow> \<exists>x. r = Got x \<and> f x = Got y"
  by (cases r) auto

lemma parseredirs_length: "parseredirs s = Got (rs, r) \<Longrightarrow> length r \<le> length s"
proof (induction s arbitrary: rs r rule: length_induct)
  case (1 s)
  obtain s1 b where p: "peek s ''<>'' = (s1, b)" by force
  obtain tok q s2 where g: "gettoken s1 = (tok, q, s2)" by (metis prod_cases3)
  obtain tok2 f s3 where g2: "gettoken s2 = (tok2, f, s3)" by (metis prod_cases3)
  show ?case
  proof (cases b)
    case True
    with redir_less [OF p _ g g2] have "length s3 < length s" by simp
    moreover obtain rs' where "parseredirs s3 = Got (rs', r)"
      using "1.prems" True
      by (subst (asm) parseredirs.simps) (auto simp: p g g2 split: if_splits dest!: and_then_GotD)
    ultimately show ?thesis using "1.IH" by fastforce
  next
    case False
    then show ?thesis
      using "1.prems" peek_length [of s "''<>''"] by (subst (asm) parseredirs.simps) (simp add: p)
  qed
qed

lemma parseredirs_no_fuel: "parseredirs s \<noteq> Fuel"
proof (induction s rule: length_induct)
  case (1 s)
  obtain s1 b where p: "peek s ''<>'' = (s1, b)" by force
  obtain tok q s2 where g: "gettoken s1 = (tok, q, s2)" by (metis prod_cases3)
  obtain tok2 f s3 where g2: "gettoken s2 = (tok2, f, s3)" by (metis prod_cases3)
  have "b \<Longrightarrow> parseredirs s3 \<noteq> Fuel"
    using "1.IH" redir_less [OF p _ g g2] by blast
  then show ?case
    by (subst parseredirs.simps) (cases "parseredirs s3"; auto simp: p g g2)
qed

text \<open>The loop of \<open>parseexec\<close>: words, and redirections between them.\<close>

lemma args_less:
  assumes "peek s toks = (s1, b)" "gettoken s1 = (tok, q, s2)" "tok \<noteq> NUL" "parseredirs s2 = Got (rs, s3)"
  shows "length s3 < length s"
proof -
  have "skip_white s1 \<noteq> []"
    using assms(2,3) by (auto simp: gettoken_alt token_rest_def)
  then have "length s2 < length s1"
    using gettoken_less [of s1] assms(2) by simp
  then show ?thesis
    using peek_length [of s toks] assms(1) parseredirs_length [OF assms(4)] by simp
qed

function parse_args :: "nat \<Rightarrow> string \<Rightarrow> (string list \<times> redirs \<times> string) parse" where
  "parse_args argc s =
     (case peek s ''|)&;'' of (s, b) \<Rightarrow>
      if b then Got ([], [], s)
      else case gettoken s of (tok, q, s) \<Rightarrow>
      if tok = NUL then Got ([], [], s)
      else if tok \<noteq> CHR ''a'' then Panic ''syntax''
      else if MAXARGS \<le> argc + 1 then Panic ''too many args''
      else and_then (parseredirs s) (\<lambda>(rs, s).
        and_then (parse_args (argc + 1) s) (\<lambda>(ws, rs', s). Got (q # ws, rs @ rs', s))))"
  by pat_completeness auto
termination
  by (relation "measure (\<lambda>(argc, s). length s)") (auto intro: args_less [OF sym sym])

declare parse_args.simps [simp del]

fun parseline :: "nat \<Rightarrow> string \<Rightarrow> (cmd \<times> string) parse"
and parse_amps :: "nat \<Rightarrow> cmd \<Rightarrow> string \<Rightarrow> (cmd \<times> string) parse"
and parsepipe :: "nat \<Rightarrow> string \<Rightarrow> (cmd \<times> string) parse"
and parseexec :: "nat \<Rightarrow> string \<Rightarrow> (cmd \<times> string) parse"
and parseblock :: "nat \<Rightarrow> string \<Rightarrow> (cmd \<times> string) parse"
where
  "parseline 0 s = Fuel"
| "parseline (Suc n) s = and_then (parsepipe n s) (\<lambda>(c, s). parse_amps n c s)"
| "parse_amps 0 c s = Fuel"
| "parse_amps (Suc n) c s =
     (case peek s ''&'' of (s, amp) \<Rightarrow>
      if amp then
        (case gettoken s of (_, _, s) \<Rightarrow>
         let c = Back c in
         if s \<noteq> [] \<and> \<not> snd (peek s '';&'')
         then and_then (parseline n (fst (peek s '';&''))) (\<lambda>(c2, s). Got (List c c2, s))
         else parse_amps n c s)
      else
        (case peek s '';'' of (s, semi) \<Rightarrow>
         if semi
         then (case gettoken s of (_, _, s) \<Rightarrow> and_then (parseline n s) (\<lambda>(c2, s). Got (List c c2, s)))
         else Got (c, s)))"
| "parsepipe 0 s = Fuel"
| "parsepipe (Suc n) s =
     and_then (parseexec n s) (\<lambda>(c, s).
       case peek s ''|'' of (s, bar) \<Rightarrow>
       if bar
       then (case gettoken s of (_, _, s) \<Rightarrow> and_then (parsepipe n s) (\<lambda>(c2, s). Got (Pipe c c2, s)))
       else Got (c, s))"
| "parseexec 0 s = Fuel"
| "parseexec (Suc n) s =
     (case peek s ''('' of (s, paren) \<Rightarrow>
      if paren then parseblock n s
      else and_then (parseredirs s) (\<lambda>(rs0, s).
        and_then (parse_args 0 s) (\<lambda>(ws, rs, s). Got (redircmd (Exec ws) (rs0 @ rs), s))))"
| "parseblock 0 s = Fuel"
| "parseblock (Suc n) s =
     (case peek s ''('' of (s, paren) \<Rightarrow>
      if \<not> paren then Panic ''parseblock''
      else case gettoken s of (_, _, s) \<Rightarrow>
      and_then (parseline n s) (\<lambda>(c, s).
        case peek s '')'' of (s, close) \<Rightarrow>
        if \<not> close then Panic ''syntax - missing )''
        else case gettoken s of (_, _, s) \<Rightarrow>
        and_then (parseredirs s) (\<lambda>(rs, s). Got (redircmd c rs, s))))"

subsection \<open>Quotes\<close>

text \<open>Behind the opening quote: the unquoted text and what follows the closing quote.\<close>

fun dequote_in :: "char \<Rightarrow> string \<Rightarrow> string \<times> string" where
  "dequote_in q [] = ([], [])"
| "dequote_in q [c] = (if c = q then ([], []) else ([c], []))"
| "dequote_in q (c # d # s) =
     (if c = q then ([], d # s)
      else if c = BACKSLASH \<and> (d = q \<or> d = BACKSLASH)
      then (case dequote_in q s of (w, r) \<Rightarrow> (d # w, r))
      else (case dequote_in q (d # s) of (w, r) \<Rightarrow> (c # w, r)))"

lemma dequote_in_length: "length (snd (dequote_in q s)) \<le> length s"
  by (induction q s rule: dequote_in.induct) (auto split: prod.splits)

function dequote :: "string \<Rightarrow> string" where
  "dequote s =
     (case s of
        [] \<Rightarrow> []
      | c # t \<Rightarrow>
          if c = BACKSLASH \<and> t \<noteq> [] then hd t # dequote (tl t)
          else if c = SQUOTE then (case dequote_in SQUOTE t of (w, r) \<Rightarrow> w @ dequote r)
          else if c = DQUOTE then (case dequote_in DQUOTE t of (w, r) \<Rightarrow> w @ dequote r)
          else c # dequote t)"
  by pat_completeness auto
termination
  using dequote_in_length by (relation "measure length") (auto simp: less_Suc_eq_le, (metis snd_conv)+)

declare dequote.simps [simp del]

fun nulterminate :: "cmd \<Rightarrow> cmd" where
  "nulterminate (Exec ws) = Exec (map dequote ws)"
| "nulterminate (Redir c f m d) = Redir (nulterminate c) (dequote f) m d"
| "nulterminate (Pipe a b) = Pipe (nulterminate a) (nulterminate b)"
| "nulterminate (List a b) = List (nulterminate a) (nulterminate b)"
| "nulterminate (Back c) = Back (nulterminate c)"

text \<open>\<^term>\<open>Got None\<close> is the syntax error after which \<open>parsecmd\<close> returns a null pointer.\<close>

definition parsecmd_fuel :: "nat \<Rightarrow> string \<Rightarrow> cmd option parse" where
  "parsecmd_fuel n s =
     and_then (parseline n s) (\<lambda>(c, s).
       if fst (peek s []) \<noteq> [] then Got None else Got (Some (nulterminate c)))"

definition parsecmd :: "string \<Rightarrow> cmd option parse" where
  "parsecmd s = parsecmd_fuel (4 * length s + 4) s"

subsection \<open>The parser returns\<close>

text \<open>
  A result that leaves no more than the input, and is not out of fuel when there was enough.
\<close>

definition within :: "string \<Rightarrow> bool \<Rightarrow> (cmd \<times> string) parse \<Rightarrow> bool" where
  "within s enough res \<longleftrightarrow>
     (case res of Fuel \<Rightarrow> \<not> enough | Panic _ \<Rightarrow> True | Got (c, r) \<Rightarrow> length r \<le> length s)"

lemma within_simps [simp]:
  "within s b (Panic m)" "within s b Fuel \<longleftrightarrow> \<not> b" "within s b (Got (c, r)) \<longleftrightarrow> length r \<le> length s"
  by (simp_all add: within_def)

lemma within_and_then:
  "within s b res \<Longrightarrow> (\<And>c r. length r \<le> length s \<Longrightarrow> within s b (f (c, r))) \<Longrightarrow> within s b (and_then res f)"
  by (cases res) auto

lemma within_mono:
  "within s' b' res \<Longrightarrow> length s' \<le> length s \<Longrightarrow> (b \<Longrightarrow> b') \<Longrightarrow> within s b res"
  by (auto simp: within_def split: parse.splits)

lemma parse_args_length: "parse_args k s = Got (ws, rs, r) \<Longrightarrow> length r \<le> length s"
proof (induction "length s" arbitrary: k s ws rs r rule: less_induct)
  case less
  obtain s1 b where p: "peek s ''|)&;'' = (s1, b)" by force
  obtain tok q s2 where g: "gettoken s1 = (tok, q, s2)" by (metis prod_cases3)
  have le: "length s1 \<le> length s" "length s2 \<le> length s1"
    using peek_length [of s "''|)&;''"] gettoken_length [of s1] p g by simp_all
  show ?case
  proof (cases "b \<or> tok = NUL")
    case True
    then show ?thesis
      using less.prems le by (subst (asm) parse_args.simps) (auto simp: p g split: if_splits)
  next
    case False
    then obtain rs1 s3 ws' rs' where "parseredirs s2 = Got (rs1, s3)" "parse_args (k + 1) s3 = Got (ws', rs', r)"
      using less.prems
      by (subst (asm) parse_args.simps) (auto simp: p g split: if_splits dest!: and_then_GotD)
    then show ?thesis
      using less.hyps [of s3 "k + 1"] args_less [OF p g _ \<open>parseredirs s2 = _\<close>] False by fastforce
  qed
qed

lemma parse_args_no_fuel: "parse_args k s \<noteq> Fuel"
proof (induction "length s" arbitrary: k s rule: less_induct)
  case less
  obtain s1 b where p: "peek s ''|)&;'' = (s1, b)" by force
  obtain tok q s2 where g: "gettoken s1 = (tok, q, s2)" by (metis prod_cases3)
  have "and_then (parse_args (k + 1) s3) (\<lambda>(ws, rs', s). Got (q # ws, rs @ rs', s)) \<noteq> Fuel"
    if "parseredirs s2 = Got (rs, s3)" "tok \<noteq> NUL" for rs s3
    using less [of s3 "k + 1"] args_less [OF p g that(2,1)] by (cases "parse_args (k + 1) s3") auto
  then show ?case
    using parseredirs_no_fuel [of s2]
    by (subst parse_args.simps) (cases "parseredirs s2"; auto simp: p g)
qed

lemma within_exec: "within s b (and_then (parseredirs s) (\<lambda>(rs0, s).
    and_then (parse_args 0 s) (\<lambda>(ws, rs, s). Got (redircmd (Exec ws) (rs0 @ rs), s))))"
proof (cases "parseredirs s")
  case (Got x)
  obtain rs0 s1 where x: "x = (rs0, s1)" by force
  show ?thesis
    using parseredirs_length [of s rs0 s1] parse_args_length [of 0 s1] parse_args_no_fuel [of 0 s1] Got x
    by (cases "parse_args 0 s1") fastforce+
qed (use parseredirs_no_fuel in auto)

lemma within_block_tail: "within s b (and_then (parseredirs s) (\<lambda>(rs, s). Got (redircmd c rs, s)))"
  using parseredirs_length [of s] parseredirs_no_fuel [of s] by (cases "parseredirs s") auto

lemma parse_within:
  "within s (4 * length s + 4 \<le> n) (parseline n s)"
  "within s (4 * length s + 3 \<le> n) (parse_amps n c s)"
  "within s (4 * length s + 3 \<le> n) (parsepipe n s)"
  "within s (4 * length s + 2 \<le> n) (parseexec n s)"
  "within s (4 * length s + 1 \<le> n) (parseblock n s)"
proof (induction n arbitrary: s c)
  case (Suc n)
  note line = within_mono [OF Suc.IH(1)] and amps = within_mono [OF Suc.IH(2)]
    and pipe = within_mono [OF Suc.IH(3)] and exec = within_mono [OF Suc.IH(4)]
    and block = within_mono [OF Suc.IH(5)]
  have step: "length s1 \<le> length s" "b \<Longrightarrow> length s2 < length s"
    if "peek s toks = (s1, b)" "gettoken s1 = (tok, q, s2)" for s s1 s2 b toks tok q
    using peek_length [of s toks] gettoken_nonempty [of s toks s1] that by auto
  { case 1
    show ?case
      by (simp only: parseline.simps, rule within_and_then) (auto intro: pipe amps) }
  { case 2
    obtain s1 b where p: "peek s ''&'' = (s1, b)" by force
    obtain tok q s2 where g: "gettoken s1 = (tok, q, s2)" by (metis prod_cases3)
    obtain s3 b2 where p2: "peek s1 '';'' = (s3, b2)" by force
    obtain tok2 q2 s4 where g2: "gettoken s3 = (tok2, q2, s4)" by (metis prod_cases3)
    note le = step [OF p g] step [OF p2 g2] peek_length [of s2 "'';&''"]
    have "within s (4 * length s + 3 \<le> Suc n)
        (and_then (parseline n (fst (peek s2 '';&''))) (\<lambda>(c2, s). Got (List (Back c) c2, s)))" if b
      using le that by (intro within_and_then) (auto intro: line)
    moreover have "within s (4 * length s + 3 \<le> Suc n) (parse_amps n (Back c) s2)" if b
      using le that by (intro amps) auto
    moreover have "within s (4 * length s + 3 \<le> Suc n)
        (and_then (parseline n s4) (\<lambda>(c2, s). Got (List c c2, s)))" if b2
      using le that by (intro within_and_then) (auto intro: line)
    ultimately show ?case
      using le by (simp add: p g p2 g2 Let_def) }
  { case 3
    have "within s (4 * length s + 3 \<le> Suc n)
        (case peek r ''|'' of (s, bar) \<Rightarrow>
          if bar then (case gettoken s of (_, _, s) \<Rightarrow> and_then (parsepipe n s) (\<lambda>(c2, s). Got (Pipe c c2, s)))
          else Got (c, s))" if "length r \<le> length s" for c r
    proof -
      obtain s1 b where p: "peek r ''|'' = (s1, b)" by force
      obtain tok q s2 where g: "gettoken s1 = (tok, q, s2)" by (metis prod_cases3)
      have "within s (4 * length s + 3 \<le> Suc n) (and_then (parsepipe n s2) (\<lambda>(c2, s). Got (Pipe c c2, s)))" if b
        using step [OF p g] that \<open>length r \<le> length s\<close> by (intro within_and_then) (auto intro: pipe)
      then show ?thesis using step [OF p g] that by (simp add: p g)
    qed
    then show ?case
      by (simp only: parsepipe.simps, intro within_and_then) (auto intro: exec) }
  { case 4
    obtain s1 b where p: "peek s ''('' = (s1, b)" by force
    have "length s1 \<le> length s" using peek_length [of s "''(''"] p by simp
    then have "within s (4 * length s + 2 \<le> Suc n) (if b then parseblock n s1
        else and_then (parseredirs s1) (\<lambda>(rs0, s).
          and_then (parse_args 0 s) (\<lambda>(ws, rs, s). Got (redircmd (Exec ws) (rs0 @ rs), s))))"
      using within_mono [OF within_exec [of s1 True]] block [of s1 s] by simp
    then show ?case by (simp add: p) }
  { case 5
    obtain s1 b where p: "peek s ''('' = (s1, b)" by force
    obtain tok q s2 where g: "gettoken s1 = (tok, q, s2)" by (metis prod_cases3)
    have "within s (4 * length s + 1 \<le> Suc n)
        (case peek r '')'' of (s, close) \<Rightarrow> if \<not> close then Panic ''syntax - missing )''
          else case gettoken s of (_, _, s) \<Rightarrow> and_then (parseredirs s) (\<lambda>(rs, s). Got (redircmd c rs, s)))"
      if "length r \<le> length s" for c r
    proof -
      obtain s3 b2 where p2: "peek r '')'' = (s3, b2)" by force
      obtain tok2 q2 s4 where g2: "gettoken s3 = (tok2, q2, s4)" by (metis prod_cases3)
      have "b2 \<Longrightarrow> length s4 \<le> length s" using step [OF p2 g2] that by simp
      then show ?thesis
        using within_mono [OF within_block_tail [of s4 True c], of s] by (cases b2) (simp_all add: p2 g2)
    qed
    then have "within s (4 * length s + 1 \<le> Suc n) (and_then (parseline n s2) (\<lambda>(c, s).
        case peek s '')'' of (s, close) \<Rightarrow> if \<not> close then Panic ''syntax - missing )''
          else case gettoken s of (_, _, s) \<Rightarrow> and_then (parseredirs s) (\<lambda>(rs, s). Got (redircmd c rs, s))))" if b
      using step [OF p g] that by (intro within_and_then) (auto intro: line)
    then show ?case by (simp add: p g) }
qed simp_all

text \<open>More fuel only turns an exhausted run into a result.\<close>

definition fle :: "'a parse \<Rightarrow> 'a parse \<Rightarrow> bool" where
  "fle r r' \<longleftrightarrow> (r \<noteq> Fuel \<longrightarrow> r' = r)"

lemma fle_and_then: "fle r r' \<Longrightarrow> (\<And>x. fle (f x) (f' x)) \<Longrightarrow> fle (and_then r f) (and_then r' f')"
  by (cases r) (auto simp: fle_def)

lemma fle_refl [simp]: "fle r r" "fle Fuel r"
  by (simp_all add: fle_def)

lemma parse_fuel_mono:
  "fle (parseline n s) (parseline (Suc n) s)"
  "fle (parse_amps n c s) (parse_amps (Suc n) c s)"
  "fle (parsepipe n s) (parsepipe (Suc n) s)"
  "fle (parseexec n s) (parseexec (Suc n) s)"
  "fle (parseblock n s) (parseblock (Suc n) s)"
proof (induction n arbitrary: s c)
  case (Suc n)
  { case 1 show ?case
      unfolding parseline.simps(2) [of "Suc n" s] parseline.simps(2) [of n s]
      by (intro fle_and_then Suc.IH) (simp add: Suc.IH(2) split: prod.split del: parse_amps.simps) }
  { case 2 show ?case
      unfolding parse_amps.simps(2) [of "Suc n" c s] parse_amps.simps(2) [of n c s]
      by (auto intro!: fle_and_then Suc.IH(1,2) split: prod.split simp: Let_def
          simp del: parse_amps.simps parseline.simps) }
  { case 3 show ?case
      unfolding parsepipe.simps(2) [of "Suc n" s] parsepipe.simps(2) [of n s]
      by (intro fle_and_then Suc.IH)
        (auto intro!: fle_and_then Suc.IH(3) split: prod.split simp del: parsepipe.simps) }
  { case 4 show ?case
      unfolding parseexec.simps(2) [of "Suc n" s] parseexec.simps(2) [of n s]
      by (auto intro!: fle_and_then Suc.IH(5) split: prod.split simp del: parseblock.simps) }
  { case 5 show ?case
      unfolding parseblock.simps(2) [of "Suc n" s] parseblock.simps(2) [of n s]
      by (auto intro!: fle_and_then Suc.IH(1) split: prod.split simp del: parseline.simps) }
qed simp_all

lemma parseline_more: "parseline n s \<noteq> Fuel \<Longrightarrow> parseline (n + k) s = parseline n s"
proof (induction k)
  case (Suc k)
  then show ?case using parse_fuel_mono(1) [of "n + k" s] by (simp add: fle_def)
qed simp

text \<open>
  C21. The parser always returns: for every line, \<open>parsecmd\<close> ends with a command, a syntax error or a
  panic, and any larger amount of fuel gives the same result.
\<close>

theorem parsecmd_returns:
  "parsecmd s \<noteq> Fuel \<and> parsecmd_fuel (4 * length s + 4 + k) s = parsecmd s"
proof -
  have line: "parseline (4 * length s + 4) s \<noteq> Fuel"
    using parse_within(1) [of s "4 * length s + 4"] by (auto simp: within_def)
  then have "parsecmd s \<noteq> Fuel"
    by (cases "parseline (4 * length s + 4) s") (auto simp: parsecmd_def parsecmd_fuel_def split: if_splits)
  then show ?thesis
    using parseline_more [OF line, of k] by (simp add: parsecmd_def parsecmd_fuel_def)
qed

end
