(* ===== verification/ShPrint.thy ===== *)
theory ShPrint
  imports ShParse
begin

section \<open>sh.c: the parser inverts printing\<close>

text \<open>
  A printer for commands that quotes every word and parenthesises where the grammar needs it, and
  the proof that \<open>parsecmd\<close> reads back what it prints.  The parser only builds a background command
  at the end of the line or to the left of another command, so that is where a printable command has
  them; and it always opens descriptor 0 for input and 1 for output.
\<close>

definition esc :: "char \<Rightarrow> string" where
  "esc c = (if c = DQUOTE \<or> c = BACKSLASH then [BACKSLASH, c] else [c])"

definition qword :: "string \<Rightarrow> string" where
  "qword w = DQUOTE # concat (map esc w) @ [DQUOTE]"

fun redir_op :: "open_mode \<Rightarrow> string" where
  "redir_op RdOnly = ''<''"
| "redir_op WrTrunc = ''>''"
| "redir_op WrAppend = ''>>''"

fun mode_fd :: "open_mode \<Rightarrow> nat" where
  "mode_fd RdOnly = 0"
| "mode_fd WrTrunc = 1"
| "mode_fd WrAppend = 1"

definition paren :: "bool \<Rightarrow> string \<Rightarrow> string" where
  "paren b s = (if b then CHR ''('' # s @ '')'' else s)"

text \<open>Level 0 stands where a simple command does, 1 in a pipeline, 2 before \<open>&\<close> or \<open>;\<close>, 3 for a whole line.\<close>

fun show_cmd :: "nat \<Rightarrow> cmd \<Rightarrow> string" where
  "show_cmd l (Exec ws) = concat (map (\<lambda>w. CHR '' '' # qword w) ws)"
| "show_cmd l (Redir c f m d) = show_cmd 0 c @ redir_op m @ CHR '' '' # qword f"
| "show_cmd l (Pipe a b) = paren (l < 1) (show_cmd 0 a @ CHR ''|'' # show_cmd 1 b)"
| "show_cmd l (Back c) = paren (l < 2) (show_cmd 2 c @ ''&'')"
| "show_cmd l (List a b) = paren (l < 3) (show_cmd 2 a @ CHR '';'' # show_cmd 3 b)"

text \<open>\<open>t\<close>: a background command may end here.\<close>

fun printable_cmd :: "nat \<Rightarrow> bool \<Rightarrow> cmd \<Rightarrow> bool" where
  "printable_cmd l t (Exec ws) \<longleftrightarrow> length ws < MAXARGS \<and> list_all cstring ws"
| "printable_cmd l t (Redir c f m d) \<longleftrightarrow> printable_cmd 0 False c \<and> d = mode_fd m \<and> cstring f"
| "printable_cmd l t (Pipe a b) \<longleftrightarrow> printable_cmd 0 False a \<and> printable_cmd 1 False b"
| "printable_cmd l t (Back c) \<longleftrightarrow> 2 \<le> l \<and> t \<and> printable_cmd 2 True c"
| "printable_cmd l t (List a b) \<longleftrightarrow> printable_cmd 2 True a \<and> printable_cmd 3 (t \<and> 3 \<le> l) b"

text \<open>The command as the parser builds it, with the words still quoted.\<close>

fun quoted :: "cmd \<Rightarrow> cmd" where
  "quoted (Exec ws) = Exec (map qword ws)"
| "quoted (Redir c f m d) = Redir (quoted c) (qword f) m d"
| "quoted (Pipe a b) = Pipe (quoted a) (quoted b)"
| "quoted (List a b) = List (quoted a) (quoted b)"
| "quoted (Back c) = Back (quoted c)"

subsection \<open>Words\<close>

lemma skip_dquote_esc: "skip_dquote (concat (map esc w) @ DQUOTE # r) = r"
proof (induction w)
  case Nil
  show ?case by (cases r) simp_all
next
  case (Cons c w)
  obtain d s where "concat (map esc w) @ DQUOTE # r = d # s"
    by (cases "concat (map esc w) @ DQUOTE # r") auto
  with Cons show ?case by (auto simp: esc_def [of c])
qed

lemma dequote_in_esc: "dequote_in DQUOTE (concat (map esc w) @ DQUOTE # r) = (w, r)"
proof (induction w)
  case Nil
  show ?case by (cases r) simp_all
next
  case (Cons c w)
  obtain d s where "concat (map esc w) @ DQUOTE # r = d # s"
    by (cases "concat (map esc w) @ DQUOTE # r") auto
  with Cons show ?case by (auto simp: esc_def [of c])
qed

lemma dequote_qword: "dequote (qword w) = w"
proof -
  have "dequote [] = []" by (simp add: dequote.simps)
  then show ?thesis
    using dequote_in_esc [of w "[]"] by (simp add: qword_def dequote.simps [of "DQUOTE # _"])
qed

lemma nulterminate_quoted: "nulterminate (quoted c) = c"
  by (induction c) (simp_all add: dequote_qword map_idI)

definition delim :: "string \<Rightarrow> bool" where
  "delim r \<longleftrightarrow> r = [] \<or> is_white (hd r) \<or> is_symbol (hd r)"

lemma char_classes:
  "is_white (CHR '' '')" "\<not> is_white DQUOTE" "\<not> is_symbol DQUOTE"
  "c \<in> set ''<|>&;()'' \<Longrightarrow> \<not> is_white c" "is_symbol c \<longleftrightarrow> c \<in> set ''<|>&;()''"
  by (auto simp: is_white_def is_symbol_def whitespace_def symbols_def)

lemma skip_word_qword:
  assumes "delim r" shows "skip_word (qword w @ r) = r"
proof -
  have "skip_word (qword w @ r) = skip_word r"
    using skip_dquote_esc [of w r] by (subst skip_word.simps) (simp add: qword_def char_classes)
  also have "\<dots> = r"
    using assms by (subst skip_word.simps) (auto simp: delim_def split: list.split)
  finally show ?thesis .
qed

lemma gettoken_qword:
  assumes "delim r"
  shows "gettoken (qword w @ r) = (CHR ''a'', qword w, skip_white r)"
    "gettoken (CHR '' '' # qword w @ r) = (CHR ''a'', qword w, skip_white r)"
proof -
  have "skip_white (qword w @ r) = qword w @ r"
    by (simp add: qword_def char_classes)
  moreover have "token_rest (qword w @ r) = (CHR ''a'', r)"
    using skip_word_qword [OF assms, of w] by (simp add: token_rest_def qword_def)
  ultimately show "gettoken (qword w @ r) = (CHR ''a'', qword w, skip_white r)"
    "gettoken (CHR '' '' # qword w @ r) = (CHR ''a'', qword w, skip_white r)"
    by (simp_all add: gettoken_alt char_classes)
qed

lemma peek_symbol:
  "c \<in> set ''<|>&;()'' \<Longrightarrow> peek (c # r) toks = (c # r, c \<in> set toks)"
  by (auto simp: peek_def char_classes)

lemma peek_Nil: "peek [] toks = ([], False)"
  by (simp add: peek_def)

lemma peek_word:
  "DQUOTE \<notin> set toks \<Longrightarrow> peek (CHR '' '' # qword w @ r) toks = (qword w @ r, False)"
  "DQUOTE \<notin> set toks \<Longrightarrow> peek (qword w @ r) toks = (qword w @ r, False)"
  by (simp_all add: peek_def char_classes qword_def)

lemma gettoken_symbol:
  "c \<in> set ''|();&<'' \<Longrightarrow> gettoken (c # r) = (c, [c], skip_white r)"
proof -
  assume c: "c \<in> set ''|();&<''"
  then have "\<not> is_white c" by (intro char_classes(4)) auto
  with c show ?thesis by (simp add: gettoken_alt token_rest_def)
qed

subsection \<open>What the parser functions do with enough fuel\<close>

definition line_to :: "string \<Rightarrow> cmd \<Rightarrow> string \<Rightarrow> bool" where
  "line_to s c r \<longleftrightarrow> (\<exists>n. \<forall>m\<ge>n. parseline m s = Got (c, r))"

definition amps_to :: "cmd \<Rightarrow> string \<Rightarrow> cmd \<Rightarrow> string \<Rightarrow> bool" where
  "amps_to c0 s c r \<longleftrightarrow> (\<exists>n. \<forall>m\<ge>n. parse_amps m c0 s = Got (c, r))"

definition pipe_to :: "string \<Rightarrow> cmd \<Rightarrow> string \<Rightarrow> bool" where
  "pipe_to s c r \<longleftrightarrow> (\<exists>n. \<forall>m\<ge>n. parsepipe m s = Got (c, r))"

definition exec_to :: "string \<Rightarrow> cmd \<Rightarrow> string \<Rightarrow> bool" where
  "exec_to s c r \<longleftrightarrow> (\<exists>n. \<forall>m\<ge>n. parseexec m s = Got (c, r))"

lemma all_ge_Suc: "(\<And>m. n \<le> m \<Longrightarrow> P (Suc m)) \<Longrightarrow> \<exists>n. \<forall>m\<ge>n. P m" for P :: "nat \<Rightarrow> bool"
  by (rule exI [of _ "Suc n"]) (metis Suc_le_D Suc_le_mono)

lemma all_ge_both:
  "\<exists>n. \<forall>m\<ge>n. P m \<Longrightarrow> \<exists>n. \<forall>m\<ge>n. Q m \<Longrightarrow> (\<And>m. P m \<Longrightarrow> Q m \<Longrightarrow> R (Suc m)) \<Longrightarrow> \<exists>n. \<forall>m\<ge>n. R m"
  for P Q R :: "nat \<Rightarrow> bool"
proof -
  assume "\<exists>n. \<forall>m\<ge>n. P m" "\<exists>n. \<forall>m\<ge>n. Q m" and R: "\<And>m. P m \<Longrightarrow> Q m \<Longrightarrow> R (Suc m)"
  then obtain a b where "\<forall>m\<ge>a. P m" "\<forall>m\<ge>b. Q m" by blast
  then show ?thesis
    by (intro all_ge_Suc [of "a + b"] R) simp_all
qed

lemma all_ge_one: "\<exists>n. \<forall>m\<ge>n. P m \<Longrightarrow> (\<And>m. P m \<Longrightarrow> R (Suc m)) \<Longrightarrow> \<exists>n. \<forall>m\<ge>n. R m"
  for P R :: "nat \<Rightarrow> bool"
  using all_ge_both [of P P R] by blast

lemma peek_white: "peek (CHR '' '' # s) toks = peek s toks"
  by (simp add: peek_def char_classes)

lemma line_toI: "pipe_to s c r1 \<Longrightarrow> amps_to c r1 c2 r2 \<Longrightarrow> line_to s c2 r2"
  unfolding line_to_def pipe_to_def amps_to_def by (rule all_ge_both, assumption, assumption) simp

lemma pipe_to_single:
  "exec_to s c r \<Longrightarrow> r = [] \<or> hd r \<in> set '')&;'' \<Longrightarrow> pipe_to s c r"
  unfolding exec_to_def pipe_to_def
  by (rule all_ge_one, assumption) (cases r; auto simp: peek_symbol peek_Nil)

lemma skip_white_symbol: "r = [] \<or> hd r \<in> set ''<|>&;()'' \<Longrightarrow> skip_white r = r"
  using char_classes(4) [of "hd r"] by (cases r) auto

lemma peek_skip: "peek (skip_white s) toks = peek s toks"
  by (simp add: peek_def)

lemma parse_skip:
  "parseexec n (skip_white s) = parseexec n s"
  "parsepipe n (skip_white s) = parsepipe n s"
  "parseline n (skip_white s) = parseline n s"
proof -
  have redirs: "parseredirs (skip_white s) = parseredirs s"
    by (subst (1 2) parseredirs.simps) (simp add: peek_skip)
  have block: "parseblock n (skip_white s) = parseblock n s" for n
    by (cases n) (simp_all add: peek_skip)
  have exec: "parseexec n (skip_white s) = parseexec n s" for n
    by (cases n) (simp_all add: peek_skip)
  have pipe: "parsepipe n (skip_white s) = parsepipe n s" for n
    by (cases n) (simp_all add: exec)
  show "parseexec n (skip_white s) = parseexec n s" "parsepipe n (skip_white s) = parsepipe n s"
    "parseline n (skip_white s) = parseline n s"
    by (rule exec, rule pipe) (cases n; simp add: pipe)
qed

lemma to_skip: "line_to (skip_white s) c r = line_to s c r" "pipe_to (skip_white s) c r = pipe_to s c r"
  by (simp_all add: line_to_def pipe_to_def parse_skip)

lemma pipe_to_bar: "exec_to s c (CHR ''|'' # r) \<Longrightarrow> pipe_to r c2 r2 \<Longrightarrow> pipe_to s (Pipe c c2) r2"
  unfolding to_skip(2) [symmetric, of r] unfolding pipe_to_def exec_to_def
  by (rule all_ge_both, assumption, assumption) (simp add: peek_symbol gettoken_symbol)

lemma amps_end: "r = [] \<or> hd r = CHR '')'' \<Longrightarrow> amps_to c r c r"
  unfolding amps_to_def by (rule all_ge_Suc) (cases r; simp add: peek_symbol peek_Nil)

lemma amps_semi: "line_to r c2 r2 \<Longrightarrow> amps_to c (CHR '';'' # r) (List c c2) r2"
  unfolding to_skip(1) [symmetric, of r] unfolding line_to_def amps_to_def
  by (rule all_ge_one, assumption) (simp add: peek_symbol gettoken_symbol)

lemma amps_amp:
  "amps_to (Back c) r c2 r2 \<Longrightarrow> r = [] \<or> hd r \<in> set '';&'' \<Longrightarrow> amps_to c (CHR ''&'' # r) c2 r2"
proof -
  assume a: "amps_to (Back c) r c2 r2" and r: "r = [] \<or> hd r \<in> set '';&''"
  then have w: "skip_white r = r" by (intro skip_white_symbol) auto
  have p: "r = [] \<or> snd (peek r '';&'')" using r by (cases r) (auto simp: peek_symbol)
  show ?thesis
    using a unfolding amps_to_def
    by (rule all_ge_one) (use p in \<open>auto simp: peek_symbol gettoken_symbol w Let_def\<close>)
qed

lemma exec_paren:
  assumes "line_to s c (CHR '')'' # r)" "parseredirs (skip_white r) = Got (rs, r2)"
  shows "exec_to (CHR ''('' # s) (redircmd c rs) r2"
proof -
  have "\<exists>n. \<forall>m\<ge>n. parseblock m (CHR ''('' # s) = Got (redircmd c rs, r2)"
    using assms(1) unfolding to_skip(1) [symmetric, of s] unfolding line_to_def
    by (rule all_ge_one) (simp add: peek_symbol gettoken_symbol assms(2))
  then show ?thesis
    unfolding exec_to_def by (rule all_ge_one) (simp add: peek_symbol)
qed

lemma exec_simple:
  assumes "parseredirs s = Got (rs0, s1)" "parse_args 0 s1 = Got (ws, rs, r)" "\<not> snd (peek s ''('')"
  shows "exec_to s (redircmd (Exec ws) (rs0 @ rs)) r"
proof -
  have "parseredirs (fst (peek s ''('')) = parseredirs s"
    by (subst (1 2) parseredirs.simps) (simp add: peek_def Let_def)
  then show ?thesis
    using assms unfolding exec_to_def
    by (intro all_ge_Suc) (simp add: case_prod_beta)
qed

subsection \<open>Simple commands\<close>

fun unredir :: "cmd \<Rightarrow> cmd \<times> redirs" where
  "unredir (Redir c f m d) = (case unredir c of (b, rs) \<Rightarrow> (b, rs @ [(f, m, d)]))"
| "unredir c = (c, [])"

definition show_redirs :: "redirs \<Rightarrow> string" where
  "show_redirs rs = concat (map (\<lambda>(f, m, d). redir_op m @ CHR '' '' # qword f) rs)"

definition qredirs :: "redirs \<Rightarrow> redirs" where
  "qredirs rs = map (\<lambda>(f, m, d). (qword f, m, d)) rs"

lemma show_unredir: "show_cmd 0 c = show_cmd 0 (fst (unredir c)) @ show_redirs (snd (unredir c))"
  by (induction c) (auto simp: show_redirs_def split: prod.split)

lemma quoted_unredir: "quoted c = redircmd (quoted (fst (unredir c))) (qredirs (snd (unredir c)))"
  by (induction c) (auto simp: redircmd_def qredirs_def split: prod.split)

lemma printable_unredir:
  "printable_cmd 0 False c \<Longrightarrow> printable_cmd 0 False (fst (unredir c)) \<and>
     (\<forall>(f, m, d)\<in>set (snd (unredir c)). d = mode_fd m)"
  by (induction c) (auto split: prod.split)

lemma unredir_base: "fst (unredir c) \<noteq> Redir c' f m d"
  by (induction c) (auto split: prod.split)

definition stop0 :: "string \<Rightarrow> bool" where
  "stop0 r \<longleftrightarrow> r = [] \<or> hd r \<in> set ''|)&;''"

lemma stop0D: "stop0 r \<Longrightarrow> delim r" "stop0 r \<Longrightarrow> skip_white r = r"
  "stop0 r \<Longrightarrow> parseredirs r = Got ([], r)" "stop0 r \<Longrightarrow> parse_args k r = Got ([], [], r)"
proof -
  assume r: "stop0 r"
  then show w: "delim r" "skip_white r = r"
    using skip_white_symbol [of r] by (auto simp: stop0_def delim_def char_classes(5))
  show "parseredirs r = Got ([], r)"
    using r by (cases r; subst parseredirs.simps) (auto simp: stop0_def peek_symbol peek_Nil)
  have "gettoken [] = (NUL, [], [])"
    by (simp add: gettoken_alt token_rest_def)
  then show "parse_args k r = Got ([], [], r)"
    using r by (cases r; subst parse_args.simps) (auto simp: stop0_def peek_symbol peek_Nil)
qed

lemma delim_redirs: "delim r \<Longrightarrow> delim (show_redirs rs @ r)"
proof (cases rs)
  case (Cons x rs')
  obtain f m d where "x = (f, m, d)" by (metis prod_cases3)
  then show ?thesis
    by (cases m) (simp_all add: Cons show_redirs_def delim_def char_classes(5))
qed (simp add: show_redirs_def)

lemma gettoken_op:
  "gettoken (redir_op m @ CHR '' '' # qword f @ r) =
     (case m of RdOnly \<Rightarrow> CHR ''<'' | WrTrunc \<Rightarrow> CHR ''>'' | WrAppend \<Rightarrow> CHR ''+'', redir_op m, qword f @ r)"
  using char_classes(4) [of "CHR ''<''"] char_classes(4) [of "CHR ''>''"]
  by (cases m) (simp_all add: gettoken_alt token_rest_def char_classes qword_def)

lemma redirs_skip: "parseredirs (skip_white s) = parseredirs s"
  by (subst (1 2) parseredirs.simps) (simp add: peek_skip)

lemma parseredirs_show:
  assumes "\<forall>(f, m, d)\<in>set rs. d = mode_fd m" "stop0 r"
  shows "parseredirs (show_redirs rs @ r) = Got (qredirs rs, r)"
  using assms(1)
proof (induction rs)
  case Nil
  then show ?case using stop0D(3) [OF assms(2)] by (simp add: show_redirs_def qredirs_def)
next
  case (Cons x rs)
  obtain f m d where x: "x = (f, m, d)" by (metis prod_cases3)
  let ?r = "show_redirs rs @ r"
  have r: "delim ?r" "parseredirs (skip_white ?r) = Got (qredirs rs, r)"
    using delim_redirs stop0D [OF assms(2)] Cons by (simp_all add: redirs_skip)
  have "show_redirs (x # rs) @ r = redir_op m @ CHR '' '' # qword f @ ?r"
    by (simp add: x show_redirs_def)
  moreover have "peek (redir_op m @ CHR '' '' # qword f @ ?r) ''<>'' = (redir_op m @ CHR '' '' # qword f @ ?r, True)"
    by (cases m) (simp_all add: peek_symbol)
  ultimately show ?case
    using r Cons.prems
    by (subst parseredirs.simps)
      (simp add: gettoken_op gettoken_qword x qredirs_def split: open_mode.split)
qed

abbreviation show_words :: "string list \<Rightarrow> string" where
  "show_words ws \<equiv> concat (map (\<lambda>w. CHR '' '' # qword w) ws)"

lemma args_skip: "parse_args k (skip_white s) = parse_args k s"
  by (subst (1 2) parse_args.simps) (simp add: peek_skip)

lemma redirs_word: "parseredirs (CHR '' '' # qword w @ r) = Got ([], qword w @ r)"
  by (subst parseredirs.simps) (simp add: peek_word)

lemma parse_args_show:
  assumes "\<forall>(f, m, d)\<in>set rs. d = mode_fd m" "stop0 r"
  shows "ws \<noteq> [] \<Longrightarrow> k + length ws < MAXARGS \<Longrightarrow>
    parse_args k (show_words ws @ show_redirs rs @ r) = Got (map qword ws, qredirs rs, r)"
proof (induction ws arbitrary: k)
  case (Cons w ws)
  let ?rest = "show_words ws @ show_redirs rs @ r"
  have "delim ?rest"
    using delim_redirs [OF stop0D(1) [OF assms(2)], of rs] by (cases ws) (simp_all add: delim_def char_classes)
  note tok = gettoken_qword(1) [OF this, of w]
  have "and_then (parseredirs ?rest) (\<lambda>(rs, s).
        and_then (parse_args (k + 1) s) (\<lambda>(ws, rs', s). Got (qword w # ws, rs @ rs', s))) =
      Got (map qword (w # ws), qredirs rs, r)"
  proof (cases ws)
    case Nil
    then show ?thesis
      using parseredirs_show [OF assms] stop0D(4) [OF assms(2)] by (simp add: qredirs_def)
  next
    case (Cons w2 ws2)
    have "parse_args (k + 1) (qword w2 @ show_words ws2 @ show_redirs rs @ r) = parse_args (k + 1) ?rest"
      using args_skip [of "k + 1" ?rest] args_skip [of "k + 1" "qword w2 @ show_words ws2 @ show_redirs rs @ r"]
      by (simp add: Cons char_classes)
    moreover have "parse_args (k + 1) ?rest = Got (map qword ws, qredirs rs, r)"
      using Cons.IH Cons.prems Cons by simp
    ultimately show ?thesis
      using redirs_word [of w2 "show_words ws2 @ show_redirs rs @ r"] by (simp add: Cons)
  qed
  then show ?case
    using Cons.prems(2) tok by (subst parse_args.simps) (simp add: peek_word redirs_skip)
qed simp

lemma exec_to_simple:
  assumes "\<forall>(f, m, d)\<in>set rs. d = mode_fd m" "stop0 r" "length ws < MAXARGS"
  shows "exec_to (show_words ws @ show_redirs rs @ r) (redircmd (Exec (map qword ws)) (qredirs rs)) r"
proof (cases ws)
  case Nil
  have "\<not> snd (peek (show_redirs rs @ r) ''('')"
  proof (cases rs)
    case Nil
    then show ?thesis using assms(2) by (cases r) (auto simp: show_redirs_def stop0_def peek_symbol peek_Nil)
  next
    case (Cons x rs')
    obtain f m d where "x = (f, m, d)" by (metis prod_cases3)
    then show ?thesis by (cases m) (simp_all add: Cons show_redirs_def peek_symbol)
  qed
  then show ?thesis
    using exec_simple [OF parseredirs_show [OF assms(1,2)] stop0D(4) [OF assms(2)]] Nil by simp
next
  case (Cons w ws')
  let ?s = "qword w @ show_words ws' @ show_redirs rs @ r"
  have "parse_args 0 ?s = parse_args 0 (show_words ws @ show_redirs rs @ r)"
    using args_skip [of 0 ?s] args_skip [of 0 "CHR '' '' # ?s"] by (simp add: Cons char_classes)
  then have "parse_args 0 ?s = Got (map qword ws, qredirs rs, r)"
    using parse_args_show [OF assms(1,2), of ws 0] assms(3) Cons by simp
  then show ?thesis
    using exec_simple [OF redirs_word, of w "show_words ws' @ show_redirs rs @ r"] Cons
    by (simp add: peek_word)
qed

subsection \<open>Reading back\<close>

definition reads0 :: "cmd \<Rightarrow> bool" where
  "reads0 c \<longleftrightarrow> (\<forall>r. printable_cmd 0 False c \<and> stop0 r \<longrightarrow> exec_to (show_cmd 0 c @ r) (quoted c) r)"

definition reads1 :: "cmd \<Rightarrow> bool" where
  "reads1 c \<longleftrightarrow> (\<forall>r. printable_cmd 1 False c \<and> (r = [] \<or> hd r \<in> set '')&;'') \<longrightarrow>
     pipe_to (show_cmd 1 c @ r) (quoted c) r)"

definition reads2 :: "cmd \<Rightarrow> bool" where
  "reads2 c \<longleftrightarrow> (\<forall>t r c2 r2. printable_cmd 2 t c \<and>
     (r = [] \<or> hd r \<in> set '';&'' \<or> (\<not> t \<and> hd r = CHR '')'')) \<and> amps_to (quoted c) r c2 r2 \<longrightarrow>
     line_to (show_cmd 2 c @ r) c2 r2)"

definition reads3 :: "cmd \<Rightarrow> bool" where
  "reads3 c \<longleftrightarrow> (\<forall>t r. printable_cmd 3 t c \<and> (r = [] \<or> (\<not> t \<and> hd r = CHR '')'')) \<longrightarrow>
     line_to (show_cmd 3 c @ r) (quoted c) r)"

lemma reads3D:
  "reads3 c \<Longrightarrow> printable_cmd 3 t c \<Longrightarrow> r = [] \<or> (\<not> t \<and> hd r = CHR '')'') \<Longrightarrow>
   line_to (show_cmd 3 c @ r) (quoted c) r"
  unfolding reads3_def by blast

lemma reads01: "reads0 c \<Longrightarrow> (\<And>a b. c \<noteq> Pipe a b) \<Longrightarrow> reads1 c"
proof -
  assume c: "reads0 c" "\<And>a b. c \<noteq> Pipe a b"
  have "show_cmd 1 c = show_cmd 0 c" "printable_cmd 1 False c = printable_cmd 0 False c"
    using c(2) by (cases c; simp)+
  then show ?thesis
    using c(1) by (auto simp: reads0_def reads1_def stop0_def intro!: pipe_to_single)
qed

lemma reads12: "reads1 c \<Longrightarrow> (\<And>a. c \<noteq> Back a) \<Longrightarrow> reads2 c"
proof -
  assume c: "reads1 c" "\<And>a. c \<noteq> Back a"
  have "show_cmd 2 c = show_cmd 1 c" "printable_cmd 2 t c \<Longrightarrow> printable_cmd 1 False c" for t
    using c(2) by (cases c; simp)+
  then show ?thesis
    using c(1) by (auto simp: reads1_def reads2_def intro!: line_toI)
qed

lemma reads23: "reads2 c \<Longrightarrow> (\<And>a b. c \<noteq> List a b) \<Longrightarrow> reads3 c"
proof -
  assume c: "reads2 c" "\<And>a b. c \<noteq> List a b"
  have "show_cmd 3 c = show_cmd 2 c" "printable_cmd 3 t c \<Longrightarrow> printable_cmd 2 t c" for t
    using c(2) by (cases c; simp)+
  then show ?thesis
    using c(1) amps_end unfolding reads2_def reads3_def by metis
qed

lemma reads_paren:
  assumes "reads3 b" "printable_cmd 3 False b" "parseredirs (skip_white r) = Got (rs, r2)"
  shows "exec_to (CHR ''('' # show_cmd 3 b @ CHR '')'' # r) (redircmd (quoted b) rs) r2"
  using reads3D [OF assms(1,2), of "CHR '')'' # r"] assms(3) by (intro exec_paren) simp_all

lemma reads30:
  assumes "reads3 c" "show_cmd 0 c = CHR ''('' # show_cmd 3 c @ '')''"
    "printable_cmd 0 False c \<Longrightarrow> printable_cmd 3 False c"
  shows "reads0 c"
  unfolding reads0_def
proof (intro allI impI)
  fix r assume r: "printable_cmd 0 False c \<and> stop0 r"
  then have "parseredirs (skip_white r) = Got ([], r)"
    using stop0D(3) by (simp add: redirs_skip)
  from reads_paren [OF assms(1) assms(3) this] show "exec_to (show_cmd 0 c @ r) (quoted c) r"
    using r assms(2) by (simp add: redircmd_def)
qed

lemma reads_redir:
  assumes "\<And>b. size b < size c \<Longrightarrow> reads3 b" "c = Redir c' f m d"
  shows "reads0 c"
  unfolding reads0_def
proof (intro allI impI)
  fix r assume r: "printable_cmd 0 False c \<and> stop0 r"
  define b rs where "b = fst (unredir c)" and "rs = snd (unredir c)"
  have c: "show_cmd 0 c = show_cmd 0 b @ show_redirs rs" "quoted c = redircmd (quoted b) (qredirs rs)"
    "printable_cmd 0 False b" "\<forall>(f, m, d)\<in>set rs. d = mode_fd m"
    using show_unredir [of c] quoted_unredir [of c] printable_unredir [of c] r by (simp_all add: b_def rs_def)
  have "size (fst (unredir e)) \<le> size e" for e
    by (induction e) (auto split: prod.splits)
  from this [of c'] have "size b < size c"
    using assms(2) by (auto simp: b_def split: prod.split)
  then have b3: "reads3 b" by (rule assms(1))
  have redirs: "parseredirs (skip_white (show_redirs rs @ r)) = Got (qredirs rs, r)"
    using parseredirs_show [OF c(4)] r by (simp add: redirs_skip)
  show "exec_to (show_cmd 0 c @ r) (quoted c) r"
  proof (cases b)
    case (Exec ws)
    then show ?thesis
      using exec_to_simple [OF c(4), of r ws] r c by simp
  next
    case (Redir x y z w)
    then show ?thesis using unredir_base [of c] by (simp add: b_def)
  next
    case (Pipe x y)
    then show ?thesis using reads_paren [OF b3 _ redirs] c by (simp add: paren_def)
  next
    case (List x y)
    then show ?thesis using reads_paren [OF b3 _ redirs] c by (simp add: paren_def)
  next
    case (Back x)
    then show ?thesis using c(3) by simp
  qed
qed

lemma reads_all: "reads0 c \<and> reads1 c \<and> reads2 c \<and> reads3 c"
proof (induction "size c" arbitrary: c rule: less_induct)
  case less
  show ?case
  proof (cases c)
    case (Exec ws)
    have "reads0 c"
      using exec_to_simple [of "[]" _ ws]
      by (auto simp: reads0_def Exec show_redirs_def redircmd_def qredirs_def)
    then show ?thesis using reads01 reads12 reads23 Exec by simp
  next
    case (Redir c' f m d)
    then have "reads0 c" using reads_redir less by blast
    then show ?thesis using reads01 reads12 reads23 Redir by simp
  next
    case (Pipe a b)
    have "reads1 c"
      unfolding reads1_def
    proof (intro allI impI)
      fix r assume r: "printable_cmd 1 False c \<and> (r = [] \<or> hd r \<in> set '')&;'')"
      have "exec_to (show_cmd 0 a @ CHR ''|'' # show_cmd 1 b @ r) (quoted a) (CHR ''|'' # show_cmd 1 b @ r)"
        using less [of a] r by (auto simp: Pipe reads0_def stop0_def)
      moreover have "pipe_to (show_cmd 1 b @ r) (quoted b) r"
        using less [of b] r by (auto simp: Pipe reads1_def)
      ultimately show "pipe_to (show_cmd 1 c @ r) (quoted c) r"
        using pipe_to_bar by (simp add: Pipe paren_def)
    qed
    moreover from this have "reads3 c" "reads2 c" using reads12 reads23 Pipe by simp_all
    ultimately show ?thesis using reads30 [of c] by (simp add: Pipe paren_def)
  next
    case (List a b)
    have "reads3 c"
      unfolding reads3_def
    proof (intro allI impI)
      fix t r assume r: "printable_cmd 3 t c \<and> (r = [] \<or> (\<not> t \<and> hd r = CHR '')''))"
      have "line_to (show_cmd 3 b @ r) (quoted b) r"
        using less [of b] r by (auto simp: List reads3_def)
      then have "amps_to (quoted a) (CHR '';'' # show_cmd 3 b @ r) (List (quoted a) (quoted b)) r"
        by (rule amps_semi)
      then show "line_to (show_cmd 3 c @ r) (quoted c) r"
        using less [of a] r by (auto simp: List reads2_def paren_def)
    qed
    moreover from this have "reads0 c" using reads30 [of c] by (simp add: List paren_def)
    ultimately show ?thesis using reads01 reads12 List by simp
  next
    case (Back a)
    have "reads2 c"
      unfolding reads2_def
    proof (intro allI impI)
      fix t r c2 r2 assume r: "printable_cmd 2 t c \<and>
        (r = [] \<or> hd r \<in> set '';&'' \<or> (\<not> t \<and> hd r = CHR '')'')) \<and> amps_to (quoted c) r c2 r2"
      then have "amps_to (quoted a) (CHR ''&'' # r) c2 r2"
        by (intro amps_amp) (auto simp: Back)
      then show "line_to (show_cmd 2 c @ r) c2 r2"
        using less [of a] r by (auto simp: Back reads2_def paren_def)
    qed
    then show ?thesis using reads23 by (auto simp: Back reads0_def reads1_def)
  qed
qed

text \<open>
  C1. Printing and parsing are inverse: every command that the grammar can express, with arbitrary
  words and file names, is what \<open>parsecmd\<close> returns for its printed form, quotes removed.
\<close>

theorem parsecmd_show:
  assumes "printable_cmd 3 True c"
  shows "parsecmd (show_cmd 3 c) = Got (Some c)"
proof -
  have "line_to (show_cmd 3 c @ []) (quoted c) []"
    using reads_all [of c] reads3D [OF _ assms, of "[]"] by simp
  then obtain n where n: "\<forall>m\<ge>n. parseline m (show_cmd 3 c) = Got (quoted c, [])"
    by (auto simp: line_to_def)
  let ?k = "4 * length (show_cmd 3 c) + 4"
  have "parsecmd_fuel (?k + n) (show_cmd 3 c) = Got (Some c)"
    using n by (simp add: parsecmd_fuel_def peek_Nil nulterminate_quoted)
  then show ?thesis
    using parsecmd_returns [of "show_cmd 3 c" n] by simp
qed

theorem parsecmd_show_witness:
  "parsecmd (show_cmd 3 (List (Back (Exec [''a b''])) (Pipe (Exec [''echo'', ''it;s'']) (Exec [''wc''])))) =
   Got (Some (List (Back (Exec [''a b''])) (Pipe (Exec [''echo'', ''it;s'']) (Exec [''wc'']))))"
  by (rule parsecmd_show) simp

subsection \<open>A word on which tokenizer and dequoting disagree\<close>

definition no_quote :: "string \<Rightarrow> bool" where
  "no_quote s \<longleftrightarrow> (\<forall>c\<in>set s. c \<noteq> SQUOTE \<and> c \<noteq> DQUOTE \<and> c \<noteq> BACKSLASH)"

lemma no_quote_simps [simp]:
  "no_quote []" "no_quote (c # s) \<longleftrightarrow> c \<noteq> SQUOTE \<and> c \<noteq> DQUOTE \<and> c \<noteq> BACKSLASH \<and> no_quote s"
  by (auto simp: no_quote_def)

lemma skip_squote_plain: "no_quote t \<Longrightarrow> skip_squote t = []"
  by (induction t rule: skip_squote.induct) auto

lemma skip_squote_escaped: "no_quote w \<Longrightarrow> skip_squote (w @ BACKSLASH # BACKSLASH # SQUOTE # t) = skip_squote t"
proof (induction w)
  case (Cons c w)
  obtain d s where "w @ BACKSLASH # BACKSLASH # SQUOTE # t = d # s"
    by (cases "w @ BACKSLASH # BACKSLASH # SQUOTE # t") auto
  with Cons show ?case by auto
qed simp

lemma dequote_in_escaped:
  "no_quote w \<Longrightarrow> dequote_in SQUOTE (w @ BACKSLASH # BACKSLASH # SQUOTE # t) = (w @ [BACKSLASH], t)"
proof (induction w)
  case Nil
  show ?case by (cases t) simp_all
next
  case (Cons c w)
  obtain d s where "w @ BACKSLASH # BACKSLASH # SQUOTE # t = d # s"
    by (cases "w @ BACKSLASH # BACKSLASH # SQUOTE # t") auto
  with Cons show ?case by auto
qed

lemma dequote_plain: "no_quote t \<Longrightarrow> dequote t = t"
  by (induction t) (simp_all add: dequote.simps)

lemma skip_word_plain:
  "\<not> is_white c \<and> \<not> is_symbol c \<and> c \<noteq> SQUOTE \<and> c \<noteq> DQUOTE \<and> c \<noteq> BACKSLASH \<Longrightarrow>
   skip_word (c # t) = skip_word t"
  by (subst skip_word.simps) simp

lemma quote_classes: "\<not> is_white SQUOTE" "\<not> is_symbol SQUOTE" "is_white (CHR '' '')"
  by (simp_all add: is_white_def is_symbol_def whitespace_def symbols_def)

text \<open>
  Inside single quotes the comment before \<open>dequote\<close> makes \<open>\\\<close> an escaped backslash, but the
  tokenizer does not: it takes the second backslash with the closing quote for an escaped quote.  So
  a word that ends in an escaped backslash swallows the rest of the line as part of one argument.
\<close>

theorem squote_backslash_swallows:
  assumes "no_quote w" "no_quote t"
  shows "parsecmd (''echo '' @ SQUOTE # w @ BACKSLASH # BACKSLASH # SQUOTE # CHR '' '' # t) =
    Got (Some (Exec [''echo'', w @ BACKSLASH # CHR '' '' # t]))"
proof -
  define v where "v = SQUOTE # w @ BACKSLASH # BACKSLASH # SQUOTE # CHR '' '' # t"
  define s where "s = ''echo '' @ v"
  have "skip_word v = []"
    using skip_squote_escaped [OF assms(1), of "CHR '' '' # t"] skip_squote_plain [of "CHR '' '' # t"] assms(2)
    by (subst skip_word.simps) (simp add: v_def quote_classes skip_word.simps [of "[]"])
  then have tok2: "gettoken v = (CHR ''a'', v, [])"
    by (simp add: gettoken_alt token_rest_def quote_classes v_def)
  have "skip_word s = CHR '' '' # v"
    using char_classes(1) by (simp add: s_def skip_word_plain is_white_def is_symbol_def whitespace_def symbols_def
        skip_word.simps [of "CHR '' '' # _"])
  then have tok1: "gettoken s = (CHR ''a'', ''echo'', v)"
    by (simp add: gettoken_alt token_rest_def is_white_def whitespace_def s_def v_def)
  have peek: "peek s toks = (s, CHR ''e'' \<in> set toks)" "peek v toks = (v, SQUOTE \<in> set toks)" for toks
    by (auto simp: peek_def is_white_def whitespace_def s_def v_def)
  have redirs: "parseredirs s = Got ([], s)" "parseredirs v = Got ([], v)" "parseredirs [] = Got ([], [])"
    by (subst parseredirs.simps, simp add: peek peek_Nil)+
  have "parse_args (Suc 0) v = Got ([v], [], [])"
    using stop0D(4) [of "[]"] by (subst parse_args.simps) (simp add: peek tok2 redirs stop0_def)
  then have args: "parse_args 0 s = Got ([''echo'', v], [], [])"
    by (subst parse_args.simps) (simp add: peek tok1 redirs)
  have "\<not> snd (peek s ''('')" by (simp add: peek)
  from exec_simple [OF redirs(1) args this] have "exec_to s (Exec [''echo'', v]) []"
    by (simp add: redircmd_def)
  then have "line_to s (Exec [''echo'', v]) []"
    using pipe_to_single amps_end line_toI by blast
  then obtain n where n: "\<forall>m\<ge>n. parseline m s = Got (Exec [''echo'', v], [])"
    by (auto simp: line_to_def)
  have "dequote v = w @ BACKSLASH # CHR '' '' # t"
    using dequote_in_escaped [OF assms(1), of "CHR '' '' # t"] dequote_plain [of "CHR '' '' # t"] assms(2)
    by (subst dequote.simps) (simp add: v_def)
  moreover have "dequote ''echo'' = ''echo''" by (simp add: dequote_plain)
  ultimately have "parsecmd_fuel (4 * length s + 4 + n) s = Got (Some (Exec [''echo'', w @ BACKSLASH # CHR '' '' # t]))"
    using n by (simp add: parsecmd_fuel_def peek_Nil)
  then show ?thesis
    using parsecmd_returns [of s n] by (simp add: s_def v_def)
qed

theorem squote_backslash_swallows_witness:
  "parsecmd (''echo '' @ SQUOTE # ''dir'' @ BACKSLASH # BACKSLASH # SQUOTE # '' more'') =
    Got (Some (Exec [''echo'', ''dir'' @ BACKSLASH # '' more'']))"
  using squote_backslash_swallows [of "''dir''" "''more''"] by simp

end
