(* ===== verification/ShRun.thy ===== *)
theory ShRun
  imports ShExpand ShEnvp ShParse
begin

section \<open>sh.c: running commands\<close>

text \<open>
  \<open>runcmd\<close> walks the command and turns into the program it runs, so it is modelled by what it leaves
  behind: the programs that were started, each with the descriptors it was started with, and how
  the process that walked ended.  Children are made with \<open>vfork\<close>, which lends them the memory of the
  parent until they end or execute a program: the environment is threaded through them, while their
  descriptors are a copy.  The kernel is the record \<open>host\<close>: which files can be opened, which paths can
  be executed, and whether a fork succeeds.
\<close>

subsection \<open>Descriptors\<close>

datatype fobj =
    FInit nat
  | FFile string open_mode
  | FPipeR nat
  | FPipeW nat

type_synonym fdtab = "fobj option list"

text \<open>The lowest free descriptor, which \<open>open\<close>, \<open>dup\<close> and \<open>pipe\<close> take.\<close>

fun lowest_free :: "'a option list \<Rightarrow> nat option" where
  "lowest_free [] = None"
| "lowest_free (None # t) = Some 0"
| "lowest_free (Some x # t) = map_option Suc (lowest_free t)"

definition fd_alloc :: "'a \<Rightarrow> 'a option list \<Rightarrow> (nat \<times> 'a option list) option" where
  "fd_alloc x t = map_option (\<lambda>i. (i, t[i := Some x])) (lowest_free t)"

definition fd_close :: "nat \<Rightarrow> 'a option list \<Rightarrow> 'a option list" where
  "fd_close i t = t[i := None]"

definition fd_dup :: "nat \<Rightarrow> 'a option list \<Rightarrow> 'a option list option" where
  "fd_dup i t =
     (if i < length t then case t ! i of Some x \<Rightarrow> map_option snd (fd_alloc x t) | None \<Rightarrow> None else None)"

datatype gdb = NoGdb | GdbWait | GdbEntry

record launch =
  l_path :: string
  l_argv :: "string list"
  l_envp :: "string list"
  l_fds :: fdtab
  l_gdb :: gdb

record host =
  h_open :: "string \<Rightarrow> open_mode \<Rightarrow> bool"
  h_exec :: "string \<Rightarrow> bool"
  h_fork :: "nat \<Rightarrow> bool"
  h_gui :: bool

record pstate =
  p_env :: env
  p_pipes :: nat
  p_forks :: nat
  p_launched :: "launch list"

text \<open>A process ends with a status, becomes a program, or writes past the path buffer.\<close>

datatype ended = Exited nat | Became string | Overrun

subsection \<open>The process that walks the command\<close>

text \<open>\<open>exec_with_path_env\<close>: the first path that can be executed wins.\<close>

definition exec_with_path_env ::
    "host \<Rightarrow> gdb \<Rightarrow> string \<Rightarrow> string list \<Rightarrow> string list \<Rightarrow> fdtab \<Rightarrow> pstate \<Rightarrow> ended \<times> pstate" where
  "exec_with_path_env h g cmd args assignv fds st =
     (let merged = maybe_add_wayland_client_env (h_gui h) (p_env st) cmd assignv MAX_ENV_VARS in
      case exec_attempts (p_env st) cmd of
        None \<Rightarrow> (Overrun, st)
      | Some paths \<Rightarrow>
          (case filter (h_exec h) paths of
             [] \<Rightarrow> (Exited 127, st)
           | p # _ \<Rightarrow>
               (Became p, st\<lparr>p_launched := p_launched st @
                  [\<lparr>l_path = p, l_argv = args,
                    l_envp = build_exec_envp_with_assignments (p_env st) merged,
                    l_fds = fds, l_gdb = g\<rparr>]\<rparr>)))"

definition env_assign_all :: "string list \<Rightarrow> env \<Rightarrow> env" where
  "env_assign_all as t = fold (\<lambda>a t. fst (env_set_assignment t a)) as t"

definition run_waitgdb :: "host \<Rightarrow> string list \<Rightarrow> string list \<Rightarrow> fdtab \<Rightarrow> pstate \<Rightarrow> ended \<times> pstate" where
  "run_waitgdb h args assignv fds st =
     (let (g, rest) =
        (case args of
           a # rest \<Rightarrow> if strcmp a ''-e'' = 0 then (GdbEntry, rest) else (GdbWait, args)
         | [] \<Rightarrow> (GdbWait, []))
      in case rest of
           [] \<Rightarrow> (Exited 1, st)
         | cmd # _ \<Rightarrow>
             if refuse_gui_only_without_session (h_gui h) (p_env st) cmd then (Exited 126, st)
             else exec_with_path_env h g cmd rest assignv fds st)"

definition run_exec :: "host \<Rightarrow> string list \<Rightarrow> fdtab \<Rightarrow> pstate \<Rightarrow> ended \<times> pstate" where
  "run_exec h argv fds st =
     (let assignv = takeWhile is_env_assignment_word argv;
          rest = dropWhile is_env_assignment_word argv
      in if argv = [] then (Exited 1, st)
         else case rest of
           [] \<Rightarrow> (Exited 0, st\<lparr>p_env := env_assign_all assignv (p_env st)\<rparr>)
         | cmd # args \<Rightarrow>
             if strcmp cmd ''waitgdb'' = 0 then run_waitgdb h args assignv fds st
             else if refuse_gui_only_without_session (h_gui h) (p_env st) cmd then (Exited 126, st)
             else exec_with_path_env h NoGdb cmd rest assignv fds st)"

definition forked :: "pstate \<Rightarrow> pstate" where
  "forked st = st\<lparr>p_forks := p_forks st + 1\<rparr>"

text \<open>\<open>pipe(p)\<close>: the read end and the write end of a new pipe at the two lowest free descriptors.\<close>

definition fd_pipe :: "nat \<Rightarrow> fdtab \<Rightarrow> (nat \<times> nat \<times> fdtab) option" where
  "fd_pipe k fds = do {
     (r, fds) \<leftarrow> fd_alloc (FPipeR k) fds;
     (w, fds) \<leftarrow> fd_alloc (FPipeW k) fds;
     Some (r, w, fds)
   }"

text \<open>
  The descriptors \<open>run_pipe_left\<close> (\<open>std = 1\<close>) and \<open>run_pipe_right\<close> (\<open>std = 0\<close>) run their command with:
  \<open>close(std); dup(p[std]); close(p[0]); close(p[1])\<close>.
\<close>

definition pipe_end_fds :: "nat \<Rightarrow> nat \<Rightarrow> nat \<Rightarrow> fdtab \<Rightarrow> fdtab option" where
  "pipe_end_fds std r w fds =
     map_option (\<lambda>fds. fd_close w (fd_close r fds)) (fd_dup (if std = 1 then w else r) (fd_close std fds))"

fun runcmd :: "host \<Rightarrow> cmd \<Rightarrow> fdtab \<Rightarrow> pstate \<Rightarrow> ended \<times> pstate" where
  "runcmd h (Exec argv) fds st = run_exec h argv fds st"
| "runcmd h (Redir c f m d) fds st =
     (case (if h_open h f m then fd_alloc (FFile f m) (fd_close d fds) else None) of
        None \<Rightarrow> (Exited 1, st)
      | Some (_, fds) \<Rightarrow> runcmd h c fds st)"
| "runcmd h (List l r) fds st =
     (if \<not> h_fork h (p_forks st) then (Exited 1, forked st)
      else case runcmd h l fds (forked st) of (_, st) \<Rightarrow> runcmd h r fds st)"
| "runcmd h (Pipe l r) fds st =
     (case fd_pipe (p_pipes st) fds of
        None \<Rightarrow> (Exited 1, st)
      | Some (pr, pw, fds) \<Rightarrow>
          let st = st\<lparr>p_pipes := p_pipes st + 1\<rparr> in
          if \<not> h_fork h (p_forks st) then (Exited 1, forked st)
          else
            let st = (case pipe_end_fds 1 pr pw fds of
                        None \<Rightarrow> forked st | Some fds1 \<Rightarrow> snd (runcmd h l fds1 (forked st)))
            in if \<not> h_fork h (p_forks st) then (Exited 1, forked st)
               else
                 let st = (case pipe_end_fds 0 pr pw fds of
                             None \<Rightarrow> forked st | Some fds0 \<Rightarrow> snd (runcmd h r fds0 (forked st)))
                 in (Exited 0, st))"
| "runcmd h (Back c) fds st =
     (if \<not> h_fork h (p_forks st) then (Exited 1, forked st)
      else (Exited 0, snd (runcmd h c fds (forked st))))"

subsection \<open>The descriptors of a pipeline\<close>

text \<open>A simple command that starts: no assignments in front, not \<open>waitgdb\<close>, not refused, and found.\<close>

definition starts :: "host \<Rightarrow> env \<Rightarrow> string list \<Rightarrow> bool" where
  "starts h t argv \<longleftrightarrow>
     (case argv of
        [] \<Rightarrow> False
      | cmd # _ \<Rightarrow> \<not> is_env_assignment_word cmd \<and> strcmp cmd ''waitgdb'' \<noteq> 0 \<and>
          \<not> refuse_gui_only_without_session (h_gui h) t cmd \<and>
          (\<exists>paths. exec_attempts t cmd = Some paths \<and> (\<exists>p\<in>set paths. h_exec h p)))"

lemma run_exec_starts:
  assumes "starts h (p_env st) argv"
  shows "\<exists>l p. run_exec h argv fds st = (Became p, st\<lparr>p_launched := p_launched st @ [l]\<rparr>) \<and>
    l_argv l = argv \<and> l_fds l = fds \<and> l_path l = p \<and> h_exec h p"
proof -
  obtain cmd args paths p where c: "argv = cmd # args" "\<not> is_env_assignment_word cmd" "strcmp cmd ''waitgdb'' \<noteq> 0"
    "\<not> refuse_gui_only_without_session (h_gui h) (p_env st) cmd"
    "exec_attempts (p_env st) cmd = Some paths" "p \<in> set paths" "h_exec h p"
    using assms by (auto simp: starts_def split: list.splits)
  then have "filter (h_exec h) paths \<noteq> []"
    by (auto simp: filter_empty_conv)
  then obtain q qs where q: "filter (h_exec h) paths = q # qs"
    by (cases "filter (h_exec h) paths") auto
  then have "h_exec h q"
    by (metis filter_eq_ConsD)
  then show ?thesis
    using c q by (auto simp: run_exec_def exec_with_path_env_def Let_def)
qed

fun pipeline :: "string list list \<Rightarrow> cmd" where
  "pipeline [] = Exec []"
| "pipeline [s] = Exec s"
| "pipeline (s # ss) = Pipe (Exec s) (pipeline ss)"

text \<open>
  What the descriptors of the stages should be: standard input from the pipe on the left,
  standard output to the pipe on the right, everything else as the shell had it.
\<close>

fun wired :: "fdtab \<Rightarrow> nat \<Rightarrow> nat \<Rightarrow> fdtab list" where
  "wired fds k 0 = []"
| "wired fds k (Suc 0) = [fds]"
| "wired fds k (Suc n) = fds[1 := Some (FPipeW k)] # wired (fds[0 := Some (FPipeR k)]) (k + 1) n"

lemma lowest_free_None: "lowest_free t = None \<longleftrightarrow> None \<notin> set t"
  by (induction t rule: lowest_free.induct) auto

lemma lowest_freeD:
  "lowest_free t = Some i \<Longrightarrow> i < length t \<and> t ! i = None \<and> (\<forall>j<i. t ! j \<noteq> None)"
  by (induction t arbitrary: i rule: lowest_free.induct) (auto simp: less_Suc_eq_0_disj)

lemma lowest_free_eq:
  assumes "i < length t" "t ! i = None" "\<forall>j<i. t ! j \<noteq> None"
  shows "lowest_free t = Some i"
proof (cases "lowest_free t")
  case None
  then show ?thesis using assms(1,2) lowest_free_None [of t] by (metis nth_mem)
next
  case (Some k)
  then have "t ! k = None" "\<forall>j<k. t ! j \<noteq> None" by (simp_all add: lowest_freeD)
  then have "k = i" using assms(2,3) by (metis linorder_neqE_nat)
  then show ?thesis using Some by simp
qed

text \<open>Both ends of a pipe, and what the two children make of them.\<close>

lemma fd_pipe_ends:
  assumes "2 \<le> length fds" "fds ! 0 \<noteq> None" "fds ! 1 \<noteq> None" "2 \<le> length (filter (\<lambda>x. x = None) fds)"
  obtains r w fds' where "fd_pipe k fds = Some (r, w, fds')"
    "pipe_end_fds 1 r w fds' = Some (fds[1 := Some (FPipeW k)])"
    "pipe_end_fds 0 r w fds' = Some (fds[0 := Some (FPipeR k)])"
proof -
  have none: "None \<in> set fds" using assms(4) by (metis (mono_tags) filter_False list.size(3) not_numeral_le_zero)
  then obtain r where r: "lowest_free fds = Some r" using lowest_free_None [of fds] by blast
  note rD = lowest_freeD [OF r]
  let ?f1 = "fds[r := Some (FPipeR k)]"
  have "None \<in> set ?f1"
  proof (rule ccontr)
    assume "None \<notin> set ?f1"
    then have "\<forall>j<length fds. fds ! j = None \<longrightarrow> j = r"
      by (metis length_list_update nth_list_update_neq nth_mem)
    then have "{j. j < length fds \<and> fds ! j = None} \<subseteq> {r}" by blast
    then have "card {j. j < length fds \<and> fds ! j = None} \<le> 1"
      using card_mono [of "{r}"] by simp
    then show False
      using assms(4) by (simp add: length_filter_conv_card)
  qed
  then obtain w where w: "lowest_free ?f1 = Some w" using lowest_free_None [of ?f1] by blast
  note wD = lowest_freeD [OF w]
  have ne: "r \<noteq> 0" "r \<noteq> 1" "w \<noteq> 0" "w \<noteq> 1" "r \<noteq> w" "r < length fds" "w < length fds" "fds ! w = None" "fds ! r = None"
    using rD wD assms(1-3) by (metis length_list_update nth_list_update_eq nth_list_update_neq option.distinct(1))+
  let ?f2 = "?f1[w := Some (FPipeW k)]"
  have l1: "lowest_free (?f2[1 := None]) = Some 1"
    using ne assms(1,2) by (intro lowest_free_eq) (auto simp: nth_list_update less_Suc_eq)
  have n0: "fds \<noteq> []" using ne(6) by auto
  have l0: "lowest_free (?f2[0 := None]) = Some 0"
    using n0 by (intro lowest_free_eq) simp_all
  have e1: "pipe_end_fds 1 r w ?f2 = Some (fds[1 := Some (FPipeW k)])"
    using ne assms l1
    by (auto simp: pipe_end_fds_def fd_dup_def fd_alloc_def fd_close_def nth_list_update
        intro!: nth_equalityI split: if_splits)
  have "(?f2[0 := Some (FPipeR k)])[r := None, w := None] = fds[0 := Some (FPipeR k)]"
    by (rule nth_equalityI) (use n0 ne in \<open>auto simp: nth_list_update\<close>)
  then have e0: "pipe_end_fds 0 r w ?f2 = Some (fds[0 := Some (FPipeR k)])"
    using ne n0 l0 by (simp add: pipe_end_fds_def fd_dup_def fd_alloc_def fd_close_def)
  show ?thesis
    using r w by (intro that [OF _ e1 e0]) (simp add: fd_pipe_def fd_alloc_def)
qed

lemma list_update_free:
  "fds ! i \<noteq> None \<Longrightarrow> i < length fds \<Longrightarrow>
   length (filter (\<lambda>x. x = None) (fds[i := Some x])) = length (filter (\<lambda>x. x = None) fds)"
proof (induction fds arbitrary: i)
  case (Cons a fds)
  then show ?case by (cases i) auto
qed simp

text \<open>
  C7. A pipeline is wired as it should be and leaks nothing: with enough free descriptors and
  working forks, running a pipeline of simple commands starts every stage, in order, with its own
  arguments; each stage reads from the pipe its left neighbour writes to, the first reads and the
  last writes what the shell had, and no other descriptor, in particular no further end of any
  pipe, is open in a stage that was not open in the shell.
\<close>

theorem pipeline_wiring:
  assumes "ss \<noteq> []" "\<forall>s\<in>set ss. starts h (p_env st) s" "\<And>n. h_fork h n"
    and "2 \<le> length fds" "fds ! 0 \<noteq> None" "fds ! 1 \<noteq> None" "2 \<le> length (filter (\<lambda>x. x = None) fds)"
  shows "\<exists>e st' ls. runcmd h (pipeline ss) fds st = (e, st') \<and> p_launched st' = p_launched st @ ls \<and>
    map l_argv ls = ss \<and> map l_fds ls = wired fds (p_pipes st) (length ss) \<and> p_env st' = p_env st"
  using assms
proof (induction ss arbitrary: fds st rule: pipeline.induct)
  case (2 s)
  then obtain l p where "run_exec h s fds st = (Became p, st\<lparr>p_launched := p_launched st @ [l]\<rparr>)"
    "l_argv l = s" "l_fds l = fds"
    using run_exec_starts [of h st s fds] by auto
  then show ?case by (auto intro!: exI [of _ "[l]"])
next
  case (3 s s2 ss)
  obtain r w fds' where ends: "fd_pipe (p_pipes st) fds = Some (r, w, fds')"
    "pipe_end_fds 1 r w fds' = Some (fds[1 := Some (FPipeW (p_pipes st))])"
    "pipe_end_fds 0 r w fds' = Some (fds[0 := Some (FPipeR (p_pipes st))])"
    using fd_pipe_ends [OF "3.prems"(4-7), of "p_pipes st"] .
  let ?st1 = "forked (st\<lparr>p_pipes := p_pipes st + 1\<rparr>)"
  obtain l p where l: "run_exec h s (fds[1 := Some (FPipeW (p_pipes st))]) ?st1 =
      (Became p, ?st1\<lparr>p_launched := p_launched ?st1 @ [l]\<rparr>)"
    "l_argv l = s" "l_fds l = fds[1 := Some (FPipeW (p_pipes st))]"
    using run_exec_starts [of h ?st1 s "fds[1 := Some (FPipeW (p_pipes st))]"] "3.prems"(2)
    by (auto simp: forked_def)
  let ?st2 = "forked (?st1\<lparr>p_launched := p_launched ?st1 @ [l]\<rparr>)"
  let ?fds0 = "fds[0 := Some (FPipeR (p_pipes st))]"
  have "2 \<le> length ?fds0" "?fds0 ! 0 \<noteq> None" "?fds0 ! 1 \<noteq> None" "2 \<le> length (filter (\<lambda>x. x = None) ?fds0)"
    using "3.prems"(4-7) list_update_free [of fds 0] by (cases fds; simp)+
  with "3.IH" [of ?st2 ?fds0] "3.prems" obtain e st' ls where IH:
    "runcmd h (pipeline (s2 # ss)) ?fds0 ?st2 = (e, st')" "p_launched st' = p_launched ?st2 @ ls"
    "map l_argv ls = s2 # ss" "map l_fds ls = wired ?fds0 (p_pipes st + 1) (length (s2 # ss))"
    "p_env st' = p_env st"
    by (auto simp: forked_def)
  have "runcmd h (pipeline (s # s2 # ss)) fds st = (Exited 0, st')"
    using ends l(1) IH(1) "3.prems"(3) by (simp add: Let_def)
  then show ?case
    using IH l by (intro exI [of _ "Exited 0"] exI [of _ st'] exI [of _ "l # ls"]) (simp add: forked_def)
qed simp

definition some_host :: host where
  "some_host = \<lparr>h_open = (\<lambda>f m. True), h_exec = (\<lambda>p. p = ''/bin/ls'' \<or> p = ''/bin/wc'' \<or> p = ''/bin/grep''),
     h_fork = (\<lambda>n. True), h_gui = False\<rparr>"

definition some_pstate :: pstate where
  "some_pstate = \<lparr>p_env = env_init env_blank, p_pipes = 0, p_forks = 0, p_launched = []\<rparr>"

theorem pipeline_wiring_witness:
  "\<exists>e st'. runcmd some_host (Pipe (Exec [''/bin/ls'']) (Pipe (Exec [''/bin/grep'', ''x'']) (Exec [''/bin/wc''])))
      [Some (FInit 0), Some (FInit 1), Some (FInit 2), None, None] some_pstate = (e, st') \<and>
    map l_fds (p_launched st') =
      [[Some (FInit 0), Some (FPipeW 0), Some (FInit 2), None, None],
       [Some (FPipeR 0), Some (FPipeW 1), Some (FInit 2), None, None],
       [Some (FPipeR 1), Some (FInit 1), Some (FInit 2), None, None]]"
proof -
  let ?ss = "[[''/bin/ls''], [''/bin/grep'', ''x''], [''/bin/wc'']]"
  let ?fds = "[Some (FInit 0), Some (FInit 1), Some (FInit 2), None, None]"
  have "\<forall>s\<in>set ?ss. starts some_host (p_env some_pstate) s"
    by (simp add: starts_def some_host_def is_env_assignment_word_def env_assignment_name_len_def
        env_name_start_def uc_def exec_attempts_def refuse_gui_only_without_session_def is_gui_only_command_def
        path_basename_def)
  from pipeline_wiring [OF _ this, of ?fds]
  have "\<exists>e st' ls. runcmd some_host (pipeline ?ss) ?fds some_pstate = (e, st') \<and>
      p_launched st' = p_launched some_pstate @ ls \<and> map l_argv ls = ?ss \<and>
      map l_fds ls = wired ?fds (p_pipes some_pstate) (length ?ss) \<and> p_env st' = p_env some_pstate"
    by (simp add: some_host_def)
  then show ?thesis
    by (auto simp: some_pstate_def numeral_3_eq_3)
qed

end
