(* ===== verification/ShLine.thy ===== *)
theory ShLine
  imports ShRun
begin

section \<open>sh.c: command lines, scripts and options\<close>

text \<open>
  \<open>run_line\<close> decides what a line is: nothing, a builtin, an assignment, or a command that a child
  runs.  The shell's state is its environment and the log of what it asked for: output, directory
  changes, and the jobs with the environment their child is forked with.  What a job then does is
  \<open>runcmd\<close> on its command.  \<open>chdir\<close> succeeds where \<open>cd_ok\<close> says; \<open>pid\<close> is the text of \<^verbatim>\<open>$$\<close>.
\<close>

datatype event =
    Out string
  | Err string
  | Chdir string
  | ListDir string
  | ShowHistory
  | ShowEnv
  | Job bool cmd env

record shell =
  sh_env :: env
  sh_log :: "event list"

datatype line_result = Ret int | Died string

abbreviation NL :: char where "NL \<equiv> CHR 0x0a"
abbreviation TAB :: char where "TAB \<equiv> CHR 0x09"

definition log :: "event \<Rightarrow> shell \<Rightarrow> shell" where
  "log ev st = st\<lparr>sh_log := sh_log st @ [ev]\<rparr>"

subsection \<open>Kinds of lines\<close>

fun ctl_loop :: "string \<Rightarrow> char \<Rightarrow> bool" where
  "ctl_loop [] quote = False"
| "ctl_loop [c] quote = (quote = NUL \<and> c \<in> set ''|&;<>()'')"
| "ctl_loop (c # d # s) quote =
     (if c = BACKSLASH then ctl_loop s quote
      else if quote \<noteq> NUL then ctl_loop (d # s) (if c = quote then NUL else quote)
      else if c = SQUOTE \<or> c = DQUOTE then ctl_loop (d # s) c
      else c \<in> set ''|&;<>()'' \<or> ctl_loop (d # s) NUL)"

definition line_has_control_operator :: "string \<Rightarrow> bool" where
  "line_has_control_operator s = ctl_loop s NUL"

definition word_gap :: "char \<Rightarrow> bool" where
  "word_gap c \<longleftrightarrow> c = CHR '' '' \<or> c = TAB \<or> c = NL"

text \<open>The words that both loops of \<open>run_assignment_only_line\<close> walk over.\<close>

function gap_words :: "string \<Rightarrow> string list" where
  "gap_words s =
     (let p = dropWhile word_gap s in
      if p = [] then []
      else takeWhile (\<lambda>c. \<not> word_gap c) p # gap_words (dropWhile (\<lambda>c. \<not> word_gap c) p))"
  by pat_completeness auto
termination
proof (relation "measure length", goal_cases)
  case (2 s p)
  then obtain c q where p: "dropWhile word_gap s = c # q" by (cases "dropWhile word_gap s") auto
  then have "\<not> word_gap c" by (metis hd_dropWhile list.discI list.sel(1))
  then have "length (dropWhile (\<lambda>c. \<not> word_gap c) (c # q)) \<le> length q"
    by (simp add: length_dropWhile_le)
  moreover have "length (c # q) \<le> length s"
    using length_dropWhile_le [of word_gap s] p by simp
  ultimately show ?case using 2 p by simp
qed simp

declare gap_words.simps [simp del]

fun assign_words :: "string list \<Rightarrow> shell \<Rightarrow> shell" where
  "assign_words [] st = st"
| "assign_words (w # ws) st =
     (case env_set_assignment (sh_env st) w of (t, r) \<Rightarrow>
      assign_words ws (if r < 0 then log (Err (''sh: bad assignment: '' @ w)) (st\<lparr>sh_env := t\<rparr>)
                       else st\<lparr>sh_env := t\<rparr>))"

definition run_assignment_only_line :: "string \<Rightarrow> shell \<Rightarrow> bool \<times> shell" where
  "run_assignment_only_line buf st =
     (let ws = gap_words (take (if 1024 \<le> length buf then 1023 else length buf) buf) in
      if ws = [] \<or> \<not> list_all is_env_assignment_word ws then (False, st)
      else (True, assign_words ws st))"

subsection \<open>One line\<close>

text \<open>\<open>strncmp_local(buf, w, n) == 0 && (buf[n] == '\n' || buf[n] == 0)\<close>\<close>

definition is_word_line :: "string \<Rightarrow> string \<Rightarrow> bool" where
  "is_word_line buf w \<longleftrightarrow> strncmp_local buf w (length w) = 0 \<and> deref (drop (length w) buf) \<in> {NL, NUL}"

definition run_cd :: "(string \<Rightarrow> bool) \<Rightarrow> string \<Rightarrow> string \<Rightarrow> shell \<Rightarrow> line_result \<times> shell" where
  "run_cd cd_ok pid buf st =
     (case expand_env_vars (sh_env st) pid (drop 3 (butlast buf)) of
        (path, trunc) \<Rightarrow>
          if trunc then (Ret (-1), log (Err ''sh: expanded command too long'') st)
          else if \<not> cd_ok path then (Ret 0, log (Err (''cannot cd '' @ path)) st)
          else (Ret 0, log (Chdir path) st))"

definition run_ls :: "string \<Rightarrow> shell \<Rightarrow> line_result \<times> shell" where
  "run_ls buf st =
     (let buf = butlast buf in
      (Ret 0, log (ListDir (if drop 2 buf = [] \<or> drop 3 buf = [] then ''.'' else drop 3 buf)) st))"

definition strip_quotes :: "string \<Rightarrow> string" where
  "strip_quotes v =
     (if 2 \<le> length v \<and> ((hd v = DQUOTE \<and> last v = DQUOTE) \<or> (hd v = SQUOTE \<and> last v = SQUOTE))
      then tl (butlast v) else v)"

definition run_export :: "string \<Rightarrow> shell \<Rightarrow> line_result \<times> shell" where
  "run_export buf st =
     (let arg = dropWhile (\<lambda>c. c = CHR '' '') (drop 7 (butlast buf)) in
      case strchr arg (CHR ''='') of
        None \<Rightarrow> (Ret 0, log (Err ''export: usage: export VAR=value'') st)
      | Some eq \<Rightarrow>
          (case env_set (sh_env st) (take (length arg - length eq) arg) (strip_quotes (tl eq)) of
             (t, r) \<Rightarrow>
               (Ret 0, if r < 0 then log (Err ''export: too many variables'') (st\<lparr>sh_env := t\<rparr>)
                       else st\<lparr>sh_env := t\<rparr>)))"

definition run_unset :: "string \<Rightarrow> shell \<Rightarrow> line_result \<times> shell" where
  "run_unset buf st =
     (Ret 0, st\<lparr>sh_env := fst (env_unset (sh_env st)
        (dropWhile (\<lambda>c. c = CHR '' '') (drop 6 (butlast buf))))\<rparr>)"

definition run_echo :: "string \<Rightarrow> string \<Rightarrow> shell \<Rightarrow> line_result \<times> shell" where
  "run_echo pid buf st =
     (case expand_env_vars (sh_env st) pid (drop 5 (butlast buf)) of
        (s, trunc) \<Rightarrow>
          if trunc then (Ret (-1), log (Err ''sh: expanded command too long'') st)
          else (Ret 0, log (Out (s @ [NL])) st))"

text \<open>An external command; running out of fuel is excluded by the theorem on \<^const>\<open>parsecmd\<close>.\<close>

definition run_external :: "string \<Rightarrow> bool \<Rightarrow> string \<Rightarrow> shell \<Rightarrow> line_result \<times> shell" where
  "run_external pid interactive buf st =
     (case expand_env_vars (sh_env st) pid buf of
        (s, trunc) \<Rightarrow>
          if trunc then (Ret (-1), log (Err ''sh: expanded command too long'') st)
          else (case parsecmd s of
              Fuel \<Rightarrow> (Ret 0, st)
            | Panic msg \<Rightarrow> (Died msg, log (Err msg) st)
            | Got None \<Rightarrow> (Ret 0, log (Err ''syntax error'') st)
            | Got (Some c) \<Rightarrow>
                if c = Exec [] then (Ret 0, st)
                else (Ret 0, log (Job interactive c (sh_env st)) st)))"

definition run_builtin :: "(string \<Rightarrow> bool) \<Rightarrow> string \<Rightarrow> string \<Rightarrow> shell \<Rightarrow> (line_result \<times> shell) option" where
  "run_builtin cd_ok pid buf st =
     (case run_assignment_only_line buf st of (done, st') \<Rightarrow>
      if done then Some (Ret 0, st')
      else if take 3 buf = ''cd '' then Some (run_cd cd_ok pid buf st)
      else if take 2 buf = ''ls'' \<and> deref (drop 2 buf) \<in> {NL, CHR '' ''} then Some (run_ls buf st)
      else if is_word_line buf ''history'' then Some (Ret 0, log ShowHistory st)
      else if is_word_line buf ''env'' then Some (Ret 0, log ShowEnv st)
      else if strncmp_local buf ''export '' 7 = 0 then Some (run_export buf st)
      else if strncmp_local buf ''unset '' 6 = 0 then Some (run_unset buf st)
      else if strncmp_local buf ''echo '' 5 = 0 then Some (run_echo pid buf st)
      else if is_word_line buf ''exit'' then Some (Ret 1, st)
      else None)"

definition run_line ::
    "(string \<Rightarrow> bool) \<Rightarrow> string \<Rightarrow> bool \<Rightarrow> string \<Rightarrow> shell \<Rightarrow> line_result \<times> shell" where
  "run_line cd_ok pid interactive buf st =
     (let len = length buf in
      if 0 < len \<and> last buf \<noteq> NL \<and> \<not> len < 1023
      then (Ret (-1), log (Err ''sh: command line too long'') st)
      else
        let buf = (if 0 < len \<and> last buf \<noteq> NL then buf @ [NL] else buf);
            p = dropWhile (\<lambda>c. c = CHR '' '' \<or> c = TAB) buf
        in if deref p \<in> {NUL, NL, CHR ''#''} then (Ret 0, st)
           else case (if \<not> line_has_control_operator buf then run_builtin cd_ok pid buf st else None) of
             Some res \<Rightarrow> res
           | None \<Rightarrow> run_external pid interactive buf st)"

subsection \<open>Scripts and options\<close>

function script_loop ::
    "(string \<Rightarrow> bool) \<Rightarrow> string \<Rightarrow> string \<Rightarrow> shell \<Rightarrow> line_result \<times> shell" where
  "script_loop cd_ok pid s st =
     (if s = [] then (Ret 0, st)
      else
        let line = takeWhile (\<lambda>c. c \<noteq> NL) s; rest = dropWhile (\<lambda>c. c \<noteq> NL) s in
        case run_line cd_ok pid False (clip 1024 line) st of
          (Died msg, st) \<Rightarrow> (Died msg, st)
        | (Ret r, st) \<Rightarrow> if r = 1 \<or> rest = [] then (Ret 0, st) else script_loop cd_ok pid (tl rest) st)"
  by pat_completeness auto
termination
  by (relation "measure (\<lambda>(cd_ok, pid, s, st). length s)") (simp_all add: rest_less del: length_tl)

declare script_loop.simps [simp del]

text \<open>\<open>None\<close>: the file cannot be opened; at most 16383 bytes of it are read.\<close>

definition run_script ::
    "(string \<Rightarrow> bool) \<Rightarrow> string \<Rightarrow> string \<Rightarrow> string option \<Rightarrow> shell \<Rightarrow> line_result \<times> shell" where
  "run_script cd_ok pid path contents st =
     (case contents of
        None \<Rightarrow> (Ret 1, log (Err (''sh: cannot open '' @ path)) st)
      | Some s \<Rightarrow> script_loop cd_ok pid (takeWhile (\<lambda>c. c \<noteq> NUL) (take 16383 s)) st)"

definition shell_option_cluster_is_supported :: "string \<Rightarrow> bool" where
  "shell_option_cluster_is_supported arg \<longleftrightarrow>
     deref arg = CHR ''-'' \<and> deref (drop 1 arg) \<noteq> NUL \<and>
     list_all (\<lambda>c. c = CHR ''c'' \<or> c = CHR ''l'') (drop 1 arg)"

definition shell_option_has :: "string \<Rightarrow> char \<Rightarrow> bool" where
  "shell_option_has arg opt \<longleftrightarrow> shell_option_cluster_is_supported arg \<and> opt \<in> set (drop 1 arg)"

text \<open>The command line that \<open>main\<close> builds from the arguments of \<open>-c\<close>, in a buffer of 1024 bytes.\<close>

fun join_args :: "string list \<Rightarrow> bool \<Rightarrow> string \<Rightarrow> string" where
  "join_args [] first out = out"
| "join_args (a # as) first out =
     (if \<not> length out < 1022 then out
      else
        let out = (if \<not> first \<and> length out < 1023 then out @ '' '' else out) in
        join_args as False (out @ take (1023 - length out) a))"

definition skip_login :: "string list \<Rightarrow> string list" where
  "skip_login args = dropWhile (\<lambda>a. strcmp a ''-l'' = 0) args"

text \<open>What \<open>main\<close> does with the arguments behind \<open>--gui-session\<close>.\<close>

datatype start = RunLine string | RunScript string | Interactive

definition main_start :: "string list \<Rightarrow> start" where
  "main_start args =
     (case skip_login args of
        [] \<Rightarrow> Interactive
      | a # rest \<Rightarrow>
          if rest \<noteq> [] \<and> (strcmp a ''-c'' = 0 \<or> shell_option_has a (CHR ''c''))
          then RunLine (join_args (if strcmp (hd rest) ''--'' = 0 then tl rest else rest) True [])
          else if deref a \<noteq> CHR ''-'' then RunScript a
          else Interactive)"

subsection \<open>Operators are never overlooked\<close>

definition no_backslash :: "string \<Rightarrow> bool" where
  "no_backslash s \<longleftrightarrow> BACKSLASH \<notin> set s"

lemma no_backslash_simps [simp]:
  "no_backslash []" "no_backslash (c # s) \<longleftrightarrow> c \<noteq> BACKSLASH \<and> no_backslash s"
  by (auto simp: no_backslash_def)

text \<open>One step of the loop for a byte that is no backslash.\<close>

lemma ctl_step:
  "c \<noteq> BACKSLASH \<Longrightarrow> ctl_loop (c # s) quote =
     (if quote \<noteq> NUL then ctl_loop s (if c = quote then NUL else quote)
      else if c = SQUOTE \<or> c = DQUOTE then ctl_loop s c
      else c \<in> set ''|&;<>()'' \<or> ctl_loop s NUL)"
  by (cases s) auto

declare ctl_loop.simps [simp del]

lemma ctl_Nil [simp]: "ctl_loop [] q = False"
  by (simp add: ctl_loop.simps)

lemma skip_squote_ctl:
  "no_backslash s \<Longrightarrow> \<not> ctl_loop s SQUOTE \<Longrightarrow> no_backslash (skip_squote s) \<and> \<not> ctl_loop (skip_squote s) NUL"
  by (induction s rule: skip_squote.induct) (auto simp: ctl_step split: if_splits)

lemma skip_dquote_ctl:
  "no_backslash s \<Longrightarrow> \<not> ctl_loop s DQUOTE \<Longrightarrow> no_backslash (skip_dquote s) \<and> \<not> ctl_loop (skip_dquote s) NUL"
  by (induction s rule: skip_dquote.induct) (auto simp: ctl_step split: if_splits)

definition calm :: "string \<Rightarrow> bool" where
  "calm s \<longleftrightarrow> no_backslash s \<and> \<not> ctl_loop s NUL"

lemma calm_head: "calm (c # s) \<Longrightarrow> c \<notin> set ''|&;<>()'' \<and> c \<noteq> BACKSLASH"
  by (auto simp: calm_def ctl_step split: if_splits)

lemma calm_tail: "calm (c # s) \<Longrightarrow> c \<noteq> SQUOTE \<Longrightarrow> c \<noteq> DQUOTE \<Longrightarrow> calm s"
  by (auto simp: calm_def ctl_step split: if_splits)

lemma calm_quote:
  "calm (SQUOTE # s) \<Longrightarrow> calm (skip_squote s)" "calm (DQUOTE # s) \<Longrightarrow> calm (skip_dquote s)"
  using skip_squote_ctl [of s] skip_dquote_ctl [of s] by (simp_all add: calm_def ctl_step)

lemma calm_white: "calm s \<Longrightarrow> calm (skip_white s)"
proof (induction s)
  case (Cons c s)
  then show ?case
    using calm_tail [of c s] by (auto simp: is_white_def whitespace_def)
qed simp

lemma calm_word: "calm s \<Longrightarrow> calm (skip_word s)"
proof (induction s rule: length_induct)
  case (1 s)
  show ?case
  proof (cases s)
    case (Cons c t)
    have IH: "calm (skip_word u)" if "calm u" "length u \<le> length t" for u
      using "1.IH" that Cons by simp
    have "c \<noteq> BACKSLASH" using calm_head "1.prems" Cons by blast
    moreover have "c \<noteq> SQUOTE \<Longrightarrow> c \<noteq> DQUOTE \<Longrightarrow> calm (skip_word t)"
      using IH calm_tail "1.prems" Cons by blast
    moreover have "c = SQUOTE \<Longrightarrow> calm (skip_word (skip_squote t))"
      using IH [OF calm_quote(1)] "1.prems" Cons skip_squote_length by blast
    moreover have "c = DQUOTE \<Longrightarrow> calm (skip_word (skip_dquote t))"
      using IH [OF calm_quote(2)] "1.prems" Cons skip_dquote_length by blast
    ultimately show ?thesis
      using "1.prems" unfolding Cons by (subst skip_word.simps) auto
  qed (use 1 in \<open>simp add: skip_word.simps\<close>)
qed

lemma calm_peek:
  assumes "calm s" "set toks \<subseteq> set ''|&;<>()''" shows "peek s toks = (skip_white s, False)"
proof -
  have "deref (skip_white s) \<notin> set toks \<or> deref (skip_white s) = NUL"
    using calm_head calm_white [OF assms(1)] assms(2) by (cases "skip_white s") fastforce+
  then show ?thesis by (auto simp: peek_def)
qed

lemma calm_token:
  assumes "calm s"
  shows "\<exists>w r. gettoken s = (if skip_white s = [] then NUL else CHR ''a'', w, r) \<and> calm r"
proof (cases "skip_white s")
  case Nil
  then show ?thesis by (simp add: gettoken_alt token_rest_def calm_def)
next
  case (Cons c t)
  have calm: "calm (skip_white s)" using calm_white [OF assms] .
  then have "c \<notin> set ''|&;<>()''" using calm_head Cons by metis
  then have "token_rest (c # t) = (CHR ''a'', skip_word (c # t))"
    by (auto simp: token_rest_def)
  then show ?thesis
    using calm_white [OF calm_word [OF calm]] Cons by (simp add: gettoken_alt)
qed

lemma calm_redirs: "calm s \<Longrightarrow> parseredirs s = Got ([], skip_white s)"
  using calm_peek [of s "''<>''"] by (subst parseredirs.simps) simp

lemma calm_args:
  "calm s \<Longrightarrow> (\<exists>ws. parse_args k s = Got (ws, [], [])) \<or> (\<exists>m. parse_args k s = Panic m)"
proof (induction "length s" arbitrary: s k rule: less_induct)
  case less
  have p: "peek s ''|)&;'' = (skip_white s, False)" using calm_peek [OF less.prems] by simp
  have calm: "calm (skip_white s)" using calm_white [OF less.prems] .
  obtain w r where g: "gettoken (skip_white s) = (if skip_white s = [] then NUL else CHR ''a'', w, r)" "calm r"
    using calm_token [OF calm] by auto
  show ?case
  proof (cases "skip_white s = []")
    case True
    then have "gettoken (skip_white s) = (NUL, [], [])" by (simp add: gettoken_alt token_rest_def)
    then show ?thesis using True p by (subst (1 2) parse_args.simps) simp
  next
    case False
    have r: "parseredirs r = Got ([], skip_white r)" "calm (skip_white r)"
      using calm_redirs calm_white g(2) by blast+
    then have "length (skip_white r) < length s"
      using args_less [OF p g(1)] False by simp
    with less.hyps r(2) have
      "(\<exists>ws. parse_args (k + 1) (skip_white r) = Got (ws, [], [])) \<or> (\<exists>m. parse_args (k + 1) (skip_white r) = Panic m)"
      by blast
    then show ?thesis
      using p g(1) False r(1) by (subst (1 2) parse_args.simps) auto
  qed
qed

text \<open>
  The test for control operators overlooks none: a line without backslashes that it calls free
  of operators is never parsed as anything but a simple command, so handling it as a builtin loses
  no pipe, list, redirection or background mark.
\<close>

theorem no_operator_overlooked:
  assumes "\<not> line_has_control_operator s" "no_backslash s"
  shows "(\<exists>ws. parsecmd s = Got (Some (Exec ws))) \<or> (\<exists>m. parsecmd s = Panic m)"
proof -
  have calm: "calm s" using assms by (simp add: calm_def line_has_control_operator_def)
  note white = calm_white [OF calm]
  have p: "peek s ''('' = (skip_white s, False)" using calm_peek [OF calm] by simp
  have r: "parseredirs (skip_white s) = Got ([], skip_white s)" using calm_redirs [OF white] by simp
  obtain n where n: "4 * length s + 4 = Suc (Suc (Suc n))"
    using that [of "4 * length s + 1"] by simp
  consider ws where "parse_args 0 (skip_white s) = Got (ws, [], [])" | m where "parse_args 0 (skip_white s) = Panic m"
    using calm_args [OF white] by blast
  then show ?thesis
  proof cases
    case 1
    then have exec: "parseexec (Suc k) s = Got (Exec ws, [])" for k
      using p r by (simp add: redircmd_def)
    have "peek [] toks = ([], False)" for toks by (simp add: peek_def)
    then have "parseline (Suc (Suc (Suc n))) s = Got (Exec ws, [])"
      using exec by simp
    then show ?thesis
      unfolding parsecmd_def parsecmd_fuel_def n by (simp add: peek_def)
  next
    case 2
    then have "parseexec (Suc k) s = Panic m" for k
      using p r by simp
    then have "parseline (Suc (Suc (Suc n))) s = Panic m" by simp
    then show ?thesis
      unfolding parsecmd_def parsecmd_fuel_def n by simp
  qed
qed

theorem no_operator_overlooked_witness:
  "(\<exists>ws. parsecmd ''echo ok'' = Got (Some (Exec ws))) \<or> (\<exists>m. parsecmd ''echo ok'' = Panic m)"
  by (rule no_operator_overlooked) (simp_all add: line_has_control_operator_def ctl_step)

subsection \<open>Assignments reach later lines\<close>

text \<open>A word that the line reader takes as it is: no blanks, operators, quotes or expansions.\<close>

definition plain_char :: "char \<Rightarrow> bool" where
  "plain_char c \<longleftrightarrow> c \<noteq> NUL \<and> \<not> word_gap c \<and> c \<notin> set ''|&;<>()'' \<and> c \<noteq> BACKSLASH \<and> c \<noteq> SQUOTE \<and> c \<noteq> DQUOTE"

abbreviation plain_word :: "string \<Rightarrow> bool" where
  "plain_word w \<equiv> list_all plain_char w"

lemma ctl_plain: "plain_word w \<Longrightarrow> ctl_loop (w @ s) NUL = ctl_loop s NUL"
  by (induction w) (auto simp: plain_char_def ctl_step)

lemma plain_cstring: "plain_word w \<Longrightarrow> cstring w"
  by (auto simp: cstring_def list_all_iff plain_char_def)

lemma ident_plain: "ident nm \<Longrightarrow> plain_word nm"
proof -
  have "plain_char c" if "env_name_char (uc c)" for c
    using that by (auto simp: plain_char_def env_name_char_def env_name_start_def word_gap_def uc_def)
  moreover assume "ident nm"
  then have "\<forall>x\<in>set nm. env_name_char (uc x)"
    by (auto simp: ident_def env_name_char_def split: list.splits)
  ultimately show ?thesis by (simp add: list_all_iff)
qed

lemma gap_words_one:
  assumes "plain_word w" "w \<noteq> []" shows "gap_words (w @ [NL]) = [w]"
proof -
  have "\<forall>c\<in>set w. \<not> word_gap c" "word_gap NL" using assms by (auto simp: list_all_iff plain_char_def word_gap_def)
  moreover obtain c u where "w = c # u" using assms(2) by (cases w) auto
  moreover have "gap_words [NL] = []" by (simp add: gap_words.simps word_gap_def)
  ultimately show ?thesis
    by (subst gap_words.simps) (auto simp: takeWhile_tail dropWhile_append)
qed

lemma run_line_assignment:
  assumes "env_ok (sh_env st)" "ident nm" "length nm < MAX_ENV_NAME"
    and "plain_word v" "length v < MAX_ENV_VALUE"
    and "env_get (sh_env st) nm \<noteq> None \<or> 0 < env_free (sh_env st)"
    and "s = nm @ CHR ''='' # v" "s' \<in> {s, s @ [NL]}"
  shows "run_line cd_ok pid interactive s' st = (Ret 0, st\<lparr>sh_env := fst (env_set (sh_env st) nm v)\<rparr>)"
proof -
  have "plain_word s"
    using assms(2,4) by (simp add: assms(7) ident_plain) (simp add: plain_char_def word_gap_def)
  have len: "length s < 400" using assms(3,5,7) by simp
  obtain c u where c: "nm = c # u" "env_name_start (uc c)" using assms(2) by (auto simp: ident_def split: list.splits)
  have ne: "s \<noteq> []" "nm \<noteq> []" using assms(7) c(1) by simp_all
  have last: "last s \<noteq> NL"
    using \<open>plain_word s\<close> last_in_set [OF ne(1)] by (auto simp: list_all_iff plain_char_def word_gap_def)
  have "env_name_start (uc (CHR ''#'')) = False" "env_name_start (uc NL) = False" "env_name_start (uc NUL) = False"
    "env_name_start (uc (CHR '' '')) = False" "env_name_start (uc TAB) = False"
    by (simp_all add: env_name_start_def uc_def)
  then have c': "c \<noteq> CHR ''#''" "c \<noteq> NL" "c \<noteq> NUL" "c \<noteq> CHR '' ''" "c \<noteq> TAB"
    using c(2) by blast+
  have ctl: "\<not> line_has_control_operator (s @ [NL])"
    using ctl_plain [OF \<open>plain_word s\<close>, of "[NL]"] by (simp add: line_has_control_operator_def ctl_step)
  have set: "env_set (sh_env st) nm v = (fst (env_set (sh_env st) nm v), 0)"
    using sh_env.put_succeeds [of "sh_env st" nm v] assms ident_cstring
    by (auto simp: env_name_ok_def plain_cstring prod_eq_iff)
  then have "env_set_assignment (sh_env st) s = (fst (env_set (sh_env st) nm v), 0)"
    using assms(2,3) assignment_name_len_word [OF assms(2), of v] ne(2)
    by (simp add: env_set_assignment_def assms(7))
  then have "assign_words [s] st = st\<lparr>sh_env := fst (env_set (sh_env st) nm v)\<rparr>"
    by simp
  moreover have "is_env_assignment_word s"
    using assms(2,7) is_env_assignment_word_iff by blast
  ultimately have "run_assignment_only_line (s @ [NL]) st = (True, st\<lparr>sh_env := fst (env_set (sh_env st) nm v)\<rparr>)"
    using len gap_words_one [OF \<open>plain_word s\<close> ne(1)] by (simp add: run_assignment_only_line_def)
  then have "run_builtin cd_ok pid (s @ [NL]) st = Some (Ret 0, st\<lparr>sh_env := fst (env_set (sh_env st) nm v)\<rparr>)"
    by (simp add: run_builtin_def)
  moreover have "deref (dropWhile (\<lambda>c. c = CHR '' '' \<or> c = TAB) (s @ [NL])) = c"
    using c' by (simp add: assms(7) c(1))
  ultimately show ?thesis
    using assms(8) ne last len ctl c' by (auto simp: run_line_def Let_def)
qed

lemma run_line_echo:
  assumes "env_get (sh_env st) nm = Some v" "ident nm" "length nm < MAX_ENV_NAME" "length v < out_cap"
    and "s = ''echo $'' @ nm" "s' \<in> {s, s @ [NL]}"
  shows "run_line cd_ok pid interactive s' st = (Ret 0, log (Out (v @ [NL])) st)"
proof -
  have p: "plain_word ''echo''" "plain_word (CHR ''$'' # nm)"
    using ident_plain [OF assms(2)] by (simp_all add: plain_char_def word_gap_def)
  have last: "last s \<noteq> NL"
    using p(2) last_in_set [of "CHR ''$'' # nm"] assms(5) by (auto simp: list_all_iff plain_char_def word_gap_def)
  have ctl: "\<not> line_has_control_operator (s @ [NL])"
    using ctl_plain [OF p(1), of "'' '' @ CHR ''$'' # nm @ [NL]"] ctl_plain [OF p(2), of "[NL]"]
    by (simp add: line_has_control_operator_def ctl_step assms(5))
  have "\<exists>ws. gap_words s1 = ''echo'' # ws" if "s1 = ''echo'' @ '' '' @ t" for s1 t
    using that by (subst gap_words.simps) (simp add: word_gap_def)
  then obtain ws where "gap_words (s @ [NL]) = ''echo'' # ws"
    using assms(5) by auto
  moreover have "\<not> is_env_assignment_word ''echo''"
    by (simp add: is_env_assignment_word_def env_assignment_name_len_def)
  ultimately have "run_assignment_only_line (s @ [NL]) st = (False, st)"
    using assms(3,5) by (simp add: run_assignment_only_line_def)
  moreover have "expand_env_vars (sh_env st) pid (CHR ''$'' # nm) = (v, False)"
    using expand_var_at_end [OF assms(2,3,1), of "[]" pid] assms(4) by (simp add: out_cap_def)
  moreover have "strncmp_local (''echo $'' @ t) ''history'' 7 \<noteq> 0" "strncmp_local (''echo $'' @ t) ''env'' 3 \<noteq> 0"
    "strncmp_local (''echo $'' @ t) ''export '' 7 \<noteq> 0" "strncmp_local (''echo $'' @ t) ''unset '' 6 \<noteq> 0"
    "strncmp_local (''echo $'' @ t) ''echo '' 5 = 0" for t
    by (simp_all add: numeral_eq_Suc)
  ultimately have "run_builtin cd_ok pid (s @ [NL]) st = Some (Ret 0, log (Out (v @ [NL])) st)"
    by (simp add: run_builtin_def is_word_line_def run_echo_def assms(5))
  then show ?thesis
    using assms(3,5,6) last ctl by (auto simp: run_line_def Let_def)
qed

text \<open>
  A variable set on one line of a script is seen by the next: the script that assigns a plain value
  to a name and then echoes the variable prints the value, whatever the shell's table held before, as
  long as it has room.
\<close>

theorem script_set_then_echo:
  assumes "env_ok (sh_env st)" "env_get (sh_env st) nm \<noteq> None \<or> 0 < env_free (sh_env st)"
    and "ident nm" "length nm < MAX_ENV_NAME" "plain_word v" "length v < MAX_ENV_VALUE"
  shows "\<exists>t. run_script cd_ok pid path (Some (nm @ ''='' @ v @ [NL] @ ''echo $'' @ nm @ [NL])) st =
    (Ret 0, log (Out (v @ [NL])) (st\<lparr>sh_env := t\<rparr>)) \<and> env_get t nm = Some v"
proof -
  define s1 s2 where "s1 = nm @ CHR ''='' # v" and "s2 = ''echo $'' @ nm"
  define st1 where "st1 = st\<lparr>sh_env := fst (env_set (sh_env st) nm v)\<rparr>"
  have nm: "plain_word nm" "env_name_ok nm" "cstring v"
    using assms(3-5) by (simp_all add: ident_plain env_name_ok_def ident_cstring plain_cstring)
  then have plain: "c \<noteq> NL \<and> c \<noteq> NUL" if "c \<in> set (s1 @ s2)" for c
    using that assms(5) by (auto simp: s1_def s2_def list_all_iff plain_char_def word_gap_def)
  have get: "env_get (sh_env st1) nm = Some v"
    using sh_env.get_put [OF assms(1) nm(2,3), of nm] sh_env.put_succeeds [OF assms(1) nm(2,3)] assms(2,3,6)
    by (simp add: st1_def ident_cstring)
  have l1: "run_line cd_ok pid False s1 st = (Ret 0, st1)"
    unfolding st1_def using assms by (intro run_line_assignment) (auto simp: s1_def)
  have l2: "run_line cd_ok pid False s2 st1 = (Ret 0, log (Out (v @ [NL])) st1)"
    using get assms by (intro run_line_echo) (auto simp: s2_def out_cap_def)
  have line: "takeWhile (\<lambda>c. c \<noteq> NL) (s @ NL # r) = s" "dropWhile (\<lambda>c. c \<noteq> NL) (s @ NL # r) = NL # r"
    if "set s \<subseteq> set (s1 @ s2)" for s r
    using that plain by (auto simp: takeWhile_tail dropWhile_append)
  have len: "length s1 < 400" "length s2 < 400"
    using assms(4,6) by (simp_all add: s1_def s2_def)
  have "script_loop cd_ok pid (s1 @ NL # s2 @ [NL]) st = (Ret 0, log (Out (v @ [NL])) st1)"
    using l1 l2 len line [of s1] line [of s2] by (simp add: script_loop.simps [of _ _ "_ @ _"] Let_def)
      (simp add: script_loop.simps [of _ _ "[]"])
  moreover have "\<forall>c\<in>set (s1 @ NL # s2 @ [NL]). c \<noteq> NUL" using plain by auto
  then have "takeWhile (\<lambda>c. c \<noteq> NUL) (s1 @ NL # s2 @ [NL]) = s1 @ NL # s2 @ [NL]"
    by (simp only: takeWhile_eq_all_conv)
  ultimately have "run_script cd_ok pid path (Some (s1 @ NL # s2 @ [NL])) st = (Ret 0, log (Out (v @ [NL])) st1)"
    using len by (simp add: run_script_def)
  then show ?thesis
    using get by (intro exI [of _ "sh_env st1"]) (simp add: s1_def s2_def st1_def)
qed

theorem script_set_then_echo_witness:
  "\<exists>t. run_script (\<lambda>d. True) ''1'' ''f'' (Some (''A'' @ ''='' @ ''hi'' @ [NL] @ ''echo $'' @ ''A'' @ [NL]))
     \<lparr>sh_env = env_blank, sh_log = []\<rparr> =
   (Ret 0, log (Out (''hi'' @ [NL])) \<lparr>sh_env = t, sh_log = []\<rparr>) \<and> env_get t ''A'' = Some ''hi''"
proof -
  have "ident ''A''" "plain_word ''hi''"
    by (simp_all add: ident_def env_name_start_def uc_def plain_char_def word_gap_def)
  then show ?thesis
    using script_set_then_echo [of "\<lparr>sh_env = env_blank, sh_log = []\<rparr>" "''A''" "''hi''" "\<lambda>d. True" "''1''" "''f''"]
    by simp
qed

subsection \<open>The table survives every line\<close>

text \<open>What memory safety of the table's readers needs: 64 slots whose used names and values are terminated and fit.\<close>

definition env_fits :: "env \<Rightarrow> bool" where
  "env_fits t \<longleftrightarrow> length t = MAX_ENV_VARS \<and> list_all (\<lambda>v. ev_used v \<longrightarrow> slot_ok v) t"

lemma env_fits_blank: "env_fits env_blank" "\<not> list_all ev_used env_blank"
  by (simp_all add: env_fits_def env_blank_def list_all_iff)

abbreviation slots_fit :: "env \<Rightarrow> bool" where
  "slots_fit t \<equiv> list_all (\<lambda>v. ev_used v \<longrightarrow> slot_ok v) t"

lemma env_update_fits:
  "slots_fit t \<Longrightarrow> cstring val \<Longrightarrow> env_update t nm val = Some t' \<Longrightarrow> slots_fit t' \<and> length t' = length t"
  by (induction t arbitrary: t') (auto simp: slot_ok_def length_clip split: if_splits)

lemma env_insert_fits:
  "slots_fit t \<Longrightarrow> cstring nm \<Longrightarrow> cstring val \<Longrightarrow> env_insert t nm val = Some t' \<Longrightarrow>
   slots_fit t' \<and> length t' = length t"
  by (induction t arbitrary: t') (auto simp: slot_ok_def length_clip split: if_splits)

lemma env_set_fits: "env_fits t \<Longrightarrow> cstring nm \<Longrightarrow> cstring val \<Longrightarrow> env_fits (fst (env_set t nm val))"
proof -
  assume h: "env_fits t" "cstring nm" "cstring val"
  then have t: "slots_fit t" "length t = MAX_ENV_VARS" by (simp_all add: env_fits_def)
  show ?thesis
  proof (cases "env_update t nm val")
    case (Some t')
    then show ?thesis using env_update_fits [OF t(1) h(3) Some] t(2) by (simp add: env_set_def env_fits_def)
  next
    case None
    show ?thesis
    proof (cases "env_insert t nm val")
      case (Some t')
      then show ?thesis using env_insert_fits [OF t(1) h(2,3) Some] t(2) None by (simp add: env_set_def env_fits_def)
    qed (use h None in \<open>simp add: env_set_def\<close>)
  qed
qed

lemma env_unset_fits: "env_fits t \<Longrightarrow> env_fits (fst (env_unset t nm))"
proof -
  have "slots_fit t \<Longrightarrow> slots_fit (fst (env_unset t nm)) \<and> length (fst (env_unset t nm)) = length t"
    by (induction t) (auto split: prod.splits)
  then show "env_fits t \<Longrightarrow> env_fits (fst (env_unset t nm))" by (simp add: env_fits_def)
qed

lemma env_set_assignment_fits: "env_fits t \<Longrightarrow> cstring a \<Longrightarrow> env_fits (fst (env_set_assignment t a))"
  by (simp add: env_set_assignment_def Let_def env_set_fits)

lemma gap_words_cstring: "cstring s \<Longrightarrow> list_all cstring (gap_words s)"
proof (induction s rule: gap_words.induct)
  case (1 s)
  then have "cstring (takeWhile P (dropWhile Q s))" "cstring (dropWhile P (dropWhile Q s))" for P Q
    by (simp_all add: cstring_parts)
  with "1.IH" show ?case
    by (subst gap_words.simps) (simp add: Let_def)
qed

lemma assign_words_fits:
  "env_fits (sh_env st) \<Longrightarrow> list_all cstring ws \<Longrightarrow> env_fits (sh_env (assign_words ws st))"
proof (induction ws arbitrary: st)
  case (Cons w ws)
  obtain t r where r: "env_set_assignment (sh_env st) w = (t, r)" by (cases "env_set_assignment (sh_env st) w")
  then have "env_fits t" using env_set_assignment_fits [of "sh_env st" w] Cons.prems by simp
  then show ?case using r Cons.IH Cons.prems by (simp add: log_def)
qed simp

lemma log_env [simp]: "sh_env (log ev st) = sh_env st"
  by (simp add: log_def)

lemma strip_quotes_cstring: "cstring v \<Longrightarrow> cstring (strip_quotes v)"
  by (simp add: strip_quotes_def cstring_parts)

lemma strchr_cstring: "strchr s c = Some t \<Longrightarrow> cstring s \<Longrightarrow> cstring t"
  by (induction s) (auto split: if_splits)

lemma run_export_fits:
  assumes "env_fits (sh_env st)" "cstring buf" shows "env_fits (sh_env (snd (run_export buf st)))"
proof -
  define arg where "arg = dropWhile (\<lambda>c. c = CHR '' '') (drop 7 (butlast buf))"
  have arg: "cstring arg"
    using assms(2) unfolding arg_def by (simp add: cstring_parts)
  show ?thesis
  proof (cases "strchr arg (CHR ''='')")
    case None
    then show ?thesis using assms(1) unfolding run_export_def arg_def [symmetric] Let_def None by simp
  next
    case (Some eq)
    obtain t r where r: "env_set (sh_env st) (take (length arg - length eq) arg) (strip_quotes (tl eq)) = (t, r)"
      by fastforce
    then have "env_fits t"
      using env_set_fits [OF assms(1), of "take (length arg - length eq) arg" "strip_quotes (tl eq)"] arg
        strchr_cstring [OF Some arg] by (simp add: strip_quotes_cstring cstring_parts)
    then show ?thesis
      using r Some by (simp add: run_export_def arg_def [symmetric] Let_def)
  qed
qed

lemma run_line_fits:
  assumes "env_fits (sh_env st)" "cstring buf"
  shows "env_fits (sh_env (snd (run_line cd_ok pid interactive buf st)))"
proof -
  have builtin: "env_fits (sh_env (snd res))" if "run_builtin cd_ok pid b st = Some res" "cstring b" for b res
  proof -
    have "env_fits (sh_env (snd (run_assignment_only_line b st)))"
      using assms(1) that(2)
      by (auto simp: run_assignment_only_line_def Let_def intro!: assign_words_fits gap_words_cstring)
    moreover have "sh_env (snd (run_cd cd_ok pid b st)) = sh_env st" "sh_env (snd (run_ls b st)) = sh_env st"
      "sh_env (snd (run_echo pid b st)) = sh_env st"
      by (auto simp: run_cd_def run_ls_def run_echo_def Let_def split: prod.splits)
    ultimately show ?thesis
      using that run_export_fits [OF assms(1) that(2)] env_unset_fits [OF assms(1)] assms(1)
      unfolding run_builtin_def by (auto simp: run_unset_def split: prod.splits if_splits)
  qed
  have external: "sh_env (snd (run_external pid interactive b st)) = sh_env st" for b
    by (auto simp: run_external_def split: prod.splits parse.splits option.splits)
  define b where "b = (if 0 < length buf \<and> last buf \<noteq> NL then buf @ [NL] else buf)"
  have "cstring b" using assms(2) by (simp add: b_def)
  then show ?thesis
    using assms(1) builtin [of b] external [of b] unfolding run_line_def b_def [symmetric] Let_def
    by (auto split: option.splits)
qed

lemma script_loop_fits:
  "env_fits (sh_env st) \<Longrightarrow> cstring s \<Longrightarrow> env_fits (sh_env (snd (script_loop cd_ok pid s st)))"
proof (induction cd_ok pid s st rule: script_loop.induct)
  case (1 cd_ok pid s st)
  let ?line = "takeWhile (\<lambda>c. c \<noteq> NL) s"
  obtain res st' where r: "run_line cd_ok pid False (clip 1024 ?line) st = (res, st')"
    by fastforce
  then have st': "env_fits (sh_env st')"
    using run_line_fits [OF "1.prems"(1), of "clip 1024 ?line" cd_ok pid False] "1.prems"(2)
    by (simp add: cstring_parts)
  show ?case
  proof (cases res)
    case (Ret n)
    have "cstring (tl (dropWhile (\<lambda>c. c \<noteq> NL) s))"
      using "1.prems"(2) by (simp add: cstring_parts)
    then show ?thesis
      using "1.IH" r Ret st' "1.prems"(1) by (subst script_loop.simps) (simp add: Let_def)
  qed (subst script_loop.simps, use r st' "1.prems"(1) in \<open>simp add: Let_def\<close>)
qed

text \<open>
  C20. Whatever the bytes of a script, and whichever of its lines run, fail or stop it, the environment
  table is left with its 64 slots, every used one holding a terminated name of at most 63 bytes and a
  terminated value of at most 255: the invariant that all readers of the table rely on.
\<close>

theorem run_script_keeps_table:
  assumes "env_fits (sh_env st)"
  shows "env_fits (sh_env (snd (run_script cd_ok pid path contents st)))"
proof (cases contents)
  case (Some s)
  have "cstring (takeWhile (\<lambda>c. c \<noteq> NUL) (take 16383 s))"
    by (auto simp: cstring_def dest: set_takeWhileD)
  then show ?thesis
    using Some script_loop_fits [OF assms] by (simp add: run_script_def)
qed (simp add: run_script_def assms)

theorem run_script_keeps_table_witness:
  "env_fits (sh_env (snd (run_script (\<lambda>d. False) ''1'' ''f'' (Some [CHR ''a'', CHR ''='', CHR 0xff, NL, NUL])
     \<lparr>sh_env = env_blank, sh_log = []\<rparr>)))"
  by (rule run_script_keeps_table) (simp add: env_fits_blank)

text \<open>
  A name of 64 bytes or more is accepted and lost: \<open>env_set\<close> reports success as long as a slot is
  free and stores the value under the cut name, so \<open>env_get\<close> of the name finds nothing, and setting
  it again takes another slot each time.
\<close>

theorem env_set_long_name_lost:
  assumes "env_fits t" "cstring nm" "MAX_ENV_NAME \<le> length nm" "cstring v" "\<not> list_all ev_used t"
  shows "snd (env_set t nm v) = 0 \<and> env_get (fst (env_set t nm v)) nm = None \<and>
    length (filter ev_used (fst (env_set t nm v))) = Suc (length (filter ev_used t))"
proof -
  have none: "env_get t nm = None \<and> env_update t nm v = None" if "slots_fit t" for t
    using that assms(2,3) by (induction t) (auto simp: slot_ok_def)
  have ins: "\<exists>t'. env_insert t nm v = Some t' \<and> length (filter ev_used t') = Suc (length (filter ev_used t))"
    if "\<not> list_all ev_used t" for t
    using that by (induction t) auto
  obtain t' where t': "env_insert t nm v = Some t'" "length (filter ev_used t') = Suc (length (filter ev_used t))"
    using ins [OF assms(5)] by blast
  have fits: "slots_fit t" using assms(1) by (simp add: env_fits_def)
  then have "slots_fit t'" using env_insert_fits [OF _ assms(2,4) t'(1)] by simp
  then show ?thesis
    using none [OF fits] none [of t'] t' by (simp add: env_set_def)
qed

theorem env_set_long_name_lost_witness:
  "env_get (fst (env_set env_blank (replicate 64 (CHR ''A'')) ''x'')) (replicate 64 (CHR ''A'')) = None"
  using env_set_long_name_lost [of env_blank "replicate 64 (CHR ''A'')" "''x''"]
    env_fits_blank by (simp add: cstring_def)

end
