(* ===== verification/Printf.thy ===== *)
theory Printf
  imports Ulib
begin

section \<open>printf.c: formatted output\<close>

text \<open>
  \<open>vprintf\<close> writes to a descriptor through a buffer of 256 bytes, \<open>vsnprintf\<close> into a buffer of the
  caller; both parse the format in the same way.  The argument list is a list of tagged values, as
  they lie in the registers of the calling convention: reading one with the wrong type, reading
  past the last one, and reading past the terminator of the format are undefined, and \<^const>\<open>None\<close> here.
  What \<open>vprintf\<close> hands to \<open>puts_n\<close> is the list of the chunks in order; \<open>puts_n\<close> is modelled over a
  parameter for the system call \<open>write\<close>.
\<close>

subsection \<open>puts\_n\<close>

text \<open>\<open>wr k n\<close> is what the \<open>k\<close>th call of \<open>write\<close> returns when it is given \<open>n\<close> bytes.\<close>

type_synonym write_fn = "nat \<Rightarrow> nat \<Rightarrow> int"

function puts_n :: "write_fn \<Rightarrow> string \<Rightarrow> nat \<Rightarrow> string \<Rightarrow> nat \<times> string" where
  "puts_n wr s k out =
     (if s = [] then (k, out)
      else
        let ret = wr k (length s) in
        if ret \<le> 0 then (Suc k, out)
        else puts_n wr (drop (nat ret) s) (Suc k) (out @ take (nat ret) s))"
  by pat_completeness auto
termination
  by (relation "measure (\<lambda>(wr, s, k, out). length s)") auto

declare puts_n.simps [simp del]

fun puts_all :: "write_fn \<Rightarrow> string list \<Rightarrow> nat \<times> string \<Rightarrow> nat \<times> string" where
  "puts_all wr [] st = st"
| "puts_all wr (s # ss) st = puts_all wr ss (puts_n wr s (fst st) (snd st))"

subsection \<open>Flags, numbers, digits\<close>

text \<open>The bits of \<open>flags\<close>: \<open>|=\<close> is insertion, \<open>& ~\<close> removal, a non-zero \<open>&\<close> membership.\<close>

datatype flag = LEFT | PLUS | SPACE | HASH | ZERO | UPPER

fun parse_flags :: "string \<Rightarrow> flag set \<Rightarrow> string \<times> flag set" where
  "parse_flags [] flags = ([], flags)"
| "parse_flags (c # fmt) flags =
     (if c = CHR ''-'' then parse_flags fmt (insert LEFT flags)
      else if c = CHR ''+'' then parse_flags fmt (insert PLUS flags)
      else if c = CHR '' '' then parse_flags fmt (insert SPACE flags)
      else if c = CHR ''#'' then parse_flags fmt (insert HASH flags)
      else if c = CHR ''0'' then parse_flags fmt (insert ZERO flags)
      else (c # fmt, flags))"

datatype arg = VInt "32 word" | VLong "64 word" | VStr "string option"

definition number_step :: "32 word \<Rightarrow> char \<Rightarrow> 32 word" where
  "number_step n c = n * 10 + word_of_int (sc c - 48)"

fun number_loop :: "string \<Rightarrow> 32 word \<Rightarrow> string \<times> 32 word" where
  "number_loop [] n = ([], n)"
| "number_loop (c # fmt) n =
     (if is_digit c then number_loop fmt (number_step n c) else (c # fmt, n))"

text \<open>\<open>parse_number\<close>: the rest of the format, the number, the rest of the arguments.\<close>

definition parse_number :: "string \<Rightarrow> arg list \<Rightarrow> (string \<times> int \<times> arg list) option" where
  "parse_number fmt args =
     (case fmt of
        [] \<Rightarrow> Some ([], 0, args)
      | c # rest \<Rightarrow>
          if c = CHR ''*'' then (case args of VInt w # args \<Rightarrow> Some (rest, sint w, args) | _ \<Rightarrow> None)
          else (case number_loop fmt 0 of (rest, n) \<Rightarrow> Some (rest, sint n, args)))"

definition digits_lower :: string where "digits_lower = ''0123456789abcdef''"
definition digits_upper :: string where "digits_upper = ''0123456789ABCDEF''"

text \<open>The digits in reverse, into the \<open>k\<close> bytes that are left of \<open>tmp\<close>.\<close>

fun gen_digits :: "nat \<Rightarrow> string \<Rightarrow> nat \<Rightarrow> nat \<Rightarrow> string option" where
  "gen_digits 0 dig base uval = None"
| "gen_digits (Suc k) dig base uval =
     (if uval div base = 0 then Some [dig ! (uval mod base)]
      else map_option ((#) (dig ! (uval mod base))) (gen_digits k dig base (uval div base)))"

definition format_int :: "64 word \<Rightarrow> nat \<Rightarrow> bool \<Rightarrow> flag set \<Rightarrow> string option" where
  "format_int val base is_signed flags =
     (let dig = (if UPPER \<in> flags then digits_upper else digits_lower);
          neg = (is_signed \<and> sint val < 0);
          uval = unat (if neg then - val else val);
          sign = (if neg then ''-'' else if is_signed \<and> PLUS \<in> flags then ''+''
                  else if is_signed \<and> SPACE \<in> flags then '' '' else [])
      in map_option (\<lambda>tmp.
           sign @
           (if HASH \<in> flags \<and> base = 16 then (if UPPER \<in> flags then ''0X'' else ''0x'')
            else if HASH \<in> flags \<and> base = 8 \<and> last tmp \<noteq> CHR ''0'' then ''0'' else []) @
           rev tmp) (gen_digits 32 dig base uval))"

fun ptr_digits :: "nat \<Rightarrow> 64 word \<Rightarrow> string" where
  "ptr_digits 0 x = []"
| "ptr_digits (Suc n) x = digits_lower ! unat (drop_bit 60 x) # ptr_digits n (push_bit 4 x)"

definition format_ptr :: "64 word \<Rightarrow> string" where
  "format_ptr x = ''0x'' @ ptr_digits 16 x"

subsection \<open>One directive\<close>

text \<open>What stands between the percent sign and the conversion character.\<close>

record directive =
  d_flags :: "flag set"
  d_width :: int
  d_prec :: int
  d_long :: nat

definition parse_precision :: "string \<Rightarrow> arg list \<Rightarrow> (string \<times> int \<times> arg list) option" where
  "parse_precision fmt args =
     (case fmt of
        c # rest \<Rightarrow>
          if c = CHR ''.''
          then map_option (\<lambda>(fmt, p, args). (fmt, if p < 0 then 0 else p, args)) (parse_number rest args)
          else Some (fmt, -1, args)
      | [] \<Rightarrow> Some (fmt, -1, args))"

definition parse_length :: "string \<Rightarrow> string \<times> nat" where
  "parse_length fmt =
     (if deref fmt = CHR ''l''
      then (if deref (tl fmt) = CHR ''l'' then (drop 2 fmt, 2) else (tl fmt, 1))
      else if deref fmt = CHR ''h''
      then (if deref (tl fmt) = CHR ''h'' then (drop 2 fmt, 0) else (tl fmt, 0))
      else if deref fmt = CHR ''z'' then (tl fmt, 1)
      else (fmt, 0))"

definition parse_directive :: "string \<Rightarrow> arg list \<Rightarrow> (string \<times> directive \<times> arg list) option" where
  "parse_directive fmt args = do {
     let (fmt, flags) = parse_flags fmt {};
     (fmt, width, args) \<leftarrow> parse_number fmt args;
     (fmt, prec, args) \<leftarrow> parse_precision fmt args;
     let (fmt, is_long) = parse_length fmt;
     Some (fmt, \<lparr>d_flags = flags, d_width = width, d_prec = prec, d_long = is_long\<rparr>, args)
   }"

text \<open>\<open>va_arg\<close> of a number: the value as \<open>long long\<close>, or as \<open>unsigned long long\<close>.\<close>

fun take_number :: "nat \<Rightarrow> bool \<Rightarrow> arg list \<Rightarrow> (64 word \<times> arg list) option" where
  "take_number is_long is_signed (VInt w # args) =
     (if is_long = 0 then Some (if is_signed then scast w else ucast w, args) else None)"
| "take_number is_long is_signed (VLong w # args) = (if is_long = 0 then None else Some (w, args))"
| "take_number is_long is_signed _ = None"

fun take_ptr :: "arg list \<Rightarrow> (64 word \<times> arg list) option" where
  "take_ptr (VLong w # args) = Some (w, args)"
| "take_ptr _ = None"

fun take_str :: "arg list \<Rightarrow> (string \<times> arg list) option" where
  "take_str (VStr s # args) = Some (case s of None \<Rightarrow> ''(null)'' | Some s \<Rightarrow> s, args)"
| "take_str _ = None"

fun take_char :: "arg list \<Rightarrow> (char \<times> arg list) option" where
  "take_char (VInt w # args) = Some (to_char (uint w), args)"
| "take_char _ = None"

text \<open>The number that a conversion character asks for, formatted: base, sign, case.\<close>

definition number_text :: "char \<Rightarrow> directive \<Rightarrow> arg list \<Rightarrow> (string \<times> arg list) option" where
  "number_text c d args =
     (let fl = (if c = CHR ''x'' then d_flags d - {UPPER}
                else if c = CHR ''X'' then insert UPPER (d_flags d) else d_flags d);
          is_signed = (c = CHR ''d'' \<or> c = CHR ''i'');
          base = (if c = CHR ''x'' \<or> c = CHR ''X'' then 16 else if c = CHR ''o'' then 8 else 10)
      in do {
        (val, args) \<leftarrow> take_number (d_long d) is_signed args;
        s \<leftarrow> format_int val base is_signed fl;
        Some (s, args)
      })"

definition pad_len :: "int \<Rightarrow> string \<Rightarrow> nat" where
  "pad_len width s = (if int (length s) < width then nat (width - int (length s)) else 0)"

definition cut :: "int \<Rightarrow> string \<Rightarrow> string" where
  "cut prec s = (if 0 \<le> prec \<and> prec < int (length s) then take (nat prec) s else s)"

text \<open>The sign or the hexadecimal prefix that comes before zero padding.\<close>

definition prefix_len :: "string \<Rightarrow> nat" where
  "prefix_len s =
     (if deref s \<in> {CHR ''-'', CHR ''+'', CHR '' ''} then 1
      else if 2 \<le> length s \<and> s ! 0 = CHR ''0'' \<and> (s ! 1 = CHR ''x'' \<or> s ! 1 = CHR ''X'') then 2
      else 0)"

definition zero_padded :: "directive \<Rightarrow> string \<Rightarrow> bool" where
  "zero_padded d s \<longleftrightarrow> ZERO \<in> d_flags d \<and> LEFT \<notin> d_flags d \<and> 0 < length s"

definition numeric :: "char \<Rightarrow> bool" where
  "numeric c \<longleftrightarrow> c \<in> set ''diuxXo''"

subsection \<open>vprintf\<close>

definition vp_padded :: "directive \<Rightarrow> string \<Rightarrow> string list" where
  "vp_padded d s =
     (let pad = replicate (pad_len (d_width d) s) '' '' in
      (if LEFT \<notin> d_flags d then pad else []) @ [s] @ (if LEFT \<in> d_flags d then pad else []))"

definition vp_number :: "directive \<Rightarrow> string \<Rightarrow> string list" where
  "vp_number d s =
     (if zero_padded d s
      then (if prefix_len s = 0 then [] else [take (prefix_len s) s]) @
           replicate (pad_len (d_width d) s) ''0'' @ [drop (prefix_len s) s]
      else vp_padded d s)"

text \<open>The chunks that are written at once, what goes into the buffer, the rest of the arguments.\<close>

definition vp_directive :: "char \<Rightarrow> directive \<Rightarrow> arg list \<Rightarrow> (string list \<times> string \<times> arg list) option" where
  "vp_directive c d args =
     (if numeric c then map_option (\<lambda>(s, args). (vp_number d s, [], args)) (number_text c d args)
      else if c = CHR ''p'' then map_option (\<lambda>(x, args). (vp_padded d (format_ptr x), [], args)) (take_ptr args)
      else if c = CHR ''s'' then map_option (\<lambda>(s, args). (vp_padded d (cut (d_prec d) s), [], args)) (take_str args)
      else if c = CHR ''c'' then map_option (\<lambda>(x, args). (vp_padded d [x], [], args)) (take_char args)
      else if c = CHR ''%'' then Some ([], ''%'', args)
      else if c = CHR ''n'' then Some ([], [], args)
      else Some ([], [CHR ''%'', c], args))"

definition buf_put :: "string \<Rightarrow> string \<Rightarrow> string option" where
  "buf_put buf s = (if length buf + length s \<le> 256 then Some (buf @ s) else None)"

definition flush :: "bool \<Rightarrow> string \<Rightarrow> string list \<Rightarrow> string \<times> string list" where
  "flush p buf chunks = (if p then ([], chunks @ [buf]) else (buf, chunks))"

lemma parse_flags_le: "parse_flags fmt fl = (r, fl') \<Longrightarrow> length r \<le> length fmt"
  by (induction fmt fl rule: parse_flags.induct) (auto split: if_splits)

lemma number_loop_le: "number_loop fmt n = (r, n') \<Longrightarrow> length r \<le> length fmt"
  by (induction fmt n rule: number_loop.induct) (auto split: if_splits)

lemma parse_number_le: "parse_number fmt args = Some (r, n, as) \<Longrightarrow> length r \<le> length fmt"
  by (auto simp: parse_number_def split: list.splits if_splits arg.splits prod.splits dest: number_loop_le)

lemma parse_precision_le: "parse_precision fmt args = Some (r, n, as) \<Longrightarrow> length r \<le> length fmt"
  by (auto simp: parse_precision_def split: list.splits if_splits dest: parse_number_le)

lemma parse_length_le: "parse_length fmt = (r, l) \<Longrightarrow> length r \<le> length fmt"
  by (auto simp: parse_length_def split: if_splits)

lemma parse_directive_le: "parse_directive fmt args = Some (r, d, as) \<Longrightarrow> length r \<le> length fmt"
  by (auto simp: parse_directive_def split: prod.splits bind_splits
      dest!: parse_flags_le parse_number_le parse_precision_le parse_length_le)

function vprintf_loop :: "string \<Rightarrow> arg list \<Rightarrow> string \<Rightarrow> string list \<Rightarrow> string list option" where
  "vprintf_loop [] args buf chunks = Some (snd (flush (buf \<noteq> []) buf chunks))"
| "vprintf_loop (c # fmt) args buf chunks =
     (let (buf, chunks) = flush (240 \<le> length buf) buf chunks in
      if c \<noteq> CHR ''%'' then (case buf_put buf [c] of None \<Rightarrow> None | Some buf \<Rightarrow> vprintf_loop fmt args buf chunks)
      else if fmt = [] then Some (snd (flush (buf \<noteq> []) buf chunks))
      else case parse_directive fmt args of
        Some (c # fmt', d, args) \<Rightarrow>
          let (buf, chunks) = flush (buf \<noteq> []) buf chunks in
          (case vp_directive c d args of
             None \<Rightarrow> None
           | Some (cs, t, args) \<Rightarrow>
               (case buf_put buf t of None \<Rightarrow> None | Some buf \<Rightarrow> vprintf_loop fmt' args buf (chunks @ cs)))
      | _ \<Rightarrow> None)"
  by pat_completeness auto
termination
  by (relation "measure (\<lambda>(fmt, args, buf, chunks). length fmt)") (auto dest: parse_directive_le)

definition vprintf :: "string \<Rightarrow> arg list \<Rightarrow> string list option" where
  "vprintf fmt args = vprintf_loop fmt args [] []"

subsection \<open>vsnprintf\<close>

text \<open>\<open>for (p = 0; p < n && out < end; p++) *out++ = s[p]\<close>, with \<open>room\<close> bytes up to \<open>end\<close>.\<close>

fun put_loop :: "nat \<Rightarrow> string \<Rightarrow> string \<Rightarrow> string" where
  "put_loop room out [] = out"
| "put_loop room out (c # s) = (if length out < room then put_loop room (out @ [c]) s else out)"

definition vs_padded :: "nat \<Rightarrow> directive \<Rightarrow> string \<Rightarrow> string \<Rightarrow> string" where
  "vs_padded room d s out =
     (let pad = replicate (pad_len (d_width d) s) (CHR '' '');
          out = (if LEFT \<notin> d_flags d then put_loop room out pad else out);
          out = put_loop room out s
      in if LEFT \<in> d_flags d then put_loop room out pad else out)"

definition vs_number :: "nat \<Rightarrow> directive \<Rightarrow> string \<Rightarrow> string \<Rightarrow> string" where
  "vs_number room d s out =
     (if zero_padded d s
      then put_loop room (put_loop room (put_loop room out (take (prefix_len s) s))
             (replicate (pad_len (d_width d) s) (CHR ''0''))) (drop (prefix_len s) s)
      else vs_padded room d s out)"

text \<open>The argument of \<^verbatim>\<open>%c\<close> is only read when there is room for it.\<close>

definition vs_char :: "nat \<Rightarrow> directive \<Rightarrow> arg list \<Rightarrow> string \<Rightarrow> (string \<times> arg list) option" where
  "vs_char room d args out =
     (let pad = replicate (if 1 < d_width d then nat (d_width d - 1) else 0) (CHR '' '');
          out = (if LEFT \<notin> d_flags d then put_loop room out pad else out)
      in map_option (\<lambda>(out, args). (if LEFT \<in> d_flags d then put_loop room out pad else out, args))
           (if length out < room then map_option (\<lambda>(x, args). (out @ [x], args)) (take_char args)
            else Some (out, args)))"

definition vs_directive :: "nat \<Rightarrow> char \<Rightarrow> directive \<Rightarrow> arg list \<Rightarrow> string \<Rightarrow> (string \<times> arg list) option" where
  "vs_directive room c d args out =
     (if numeric c then map_option (\<lambda>(s, args). (vs_number room d s out, args)) (number_text c d args)
      else if c = CHR ''p'' then map_option (\<lambda>(x, args). (vs_padded room d (format_ptr x) out, args)) (take_ptr args)
      else if c = CHR ''s'' then map_option (\<lambda>(s, args). (vs_padded room d (cut (d_prec d) s) out, args)) (take_str args)
      else if c = CHR ''c'' then vs_char room d args out
      else if c = CHR ''%'' then Some (put_loop room out ''%'', args)
      else Some (put_loop room out [CHR ''%'', c], args))"

function vsnprintf_loop :: "nat \<Rightarrow> string \<Rightarrow> arg list \<Rightarrow> string \<Rightarrow> string option" where
  "vsnprintf_loop room [] args out = Some out"
| "vsnprintf_loop room (c # fmt) args out =
     (if \<not> length out < room then Some out
      else if c \<noteq> CHR ''%'' then vsnprintf_loop room fmt args (out @ [c])
      else if fmt = [] then Some out
      else case parse_directive fmt args of
        Some (c # fmt', d, args) \<Rightarrow>
          (case vs_directive room c d args out of
             None \<Rightarrow> None
           | Some (out, args) \<Rightarrow> vsnprintf_loop room fmt' args out)
      | _ \<Rightarrow> None)"
  by pat_completeness auto
termination
  by (relation "measure (\<lambda>(room, fmt, args, out). length fmt)") (auto dest: parse_directive_le)

definition vsnprintf :: "char list \<Rightarrow> nat \<Rightarrow> string \<Rightarrow> arg list \<Rightarrow> (char list \<times> 32 word) option" where
  "vsnprintf buf cap fmt args =
     (if cap = 0 then Some (buf, 0)
      else do {
        out \<leftarrow> vsnprintf_loop (cap - 1) fmt args [];
        buf \<leftarrow> awrite buf 0 (out @ [NUL]);
        Some (buf, of_nat (length out))
      })"

definition sprintf :: "char list \<Rightarrow> string \<Rightarrow> arg list \<Rightarrow> (char list \<times> 32 word) option" where
  "sprintf buf fmt args = vsnprintf buf 2147483647 fmt args"

subsection \<open>The text that a format stands for\<close>

text \<open>
  The reference: the whole text, without buffers or bounds.  The two functions differ in one
  directive, so the text of \<^verbatim>\<open>%n\<close> is a parameter.
\<close>

definition padded :: "directive \<Rightarrow> string \<Rightarrow> string" where
  "padded d s =
     (let pad = replicate (pad_len (d_width d) s) (CHR '' '') in
      if LEFT \<in> d_flags d then s @ pad else pad @ s)"

definition padded_number :: "directive \<Rightarrow> string \<Rightarrow> string" where
  "padded_number d s =
     (if zero_padded d s
      then take (prefix_len s) s @ replicate (pad_len (d_width d) s) (CHR ''0'') @ drop (prefix_len s) s
      else padded d s)"

definition directive_text :: "string \<Rightarrow> char \<Rightarrow> directive \<Rightarrow> arg list \<Rightarrow> (string \<times> arg list) option" where
  "directive_text n_text c d args =
     (if numeric c then map_option (\<lambda>(s, args). (padded_number d s, args)) (number_text c d args)
      else if c = CHR ''p'' then map_option (\<lambda>(x, args). (padded d (format_ptr x), args)) (take_ptr args)
      else if c = CHR ''s'' then map_option (\<lambda>(s, args). (padded d (cut (d_prec d) s), args)) (take_str args)
      else if c = CHR ''c'' then map_option (\<lambda>(x, args). (padded d [x], args)) (take_char args)
      else if c = CHR ''%'' then Some (''%'', args)
      else if c = CHR ''n'' then Some (n_text, args)
      else Some ([CHR ''%'', c], args))"

function render :: "string \<Rightarrow> string \<Rightarrow> arg list \<Rightarrow> string option" where
  "render n_text [] args = Some []"
| "render n_text (c # fmt) args =
     (if c \<noteq> CHR ''%'' then map_option ((#) c) (render n_text fmt args)
      else if fmt = [] then Some []
      else case parse_directive fmt args of
        Some (c # fmt', d, args) \<Rightarrow>
          (case directive_text n_text c d args of
             None \<Rightarrow> None
           | Some (t, args) \<Rightarrow> map_option ((@) t) (render n_text fmt' args))
      | _ \<Rightarrow> None)"
  by pat_completeness auto
termination
  by (relation "measure (\<lambda>(n_text, fmt, args). length fmt)") (auto dest: parse_directive_le)

declare render.simps(2) [simp del] vprintf_loop.simps(2) [simp del] vsnprintf_loop.simps(2) [simp del]

lemma concat_replicate_single [simp]: "concat (replicate n [c]) = replicate n c"
  by (induction n) auto

lemma concat_vp_padded [simp]: "concat (vp_padded d s) = padded d s"
  by (simp add: vp_padded_def padded_def Let_def)

lemma concat_vp_number [simp]: "concat (vp_number d s) = padded_number d s"
  by (simp add: vp_number_def padded_number_def)

text \<open>What a directive of \<^const>\<open>vprintf\<close> writes and buffers is its text, at most two bytes of it buffered.\<close>

lemma vp_directive_text:
  "directive_text [] c d args = map_option (\<lambda>(cs, t, args). (concat cs @ t, args)) (vp_directive c d args)"
  by (simp add: directive_text_def vp_directive_def option.map_comp comp_def case_prod_unfold)

lemma vp_directive_short: "vp_directive c d args = Some (cs, t, as) \<Longrightarrow> length t \<le> 2"
  by (simp add: vp_directive_def case_prod_unfold split: if_splits) auto

lemma vprintf_loop_renders:
  assumes "render [] fmt args = Some s" "length buf \<le> 242"
  shows "\<exists>cs. vprintf_loop fmt args buf chunks = Some cs \<and> concat cs = concat chunks @ buf @ s"
  using assms
proof (induction "length fmt" arbitrary: fmt args buf chunks s rule: less_induct)
  case less
  show ?case
  proof (cases fmt)
    case Nil
    then show ?thesis using less.prems by (auto simp: flush_def)
  next
    case (Cons c fm)
    obtain b1 ch1 where f: "flush (240 \<le> length buf) buf chunks = (b1, ch1)" by fastforce
    then have b1: "length b1 < 240" "concat ch1 @ b1 = concat chunks @ buf"
      by (auto simp: flush_def split: if_splits)
    show ?thesis
    proof (cases "c = CHR ''%''")
      case False
      then obtain s' where s': "render [] fm args = Some s'" "s = c # s'"
        using less.prems(1) Cons by (auto simp: render.simps(2))
      moreover have "length (b1 @ [c]) \<le> 242" using b1 by simp
      ultimately obtain cs where "vprintf_loop fm args (b1 @ [c]) ch1 = Some cs"
          "concat cs = concat ch1 @ (b1 @ [c]) @ s'"
        using less.hyps [of fm args s' "b1 @ [c]" ch1] Cons by auto
      then show ?thesis
        using False f b1 s'(2) by (auto simp: Cons vprintf_loop.simps(2) buf_put_def)
    next
      case True
      show ?thesis
      proof (cases "fm = []")
        case True
        then show ?thesis
          using \<open>c = CHR ''%''\<close> f b1 less.prems(1)
          by (auto simp: Cons vprintf_loop.simps(2) render.simps(2) flush_def split: if_splits)
      next
        case False
        then obtain x fmt' d as t as' s' where p: "parse_directive fm args = Some (x # fmt', d, as)"
            "directive_text [] x d as = Some (t, as')" "render [] fmt' as' = Some s'" "s = t @ s'"
          using less.prems(1) \<open>c = CHR ''%''\<close>
          by (auto simp: Cons render.simps(2) split: option.splits list.splits)
        obtain cs b where v: "vp_directive x d as = Some (cs, b, as')" "t = concat cs @ b" "length b \<le> 2"
          using vp_directive_text [of x d as] p(2) vp_directive_short [of x d as] by (auto simp: map_option_case split: option.splits)
        obtain b2 ch2 where f2: "flush (b1 \<noteq> []) b1 ch1 = (b2, ch2)" by fastforce
        then have b2: "b2 = []" "concat ch2 = concat chunks @ buf"
          using b1 by (auto simp: flush_def split: if_splits)
        have "length fmt' < length fmt" using parse_directive_le [OF p(1)] Cons by simp
        then obtain cs' where "vprintf_loop fmt' as' b (ch2 @ cs) = Some cs'"
            "concat cs' = concat (ch2 @ cs) @ b @ s'"
          using less.hyps [of fmt' as' s' b "ch2 @ cs"] p(3) v(3) by auto
        then show ?thesis
          using True False f f2 b2 p v
          by (auto simp: Cons vprintf_loop.simps(2) buf_put_def)
      qed
    qed
  qed
qed

lemma puts_n_all:
  assumes "\<forall>k n. 0 < n \<longrightarrow> 0 < wr k n \<and> wr k n \<le> int n"
  shows "snd (puts_n wr s k out) = out @ s"
  using assms
proof (induction wr s k out rule: puts_n.induct)
  case (1 wr s k out)
  show ?case
  proof (cases "s = []")
    case False
    then have r: "\<not> wr k (length s) \<le> 0" using "1.prems" by (metis length_greater_0_conv not_le)
    then show ?thesis using "1.IH" [OF False refl r "1.prems"] False by (subst puts_n.simps) (simp add: Let_def)
  qed (simp add: puts_n.simps)
qed


lemma puts_all_concat:
  assumes "\<forall>k n. 0 < n \<longrightarrow> 0 < wr k n \<and> wr k n \<le> int n"
  shows "snd (puts_all wr ss st) = snd st @ concat ss"
  by (induction ss arbitrary: st) (simp_all add: puts_n_all [OF assms])

text \<open>
  C4. \<open>vprintf\<close> prints exactly the text of its format: whenever the arguments fit the directives, its
  buffer of 256 bytes is never overrun, and on a descriptor whose \<open>write\<close> makes progress, however
  short its writes are, the bytes that arrive are the text, padding and all, in order.
\<close>

theorem vprintf_renders:
  assumes "render [] fmt args = Some s"
  shows "\<exists>cs. vprintf fmt args = Some cs \<and>
    (\<forall>wr. (\<forall>k n. 0 < n \<longrightarrow> 0 < wr k n \<and> wr k n \<le> int n) \<longrightarrow> snd (puts_all wr cs (0, [])) = s)"
proof -
  obtain cs where cs: "vprintf fmt args = Some cs" "concat cs = s"
    using vprintf_loop_renders [OF assms, of "[]" "[]"] by (auto simp: vprintf_def)
  have "snd (puts_all wr cs (0, [])) = s" if "\<forall>k n. 0 < n \<longrightarrow> 0 < wr k n \<and> wr k n \<le> int n" for wr
    using puts_all_concat [OF that, of cs "(0, [])"] cs(2) by simp
  then show ?thesis using cs(1) by blast
qed

lemma gen_digits_numeral:
  "gen_digits (numeral n) dig base uval =
     (if uval div base = 0 then Some [dig ! (uval mod base)]
      else map_option ((#) (dig ! (uval mod base))) (gen_digits (pred_numeral n) dig base (uval div base)))"
  by (simp add: numeral_eq_Suc)

lemmas render_eval = render.simps(2) parse_directive_def parse_number_def number_step_def parse_precision_def
  parse_length_def directive_text_def numeric_def number_text_def format_int_def is_digit_def sc_def
  gen_digits_numeral padded_number_def padded_def zero_padded_def pad_len_def digits_lower_def

theorem vprintf_renders_witness:
  "\<exists>cs. vprintf ''%5d%%'' [VInt 42] = Some cs \<and> snd (puts_all (\<lambda>k n. 1) cs (0, [])) = ''   42%''"
proof -
  have "sint (42 :: 64 word) = 42" "scast (42 :: 32 word) = (42 :: 64 word)" by (simp_all add: sint64 scast_id)
  then have "render [] ''%5d%%'' [VInt 42] = Some (replicate 3 (CHR '' '') @ ''42%'')"
    by (simp add: render_eval sint32)
  then have "render [] ''%5d%%'' [VInt 42] = Some ''   42%''"
    by (simp add: numeral_eq_Suc)
  from vprintf_renders [OF this] show ?thesis by auto
qed


subsection \<open>vsnprintf prints the same text\<close>

lemma put_loop_room: "length out \<le> room \<Longrightarrow> put_loop room out s = out @ take (room - length out) s"
proof (induction s arbitrary: out)
  case (Cons c s)
  show ?case
  proof (cases "length out < room")
    case True
    then have "room - length out = Suc (room - Suc (length out))" by simp
    then show ?thesis using True Cons.IH [of "out @ [c]"] by simp
  qed (use Cons.prems in simp)
qed simp

declare put_loop.simps [simp del]

lemma put_loop_take [simp]: "put_loop room (take room x) s = take room (x @ s)"
  by (auto simp: put_loop_room min_def)

lemma vs_padded_take [simp]: "vs_padded room d s (take room x) = take room (x @ padded d s)"
  by (simp add: vs_padded_def padded_def Let_def del: take_append)

lemma vs_number_take [simp]: "vs_number room d s (take room x) = take room (x @ padded_number d s)"
  by (simp add: vs_number_def padded_number_def del: take_append)

lemma vs_char_take:
  assumes "take_char args = Some (x, as)"
  shows "\<exists>as'. vs_char room d args (take room y) = Some (take room (y @ padded d [x]), as') \<and>
    (length (y @ padded d [x]) < room \<longrightarrow> as' = as)"
proof -
  define pad where "pad = replicate (if 1 < d_width d then nat (d_width d - 1) else 0) (CHR '' '')"
  have p: "padded d [x] = (if LEFT \<in> d_flags d then x # pad else pad @ [x])"
    by (simp add: padded_def pad_len_def pad_def Let_def)
  define z where "z = (if LEFT \<notin> d_flags d then y @ pad else y)"
  have z: "(if LEFT \<notin> d_flags d then put_loop room (take room y) pad else take room y) = take room z"
    by (simp add: z_def del: take_append)
  show ?thesis
  proof (cases "length z < room")
    case True
    have "take room (z @ [x]) = z @ [x]" using True by (simp add: take_all)
    then have "put_loop room (z @ [x]) pad = take room (z @ x # pad)"
      using put_loop_take [of room "z @ [x]" pad] by (simp del: take_append)
    then show ?thesis
      unfolding vs_char_def pad_def [symmetric] Let_def z using assms True by (auto simp: p z_def)
  next
    case False
    then have "take room (z @ t) = take room z" for t by simp
    then show ?thesis
      unfolding vs_char_def pad_def [symmetric] Let_def z using assms False
      by (auto simp: p z_def simp del: take_append)
  qed
qed

text \<open>A directive adds its text, as far as there is room; once the room is used up the rest is not read.\<close>

lemma vs_directive_take:
  assumes "directive_text ''%n'' c d args = Some (t, as)"
  shows "\<exists>as'. vs_directive room c d args (take room y) = Some (take room (y @ t), as') \<and>
    (length (y @ t) < room \<longrightarrow> as' = as)"
  using assms vs_char_take [of args]
  by (auto simp: directive_text_def vs_directive_def simp del: take_append split: if_splits)

lemma vsnprintf_loop_full [simp]: "length out = room \<Longrightarrow> vsnprintf_loop room fmt args out = Some out"
  by (cases fmt) (simp_all add: vsnprintf_loop.simps(2))

lemma vsnprintf_loop_renders:
  assumes "render ''%n'' fmt args = Some s" "length out \<le> room"
  shows "vsnprintf_loop room fmt args out = Some (take room (out @ s))"
  using assms
proof (induction "length fmt" arbitrary: fmt args out s rule: less_induct)
  case less
  show ?case
  proof (cases "fmt = [] \<or> length out = room")
    case False
    then obtain c fm where f: "fmt = c # fm" "length out < room"
      using less.prems(2) by (cases fmt) auto
    show ?thesis
    proof (cases "c = CHR ''%''")
      case False
      then obtain s' where s': "render ''%n'' fm args = Some s'" "s = c # s'"
        using less.prems(1) f by (auto simp: render.simps(2))
      then show ?thesis
        using less.hyps [of fm args s' "out @ [c]"] False f by (simp add: vsnprintf_loop.simps(2))
    next
      case True
      show ?thesis
      proof (cases "fm = []")
        case False
        then obtain x fmt' d as t as' s' where p: "parse_directive fm args = Some (x # fmt', d, as)"
            "directive_text ''%n'' x d as = Some (t, as')" "render ''%n'' fmt' as' = Some s'" "s = t @ s'"
          using less.prems(1) True by (auto simp: f render.simps(2) split: option.splits list.splits)
        obtain bs where v: "vs_directive room x d as out = Some (take room (out @ t), bs)"
            "length (out @ t) < room \<Longrightarrow> bs = as'"
          using vs_directive_take [OF p(2), of room out] f(2) by auto
        have less': "length fmt' < length fmt" using parse_directive_le [OF p(1)] f by simp
        have "vsnprintf_loop room fmt' bs (take room (out @ t)) = Some (take room (out @ s))"
        proof (cases "length (out @ t) < room")
          case True
          then show ?thesis using less.hyps [OF less' p(3), of "out @ t"] v(2) p(4) by simp
        next
          case False
          then show ?thesis using p(4) by (simp add: append_assoc [symmetric] del: append_assoc)
        qed
        then show ?thesis
          using True False f p v(1) by (simp add: vsnprintf_loop.simps(2))
      qed (use True f less.prems(1) in \<open>auto simp: vsnprintf_loop.simps(2) render.simps(2)\<close>)
    qed
  qed (use less.prems in auto)
qed

lemma vsnprintf_text:
  assumes "render ''%n'' fmt args = Some s" "0 < cap" "cap \<le> length buf"
  shows "vsnprintf buf cap fmt args =
    Some (take (cap - 1) s @ NUL # drop (Suc (min (length s) (cap - 1))) buf, of_nat (min (length s) (cap - 1)))"
  using vsnprintf_loop_renders [OF assms(1), of "[]" "cap - 1"] assms(2,3)
  by (simp add: vsnprintf_def awrite_def)

text \<open>
  C19. \<open>vsnprintf\<close> stores as much of the text of its format as fits: with arguments that fit the
  directives and a buffer of at least \<open>size\<close> bytes, it writes the first \<open>size - 1\<close> bytes of the text
  and a terminator, nothing behind it, and returns how many bytes it stored.  So it agrees with
  \<open>vprintf\<close> on every format without \<^verbatim>\<open>%n\<close>, which it prints and \<open>vprintf\<close> skips.
\<close>

theorem vsnprintf_renders:
  assumes "render ''%n'' fmt args = Some s" "0 < cap" "cap \<le> length buf"
  shows "vsnprintf buf cap fmt args =
    Some (take (cap - 1) s @ NUL # drop (Suc (min (length s) (cap - 1))) buf, of_nat (min (length s) (cap - 1)))"
  using assms by (rule vsnprintf_text)

theorem vsnprintf_renders_witness:
  "vsnprintf ''zzzzzzzz'' 5 ''%s=%n'' [VStr (Some ''key'')] = Some (''key='' @ NUL # ''zzz'', 4)"
proof -
  have "render ''%n'' ''%s=%n'' [VStr (Some ''key'')] = Some ''key=%n''"
    by (simp add: render_eval cut_def)
  from vsnprintf_renders [OF this, of 5 "''zzzzzzzz''"] show ?thesis by simp
qed


subsection \<open>Numbers\<close>

text \<open>The value of a list of digits, the lowest first.\<close>

definition digits_value :: "nat \<Rightarrow> nat list \<Rightarrow> nat" where
  "digits_value base vs = foldr (\<lambda>v n. v + base * n) vs 0"

lemma gen_digits_value:
  assumes "2 \<le> base"
  shows "0 < k \<Longrightarrow> uval < base ^ k \<Longrightarrow>
    \<exists>vs. gen_digits k dig base uval = Some (map ((!) dig) vs) \<and> list_all (\<lambda>v. v < base) vs \<and>
      digits_value base vs = uval \<and> vs \<noteq> [] \<and> length vs \<le> k \<and> (length vs = 1 \<or> last vs \<noteq> 0)"
proof (induction k arbitrary: uval)
  case (Suc k)
  have lt: "uval mod base < base" using assms by simp
  show ?case
  proof (cases "uval div base = 0")
    case True
    then have "uval mod base = uval" using lt assms by (metis div_0 div_mult_mod_eq add_0 mult_0)
    then show ?thesis
      using True lt by (intro exI [of _ "[uval]"]) (simp add: digits_value_def)
  next
    case False
    have "uval div base < base ^ k"
      using Suc.prems(2) assms by (simp add: div_less_iff_less_mult mult.commute)
    moreover from this False have "0 < k" by (cases k) auto
    ultimately obtain vs where vs: "gen_digits k dig base (uval div base) = Some (map ((!) dig) vs)"
        "list_all (\<lambda>v. v < base) vs" "digits_value base vs = uval div base" "vs \<noteq> []" "length vs \<le> k"
        "length vs = 1 \<or> last vs \<noteq> 0"
      using Suc.IH by blast
    have "last vs \<noteq> 0"
    proof
      assume z: "last vs = 0"
      with vs(6) have "length vs = 1" by simp
      then obtain v where "vs = [v]" by (cases vs) auto
      with vs(3) z False show False by (simp add: digits_value_def)
    qed
    then show ?thesis
      using False vs lt by (intro exI [of _ "uval mod base # vs"]) (simp add: digits_value_def)
  qed
qed simp

lemma gen_digits_more: "gen_digits k dig base n = Some ds \<Longrightarrow> gen_digits (k + m) dig base n = Some ds"
  by (induction k dig base n arbitrary: ds rule: gen_digits.induct) (auto split: if_splits)

text \<open>
  \<open>format_int\<close> writes the number in its base: an optional sign, the prefix that \<open>#\<close> asks for, and the
  digits of the magnitude, the highest first and without leading zeros.  It never overruns its 32 bytes
  of reversed digits, and the whole number takes at most 25 of the 64 bytes of \<open>numbuf\<close>.  The smallest
  64-bit number, whose negation overflows, is no exception.
\<close>

theorem format_int_correct:
  assumes "base = 8 \<or> base = 10 \<or> base = 16"
  shows "\<exists>vs pre. format_int val base is_signed flags =
      Some ((if is_signed \<and> sint val < 0 then ''-'' else if is_signed \<and> PLUS \<in> flags then ''+''
             else if is_signed \<and> SPACE \<in> flags then '' '' else []) @
        pre @ map ((!) (if UPPER \<in> flags then digits_upper else digits_lower)) (rev vs)) \<and>
    (HASH \<notin> flags \<longrightarrow> pre = []) \<and> length pre \<le> 2 \<and> vs \<noteq> [] \<and> length vs \<le> 22 \<and> list_all (\<lambda>v. v < base) vs \<and>
    int (digits_value base vs) = (if is_signed then \<bar>sint val\<bar> else uint val) \<and> (length vs = 1 \<or> last vs \<noteq> 0)"
proof -
  define neg where "neg = (is_signed \<and> sint val < 0)"
  define uval where "uval = unat (if neg then - val else val)"
  define dig where "dig = (if UPPER \<in> flags then digits_upper else digits_lower)"
  have u: "int uval = (if is_signed then \<bar>sint val\<bar> else uint val)"
    using uint_bounds64 [of val]
    by (auto simp: uval_def neg_def sint64 uint_word_ariths(4) zmod_zminus1_eq_if split: if_splits)
  have "uval < 2 ^ 64"
    using unsigned_less [of "if neg then - val else val"] by (simp add: uval_def)
  also have "(2::nat) ^ 64 \<le> base ^ 22" using assms by auto
  finally have "uval < base ^ 22" .
  moreover have "2 \<le> base" using assms by auto
  ultimately have "\<exists>vs. gen_digits 22 dig base uval = Some (map ((!) dig) vs) \<and> list_all (\<lambda>v. v < base) vs \<and>
      digits_value base vs = uval \<and> vs \<noteq> [] \<and> length vs \<le> 22 \<and> (length vs = 1 \<or> last vs \<noteq> 0)"
    using gen_digits_value [of base 22 uval dig] by simp
  then obtain vs where vs: "gen_digits 22 dig base uval = Some (map ((!) dig) vs)" "list_all (\<lambda>v. v < base) vs"
      "digits_value base vs = uval" "vs \<noteq> []" "length vs \<le> 22" "length vs = 1 \<or> last vs \<noteq> 0"
    by blast
  have "gen_digits 32 dig base uval = Some (map ((!) dig) vs)"
    using gen_digits_more [OF vs(1), of 10] by simp
  then show ?thesis
    using vs u unfolding format_int_def Let_def neg_def [symmetric] uval_def [symmetric] dig_def [symmetric]
    by (intro exI [of _ vs]) (auto simp: rev_map)
qed

theorem format_int_correct_witness:
  "\<exists>vs pre. format_int (- 9223372036854775808) 10 True {} = Some (''-'' @ pre @ map ((!) digits_lower) (rev vs)) \<and>
    int (digits_value 10 vs) = 9223372036854775808"
proof -
  have "sint (- 9223372036854775808 :: 64 word) = - 9223372036854775808" by (simp add: sint64)
  then show ?thesis
    using format_int_correct [of 10 "- 9223372036854775808" True "{}"]
    by simp (metis append_Nil)
qed


subsection \<open>Reading a printed number back\<close>

lemma render_plain: "CHR ''%'' \<notin> set u \<Longrightarrow> render n_text u args = Some u"
  by (induction u) (auto simp: render.simps(2))

lemma digit_chars:
  assumes "v < 10"
  shows "is_digit (digits_lower ! v)" "digit (digits_lower ! v) = v"
proof -
  have "v \<in> {0, 1, 2, 3, 4, 5, 6, 7, 8, 9}" using assms by auto
  then show "is_digit (digits_lower ! v)" "digit (digits_lower ! v) = v"
    by (auto simp: digits_lower_def is_digit_def digit_def sc_def)
qed

lemma dec_value_digits:
  "list_all (\<lambda>v. v < 10) vs \<Longrightarrow> dec_value (map ((!) digits_lower) (rev vs)) = digits_value 10 vs"
  by (induction vs) (auto simp: digits_value_def digit_chars dec_value_def)

lemma format_int_dec:
  assumes "0 \<le> sint val"
  shows "\<exists>ds. format_int val 10 True {} = Some ds \<and> (\<forall>c\<in>set ds. is_digit c) \<and> int (dec_value ds) = sint val \<and>
    ds \<noteq> [] \<and> length ds \<le> 22"
proof -
  have "unat val < 18446744073709551616"
    unfolding unat_less_iff of_nat_numeral by (rule uint_bounds64)
  then have u: "unat val < 10 ^ 22" by (rule less_trans) simp
  have val: "int (unat val) = sint val" using assms uint_bounds64(2) [of val] by (auto simp: sint64 split: if_splits)
  obtain vs where vs: "gen_digits 22 digits_lower 10 (unat val) = Some (map ((!) digits_lower) vs)"
      "list_all (\<lambda>v. v < 10) vs" "digits_value 10 vs = unat val" "vs \<noteq> []" "length vs \<le> 22"
    using gen_digits_value [of 10 22 "unat val" digits_lower] u by auto
  have "gen_digits 32 digits_lower 10 (unat val) = Some (map ((!) digits_lower) vs)"
    using gen_digits_more [OF vs(1), of 10] by simp
  then have "format_int val 10 True {} = Some (map ((!) digits_lower) (rev vs))"
    using assms by (simp add: format_int_def rev_map)
  moreover have "\<forall>c\<in>set (map ((!) digits_lower) (rev vs)). is_digit c"
    using vs(2) digit_chars by (auto simp: list_all_iff)
  ultimately show ?thesis using vs val by (auto simp: dec_value_digits)
qed

text \<open>
  What \<open>snprintf\<close> prints with \<^verbatim>\<open>%d\<close>, \<open>atoi\<close> reads back: for every non-negative \<open>int\<close>, whatever the
  format says behind the directive, as long as it is no further directive and no digit.
\<close>

theorem snprintf_atoi:
  assumes "0 \<le> sint w" "CHR ''%'' \<notin> set u" "cstring u" "u \<noteq> [] \<longrightarrow> \<not> is_digit (hd u)"
    and "length u + 23 \<le> cap" "cap \<le> length buf"
  shows "\<exists>buf' n. vsnprintf buf cap (''%d'' @ u) [VInt w] = Some (buf', n) \<and> atoi (str_at buf' 0) = sint w"
proof -
  have w: "sint (scast w :: 64 word) = sint w"
    by (rule sint_up_scast) (simp add: is_up)
  then obtain ds where ds: "format_int (scast w) 10 True {} = Some ds" "\<forall>c\<in>set ds. is_digit c"
      "int (dec_value ds) = sint w" "ds \<noteq> []" "length ds \<le> 22"
    using format_int_dec [of "scast w"] assms(1) by auto
  have "render ''%n'' (''%d'' @ u) [VInt w] = Some (ds @ u)"
    using ds(1) by (simp add: render_eval render_plain [OF assms(2)])
  then have "vsnprintf buf cap (''%d'' @ u) [VInt w] =
      Some (take (cap - 1) (ds @ u) @ NUL # drop (Suc (min (length (ds @ u)) (cap - 1))) buf,
        of_nat (min (length (ds @ u)) (cap - 1)))"
    using assms(5,6) by (intro vsnprintf_text) auto
  moreover have "take (cap - 1) (ds @ u) = ds @ u" using ds(5) assms(5) by simp
  ultimately obtain rest n where v: "vsnprintf buf cap (''%d'' @ u) [VInt w] = Some ((ds @ u) @ NUL # rest, n)"
    by metis
  have "cstring (ds @ u)"
    using ds(2) assms(3) by (auto simp: cstring_def is_digit_def sc_def)
  then have "str_at ((ds @ u) @ NUL # rest) 0 = ds @ u" by (rule str_at_write)
  moreover have "takeWhile is_digit (ds @ u) = ds"
    using ds(2) assms(4) by (cases u) (auto simp: takeWhile_tail takeWhile_append)
  moreover have "sint w < 2 ^ 31" using sint_lt [of w] by simp
  ultimately have "atoi (str_at ((ds @ u) @ NUL # rest) 0) = sint w"
    using atoi_run_value [of "ds @ u"] ds(3) by simp
  with v show ?thesis by blast
qed

theorem snprintf_atoi_witness:
  "\<exists>buf' n. vsnprintf (replicate 40 NUL) 40 ''%d ms'' [VInt 1500] = Some (buf', n) \<and> atoi (str_at buf' 0) = 1500"
proof -
  have "sint (1500 :: 32 word) = 1500" by (simp add: sint32)
  then show ?thesis
    using snprintf_atoi [of "1500 :: 32 word" "'' ms''" 40 "replicate 40 NUL"] by (simp add: is_digit_def sc_def)
qed

subsection \<open>Formats that end inside a directive\<close>

lemma parse_flags_all:
  "list_all (\<lambda>c. c \<in> set ''-+ #0'') fl \<Longrightarrow> list_all is_digit ds \<Longrightarrow>
   \<exists>ds' fs. parse_flags (fl @ ds) flags = (ds', fs) \<and> list_all is_digit ds'"
proof (induction fl arbitrary: flags)
  case Nil
  then show ?case
    by (induction ds arbitrary: flags) (auto simp: is_digit_def sc_def)
qed auto

lemma number_loop_all: "list_all is_digit ds \<Longrightarrow> fst (number_loop ds n) = []"
  by (induction ds arbitrary: n) auto

text \<open>
  A format that ends inside a directive is read past its end: when nothing but flags and a width
  follow the last percent sign, both functions take the terminator for the conversion character and
  go on reading behind it.  Only \<open>vsnprintf\<close> with a buffer that is full by then escapes.
\<close>

theorem cut_directive_overruns:
  assumes "CHR ''%'' \<notin> set u" "list_all (\<lambda>c. c \<in> set ''-+ #0'') fl" "list_all is_digit ds" "fl @ ds \<noteq> []"
    and "length u + 1 < cap"
  shows "vprintf (u @ CHR ''%'' # fl @ ds) args = None \<and> vsnprintf buf cap (u @ CHR ''%'' # fl @ ds) args = None"
proof -
  obtain ds' fs where fs: "parse_flags (fl @ ds) {} = (ds', fs)" "list_all is_digit ds'"
    using parse_flags_all [OF assms(2,3)] by blast
  moreover have "\<exists>n. parse_number ds' args = Some ([], n, args)"
    using fs(2) number_loop_all [OF fs(2), of 0]
    by (cases ds') (auto simp: parse_number_def is_digit_def sc_def split: prod.splits)
  ultimately obtain d where p: "parse_directive (fl @ ds) args = Some ([], d, args)"
    by (auto simp: parse_directive_def parse_precision_def parse_length_def)
  have "vprintf_loop (u @ CHR ''%'' # fl @ ds) args b ch = None" for b ch
    using assms(1) p assms(4)
    by (induction u arbitrary: b ch) (auto simp: vprintf_loop.simps(2) flush_def Let_def split: option.splits)
  moreover have "vsnprintf_loop (cap - 1) (u @ CHR ''%'' # fl @ ds) args out = None"
    if "length out + length u < cap - 1" for out
    using assms(1) p assms(4) that
    by (induction u arbitrary: out) (auto simp: vsnprintf_loop.simps(2))
  ultimately show ?thesis
    using assms(5) by (simp add: vprintf_def vsnprintf_def)
qed

theorem cut_directive_overruns_witness: "vprintf ''100%5'' [] = None"
  using cut_directive_overruns [of "''100''" "[]" "''5''" 10 "[]" "[]"] by (simp add: is_digit_def sc_def)

end
