(* ===== verification/Umalloc.thy ===== *)
theory Umalloc
  imports Prelude
begin

section \<open>umalloc.c: the allocator\<close>

text \<open>
  The allocator of Kernighan and Ritchie keeps the free blocks in a ring in the order of their
  addresses, beginning at the static header \<open>base\<close>.  Memory is counted in units of a header; a heap
  gives each address the two fields of the header that lies there.  A loop that does not end is
  \<^const>\<open>None\<close>, and so is following the null pointer \<open>freep\<close>.  Block sizes are numbers without a width:
  the 32 bits of the field are enough for blocks below 64 gigabytes.
\<close>

record heap =
  nxt :: "nat \<Rightarrow> nat"
  siz :: "nat \<Rightarrow> nat"
  freep :: "nat option"

subsection \<open>The operations\<close>

partial_function (option) free_loop :: "heap \<Rightarrow> nat \<Rightarrow> nat \<Rightarrow> nat option" where
  "free_loop h bp p =
     (if bp > p \<and> bp < nxt h p then Some p
      else if p \<ge> nxt h p \<and> (bp > p \<or> bp < nxt h p) then Some p
      else free_loop h bp (nxt h p))"

definition join_next :: "nat \<Rightarrow> nat \<Rightarrow> heap \<Rightarrow> heap" where
  "join_next bp p h =
     (if bp + siz h bp = nxt h p
      then h\<lparr>siz := (siz h)(bp := siz h bp + siz h (nxt h p)), nxt := (nxt h)(bp := nxt h (nxt h p))\<rparr>
      else h\<lparr>nxt := (nxt h)(bp := nxt h p)\<rparr>)"

definition join_prev :: "nat \<Rightarrow> nat \<Rightarrow> heap \<Rightarrow> heap" where
  "join_prev bp p h =
     (if p + siz h p = bp
      then h\<lparr>siz := (siz h)(p := siz h p + siz h bp), nxt := (nxt h)(p := nxt h bp)\<rparr>
      else h\<lparr>nxt := (nxt h)(p := bp)\<rparr>)"

definition free :: "nat \<Rightarrow> heap \<Rightarrow> heap option" where
  "free ap h = do {
     let bp = ap - 1;
     f \<leftarrow> freep h;
     p \<leftarrow> free_loop h bp f;
     Some ((join_prev bp p (join_next bp p h))\<lparr>freep := Some p\<rparr>)
   }"

text \<open>
  \<open>sb w nu\<close> is \<open>sbrk\<close> of \<open>nu\<close> units in the state \<open>w\<close> of the address space: the old break, unless it
  fails, and the next state.
\<close>

type_synonym 'w sbrk = "'w \<Rightarrow> nat \<Rightarrow> nat option \<times> 'w"

definition morecore :: "'w sbrk \<Rightarrow> nat \<Rightarrow> heap \<Rightarrow> 'w \<Rightarrow> (nat option \<times> heap \<times> 'w) option" where
  "morecore sb nu h w =
     (let nu = (if nu < 4096 then 4096 else nu) in
      case sb w nu of
        (None, w) \<Rightarrow> Some (None, h, w)
      | (Some hp, w) \<Rightarrow> do {
          h \<leftarrow> free (hp + 1) (h\<lparr>siz := (siz h)(hp := nu)\<rparr>);
          Some (freep h, h, w)
        })"

partial_function (option) malloc_loop ::
    "'w sbrk \<Rightarrow> nat \<Rightarrow> nat \<Rightarrow> nat \<Rightarrow> heap \<Rightarrow> 'w \<Rightarrow> (nat option \<times> heap \<times> 'w) option" where
  "malloc_loop sb nunits prevp p h w =
     (if siz h p \<ge> nunits
      then (if siz h p = nunits
            then Some (Some (p + 1), h\<lparr>nxt := (nxt h)(prevp := nxt h p), freep := Some prevp\<rparr>, w)
            else let n = siz h p - nunits in
                 Some (Some (p + n + 1),
                   h\<lparr>siz := (siz h)(p := n, p + n := nunits), freep := Some prevp\<rparr>, w))
      else if Some p = freep h
      then do {
        (r, h, w) \<leftarrow> morecore sb nunits h w;
        (case r of None \<Rightarrow> Some (None, h, w) | Some p \<Rightarrow> malloc_loop sb nunits p (nxt h p) h w)
      }
      else malloc_loop sb nunits p (nxt h p) h w)"

definition header_size :: nat where "header_size = 16"

definition units :: "nat \<Rightarrow> nat" where
  "units nbytes = (nbytes + header_size - 1) div header_size + 1"

definition malloc :: "nat \<Rightarrow> 'w sbrk \<Rightarrow> nat \<Rightarrow> heap \<Rightarrow> 'w \<Rightarrow> (nat option \<times> heap \<times> 'w) option" where
  "malloc base sb nbytes h w =
     (let h = (if freep h = None
               then h\<lparr>nxt := (nxt h)(base := base), freep := Some base, siz := (siz h)(base := 0)\<rparr>
               else h)
      in do {
        prevp \<leftarrow> freep h;
        malloc_loop sb (units nbytes) prevp (nxt h prevp) h w
      })"

subsection \<open>The ring of free blocks\<close>

text \<open>The addresses met on the way from \<open>a\<close> to \<open>e\<close>.\<close>

fun path :: "(nat \<Rightarrow> nat) \<Rightarrow> nat \<Rightarrow> nat list \<Rightarrow> nat \<Rightarrow> bool" where
  "path nx a [] e \<longleftrightarrow> a = e"
| "path nx a (x # xs) e \<longleftrightarrow> a = x \<and> path nx (nx x) xs e"

lemma path_append: "path nx a (xs @ ys) e \<longleftrightarrow> (\<exists>b. path nx a xs b \<and> path nx b ys e)"
  by (induction xs arbitrary: a) auto

lemma path_upd [simp]: "x \<notin> set xs \<Longrightarrow> path (nx(x := v)) a xs e \<longleftrightarrow> path nx a xs e"
  by (induction xs arbitrary: a) auto

lemma path_start: "path nx a (xs @ ys) e \<Longrightarrow> xs = [] \<Longrightarrow> path nx a ys e"
  by simp

text \<open>Blocks in the order of their addresses, none empty, no two of them adjacent.\<close>

fun spaced :: "(nat \<Rightarrow> nat) \<Rightarrow> nat list \<Rightarrow> bool" where
  "spaced sz [] \<longleftrightarrow> True"
| "spaced sz (a # bs) \<longleftrightarrow> 0 < sz a \<and> (\<forall>b\<in>set bs. a + sz a < b) \<and> spaced sz bs"

lemma spaced_append:
  "spaced sz (as @ bs) \<longleftrightarrow> spaced sz as \<and> spaced sz bs \<and> (\<forall>a\<in>set as. \<forall>b\<in>set bs. a + sz a < b)"
  by (induction as) auto

lemma spaced_upd [simp]: "x \<notin> set bs \<Longrightarrow> spaced (sz(x := v)) bs \<longleftrightarrow> spaced sz bs"
  by (induction bs) auto

lemma spaced_sorted: "spaced sz bs \<Longrightarrow> sorted_wrt (<) bs"
  by (induction bs) (auto dest: add_lessD1)

lemma spaced_pos: "spaced sz bs \<Longrightarrow> b \<in> set bs \<Longrightarrow> 0 < sz b"
  by (induction bs) auto

definition heap_ok :: "nat \<Rightarrow> heap \<Rightarrow> nat list \<Rightarrow> bool" where
  "heap_ok base h bs \<longleftrightarrow> path (nxt h) base (base # bs) base \<and> spaced (siz h) bs \<and> (\<forall>a\<in>set bs. base < a) \<and>
     siz h base = 0 \<and> (\<exists>f\<in>set (base # bs). freep h = Some f)"

text \<open>The free units.\<close>

definition cells :: "heap \<Rightarrow> nat list \<Rightarrow> nat set" where
  "cells h bs = (\<Union>a\<in>set bs. {a ..< a + siz h a})"

subsection \<open>free\<close>

lemma free_loop_above:
  "path (nxt h) q (q # zs) base \<Longrightarrow> sorted_wrt (<) (q # zs) \<Longrightarrow> \<forall>z\<in>set (q # zs). bp < z \<Longrightarrow> base < bp \<Longrightarrow>
   free_loop h bp q = free_loop h bp base"
proof (induction zs arbitrary: q)
  case Nil
  then show ?case by (subst free_loop.simps) auto
next
  case (Cons z zs)
  then have "nxt h q = z" "q < z" "bp < q" by auto
  moreover have "free_loop h bp z = free_loop h bp base"
    using Cons by auto
  ultimately show ?case by (subst free_loop.simps) simp
qed

lemma free_loop_below:
  "path (nxt h) q (q # vs @ ys) base \<Longrightarrow> sorted_wrt (<) (q # vs) \<Longrightarrow> \<forall>v\<in>set (q # vs). v < bp \<Longrightarrow>
   \<forall>y\<in>set ys. bp < y \<Longrightarrow> base \<le> q \<Longrightarrow> free_loop h bp q = Some (last (q # vs))"
proof (induction vs arbitrary: q)
  case Nil
  then show ?case by (subst free_loop.simps, cases ys) auto
next
  case (Cons v vs)
  then have "nxt h q = v" "q < v" "v < bp" by auto
  moreover have "free_loop h bp v = Some (last (v # vs))"
    using Cons.prems by (intro Cons.IH) auto
  ultimately show ?case by (subst free_loop.simps) simp
qed

lemma free_loop_finds:
  assumes "path (nxt h) base (base # xs @ ys) base" "sorted_wrt (<) (base # xs @ ys)"
    and "base < bp" "\<forall>x\<in>set xs. x < bp" "\<forall>y\<in>set ys. bp < y" "f \<in> set (base # xs @ ys)"
  shows "free_loop h bp f = Some (last (base # xs))"
proof -
  have below: "free_loop h bp q = Some (last (base # xs))" if q: "q \<in> set (base # xs)" for q
  proof -
    obtain us vs where s: "base # xs = us @ q # vs" using split_list [OF q] by blast
    have p: "path (nxt h) q (q # vs @ ys) base"
      using assms(1) s by (metis append.assoc append_Cons path.simps(2) path_append)
    have "sorted_wrt (<) (q # vs)" "\<forall>v\<in>set (q # vs). v < bp" "base \<le> q"
      using assms(2-4) s by (auto simp: sorted_wrt_append append_eq_Cons_conv Cons_eq_append_conv)
    then have "free_loop h bp q = Some (last (q # vs))"
      using free_loop_below [OF p] assms(5) by blast
    then show ?thesis using s by simp
  qed
  show ?thesis
  proof (cases "f \<in> set (base # xs)")
    case False
    then obtain us vs where s: "ys = us @ f # vs" using assms(6) split_list by force
    have p: "path (nxt h) f (f # vs) base"
      using assms(1) s by (metis append.assoc append_Cons path.simps(2) path_append)
    have "sorted_wrt (<) (f # vs)" "\<forall>z\<in>set (f # vs). bp < z"
      using assms(2,5) s by (auto simp: sorted_wrt_append)
    then show ?thesis using free_loop_above [OF p] below [of base] assms(3) by simp
  qed (rule below)
qed


lemma cells_Cons [simp]: "cells h (a # bs) = {a ..< a + siz h a} \<union> cells h bs"
  by (simp add: cells_def)

lemma cells_append [simp]: "cells h (as @ bs) = cells h as \<union> cells h bs"
  by (auto simp: cells_def)

lemma cells_Nil [simp]: "cells h [] = {}"
  by (simp add: cells_def)

lemma cells_cong: "\<forall>a\<in>set bs. siz h' a = siz h a \<Longrightarrow> cells h' bs = cells h bs"
  by (auto simp: cells_def)

lemma spaced_cong: "\<forall>a\<in>set bs. sz' a = sz a \<Longrightarrow> spaced sz' bs = spaced sz bs"
  by (induction bs) auto

lemma path_cong: "\<forall>a\<in>set bs. nx' a = nx a \<Longrightarrow> path nx' a bs e = path nx a bs e"
  by (induction bs arbitrary: a) auto

text \<open>A run of free units lies in one block.\<close>

lemma spaced_gap: "spaced (siz h) bs \<Longrightarrow> a \<in> set bs \<Longrightarrow> a + siz h a \<notin> cells h bs"
proof
  assume h: "spaced (siz h) bs" "a \<in> set bs" "a + siz h a \<in> cells h bs"
  obtain us vs where bs: "bs = us @ a # vs" using split_list [OF h(2)] by blast
  obtain b where b: "b \<in> set bs" "b \<le> a + siz h a" "a + siz h a < b + siz h b" using h(3) by (auto simp: cells_def)
  consider "b \<in> set us" | "b = a" | "b \<in> set vs" using b(1) bs by auto
  then show False
  proof cases
    case 1
    then have "b + siz h b < a" using h(1) bs by (simp add: spaced_append)
    then show False using b(3) by simp
  next
    case 3
    then have "a + siz h a < b" using h(1) bs by (simp add: spaced_append)
    then show False using b(2) by simp
  qed (use b in simp)
qed

lemma cells_one_block:
  assumes "spaced (siz h) bs" "{x ..< x + n} \<subseteq> cells h bs" "0 < n"
  shows "\<exists>a\<in>set bs. n \<le> siz h a"
proof -
  have "x \<in> cells h bs" using assms(2,3) by auto
  then obtain a where a: "a \<in> set bs" "a \<le> x" "x < a + siz h a" by (auto simp: cells_def)
  have "x + n \<le> a + siz h a"
  proof (rule ccontr)
    assume "\<not> x + n \<le> a + siz h a"
    then have "a + siz h a \<in> cells h bs" using a assms(2) by auto
    then show False using spaced_gap [OF assms(1) a(1)] by blast
  qed
  then show ?thesis using a by (intro bexI [of _ a]) auto
qed

lemma interval_join: "{a ..< a + m} \<union> {a + m ..< a + m + n} = {a ..< a + (m + n)}" for a m n :: nat
  by auto

text \<open>The freed block joined with the one behind it, and the ring from it on.\<close>

lemma join_next_ok:
  assumes "path (nxt h) (nxt h p) ys base" "spaced (siz h) ys" "\<forall>y\<in>set ys. bp + siz h bp \<le> y"
    and "0 < siz h bp" "base < bp"
  shows "\<exists>ys'. path (nxt (join_next bp p h)) bp (bp # ys') base \<and> spaced (siz (join_next bp p h)) (bp # ys') \<and>
    set ys' \<subseteq> set ys \<and> cells (join_next bp p h) (bp # ys') = cells h (bp # ys) \<and>
    (\<forall>a. a \<noteq> bp \<longrightarrow> nxt (join_next bp p h) a = nxt h a \<and> siz (join_next bp p h) a = siz h a)"
proof -
  have out: "bp \<notin> set ys" using assms(3,4) by fastforce
  show ?thesis
  proof (cases "bp + siz h bp = nxt h p")
    case True
    have "nxt h p \<noteq> base" using True assms(4,5) by linarith
    then have "ys \<noteq> []" using assms(1) by auto
    then obtain z zs where "ys = z # zs" by (cases ys) auto
    with assms(1) have ys: "ys = nxt h p # zs" by simp
    define y where "y = nxt h p"
    have j: "join_next bp p h = h\<lparr>siz := (siz h)(bp := siz h bp + siz h y), nxt := (nxt h)(bp := nxt h y)\<rparr>"
      using True by (simp add: join_next_def y_def)
    have y: "ys = y # zs" "bp + siz h bp = y" "y \<noteq> bp" "bp \<notin> set zs" using ys True out by (auto simp: y_def)
    have "path (nxt h) (nxt h y) zs base" using assms(1) ys by (simp add: y_def)
    then have "path (nxt (join_next bp p h)) bp (bp # zs) base" using y by (simp add: j)
    moreover have "spaced (siz (join_next bp p h)) (bp # zs)" using y assms(2,4) by (auto simp: j)
    moreover have "cells (join_next bp p h) (bp # zs) = cells h (bp # ys)"
    proof -
      have "cells (join_next bp p h) zs = cells h zs" using y by (intro cells_cong) (auto simp: j)
      then show ?thesis
        using interval_join [of bp "siz h bp" "siz h y"] y(2) by (simp add: j y(1) Un_assoc [symmetric])
    qed
    ultimately show ?thesis using y(1) by (intro exI [of _ zs]) (auto simp: j)
  next
    case False
    then have j: "join_next bp p h = h\<lparr>nxt := (nxt h)(bp := nxt h p)\<rparr>" by (simp add: join_next_def)
    have "bp + siz h bp < y" if y: "y \<in> set ys" for y
    proof -
      obtain z zs where z: "ys = z # zs" using y by (cases ys) auto
      then have "z = nxt h p" using assms(1) by simp
      then have "bp + siz h bp < z" using False assms(3) z by fastforce
      moreover have "z \<le> y" using y z assms(2) by fastforce
      ultimately show ?thesis by simp
    qed
    then show ?thesis using assms out by (intro exI [of _ ys]) (simp add: j cells_def)
  qed
qed

text \<open>The block joined with the one in front of it, and the whole ring.\<close>

lemma join_prev_ok:
  assumes "path (nxt h) base (base # xs) e" "p = last (base # xs)" "path (nxt h) bp (bp # ys) base"
    and "spaced (siz h) xs" "spaced (siz h) (bp # ys)" "\<forall>x\<in>set xs. base < x \<and> x + siz h x \<le> bp" "base < bp" "siz h base = 0"
  shows "\<exists>bs. path (nxt (join_prev bp p h)) base (base # bs) base \<and> spaced (siz (join_prev bp p h)) bs \<and>
    set xs \<subseteq> set bs \<and> set bs \<subseteq> set (xs @ bp # ys) \<and> cells (join_prev bp p h) bs = cells h (xs @ bp # ys) \<and>
    (\<forall>a. a \<notin> set xs \<longrightarrow> siz (join_prev bp p h) a = siz h a)"
proof (cases xs rule: rev_cases)
  case Nil
  then have "join_prev bp p h = h\<lparr>nxt := (nxt h)(base := bp)\<rparr>"
    using assms(2,7,8) by (auto simp: join_prev_def)
  moreover have "base \<notin> set (bp # ys)" using assms(5,7) by auto
  ultimately show ?thesis
    using Nil assms by (intro exI [of _ "bp # ys"]) (auto simp: cells_def)
next
  case (snoc us x)
  then have p: "xs = us @ [p]" using assms(2) by simp
  have "x < bp" if "x \<in> set xs" for x
    using that assms(4,6) by (fastforce dest: split_list simp: spaced_append)
  then have lt: "\<forall>u\<in>set us. u < p" "p < bp" "base < p" "\<forall>y\<in>set ys. bp < y"
    using p assms(4,5,6) by (auto simp: spaced_append dest: add_lessD1)
  then have out: "p \<notin> set (base # us)" "p \<notin> set (bp # ys)" by auto
  have to_p: "path (nxt h) base (base # us) p"
    using assms(1) p by (auto simp: path_append)
  show ?thesis
  proof (cases "p + siz h p = bp")
    case True
    then have j: "join_prev bp p h = h\<lparr>siz := (siz h)(p := siz h p + siz h bp), nxt := (nxt h)(p := nxt h bp)\<rparr>"
      by (simp add: join_prev_def)
    have "path (nxt (join_prev bp p h)) base (base # us @ p # ys) base"
      using to_p out assms(3) by (auto simp: j path_append)
    moreover have "spaced (siz (join_prev bp p h)) (us @ p # ys)"
    proof -
      have "u + siz h u < y" if "u \<in> set us" "y \<in> set ys" for u y
      proof -
        have "u + siz h u < p" using that(1) assms(4) p by (simp add: spaced_append)
        moreover have "p < y" using lt(2,4) that(2) by fastforce
        ultimately show ?thesis by simp
      qed
      then show ?thesis using p out True assms(4,5) by (auto simp: j spaced_append)
    qed
    moreover have "cells (join_prev bp p h) (us @ p # ys) = cells h (xs @ bp # ys)"
    proof -
      have "cells (join_prev bp p h) us = cells h us" "cells (join_prev bp p h) ys = cells h ys"
        using out by (auto intro!: cells_cong simp: j)
      then show ?thesis
        using interval_join [of p "siz h p" "siz h bp"] True by (simp add: p j) blast
    qed
    ultimately show ?thesis using p by (intro exI [of _ "us @ p # ys"]) (auto simp: j)
  next
    case False
    then have j: "join_prev bp p h = h\<lparr>nxt := (nxt h)(p := bp)\<rparr>" by (simp add: join_prev_def)
    have "path (nxt (join_prev bp p h)) base (base # us @ p # bp # ys) base"
      using to_p out assms(3) by (auto simp: j path_append)
    moreover have "spaced (siz h) (us @ p # bp # ys)"
    proof -
      have "a + siz h a < b" if "a \<in> set us \<union> {p}" "b \<in> set (bp # ys)" for a b
      proof -
        have "a + siz h a < bp"
        proof (cases "a = p")
          case True
          then show ?thesis using False assms(6) p by fastforce
        next
          case False
          then have "a + siz h a < p" using that(1) assms(4) p by (auto simp: spaced_append)
          then show ?thesis using lt(2) by simp
        qed
        then show ?thesis using that(2) lt(4) by fastforce
      qed
      then show ?thesis using p assms(4,5) by (auto simp: spaced_append)
    qed
    ultimately show ?thesis using p
      by (intro exI [of _ "us @ p # bp # ys"]) (auto simp: j cells_def)
  qed
qed


lemma free_effect:
  assumes ok: "heap_ok base h bs" and "base < bp" "0 < siz h bp" and disj: "{bp ..< bp + siz h bp} \<inter> cells h bs = {}"
  shows "\<exists>h' bs'. free (bp + 1) h = Some h' \<and> heap_ok base h' bs' \<and>
    cells h' bs' = {bp ..< bp + siz h bp} \<union> cells h bs \<and> set bs' \<subseteq> insert bp (set bs) \<and>
    (\<forall>a. a \<notin> insert bp (set bs) \<longrightarrow> siz h' a = siz h a) \<and>
    (\<exists>a\<in>set bs'. siz h bp \<le> siz h' a)"
proof -
  have apart: "b + siz h b \<le> bp \<or> bp + siz h bp \<le> b" if "b \<in> set bs" for b
  proof -
    have pos: "0 < siz h b" using that ok spaced_pos [of "siz h" bs b] by (simp add: heap_ok_def)
    have "{b ..< b + siz h b} \<subseteq> cells h bs" using that by (auto simp: cells_def)
    then have sep: "x \<notin> {bp ..< bp + siz h bp} \<or> x \<notin> {b ..< b + siz h b}" for x using disj by blast
    show ?thesis
      using pos assms(3) sep [of b] sep [of bp] by (cases b bp rule: le_cases) simp_all
  qed
  have sorted: "sorted_wrt (<) bs" using ok spaced_sorted [of "siz h" bs] by (simp add: heap_ok_def)
  define xs ys where "xs = takeWhile (\<lambda>b. b < bp) bs" and "ys = dropWhile (\<lambda>b. b < bp) bs"
  have bs: "bs = xs @ ys" by (simp add: xs_def ys_def)
  have xs: "\<forall>x\<in>set xs. x < bp" by (auto simp: xs_def dest: set_takeWhileD)
  have ys: "bp + siz h bp \<le> y" if y: "y \<in> set ys" for y
  proof -
    obtain z zs where z: "ys = z # zs" using y by (cases ys) auto
    then have "\<not> z < bp" unfolding ys_def by (metis hd_dropWhile list.discI list.sel(1))
    moreover have "z \<le> y" using sorted y by (auto simp: bs z sorted_wrt_append)
    ultimately have "\<not> y < bp" by simp
    moreover have "y \<in> set bs" using y bs by simp
    moreover from this have "0 < siz h y" using ok spaced_pos [of "siz h" bs y] by (auto simp: heap_ok_def)
    ultimately show ?thesis using apart [of y] by simp
  qed
  have front: "base < x \<and> x + siz h x \<le> bp" if "x \<in> set xs" for x
    using apart [of x] that xs bs ok by (fastforce simp: heap_ok_def)
  obtain f where f: "freep h = Some f" "f \<in> set (base # bs)" using ok by (auto simp: heap_ok_def)
  define p where "p = last (base # xs)"
  have ring: "path (nxt h) base (base # xs @ ys) base" using ok bs by (simp add: heap_ok_def)
  have "sorted_wrt (<) (base # xs @ ys)" using sorted bs ok by (auto simp: heap_ok_def)
  from free_loop_finds [OF ring this assms(2) xs _ f(2) [unfolded bs]]
  have loop: "free_loop h bp f = Some p"
    using ys assms(3) by (fastforce simp: p_def)
  obtain e where e: "path (nxt h) base (base # xs) e" "path (nxt h) e ys base"
    using ring by (metis append_Cons path_append)
  have "e = nxt h p"
  proof -
    have "base # xs = butlast (base # xs) @ [p]" unfolding p_def by (rule append_butlast_last_id [symmetric]) simp
    then show ?thesis using e(1) path_append [of "nxt h" base "butlast (base # xs)" "[p]" e] by auto
  qed
  define h1 where "h1 = join_next bp p h"
  have "path (nxt h) (nxt h p) ys base" "spaced (siz h) ys" "\<forall>y\<in>set ys. bp + siz h bp \<le> y"
    using e(2) \<open>e = nxt h p\<close> ok bs ys by (auto simp: heap_ok_def spaced_append)
  from join_next_ok [OF this assms(3,2), folded h1_def]
  obtain ys' where n: "path (nxt h1) bp (bp # ys') base" "spaced (siz h1) (bp # ys')" "set ys' \<subseteq> set ys"
    "cells h1 (bp # ys') = cells h (bp # ys)" "\<And>a. a \<noteq> bp \<Longrightarrow> nxt h1 a = nxt h a \<and> siz h1 a = siz h a"
    by blast
  have same: "\<forall>a\<in>set (base # xs). nxt h1 a = nxt h a \<and> siz h1 a = siz h a"
    using n(5) xs assms(2) by (metis less_irrefl set_ConsD)
  have "path (nxt h1) base (base # xs) e" "spaced (siz h1) xs" "\<forall>x\<in>set xs. base < x \<and> x + siz h1 x \<le> bp" "siz h1 base = 0"
    using e(1) same front ok bs path_cong [of "base # xs" "nxt h1" "nxt h" base e] spaced_cong [of xs "siz h1" "siz h"]
    by (auto simp: heap_ok_def spaced_append)
  from join_prev_ok [OF this(1) p_def n(1) this(2) n(2) this(3) assms(2) this(4)]
  obtain bs' where r: "path (nxt (join_prev bp p h1)) base (base # bs') base" "spaced (siz (join_prev bp p h1)) bs'"
    "set xs \<subseteq> set bs'" "set bs' \<subseteq> set (xs @ bp # ys')" "cells (join_prev bp p h1) bs' = cells h1 (xs @ bp # ys')"
    "\<And>a. a \<notin> set xs \<Longrightarrow> siz (join_prev bp p h1) a = siz h1 a"
    by blast
  define h' where "h' = (join_prev bp p h1)\<lparr>freep := Some p\<rparr>"
  have "free (bp + 1) h = Some h'" using f(1) loop by (simp add: free_def h'_def h1_def)
  moreover have cells': "cells h' bs' = {bp ..< bp + siz h bp} \<union> cells h bs"
  proof -
    have "cells h1 xs = cells h xs" using same by (intro cells_cong) simp
    moreover have "cells h' bs' = cells (join_prev bp p h1) bs'" by (simp add: h'_def cells_def)
    ultimately show ?thesis using r(5) n(4) by (auto simp: bs)
  qed
  moreover have sub: "set bs' \<subseteq> insert bp (set bs)" using r(4) n(3) bs by auto
  moreover have "heap_ok base h' bs'"
  proof -
    have "base < a" if "a \<in> set bs'" for a using that sub ok assms(2) by (auto simp: heap_ok_def)
    moreover have "base \<notin> set xs" using front by auto
    then have "siz h' base = 0" using r(6) \<open>siz h1 base = 0\<close> by (simp add: h'_def)
    moreover have "p \<in> set (base # bs')" using r(3) last_in_set [of "base # xs"] unfolding p_def by auto
    ultimately show ?thesis using r(1,2) by (auto simp: heap_ok_def h'_def)
  qed
  moreover have "siz h' a = siz h a" if "a \<notin> insert bp (set bs)" for a
    using that r(6) [of a] n(5) [of a] bs by (simp add: h'_def)
  moreover have "\<exists>a\<in>set bs'. siz h bp \<le> siz h' a"
  proof (rule cells_one_block)
    show "spaced (siz h') bs'" using r(2) by (simp add: h'_def)
  qed (use cells' assms(3) in auto)
  ultimately show ?thesis by blast
qed


subsection \<open>malloc\<close>

text \<open>One turn through the ring: the first block that fits, or \<open>freep\<close> when none does.\<close>

lemma malloc_search:
  assumes "freep h = Some f"
  shows "path (nxt h) p xs f \<Longrightarrow> nxt h prevp = p \<Longrightarrow> prevp \<in> R \<Longrightarrow> set xs \<subseteq> R - {f} \<Longrightarrow>
    \<exists>prev q. malloc_loop sb n prevp p h w = malloc_loop sb n prev q h w \<and> nxt h prev = q \<and> prev \<in> R \<and>
      q \<in> insert f (set xs) \<and> (n \<le> siz h q \<or> q = f \<and> (\<forall>z\<in>insert f (set xs). siz h z < n))"
proof (induction xs arbitrary: p prevp)
  case (Cons x xs)
  show ?case
  proof (cases "n \<le> siz h p")
    case True
    then show ?thesis using Cons.prems by (intro exI [of _ prevp] exI [of _ p]) auto
  next
    case False
    then have step: "malloc_loop sb n prevp p h w = malloc_loop sb n p (nxt h p) h w"
      using assms Cons.prems by (subst malloc_loop.simps) auto
    have "path (nxt h) (nxt h p) xs f" "p \<in> R" "set xs \<subseteq> R - {f}" using Cons.prems by auto
    from Cons.IH [OF this(1) refl this(2,3)] show ?thesis
      unfolding step using False Cons.prems(1) by (auto simp: not_le)
  qed
next
  case Nil
  then show ?case by (intro exI [of _ prevp] exI [of _ p]) (auto simp: not_le)
qed

lemma heap_ok_distinct: "heap_ok base h bs \<Longrightarrow> distinct (base # bs)"
  using spaced_sorted [of "siz h" bs] strict_sorted_iff [of bs] by (auto simp: heap_ok_def)

lemma ring_from:
  assumes "path nx base (base # bs) base" "f \<in> set (base # bs)" "distinct (base # bs)"
  shows "\<exists>xs. path nx (nx f) xs f \<and> insert f (set xs) = set (base # bs) \<and> f \<notin> set xs"
proof -
  obtain us vs where s: "base # bs = us @ f # vs" using split_list [OF assms(2)] by blast
  then have p: "path nx base us f" "path nx (nx f) vs base"
    using assms(1) path_append [of nx base us "f # vs" base] by auto
  then have "path nx (nx f) (vs @ us) f" by (auto simp: path_append)
  moreover have "insert f (set (vs @ us)) = set (base # bs)" using s by auto
  moreover have "f \<notin> set (vs @ us)" using assms(3) s by auto
  ultimately show ?thesis by blast
qed

text \<open>The predecessor of a block is the one before it in the list.\<close>

lemma ring_prev:
  assumes "path nx base (base # bs) base" "distinct (base # bs)" "prev \<in> set (base # bs)" "nx prev = q" "q \<noteq> base"
  shows "\<exists>us vs. base # bs = us @ prev # q # vs"
proof -
  obtain us vs where s: "base # bs = us @ prev # vs" using split_list [OF assms(3)] by blast
  then have "path nx q vs base"
    using assms(1,4) path_append [of nx base us "prev # vs" base] by auto
  then obtain vs' where "vs = q # vs'" using assms(5) by (cases vs) auto
  then show ?thesis using s by blast
qed

text \<open>The end of the search when the block fits: what is cut off it.\<close>

lemma take_block:
  assumes ok: "heap_ok base h bs" and "0 < n" "n \<le> siz h q" "nxt h prev = q" "prev \<in> set (base # bs)" "q \<in> set (base # bs)"
  shows "\<exists>a h' bs'. malloc_loop sb n prev q h w = Some (Some (a + 1), h', w) \<and> heap_ok base h' bs' \<and> siz h' a = n \<and>
    {a ..< a + n} \<subseteq> cells h bs \<and> cells h' bs' = cells h bs - {a ..< a + n} \<and>
    (\<forall>c. c \<notin> cells h bs \<longrightarrow> siz h' c = siz h c)"
proof -
  have "q \<noteq> base" using assms(2,3) ok by (auto simp: heap_ok_def)
  then have q: "q \<in> set bs" using assms(6) by simp
  have dist: "distinct (base # bs)" using heap_ok_distinct [OF ok] .
  have ring: "path (nxt h) base (base # bs) base" and sp: "spaced (siz h) bs" using ok by (simp_all add: heap_ok_def)
  have qc: "{q ..< q + siz h q} \<subseteq> cells h bs" using q by (auto simp: cells_def)
  show ?thesis
  proof (cases "siz h q = n")
    case True
    obtain us vs where s: "base # bs = us @ prev # q # vs"
      using ring_prev [OF ring dist assms(5,4) \<open>q \<noteq> base\<close>] by blast
    define xs where "xs = tl (us @ [prev])"
    have hd: "us @ [prev] = base # xs" using s by (cases us) (auto simp: xs_def)
    then have bs: "bs = xs @ q # vs" using s by (metis append.assoc append_Cons append_Nil list.inject)
    let ?h = "h\<lparr>nxt := (nxt h)(prev := nxt h q), freep := Some prev\<rparr>"
    have "path (nxt h) base us prev" "path (nxt h) (nxt h q) vs base"
      using ring unfolding s path_append by auto
    moreover have "prev \<notin> set us" "prev \<notin> set vs" using dist unfolding s by auto
    ultimately have "path (nxt ?h) base (us @ prev # vs) base" by (auto simp: path_append)
    moreover have "us @ prev # vs = base # xs @ vs" using hd by (metis append.assoc append_Cons append_Nil)
    moreover have "spaced (siz h) (xs @ vs)" using sp bs by (simp add: spaced_append)
    moreover have "prev \<in> set (base # xs)" unfolding hd [symmetric] by simp
    ultimately have ok': "heap_ok base ?h (xs @ vs)"
      using ok bs by (auto simp: heap_ok_def)
    have "{q ..< q + n} \<inter> cells h (xs @ vs) = {}"
    proof -
      have "\<forall>x\<in>set xs. x + siz h x < q" "\<forall>v\<in>set vs. q + n < v" using sp bs True by (auto simp: spaced_append)
      then show ?thesis by (fastforce simp: cells_def)
    qed
    then have "cells ?h (xs @ vs) = cells h bs - {q ..< q + n}"
      using True by (auto simp: bs cells_def)
    moreover have "malloc_loop sb n prev q h w = Some (Some (q + 1), ?h, w)"
      using True by (subst malloc_loop.simps) simp
    ultimately show ?thesis using ok' qc True
      by (intro exI [of _ q] exI [of _ ?h] exI [of _ "xs @ vs"]) auto
  next
    case False
    define m where "m = siz h q - n"
    have m: "0 < m" "m + n = siz h q" using False assms(3) by (auto simp: m_def)
    let ?h = "h\<lparr>siz := (siz h)(q := m, q + m := n), freep := Some prev\<rparr>"
    have in_q: "q + m \<in> cells h bs" using m assms(2) qc by auto
    have other: "b + siz h b < q \<or> q + siz h q < b" if "b \<in> set bs" "b \<noteq> q" for b
      using split_list [OF q] that sp by (auto simp: spaced_append)
    have out: "q + m \<notin> set (base # bs)"
    proof
      assume "q + m \<in> set (base # bs)"
      then have "q + m \<in> set bs" using ok q by (auto simp: heap_ok_def)
      then show False using other [of "q + m"] m assms(2) by auto
    qed
    have siz': "siz ?h b = (if b = q then m else siz h b)" if "b \<in> set (base # bs)" for b
      using that out m by auto
    have "spaced (siz ?h) bs"
    proof -
      obtain us vs where bs: "bs = us @ q # vs" using split_list [OF q] by blast
      have "q \<notin> set us" "q \<notin> set vs" using dist bs by auto
      then have "\<forall>b\<in>set us. siz ?h b = siz h b" "\<forall>b\<in>set vs. siz ?h b = siz h b" "siz ?h q = m"
        using siz' bs m(1) by auto
      then show ?thesis
        using sp m spaced_cong [of us "siz ?h" "siz h"] spaced_cong [of vs "siz ?h" "siz h"]
        by (auto simp: bs spaced_append)
    qed
    then have ok': "heap_ok base ?h bs"
      using ok assms(5) siz' [of base] \<open>q \<noteq> base\<close> by (auto simp: heap_ok_def)
    have "cells ?h bs = cells h bs - {q + m ..< q + m + n}"
    proof -
      have "x \<in> cells ?h bs \<longleftrightarrow> x \<in> cells h bs \<and> x \<notin> {q + m ..< q + m + n}" for x
      proof
        assume "x \<in> cells ?h bs"
        then obtain b where b: "b \<in> set bs" "b \<le> x" "x < b + siz ?h b" by (auto simp: cells_def)
        then show "x \<in> cells h bs \<and> x \<notin> {q + m ..< q + m + n}"
          using siz' [of b] other [of b] m by (cases "b = q") (fastforce simp: cells_def)+
      next
        assume x: "x \<in> cells h bs \<and> x \<notin> {q + m ..< q + m + n}"
        then obtain b where b: "b \<in> set bs" "b \<le> x" "x < b + siz h b" by (auto simp: cells_def)
        then have "x < b + siz ?h b" using x m siz' [of b] by (cases "b = q") auto
        then show "x \<in> cells ?h bs" using b(1,2) unfolding cells_def by auto
      qed
      then show ?thesis by blast
    qed
    moreover have "malloc_loop sb n prev q h w = Some (Some (q + m + 1), ?h, w)"
      using False assms(3) by (subst malloc_loop.simps) (simp add: m_def Let_def)
    moreover have "{q + m ..< q + m + n} \<subseteq> cells h bs" using m qc by auto
    moreover have "q \<in> cells h bs" using qc assms(2,3) by auto
    then have "siz ?h c = siz h c" if "c \<notin> cells h bs" for c
      using that in_q by auto
    ultimately show ?thesis using ok'
      by (intro exI [of _ "q + m"] exI [of _ ?h] exI [of _ bs]) simp
  qed
qed


text \<open>
  The allocated blocks \<open>A\<close>, known by the addresses of their headers: they lie between \<open>base\<close> and the
  break, apart from each other and from the free units.
\<close>

definition block :: "heap \<Rightarrow> nat \<Rightarrow> nat set" where
  "block h a = {a ..< a + siz h a}"

definition layout :: "nat \<Rightarrow> nat \<Rightarrow> nat set \<Rightarrow> nat set \<Rightarrow> (nat \<Rightarrow> nat set) \<Rightarrow> bool" where
  "layout base b F A blk \<longleftrightarrow> base < b \<and> F \<subseteq> {..< b} \<and>
     (\<forall>a\<in>A. base < a \<and> a \<in> blk a \<and> blk a \<subseteq> {..< b} \<and> blk a \<inter> F = {}) \<and>
     (\<forall>a\<in>A. \<forall>c\<in>A. a \<noteq> c \<longrightarrow> blk a \<inter> blk c = {})"

definition arena :: "nat \<Rightarrow> nat \<Rightarrow> heap \<Rightarrow> nat list \<Rightarrow> nat set \<Rightarrow> bool" where
  "arena base b h bs A \<longleftrightarrow> heap_ok base h bs \<and> layout base b (cells h bs) A (block h)"

lemma layout_cong: "\<forall>a\<in>A. blk' a = blk a \<Longrightarrow> layout base b F A blk' = layout base b F A blk"
  by (simp add: layout_def)

lemma layout_free: "layout base b F A blk \<Longrightarrow> a \<in> A \<Longrightarrow> layout base b (blk a \<union> F) (A - {a}) blk"
  unfolding layout_def by blast

lemma layout_take:
  "layout base b F A blk \<Longrightarrow> X \<subseteq> F \<Longrightarrow> a \<in> X \<Longrightarrow> base < a \<Longrightarrow> a \<notin> A \<Longrightarrow>
   layout base b (F - X) (insert a A) (blk(a := X))"
proof -
  assume h: "layout base b F A blk" "X \<subseteq> F" "a \<in> X" "base < a" "a \<notin> A"
  have "X \<inter> blk c = {}" if "c \<in> A" for c
  proof -
    have "blk c \<inter> F = {}" using h(1) that by (simp add: layout_def)
    then show ?thesis using h(2) by blast
  qed
  with h show ?thesis unfolding layout_def by (auto simp: Int_commute)
qed

lemma layout_grow: "layout base b F A blk \<Longrightarrow> b \<le> b' \<Longrightarrow> layout base b' F A blk"
  unfolding layout_def by (simp add: subset_iff) (meson less_le_trans)

lemma layout_more:
  assumes "layout base b F A blk" "b \<le> hp" "0 < nu" "hp \<notin> A"
  shows "layout base (hp + nu) F (insert hp A) (blk(hp := {hp ..< hp + nu}))"
proof -
  have "layout base (hp + nu) F A blk" using assms(1,2) layout_grow by simp
  moreover have "{hp ..< hp + nu} \<inter> S = {}" if "S \<subseteq> {..< b}" for S using that assms(2) by fastforce
  then have "{hp ..< hp + nu} \<inter> F = {}" "\<forall>a\<in>A. {hp ..< hp + nu} \<inter> blk a = {}"
    using assms(1) by (simp_all add: layout_def)
  moreover have "base < hp" using assms(1,2) by (simp add: layout_def)
  ultimately show ?thesis
    using assms(3,4) unfolding layout_def by (auto simp: Int_commute)
qed

lemma block_in: "a \<in> block h a \<longleftrightarrow> 0 < siz h a"
  by (simp add: block_def)

lemma heap_block_in: "heap_ok base h bs \<Longrightarrow> b \<in> set bs \<Longrightarrow> b \<in> cells h bs"
  using spaced_pos [of "siz h" bs b] by (auto simp: heap_ok_def cells_def)

lemma arena_free:
  assumes "arena base b h bs A" "a \<in> A"
  shows "\<exists>h' bs'. free (a + 1) h = Some h' \<and> arena base b h' bs' (A - {a}) \<and>
    cells h' bs' = block h a \<union> cells h bs \<and> (\<forall>c\<in>A - {a}. siz h' c = siz h c)"
proof -
  have ok: "heap_ok base h bs" and a: "base < a" "0 < siz h a" "block h a \<inter> cells h bs = {}"
    using assms by (simp_all add: arena_def layout_def block_in)
  obtain h' bs' where h': "free (a + 1) h = Some h'" "heap_ok base h' bs'" "cells h' bs' = block h a \<union> cells h bs"
      "\<And>c. c \<notin> insert a (set bs) \<Longrightarrow> siz h' c = siz h c"
    using free_effect [OF ok a(1,2) a(3) [unfolded block_def]] by (auto simp: block_def)
  have same: "siz h' c = siz h c" if "c \<in> A - {a}" for c
  proof (rule h'(4))
    have "c \<in> block h c" "block h c \<inter> cells h bs = {}" using that assms(1) by (simp_all add: arena_def layout_def)
    then show "c \<notin> insert a (set bs)" using that heap_block_in [OF ok] by auto
  qed
  then have blocks: "block h' c = block h c" if "c \<in> A - {a}" for c
    using that by (simp add: block_def)
  have "arena base b h' bs' (A - {a})"
    unfolding arena_def h'(3) using assms h'(2) layout_free layout_cong [of "A - {a}" "block h'" "block h"] blocks
    by (simp add: arena_def)
  then show ?thesis using h' same by blast
qed

lemma arena_take:
  assumes ar: "arena base b h bs A" and "0 < n" "n \<le> siz h q" "nxt h prev = q" "prev \<in> set (base # bs)" "q \<in> set (base # bs)"
  shows "\<exists>a h' bs'. malloc_loop sb n prev q h w = Some (Some (a + 1), h', w) \<and> arena base b h' bs' (insert a A) \<and>
    a \<notin> A \<and> siz h' a = n \<and> (\<forall>c\<in>A. siz h' c = siz h c) \<and> freep h' \<noteq> None"
proof -
  have ok: "heap_ok base h bs" using ar by (simp add: arena_def)
  obtain a h' bs' where r: "malloc_loop sb n prev q h w = Some (Some (a + 1), h', w)" "heap_ok base h' bs'" "siz h' a = n"
      "{a ..< a + n} \<subseteq> cells h bs" "cells h' bs' = cells h bs - {a ..< a + n}"
      "\<And>c. c \<notin> cells h bs \<Longrightarrow> siz h' c = siz h c"
    using take_block [OF ok assms(2-6), of sb w] by blast
  have same: "siz h' c = siz h c" "c \<notin> cells h bs" if "c \<in> A" for c
  proof -
    show "c \<notin> cells h bs" using that ar by (auto simp: arena_def layout_def)
    then show "siz h' c = siz h c" by (rule r(6))
  qed
  then have blocks: "block h' c = block h c" if "c \<in> A" for c using that by (simp add: block_def)
  have new: "block h' a = {a ..< a + n}" using r(3) by (simp add: block_def)
  have "a \<in> cells h bs" using r(4) assms(2) by auto
  moreover have "base < c" if "c \<in> cells h bs" for c
    using that ok by (fastforce simp: cells_def heap_ok_def)
  ultimately have "base < a" "a \<notin> A" using same(2) by blast+
  have "arena base b h' bs' (insert a A)"
    using ar r(2,5) layout_take [of base b "cells h bs" A "block h" "{a ..< a + n}" a] r(4) assms(2)
      \<open>base < a\<close> \<open>a \<notin> A\<close> layout_cong [of "insert a A" "block h'" "(block h)(a := {a ..< a + n})"] blocks new
    by (simp add: arena_def)
  moreover have "freep h' \<noteq> None" using r(2) by (auto simp: heap_ok_def)
  ultimately show ?thesis using r(1,3) same(1) \<open>a \<notin> A\<close> by blast
qed

text \<open>\<open>sbrk\<close> never gives memory below the break; \<open>brk w\<close> is the break in the state \<open>w\<close>.\<close>

definition sbrk_ok :: "'w sbrk \<Rightarrow> ('w \<Rightarrow> nat) \<Rightarrow> bool" where
  "sbrk_ok sb brk \<longleftrightarrow> (\<forall>w n. case sb w n of (None, w') \<Rightarrow> brk w \<le> brk w' | (Some hp, w') \<Rightarrow> brk w \<le> hp \<and> brk w' = hp + n)"

lemma arena_mono: "arena base b h bs A \<Longrightarrow> b \<le> b' \<Longrightarrow> arena base b' h bs A"
  using layout_grow by (auto simp: arena_def)

lemma arena_low:
  assumes "arena base b h bs A" "c \<in> set (base # bs) \<union> A"
  shows "c < b"
proof -
  consider "c = base" | "c \<in> cells h bs" | "c \<in> A" "c \<in> block h c"
    using assms heap_block_in [of base h bs c] by (auto simp: arena_def layout_def)
  then show ?thesis
    by cases (use assms(1) in \<open>auto simp: arena_def layout_def\<close>)
qed

lemma arena_morecore:
  assumes "arena base (brk w) h bs A" "sbrk_ok sb brk"
  shows "\<exists>r h' w'. morecore sb n h w = Some (r, h', w') \<and>
    (case r of None \<Rightarrow> h' = h \<and> brk w \<le> brk w'
     | Some f \<Rightarrow> freep h' = Some f \<and> (\<exists>bs'. arena base (brk w') h' bs' A \<and> (\<exists>q\<in>set bs'. n \<le> siz h' q)) \<and>
         (\<forall>c\<in>A. siz h' c = siz h c))"
proof -
  define nu where "nu = (if n < 4096 then 4096 else n)"
  obtain r w' where sb: "sb w nu = (r, w')" by fastforce
  show ?thesis
  proof (cases r)
    case None
    then have "brk w \<le> brk w'" using assms(2) sb by (auto simp: sbrk_ok_def dest!: spec [of _ w] spec [of _ nu])
    then show ?thesis
      using None sb by (intro exI [of _ None] exI [of _ h] exI [of _ w']) (simp add: morecore_def nu_def [symmetric])
  next
    case (Some hp)
    then have hp: "brk w \<le> hp" "brk w' = hp + nu"
      using assms(2) sb by (auto simp: sbrk_ok_def dest!: spec [of _ w] spec [of _ nu])
    have nu: "0 < nu" "n \<le> nu" by (auto simp: nu_def)
    let ?h = "h\<lparr>siz := (siz h)(hp := nu)\<rparr>"
    have low: "c < hp" if "c \<in> set (base # bs) \<union> A" for c
      using arena_low [OF assms(1) that] hp(1) by simp
    then have out: "hp \<notin> set (base # bs)" "hp \<notin> A" by blast+
    then have cells: "cells ?h bs = cells h bs" by (intro cells_cong) auto
    have blocks: "block ?h c = block h c" if "c \<in> A" for c using that out by (auto simp: block_def)
    have new: "block ?h hp = {hp ..< hp + nu}" by (simp add: block_def)
    have "heap_ok base ?h bs" using assms(1) out by (simp add: arena_def heap_ok_def)
    moreover have "\<forall>a\<in>A. siz ?h a = siz h a" using out by auto
    moreover have "layout base (brk w') (cells h bs) (insert hp A) ((block h)(hp := {hp ..< hp + nu}))"
      using assms(1) layout_more [OF _ hp(1) nu(1) out(2)] hp(2) by (simp add: arena_def)
    moreover have eq: "\<forall>a\<in>insert hp A. block ?h a = ((block h)(hp := {hp ..< hp + nu})) a"
      using blocks new out by auto
    ultimately have "arena base (brk w') ?h bs (insert hp A)"
      unfolding arena_def cells layout_cong [OF eq] by simp
    from arena_free [OF this, of hp]
    obtain h' bs' where h': "free (hp + 1) ?h = Some h'" "arena base (brk w') h' bs' (insert hp A - {hp})"
        "cells h' bs' = block ?h hp \<union> cells ?h bs" "\<forall>c\<in>insert hp A - {hp}. siz h' c = siz ?h c"
      by auto
    have A: "insert hp A - {hp} = A" using out by simp
    have "\<exists>q\<in>set bs'. nu \<le> siz h' q"
    proof (rule cells_one_block)
      show "spaced (siz h') bs'" using h'(2) by (simp add: arena_def heap_ok_def)
      show "{hp ..< hp + nu} \<subseteq> cells h' bs'" using h'(3) new by simp
    qed (rule nu)
    then have fit: "\<exists>q\<in>set bs'. n \<le> siz h' q" using nu(2) order_trans by blast
    obtain f where f: "freep h' = Some f" using h'(2) by (auto simp: arena_def heap_ok_def)
    have "morecore sb n h w = Some (Some f, h', w')"
      using sb Some h'(1) f by (simp add: morecore_def nu_def [symmetric])
    then show ?thesis using h'(2,4) fit f out unfolding A
      by (intro exI [of _ "Some f"] exI [of _ h'] exI [of _ w']) auto
  qed
qed


text \<open>The state before the first call, or with an arena.\<close>

definition alloc_ok :: "nat \<Rightarrow> nat \<Rightarrow> heap \<Rightarrow> nat set \<Rightarrow> bool" where
  "alloc_ok base b h A \<longleftrightarrow> (if freep h = None then A = {} \<and> base < b else \<exists>bs. arena base b h bs A)"

lemma arena_freep: "arena base b h bs A \<Longrightarrow> freep h \<noteq> None"
  by (auto simp: arena_def heap_ok_def)

lemma arena_alloc_ok: "arena base b h bs A \<Longrightarrow> alloc_ok base b h A"
  using arena_freep [of base b h bs A] by (auto simp: alloc_ok_def)

text \<open>The search from \<open>freep\<close> on in an arena: it takes a block, or comes back to \<open>freep\<close>.\<close>

lemma arena_search:
  assumes ar: "arena base b h bs A" and f: "freep h = Some f" and "0 < n"
  shows "(\<exists>a h' bs'. malloc_loop sb n f (nxt h f) h w = Some (Some (a + 1), h', w) \<and> arena base b h' bs' (insert a A) \<and>
      a \<notin> A \<and> siz h' a = n \<and> (\<forall>c\<in>A. siz h' c = siz h c)) \<or>
    (\<forall>q\<in>set bs. siz h q < n) \<and> (\<exists>prev. malloc_loop sb n f (nxt h f) h w = malloc_loop sb n prev f h w \<and> siz h f < n)"
proof -
  have ok: "heap_ok base h bs" using ar by (simp add: arena_def)
  then have fR: "f \<in> set (base # bs)" "path (nxt h) base (base # bs) base" using f by (auto simp: heap_ok_def)
  obtain xs where xs: "path (nxt h) (nxt h f) xs f" "insert f (set xs) = set (base # bs)" "f \<notin> set xs"
    using ring_from [OF fR(2,1) heap_ok_distinct [OF ok]] by blast
  have "set xs \<subseteq> set (base # bs) - {f}" using xs(2,3) by blast
  from malloc_search [OF f xs(1) refl fR(1) this, of sb n w]
  obtain prev q where q: "malloc_loop sb n f (nxt h f) h w = malloc_loop sb n prev q h w" "nxt h prev = q"
      "prev \<in> set (base # bs)" "q \<in> set (base # bs)" "n \<le> siz h q \<or> q = f \<and> (\<forall>z\<in>set (base # bs). siz h z < n)"
    unfolding xs(2) by blast
  show ?thesis
  proof (cases "n \<le> siz h q")
    case True
    from arena_take [OF ar assms(3) True q(2,3,4), of sb w] show ?thesis unfolding q(1) by blast
  next
    case False
    then have "q = f" "\<forall>z\<in>set (base # bs). siz h z < n" using q(5) by blast+
    then show ?thesis using q(1) fR(1) by auto
  qed
qed

lemma arena_malloc:
  assumes ar: "arena base (brk w) h bs A" and f: "freep h = Some f" and "0 < n" "sbrk_ok sb brk"
  shows "\<exists>r h' w'. malloc_loop sb n f (nxt h f) h w = Some (r, h', w') \<and>
    (\<forall>c\<in>A. siz h' c = siz h c) \<and>
    (case r of
       None \<Rightarrow> (\<forall>q\<in>set bs. siz h q < n) \<and> (\<exists>bs'. arena base (brk w') h' bs' A)
     | Some ap \<Rightarrow> ap - 1 \<notin> A \<and> 0 < ap \<and> siz h' (ap - 1) = n \<and> (\<exists>bs'. arena base (brk w') h' bs' (insert (ap - 1) A)))"
proof -
  from arena_search [OF ar f assms(3), of sb w]
  consider a h' bs' where "malloc_loop sb n f (nxt h f) h w = Some (Some (a + 1), h', w)"
      "arena base (brk w) h' bs' (insert a A)" "a \<notin> A" "siz h' a = n" "\<forall>c\<in>A. siz h' c = siz h c"
    | prev where "malloc_loop sb n f (nxt h f) h w = malloc_loop sb n prev f h w" "siz h f < n" "\<forall>q\<in>set bs. siz h q < n"
    by blast
  then show ?thesis
  proof cases
    case 1
    then show ?thesis by (intro exI [of _ "Some (a + 1)"] exI [of _ h'] exI [of _ w]) auto
  next
    case 2
    obtain r h1 w1 where m: "morecore sb n h w = Some (r, h1, w1)"
      "case r of None \<Rightarrow> h1 = h \<and> brk w \<le> brk w1
       | Some f \<Rightarrow> freep h1 = Some f \<and> (\<exists>bs'. arena base (brk w1) h1 bs' A \<and> (\<exists>q\<in>set bs'. n \<le> siz h1 q)) \<and>
           (\<forall>c\<in>A. siz h1 c = siz h c)"
      using arena_morecore [OF ar assms(4), of n] by blast
    have step: "malloc_loop sb n prev f h w =
        (case r of None \<Rightarrow> Some (None, h1, w1) | Some p \<Rightarrow> malloc_loop sb n p (nxt h1 p) h1 w1)"
      using 2(2) f m(1) by (subst malloc_loop.simps) simp
    show ?thesis
    proof (cases r)
      case None
      then show ?thesis using m(2) step 2(1,3) arena_mono [OF ar]
        by (intro exI [of _ None] exI [of _ h1] exI [of _ w1]) auto
    next
      case (Some f1)
      obtain bs1 where b1: "freep h1 = Some f1" "arena base (brk w1) h1 bs1 A" "\<exists>q\<in>set bs1. n \<le> siz h1 q"
          "\<forall>c\<in>A. siz h1 c = siz h c"
        using m(2) Some by auto
      then obtain a h' bs' where "malloc_loop sb n f1 (nxt h1 f1) h1 w1 = Some (Some (a + 1), h', w1)"
          "arena base (brk w1) h' bs' (insert a A)" "a \<notin> A" "siz h' a = n" "\<forall>c\<in>A. siz h' c = siz h1 c"
        using arena_search [OF b1(2,1) assms(3), of sb w1] by (auto simp: not_less [symmetric])
      then show ?thesis using step 2(1) Some b1(4)
        by (intro exI [of _ "Some (a + 1)"] exI [of _ h'] exI [of _ w1]) auto
    qed
  qed
qed

lemma units_pos: "0 < units n"
  by (simp add: units_def)

lemma malloc_fresh:
  assumes "alloc_ok base (brk w) h A" "sbrk_ok sb brk"
  shows "\<exists>r h' w'. malloc base sb nbytes h w = Some (r, h', w') \<and> (\<forall>c\<in>A. siz h' c = siz h c) \<and>
    (case r of
       None \<Rightarrow> alloc_ok base (brk w') h' A
     | Some ap \<Rightarrow> ap - 1 \<notin> A \<and> nbytes \<le> header_size * (siz h' (ap - 1) - 1) \<and>
         alloc_ok base (brk w') h' (insert (ap - 1) A))"
proof -
  define h0 where "h0 = (if freep h = None
    then h\<lparr>nxt := (nxt h)(base := base), freep := Some base, siz := (siz h)(base := 0)\<rparr> else h)"
  obtain bs where ar: "arena base (brk w) h0 bs A" and A: "\<forall>c\<in>A. siz h0 c = siz h c"
  proof (cases "freep h = None")
    case True
    then have "arena base (brk w) h0 [] A"
      using assms(1) by (simp add: h0_def alloc_ok_def arena_def heap_ok_def layout_def)
    then show thesis using that True assms(1) by (simp add: alloc_ok_def)
  next
    case False
    then show thesis using that assms(1) by (auto simp: alloc_ok_def h0_def)
  qed
  obtain f where f: "freep h0 = Some f" using arena_freep [OF ar] by blast
  have size: "nbytes \<le> header_size * (units nbytes - 1)" by (simp add: units_def header_size_def)
  have loop: "malloc base sb nbytes h w = malloc_loop sb (units nbytes) f (nxt h0 f) h0 w"
    unfolding malloc_def h0_def [symmetric] using f by simp
  obtain r h' w' where m: "malloc_loop sb (units nbytes) f (nxt h0 f) h0 w = Some (r, h', w')"
      "\<forall>c\<in>A. siz h' c = siz h0 c"
      "case r of None \<Rightarrow> (\<forall>q\<in>set bs. siz h0 q < units nbytes) \<and> (\<exists>bs'. arena base (brk w') h' bs' A)
       | Some ap \<Rightarrow> ap - 1 \<notin> A \<and> 0 < ap \<and> siz h' (ap - 1) = units nbytes \<and>
           (\<exists>bs'. arena base (brk w') h' bs' (insert (ap - 1) A))"
    using arena_malloc [OF ar f units_pos assms(2), of nbytes] by blast
  have some: "alloc_ok base b h' B" if "\<exists>bs'. arena base b h' bs' B" for b B
    using that arena_alloc_ok by blast
  show ?thesis
  proof (intro exI conjI)
    show "malloc base sb nbytes h w = Some (r, h', w')" using loop m(1) by simp
    show "\<forall>c\<in>A. siz h' c = siz h c" using m(2) A by simp
    show "case r of
       None \<Rightarrow> alloc_ok base (brk w') h' A
     | Some ap \<Rightarrow> ap - 1 \<notin> A \<and> nbytes \<le> header_size * (siz h' (ap - 1) - 1) \<and>
         alloc_ok base (brk w') h' (insert (ap - 1) A)"
      using m(3) size some by (cases r) simp_all
  qed
qed

text \<open>
  \<open>malloc\<close> always returns, and what it returns is fresh memory: from the first call on, with whatever
  blocks are allocated, the search through the ring ends; the block that comes back is large enough
  for the request and its header, shares no unit with an allocated block or with the free list that
  is left, and no allocated block has changed its size.  The null pointer comes back only if \<open>sbrk\<close>
  fails, and then the allocated blocks stand as before.
\<close>

theorem malloc_correct:
  assumes "alloc_ok base (brk w) h A" "sbrk_ok sb brk"
  shows "\<exists>r h' w'. malloc base sb nbytes h w = Some (r, h', w') \<and> (\<forall>c\<in>A. siz h' c = siz h c) \<and>
    (case r of
       None \<Rightarrow> alloc_ok base (brk w') h' A
     | Some ap \<Rightarrow> ap - 1 \<notin> A \<and> nbytes \<le> header_size * (siz h' (ap - 1) - 1) \<and>
         alloc_ok base (brk w') h' (insert (ap - 1) A))"
  using assms by (rule malloc_fresh)

definition bump :: "nat sbrk" where
  "bump w n = (Some w, w + n)"

lemma bump_ok: "sbrk_ok bump (\<lambda>w. w)"
  by (simp add: sbrk_ok_def bump_def)

definition heap0 :: heap where
  "heap0 = \<lparr>nxt = \<lambda>a. 0, siz = \<lambda>a. 0, freep = None\<rparr>"

theorem malloc_correct_witness: "\<exists>r h w. malloc 10 bump 100 heap0 2000 = Some (r, h, w)"
proof -
  have "alloc_ok 10 2000 heap0 {}" by (simp add: alloc_ok_def heap0_def)
  from malloc_correct [OF this bump_ok, of 100] show ?thesis by blast
qed



subsection \<open>Programs that allocate\<close>

text \<open>
  A program's calls: it frees only what it has.  The state is the heap, the address space and the
  allocated blocks.
\<close>

datatype call = Malloc nat | Free nat

fun alloc_step :: "nat \<Rightarrow> 'w sbrk \<Rightarrow> call \<Rightarrow> heap \<times> 'w \<times> nat set \<Rightarrow> (heap \<times> 'w \<times> nat set) option" where
  "alloc_step base sb (Malloc n) (h, w, A) =
     map_option (\<lambda>(r, h, w). (h, w, case r of None \<Rightarrow> A | Some ap \<Rightarrow> insert (ap - 1) A)) (malloc base sb n h w)"
| "alloc_step base sb (Free ap) (h, w, A) =
     (if 0 < ap \<and> ap - 1 \<in> A then map_option (\<lambda>h. (h, w, A - {ap - 1})) (free ap h) else Some (h, w, A))"


lemma alloc_step_ok:
  assumes "sbrk_ok sb brk" "alloc_ok base (brk w) h A"
  shows "\<exists>h' w' A'. alloc_step base sb c (h, w, A) = Some (h', w', A') \<and> alloc_ok base (brk w') h' A'"
proof (cases c)
  case (Malloc n)
  obtain r h' w' where m: "malloc base sb n h w = Some (r, h', w')"
    "case r of None \<Rightarrow> alloc_ok base (brk w') h' A
     | Some ap \<Rightarrow> ap - 1 \<notin> A \<and> n \<le> header_size * (siz h' (ap - 1) - 1) \<and> alloc_ok base (brk w') h' (insert (ap - 1) A)"
    using malloc_fresh [OF assms(2,1), of n] by blast
  then show ?thesis using Malloc by (cases r) auto
next
  case (Free ap)
  show ?thesis
  proof (cases "0 < ap \<and> ap - 1 \<in> A")
    case True
    then obtain bs where bs: "arena base (brk w) h bs A" using assms(2) by (auto simp: alloc_ok_def split: if_splits)
    obtain h' bs' where "free (ap - 1 + 1) h = Some h'" "arena base (brk w) h' bs' (A - {ap - 1})"
      using arena_free [OF bs] True by blast
    moreover from this(2) have "alloc_ok base (brk w) h' (A - {ap - 1})"
      by (rule arena_alloc_ok)
    ultimately show ?thesis using Free True by auto
  qed (use Free assms(2) in auto)
qed

text \<open>
  C3. No program can make the allocator hand out memory twice: whatever sequence of allocations and
  releases a program goes through, sizes and failures of \<open>sbrk\<close> included, every call returns, and
  the blocks it has at the end are pairwise disjoint, with their sizes intact below the break.
\<close>

theorem allocations_stay_apart:
  assumes "sbrk_ok sb brk" "alloc_ok base (brk w) h A"
  shows "\<exists>h' w' A'. run_steps (alloc_step base sb) cs (h, w, A) = Some (h', w', A') \<and>
    (\<forall>a\<in>A'. 0 < siz h' a \<and> a + siz h' a \<le> brk w' \<and>
      (\<forall>c\<in>A'. a \<noteq> c \<longrightarrow> {a ..< a + siz h' a} \<inter> {c ..< c + siz h' c} = {}))"
proof -
  have run: "\<exists>h' w' A'. run_steps (alloc_step base sb) cs (h, w, A) = Some (h', w', A') \<and> alloc_ok base (brk w') h' A'"
    using assms(2)
  proof (induction cs arbitrary: h w A)
    case (Cons c cs)
    obtain h1 w1 A1 where "alloc_step base sb c (h, w, A) = Some (h1, w1, A1)" "alloc_ok base (brk w1) h1 A1"
      using alloc_step_ok [OF assms(1) Cons.prems] by blast
    then show ?case using Cons.IH by simp
  qed simp
  have apart: "(\<forall>a\<in>A. 0 < siz h a \<and> a + siz h a \<le> b \<and>
      (\<forall>c\<in>A. a \<noteq> c \<longrightarrow> {a ..< a + siz h a} \<inter> {c ..< c + siz h c} = {}))" if ok: "alloc_ok base b h A" for b h A
  proof (cases "A = {}")
    case False
    then obtain bs where "layout base b (cells h bs) A (block h)" using ok by (auto simp: alloc_ok_def arena_def split: if_splits)
    then have "\<forall>a\<in>A. 0 < siz h a \<and> block h a \<subseteq> {..< b}" "\<forall>a\<in>A. \<forall>c\<in>A. a \<noteq> c \<longrightarrow> block h a \<inter> block h c = {}"
      by (simp_all add: layout_def block_in)
    then have l: "\<forall>a\<in>A. 0 < siz h a \<and> {a ..< a + siz h a} \<subseteq> {..< b}"
      "\<forall>a\<in>A. \<forall>c\<in>A. a \<noteq> c \<longrightarrow> {a ..< a + siz h a} \<inter> {c ..< c + siz h c} = {}"
      unfolding block_def by - assumption+
    have "a + siz h a \<le> b" if "a \<in> A" for a
    proof -
      have "a + siz h a - 1 \<in> {a ..< a + siz h a}" using l(1) that by auto
      then show ?thesis using l(1) that by fastforce
    qed
    then show ?thesis using l by blast
  qed simp
  show ?thesis using run apart by meson
qed

theorem allocations_stay_apart_witness:
  "\<exists>h w A. run_steps (alloc_step 10 bump) [Malloc 100, Malloc 5000, Free 2001, Malloc 8] (heap0, 2000, {}) = Some (h, w, A)"
proof -
  have "alloc_ok 10 2000 heap0 {}" by (simp add: alloc_ok_def heap0_def)
  from allocations_stay_apart [OF bump_ok this] show ?thesis by blast
qed

end
