(* ===== verification/Io.thy ===== *)
theory Io
  imports Ulib "HOL-Library.Monad_Syntax"
begin

section \<open>Reading from a descriptor\<close>

text \<open>
  The programs read a descriptor piece by piece.  \<open>read\<close> is a parameter: from the state of the
  descriptor and the size of the buffer it gives the bytes and the next state, or \<^const>\<open>None\<close> for an
  error.  \<open>reads rd contents\<close> is what its documentation promises of a descriptor whose reads do not
  fail: the pieces, however short, follow each other through the contents, and an empty one is
  the end of the file unless nothing was asked for.
\<close>

type_synonym 's reader = "'s \<Rightarrow> nat \<Rightarrow> (string \<times> 's) option"

definition reads :: "'s reader \<Rightarrow> ('s \<Rightarrow> string) \<Rightarrow> bool" where
  "reads rd contents \<longleftrightarrow>
     (\<forall>s n. \<exists>bs s'. rd s n = Some (bs, s') \<and> contents s = bs @ contents s' \<and> length bs \<le> n \<and>
       (bs = [] \<longrightarrow> n = 0 \<or> contents s = []))"

lemma readsE:
  assumes "reads rd contents"
  obtains bs s' where "rd s n = Some (bs, s')" "contents s = bs @ contents s'" "length bs \<le> n"
    "bs = [] \<longrightarrow> n = 0 \<or> contents s = []"
  using assms unfolding reads_def by meson

lemma reads_shorter:
  "reads rd contents \<Longrightarrow> rd s n = Some (bs, s') \<Longrightarrow> bs \<noteq> [] \<Longrightarrow> length (contents s') < length (contents s)"
  by (erule readsE [of rd contents s n]) auto

text \<open>Two readers that keep the promise: one that fills the buffer, one that gives single bytes.\<close>

definition full_reads :: "string reader" where
  "full_reads s n = Some (take n s, drop n s)"

definition byte_reads :: "string reader" where
  "byte_reads s n = Some (take (min n 1) s, drop (min n 1) s)"

lemma reads_full: "reads full_reads (\<lambda>s. s)"
  by (auto simp: reads_def full_reads_def)

lemma reads_byte: "reads byte_reads (\<lambda>s. s)"
  by (auto simp: reads_def byte_reads_def min_def)

end
