(* ===== verification/Grep.thy ===== *)
theory Grep
  imports Io
begin

section \<open>grep.c\<close>

text \<open>
  The matcher of Kernighan and Pike, its meaning as a language, and the loop that cuts the input into
  lines inside a buffer of 1024 bytes.
\<close>

subsection \<open>The matcher\<close>

function matchhere :: "string \<Rightarrow> string \<Rightarrow> bool" and matchstar :: "char \<Rightarrow> string \<Rightarrow> string \<Rightarrow> bool" where
  "matchhere re str =
     (if re = [] then True
      else if deref (tl re) = CHR ''*'' then matchstar (hd re) (drop 2 re) str
      else if hd re = CHR ''$'' \<and> tl re = [] then str = []
      else if str \<noteq> [] \<and> (hd re = CHR ''.'' \<or> hd re = hd str) then matchhere (tl re) (tl str)
      else False)"
| "matchstar c re str =
     (if matchhere re str then True
      else if str \<noteq> [] \<and> (hd str = c \<or> c = CHR ''.'') then matchstar c re (tl str)
      else False)"
  by pat_completeness auto
termination
proof (relation "measure (\<lambda>x. case x of
    Inl (re, str) \<Rightarrow> 2 * (length re + length str) | Inr (c, re, str) \<Rightarrow> 2 * (length re + length str) + 1)", goal_cases)
  case (2 re str)
  then obtain x y u where "re = x # y # u" by (cases re; cases "tl re") auto
  then show ?case by simp
next
  case (3 re str)
  then show ?case by (cases re; cases str) auto
next
  case (5 c re str)
  then show ?case by (cases str) auto
qed auto

declare matchhere.simps [simp del] matchstar.simps [simp del]

fun match_loop :: "string \<Rightarrow> string \<Rightarrow> bool" where
  "match_loop re [] = matchhere re []"
| "match_loop re (c # str) = (matchhere re (c # str) \<or> match_loop re str)"

definition match :: "string \<Rightarrow> string \<Rightarrow> bool" where
  "match re str = (if deref re = CHR ''^'' then matchhere (tl re) str else match_loop re str)"

subsection \<open>What an expression means\<close>

datatype item = One char | Star char

text \<open>The expression as a list of items, and whether it ends in an anchor.\<close>

fun items :: "string \<Rightarrow> item list \<times> bool" where
  "items [] = ([], False)"
| "items [c] = (if c = CHR ''$'' then ([], True) else ([One c], False))"
| "items (c # d # re) =
     (if d = CHR ''*'' then apfst ((#) (Star c)) (items re) else apfst ((#) (One c)) (items (d # re)))"

definition sat :: "char \<Rightarrow> char \<Rightarrow> bool" where
  "sat c x \<longleftrightarrow> c = CHR ''.'' \<or> c = x"

fun lang :: "item list \<Rightarrow> string set" where
  "lang [] = {[]}"
| "lang (One c # is) = {x # w |x w. sat c x \<and> w \<in> lang is}"
| "lang (Star c # is) = {u @ w |u w. list_all (sat c) u \<and> w \<in> lang is}"

text \<open>A prefix of the str is in the language, the whole of it when the expression is anchored.\<close>

definition here :: "item list \<times> bool \<Rightarrow> string \<Rightarrow> bool" where
  "here r str \<longleftrightarrow> (\<exists>u v. str = u @ v \<and> u \<in> lang (fst r) \<and> (snd r \<longrightarrow> v = []))"

lemma here_Nil: "here ([], e) str \<longleftrightarrow> (e \<longrightarrow> str = [])"
  by (auto simp: here_def)

lemma here_One: "here (One c # is, e) str \<longleftrightarrow> str \<noteq> [] \<and> sat c (hd str) \<and> here (is, e) (tl str)"
  by (cases str) (auto simp: here_def Cons_eq_append_conv)

lemma here_StarI:
  "list_all (sat c) u \<Longrightarrow> w \<in> lang is \<Longrightarrow> e \<longrightarrow> v = [] \<Longrightarrow> here (Star c # is, e) (u @ w @ v)"
  unfolding here_def by (intro exI [of _ "u @ w"] exI [of _ v]) auto

lemma here_StarE:
  assumes "here (Star c # is, e) str"
  obtains u w v where "str = u @ w @ v" "list_all (sat c) u" "w \<in> lang is" "e \<longrightarrow> v = []"
proof -
  obtain y v where y: "str = y @ v" "y \<in> lang (Star c # is)" "e \<longrightarrow> v = []"
    using assms unfolding here_def by auto
  then obtain u w where "y = u @ w" "list_all (sat c) u" "w \<in> lang is" by auto
  with y show thesis by (intro that [of u w v]) simp_all
qed

lemma here_Star:
  "here (Star c # is, e) str \<longleftrightarrow>
     here (is, e) str \<or> str \<noteq> [] \<and> sat c (hd str) \<and> here (Star c # is, e) (tl str)"
proof
  assume "here (Star c # is, e) str"
  then obtain u w v where t: "str = u @ w @ v" "list_all (sat c) u" "w \<in> lang is" "e \<longrightarrow> v = []"
    by (rule here_StarE)
  show "here (is, e) str \<or> str \<noteq> [] \<and> sat c (hd str) \<and> here (Star c # is, e) (tl str)"
  proof (cases u)
    case Nil
    then show ?thesis using t by (auto simp: here_def)
  next
    case (Cons x u')
    then have "here (Star c # is, e) (u' @ w @ v)" using t by (intro here_StarI) auto
    then show ?thesis using Cons t by simp
  qed
next
  have "here (Star c # is, e) str" if "here (is, e) str"
    using that here_StarI [of c "[]" _ "is"] by (auto simp: here_def [of "(is, e)"])
  moreover have "here (Star c # is, e) (x # t)" if x: "sat c x" and h: "here (Star c # is, e) t" for x t
    using h
  proof (rule here_StarE)
    fix u w v assume "t = u @ w @ v" "list_all (sat c) u" "w \<in> lang is" "e \<longrightarrow> v = []"
    then show ?thesis using x here_StarI [of c "x # u" w "is" e v] by simp
  qed
  ultimately show "here (is, e) str \<or> str \<noteq> [] \<and> sat c (hd str) \<and> here (Star c # is, e) (tl str) \<Longrightarrow>
      here (Star c # is, e) str"
    by (cases str) auto
qed

lemma items_Cons2: "items (c # d # re) =
    (if d = CHR ''*'' then (Star c # fst (items re), snd (items re))
     else (One c # fst (items (d # re)), snd (items (d # re))))"
  by (simp add: apfst_def map_prod_def split: prod.splits)

lemma matchhere_here:
  "matchhere re str = here (items re) str"
  "matchstar c re str = here (Star c # fst (items re), snd (items re)) str"
proof (induction re str and c re str rule: matchhere_matchstar.induct)
  case (1 re str)
  consider "re = []" | c where "re = [c]" | c d r where "re = c # d # r"
    by (cases re; cases "tl re") auto
  then show ?case
  proof cases
    case 1
    then show ?thesis by (simp add: matchhere.simps here_Nil)
  next
    case 2
    then show ?thesis
      by (cases str) (auto simp: matchhere.simps [of "[c]"] matchhere.simps [of "[]"] here_Nil here_One sat_def)
  next
    case 3
    then show ?thesis
      using "1.IH" by (auto simp: matchhere.simps [of "c # d # r"] items_Cons2 here_One sat_def simp del: items.simps)
  qed
next
  case (2 c re str)
  then show ?case
    by (subst matchstar.simps, subst here_Star) (auto simp: sat_def)
qed

text \<open>
  C15. \<open>match\<close> finds what the expression means: a str matches exactly when some part of it is in the
  language of the expression, a part at its start if the expression begins with a caret, a part at
  its end if it ends with a dollar sign.
\<close>

theorem match_meaning:
  "match re str \<longleftrightarrow>
     (let (anchored, r) = (if deref re = CHR ''^'' then (True, items (tl re)) else (False, items re)) in
      \<exists>u v w. str = u @ v @ w \<and> v \<in> lang (fst r) \<and> (anchored \<longrightarrow> u = []) \<and> (snd r \<longrightarrow> w = []))"
proof -
  have "match_loop re t \<longleftrightarrow> (\<exists>u v. t = u @ v \<and> here (items re) v)" for t
  proof (induction t)
    case (Cons c t)
    have "(\<exists>u v. c # t = u @ v \<and> here (items re) v) \<longleftrightarrow> here (items re) (c # t) \<or> (\<exists>u v. t = u @ v \<and> here (items re) v)"
      by (auto simp: Cons_eq_append_conv)
    with Cons show ?case by (simp add: matchhere_here(1))
  qed (simp add: matchhere_here(1))
  then show ?thesis
    by (auto simp: match_def matchhere_here(1) here_def)
qed


theorem match_meaning_witness: "match ''b$'' ''ab'' \<longleftrightarrow> (\<exists>u v. ''ab'' = u @ v \<and> v \<in> lang [One (CHR ''b'')])"
  using match_meaning [of "''b$''" "''ab''"] by simp

subsection \<open>The input loop\<close>

abbreviation NL :: char where "NL \<equiv> CHR 0x0a"

text \<open>
  \<open>wr k\<close> says whether the write of the \<open>k\<close>th line succeeds; a failed one ends the program with
  status 1, which is the left value.  The inner loop gives the bytes behind the last newline and the
  lines written so far; the search for the newline stops at a NUL.
\<close>

lemma strchr_length: "strchr s c = Some t \<Longrightarrow> length t \<le> length s \<and> t \<noteq> []"
  by (induction s) (auto split: if_splits)

lemma strchr_within: "strchr (takeWhile P s) c = Some t \<Longrightarrow> length (drop (Suc k) s) < length s"
  using strchr_length [of "takeWhile P s" c t] by (cases s) auto

function scan_lines ::
    "(nat \<Rightarrow> bool) \<Rightarrow> string \<Rightarrow> string \<Rightarrow> string list \<Rightarrow> string list + string \<times> string list" where
  "scan_lines wr re p out =
     (let z = takeWhile (\<lambda>c. c \<noteq> NUL) p in
      case strchr z NL of
        None \<Rightarrow> Inr (p, out)
      | Some q \<Rightarrow>
          let line = take (length z - length q) p; rest = drop (length z - length q + 1) p in
          if match re line
          then (if wr (length out) then scan_lines wr re rest (out @ [line @ [NL]]) else Inl out)
          else scan_lines wr re rest out)"
  by pat_completeness auto
termination
  by (relation "measure (\<lambda>(wr, re, p, out). length p)")
    (simp_all add: strchr_within del: length_drop)

declare scan_lines.simps [simp del]

partial_function (option) grep_loop ::
    "'s reader \<Rightarrow> (nat \<Rightarrow> bool) \<Rightarrow> string \<Rightarrow> 's \<Rightarrow> string \<Rightarrow> string list \<Rightarrow> (string list + string list) option" where
  "grep_loop rd wr re fd buf out =
     (case rd fd (1024 - length buf - 1) of
        None \<Rightarrow> Some (Inr out)
      | Some (bs, fd) \<Rightarrow>
          if bs = [] then Some (Inr out)
          else (case scan_lines wr re (buf @ bs) out of
                  Inl out \<Rightarrow> Some (Inl out)
                | Inr (buf, out) \<Rightarrow> grep_loop rd wr re fd buf out))"

definition grep :: "'s reader \<Rightarrow> (nat \<Rightarrow> bool) \<Rightarrow> string \<Rightarrow> 's \<Rightarrow> string list \<Rightarrow> (string list + string list) option" where
  "grep rd wr re fd out = grep_loop rd wr re fd [] out"

text \<open>\<open>main\<close> on the files of its command line: the exit status and the lines written.\<close>

fun grep_files ::
    "(string \<Rightarrow> 's option) \<Rightarrow> 's reader \<Rightarrow> (nat \<Rightarrow> bool) \<Rightarrow> string \<Rightarrow> string list \<Rightarrow> string list \<Rightarrow> (nat \<times> string list) option" where
  "grep_files opn rd wr re [] out = Some (0, out)"
| "grep_files opn rd wr re (f # fs) out =
     (case opn f of
        None \<Rightarrow> Some (1, out @ [''grep: cannot open '' @ f @ [NL]])
      | Some fd \<Rightarrow> do {
          r \<leftarrow> grep rd wr re fd out;
          case r of Inl out \<Rightarrow> Some (1, out) | Inr out \<Rightarrow> grep_files opn rd wr re fs out
        })"

definition grep_main ::
    "(string \<Rightarrow> 's option) \<Rightarrow> 's \<Rightarrow> 's reader \<Rightarrow> (nat \<Rightarrow> bool) \<Rightarrow> string list \<Rightarrow> (nat \<times> string list) option" where
  "grep_main opn stdin rd wr args =
     (case args of
        [] \<Rightarrow> Some (1, [])
      | [re] \<Rightarrow> map_option (\<lambda>r. case r of Inl out \<Rightarrow> (1, out) | Inr out \<Rightarrow> (0, out)) (grep rd wr re stdin [])
      | re # fs \<Rightarrow> grep_files opn rd wr re fs [])"

text \<open>The complete lines of a text and what stands behind the last newline.\<close>

fun split_lines :: "string \<Rightarrow> string list \<times> string" where
  "split_lines [] = ([], [])"
| "split_lines (c # s) =
     (case split_lines s of (ls, r) \<Rightarrow>
        if c = NL then ([] # ls, r)
        else case ls of [] \<Rightarrow> ([], c # r) | l # ls \<Rightarrow> ((c # l) # ls, r))"

lemma split_lines_none [simp]: "NL \<notin> set s \<Longrightarrow> split_lines s = ([], s)"
  by (induction s) auto

lemma split_lines_line [simp]: "NL \<notin> set l \<Longrightarrow> split_lines (l @ NL # s) = (l # fst (split_lines s), snd (split_lines s))"
  by (induction l) (auto split: prod.splits)

lemma split_lines_append:
  "split_lines (a @ b) =
     (fst (split_lines a) @ fst (split_lines (snd (split_lines a) @ b)), snd (split_lines (snd (split_lines a) @ b)))"
proof (induction "length a" arbitrary: a rule: less_induct)
  case less
  show ?case
  proof (cases "NL \<in> set a")
    case True
    then obtain l t where a: "a = l @ NL # t" "NL \<notin> set l" by (meson split_list_first)
    then have "length t < length a" by simp
    with less [of t] a show ?thesis by simp
  qed simp
qed

lemma split_lines_rest: "NL \<notin> set (snd (split_lines s))"
  by (induction s) (auto split: prod.splits list.splits)

lemma split_lines_set: "set (snd (split_lines s)) \<subseteq> set s"
  by (induction s) (auto split: prod.splits list.splits)

lemma scan_lines_split:
  assumes "cstring p" "\<forall>k. wr k"
  shows "scan_lines wr re p out =
    Inr (snd (split_lines p), out @ map (\<lambda>l. l @ [NL]) (filter (match re) (fst (split_lines p))))"
  using assms(1)
proof (induction "length p" arbitrary: p out rule: less_induct)
  case less
  have z: "takeWhile (\<lambda>c. c \<noteq> NUL) p = p"
    using less.prems by (auto simp: cstring_def takeWhile_eq_all_conv)
  show ?case
  proof (cases "NL \<in> set p")
    case True
    then obtain l t where p: "p = l @ NL # t" "NL \<notin> set l" by (meson split_list_first)
    then have q: "strchr p NL = Some (NL # t)" using strchr_split by metis
    have "length t < length p" "cstring t" using p less.prems by simp_all
    note IH = less.hyps [OF this]
    have parts: "take (length p - length (NL # t)) p = l" "drop (length p - length (NL # t) + 1) p = t"
      "split_lines p = (l # fst (split_lines t), snd (split_lines t))"
      using p by simp_all
    show ?thesis
      by (subst scan_lines.simps, unfold z q Let_def option.case parts) (simp add: IH assms(2))
  next
    case False
    then have none: "strchr p NL = None" by simp
    show ?thesis using False by (subst scan_lines.simps, unfold z Let_def none) simp
  qed
qed

definition short_lines :: "string \<Rightarrow> bool" where
  "short_lines s \<longleftrightarrow> list_all (\<lambda>l. length l \<le> 1022) (snd (split_lines s) # fst (split_lines s))"

lemma short_lines_prefix: "short_lines (m @ s) \<Longrightarrow> NL \<notin> set m \<Longrightarrow> length m \<le> 1022"
proof (cases "NL \<in> set s")
  case True
  assume h: "short_lines (m @ s)" "NL \<notin> set m"
  obtain l t where "s = l @ NL # t" "NL \<notin> set l" using True by (meson split_list_first)
  then show ?thesis using h split_lines_line [of "m @ l" t] by (simp add: short_lines_def)
qed (simp add: short_lines_def)

lemma grep_loop_lines:
  assumes "reads rd contents" "\<forall>k. wr k"
  shows "cstring (buf @ contents fd) \<Longrightarrow> short_lines (buf @ contents fd) \<Longrightarrow> NL \<notin> set buf \<Longrightarrow>
    grep_loop rd wr re fd buf out =
      Some (Inr (out @ map (\<lambda>l. l @ [NL]) (filter (match re) (fst (split_lines (buf @ contents fd))))))"
proof (induction "length (contents fd)" arbitrary: fd buf out rule: less_induct)
  case less
  have len: "length buf \<le> 1022" using short_lines_prefix less.prems by blast
  obtain bs fd' where r: "rd fd (1024 - length buf - 1) = Some (bs, fd')" "contents fd = bs @ contents fd'"
      "bs = [] \<longrightarrow> 1024 - length buf - 1 = 0 \<or> contents fd = []"
    using assms(1) by (rule readsE [of rd contents fd "1024 - length buf - 1"])
  show ?case
  proof (cases "bs = []")
    case True
    then have "contents fd = []" using r(3) len by simp
    then show ?thesis using True r(1) less.prems(3) by (subst grep_loop.simps) simp
  next
    case False
    let ?l = "split_lines (buf @ bs)"
    have "buf @ contents fd = (buf @ bs) @ contents fd'" using r(2) by simp
    note split = split_lines_append [of "buf @ bs" "contents fd'", folded this]
    have "cstring (buf @ bs)" using less.prems(1) r(2) by simp
    note scan = scan_lines_split [OF this assms(2), of re out]
    have pend: "cstring (snd ?l)" using split_lines_set cstring_sub \<open>cstring (buf @ bs)\<close> by metis
    have "length (contents fd') < length (contents fd)" using r(2) False by simp
    from less.hyps [OF this, of "snd ?l" "out @ map (\<lambda>l. l @ [NL]) (filter (match re) (fst ?l))"]
    show ?thesis
      using r(1) False scan pend less.prems(1,2) split_lines_rest [of "buf @ bs"] r(2) split
      by (subst grep_loop.simps) (simp add: short_lines_def)
  qed
qed


text \<open>
  C16. grep prints exactly the lines that match: on input without NUL bytes and with lines of at most
  1022 bytes, however it arrives in pieces, the loop ends, and what it has written are the complete
  lines that match, in order.  A last line without a newline is never tried.
\<close>

theorem grep_prints_matches:
  assumes "reads rd contents" "\<forall>k. wr k" "cstring (contents fd)" "short_lines (contents fd)"
  shows "grep rd wr re fd out =
    Some (Inr (out @ map (\<lambda>l. l @ [NL]) (filter (match re) (fst (split_lines (contents fd))))))"
  unfolding grep_def using grep_loop_lines [OF assms(1,2), of "[]"] assms(3,4) by simp

theorem grep_prints_matches_witness:
  "grep byte_reads (\<lambda>k. True) ''b*c$'' (''abbc'' @ NL # ''cd'' @ NL # ''c'') [] = Some (Inr [''abbc'' @ [NL]])"
proof -
  let ?s = "''abbc'' @ NL # ''cd'' @ NL # ''c''"
  have "grep byte_reads (\<lambda>k. True) ''b*c$'' ?s [] =
      Some (Inr ([] @ map (\<lambda>l. l @ [NL]) (filter (match ''b*c$'') (fst (split_lines ?s)))))"
    by (rule grep_prints_matches [OF reads_byte]) (simp_all add: short_lines_def)
  then show ?thesis by (simp add: match_def matchhere.simps matchstar.simps)
qed

text \<open>
  A line that does not fit the buffer ends the search: when 1023 bytes without a newline stand at
  the start of the input, the buffer is full, the next read asks for nothing and looks like the end
  of the file, and no later line is tried.
\<close>

theorem grep_long_line_stops:
  assumes "reads rd contents" "contents fd = l @ rest" "length l = 1023" "NL \<notin> set l"
  shows "grep rd wr re fd out = Some (Inr out)"
proof -
  have scan: "scan_lines wr re p out = Inr (p, out)" if "NL \<notin> set p" for p
  proof -
    have "NL \<notin> set (takeWhile (\<lambda>c. c \<noteq> NUL) p)" using that by (auto dest: set_takeWhileD)
    then have none: "strchr (takeWhile (\<lambda>c. c \<noteq> NUL) p) NL = None" by simp
    show ?thesis by (subst scan_lines.simps, unfold Let_def none) simp
  qed
  have "grep_loop rd wr re fd buf out = Some (Inr out)" if "buf @ contents fd = l @ rest" "length buf \<le> 1023" for buf fd
    using that
  proof (induction "1023 - length buf" arbitrary: buf fd rule: less_induct)
    case less
    obtain bs fd' where r: "rd fd (1024 - length buf - 1) = Some (bs, fd')" "contents fd = bs @ contents fd'"
        "length bs \<le> 1024 - length buf - 1" "bs = [] \<longrightarrow> 1024 - length buf - 1 = 0 \<or> contents fd = []"
      using assms(1) by (rule readsE [of rd contents fd "1024 - length buf - 1"])
    show ?case
    proof (cases "bs = []")
      case False
      have b: "(buf @ bs) @ contents fd' = l @ rest" using less.prems(1) r(2) by simp
      moreover have le: "length (buf @ bs) \<le> 1023" using r(3) less.prems(2) by simp
      ultimately have "buf @ bs = take (length (buf @ bs)) l"
        using assms(3) by (metis append_eq_conv_conj take_append diff_is_0_eq take_0 append_Nil2)
      then have "NL \<notin> set (buf @ bs)" using assms(4) by (metis in_set_takeD)
      moreover have "1023 - length (buf @ bs) < 1023 - length buf"
        using False r(3) by (cases bs) auto
      ultimately show ?thesis
        using less.hyps [OF _ b le] r(1) False scan by (subst grep_loop.simps) simp
    qed (use r(1) in \<open>subst grep_loop.simps, simp\<close>)
  qed
  from this [of "[]" fd] show ?thesis using assms(2) by (simp add: grep_def)
qed

theorem grep_long_line_stops_witness:
  "grep full_reads (\<lambda>k. True) ''x'' (replicate 1023 (CHR ''a'') @ NL # ''x'' @ [NL]) [] = Some (Inr [])"
  by (rule grep_long_line_stops [OF reads_full, of _ "replicate 1023 (CHR ''a'')"]) simp_all

end
