(* ===== verification/Wc.thy ===== *)
theory Wc
  imports Io Printf
begin

section \<open>wc.c\<close>

text \<open>
  The counters are \<open>int\<close>s that wrap; the bytes come in pieces of at most 512, and a word may be cut
  by the end of a piece.  The output is what \<open>vprintf\<close> makes of the format.
\<close>

record counts =
  n_lines :: "32 word"
  n_words :: "32 word"
  n_bytes :: "32 word"
  inword :: bool

abbreviation NL :: char where "NL \<equiv> CHR 0x0a"

definition blanks :: string where
  "blanks = [CHR '' '', CHR 0x0d, CHR 0x09, CHR 0x0a, CHR 0x0b]"

definition count_byte :: "char \<Rightarrow> counts \<Rightarrow> counts" where
  "count_byte b st =
     (let st = st\<lparr>n_bytes := n_bytes st + 1\<rparr>;
          st = (if b = NL then st\<lparr>n_lines := n_lines st + 1\<rparr> else st)
      in if strchr blanks b \<noteq> None then st\<lparr>inword := False\<rparr>
         else if \<not> inword st then st\<lparr>n_words := n_words st + 1, inword := True\<rparr>
         else st)"

text \<open>The left value is a read error.\<close>

partial_function (option) wc_loop :: "'s reader \<Rightarrow> 's \<Rightarrow> counts \<Rightarrow> (unit + counts) option" where
  "wc_loop rd fd st =
     (case rd fd 512 of
        None \<Rightarrow> Some (Inl ())
      | Some (bs, fd) \<Rightarrow> if bs = [] then Some (Inr st) else wc_loop rd fd (fold count_byte bs st))"

definition no_counts :: counts where
  "no_counts = \<lparr>n_lines = 0, n_words = 0, n_bytes = 0, inword = False\<rparr>"

text \<open>The exit status, when the program ends here, and the chunks written.\<close>

definition wc :: "'s reader \<Rightarrow> 's \<Rightarrow> string \<Rightarrow> (nat option \<times> string list) option" where
  "wc rd fd fname = do {
     r \<leftarrow> wc_loop rd fd no_counts;
     (case r of
        Inl _ \<Rightarrow> map_option (\<lambda>cs. (Some 1, cs)) (vprintf (''wc: read error'' @ [NL]) [])
      | Inr st \<Rightarrow>
          map_option (\<lambda>cs. (None, cs)) (vprintf (''%d %d %d %s'' @ [NL])
            [VInt (n_lines st), VInt (n_words st), VInt (n_bytes st), VStr (Some fname)]))
   }"

fun wc_files :: "(string \<Rightarrow> 's option) \<Rightarrow> 's reader \<Rightarrow> string list \<Rightarrow> string list \<Rightarrow> (nat \<times> string list) option" where
  "wc_files opn rd [] out = Some (0, out)"
| "wc_files opn rd (f # fs) out =
     (case opn f of
        None \<Rightarrow> map_option (\<lambda>cs. (1, out @ cs)) (vprintf (''wc: cannot open %s'' @ [NL]) [VStr (Some f)])
      | Some fd \<Rightarrow> do {
          (st, cs) \<leftarrow> wc rd fd f;
          (case st of Some n \<Rightarrow> Some (n, out @ cs) | None \<Rightarrow> wc_files opn rd fs (out @ cs))
        })"

definition wc_main :: "(string \<Rightarrow> 's option) \<Rightarrow> 's \<Rightarrow> 's reader \<Rightarrow> string list \<Rightarrow> (nat \<times> string list) option" where
  "wc_main opn stdin rd args =
     (if args = [] then map_option (\<lambda>(st, cs). (case st of Some n \<Rightarrow> n | None \<Rightarrow> 0, cs)) (wc rd stdin [])
      else wc_files opn rd args [])"

subsection \<open>What is counted\<close>

abbreviation blank :: "char \<Rightarrow> bool" where
  "blank c \<equiv> c \<in> set blanks"

function words_of :: "string \<Rightarrow> string list" where
  "words_of s =
     (let p = dropWhile blank s in
      if p = [] then [] else takeWhile (\<lambda>c. \<not> blank c) p # words_of (dropWhile (\<lambda>c. \<not> blank c) p))"
  by pat_completeness auto
termination
proof (relation "measure length", goal_cases)
  case (2 s p)
  then obtain c q where p: "dropWhile blank s = c # q" by (cases "dropWhile blank s") auto
  then have "\<not> blank c" by (metis hd_dropWhile list.discI list.sel(1))
  then have "length (dropWhile (\<lambda>c. \<not> blank c) (c # q)) \<le> length q"
    by (simp add: length_dropWhile_le)
  moreover have "length (c # q) \<le> length s"
    using length_dropWhile_le [of blank s] p by simp
  ultimately show ?case using 2 p by simp
qed simp

declare words_of.simps [simp del]

lemma words_of_blank [simp]: "blank c \<Longrightarrow> words_of (c # s) = words_of s"
  by (subst (1 2) words_of.simps) simp

lemma words_of_Nil [simp]: "words_of [] = []"
  by (simp add: words_of.simps)

text \<open>The words that begin in \<open>s\<close> when a word is going on before it.\<close>

lemma words_of_word: "\<not> blank c \<Longrightarrow> length (words_of (c # s)) = Suc (length (words_of (dropWhile (\<lambda>c. \<not> blank c) s)))"
  by (subst words_of.simps) simp

lemma count_bytes:
  "fold count_byte s st =
     \<lparr>n_lines = n_lines st + of_nat (length (filter (\<lambda>c. c = NL) s)),
      n_words = n_words st + of_nat (length (words_of (if inword st then dropWhile (\<lambda>c. \<not> blank c) s else s))),
      n_bytes = n_bytes st + of_nat (length s),
      inword = (if s = [] then inword st else \<not> blank (last s))\<rparr>"
proof (induction s arbitrary: st)
  case (Cons b s)
  have nl: "blank NL" by (simp add: blanks_def)
  have blank: "(strchr blanks b \<noteq> None) = blank b" by simp
  show ?case
  proof (cases "blank b")
    case True
    then show ?thesis
      unfolding fold_Cons comp_def Cons.IH by (simp add: count_byte_def blank Let_def)
  next
    case False
    then have "b \<noteq> NL" using nl by blast
    with False show ?thesis
      unfolding fold_Cons comp_def Cons.IH by (simp add: count_byte_def blank Let_def words_of_word)
  qed
qed simp

lemma wc_loop_counts:
  assumes "reads rd contents"
  shows "wc_loop rd fd st = Some (Inr (fold count_byte (contents fd) st))"
proof (induction "length (contents fd)" arbitrary: fd st rule: less_induct)
  case less
  obtain bs fd' where r: "rd fd 512 = Some (bs, fd')" "contents fd = bs @ contents fd'"
      "bs = [] \<longrightarrow> (512::nat) = 0 \<or> contents fd = []"
    using assms by (rule readsE [of rd contents fd 512])
  show ?case
  proof (cases "bs = []")
    case False
    then have "length (contents fd') < length (contents fd)" using r(2) by simp
    from less [OF this] False r show ?thesis by (subst wc_loop.simps) simp
  qed (use r in \<open>subst wc_loop.simps, simp\<close>)
qed

text \<open>
  wc counts right however the file comes in pieces: the numbers that are printed are those of the
  newlines, of the words between blanks and of the bytes of the whole file, a word cut by the end of
  the buffer being counted once.
\<close>

theorem wc_counts:
  assumes "reads rd contents"
  shows "wc rd fd fname = map_option (\<lambda>cs. (None, cs)) (vprintf (''%d %d %d %s'' @ [NL])
    [VInt (of_nat (length (filter (\<lambda>c. c = NL) (contents fd)))), VInt (of_nat (length (words_of (contents fd)))),
     VInt (of_nat (length (contents fd))), VStr (Some fname)])"
  by (simp add: wc_def wc_loop_counts [OF assms] count_bytes no_counts_def)

theorem wc_counts_witness:
  "wc byte_reads (''a bc'' @ [NL]) ''f'' =
     map_option (\<lambda>cs. (None, cs)) (vprintf (''%d %d %d %s'' @ [NL]) [VInt 1, VInt 2, VInt 5, VStr (Some ''f'')])"
  using wc_counts [OF reads_byte, of "''a bc'' @ [NL]" "''f''"]
  by (simp add: words_of.simps [of "_ # _"] blanks_def)

end
