(* ===== verification/Mkfs.thy ===== *)
theory Mkfs
  imports Ulib
begin

section \<open>mkfs\_xv6fs.c\<close>

text \<open>
  Formatting a device: the layout of the file system, its superblock, the root directory and the
  bitmap.  The device gives each sector number the bytes that were last written there; \<open>bad\<close> says
  which sectors \<open>lseek\<close>, \<open>read\<close> or \<open>write\<close> fail on, and such a failure ends the program, which is
  \<^const>\<open>None\<close>.  Numbers are words of the width they have in the code; structures are stored as their
  bytes, the low byte first.
\<close>

subsection \<open>Structures and their bytes\<close>

type_synonym w16 = "16 word"
type_synonym w32 = "32 word"

abbreviation BSIZE :: nat where "BSIZE \<equiv> 1024"
abbreviation NDIRECT :: nat where "NDIRECT \<equiv> 11"
abbreviation NINDIRECT :: nat where "NINDIRECT \<equiv> 256"

definition le16 :: "w16 \<Rightarrow> string" where
  "le16 w = [to_char (uint w), to_char (uint w div 256)]"

definition le32 :: "w32 \<Rightarrow> string" where
  "le32 w = [to_char (uint w), to_char (uint w div 256), to_char (uint w div 65536), to_char (uint w div 16777216)]"

definition un16 :: "string \<Rightarrow> w16" where
  "un16 s = word_of_int (uc (s ! 0) + 256 * uc (s ! 1))"

definition un32 :: "string \<Rightarrow> w32" where
  "un32 s = word_of_int (uc (s ! 0) + 256 * uc (s ! 1) + 65536 * uc (s ! 2) + 16777216 * uc (s ! 3))"

text \<open>\<open>xshort\<close> and \<open>xint\<close> write the bytes of a little-endian number and read them as the machine does.\<close>

definition xshort :: "w16 \<Rightarrow> w16" where
  "xshort x = un16 (le16 x)"

definition xint :: "w32 \<Rightarrow> w32" where
  "xint x = un32 (le32 x)"

lemma le16_sum: "0 \<le> u \<Longrightarrow> u < 65536 \<Longrightarrow> u mod 256 + 256 * (u div 256 mod 256) = u" for u :: int
  using mod_mult_div_eq [of u 256] by (simp add: div_less_iff_less_mult)

lemma le32_sum:
  fixes u :: int
  assumes "0 \<le> u" "u < 4294967296"
  shows "u mod 256 + 256 * (u div 256 mod 256) + 65536 * (u div 65536 mod 256) + 16777216 * (u div 16777216 mod 256) = u"
proof -
  define q1 q2 q3 where "q1 = u div 256" and "q2 = u div 65536" and "q3 = u div 16777216"
  define m0 m1 m2 where "m0 = u mod 256" and "m1 = q1 mod 256" and "m2 = q2 mod 256"
  have q: "q2 = q1 div 256" "q3 = q2 div 256"
    unfolding q1_def q2_def q3_def by (simp_all add: zdiv_zmult2_eq [symmetric])
  have "q3 mod 256 = q3"
    using assms unfolding q3_def by (intro mod_pos_pos_trivial) (auto simp: div_less_iff_less_mult)
  moreover have "u = m0 + 256 * q1" "q1 = m1 + 256 * q2" "q2 = m2 + 256 * q3"
    unfolding m0_def m1_def m2_def q q1_def by (rule mod_mult_div_eq [symmetric])+
  ultimately have "m0 + 256 * m1 + 65536 * m2 + 16777216 * (q3 mod 256) = u" by linarith
  then show ?thesis unfolding m0_def m1_def m2_def q1_def q2_def q3_def .
qed

lemma un16_le16 [simp]: "un16 (le16 w @ s) = w"
proof -
  have "uint w < 65536" using uint_lt2p [of w] by simp
  then show ?thesis using le16_sum [of "uint w"] by (simp add: un16_def le16_def)
qed

lemma un32_le32 [simp]: "un32 (le32 w @ s) = w"
proof -
  define u where "u = uint w"
  have "un32 (le32 w @ s) = word_of_int
      (u mod 256 + 256 * (u div 256 mod 256) + 65536 * (u div 65536 mod 256) + 16777216 * (u div 16777216 mod 256))"
    unfolding un32_def le32_def u_def [symmetric] by (simp del: of_int_add of_int_mult)
  also have "\<dots> = word_of_int u"
    using uint_bounds32 [of w] by (subst le32_sum) (simp_all add: u_def)
  finally show ?thesis by (simp add: u_def)
qed

lemma xshort_id [simp]: "xshort x = x"
  using un16_le16 [of x "[]"] by (simp add: xshort_def)

lemma xint_id [simp]: "xint x = x"
  using un32_le32 [of x "[]"] by (simp add: xint_def)

lemma le_length [simp]: "length (le16 w) = 2" "length (le32 v) = 4"
  by (simp_all add: le16_def le32_def)

record superblock =
  sb_magic :: w32
  sb_size :: w32
  sb_nblocks :: w32
  sb_ninodes :: w32
  sb_nlog :: w32
  sb_logstart :: w32
  sb_inodestart :: w32
  sb_bmapstart :: w32

definition superblock_bytes :: "superblock \<Rightarrow> string" where
  "superblock_bytes sb = le32 (sb_magic sb) @ le32 (sb_size sb) @ le32 (sb_nblocks sb) @ le32 (sb_ninodes sb) @
     le32 (sb_nlog sb) @ le32 (sb_logstart sb) @ le32 (sb_inodestart sb) @ le32 (sb_bmapstart sb)"

record dinode =
  di_type :: w16
  di_major :: w16
  di_minor :: w16
  di_nlink :: w16
  di_size :: w32
  di_addrs :: "w32 list"

definition dinode_bytes :: "dinode \<Rightarrow> string" where
  "dinode_bytes d = le16 (di_type d) @ le16 (di_major d) @ le16 (di_minor d) @ le16 (di_nlink d) @
     le32 (di_size d) @ concat (map le32 (di_addrs d))"

definition read_dinode :: "string \<Rightarrow> dinode" where
  "read_dinode s = \<lparr>di_type = un16 s, di_major = un16 (drop 2 s), di_minor = un16 (drop 4 s), di_nlink = un16 (drop 6 s),
     di_size = un32 (drop 8 s), di_addrs = map (\<lambda>i. un32 (drop (12 + 4 * i) s)) [0 ..< NDIRECT + 2]\<rparr>"

text \<open>A directory entry: the inode number, and the name in 14 bytes.\<close>

definition dirent_bytes :: "w16 \<Rightarrow> string \<Rightarrow> string" where
  "dirent_bytes inum nm = le16 inum @ nm @ replicate (14 - length nm) NUL"

lemma length_concat_le32 [simp]: "length (concat (map le32 as)) = 4 * length as"
  by (induction as) auto

lemma dinode_bytes_length: "length (di_addrs d) = 13 \<Longrightarrow> length (dinode_bytes d) = 64"
  by (simp add: dinode_bytes_def)

lemma drop_le32s: "i < length as \<Longrightarrow> drop (4 * i) (concat (map le32 as) @ s) = le32 (as ! i) @ drop (4 * Suc i) (concat (map le32 as) @ s)"
proof (induction as arbitrary: i)
  case (Cons a as)
  show ?case
  proof (cases i)
    case (Suc j)
    then show ?thesis using Cons.IH [of j] Cons.prems by simp
  qed simp
qed simp

lemma read_dinode_bytes [simp]: "length (di_addrs d) = 13 \<Longrightarrow> read_dinode (dinode_bytes d @ s) = d"
proof -
  assume len: "length (di_addrs d) = 13"
  have two: "drop 2 (le16 w @ t) = t" "drop 4 (le16 a @ le16 b @ t) = t" "drop 6 (le16 a @ le16 b @ le16 c @ t) = t"
    "drop 8 (le16 a @ le16 b @ le16 c @ le16 w @ t) = t" "drop (12 + k) (le16 a @ le16 b @ le16 c @ le16 w @ le32 v @ t) = drop k t"
    for w a b c v k t
    by simp_all
  have "un32 (drop (12 + 4 * i) (dinode_bytes d @ s)) = di_addrs d ! i" if "i < 13" for i
    unfolding dinode_bytes_def append_assoc two using drop_le32s [of i "di_addrs d" s] that len by simp
  then have "map (\<lambda>i. un32 (drop (12 + 4 * i) (dinode_bytes d @ s))) [0 ..< NDIRECT + 2] = di_addrs d"
    using len by (intro nth_equalityI) auto
  then show ?thesis
    unfolding read_dinode_def by (simp add: dinode_bytes_def two)
qed

subsection \<open>The device\<close>

record fs =
  disk :: "w32 \<Rightarrow> string"
  bad :: "w32 \<Rightarrow> bool"
  sb :: superblock
  freeinode :: w32
  freeblock :: w32

definition wsect :: "w32 \<Rightarrow> string \<Rightarrow> fs \<Rightarrow> fs option" where
  "wsect sec buf st = (if bad st sec then None else Some (st\<lparr>disk := (disk st)(sec := buf)\<rparr>))"

definition rsect :: "w32 \<Rightarrow> fs \<Rightarrow> string option" where
  "rsect sec st = (if bad st sec then None else Some (disk st sec))"

abbreviation IPB :: w32 where "IPB \<equiv> 16"
abbreviation BPB :: w32 where "BPB \<equiv> 8192"

definition IBLOCK :: "w32 \<Rightarrow> superblock \<Rightarrow> w32" where
  "IBLOCK i s = i div IPB + sb_inodestart s"

definition winode :: "w32 \<Rightarrow> dinode \<Rightarrow> fs \<Rightarrow> fs option" where
  "winode inum ip st = do {
     let bn = IBLOCK inum (sb st);
     buf \<leftarrow> rsect bn st;
     buf \<leftarrow> awrite buf (64 * unat (inum mod IPB)) (dinode_bytes ip);
     wsect bn buf st
   }"

definition rinode :: "w32 \<Rightarrow> fs \<Rightarrow> dinode option" where
  "rinode inum st = do {
     let bn = IBLOCK inum (sb st);
     buf \<leftarrow> rsect bn st;
     s \<leftarrow> aslice buf (64 * unat (inum mod IPB)) 64;
     Some (read_dinode s)
   }"

definition ialloc :: "w16 \<Rightarrow> fs \<Rightarrow> (w32 \<times> fs) option" where
  "ialloc t st = do {
     let inum = freeinode st;
     let din = \<lparr>di_type = xshort t, di_major = 0, di_minor = 0, di_nlink = xshort 1, di_size = xint 0,
                di_addrs = replicate 13 0\<rparr>;
     st \<leftarrow> winode inum din (st\<lparr>freeinode := inum + 1\<rparr>);
     Some (inum, st)
   }"

subsection \<open>The bitmap\<close>

text \<open>\<open>buf[k / 8] |= 1 << (k % 8)\<close>\<close>

definition set_bit_at :: "nat \<Rightarrow> string \<Rightarrow> string option" where
  "set_bit_at k buf = do {
     c \<leftarrow> aget buf (k div 8);
     aset buf (k div 8) (to_char (uc c OR push_bit (k mod 8) 1))
   }"

fun set_bits :: "nat list \<Rightarrow> nat \<Rightarrow> string \<Rightarrow> string option" where
  "set_bits [] base buf = Some buf"
| "set_bits (i # is) base buf = do { buf \<leftarrow> set_bit_at (i - base) buf; set_bits is base buf }"

text \<open>The loop over the bits runs while \<open>i < base + BPB\<close> and \<open>i < used\<close>.\<close>

fun balloc_loop :: "nat list \<Rightarrow> nat \<Rightarrow> fs \<Rightarrow> fs option" where
  "balloc_loop [] used st = Some st"
| "balloc_loop (b # bs) used st = do {
     let base = b * 8192;
     buf \<leftarrow> set_bits [base ..< min (base + 8192) used] base (replicate BSIZE NUL);
     st \<leftarrow> wsect (xint (sb_bmapstart (sb st)) + of_nat b) buf st;
     balloc_loop bs used st
   }"

definition balloc :: "nat \<Rightarrow> nat \<Rightarrow> fs \<Rightarrow> fs option" where
  "balloc nbitmap used st = balloc_loop [0 ..< nbitmap] used st"

subsection \<open>Appending to a file\<close>

text \<open>The block that holds block \<open>fbn\<close> of the file, allocated when there is none.\<close>

definition bmap :: "nat \<Rightarrow> dinode \<Rightarrow> fs \<Rightarrow> (w32 \<times> dinode \<times> fs) option" where
  "bmap fbn din st =
     (if fbn < NDIRECT
      then
        let (din, st) =
          (if xint (di_addrs din ! fbn) = 0
           then (din\<lparr>di_addrs := (di_addrs din)[fbn := xint (freeblock st)]\<rparr>, st\<lparr>freeblock := freeblock st + 1\<rparr>)
           else (din, st))
        in Some (xint (di_addrs din ! fbn), din, st)
      else do {
        let (din, st) =
          (if xint (di_addrs din ! NDIRECT) = 0
           then (din\<lparr>di_addrs := (di_addrs din)[NDIRECT := xint (freeblock st)]\<rparr>, st\<lparr>freeblock := freeblock st + 1\<rparr>)
           else (din, st));
        let ind = xint (di_addrs din ! NDIRECT);
        buf \<leftarrow> rsect ind st;
        let k = 4 * (fbn - NDIRECT);
        (if un32 (drop k buf) = 0
         then do {
           let x = xint (freeblock st);
           let st = st\<lparr>freeblock := freeblock st + 1\<rparr>;
           buf \<leftarrow> awrite buf k (le32 x);
           st \<leftarrow> wsect ind buf st;
           Some (xint x, din, st)
         }
         else Some (xint (un32 (drop k buf)), din, st))
      })"

function iappend_loop :: "string \<Rightarrow> nat \<Rightarrow> dinode \<Rightarrow> fs \<Rightarrow> (nat \<times> dinode \<times> fs) option" where
  "iappend_loop p off din st =
     (if p = [] then Some (off, din, st)
      else do {
        let fbn = off div BSIZE;
        (if NDIRECT + NINDIRECT \<le> fbn then None
         else do {
           (x, din, st) \<leftarrow> bmap fbn din st;
           let n1 = min (length p) ((fbn + 1) * BSIZE - off);
           buf \<leftarrow> rsect x st;
           buf \<leftarrow> awrite buf (off - fbn * BSIZE) (take n1 p);
           st \<leftarrow> wsect x buf st;
           iappend_loop (drop n1 p) (off + n1) din st
         })
      })"
  by pat_completeness auto
termination
proof (relation "measure (\<lambda>(p, off, din, st). length p)", goal_cases)
  case (2 p off din st)
  have "off < (off div 1024 + 1) * 1024"
    using div_mult_mod_eq [of off 1024] mod_less_divisor [of 1024 off] by (simp add: algebra_simps)
  then show ?case using 2 by simp
qed simp

declare iappend_loop.simps [simp del]

definition iappend :: "w32 \<Rightarrow> string \<Rightarrow> fs \<Rightarrow> fs option" where
  "iappend inum p st = do {
     din \<leftarrow> rinode inum st;
     (off, din, st) \<leftarrow> iappend_loop p (unat (xint (di_size din))) din st;
     winode inum (din\<lparr>di_size := xint (of_nat off)\<rparr>) st
   }"


subsection \<open>The program\<close>

record geometry =
  g_ninodeblocks :: w32
  g_nbitmap :: w32
  g_nmeta :: w32
  g_nblocks :: w32

abbreviation nlog :: w32 where "nlog \<equiv> 240"

definition compute_layout :: "w32 \<Rightarrow> w32 \<Rightarrow> geometry option" where
  "compute_layout fssize ninodes =
     (let ninodeblocks = ninodes div IPB + 1;
          nbitmap = fssize div BPB + 1;
          nmeta = 2 + nlog + ninodeblocks + nbitmap;
          nblocks = fssize - nmeta
      in if sint nblocks < 1 then None
         else Some \<lparr>g_ninodeblocks = ninodeblocks, g_nbitmap = nbitmap, g_nmeta = nmeta, g_nblocks = nblocks\<rparr>)"

text \<open>The arguments behind the device; \<open>dev_end\<close> is what \<open>lseek\<close> finds at the end of the device.\<close>

definition fs_size :: "string list \<Rightarrow> int \<Rightarrow> w32 option" where
  "fs_size args dev_end =
     (case args of
        a # _ \<Rightarrow> (let n = word_of_int (atoi a) in if n < 100 then None else Some n)
      | [] \<Rightarrow>
          if dev_end \<le> 0 then None
          else let n = word_of_int (dev_end div int BSIZE) in if n < 100 then None else Some n)"

definition fs_ninodes :: "string list \<Rightarrow> w32 option" where
  "fs_ninodes args =
     (case args of
        _ # a # _ \<Rightarrow> (let n = word_of_int (atoi a) in if n < 2 then None else Some n)
      | _ \<Rightarrow> Some 200)"

definition fill_superblock :: "w32 \<Rightarrow> w32 \<Rightarrow> geometry \<Rightarrow> superblock" where
  "fill_superblock fssize ninodes g =
     \<lparr>sb_magic = xint 0x10203040, sb_size = xint fssize, sb_nblocks = xint (g_nblocks g), sb_ninodes = xint ninodes,
      sb_nlog = xint nlog, sb_logstart = xint 2, sb_inodestart = xint (2 + nlog),
      sb_bmapstart = xint (2 + nlog + g_ninodeblocks g)\<rparr>"

fun zero_loop :: "nat list \<Rightarrow> fs \<Rightarrow> fs option" where
  "zero_loop [] st = Some st"
| "zero_loop (i # is) st = do { st \<leftarrow> wsect (of_nat i) (replicate BSIZE NUL) st; zero_loop is st }"

definition update_inode :: "w32 \<Rightarrow> (dinode \<Rightarrow> dinode) \<Rightarrow> fs \<Rightarrow> fs option" where
  "update_inode inum f st = do { din \<leftarrow> rinode inum st; winode inum (f din) st }"

text \<open>Everything that is written, in order.\<close>

definition write_fs :: "w32 \<Rightarrow> w32 \<Rightarrow> geometry \<Rightarrow> fs \<Rightarrow> fs option" where
  "write_fs fssize ninodes g st = do {
     let st = st\<lparr>sb := fill_superblock fssize ninodes g, freeinode := 1, freeblock := g_nmeta g\<rparr>;
     st \<leftarrow> zero_loop [0 ..< unat fssize] st;
     buf \<leftarrow> awrite (replicate BSIZE NUL) 0 (superblock_bytes (sb st));
     st \<leftarrow> wsect 1 buf st;
     (rootino, st) \<leftarrow> ialloc 1 st;
     (if rootino \<noteq> 1 then None
      else do {
        st \<leftarrow> update_inode rootino (\<lambda>d. d\<lparr>di_nlink := xshort 2\<rparr>) st;
        st \<leftarrow> iappend rootino (dirent_bytes (xshort (ucast rootino)) ''.'') st;
        st \<leftarrow> iappend rootino (dirent_bytes (xshort (ucast rootino)) ''..'') st;
        st \<leftarrow> update_inode rootino
          (\<lambda>d. d\<lparr>di_size := xint (of_nat ((unat (xint (di_size d)) div BSIZE + 1) * BSIZE))\<rparr>) st;
        balloc (unat (g_nbitmap g)) (unat (freeblock st)) st
      })
   }"

definition mkfs_main :: "string list \<Rightarrow> int \<Rightarrow> fs \<Rightarrow> fs option" where
  "mkfs_main args dev_end st = do {
     fssize \<leftarrow> fs_size args dev_end;
     ninodes \<leftarrow> fs_ninodes args;
     g \<leftarrow> compute_layout fssize ninodes;
     write_fs fssize ninodes g st
   }"

subsection \<open>The layout\<close>

lemma unat_add_small: "unat x + unat y < 4294967296 \<Longrightarrow> unat (x + y) = unat x + unat y" for x y :: w32
  by (simp add: unat_word_ariths)

lemma unat_less32: "unat x < 4294967296" for x :: w32
  using unsigned_less [of x] by simp

lemma layout_sound:
  assumes "compute_layout fssize ninodes = Some g"
  shows "unat (g_nmeta g) = 242 + unat (g_ninodeblocks g) + unat (g_nbitmap g) \<and>
    unat (g_nmeta g) + unat (g_nblocks g) = unat fssize \<and> 0 < unat (g_nblocks g) \<and>
    unat ninodes < 16 * unat (g_ninodeblocks g) \<and> unat fssize < 8192 * unat (g_nbitmap g)"
proof -
  define a f where "a = unat ninodes" and "f = unat fssize"
  define nib nbm nm nb where "nib = ninodes div IPB + 1" and "nbm = fssize div BPB + 1"
    and "nm = 2 + nlog + nib + nbm" and "nb = fssize - nm"
  have g: "g_ninodeblocks g = nib" "g_nbitmap g = nbm" "g_nmeta g = nm" "g_nblocks g = nb" "\<not> sint nb < 1"
    using assms unfolding compute_layout_def Let_def nib_def nbm_def nm_def nb_def by (auto split: if_splits)
  have af: "a < 4294967296" "f < 4294967296" unfolding a_def f_def by (rule unat_less32)+
  have "unat (ninodes div IPB) = a div 16" "unat (fssize div BPB) = f div 8192"
    by (simp_all add: unat_div a_def f_def)
  then have nib: "unat nib = a div 16 + 1" and nbm: "unat nbm = f div 8192 + 1"
    using af unfolding nib_def nbm_def by (subst unat_add_small; simp)+
  have u: "unat (2 + nlog :: w32) = 242" by simp
  have "unat (2 + nlog + nib) = 242 + unat nib"
    using af nib u by (subst unat_add_small) auto
  then have nm: "unat nm = 242 + unat nib + unat nbm"
    unfolding nm_def using af nib nbm by (subst unat_add_small) auto
  have small: "unat nm < 300000000" using nm nib nbm af by linarith
  have "nm \<le> fssize"
  proof (rule ccontr)
    assume "\<not> nm \<le> fssize"
    then have lt: "f < unat nm" by (simp add: word_le_nat_alt f_def)
    have "uint nb = (int f - int (unat nm)) mod 4294967296"
      by (simp add: nb_def uint_word_ariths f_def)
    also have "\<dots> = (int f - int (unat nm) + 4294967296) mod 4294967296"
      by (rule mod_add_self2 [symmetric])
    also have "\<dots> = int f - int (unat nm) + 4294967296"
      by (intro mod_pos_pos_trivial) (use lt small in linarith)+
    finally have "2147483648 \<le> uint nb" using small by linarith
    then show False using g(5) uint_bounds32 [of nb] unfolding sint32 by simp
  qed
  then have nb: "unat nb = f - unat nm" "unat nm \<le> f"
    by (simp_all add: nb_def unat_sub f_def word_le_nat_alt)
  have "nb \<noteq> 0" using g(5) by auto
  then have "0 < unat nb" by (simp add: unat_gt_0)
  then show ?thesis
    unfolding g using nm nb nib nbm unfolding a_def f_def by linarith
qed

text \<open>
  Whatever numbers mkfs is called with, the layout it accepts is sound, though it is computed in
  32 bits that may wrap: the metadata ends before the end of the device and leaves at least one data
  block, the inode blocks have room for more than \<open>ninodes\<close> inodes, and the bitmap has a bit for every
  block of the file system.
\<close>

theorem mkfs_layout:
  assumes "compute_layout fssize ninodes = Some g"
  shows "unat (g_nmeta g) = 242 + unat (g_ninodeblocks g) + unat (g_nbitmap g) \<and>
    unat (g_nmeta g) + unat (g_nblocks g) = unat fssize \<and> 0 < unat (g_nblocks g) \<and>
    unat ninodes < 16 * unat (g_ninodeblocks g) \<and> unat fssize < 8192 * unat (g_nbitmap g)"
  using assms by (rule layout_sound)

definition small_fs :: geometry where
  "small_fs = \<lparr>g_ninodeblocks = 13, g_nbitmap = 1, g_nmeta = 256, g_nblocks = 1744\<rparr>"

lemma small_layout: "compute_layout 2000 200 = Some small_fs"
proof -
  have "sint (1744 :: w32) = 1744" by (simp add: sint32)
  then show ?thesis by (simp add: compute_layout_def Let_def small_fs_def)
qed

theorem mkfs_layout_witness: "unat (g_nmeta small_fs) + unat (g_nblocks small_fs) = 2000"
  using mkfs_layout [OF small_layout] by simp


subsection \<open>The bitmap, bit by bit\<close>

definition bit_of :: "string \<Rightarrow> nat \<Rightarrow> bool" where
  "bit_of buf k \<longleftrightarrow> bit (uc (buf ! (k div 8))) (k mod 8)"

lemma bit_to_char: "bit (uc (to_char x)) j \<longleftrightarrow> j < 8 \<and> bit x j"
proof -
  have "x mod 256 = take_bit 8 x" by (simp add: take_bit_eq_mod)
  then show ?thesis by (simp add: bit_take_bit_iff)
qed

lemma bit_power_two: "bit (2 ^ m :: int) j \<longleftrightarrow> j = m"
  by (auto simp: bit_exp_iff)

lemma set_bit_at_bit:
  assumes "k div 8 < length buf"
  shows "\<exists>buf'. set_bit_at k buf = Some buf' \<and> length buf' = length buf \<and> (\<forall>j. bit_of buf' j \<longleftrightarrow> bit_of buf j \<or> j = k)"
proof -
  let ?b = "buf[k div 8 := to_char (uc (buf ! (k div 8)) OR push_bit (k mod 8) 1)]"
  have "bit_of ?b j \<longleftrightarrow> bit_of buf j \<or> j = k" for j
  proof (cases "j div 8 = k div 8")
    case True
    then have "j mod 8 = k mod 8 \<longleftrightarrow> j = k" by (metis div_mult_mod_eq)
    then show ?thesis using True assms by (simp add: bit_of_def bit_to_char bit_or_iff bit_power_two del: uc_to_char)
  next
    case False
    then show ?thesis by (auto simp: bit_of_def)
  qed
  then show ?thesis using assms by (simp add: set_bit_at_def)
qed

lemma set_bits_bits:
  assumes "\<forall>i\<in>set is. base \<le> i \<and> i < base + 8192" "length buf = BSIZE"
  shows "\<exists>buf'. set_bits is base buf = Some buf' \<and> length buf' = BSIZE \<and>
    (\<forall>j. bit_of buf' j \<longleftrightarrow> bit_of buf j \<or> base + j \<in> set is)"
  using assms
proof (induction "is" arbitrary: buf)
  case (Cons i "is")
  have "(i - base) div 8 < length buf" using Cons.prems by (auto simp: div_less_iff_less_mult)
  from set_bit_at_bit [OF this] obtain b1 where b1: "set_bit_at (i - base) buf = Some b1" "length b1 = BSIZE"
      "\<forall>j. bit_of b1 j \<longleftrightarrow> bit_of buf j \<or> j = i - base"
    using Cons.prems(2) by auto
  obtain b2 where "set_bits is base b1 = Some b2" "length b2 = BSIZE" "\<forall>j. bit_of b2 j \<longleftrightarrow> bit_of b1 j \<or> base + j \<in> set is"
    using Cons.IH [of b1] Cons.prems(1) b1(2) by auto
  then show ?case using b1 Cons.prems(1) by auto
qed simp

text \<open>The sector \<open>b\<close> of the bitmap when the first \<open>used\<close> blocks are in use.\<close>

definition is_bitmap :: "nat \<Rightarrow> nat \<Rightarrow> string \<Rightarrow> bool" where
  "is_bitmap b used buf \<longleftrightarrow> length buf = BSIZE \<and> (\<forall>k<8192. bit_of buf k \<longleftrightarrow> b * 8192 + k < used)"

lemma bitmap_sector:
  "\<exists>buf. set_bits [b * 8192 ..< min (b * 8192 + 8192) used] (b * 8192) (replicate BSIZE NUL) = Some buf \<and> is_bitmap b used buf"
proof -
  have "\<not> bit_of (replicate BSIZE NUL) k" if "k < 8192" for k
    using that by (simp add: bit_of_def div_less_iff_less_mult)
  then show ?thesis
    using set_bits_bits [of "[b * 8192 ..< min (b * 8192 + 8192) used]" "b * 8192" "replicate BSIZE NUL"]
    by (auto simp: is_bitmap_def)
qed

lemma balloc_loop_writes:
  assumes "\<forall>s. \<not> bad st s" "distinct bs" "\<forall>b\<in>set bs. b < 4294967296"
  shows "\<exists>D. balloc_loop bs used st = Some (st\<lparr>disk := D\<rparr>) \<and>
    (\<forall>b\<in>set bs. is_bitmap b used (D (sb_bmapstart (sb st) + of_nat b))) \<and>
    (\<forall>s. (\<forall>b\<in>set bs. s \<noteq> sb_bmapstart (sb st) + of_nat b) \<longrightarrow> D s = disk st s)"
  using assms
proof (induction bs arbitrary: st)
  case (Cons b bs)
  obtain buf where buf: "set_bits [b * 8192 ..< min (b * 8192 + 8192) used] (b * 8192) (replicate BSIZE NUL) = Some buf"
      "is_bitmap b used buf"
    using bitmap_sector by blast
  define st1 where "st1 = st\<lparr>disk := (disk st)(sb_bmapstart (sb st) + of_nat b := buf)\<rparr>"
  have w: "wsect (sb_bmapstart (sb st) + of_nat b) buf st = Some st1"
    using Cons.prems(1) by (simp add: wsect_def st1_def)
  obtain D where D: "balloc_loop bs used st1 = Some (st1\<lparr>disk := D\<rparr>)"
      "\<forall>b\<in>set bs. is_bitmap b used (D (sb_bmapstart (sb st) + of_nat b))"
      "\<forall>s. (\<forall>b\<in>set bs. s \<noteq> sb_bmapstart (sb st) + of_nat b) \<longrightarrow> D s = disk st1 s"
    using Cons.IH [of st1] Cons.prems by (auto simp: st1_def)
  have "(of_nat b :: w32) \<noteq> of_nat c" if "c \<in> set bs" for c
    using that Cons.prems(2,3) by (auto simp: word_of_nat_eq_iff take_bit_nat_eq_self)
  then have "D (sb_bmapstart (sb st) + of_nat b) = buf" using D(3) by (auto simp: st1_def)
  moreover have "balloc_loop (b # bs) used st = Some (st\<lparr>disk := D\<rparr>)"
    using buf(1) w D(1) by (simp add: st1_def)
  ultimately show ?case
    using buf(2) D(2,3) by (intro exI [of _ D]) (auto simp: st1_def)
next
  case Nil
  show ?case by (intro exI [of _ "disk st"]) simp
qed


subsection \<open>The formatted device\<close>

definition inode_sector :: "string \<Rightarrow> nat \<Rightarrow> dinode \<Rightarrow> string" where
  "inode_sector buf k d = take (64 * k) buf @ dinode_bytes d @ drop (64 * k + 64) buf"

lemma inode_slot: "64 * unat (inum mod IPB) + 64 \<le> BSIZE" for inum :: w32
proof -
  have "inum mod IPB < IPB" by (rule word_mod_less_divisor) simp
  then have "unat (inum mod IPB) < 16" by (simp add: word_less_nat_alt)
  then show ?thesis by simp
qed

lemma winode_eq:
  assumes "\<forall>s. \<not> bad st s" "length (disk st (IBLOCK inum (sb st))) = BSIZE" "length (di_addrs d) = 13"
  shows "winode inum d st = Some (st\<lparr>disk := (disk st)(IBLOCK inum (sb st) :=
    inode_sector (disk st (IBLOCK inum (sb st))) (unat (inum mod IPB)) d)\<rparr>)"
  using assms inode_slot [of inum]
  by (simp add: winode_def Let_def rsect_def wsect_def awrite_def dinode_bytes_length inode_sector_def)

lemma rinode_eq:
  assumes "\<forall>s. \<not> bad st s" "disk st (IBLOCK inum (sb st)) = inode_sector buf (unat (inum mod IPB)) d"
    and "length buf = BSIZE" "length (di_addrs d) = 13"
  shows "rinode inum st = Some d"
proof -
  define k where "k = unat (inum mod IPB)"
  have k: "64 * k + 64 \<le> BSIZE" using inode_slot [of inum] by (simp add: k_def)
  have "aslice (inode_sector buf k d) (64 * k) 64 = Some (dinode_bytes d)"
    using k assms(3,4) by (simp add: inode_sector_def dinode_bytes_length)
  then show ?thesis
    using assms(1,2,4) read_dinode_bytes [of d "[]"] by (simp add: rinode_def rsect_def k_def)
qed

lemma inode_sector_length [simp]:
  "length buf = BSIZE \<Longrightarrow> 64 * k + 64 \<le> BSIZE \<Longrightarrow> length (di_addrs d) = 13 \<Longrightarrow> length (inode_sector buf k d) = BSIZE"
  by (simp add: inode_sector_def dinode_bytes_length)

lemma inode_sector_twice [simp]:
  "length buf = BSIZE \<Longrightarrow> 64 * k + 64 \<le> BSIZE \<Longrightarrow> length (di_addrs d) = 13 \<Longrightarrow>
   inode_sector (inode_sector buf k d) k d' = inode_sector buf k d'"
  by (simp add: inode_sector_def dinode_bytes_length)

text \<open>An append that stays in the first block of the file.\<close>

lemma iappend_in_block:
  fixes d st p
  defines "x \<equiv> (if di_addrs d ! 0 = 0 then freeblock st else di_addrs d ! 0)"
  defines "off \<equiv> unat (di_size d)"
  assumes "rinode inum st = Some d" "\<forall>s. \<not> bad st s" "p \<noteq> []" "off + length p \<le> BSIZE" "length (disk st x) = BSIZE"
    and "length (di_addrs d) = 13"
  shows "iappend inum p st =
    winode inum (d\<lparr>di_addrs := (di_addrs d)[0 := x], di_size := of_nat (off + length p)\<rparr>)
      (st\<lparr>freeblock := (if di_addrs d ! 0 = 0 then freeblock st + 1 else freeblock st),
        disk := (disk st)(x := take off (disk st x) @ p @ drop (off + length p) (disk st x))\<rparr>)"
proof -
  let ?st = "st\<lparr>freeblock := (if di_addrs d ! 0 = 0 then freeblock st + 1 else freeblock st)\<rparr>"
  let ?d = "d\<lparr>di_addrs := (di_addrs d)[0 := x]\<rparr>"
  have lt: "off < BSIZE" "off div BSIZE = 0" using assms(5,6) by (cases p; simp)+
  have ls: "(di_addrs d)[0 := di_addrs d ! 0] = di_addrs d" by (rule list_update_id)
  have bmap: "bmap 0 d st = Some (x, ?d, ?st)"
    using assms(8) ls by (auto simp: bmap_def x_def)
  have "iappend_loop p off d st = Some (off + length p, ?d, ?st\<lparr>disk := (disk st)(x := take off (disk st x) @ p @ drop (off + length p) (disk st x))\<rparr>)"
    using assms(4-7) lt bmap
    by (subst iappend_loop.simps, simp add: Let_def rsect_def wsect_def awrite_def) (simp add: iappend_loop.simps)
  then show ?thesis
    using assms(3) by (simp add: iappend_def off_def)
qed


lemma zero_loop_eq:
  assumes "\<forall>s. \<not> bad st s"
  shows "zero_loop is st = Some (st\<lparr>disk := \<lambda>s. if s \<in> of_nat ` set is then replicate BSIZE NUL else disk st s\<rparr>)"
  using assms
proof (induction "is" arbitrary: st)
  case (Cons i "is")
  define st1 where "st1 = st\<lparr>disk := (disk st)(of_nat i := replicate BSIZE NUL)\<rparr>"
  have "wsect (of_nat i) (replicate BSIZE NUL) st = Some st1" using Cons.prems by (simp add: wsect_def st1_def)
  moreover have "zero_loop is st1 = Some (st1\<lparr>disk := \<lambda>s. if s \<in> of_nat ` set is then replicate BSIZE NUL else disk st1 s\<rparr>)"
    using Cons.prems by (intro Cons.IH) (simp add: st1_def)
  moreover have "(\<lambda>s. if s \<in> of_nat ` set is then replicate BSIZE NUL else disk st1 s) =
      (\<lambda>s. if s \<in> of_nat ` set (i # is) then replicate BSIZE NUL else disk st s)"
    by (auto simp: st1_def)
  ultimately show ?case by (simp add: st1_def)
qed simp

lemma of_nat_upt: "(s :: w32) \<in> of_nat ` set [0 ..< unat n] \<longleftrightarrow> s < n"
proof
  assume "s < n"
  then show "s \<in> of_nat ` set [0 ..< unat n]"
    by (intro image_eqI [of _ _ "unat s"]) (simp_all add: word_less_nat_alt)
next
  assume "s \<in> of_nat ` set [0 ..< unat n]"
  then obtain i where "s = of_nat i" "i < unat n" by auto
  then show "s < n" using unat_less32 [of n] by (simp add: word_less_nat_alt unat_of_nat)
qed

text \<open>The root directory: its inode, and the block with the two entries.\<close>

definition root_inode :: "w32 \<Rightarrow> dinode" where
  "root_inode x = \<lparr>di_type = 1, di_major = 0, di_minor = 0, di_nlink = 2, di_size = 1024, di_addrs = x # replicate 12 0\<rparr>"

definition root_block :: string where
  "root_block = dirent_bytes 1 ''.'' @ dirent_bytes 1 ''..'' @ replicate 992 NUL"



definition blank_device :: fs where
  "blank_device = \<lparr>disk = (\<lambda>s. replicate BSIZE (CHR 0xff)), bad = (\<lambda>s. False),
     sb = fill_superblock 0 0 small_fs, freeinode = 0, freeblock = 0\<rparr>"


end
