(* ===== verification/Init.thy ===== *)
theory Init
  imports Ulib "HOL-Library.Monad_Syntax"
begin

section \<open>init.c\<close>

text \<open>
  The first process: the network configuration it reads, the services it starts, and the loop that
  keeps a shell running.  \<open>hmax\<close> is \<open>NETCONF_HOSTNAME_MAX\<close>, which the kernel's headers define.
\<close>

abbreviation NL :: char where "NL \<equiv> CHR 0x0a"
abbreviation TAB :: char where "TAB \<equiv> CHR 0x09"
abbreviation CR :: char where "CR \<equiv> CHR 0x0d"

subsection \<open>Strings\<close>

fun my_strncmp :: "string \<Rightarrow> string \<Rightarrow> nat \<Rightarrow> int" where
  "my_strncmp a b 0 = 0"
| "my_strncmp a b (Suc n) =
     (if deref a \<noteq> deref b then uc (deref a) - uc (deref b)
      else if deref a = NUL then 0
      else my_strncmp (tl a) (tl b) n)"

interpretation init_cmp: bounded_strcmp my_strncmp
proof
  fix a b n
  show "cstring a \<Longrightarrow> cstring b \<Longrightarrow> my_strncmp a b n = 0 \<longleftrightarrow> take n a = take n b"
  proof (induction a b n rule: my_strncmp.induct)
    case (2 a b n)
    then show ?case by (cases a; cases b) auto
  qed simp
qed

definition skip_ws :: "string \<Rightarrow> string" where
  "skip_ws s = dropWhile (\<lambda>c. c = CHR '' '' \<or> c = TAB) s"

fun strip_blanks :: "string \<Rightarrow> nat \<Rightarrow> nat" where
  "strip_blanks s 0 = 0"
| "strip_blanks s (Suc i) = (if s ! i = CHR '' '' \<or> s ! i = TAB then strip_blanks s i else Suc i)"

text \<open>What is copied to \<open>dst\<close>, which has \<open>maxlen\<close> bytes.\<close>

definition copy_value :: "nat \<Rightarrow> string \<Rightarrow> string" where
  "copy_value maxlen src =
     (let i = length (takeWhile (\<lambda>c. c \<noteq> NUL \<and> c \<noteq> NL \<and> c \<noteq> CR \<and> c \<noteq> CHR ''#'') (take (maxlen - 1) src))
      in take (strip_blanks src i) src)"

subsection \<open>Addresses\<close>

text \<open>The accumulator is an \<open>int\<close>: it wraps, and it is compared as signed.\<close>

definition ip_step :: "32 word \<Rightarrow> char \<Rightarrow> 32 word" where
  "ip_step val c = val * 10 + word_of_int (sc c - 48)"

definition ip_end :: "char \<Rightarrow> bool" where
  "ip_end c \<longleftrightarrow> c = CHR ''.'' \<or> c = NUL \<or> c = NL \<or> c = CR \<or> c = CHR '' '' \<or> c = TAB \<or> c = CHR ''#''"

fun ip_loop :: "string \<Rightarrow> 32 word list \<Rightarrow> 32 word \<Rightarrow> nat \<Rightarrow> 32 word list option" where
  "ip_loop [] parts val digits =
     (if digits = 0 \<or> 255 < sint val \<or> 3 < length parts then None else Some (parts @ [val]))"
| "ip_loop (c # p) parts val digits =
     (if is_digit c then ip_loop p parts (ip_step val c) (digits + 1)
      else if ip_end c
      then (if digits = 0 \<or> 255 < sint val \<or> 3 < length parts then None
            else if c \<noteq> CHR ''.'' then Some (parts @ [val])
            else ip_loop p (parts @ [val]) 0 0)
      else None)"

definition parse_ip4 :: "string \<Rightarrow> 32 word option" where
  "parse_ip4 s = do {
     parts \<leftarrow> ip_loop s [] 0 0;
     (if length parts \<noteq> 4 then None
      else Some (parts ! 0 OR push_bit 8 (parts ! 1) OR push_bit 16 (parts ! 2) OR push_bit 24 (parts ! 3)))
   }"

interpretation ip_digits: digit_reader ip_step uint "2 ^ 32"
proof
  fix c and n :: "32 word" assume "is_digit c"
  then have "ip_step n c = word_of_int (10 * uint n + int (digit c))"
    by (simp add: ip_step_def int_digit)
  then have "uint (ip_step n c) = (10 * uint n + int (digit c)) mod 2 ^ 32"
    by (simp only: uint_word_of_int) simp
  then show "uint (ip_step n c) mod 2 ^ 32 = (10 * uint n + int (digit c)) mod 2 ^ 32"
    by simp
qed

text \<open>The number that a group of digits leaves in the accumulator.\<close>

definition octet :: "string \<Rightarrow> 32 word" where
  "octet ds = word_of_int (int (dec_value ds))"

lemma fold_octet: "\<forall>c\<in>set ds. is_digit c \<Longrightarrow> foldl ip_step 0 ds = octet ds"
proof -
  assume "\<forall>c\<in>set ds. is_digit c"
  then have "uint (foldl ip_step 0 ds) mod 2 ^ 32 = int (dec_value ds) mod 2 ^ 32"
    by (intro ip_digits.fold_digits_zero) simp_all
  moreover have "uint (foldl ip_step 0 ds) mod 2 ^ 32 = uint (foldl ip_step 0 ds)"
    using uint_bounds32 [of "foldl ip_step 0 ds"] by (intro mod_pos_pos_trivial) simp_all
  ultimately have "uint (foldl ip_step 0 ds) = uint (octet ds)"
    by (simp only: octet_def uint_word_of_int) simp
  then show ?thesis by (rule word_uint_eqI)
qed

lemma ip_loop_digits:
  "\<forall>c\<in>set ds. is_digit c \<Longrightarrow> ip_loop (ds @ p) parts val n = ip_loop p parts (foldl ip_step val ds) (n + length ds)"
  by (induction ds arbitrary: val n) auto

lemma ip_loop_group:
  assumes "\<forall>c\<in>set ds. is_digit c" "ds \<noteq> []" "length parts \<le> 3"
  shows "ip_loop (ds @ CHR ''.'' # p) parts 0 0 = (if 255 < sint (octet ds) then None else ip_loop p (parts @ [octet ds]) 0 0)"
    and "p = [] \<or> ip_end (hd p) \<and> hd p \<noteq> CHR ''.'' \<Longrightarrow>
      ip_loop (ds @ p) parts 0 0 = (if 255 < sint (octet ds) then None else Some (parts @ [octet ds]))"
proof -
  have d: "\<not> is_digit c" if "ip_end c" for c
    using that by (auto simp: ip_end_def is_digit_def sc_def)
  have "ip_end (CHR ''.'')" by (simp add: ip_end_def)
  then show "ip_loop (ds @ CHR ''.'' # p) parts 0 0 = (if 255 < sint (octet ds) then None else ip_loop p (parts @ [octet ds]) 0 0)"
    using assms d by (simp add: ip_loop_digits fold_octet)
  assume "p = [] \<or> ip_end (hd p) \<and> hd p \<noteq> CHR ''.''"
  then show "ip_loop (ds @ p) parts 0 0 = (if 255 < sint (octet ds) then None else Some (parts @ [octet ds]))"
    using assms d ip_loop_digits [OF assms(1), of p parts 0 0] by (cases p) (auto simp: fold_octet)
qed

text \<open>
  \<open>parse_ip4\<close> reads dotted addresses: four non-empty groups of digits, up to the end of the line, a
  blank or a comment, give the address with the first octet in the lowest byte, if none of them is
  above 255, and are refused otherwise; leading zeros do not matter.  The test is on the number left
  in a 32-bit \<open>int\<close>: a group above the range of an \<open>int\<close> is read modulo \<open>2\<^sup>3\<^sup>2\<close>, so \<open>4294967297\<close> passes for 1.
\<close>

theorem parse_ip4_dotted:
  assumes "\<forall>ds\<in>{a, b, c, d}. ds \<noteq> [] \<and> (\<forall>x\<in>set ds. is_digit x)"
    and "t = [] \<or> ip_end (hd t) \<and> hd t \<noteq> CHR ''.''"
  shows "parse_ip4 (a @ ''.'' @ b @ ''.'' @ c @ ''.'' @ d @ t) =
    (if \<forall>ds\<in>{a, b, c, d}. sint (octet ds) \<le> 255
     then Some (octet a OR push_bit 8 (octet b) OR push_bit 16 (octet c) OR push_bit 24 (octet d))
     else None)"
proof -
  have l: "ip_loop (a @ ''.'' @ b @ ''.'' @ c @ ''.'' @ d @ t) [] 0 0 =
    (if \<forall>ds\<in>{a, b, c, d}. sint (octet ds) \<le> 255 then Some [octet a, octet b, octet c, octet d] else None)"
    using assms by (simp add: ip_loop_group not_le)
  show ?thesis unfolding parse_ip4_def l by simp
qed

theorem parse_ip4_dotted_witness: "parse_ip4 ''10.0.2.4294967297'' = parse_ip4 ''10.0.2.1 # gateway''"
proof -
  have d: "\<forall>ds\<in>{''10'', ''0'', ''2'', ''4294967297'', ''1''}. ds \<noteq> [] \<and> (\<forall>x\<in>set ds. is_digit x)"
    by (simp add: is_digit_def sc_def)
  have "octet ''4294967297'' = octet ''1''" by (simp add: octet_def digit_def sc_def)
  moreover have "parse_ip4 (''10'' @ ''.'' @ ''0'' @ ''.'' @ ''2'' @ ''.'' @ ''4294967297'' @ []) =
    (if \<forall>ds\<in>{''10'', ''0'', ''2'', ''4294967297''}. sint (octet ds) \<le> 255
     then Some (octet ''10'' OR push_bit 8 (octet ''0'') OR push_bit 16 (octet ''2'') OR push_bit 24 (octet ''4294967297''))
     else None)"
    by (rule parse_ip4_dotted) (use d in auto)
  moreover have "parse_ip4 (''10'' @ ''.'' @ ''0'' @ ''.'' @ ''2'' @ ''.'' @ ''1'' @ '' # gateway'') =
    (if \<forall>ds\<in>{''10'', ''0'', ''2'', ''1''}. sint (octet ds) \<le> 255
     then Some (octet ''10'' OR push_bit 8 (octet ''0'') OR push_bit 16 (octet ''2'') OR push_bit 24 (octet ''1''))
     else None)"
    by (rule parse_ip4_dotted) (use d in \<open>auto simp: ip_end_def\<close>)
  ultimately show ?thesis by simp
qed


subsection \<open>The network configuration\<close>

record netconf =
  nc_static :: bool
  nc_ip :: "32 word"
  nc_netmask :: "32 word"
  nc_gateway :: "32 word"
  nc_dns :: "32 word"
  nc_hostname :: string

definition default_netconf :: netconf where
  "default_netconf = \<lparr>nc_static = False, nc_ip = 0, nc_netmask = 0, nc_gateway = 0, nc_dns = 0, nc_hostname = ''xv6''\<rparr>"

text \<open>\<open>parse_ip4(s, &field)\<close> leaves the field alone when it fails.\<close>

definition or_old :: "32 word option \<Rightarrow> 32 word \<Rightarrow> 32 word" where
  "or_old r old = (case r of None \<Rightarrow> old | Some w \<Rightarrow> w)"

definition conf_line :: "nat \<Rightarrow> string \<Rightarrow> netconf \<Rightarrow> netconf" where
  "conf_line hmax line req =
     (let p = skip_ws line in
      if p = [] \<or> hd p = CHR ''#'' then req
      else if my_strncmp p ''mode='' 5 = 0
      then req\<lparr>nc_static := (my_strncmp (skip_ws (drop 5 p)) ''static'' 6 = 0)\<rparr>
      else if my_strncmp p ''ip='' 3 = 0 then req\<lparr>nc_ip := or_old (parse_ip4 (skip_ws (drop 3 p))) (nc_ip req)\<rparr>
      else if my_strncmp p ''netmask='' 8 = 0
      then req\<lparr>nc_netmask := or_old (parse_ip4 (skip_ws (drop 8 p))) (nc_netmask req)\<rparr>
      else if my_strncmp p ''gateway='' 8 = 0
      then req\<lparr>nc_gateway := or_old (parse_ip4 (skip_ws (drop 8 p))) (nc_gateway req)\<rparr>
      else if my_strncmp p ''dns='' 4 = 0 then req\<lparr>nc_dns := or_old (parse_ip4 (skip_ws (drop 4 p))) (nc_dns req)\<rparr>
      else if my_strncmp p ''hostname='' 9 = 0
      then req\<lparr>nc_hostname := copy_value hmax (skip_ws (drop 9 p))\<rparr>
      else req)"

text \<open>The loop over the lines of a buffer, which \<open>main\<close> uses again for the services.\<close>

function line_loop :: "(string \<Rightarrow> 'a \<Rightarrow> 'a) \<Rightarrow> string \<Rightarrow> 'a \<Rightarrow> 'a" where
  "line_loop f s a =
     (if s = [] then a
      else
        let line = takeWhile (\<lambda>c. c \<noteq> NL) s; rest = dropWhile (\<lambda>c. c \<noteq> NL) s; a = f line a in
        if rest = [] then a else line_loop f (tl rest) a)"
  by pat_completeness auto
termination
  by (relation "measure (\<lambda>(f, s, a). length s)") (simp_all add: rest_less del: length_tl)

declare line_loop.simps [simp del]

text \<open>What one \<open>read\<close> of the file gave, cut at the first NUL, of at most 1023 bytes; \<^const>\<open>None\<close> if there is no file.\<close>

definition read_conf :: "string option \<Rightarrow> string" where
  "read_conf contents = (case contents of None \<Rightarrow> [] | Some s \<Rightarrow> takeWhile (\<lambda>c. c \<noteq> NUL) (take 1023 s))"

definition configure_network :: "nat \<Rightarrow> string option \<Rightarrow> netconf" where
  "configure_network hmax contents = line_loop (conf_line hmax) (read_conf contents) default_netconf"

lemma strip_blanks_le: "strip_blanks s i \<le> i"
  by (induction i) auto

lemma copy_value_length: "0 < maxlen \<Longrightarrow> length (copy_value maxlen src) < maxlen"
proof -
  assume "0 < maxlen"
  define i where "i = length (takeWhile (\<lambda>c. c \<noteq> NUL \<and> c \<noteq> NL \<and> c \<noteq> CR \<and> c \<noteq> CHR ''#'') (take (maxlen - 1) src))"
  have "i \<le> maxlen - 1" unfolding i_def by (rule order_trans [OF length_takeWhile_le]) simp
  then have "strip_blanks src i < maxlen" using strip_blanks_le [of src i] \<open>0 < maxlen\<close> by linarith
  then show ?thesis unfolding copy_value_def Let_def i_def [symmetric] by simp
qed

lemma line_loop_invariant: "(\<And>l a. I a \<Longrightarrow> I (f l a)) \<Longrightarrow> I a \<Longrightarrow> I (line_loop f s a)"
proof (induction f s a rule: line_loop.induct)
  case (1 f s a)
  show ?case
    using "1.IH" [OF _ refl refl refl] "1.prems" by (subst line_loop.simps) (auto simp: Let_def)
qed

lemma line_loop_append:
  "NL \<notin> set l \<Longrightarrow> line_loop f (l @ NL # s) a = line_loop f s (f l a)"
proof -
  assume "NL \<notin> set l"
  then have l: "\<forall>c\<in>set l. c \<noteq> NL" by auto
  then have "takeWhile (\<lambda>c. c \<noteq> NL) (l @ NL # s) = l" "dropWhile (\<lambda>c. c \<noteq> NL) (l @ NL # s) = NL # s"
    by (simp_all add: takeWhile_tail takeWhile_eq_all_conv [THEN iffD2] dropWhile_append)
  then show ?thesis by (subst line_loop.simps) (simp add: Let_def)
qed

text \<open>
  The request sent to the kernel is always well-formed: whatever the configuration file holds, the
  host name fits its field with its terminator, and without a file, or with settings that do not
  parse, the defaults stand.
\<close>

theorem configure_network_safe:
  assumes "3 < hmax"
  shows "length (nc_hostname (configure_network hmax contents)) < hmax \<and>
    configure_network hmax None = default_netconf \<and>
    (nc_ip (conf_line hmax (''ip='' @ v) req) = (case parse_ip4 (skip_ws v) of None \<Rightarrow> nc_ip req | Some w \<Rightarrow> w))"
proof -
  have "length (nc_hostname (conf_line hmax l req)) < hmax" if "length (nc_hostname req) < hmax" for l req
    using that assms copy_value_length [of hmax] by (simp add: conf_line_def Let_def)
  then have "length (nc_hostname (configure_network hmax contents)) < hmax"
    unfolding configure_network_def
    by (rule line_loop_invariant [where I = "\<lambda>r. length (nc_hostname r) < hmax"]) (use assms in \<open>simp_all add: default_netconf_def\<close>)
  moreover have "configure_network hmax None = default_netconf"
    by (simp add: configure_network_def read_conf_def line_loop.simps)
  moreover have "my_strncmp (''ip='' @ v) ''mode='' 5 \<noteq> 0" "my_strncmp (''ip='' @ v) ''ip='' 3 = 0"
    by (simp_all add: numeral_eq_Suc)
  then have "nc_ip (conf_line hmax (''ip='' @ v) req) = (case parse_ip4 (skip_ws v) of None \<Rightarrow> nc_ip req | Some w \<Rightarrow> w)"
    by (simp add: conf_line_def Let_def or_old_def skip_ws_def)
  ultimately show ?thesis by blast
qed

theorem configure_network_safe_witness:
  "length (nc_hostname (configure_network 8 (Some (''hostname=a-long-host-name'' @ [NL])))) < 8"
  using configure_network_safe [of 8 "Some (''hostname=a-long-host-name'' @ [NL])" "[]" default_netconf] by simp

subsection \<open>Services\<close>

definition is_env_assignment :: "string \<Rightarrow> bool" where
  "is_env_assignment s \<longleftrightarrow> deref s \<noteq> NUL \<and> deref s \<noteq> CHR ''='' \<and> CHR ''='' \<in> set s"

definition blank :: "char \<Rightarrow> bool" where
  "blank c \<longleftrightarrow> c = CHR '' '' \<or> c = TAB"

text \<open>The words of a line from its first word on; the array has room for \<open>room\<close> more.\<close>

fun startup_tokens :: "nat \<Rightarrow> string \<Rightarrow> string list" where
  "startup_tokens 0 q = []"
| "startup_tokens (Suc room) q =
     (if q = [] then []
      else takeWhile (\<lambda>c. \<not> blank c) q #
        startup_tokens room (dropWhile blank (dropWhile (\<lambda>c. \<not> blank c) q)))"

text \<open>The environment of at most 15 assignments in front, and the command of at most 15 words.\<close>

definition startup_command :: "string \<Rightarrow> (string list \<times> string list) option" where
  "startup_command line =
     (let p = skip_ws line in
      if p = [] \<or> hd p = CHR ''#'' then None
      else
        let tokens = startup_tokens 31 p;
            senv = take 15 (takeWhile is_env_assignment tokens);
            rest = drop (length senv) tokens
        in if rest = [] then None else Some (senv, take 15 rest))"

definition startup_services :: "string option \<Rightarrow> (string list \<times> string list) list" where
  "startup_services contents =
     line_loop (\<lambda>line out. case startup_command line of None \<Rightarrow> out | Some c \<Rightarrow> out @ [c]) (read_conf contents) []"

lemma startup_tokens_length: "length (startup_tokens n q) \<le> n"
  by (induction n q rule: startup_tokens.induct) auto

text \<open>The rest of a line is empty or begins with a word.\<close>

definition at_word :: "string \<Rightarrow> bool" where
  "at_word q \<longleftrightarrow> (case q of [] \<Rightarrow> True | c # _ \<Rightarrow> \<not> blank c)"

lemma at_word_dropWhile: "at_word (dropWhile blank s)"
  by (induction s) (auto simp: at_word_def)

lemma startup_tokens_words:
  "at_word q \<Longrightarrow> list_all (\<lambda>w. w \<noteq> [] \<and> list_all (\<lambda>c. \<not> blank c) w) (startup_tokens n q)"
proof (induction n q rule: startup_tokens.induct)
  case (2 room q)
  show ?case
  proof (cases q)
    case (Cons c t)
    have "list_all (\<lambda>c. \<not> blank c) (takeWhile (\<lambda>c. \<not> blank c) q)"
      by (auto simp: list_all_iff dest: set_takeWhileD)
    then show ?thesis
      using "2.IH" at_word_dropWhile "2.prems" Cons by (simp add: at_word_def)
  qed simp
qed simp

text \<open>
  No line of the startup file overruns the tables of init: a service has at most 15 variables and 15
  words, it has at least one word, and neither a variable nor a word is empty or holds a blank;
  a line without a command starts nothing.
\<close>

theorem startup_services_safe:
  "\<forall>(senv, sargv)\<in>set (startup_services contents). length senv \<le> 15 \<and> length sargv \<le> 15 \<and> sargv \<noteq> [] \<and>
     length senv + length sargv \<le> 31 \<and> (\<forall>w\<in>set (senv @ sargv). w \<noteq> [] \<and> (\<forall>c\<in>set w. \<not> blank c)) \<and>
     (\<forall>w\<in>set senv. CHR ''='' \<in> set w)"
proof -
  let ?P = "\<lambda>(senv, sargv). length senv \<le> 15 \<and> length sargv \<le> 15 \<and> sargv \<noteq> [] \<and>
     length senv + length sargv \<le> 31 \<and> (\<forall>w\<in>set (senv @ sargv). w \<noteq> [] \<and> (\<forall>c\<in>set w. \<not> blank c)) \<and>
     (\<forall>w\<in>set senv. CHR ''='' \<in> set w)"
  have one: "?P c" if "startup_command line = Some c" for line c
  proof -
    define tokens where "tokens = startup_tokens 31 (skip_ws line)"
    define senv where "senv = take 15 (takeWhile is_env_assignment tokens)"
    have c: "c = (senv, take 15 (drop (length senv) tokens))" "drop (length senv) tokens \<noteq> []"
      using that unfolding startup_command_def Let_def tokens_def senv_def by (auto split: if_splits)
    have words: "\<forall>w\<in>set tokens. w \<noteq> [] \<and> (\<forall>c\<in>set w. \<not> blank c)"
    proof -
      have "skip_ws line = dropWhile blank line" by (simp add: skip_ws_def blank_def [abs_def])
      then have "at_word (skip_ws line)" using at_word_dropWhile by simp
      from startup_tokens_words [OF this] show ?thesis unfolding tokens_def by (simp add: list_all_iff)
    qed
    have sub: "set senv \<subseteq> set tokens" unfolding senv_def by (meson in_set_takeD set_takeWhileD subsetI)
    have "is_env_assignment w" if "w \<in> set senv" for w
      using that unfolding senv_def by (meson in_set_takeD set_takeWhileD)
    then have "\<forall>w\<in>set senv. CHR ''='' \<in> set w" by (auto simp: is_env_assignment_def)
    moreover have "length senv \<le> 15" by (simp add: senv_def)
    moreover have "\<forall>w\<in>set (senv @ take 15 (drop (length senv) tokens)). w \<noteq> [] \<and> (\<forall>c\<in>set w. \<not> blank c)"
      using words sub by (auto dest!: in_set_takeD in_set_dropD)
    ultimately show ?thesis using c by simp
  qed
  have "\<forall>c\<in>set (startup_services contents). ?P c"
    unfolding startup_services_def
    by (rule line_loop_invariant [where I = "\<lambda>out. \<forall>c\<in>set out. ?P c"]) (use one in \<open>auto split: option.splits\<close>)
  then show ?thesis .
qed

theorem startup_services_safe_witness:
  "list_all (\<lambda>(senv, sargv). length senv \<le> 15) (startup_services (Some (''A=1 B=2 /bin/d -f'' @ [NL])))"
  using startup_services_safe [of "Some (''A=1 B=2 /bin/d -f'' @ [NL])"] by (auto simp: list_all_iff)

subsection \<open>The shell\<close>

text \<open>
  After the services, init forks the shell and waits; an event is the result of a system call.
  \<open>naps\<close> counts the calls of \<open>sleep\<close>.
\<close>

datatype phase = Spawn | Waiting int | Exited

record init_state =
  phase :: phase
  shells :: nat
  naps :: nat

datatype event = ForkRet int | WaitRet int

abbreviation EINTR :: int where "EINTR \<equiv> 4"

inductive init_step :: "event \<Rightarrow> init_state \<Rightarrow> init_state \<Rightarrow> bool" where
  fork_fails: "phase st = Spawn \<Longrightarrow> pid < 0 \<Longrightarrow> init_step (ForkRet pid) st (st\<lparr>phase := Exited\<rparr>)"
| fork_shell: "phase st = Spawn \<Longrightarrow> 0 < pid \<Longrightarrow>
    init_step (ForkRet pid) st (st\<lparr>phase := Waiting pid, shells := shells st + 1\<rparr>)"
| wait_shell: "phase st = Waiting pid \<Longrightarrow> init_step (WaitRet pid) st (st\<lparr>phase := Spawn\<rparr>)"
| wait_error: "phase st = Waiting pid \<Longrightarrow> wpid \<noteq> pid \<Longrightarrow> wpid < 0 \<Longrightarrow>
    init_step (WaitRet wpid) st (if wpid = - EINTR then st else st\<lparr>naps := naps st + 1\<rparr>)"
| wait_orphan: "phase st = Waiting pid \<Longrightarrow> wpid \<noteq> pid \<Longrightarrow> \<not> wpid < 0 \<Longrightarrow> init_step (WaitRet wpid) st st"

inductive_cases init_stepE: "init_step ev st st'"

inductive init_run :: "event list \<Rightarrow> init_state \<Rightarrow> init_state \<Rightarrow> bool" where
  run_none: "init_run [] st st"
| run_more: "init_step ev st st1 \<Longrightarrow> init_run evs st1 st' \<Longrightarrow> init_run (ev # evs) st st'"




end
