(* ===== verification/InitBoot.thy ===== *)
theory InitBoot
  imports Init ShRun
begin

section \<open>init.c: from the console to the shell\<close>

text \<open>
  The part of \<open>main\<close> in front of the loop that keeps the shell running: the console as the three standard
  descriptors, device nodes and mounts, the network, the services.  A descriptor table holds the paths that are
  open.  The kernel is a record: what one read of a file gives (nothing where the open fails), whether the console can
  be opened once its node is made, and the answer of the \<open>n\<close>th fork.  Messages are left out.
\<close>

record boot_host =
  h_files :: "string \<Rightarrow> string option"
  h_console_node :: bool
  h_fork :: "nat \<Rightarrow> int"

datatype boot_event =
    Mknod string nat nat
  | Attach
  | Mkdir string
  | Mount string string
  | Configure netconf
  | Service "string option list" "string list" "string list"

type_synonym boot = "string option list \<times> boot_event list"

definition did :: "boot_event \<Rightarrow> boot \<Rightarrow> boot" where
  "did e s = (case s of (fds, es) \<Rightarrow> (fds, es @ [e]))"

definition boot_open :: "bool \<Rightarrow> string \<Rightarrow> string option list \<Rightarrow> nat option \<times> string option list" where
  "boot_open ok path fds =
     (if \<not> ok then (None, fds)
      else case fd_alloc path fds of None \<Rightarrow> (None, fds) | Some (fd, fds) \<Rightarrow> (Some fd, fds))"

abbreviation CONSOLE :: string where "CONSOLE \<equiv> ''/dev/console''"

definition dup_console :: "string option list \<Rightarrow> string option list" where
  "dup_console fds = (case fd_dup 0 fds of None \<Rightarrow> fds | Some fds \<Rightarrow> fds)"

definition boot_console :: "boot_host \<Rightarrow> boot \<Rightarrow> boot" where
  "boot_console h s =
     (case s of (fds, es) \<Rightarrow>
        let s = (case boot_open (h_files h CONSOLE \<noteq> None) CONSOLE fds of
                   (Some fd, fds) \<Rightarrow> (fds, es)
                 | (None, fds) \<Rightarrow> (snd (boot_open (h_console_node h) CONSOLE fds), es @ [Mknod CONSOLE 1 1]))
        in (dup_console (dup_console (fst s)), snd s))"

definition boot_devices :: "boot \<Rightarrow> boot" where
  "boot_devices s =
     fold did [Attach, Mknod ''/dev/null'' 1 2, Mknod ''/dev/random'' 1 3, Mknod ''/dev/tty'' 5 1,
       Mkdir ''/tmp'', Mount ''/tmp'' ''tmpfs'', Mkdir ''/proc'', Mount ''/proc'' ''procfs'',
       Mkdir ''/sys'', Mount ''/sys'' ''sysfs''] s"

text \<open>A file that is read once: its bytes, and the table after it is closed.\<close>

definition read_once :: "boot_host \<Rightarrow> string \<Rightarrow> string option list \<Rightarrow> string option \<times> string option list" where
  "read_once h path fds =
     (case boot_open (h_files h path \<noteq> None) path fds of
        (None, fds) \<Rightarrow> (None, fds)
      | (Some fd, fds) \<Rightarrow> (h_files h path, fd_close fd fds))"

definition boot_network :: "nat \<Rightarrow> boot_host \<Rightarrow> boot \<Rightarrow> boot" where
  "boot_network hmax h s =
     (case s of (fds, es) \<Rightarrow>
      case read_once h ''/etc/network.conf'' fds of (contents, fds) \<Rightarrow>
        let req = configure_network hmax contents in
        case boot_open (h_files h ''/dev/netconf'' \<noteq> None) ''/dev/netconf'' fds of
          (None, fds) \<Rightarrow> (fds, es)
        | (Some fd, fds) \<Rightarrow> (fd_close fd fds, es @ [Configure req]))"

definition dup2_close :: "nat \<Rightarrow> string option list \<Rightarrow> string option list" where
  "dup2_close fd fds = fd_close fd (fds[0 := fds ! fd])"

definition redirect_startup_stdin_to_null :: "boot_host \<Rightarrow> string option list \<Rightarrow> string option list" where
  "redirect_startup_stdin_to_null h fds =
     (case boot_open (h_files h ''/dev/null'' \<noteq> None) ''/dev/null'' fds of
        (None, fds) \<Rightarrow> fds
      | (Some nfd, fds) \<Rightarrow> if nfd \<noteq> 0 then dup2_close nfd fds else fds)"

text \<open>
  The services in the order of the file; the child of a fork that succeeds executes the command with its descriptors
  and the assignments in front of it, if there are any.
\<close>

fun start_services :: "boot_host \<Rightarrow> nat \<Rightarrow> (string list \<times> string list) list \<Rightarrow> boot \<Rightarrow> boot" where
  "start_services h n [] s = s"
| "start_services h n ((senv, argv) # cs) s =
     start_services h (Suc n) cs
       (if 0 < h_fork h n then did (Service (redirect_startup_stdin_to_null h (fst s)) senv argv) s else s)"

definition boot_services :: "boot_host \<Rightarrow> boot \<Rightarrow> boot" where
  "boot_services h s =
     (case s of (fds, es) \<Rightarrow>
      case read_once h ''/etc/startup'' fds of (contents, fds) \<Rightarrow> start_services h 0 (startup_services contents) (fds, es))"

definition init_boot :: "nat \<Rightarrow> boot_host \<Rightarrow> string option list \<Rightarrow> boot" where
  "init_boot hmax h fds = boot_services h (boot_network hmax h (boot_devices (boot_console h (fds, []))))"

text \<open>The child that becomes the shell: the program, its arguments and environment, or nothing when both are missing.\<close>

definition bash_argv :: "string list" where "bash_argv = [''bash'', ''-i'']"
definition sh_argv :: "string list" where "sh_argv = [''sh'']"

definition console_env :: "string list" where
  "console_env = [''HOME=/root'', ''USER=root'', ''LOGNAME=root'', ''SHELL=/bin/bash'',
     ''PATH=/usr/local/bin:/usr/bin:/bin:/'', ''TERM=xterm-256color'', ''LANG=C'', ''LC_ALL=C'', ''PYTHONUTF8=1'',
     ''PYTHONIOENCODING=utf-8'', ''PYTHONHOME=/'', ''PYTHONPATH=/lib/python3.12:/lib/python3.12/site-packages'',
     ''PYTHONDONTWRITEBYTECODE=1'']"

definition shell_child :: "(string \<Rightarrow> bool) \<Rightarrow> (string \<times> string list \<times> string list) option" where
  "shell_child runs =
     (if runs ''/bin/bash'' then Some (''/bin/bash'', bash_argv, console_env)
      else if runs ''/bin/sh'' then Some (''/bin/sh'', sh_argv, console_env) else None)"

subsection \<open>What the shell and the services inherit\<close>

text \<open>The standard descriptors on the console, and nothing else.\<close>

definition console_only :: "nat \<Rightarrow> string option list" where
  "console_only n = [Some CONSOLE, Some CONSOLE, Some CONSOLE] @ replicate n None"

definition children :: "boot_event list \<Rightarrow> (string option list \<times> string list \<times> string list) list" where
  "children es = concat (List.map (\<lambda>e. case e of Service fds senv argv \<Rightarrow> [(fds, senv, argv)] | _ \<Rightarrow> []) es)"

lemma children_simps:
  "children [] = []" "children (es @ es') = children es @ children es'" "children [Service fds senv argv] = [(fds, senv, argv)]"
  "children [Configure c] = []" "children [Mknod p i j] = []"
  by (simp_all add: children_def)

lemma console_only_alloc: "fd_alloc p (console_only (Suc n)) = Some (3, (console_only (Suc n))[3 := Some p])"
  by (simp add: fd_alloc_def console_only_def eval_nat_numeral)

lemma console_only_close: "fd_close 3 ((console_only (Suc n))[3 := x]) = console_only (Suc n)"
  by (simp add: fd_close_def console_only_def eval_nat_numeral)

lemma read_once_console: "read_once h path (console_only (Suc n)) = (h_files h path, console_only (Suc n))"
  by (auto simp: read_once_def boot_open_def console_only_alloc console_only_close)

lemma dup_simps:
  "dup_console (Some c # None # t) = Some c # Some c # t"
  "dup_console (Some c # Some c # None # t) = Some c # Some c # Some c # t"
  by (simp_all add: dup_console_def fd_dup_def fd_alloc_def)

lemma boot_console_ready:
  assumes "h_files h CONSOLE \<noteq> None \<or> h_console_node h"
  shows "fst (boot_console h (replicate (n + 4) None, [])) = console_only (Suc n)"
    "children (snd (boot_console h (replicate (n + 4) None, []))) = []"
  using assms
  by (auto simp: boot_console_def boot_open_def fd_alloc_def dup_simps console_only_def children_simps numeral_eq_Suc)

definition service_fds :: "boot_host \<Rightarrow> nat \<Rightarrow> string option list" where
  "service_fds h n = (if h_files h ''/dev/null'' \<noteq> None then (console_only n)[0 := Some ''/dev/null''] else console_only n)"

lemma redirect_console: "redirect_startup_stdin_to_null h (console_only (Suc n)) = service_fds h (Suc n)"
  by (simp add: redirect_startup_stdin_to_null_def boot_open_def console_only_alloc service_fds_def dup2_close_def fd_close_def)
    (simp add: console_only_def eval_nat_numeral)

lemma start_services_children:
  "fst (start_services h n cs (console_only (Suc k), es)) = console_only (Suc k)
   \<and> children (snd (start_services h n cs (console_only (Suc k), es))) =
      children es @ List.map (\<lambda>(i, c). (service_fds h (Suc k), c)) (filter (\<lambda>(i, c). 0 < h_fork h i) (zip [n..<n + length cs] cs))"
proof (induction cs arbitrary: n es)
  case (Cons c cs)
  obtain senv argv where c: "c = (senv, argv)" by (rule prod.exhaust)
  have "[n..<n + length (c # cs)] = n # [Suc n..<Suc n + length cs]" using upt_conv_Cons [of n "n + length (c # cs)"] by simp
  then show ?case
    using Cons.IH [of "Suc n"] by (simp add: c did_def redirect_console children_simps)
qed simp

lemma boot_devices_split: "fst (boot_devices s) = fst s" "children (snd (boot_devices s)) = children (snd s)"
  by (simp_all add: boot_devices_def did_def split_beta children_def)

lemma boot_network_console:
  assumes "fst s = console_only (Suc k)"
  shows "fst (boot_network hmax h s) = console_only (Suc k)" "children (snd (boot_network hmax h s)) = children (snd s)"
  using assms
  by (auto simp: boot_network_def read_once_console boot_open_def console_only_alloc console_only_close children_simps
      Let_def split_beta)

text \<open>
  C25. When init comes to its loop, the console is open on the three standard descriptors and nothing else is open, so
  that is what the shell inherits.  A service is started for every command of the startup file whose fork succeeds,
  in the order of the file and with its own environment; its output goes to the console and its input is the null
  device, if that can be opened, and no other descriptor is passed on to it.
\<close>

theorem init_hands_down_console:
  assumes "h_files h CONSOLE \<noteq> None \<or> h_console_node h" and cs: "cs = startup_services (h_files h ''/etc/startup'')"
    and boot: "init_boot hmax h (replicate (k + 4) None) = (fds, es)"
  shows "fds = [Some CONSOLE, Some CONSOLE, Some CONSOLE] @ replicate (Suc k) None
    \<and> children es = List.map
        (\<lambda>(i, senv, argv). (Some (if h_files h ''/dev/null'' \<noteq> None then ''/dev/null'' else CONSOLE) #
                      [Some CONSOLE, Some CONSOLE] @ replicate (Suc k) None, senv, argv))
        (filter (\<lambda>(i, c). 0 < h_fork h i) (enumerate 0 cs))"
proof -
  let ?s = "boot_network hmax h (boot_devices (boot_console h (replicate (k + 4) None, [])))"
  have ready: "fst ?s = console_only (Suc k)" "children (snd ?s) = []"
    using boot_network_console [of "boot_devices (boot_console h (replicate (k + 4) None, []))" k hmax h]
      boot_console_ready [OF assms(1), of k] by (simp_all add: boot_devices_split)
  then have run: "(fds, es) = start_services h 0 cs (console_only (Suc k), snd ?s)"
    using boot read_once_console [of h "''/etc/startup''" k]
    by (simp add: init_boot_def boot_services_def split_beta cs)
  have "fds = console_only (Suc k)"
    "children es = List.map (\<lambda>(i, c). (service_fds h (Suc k), c)) (filter (\<lambda>(i, c). 0 < h_fork h i) (enumerate 0 cs))"
    using start_services_children [of h 0 cs k "snd ?s"] ready(2) unfolding run [symmetric]
    by (simp_all add: enumerate_eq_zip)
  then show ?thesis by (auto simp: service_fds_def console_only_def)
qed

text \<open>A startup file with two services, of which the second cannot be forked.\<close>

definition sample_host :: boot_host where
  "sample_host = \<lparr>h_files = [CONSOLE \<mapsto> [], ''/dev/null'' \<mapsto> [], ''/etc/startup'' \<mapsto> ''A=1 /bin/d -x'' @ [NL] @ ''/bin/e'' @ [NL]],
     h_console_node = False, h_fork = (\<lambda>n. if n = 0 then 5 else - 1)\<rparr>"

lemma init_hands_down_console_witness:
  "children (snd (init_boot 16 sample_host (replicate (0 + 4) None)))
    = [([Some ''/dev/null'', Some CONSOLE, Some CONSOLE, None], [''A=1''], [''/bin/d'', ''-x''])]"
proof -
  have "startup_services (h_files sample_host ''/etc/startup'') = [([''A=1''], [''/bin/d'', ''-x'']), ([], [''/bin/e''])]"
    by (simp add: sample_host_def) code_simp
  then show ?thesis
    using init_hands_down_console [of sample_host, OF _ refl prod.collapse [symmetric], of 16 0]
    by (simp add: sample_host_def)
qed

end
