(* ===== verification/Fsutil.thy ===== *)
theory Fsutil
  imports Prelude
begin

section \<open>fsutil.c: copying, moving and removing trees\<close>

text \<open>
  The kernel is a parameter: a record with the system calls the file uses, each a function on a
  state of its own choosing.  A call gives the \<open>int\<close> the C function gives, what it stores through
  its pointers, and the next state, so the code's tests of the results stay as they are written.
  \<open>MAXPATH\<close> comes from the kernel's headers and is a field.  A mode is split into the file
  type and the bits outside \<open>S_IFMT\<close>.  \<open>getdents\<close> fills a buffer that is read as a directory
  record at any position.  The two recursions and the loops over \<open>read\<close> and \<open>getdents\<close> end
  only if the kernel's answers do, so they take fuel; \<^const>\<open>None\<close> is running out of it.
\<close>

abbreviation ENOENT :: int where "ENOENT \<equiv> 2"
abbreviation EIO :: int where "EIO \<equiv> 5"
abbreviation EXDEV :: int where "EXDEV \<equiv> 18"
abbreviation ENOTDIR :: int where "ENOTDIR \<equiv> 20"
abbreviation EISDIR :: int where "EISDIR \<equiv> 21"
abbreviation EINVAL :: int where "EINVAL \<equiv> 22"
abbreviation ENAMETOOLONG :: int where "ENAMETOOLONG \<equiv> 36"
abbreviation EOPNOTSUPP :: int where "EOPNOTSUPP \<equiv> 95"

datatype ftype = Regular | Directory | Symlink | Special

record stat =
  st_dev :: nat
  st_ino :: nat
  st_type :: ftype
  st_perm :: nat

record dirent =
  d_ino :: nat
  d_reclen :: nat
  d_name :: string

datatype oflags = O_RDONLY | O_WRONLY_CREAT_TRUNC

record 's kernel =
  MAXPATH :: nat
  sys_lstat :: "string \<Rightarrow> 's \<Rightarrow> int \<times> stat \<times> 's"
  sys_stat :: "string \<Rightarrow> 's \<Rightarrow> int \<times> stat \<times> 's"
  sys_open :: "string \<Rightarrow> oflags \<Rightarrow> 's \<Rightarrow> int \<times> 's"
  sys_close :: "int \<Rightarrow> 's \<Rightarrow> 's"
  sys_read :: "int \<Rightarrow> nat \<Rightarrow> 's \<Rightarrow> int \<times> string \<times> 's"
  sys_write :: "int \<Rightarrow> string \<Rightarrow> 's \<Rightarrow> int \<times> 's"
  sys_getdents :: "int \<Rightarrow> nat \<Rightarrow> 's \<Rightarrow> int \<times> (nat \<Rightarrow> dirent) \<times> 's"
  sys_readlink :: "string \<Rightarrow> nat \<Rightarrow> 's \<Rightarrow> int \<times> string \<times> 's"
  sys_symlink :: "string \<Rightarrow> string \<Rightarrow> 's \<Rightarrow> int \<times> 's"
  sys_unlink :: "string \<Rightarrow> 's \<Rightarrow> int \<times> 's"
  sys_mkdir :: "string \<Rightarrow> 's \<Rightarrow> int \<times> 's"
  sys_rename :: "string \<Rightarrow> string \<Rightarrow> 's \<Rightarrow> int \<times> 's"
  sys_fchmodat :: "string \<Rightarrow> nat \<Rightarrow> 's \<Rightarrow> int \<times> 's"

definition FSUTIL_DIRENT_BUFSZ :: nat where "FSUTIL_DIRENT_BUFSZ = 1024"
definition FSUTIL_COPY_BUFSZ :: nat where "FSUTIL_COPY_BUFSZ = 4096"

subsection \<open>Paths\<close>

abbreviation SLASH :: char where "SLASH \<equiv> CHR ''/''"

definition same_file :: "stat \<Rightarrow> stat \<Rightarrow> bool" where
  "same_file a b \<longleftrightarrow> st_dev a = st_dev b \<and> st_ino a = st_ino b"

text \<open>\<open>while (len > 1 && path[len - 1] == '/') len--;\<close>\<close>

fun strip_slashes :: "string \<Rightarrow> nat \<Rightarrow> nat" where
  "strip_slashes path 0 = 0"
| "strip_slashes path (Suc n) =
     (if 1 < Suc n \<and> path ! n = SLASH then strip_slashes path n else Suc n)"

text \<open>\<open>while (start > 0 && path[start - 1] != '/') start--;\<close>\<close>

fun base_start :: "string \<Rightarrow> nat \<Rightarrow> nat" where
  "base_start path 0 = 0"
| "base_start path (Suc n) = (if path ! n \<noteq> SLASH then base_start path n else Suc n)"

text \<open>The left value is the error, the right one the string left in the buffer of \<open>dstsz\<close> bytes.\<close>

definition copy_basename :: "nat \<Rightarrow> string \<Rightarrow> int + string" where
  "copy_basename dstsz path =
     (let len = strip_slashes path (length path);
          start = base_start path len;
          base_len = len - start
      in if base_len = 0 then (if dstsz < 2 then Inl (- ENAMETOOLONG) else Inr [SLASH])
         else if dstsz < base_len + 1 then Inl (- ENAMETOOLONG)
         else Inr (take base_len (drop start path)))"

definition is_dot_or_dotdot :: "string \<Rightarrow> bool" where
  "is_dot_or_dotdot nm \<longleftrightarrow> nm = ''.'' \<or> nm = ''..''"

definition join_path :: "nat \<Rightarrow> string \<Rightarrow> string \<Rightarrow> int + string" where
  "join_path dstsz dir nm =
     (let dir_len = strip_slashes dir (length dir);
          need_slash = (\<not> (dir_len = 1 \<and> dir ! 0 = SLASH));
          total = dir_len + (if need_slash then 1 else 0) + length nm
      in if dstsz < total + 1 then Inl (- ENAMETOOLONG)
         else Inr (take dir_len dir @ (if need_slash then [SLASH] else []) @ nm))"

definition resolve_target :: "'s kernel \<Rightarrow> nat \<Rightarrow> string \<Rightarrow> string \<Rightarrow> bool \<Rightarrow> 's \<Rightarrow> (int + string) \<times> 's" where
  "resolve_target os bufsz src dst dst_must_be_dir s =
     (case sys_lstat os dst s of (ret, st, s) \<Rightarrow>
        if dst_must_be_dir \<and> ret < 0 then (Inl (- ENOTDIR), s)
        else if dst_must_be_dir \<and> st_type st \<noteq> Directory then (Inl (- ENOTDIR), s)
        else if 0 \<le> ret \<and> st_type st = Directory then
          (case copy_basename (MAXPATH os) src of
             Inl e \<Rightarrow> (Inl e, s)
           | Inr base \<Rightarrow> (join_path bufsz dst base, s))
        else if bufsz < length dst + 1 then (Inl (- ENAMETOOLONG), s)
        else (Inr dst, s))"

subsection \<open>Copying\<close>

fun write_all :: "'s kernel \<Rightarrow> int \<Rightarrow> string \<Rightarrow> 's \<Rightarrow> int \<times> 's" where
  "write_all os dfd [] s = (0, s)"
| "write_all os dfd (c # cs) s =
     (case sys_write os dfd (c # cs) s of (w, s) \<Rightarrow>
        if w < 0 then (w, s)
        else if w = 0 then (- EIO, s)
        else write_all os dfd (drop (nat w) (c # cs)) s)"

fun copy_data :: "nat \<Rightarrow> 's kernel \<Rightarrow> int \<Rightarrow> int \<Rightarrow> 's \<Rightarrow> (int \<times> 's) option" where
  "copy_data 0 os sfd dfd s = None"
| "copy_data (Suc k) os sfd dfd s =
     (case sys_read os sfd FSUTIL_COPY_BUFSZ s of (n, buf, s) \<Rightarrow>
        if n < 0 then Some (n, s)
        else if n = 0 then Some (0, s)
        else (case write_all os dfd (take (nat n) buf) s of (ret, s) \<Rightarrow>
                if ret < 0 then Some (ret, s) else copy_data k os sfd dfd s))"

definition copy_regular :: "nat \<Rightarrow> 's kernel \<Rightarrow> string \<Rightarrow> string \<Rightarrow> stat \<Rightarrow> 's \<Rightarrow> (int \<times> 's) option" where
  "copy_regular k os src dst src_st s =
     (case sys_lstat os dst s of (ret, dst_st, s) \<Rightarrow>
        if 0 \<le> ret \<and> same_file src_st dst_st then Some (- EINVAL, s)
        else (case sys_open os src O_RDONLY s of (sfd, s) \<Rightarrow>
          if sfd < 0 then Some (sfd, s)
          else (case sys_open os dst O_WRONLY_CREAT_TRUNC s of (dfd, s) \<Rightarrow>
            if dfd < 0 then Some (dfd, sys_close os sfd s)
            else (case copy_data k os sfd dfd s of
                None \<Rightarrow> None
              | Some (ret, s) \<Rightarrow>
                  (let s = sys_close os sfd (sys_close os dfd s)
                   in if ret = 0 then
                        (case sys_fchmodat os dst (st_perm src_st) s of (chmod_ret, s) \<Rightarrow>
                           if chmod_ret < 0 then Some (chmod_ret, s) else Some (ret, s))
                      else Some (ret, s))))))"

definition copy_symlink :: "'s kernel \<Rightarrow> string \<Rightarrow> string \<Rightarrow> 's \<Rightarrow> int \<times> 's" where
  "copy_symlink os src dst s =
     (case sys_readlink os src (MAXPATH os - 1) s of (ret, buf, s) \<Rightarrow>
        if ret < 0 then (ret, s)
        else if int (MAXPATH os) - 1 \<le> ret then (- ENAMETOOLONG, s)
        else let target = take (nat ret) buf
        in (case sys_lstat os dst s of (ret, dst_st, s) \<Rightarrow>
             if 0 \<le> ret then
               (if st_type dst_st = Directory then (- EISDIR, s)
                else (case sys_unlink os dst s of (ret, s) \<Rightarrow>
                        if ret < 0 then (ret, s) else sys_symlink os target dst s))
             else if ret \<noteq> - ENOENT then (ret, s)
             else sys_symlink os target dst s))"

text \<open>
  The loop over one buffer of directory records; \<open>cp\<close> is the recursive call of \<open>fsutil_copy_path\<close>.
  \<open>ret\<close> is the variable of that name: the result of the last child copied.
\<close>

function copy_entries :: "'s kernel \<Rightarrow> (string \<Rightarrow> string \<Rightarrow> 's \<Rightarrow> (int \<times> 's) option) \<Rightarrow>
    string \<Rightarrow> string \<Rightarrow> (nat \<Rightarrow> dirent) \<Rightarrow> nat \<Rightarrow> nat \<Rightarrow> int \<Rightarrow> 's \<Rightarrow> (int \<times> 's) option" where
  "copy_entries os cp src dst dbuf nread bpos ret s =
     (if nread \<le> bpos then Some (ret, s)
      else if d_reclen (dbuf bpos) = 0 then Some (- EIO, s)
      else if d_ino (dbuf bpos) \<noteq> 0 \<and> \<not> is_dot_or_dotdot (d_name (dbuf bpos)) then
        (case join_path (MAXPATH os) src (d_name (dbuf bpos)) of
           Inl e \<Rightarrow> Some (e, s)
         | Inr src_child \<Rightarrow>
             (case join_path (MAXPATH os) dst (d_name (dbuf bpos)) of
                Inl e \<Rightarrow> Some (e, s)
              | Inr dst_child \<Rightarrow>
                  (case cp src_child dst_child s of
                     None \<Rightarrow> None
                   | Some (ret, s) \<Rightarrow>
                       if ret < 0 then Some (ret, s)
                       else copy_entries os cp src dst dbuf nread (bpos + d_reclen (dbuf bpos)) ret s)))
      else copy_entries os cp src dst dbuf nread (bpos + d_reclen (dbuf bpos)) ret s)"
  by pat_completeness auto
termination
  by (relation "measure (\<lambda>(os, cp, src, dst, dbuf, nread, bpos, ret, s). nread - bpos)") auto

declare copy_entries.simps [simp del]

fun copy_dents :: "nat \<Rightarrow> 's kernel \<Rightarrow> (string \<Rightarrow> string \<Rightarrow> 's \<Rightarrow> (int \<times> 's) option) \<Rightarrow>
    string \<Rightarrow> string \<Rightarrow> int \<Rightarrow> int \<Rightarrow> 's \<Rightarrow> (int \<times> 's) option" where
  "copy_dents 0 os cp src dst fd ret s = None"
| "copy_dents (Suc k) os cp src dst fd ret s =
     (case sys_getdents os fd FSUTIL_DIRENT_BUFSZ s of (nread, dbuf, s) \<Rightarrow>
        if nread < 0 then Some (nread, s)
        else if nread = 0 then Some (ret, s)
        else (case copy_entries os cp src dst dbuf (nat nread) 0 ret s of
                None \<Rightarrow> None
              | Some (ret, s) \<Rightarrow> if ret < 0 then Some (ret, s) else copy_dents k os cp src dst fd ret s))"

definition copy_directory :: "nat \<Rightarrow> 's kernel \<Rightarrow> (string \<Rightarrow> string \<Rightarrow> 's \<Rightarrow> (int \<times> 's) option) \<Rightarrow>
    string \<Rightarrow> string \<Rightarrow> stat \<Rightarrow> bool \<Rightarrow> 's \<Rightarrow> (int \<times> 's) option" where
  "copy_directory k os cp src dst src_st recursive s =
     (if \<not> recursive then Some (- EISDIR, s)
      else (case sys_lstat os dst s of (ret, dst_st, s) \<Rightarrow>
        (case (if 0 \<le> ret then
                 (if st_type dst_st \<noteq> Directory then (- ENOTDIR, s)
                  else if same_file src_st dst_st then (- EINVAL, s)
                  else (0, s))
               else if ret = - ENOENT then sys_mkdir os dst s
               else (ret, s)) of (ret, s) \<Rightarrow>
          if ret < 0 then Some (ret, s)
          else (case sys_open os src O_RDONLY s of (fd, s) \<Rightarrow>
            if fd < 0 then Some (fd, s)
            else (case copy_dents k os cp src dst fd 0 s of
                None \<Rightarrow> None
              | Some (ret, s) \<Rightarrow> Some (ret, sys_close os fd s))))))"

fun copy_path :: "nat \<Rightarrow> 's kernel \<Rightarrow> bool \<Rightarrow> string \<Rightarrow> string \<Rightarrow> 's \<Rightarrow> (int \<times> 's) option" where
  "copy_path 0 os recursive src dst s = None"
| "copy_path (Suc k) os recursive src dst s =
     (case sys_lstat os src s of (ret, src_st, s) \<Rightarrow>
        if ret < 0 then Some (ret, s)
        else (case st_type src_st of
            Regular \<Rightarrow> copy_regular k os src dst src_st s
          | Symlink \<Rightarrow>
              (case copy_symlink os src dst s of (ret, s) \<Rightarrow>
                 if ret = 0 then Some (0, s)
                 else (case sys_stat os src s of (ret2, follow_st, s) \<Rightarrow>
                    if ret2 < 0 then Some (ret, s)
                    else if st_type follow_st = Regular then copy_regular k os src dst follow_st s
                    else if st_type follow_st = Directory then
                      copy_directory k os (copy_path k os recursive) src dst follow_st recursive s
                    else Some (ret, s)))
          | Directory \<Rightarrow>
              (case copy_directory k os (copy_path k os recursive) src dst src_st recursive s of
                 None \<Rightarrow> None
               | Some (ret, s) \<Rightarrow>
                   if ret = 0 then
                     (case sys_fchmodat os dst (st_perm src_st) s of (chmod_ret, s) \<Rightarrow>
                        if chmod_ret < 0 then Some (chmod_ret, s) else Some (ret, s))
                   else Some (ret, s))
          | Special \<Rightarrow> Some (- EOPNOTSUPP, s)))"

subsection \<open>Removing and moving\<close>

text \<open>The first child in one buffer of records: an error, nothing, or its path.\<close>

function scan_chunk :: "'s kernel \<Rightarrow> string \<Rightarrow> (nat \<Rightarrow> dirent) \<Rightarrow> nat \<Rightarrow> nat \<Rightarrow> int + string option" where
  "scan_chunk os path dbuf nread bpos =
     (if nread \<le> bpos then Inr None
      else if d_reclen (dbuf bpos) = 0 then Inl (- EIO)
      else if \<not> is_dot_or_dotdot (d_name (dbuf bpos)) then
        (case join_path (MAXPATH os) path (d_name (dbuf bpos)) of
           Inl e \<Rightarrow> Inl e
         | Inr child \<Rightarrow> Inr (Some child))
      else scan_chunk os path dbuf nread (bpos + d_reclen (dbuf bpos)))"
  by pat_completeness auto
termination
  by (relation "measure (\<lambda>(os, path, dbuf, nread, bpos). nread - bpos)") auto

declare scan_chunk.simps [simp del]

fun find_child :: "nat \<Rightarrow> 's kernel \<Rightarrow> string \<Rightarrow> int \<Rightarrow> 's \<Rightarrow> ((int + string option) \<times> 's) option" where
  "find_child 0 os path fd s = None"
| "find_child (Suc k) os path fd s =
     (case sys_getdents os fd FSUTIL_DIRENT_BUFSZ s of (nread, dbuf, s) \<Rightarrow>
        if nread < 0 then Some (Inl nread, s)
        else if nread = 0 then Some (Inr None, s)
        else (case scan_chunk os path dbuf (nat nread) 0 of
                Inl e \<Rightarrow> Some (Inl e, s)
              | Inr (Some child) \<Rightarrow> Some (Inr (Some child), s)
              | Inr None \<Rightarrow> find_child k os path fd s))"

definition forgive :: "bool \<Rightarrow> int \<Rightarrow> int" where
  "forgive force ret = (if force \<and> ret = - ENOENT then 0 else ret)"

fun remove_path :: "nat \<Rightarrow> 's kernel \<Rightarrow> bool \<Rightarrow> bool \<Rightarrow> string \<Rightarrow> 's \<Rightarrow> (int \<times> 's) option"
and remove_children :: "nat \<Rightarrow> 's kernel \<Rightarrow> bool \<Rightarrow> string \<Rightarrow> 's \<Rightarrow> (int \<times> 's) option" where
  "remove_path 0 os recursive force path s = None"
| "remove_path (Suc k) os recursive force path s =
     (case sys_lstat os path s of (ret, st, s) \<Rightarrow>
        if ret < 0 then Some (forgive force ret, s)
        else (case copy_basename (MAXPATH os) path of
            Inl e \<Rightarrow> Some (e, s)
          | Inr base \<Rightarrow>
              if is_dot_or_dotdot base then Some (- EINVAL, s)
              else if st_type st \<noteq> Directory then
                (case sys_unlink os path s of (ret, s) \<Rightarrow> Some (forgive force ret, s))
              else if \<not> recursive then Some (- EISDIR, s)
              else remove_children k os force path s))"
| "remove_children 0 os force path s = None"
| "remove_children (Suc k) os force path s =
     (case sys_open os path O_RDONLY s of (fd, s) \<Rightarrow>
        if fd < 0 then Some (fd, s)
        else (case find_child k os path fd s of
            None \<Rightarrow> None
          | Some (r, s) \<Rightarrow>
              (let s = sys_close os fd s
               in case r of
                    Inl e \<Rightarrow> Some (e, s)
                  | Inr None \<Rightarrow>
                      (case sys_unlink os path s of (ret, s) \<Rightarrow> Some (forgive force ret, s))
                  | Inr (Some child) \<Rightarrow>
                      (case remove_path k os True force child s of
                         None \<Rightarrow> None
                       | Some (ret, s) \<Rightarrow>
                           if ret < 0 then Some (ret, s) else remove_children k os force path s))))"

definition move_path :: "nat \<Rightarrow> 's kernel \<Rightarrow> string \<Rightarrow> string \<Rightarrow> 's \<Rightarrow> (int \<times> 's) option" where
  "move_path k os src dst s =
     (case sys_rename os src dst s of (ret, s) \<Rightarrow>
        if ret = 0 \<or> ret \<noteq> - EXDEV then Some (ret, s)
        else (case sys_lstat os src s of (ret, st, s) \<Rightarrow>
          if ret < 0 then Some (ret, s)
          else (case copy_path k os True src dst s of
              None \<Rightarrow> None
            | Some (ret, s) \<Rightarrow>
                if ret < 0 then Some (ret, s)
                else if st_type st = Directory then remove_path k os True False src s
                else Some (sys_unlink os src s))))"


subsection \<open>What the path functions compute\<close>

lemma strip_slashes_le: "strip_slashes p n \<le> n"
  by (induction p n rule: strip_slashes.induct) auto

lemma strip_slashes_spec:
  assumes "0 < n" "n \<le> length p"
  shows "0 < strip_slashes p n \<and>
    take n p = take (strip_slashes p n) p @ replicate (n - strip_slashes p n) SLASH \<and>
    (strip_slashes p n = 1 \<or> p ! (strip_slashes p n - 1) \<noteq> SLASH)"
  using assms
proof (induction p n rule: strip_slashes.induct)
  case (2 p n)
  show ?case
  proof (cases "1 < Suc n \<and> p ! n = SLASH")
    case True
    then have IH: "0 < strip_slashes p n"
      "take n p = take (strip_slashes p n) p @ replicate (n - strip_slashes p n) SLASH"
      "strip_slashes p n = 1 \<or> p ! (strip_slashes p n - 1) \<noteq> SLASH"
      using 2 by auto
    have "take (Suc n) p = take n p @ [SLASH]"
      using True 2 by (simp add: take_Suc_conv_app_nth)
    also have "\<dots> = take (strip_slashes p n) p @ replicate (Suc (n - strip_slashes p n)) SLASH"
      by (subst IH(2)) (simp add: replicate_append_same [symmetric])
    finally show ?thesis
      using True IH strip_slashes_le [of p n] by (simp add: Suc_diff_le)
  qed (auto simp: less_Suc_eq_0_disj)
qed simp

text \<open>A path without the slashes at its end.\<close>

definition trim :: "string \<Rightarrow> string" where
  "trim p = take (strip_slashes p (length p)) p"

lemma trim_spec:
  assumes "p \<noteq> []"
  obtains k where "p = trim p @ replicate k SLASH" "trim p \<noteq> []" "trim p = [SLASH] \<or> last (trim p) \<noteq> SLASH"
proof -
  define m where "m = strip_slashes p (length p)"
  have m: "0 < m" "m \<le> length p" "p = take m p @ replicate (length p - m) SLASH"
    "m = 1 \<or> p ! (m - 1) \<noteq> SLASH"
    using strip_slashes_spec [of "length p" p] strip_slashes_le [of p "length p"] assms
    by (simp_all add: m_def)
  have "last (take m p) = p ! (m - 1)"
    using m assms by (simp add: last_conv_nth min_absorb2)
  moreover have "take 1 p = [p ! 0]"
    using assms by (cases p) simp_all
  ultimately have "take m p = [SLASH] \<or> last (take m p) \<noteq> SLASH"
    using m(4) by auto
  moreover have "trim p = take m p"
    by (simp add: trim_def m_def)
  ultimately show ?thesis
    using that [of "length p - m"] m assms by simp
qed

lemma length_trim: "length (trim p) \<le> length p"
  by (simp add: trim_def)

lemma join_path_cases:
  "join_path dstsz dir nm =
     (let q = (if trim dir = [SLASH] then SLASH # nm else trim dir @ SLASH # nm)
      in if dstsz \<le> length q then Inl (- ENAMETOOLONG) else Inr q)"
proof (cases "dir = []")
  case False
  define m where "m = strip_slashes dir (length dir)"
  have m: "0 < m" "m \<le> length dir"
    using strip_slashes_spec [of "length dir" dir] strip_slashes_le [of dir "length dir"] False
    by (simp_all add: m_def)
  have "m = 1 \<and> dir ! 0 = SLASH \<longleftrightarrow> take m dir = [SLASH]"
    using m False by (cases dir; cases m) auto
  with m show ?thesis
    unfolding join_path_def trim_def m_def [symmetric] Let_def by (auto simp: min_def)
qed (simp add: join_path_def trim_def Let_def)

lemma join_path_ok:
  assumes "length dir + length nm + 2 \<le> dstsz" "dir \<noteq> []"
  obtains q where "join_path dstsz dir nm = Inr q" "length q \<le> length dir + length nm + 1"
    "q = trim dir @ SLASH # nm \<or> trim dir = [SLASH] \<and> q = SLASH # nm"
proof (cases "trim dir = [SLASH]")
  case True
  with assms that [of "SLASH # nm"] show ?thesis by (simp add: join_path_cases)
next
  case False
  with assms length_trim [of dir] that [of "trim dir @ SLASH # nm"] show ?thesis
    by (simp add: join_path_cases)
qed

lemma base_start_le: "base_start p n \<le> n"
  by (induction p n rule: base_start.induct) auto

lemma base_start_spec:
  assumes "n \<le> length p" "k \<le> n" "SLASH \<notin> set (take (n - k) (drop k p))" "k = 0 \<or> p ! (k - 1) = SLASH"
  shows "base_start p n = k"
  using assms
proof (induction p n rule: base_start.induct)
  case (2 p n)
  show ?case
  proof (cases "k = Suc n")
    case False
    then have k: "k \<le> n" using 2 by simp
    then have t: "take (Suc n - k) (drop k p) = take (n - k) (drop k p) @ [p ! n]"
      using 2 by (simp add: Suc_diff_le take_Suc_conv_app_nth)
    with 2 have "p ! n \<noteq> SLASH" by auto
    with 2 k t show ?thesis by simp
  qed (use 2 in auto)
qed simp

text \<open>The base name is what follows the last slash, slashes at the end aside.\<close>

lemma copy_basename_split:
  assumes "SLASH \<notin> set b" "b \<noteq> []" "d = [] \<or> last d = SLASH" "length b < dstsz"
  shows "copy_basename dstsz (d @ b @ replicate k SLASH) = Inr b"
proof -
  let ?p = "d @ b @ replicate k SLASH"
  define m where "m = strip_slashes ?p (length ?p)"
  have strip: "strip_slashes ?p (length (d @ b) + j) = length (d @ b)" if "j \<le> k" for j
    using that
  proof (induction j)
    case 0
    have "?p ! (length (d @ b) - 1) = last b"
      using assms(2) by (cases b rule: rev_cases) (simp_all add: nth_append)
    then have "?p ! (length (d @ b) - 1) \<noteq> SLASH"
      using assms(1,2) last_in_set by fastforce
    moreover obtain n where "length (d @ b) = Suc n"
      using assms(2) by (cases b) auto
    ultimately show ?case by simp
  next
    case (Suc j)
    have "?p ! (length (d @ b) + j) = SLASH"
      using Suc by (simp add: nth_append)
    moreover have "0 < length (d @ b)" using assms(2) by simp
    ultimately show ?case using Suc by simp
  qed
  have m: "m = length (d @ b)"
    using strip [of k] by (simp add: m_def add.assoc)
  have s: "base_start ?p m = length d"
  proof (rule base_start_spec)
    show "length d = 0 \<or> ?p ! (length d - 1) = SLASH"
      using assms(3) by (cases d rule: rev_cases) (auto simp: nth_append)
  qed (use assms m in auto)
  show ?thesis
    unfolding copy_basename_def m_def [symmetric] Let_def s using assms m by simp
qed

lemma copy_basename_root: "2 \<le> dstsz \<Longrightarrow> copy_basename dstsz (replicate k SLASH) = Inr [SLASH]"
proof -
  assume d: "2 \<le> dstsz"
  have "base_start (replicate k SLASH) n = n" if "n \<le> k" for n
    using that by (cases n) auto
  then have "base_start (replicate k SLASH) (strip_slashes (replicate k SLASH) k) = strip_slashes (replicate k SLASH) k"
    using strip_slashes_le by simp
  with d show ?thesis
    by (simp add: copy_basename_def Let_def)
qed

end
