(* ===== verification/FsTree.thy ===== *)
theory FsTree
  imports Fsutil
begin

section \<open>What a kernel promises about a tree of files\<close>

text \<open>
  A file system is seen as a partial function from places, the lists of names from the root, to
  nodes.  \<open>posix\<close> collects what the documentation of the system calls says about plain files,
  directories and symbolic links on a system that does not run out of resources: which answers
  they give, how they change the view, and what an open descriptor remembers.  Reading follows
  the file as it is now, a listing is promised only while the set of names in the directory is
  what it was when it was opened, and reads, writes and listings may be short.
\<close>

datatype node = File nat string | Dir nat | Link string

datatype ofile =
    Reading "string list" nat
  | Writing "string list"
  | Listing "string list" "string set" "string list"

record 's fsview =
  place :: "string \<Rightarrow> string list"
  view :: "'s \<Rightarrow> string list \<Rightarrow> node option"
  fds :: "'s \<Rightarrow> int \<Rightarrow> ofile option"
  ident :: "'s \<Rightarrow> string list \<Rightarrow> nat \<times> nat"

fun type_of :: "node \<Rightarrow> ftype" where
  "type_of (File m c) = Regular"
| "type_of (Dir m) = Directory"
| "type_of (Link t) = Symlink"

fun set_perm :: "nat \<Rightarrow> node \<Rightarrow> node" where
  "set_perm m (File _ c) = File m c"
| "set_perm m (Dir _) = Dir m"
| "set_perm m (Link t) = Link t"

fun perm_is :: "node \<Rightarrow> nat \<Rightarrow> bool" where
  "perm_is (File m c) p \<longleftrightarrow> p = m"
| "perm_is (Dir m) p \<longleftrightarrow> p = m"
| "perm_is (Link t) p \<longleftrightarrow> True"

definition plain :: "string \<Rightarrow> bool" where
  "plain n \<longleftrightarrow> n \<noteq> [] \<and> SLASH \<notin> set n \<and> \<not> is_dot_or_dotdot n"

definition children :: "(string list \<Rightarrow> node option) \<Rightarrow> string list \<Rightarrow> string set" where
  "children V cs = {n. V (cs @ [n]) \<noteq> None}"

definition in_dir :: "(string list \<Rightarrow> node option) \<Rightarrow> string list \<Rightarrow> bool" where
  "in_dir V cs \<longleftrightarrow> (\<exists>ds n m. cs = ds @ [n] \<and> V ds = Some (Dir m))"

definition okp :: "'s kernel \<Rightarrow> string \<Rightarrow> bool" where
  "okp os p \<longleftrightarrow> p \<noteq> [] \<and> length p < MAXPATH os"

text \<open>The records from position \<open>pos\<close> of a buffer on are entries with these names.\<close>

fun entries :: "(nat \<Rightarrow> dirent) \<Rightarrow> nat \<Rightarrow> nat \<Rightarrow> string list \<Rightarrow> bool" where
  "entries buf nread pos [] \<longleftrightarrow> nread \<le> pos"
| "entries buf nread pos (n # ns) \<longleftrightarrow>
     pos < nread \<and> d_name (buf pos) = n \<and> d_ino (buf pos) \<noteq> 0 \<and> d_reclen (buf pos) \<noteq> 0 \<and>
     entries buf nread (pos + d_reclen (buf pos)) ns"

definition path_laws :: "'s fsview \<Rightarrow> bool" where
  "path_laws v \<longleftrightarrow>
     (\<forall>d n. d \<noteq> [] \<and> plain n \<longrightarrow> place v (d @ SLASH # n) = place v d @ [n]) \<and>
     (\<forall>n. plain n \<longrightarrow> place v (SLASH # n) = place v [SLASH] @ [n]) \<and>
     (\<forall>d. d \<noteq> [] \<longrightarrow> place v (d @ [SLASH]) = place v d)"

definition lstat_laws :: "'s kernel \<Rightarrow> 's fsview \<Rightarrow> bool" where
  "lstat_laws os v \<longleftrightarrow>
     (\<forall>s. inj_on (ident v s) {cs. view v s cs \<noteq> None}) \<and>
     (\<forall>p s nd. okp os p \<and> view v s (place v p) = Some nd \<longrightarrow>
        (\<exists>ret st s'. sys_lstat os p s = (ret, st, s') \<and> 0 \<le> ret \<and> st_type st = type_of nd \<and>
           perm_is nd (st_perm st) \<and> (st_dev st, st_ino st) = ident v s (place v p) \<and>
           view v s' = view v s \<and> fds v s' = fds v s \<and> ident v s' = ident v s)) \<and>
     (\<forall>p s. okp os p \<and> view v s (place v p) = None \<and> in_dir (view v s) (place v p) \<longrightarrow>
        (\<exists>st s'. sys_lstat os p s = (- ENOENT, st, s') \<and>
           view v s' = view v s \<and> fds v s' = fds v s \<and> ident v s' = ident v s))"

definition open_laws :: "'s kernel \<Rightarrow> 's fsview \<Rightarrow> bool" where
  "open_laws os v \<longleftrightarrow>
     (\<forall>p s m c. okp os p \<and> view v s (place v p) = Some (File m c) \<longrightarrow>
        (\<exists>fd s'. sys_open os p O_RDONLY s = (fd, s') \<and> 0 \<le> fd \<and> fds v s fd = None \<and>
           fds v s' = (fds v s)(fd \<mapsto> Reading (place v p) 0) \<and> view v s' = view v s)) \<and>
     (\<forall>p s m. okp os p \<and> view v s (place v p) = Some (Dir m) \<longrightarrow>
        (\<exists>fd s' ns. sys_open os p O_RDONLY s = (fd, s') \<and> 0 \<le> fd \<and> fds v s fd = None \<and>
           distinct ns \<and> {n \<in> set ns. \<not> is_dot_or_dotdot n} =
             {n \<in> children (view v s) (place v p). \<not> is_dot_or_dotdot n} \<and>
           fds v s' = (fds v s)(fd \<mapsto> Listing (place v p) (children (view v s) (place v p)) ns) \<and>
           view v s' = view v s)) \<and>
     (\<forall>p s. okp os p \<and> in_dir (view v s) (place v p) \<and>
        (view v s (place v p) = None \<or> (\<exists>m c. view v s (place v p) = Some (File m c))) \<longrightarrow>
        (\<exists>fd s' m. sys_open os p O_WRONLY_CREAT_TRUNC s = (fd, s') \<and> 0 \<le> fd \<and> fds v s fd = None \<and>
           fds v s' = (fds v s)(fd \<mapsto> Writing (place v p)) \<and>
           view v s' = (view v s)(place v p \<mapsto> File m []))) \<and>
     (\<forall>fd s. fds v s fd \<noteq> None \<longrightarrow>
        view v (sys_close os fd s) = view v s \<and> fds v (sys_close os fd s) = (fds v s)(fd := None))"

definition data_laws :: "'s kernel \<Rightarrow> 's fsview \<Rightarrow> bool" where
  "data_laws os v \<longleftrightarrow>
     (\<forall>fd n s cs off m c. fds v s fd = Some (Reading cs off) \<and> view v s cs = Some (File m c) \<longrightarrow>
        (\<exists>bs s'. sys_read os fd n s = (int (length bs), bs, s') \<and> length bs \<le> n \<and>
           (\<exists>rest. drop off c = bs @ rest) \<and> (bs = [] \<longrightarrow> n = 0 \<or> drop off c = []) \<and>
           fds v s' = (fds v s)(fd \<mapsto> Reading cs (off + length bs)) \<and> view v s' = view v s)) \<and>
     (\<forall>fd bs s cs m c. fds v s fd = Some (Writing cs) \<and> view v s cs = Some (File m c) \<and> bs \<noteq> [] \<longrightarrow>
        (\<exists>w s'. sys_write os fd bs s = (int w, s') \<and> 0 < w \<and> w \<le> length bs \<and>
           fds v s' = fds v s \<and> view v s' = (view v s)(cs \<mapsto> File m (c @ take w bs)))) \<and>
     (\<forall>fd n s cs all ns. fds v s fd = Some (Listing cs all ns) \<and> children (view v s) cs = all \<and>
        FSUTIL_DIRENT_BUFSZ \<le> n \<longrightarrow>
        (\<exists>now rest nread buf s'. sys_getdents os fd n s = (int nread, buf, s') \<and>
           ns = now @ rest \<and> (now = [] \<longrightarrow> ns = []) \<and> (nread = 0 \<longleftrightarrow> now = []) \<and>
           entries buf nread 0 now \<and>
           fds v s' = (fds v s)(fd \<mapsto> Listing cs all rest) \<and> view v s' = view v s))"

definition change_laws :: "'s kernel \<Rightarrow> 's fsview \<Rightarrow> bool" where
  "change_laws os v \<longleftrightarrow>
     (\<forall>p s nd. okp os p \<and> view v s (place v p) = Some nd \<and> place v p \<noteq> [] \<and>
        children (view v s) (place v p) = {} \<longrightarrow>
        (\<exists>s'. sys_unlink os p s = (0, s') \<and> view v s' = (view v s)(place v p := None) \<and>
           fds v s' = fds v s)) \<and>
     (\<forall>p s. okp os p \<and> view v s (place v p) = None \<and> in_dir (view v s) (place v p) \<longrightarrow>
        (\<exists>s' m. sys_mkdir os p s = (0, s') \<and> view v s' = (view v s)(place v p \<mapsto> Dir m) \<and>
           fds v s' = fds v s)) \<and>
     (\<forall>p m s nd. okp os p \<and> view v s (place v p) = Some nd \<and> type_of nd \<noteq> Symlink \<longrightarrow>
        (\<exists>ret s'. sys_fchmodat os p m s = (ret, s') \<and> 0 \<le> ret \<and>
           view v s' = (view v s)(place v p \<mapsto> set_perm m nd) \<and> fds v s' = fds v s)) \<and>
     (\<forall>p n s t. okp os p \<and> view v s (place v p) = Some (Link t) \<and> length t \<le> n \<longrightarrow>
        (\<exists>s'. sys_readlink os p n s = (int (length t), t, s') \<and> view v s' = view v s \<and>
           fds v s' = fds v s \<and> ident v s' = ident v s)) \<and>
     (\<forall>p t s. okp os p \<and> view v s (place v p) = None \<and> in_dir (view v s) (place v p) \<longrightarrow>
        (\<exists>s'. sys_symlink os t p s = (0, s') \<and> view v s' = (view v s)(place v p \<mapsto> Link t) \<and>
           fds v s' = fds v s))"

definition posix :: "'s kernel \<Rightarrow> 's fsview \<Rightarrow> bool" where
  "posix os v \<longleftrightarrow>
     path_laws v \<and> lstat_laws os v \<and> open_laws os v \<and> data_laws os v \<and> change_laws os v"


subsection \<open>The promises as rules\<close>

lemma place_child:
  assumes "posix os v" "d \<noteq> []" "plain n"
  shows "place v (d @ SLASH # n) = place v d @ [n]"
  using assms by (simp add: posix_def path_laws_def)

lemma lstat_some:
  assumes "posix os v" "okp os p" "view v s (place v p) = Some nd"
  obtains ret st s' where "sys_lstat os p s = (ret, st, s')" "0 \<le> ret" "st_type st = type_of nd"
    "perm_is nd (st_perm st)" "(st_dev st, st_ino st) = ident v s (place v p)"
    "view v s' = view v s" "fds v s' = fds v s" "ident v s' = ident v s"
  using assms unfolding posix_def lstat_laws_def by meson

lemma lstat_none:
  assumes "posix os v" "okp os p" "view v s (place v p) = None" "in_dir (view v s) (place v p)"
  obtains st s' where "sys_lstat os p s = (- ENOENT, st, s')"
    "view v s' = view v s" "fds v s' = fds v s" "ident v s' = ident v s"
  using assms unfolding posix_def lstat_laws_def by meson

lemma ident_inj:
  assumes "posix os v" "view v s a \<noteq> None" "view v s b \<noteq> None" "ident v s a = ident v s b"
  shows "a = b"
proof -
  have "inj_on (ident v s) {cs. view v s cs \<noteq> None}"
    using assms(1) by (simp add: posix_def lstat_laws_def)
  then show ?thesis
    using assms(2-) by (auto dest: inj_onD)
qed

lemma open_file:
  assumes "posix os v" "okp os p" "view v s (place v p) = Some (File m c)"
  obtains fd s' where "sys_open os p O_RDONLY s = (fd, s')" "0 \<le> fd" "fds v s fd = None"
    "fds v s' = (fds v s)(fd \<mapsto> Reading (place v p) 0)" "view v s' = view v s"
  using assms unfolding posix_def open_laws_def by meson

lemma open_dir:
  assumes "posix os v" "okp os p" "view v s (place v p) = Some (Dir m)"
  obtains fd s' ns where "sys_open os p O_RDONLY s = (fd, s')" "0 \<le> fd" "fds v s fd = None"
    "distinct ns" "{n \<in> set ns. \<not> is_dot_or_dotdot n} = {n \<in> children (view v s) (place v p). \<not> is_dot_or_dotdot n}"
    "fds v s' = (fds v s)(fd \<mapsto> Listing (place v p) (children (view v s) (place v p)) ns)"
    "view v s' = view v s"
  using assms unfolding posix_def open_laws_def by meson

lemma open_new:
  assumes "posix os v" "okp os p" "in_dir (view v s) (place v p)"
    "view v s (place v p) = None \<or> (\<exists>m c. view v s (place v p) = Some (File m c))"
  obtains fd s' m where "sys_open os p O_WRONLY_CREAT_TRUNC s = (fd, s')" "0 \<le> fd" "fds v s fd = None"
    "fds v s' = (fds v s)(fd \<mapsto> Writing (place v p))" "view v s' = (view v s)(place v p \<mapsto> File m [])"
proof -
  have "\<exists>fd s' m. sys_open os p O_WRONLY_CREAT_TRUNC s = (fd, s') \<and> 0 \<le> fd \<and> fds v s fd = None \<and>
      fds v s' = (fds v s)(fd \<mapsto> Writing (place v p)) \<and> view v s' = (view v s)(place v p \<mapsto> File m [])"
    using assms unfolding posix_def open_laws_def by blast
  with that show ?thesis by blast
qed

lemma close_fd:
  assumes "posix os v" "fds v s fd \<noteq> None"
  shows "view v (sys_close os fd s) = view v s" "fds v (sys_close os fd s) = (fds v s)(fd := None)"
  using assms unfolding posix_def open_laws_def by blast+

lemma read_file:
  assumes "posix os v" "fds v s fd = Some (Reading cs off)" "view v s cs = Some (File m c)"
  obtains bs s' rest where "sys_read os fd n s = (int (length bs), bs, s')" "length bs \<le> n"
    "drop off c = bs @ rest" "bs = [] \<longrightarrow> n = 0 \<or> drop off c = []"
    "fds v s' = (fds v s)(fd \<mapsto> Reading cs (off + length bs))" "view v s' = view v s"
  using assms unfolding posix_def data_laws_def by meson

lemma write_file:
  assumes "posix os v" "fds v s fd = Some (Writing cs)" "view v s cs = Some (File m c)" "bs \<noteq> []"
  obtains w s' where "sys_write os fd bs s = (int w, s')" "0 < w" "w \<le> length bs"
    "fds v s' = fds v s" "view v s' = (view v s)(cs \<mapsto> File m (c @ take w bs))"
proof -
  have "\<exists>w s'. sys_write os fd bs s = (int w, s') \<and> 0 < w \<and> w \<le> length bs \<and>
      fds v s' = fds v s \<and> view v s' = (view v s)(cs \<mapsto> File m (c @ take w bs))"
    using assms unfolding posix_def data_laws_def by blast
  with that show ?thesis by blast
qed

lemma list_dir:
  assumes "posix os v" "fds v s fd = Some (Listing cs (children (view v s) cs) ns)"
  obtains now rest nread buf s' where "sys_getdents os fd FSUTIL_DIRENT_BUFSZ s = (int nread, buf, s')"
    "ns = now @ rest" "now = [] \<longrightarrow> ns = []" "nread = 0 \<longleftrightarrow> now = []" "entries buf nread 0 now"
    "fds v s' = (fds v s)(fd \<mapsto> Listing cs (children (view v s) cs) rest)" "view v s' = view v s"
proof -
  have "\<exists>now rest nread buf s'. sys_getdents os fd FSUTIL_DIRENT_BUFSZ s = (int nread, buf, s') \<and>
      ns = now @ rest \<and> (now = [] \<longrightarrow> ns = []) \<and> (nread = 0 \<longleftrightarrow> now = []) \<and> entries buf nread 0 now \<and>
      fds v s' = (fds v s)(fd \<mapsto> Listing cs (children (view v s) cs) rest) \<and> view v s' = view v s"
    using assms unfolding posix_def data_laws_def by simp
  with that show ?thesis by blast
qed

lemma unlink_leaf:
  assumes "posix os v" "okp os p" "view v s (place v p) = Some nd" "place v p \<noteq> []"
    "children (view v s) (place v p) = {}"
  obtains s' where "sys_unlink os p s = (0, s')" "view v s' = (view v s)(place v p := None)"
    "fds v s' = fds v s"
proof -
  have "\<exists>s'. sys_unlink os p s = (0, s') \<and> view v s' = (view v s)(place v p := None) \<and> fds v s' = fds v s"
    using assms unfolding posix_def change_laws_def by blast
  with that show ?thesis by blast
qed

lemma mkdir_new:
  assumes "posix os v" "okp os p" "view v s (place v p) = None" "in_dir (view v s) (place v p)"
  obtains s' m where "sys_mkdir os p s = (0, s')" "view v s' = (view v s)(place v p \<mapsto> Dir m)"
    "fds v s' = fds v s"
proof -
  have "\<exists>s' m. sys_mkdir os p s = (0, s') \<and> view v s' = (view v s)(place v p \<mapsto> Dir m) \<and> fds v s' = fds v s"
    using assms unfolding posix_def change_laws_def by blast
  with that show ?thesis by blast
qed

lemma chmod_node:
  assumes "posix os v" "okp os p" "view v s (place v p) = Some nd" "type_of nd \<noteq> Symlink"
  obtains ret s' where "sys_fchmodat os p m s = (ret, s')" "0 \<le> ret"
    "view v s' = (view v s)(place v p \<mapsto> set_perm m nd)" "fds v s' = fds v s"
proof -
  have "\<exists>ret s'. sys_fchmodat os p m s = (ret, s') \<and> 0 \<le> ret \<and>
      view v s' = (view v s)(place v p \<mapsto> set_perm m nd) \<and> fds v s' = fds v s"
    using assms unfolding posix_def change_laws_def by blast
  with that show ?thesis by blast
qed

lemma readlink_node:
  assumes "posix os v" "okp os p" "view v s (place v p) = Some (Link t)" "length t \<le> n"
  obtains s' where "sys_readlink os p n s = (int (length t), t, s')" "view v s' = view v s"
    "fds v s' = fds v s" "ident v s' = ident v s"
proof -
  have "\<exists>s'. sys_readlink os p n s = (int (length t), t, s') \<and> view v s' = view v s \<and>
      fds v s' = fds v s \<and> ident v s' = ident v s"
    using assms unfolding posix_def change_laws_def by blast
  with that show ?thesis by blast
qed

lemma symlink_new:
  assumes "posix os v" "okp os p" "view v s (place v p) = None" "in_dir (view v s) (place v p)"
  obtains s' where "sys_symlink os t p s = (0, s')" "view v s' = (view v s)(place v p \<mapsto> Link t)"
    "fds v s' = fds v s"
proof -
  have "\<exists>s'. sys_symlink os t p s = (0, s') \<and> view v s' = (view v s)(place v p \<mapsto> Link t) \<and> fds v s' = fds v s"
    using assms unfolding posix_def change_laws_def by blast
  with that show ?thesis by blast
qed

end
