(* ===== verification/FsCopy.thy ===== *)
theory FsCopy
  imports FsTree "HOL-Library.Sublist"
begin

section \<open>Copying reproduces the tree\<close>

text \<open>
  On a kernel that keeps the promises of \<open>FsTree\<close>, \<open>copy_path\<close> with the recursive flag returns 0
  and leaves at the destination, which did not exist, the same tree of files, permissions, contents
  and links as at the source; nothing else changes and no descriptor stays open.  The proof is
  an induction on the number of nodes; the loops over the directory get the recursive call as
  a parameter.
\<close>

subsection \<open>Places of joined paths\<close>

lemma place_trim:
  assumes "posix os v" "p \<noteq> []"
  shows "place v (trim p) = place v p"
proof -
  obtain k where p: "p = trim p @ replicate k SLASH" "trim p \<noteq> []"
    using trim_spec [OF assms(2)] by metis
  have "place v (trim p @ replicate k SLASH) = place v (trim p)"
  proof (induction k)
    case (Suc k)
    have "trim p @ replicate (Suc k) SLASH = (trim p @ replicate k SLASH) @ [SLASH]"
      by (simp add: replicate_append_same)
    moreover have "place v ((trim p @ replicate k SLASH) @ [SLASH]) = place v (trim p @ replicate k SLASH)"
      using assms(1) p(2) unfolding posix_def path_laws_def by blast
    ultimately show ?case using Suc by simp
  qed simp
  with p show ?thesis by simp
qed

lemma join_place:
  assumes "posix os v" "p \<noteq> []" "plain n" "length p + length n + 2 \<le> MAXPATH os"
  obtains q where "join_path (MAXPATH os) p n = Inr q" "okp os q" "length q \<le> length p + length n + 1"
    "place v q = place v p @ [n]" "copy_basename (MAXPATH os) q = Inr n"
proof -
  obtain q where q: "join_path (MAXPATH os) p n = Inr q" "length q \<le> length p + length n + 1"
    "q = trim p @ SLASH # n \<or> trim p = [SLASH] \<and> q = SLASH # n"
    using join_path_ok assms(2,4) by blast
  have n: "n \<noteq> []" "SLASH \<notin> set n" using assms(3) by (auto simp: plain_def)
  have t: "trim p \<noteq> []" "place v (trim p) = place v p"
    using trim_spec [OF assms(2)] place_trim [OF assms(1,2)] by metis+
  have "place v q = place v p @ [n]"
    using q(3)
  proof
    assume "q = trim p @ SLASH # n"
    then show ?thesis
      using place_child [OF assms(1) t(1) assms(3)] t(2) by simp
  next
    assume e: "trim p = [SLASH] \<and> q = SLASH # n"
    have "place v (SLASH # n) = place v [SLASH] @ [n]"
      using assms(1,3) by (simp add: posix_def path_laws_def)
    with e t(2) show ?thesis by simp
  qed
  moreover have "copy_basename (MAXPATH os) q = Inr n"
    using q(3)
  proof
    assume "q = trim p @ SLASH # n"
    then show ?thesis
      using copy_basename_split [OF n(2,1), of "trim p @ [SLASH]" "MAXPATH os" 0] assms(4) by simp
  next
    assume "trim p = [SLASH] \<and> q = SLASH # n"
    then show ?thesis
      using copy_basename_split [OF n(2,1), of "[SLASH]" "MAXPATH os" 0] assms(4) by simp
  qed
  moreover have "okp os q"
    using q assms(4) by (auto simp: okp_def)
  ultimately show ?thesis using that q by blast
qed

subsection \<open>The contents of a file\<close>

lemma write_all_appends:
  assumes "posix os v" "fds v s fd = Some (Writing cs)" "view v s cs = Some (File m c)"
  shows "\<exists>s'. write_all os fd bs s = (0, s') \<and> fds v s' = fds v s \<and>
    view v s' = (view v s)(cs \<mapsto> File m (c @ bs))"
  using assms(2,3)
proof (induction "length bs" arbitrary: bs s c rule: less_induct)
  case less
  show ?case
  proof (cases bs)
    case Nil
    then show ?thesis using less.prems by (auto simp: fun_upd_idem)
  next
    case (Cons b bs')
    obtain w s1 where w: "sys_write os fd bs s = (int w, s1)" "0 < w" "w \<le> length bs"
      and s1: "fds v s1 = fds v s" "view v s1 = (view v s)(cs \<mapsto> File m (c @ take w bs))"
      using write_file [OF assms(1) less.prems, of bs] Cons by auto
    obtain s2 where s2: "write_all os fd (drop w bs) s1 = (0, s2)" "fds v s2 = fds v s1"
      "view v s2 = (view v s1)(cs \<mapsto> File m ((c @ take w bs) @ drop w bs))"
    proof -
      have "length (drop w bs) < length bs" using w Cons by simp
      from less.hyps [OF this, of s1 "c @ take w bs"] that s1 less.prems show ?thesis by auto
    qed
    have "write_all os fd bs s = write_all os fd (drop w bs) s1"
      using w Cons by simp
    with s2 s1 show ?thesis by simp
  qed
qed

lemma copy_data_copies:
  assumes "posix os v" "sfd \<noteq> dfd" "a \<noteq> b" "fds v s sfd = Some (Reading a off)" "view v s a = Some (File ma ca)"
    "fds v s dfd = Some (Writing b)" "view v s b = Some (File mb cb)" "length ca - off < k"
  shows "\<exists>s' off'. copy_data k os sfd dfd s = Some (0, s') \<and>
    fds v s' = (fds v s)(sfd \<mapsto> Reading a off') \<and>
    view v s' = (view v s)(b \<mapsto> File mb (cb @ drop off ca))"
  using assms(4-)
proof (induction k arbitrary: s off cb)
  case (Suc k)
  obtain bs s1 rest where r: "sys_read os sfd FSUTIL_COPY_BUFSZ s = (int (length bs), bs, s1)"
    "drop off ca = bs @ rest" "bs = [] \<longrightarrow> FSUTIL_COPY_BUFSZ = 0 \<or> drop off ca = []"
    and s1: "fds v s1 = (fds v s)(sfd \<mapsto> Reading a (off + length bs))" "view v s1 = view v s"
    using read_file [OF assms(1) Suc.prems(1,2)] by metis
  show ?case
  proof (cases "bs = []")
    case True
    then have "drop off ca = []" using r(3) by (simp add: FSUTIL_COPY_BUFSZ_def)
    moreover have "fds v s1 = (fds v s)(sfd \<mapsto> Reading a off)" "view v s1 = (view v s)(b \<mapsto> File mb cb)"
      using s1 True Suc.prems(4) by (simp_all add: fun_upd_idem)
    ultimately show ?thesis
      using True r(1) by (intro exI [of _ s1] exI [of _ off]) simp
  next
    case False
    obtain s2 where s2: "write_all os dfd bs s1 = (0, s2)" "fds v s2 = fds v s1"
      "view v s2 = (view v s1)(b \<mapsto> File mb (cb @ bs))"
      using write_all_appends [OF assms(1), of s1 dfd b mb cb bs] s1 Suc.prems assms(2) by auto
    have d: "drop (off + length bs) ca = rest"
      using r(2) by (metis add.commute append_eq_conv_conj drop_drop)
    have "length ca - off = length bs + length rest"
      using arg_cong [OF r(2), of length] by simp
    then have less: "length ca - (off + length bs) < k"
      using Suc.prems(5) False by (cases bs) auto
    obtain s3 off' where ih: "copy_data k os sfd dfd s2 = Some (0, s3)"
        "fds v s3 = (fds v s2)(sfd \<mapsto> Reading a off')"
        "view v s3 = (view v s2)(b \<mapsto> File mb ((cb @ bs) @ drop (off + length bs) ca))"
    proof -
      have "fds v s2 sfd = Some (Reading a (off + length bs))" "view v s2 a = Some (File ma ca)"
        "fds v s2 dfd = Some (Writing b)" "view v s2 b = Some (File mb (cb @ bs))"
        using s1 s2 Suc.prems assms(2,3) by simp_all
      from Suc.IH [OF this less] that show ?thesis by blast
    qed
    have "copy_data (Suc k) os sfd dfd s = copy_data k os sfd dfd s2"
      using r(1) False s2(1) by simp
    moreover have "fds v s3 = (fds v s)(sfd \<mapsto> Reading a off')"
      using ih(2) s2(2) s1(1) by simp
    moreover have "view v s3 = (view v s)(b \<mapsto> File mb (cb @ drop off ca))"
      using ih(3) s2(3) s1(2) r(2) d by simp
    ultimately show ?thesis using ih(1) by (intro exI [of _ s3] exI [of _ off']) simp
  qed
qed simp

lemma copy_regular_copies:
  assumes p: "posix os v" "okp os src" "okp os dst" "place v src \<noteq> place v dst"
    and src: "view v s (place v src) = Some (File m c)" "(st_dev st, st_ino st) = ident v s (place v src)"
      "st_perm st = m"
    and dst: "in_dir (view v s) (place v dst)"
      "view v s (place v dst) = None \<or> (\<exists>m c. view v s (place v dst) = Some (File m c))"
    and k: "length c < k"
  shows "\<exists>s'. copy_regular k os src dst st s = Some (0, s') \<and> fds v s' = fds v s \<and>
    view v s' = (view v s)(place v dst \<mapsto> File m c)"
proof -
  obtain ret dst_st s1 where l: "sys_lstat os dst s = (ret, dst_st, s1)"
    "\<not> (0 \<le> ret \<and> same_file st dst_st)" "view v s1 = view v s" "fds v s1 = fds v s"
  proof (cases "view v s (place v dst)")
    case None
      obtain st' s1 where "sys_lstat os dst s = (- ENOENT, st', s1)" "view v s1 = view v s" "fds v s1 = fds v s"
      using lstat_none [OF p(1,3) None dst(1)] by metis
    with that [of "- ENOENT"] show ?thesis by simp
  next
    case (Some nd)
    obtain ret dst_st s1 where l: "sys_lstat os dst s = (ret, dst_st, s1)"
      "(st_dev dst_st, st_ino dst_st) = ident v s (place v dst)" "view v s1 = view v s" "fds v s1 = fds v s"
      using lstat_some [OF p(1,3) Some] by metis
    have "ident v s (place v src) \<noteq> ident v s (place v dst)"
      using ident_inj [OF p(1), of s] src(1) Some p(4) by force
    then have "\<not> same_file st dst_st"
      using l(2) src(2) by (auto simp: same_file_def)
    with that l show ?thesis by blast
  qed
  obtain sfd s2 where o1: "sys_open os src O_RDONLY s1 = (sfd, s2)" "0 \<le> sfd" "fds v s1 sfd = None"
    and s2: "fds v s2 = (fds v s1)(sfd \<mapsto> Reading (place v src) 0)" "view v s2 = view v s1"
    using open_file [OF p(1,2), of s1 m c] src(1) l(3) by metis
  obtain dfd s3 m' where o2: "sys_open os dst O_WRONLY_CREAT_TRUNC s2 = (dfd, s3)" "0 \<le> dfd" "fds v s2 dfd = None"
    and s3: "fds v s3 = (fds v s2)(dfd \<mapsto> Writing (place v dst))"
      "view v s3 = (view v s2)(place v dst \<mapsto> File m' [])"
    using open_new [OF p(1,3), of s2] dst l(3) s2(2) by metis
  have ne: "sfd \<noteq> dfd" using o2(3) s2(1) by auto
  obtain s4 off' where c4: "copy_data k os sfd dfd s3 = Some (0, s4)"
    "fds v s4 = (fds v s3)(sfd \<mapsto> Reading (place v src) off')"
    "view v s4 = (view v s3)(place v dst \<mapsto> File m' ([] @ drop 0 c))"
    using copy_data_copies [OF p(1) ne p(4), of s3 0 m c m' "[]" k] p(4) src(1) k l(3) s2 s3 ne by auto
  let ?s5 = "sys_close os dfd s4" and ?s6 = "sys_close os sfd (sys_close os dfd s4)"
  have "fds v s4 dfd \<noteq> None" using c4(2) s3(1) ne by simp
  note c5 = close_fd [OF p(1) this]
  have "fds v ?s5 sfd \<noteq> None" using c5(2) c4(2) ne by simp
  note c6 = close_fd [OF p(1) this]
  have v6: "view v ?s6 (place v dst) = Some (File m' c)" using c6(1) c5(1) c4(3) by simp
  obtain r s7 where c7: "sys_fchmodat os dst m ?s6 = (r, s7)" "0 \<le> r"
    "view v s7 = (view v ?s6)(place v dst \<mapsto> File m c)" "fds v s7 = fds v ?s6"
    using chmod_node [OF p(1,3) v6, of m] by auto
  have "fds v s7 = fds v s"
    using c7(4) c6(2) c5(2) c4(2) s3(1) s2(1) l(4) o1(3) o2(3) ne by (auto simp: fun_eq_iff)
  moreover have "view v s7 = (view v s)(place v dst \<mapsto> File m c)"
    using c7(3) c6(1) c5(1) c4(3) s3(2) s2(2) l(3) by simp
  moreover have "copy_regular k os src dst st s = Some (0, s7)"
    using l(1,2) o1(1,2) o2(1,2) c4(1) c7(1,2) src(3) by (simp add: copy_regular_def Let_def)
  ultimately show ?thesis by blast
qed


subsection \<open>Trees\<close>

definition sub_places :: "(string list \<Rightarrow> node option) \<Rightarrow> string list \<Rightarrow> string list set" where
  "sub_places V cs = {r. V (cs @ r) \<noteq> None}"

definition tree_ok :: "(string list \<Rightarrow> node option) \<Rightarrow> string list \<Rightarrow> bool" where
  "tree_ok V cs \<longleftrightarrow> finite (sub_places V cs) \<and> V cs \<noteq> None \<and>
     (\<forall>r n. V (cs @ r @ [n]) \<noteq> None \<longrightarrow> plain n \<and> (\<exists>m. V (cs @ r) = Some (Dir m)))"

fun cost :: "node \<Rightarrow> nat" where
  "cost (File m c) = Suc (length c)"
| "cost (Dir m) = 1"
| "cost (Link t) = 1"

text \<open>Nodes and bytes below a place: the fuel that copying and removing need.\<close>

definition weight :: "(string list \<Rightarrow> node option) \<Rightarrow> string list \<Rightarrow> nat" where
  "weight V cs = (\<Sum>r\<in>sub_places V cs. cost (the (V (cs @ r))))"

definition name_bytes :: "string list \<Rightarrow> nat" where
  "name_bytes r = sum_list (map (\<lambda>n. Suc (length n)) r)"

text \<open>No path that starts with \<open>p\<close> and goes on below \<open>cs\<close> reaches the limit of the kernel.\<close>

definition fits :: "'s kernel \<Rightarrow> (string list \<Rightarrow> node option) \<Rightarrow> string list \<Rightarrow> string \<Rightarrow> bool" where
  "fits os V cs p \<longleftrightarrow> (\<forall>r. V (cs @ r) \<noteq> None \<longrightarrow> length p + name_bytes r < MAXPATH os)"

definition links_fit :: "'s kernel \<Rightarrow> (string list \<Rightarrow> node option) \<Rightarrow> string list \<Rightarrow> bool" where
  "links_fit os V cs \<longleftrightarrow> (\<forall>r t. V (cs @ r) = Some (Link t) \<longrightarrow> length t + 1 < MAXPATH os)"

definition graft :: "(string list \<Rightarrow> node option) \<Rightarrow> string list \<Rightarrow> string list \<Rightarrow> string list \<Rightarrow> node option" where
  "graft V a b = (\<lambda>cs. if prefix b cs then V (a @ drop (length b) cs) else V cs)"

lemma prefix_iff_take: "prefix b cs \<longleftrightarrow> cs = b @ drop (length b) cs"
  by (auto simp: prefix_def)

lemma same_below:
  assumes "\<And>r. W (a @ r) = V (a @ r)"
  shows "sub_places W a = sub_places V a" "tree_ok W a = tree_ok V a" "weight W a = weight V a"
    "children W a = children V a" "fits os W a p = fits os V a p" "links_fit os W a = links_fit os V a"
  using assms assms [of "[]"]
  by (simp_all add: sub_places_def tree_ok_def weight_def children_def fits_def links_fit_def)

lemma tree_ok_root: "tree_ok V cs \<Longrightarrow> [] \<in> sub_places V cs"
  by (simp add: tree_ok_def sub_places_def)

lemma sub_places_child: "Cons n ` sub_places V (cs @ [n]) \<subseteq> sub_places V cs - {[]}"
  by (auto simp: sub_places_def)

lemma tree_ok_child: "tree_ok V cs \<Longrightarrow> n \<in> children V cs \<Longrightarrow> tree_ok V (cs @ [n])"
proof -
  assume t: "tree_ok V cs" and n: "n \<in> children V cs"
  have "finite (Cons n ` sub_places V (cs @ [n]))"
    using sub_places_child [of n V cs] t by (auto simp: tree_ok_def intro: finite_subset)
  then have "finite (sub_places V (cs @ [n]))"
    by (rule finite_imageD) simp
  with t n show ?thesis
    by (auto simp: tree_ok_def children_def) (metis append_Cons)+
qed

lemma cost_pos [simp]: "0 < cost nd"
  by (cases nd) auto

lemma weight_child:
  assumes "tree_ok V cs" "n \<in> children V cs"
  shows "weight V (cs @ [n]) < weight V cs"
proof -
  let ?f = "\<lambda>r. cost (the (V (cs @ r)))"
  have fin: "finite (sub_places V cs)" using assms(1) by (simp add: tree_ok_def)
  have "weight V (cs @ [n]) = sum ?f (Cons n ` sub_places V (cs @ [n]))"
    by (simp add: weight_def sum.reindex)
  also have "\<dots> \<le> sum ?f (sub_places V cs - {[]})"
    by (rule sum_mono2) (use fin sub_places_child in auto)
  also have "\<dots> < weight V cs"
    using fin tree_ok_root [OF assms(1)] by (simp add: weight_def sum.remove [of _ "[]"])
  finally show ?thesis .
qed

lemma count_children:
  assumes "tree_ok V cs"
  shows "finite (children V cs)" "card (children V cs) < card (sub_places V cs)"
proof -
  have fin: "finite (sub_places V cs)" using assms by (simp add: tree_ok_def)
  have sub: "(\<lambda>n. [n]) ` children V cs \<subseteq> sub_places V cs - {[]}"
    by (auto simp: children_def sub_places_def)
  then have fc: "finite ((\<lambda>n. [n]) ` children V cs)" using fin finite_subset by blast
  then show "finite (children V cs)" by (rule finite_imageD) (simp add: inj_on_def)
  have "card (children V cs) = card ((\<lambda>n. [n]) ` children V cs)"
    by (simp add: card_image inj_on_def)
  also have "\<dots> \<le> card (sub_places V cs - {[]})" using sub fin by (simp add: card_mono)
  also have "\<dots> < card (sub_places V cs)" using fin tree_ok_root [OF assms] by (rule card_Diff1_less)
  finally show "card (children V cs) < card (sub_places V cs)" .
qed

lemma card_le_weight: "card (sub_places V cs) \<le> weight V cs"
  unfolding weight_def using sum_mono [of "sub_places V cs" "\<lambda>_. 1" "\<lambda>r. cost (the (V (cs @ r)))"]
  by (simp add: Suc_leI)

lemma weight_children:
  assumes "tree_ok V cs"
  shows "card (children V cs) < weight V cs"
  using count_children(2) [OF assms] card_le_weight [of V cs] by linarith

lemma fits_child:
  assumes "fits os V cs p" "length q \<le> length p + length n + 1"
  shows "fits os V (cs @ [n]) q"
proof -
  have "length q + name_bytes r < MAXPATH os" if "V (cs @ n # r) \<noteq> None" for r
    using assms that unfolding fits_def name_bytes_def by fastforce
  then show ?thesis by (simp add: fits_def)
qed

lemma fits_name:
  "fits os V cs p \<Longrightarrow> n \<in> children V cs \<Longrightarrow> length p + length n + 2 \<le> MAXPATH os"
  by (fastforce simp: fits_def children_def name_bytes_def dest: spec [of _ "[n]"])

lemma links_fit_child: "links_fit os V cs \<Longrightarrow> links_fit os V (cs @ [n])"
  by (auto simp: links_fit_def)

lemma tree_ok_plain: "tree_ok V cs \<Longrightarrow> n \<in> children V cs \<Longrightarrow> plain n"
  by (auto simp: tree_ok_def children_def) (metis append_Nil option.distinct(1))

lemma tree_ok_dir: "tree_ok V cs \<Longrightarrow> V (cs @ r @ [n]) \<noteq> None \<Longrightarrow> \<exists>m. V (cs @ r) = Some (Dir m)"
  by (simp add: tree_ok_def)

lemma tree_ok_closed: "tree_ok V cs \<Longrightarrow> V (cs @ r) \<noteq> None \<Longrightarrow> prefix q r \<Longrightarrow> V (cs @ q) \<noteq> None"
proof (induction r rule: rev_induct)
  case (snoc n r)
  have "\<exists>m. V (cs @ r) = Some (Dir m)"
    using tree_ok_dir [OF snoc.prems(1), of r n] snoc.prems(2) by simp
  then have "V (cs @ r) \<noteq> None" by auto
  with snoc show ?case by (auto simp: prefix_snoc)
qed auto

lemma tree_ok_no_child: "tree_ok V cs \<Longrightarrow> n \<notin> children V cs \<Longrightarrow> V (cs @ n # r) = None"
  using tree_ok_closed [of V cs "n # r" "[n]"] by (force simp: children_def)

lemma leaf_no_child:
  "tree_ok V cs \<Longrightarrow> V cs = Some nd \<Longrightarrow> type_of nd \<noteq> Directory \<Longrightarrow> r \<noteq> [] \<Longrightarrow> V (cs @ r) = None"
proof -
  assume t: "tree_ok V cs" "V cs = Some nd" "type_of nd \<noteq> Directory" "r \<noteq> []"
  then obtain n r' where r: "r = n # r'" by (cases r) auto
  have "V (cs @ [n]) = None"
    using tree_ok_dir [OF t(1), of "[]" n] t(2,3) by (cases "V (cs @ [n])") auto
  then have "n \<notin> children V cs" by (simp add: children_def)
  from tree_ok_no_child [OF t(1) this] r show ?thesis by simp
qed


subsection \<open>The directory being filled\<close>

text \<open>The view while the children in \<open>D\<close> have been copied from \<open>a\<close> to the new directory \<open>b\<close>.\<close>

definition filling ::
  "(string list \<Rightarrow> node option) \<Rightarrow> string list \<Rightarrow> string list \<Rightarrow> nat \<Rightarrow> string set \<Rightarrow> string list \<Rightarrow> node option" where
  "filling V a b m D = (\<lambda>cs.
     if cs = b then Some (Dir m)
     else if \<exists>n\<in>D. prefix (b @ [n]) cs then V (a @ drop (length b) cs)
     else V cs)"

definition free_at :: "(string list \<Rightarrow> node option) \<Rightarrow> string list \<Rightarrow> string list \<Rightarrow> bool" where
  "free_at V a b \<longleftrightarrow> (\<forall>r. V (b @ r) = None) \<and> \<not> prefix a b \<and> V a \<noteq> None"

lemma prefix_below: "tree_ok V a \<Longrightarrow> free_at V a b \<Longrightarrow> \<not> prefix b (a @ r)"
proof
  assume f: "free_at V a b" and p: "prefix b (a @ r)"
  then have "prefix b a \<or> prefix a b"
    using prefix_same_cases [OF p, of a] by auto
  with f show False
    by (auto simp: free_at_def prefix_def)
qed

lemma filling_source:
  assumes "tree_ok V a" "free_at V a b"
  shows "filling V a b m D (a @ r) = V (a @ r)"
proof -
  have "\<not> prefix (b @ [n]) (a @ r)" for n
    using prefix_below [OF assms, of r] by (auto dest: append_prefixD)
  moreover have "a @ r \<noteq> b"
    using assms(2) by (auto simp: free_at_def prefix_def)
  ultimately show ?thesis by (simp add: filling_def)
qed

lemma filling_free: "n \<notin> D \<Longrightarrow> free_at V a b \<Longrightarrow> filling V a b m D ((b @ [n]) @ r) = None"
  by (auto simp: filling_def free_at_def)

lemma filling_dir: "in_dir (filling V a b m D) (b @ [n])"
  by (auto simp: in_dir_def filling_def)

lemma filling_graft:
  assumes "tree_ok V a" "free_at V a b"
  shows "graft (filling V a b m D) (a @ [n]) (b @ [n]) = filling V a b m (insert n D)"
proof
  fix cs
  show "graft (filling V a b m D) (a @ [n]) (b @ [n]) cs = filling V a b m (insert n D) cs"
  proof (cases "prefix (b @ [n]) cs")
    case True
    then obtain r where "cs = b @ n # r" by (auto simp: prefix_def)
    then have "graft (filling V a b m D) (a @ [n]) (b @ [n]) cs = filling V a b m D (a @ n # r)"
      by (simp add: graft_def)
    also have "\<dots> = V (a @ n # r)"
      by (rule filling_source [OF assms])
    finally show ?thesis
      using True \<open>cs = b @ n # r\<close> by (simp add: filling_def)
  qed (simp add: graft_def filling_def)
qed

lemma filling_done:
  assumes "tree_ok V a" "free_at V a b" "V a = Some (Dir m')"
  shows "(filling V a b m (children V a))(b \<mapsto> Dir m') = graft V a b"
proof
  fix cs
  show "((filling V a b m (children V a))(b \<mapsto> Dir m')) cs = graft V a b cs"
  proof (cases "prefix b cs")
    case True
    then obtain r where cs: "cs = b @ r" by (auto simp: prefix_def)
    show ?thesis
    proof (cases r)
      case (Cons n r')
      show ?thesis
      proof (cases "n \<in> children V a")
        case False
        with tree_ok_no_child [OF assms(1)] cs Cons assms(2) show ?thesis
          by (auto simp: filling_def graft_def free_at_def)
      qed (use cs Cons in \<open>auto simp: filling_def graft_def\<close>)
    qed (use cs assms in \<open>simp add: graft_def\<close>)
  next
    case False
    then show ?thesis
      by (auto simp: filling_def graft_def dest: append_prefixD)
  qed
qed

lemma copy_entries_fills:
  assumes cp: "\<And>n D t. n \<in> C - D \<Longrightarrow> view v t = W D \<Longrightarrow>
      \<exists>q1 q2 t'. join_path (MAXPATH os) src n = Inr q1 \<and> join_path (MAXPATH os) dst n = Inr q2 \<and>
        cp q1 q2 t = Some (0, t') \<and> fds v t' = fds v t \<and> view v t' = W (insert n D)"
  shows "entries buf nread pos now \<Longrightarrow> distinct now \<Longrightarrow> {n \<in> set now. \<not> is_dot_or_dotdot n} \<subseteq> C - D \<Longrightarrow>
    view v t = W D \<Longrightarrow>
    \<exists>t'. copy_entries os cp src dst buf nread pos 0 t = Some (0, t') \<and> fds v t' = fds v t \<and>
      view v t' = W (D \<union> {n \<in> set now. \<not> is_dot_or_dotdot n})"
proof (induction now arbitrary: pos D t)
  case Nil
  then show ?case by (subst copy_entries.simps) simp
next
  case (Cons n now)
  let ?next = "pos + d_reclen (buf pos)"
  show ?case
  proof (cases "is_dot_or_dotdot n")
    case True
    have "{x \<in> set (n # now). \<not> is_dot_or_dotdot x} = {x \<in> set now. \<not> is_dot_or_dotdot x}"
      using True by auto
    moreover have "copy_entries os cp src dst buf nread pos 0 t = copy_entries os cp src dst buf nread ?next 0 t"
      using Cons.prems(1) True by (subst copy_entries.simps) simp
    ultimately show ?thesis
      using Cons.IH [of ?next D t] Cons.prems by simp
  next
    case False
    then have "n \<in> C - D" using Cons.prems(3) by auto
    from cp [OF this Cons.prems(4)] obtain q1 q2 t1 where q: "join_path (MAXPATH os) src n = Inr q1"
      "join_path (MAXPATH os) dst n = Inr q2" "cp q1 q2 t = Some (0, t1)" "fds v t1 = fds v t"
      "view v t1 = W (insert n D)"
      by blast
    have "{x \<in> set now. \<not> is_dot_or_dotdot x} \<subseteq> C - insert n D"
      using Cons.prems(2,3) by auto
    then obtain t2 where t2: "copy_entries os cp src dst buf nread ?next 0 t1 = Some (0, t2)"
      "fds v t2 = fds v t1" "view v t2 = W (insert n D \<union> {x \<in> set now. \<not> is_dot_or_dotdot x})"
      using Cons.IH [of ?next "insert n D" t1] Cons.prems q(5) by auto
    have "copy_entries os cp src dst buf nread pos 0 t = copy_entries os cp src dst buf nread ?next 0 t1"
      using Cons.prems(1) False q by (subst copy_entries.simps) simp
    moreover have "insert n D \<union> {x \<in> set now. \<not> is_dot_or_dotdot x} =
        D \<union> {x \<in> set (n # now). \<not> is_dot_or_dotdot x}"
      using False by auto
    ultimately show ?thesis using t2 q(4) by auto
  qed
qed

lemma copy_dents_fills:
  assumes p: "posix os v" and ch: "\<And>D. children (W D) a = C"
    and cp: "\<And>n D t. n \<in> C - D \<Longrightarrow> view v t = W D \<Longrightarrow>
      \<exists>q1 q2 t'. join_path (MAXPATH os) src n = Inr q1 \<and> join_path (MAXPATH os) dst n = Inr q2 \<and>
        cp q1 q2 t = Some (0, t') \<and> fds v t' = fds v t \<and> view v t' = W (insert n D)"
  shows "fds v t fd = Some (Listing a C ns) \<Longrightarrow> distinct ns \<Longrightarrow>
    {n \<in> set ns. \<not> is_dot_or_dotdot n} = C - D \<Longrightarrow> view v t = W D \<Longrightarrow> length ns < k \<Longrightarrow>
    \<exists>t'. copy_dents k os cp src dst fd 0 t = Some (0, t') \<and>
      fds v t' = (fds v t)(fd \<mapsto> Listing a C []) \<and> view v t' = W (D \<union> C)"
proof (induction k arbitrary: ns D t)
  case (Suc k)
  have "fds v t fd = Some (Listing a (children (view v t) a) ns)"
    using Suc.prems(1,4) ch by simp
  from list_dir [OF p this] obtain now rest nread buf t1
    where g: "sys_getdents os fd FSUTIL_DIRENT_BUFSZ t = (int nread, buf, t1)"
      "ns = now @ rest" "now = [] \<longrightarrow> ns = []" "nread = 0 \<longleftrightarrow> now = []" "entries buf nread 0 now"
      and t1: "fds v t1 = (fds v t)(fd \<mapsto> Listing a (children (view v t) a) rest)" "view v t1 = view v t"
    by metis
  show ?case
  proof (cases "nread = 0")
    case True
    then have "ns = []" using g by simp
    with Suc.prems(3) have "D \<union> C = D" by auto
    moreover have "ns = rest" using \<open>ns = []\<close> g(2) by simp
    ultimately show ?thesis
      using True g(1) t1 Suc.prems(4) ch \<open>ns = []\<close> by (intro exI [of _ t1]) simp
  next
    case False
    let ?now = "{n \<in> set now. \<not> is_dot_or_dotdot n}"
    have sub: "?now \<subseteq> C - D" using Suc.prems(3) g(2) by auto
    have "\<exists>t2. copy_entries os cp src dst buf nread 0 0 t1 = Some (0, t2) \<and> fds v t2 = fds v t1 \<and>
        view v t2 = W (D \<union> ?now)"
    proof (rule copy_entries_fills [where C = C, OF cp])
      show "distinct now" using Suc.prems(2) g(2) by simp
      show "view v t1 = W D" using Suc.prems(4) t1 by simp
    qed (use g(5) sub in auto)
    then obtain t2 where t2: "copy_entries os cp src dst buf nread 0 0 t1 = Some (0, t2)"
      "fds v t2 = fds v t1" "view v t2 = W (D \<union> ?now)"
      by blast
    have "fds v t2 fd = Some (Listing a C rest)"
      using t2(2) t1 Suc.prems(4) ch by simp
    moreover have "distinct rest" "length rest < k"
      using Suc.prems(2,5) g False by (auto simp: neq_Nil_conv)
    moreover have "{n \<in> set rest. \<not> is_dot_or_dotdot n} = C - (D \<union> ?now)"
      using Suc.prems(2,3) g(2) by auto
    ultimately obtain t3 where t3: "copy_dents k os cp src dst fd 0 t2 = Some (0, t3)"
      "fds v t3 = (fds v t2)(fd \<mapsto> Listing a C [])" "view v t3 = W (D \<union> ?now \<union> C)"
      using Suc.IH [of t2 rest "D \<union> ?now"] t2(3) by blast
    have "D \<union> ?now \<union> C = D \<union> C" using sub by auto
    moreover have "copy_dents (Suc k) os cp src dst fd 0 t = copy_dents k os cp src dst fd 0 t2"
      using g(1) False t2(1) by simp
    ultimately show ?thesis
      using t3 t2(2) t1(1) by (intro exI [of _ t3]) simp
  qed
qed simp


subsection \<open>The whole tree\<close>

lemma copy_symlink_copies:
  assumes "posix os v" "okp os src" "okp os dst" "view v s (place v src) = Some (Link t)"
    "length t + 1 < MAXPATH os" "view v s (place v dst) = None" "in_dir (view v s) (place v dst)"
  shows "\<exists>s'. copy_symlink os src dst s = (0, s') \<and> fds v s' = fds v s \<and>
    view v s' = (view v s)(place v dst \<mapsto> Link t)"
proof -
  have "length t \<le> MAXPATH os - 1" using assms(5) by simp
  from readlink_node [OF assms(1,2,4) this] obtain s1
    where s1: "sys_readlink os src (MAXPATH os - 1) s = (int (length t), t, s1)" "view v s1 = view v s"
      "fds v s1 = fds v s"
    by metis
  obtain st s2 where s2: "sys_lstat os dst s1 = (- ENOENT, st, s2)" "view v s2 = view v s1" "fds v s2 = fds v s1"
    using lstat_none [OF assms(1,3), of s1] assms(6,7) s1(2) by metis
  obtain s3 where s3: "sys_symlink os t dst s2 = (0, s3)" "view v s3 = (view v s2)(place v dst \<mapsto> Link t)"
      "fds v s3 = fds v s2"
    using symlink_new [OF assms(1,3), of s2 t] assms(6,7) s1(2) s2(2) by metis
  have "copy_symlink os src dst s = (0, s3)"
    using s1(1) s2(1) s3(1) assms(5) by (simp add: copy_symlink_def)
  with s1 s2 s3 show ?thesis by auto
qed

lemma graft_leaf:
  assumes "tree_ok V a" "free_at V a b" "V a = Some nd" "type_of nd \<noteq> Directory"
  shows "graft V a b = V(b \<mapsto> nd)"
proof
  fix cs
  show "graft V a b cs = (V(b \<mapsto> nd)) cs"
  proof (cases "prefix b cs")
    case True
    then obtain r where cs: "cs = b @ r" by (auto simp: prefix_def)
    show ?thesis
    proof (cases "r = []")
      case False
      then have "V (a @ r) = None" using leaf_no_child [OF assms(1,3,4)] by simp
      with cs False assms(2) show ?thesis by (simp add: graft_def free_at_def)
    qed (use cs assms(3) in \<open>simp add: graft_def\<close>)
  qed (auto simp: graft_def)
qed

lemma copy_directory_fills:
  assumes p: "posix os v" "okp os src" "okp os dst"
    and V: "tree_ok (view v s) (place v src)" "view v s (place v src) = Some (Dir m)"
    and free: "free_at (view v s) (place v src) (place v dst)" "in_dir (view v s) (place v dst)"
    and cp: "\<And>W m n D t. W = filling (view v s) (place v src) (place v dst) m \<Longrightarrow>
      n \<in> children (view v s) (place v src) - D \<Longrightarrow> view v t = W D \<Longrightarrow>
      \<exists>q1 q2 t'. join_path (MAXPATH os) src n = Inr q1 \<and> join_path (MAXPATH os) dst n = Inr q2 \<and>
        cp q1 q2 t = Some (0, t') \<and> fds v t' = fds v t \<and> view v t' = W (insert n D)"
    and k: "card (children (view v s) (place v src)) + 2 < k"
  shows "\<exists>s' m. copy_directory k os cp src dst st True s = Some (0, s') \<and> fds v s' = fds v s \<and>
    view v s' = filling (view v s) (place v src) (place v dst) m (children (view v s) (place v src))"
proof -
  let ?C = "children (view v s) (place v src)" and ?a = "place v src" and ?b = "place v dst"
  have none: "view v s ?b = None" using free(1) unfolding free_at_def by (metis append_Nil2)
  obtain st' s1 where s1: "sys_lstat os dst s = (- ENOENT, st', s1)" "view v s1 = view v s" "fds v s1 = fds v s"
    using lstat_none [OF p(1,3) none free(2)] by metis
  obtain s2 mb where s2: "sys_mkdir os dst s1 = (0, s2)" "view v s2 = (view v s1)(?b \<mapsto> Dir mb)"
    "fds v s2 = fds v s1"
    using mkdir_new [OF p(1,3), of s1] none free(2) s1(2) by metis
  define W where "W = filling (view v s) ?a ?b mb"
  have src: "W D (?a @ r) = view v s (?a @ r)" for D r
    unfolding W_def by (rule filling_source [OF V(1) free(1)])
  have ch: "children (W D) ?a = ?C" for D
    by (rule same_below(4)) (rule src)
  have v2: "view v s2 = W {}"
    using s1(2) s2(2) by (auto simp: W_def filling_def)
  have dir: "view v s2 ?a = Some (Dir m)"
    using src [of "{}" "[]"] v2 V(2) by simp
  obtain fd s3 ns where s3: "sys_open os src O_RDONLY s2 = (fd, s3)" "0 \<le> fd" "fds v s2 fd = None"
    "distinct ns" "{n \<in> set ns. \<not> is_dot_or_dotdot n} = {n \<in> children (view v s2) ?a. \<not> is_dot_or_dotdot n}"
    "fds v s3 = (fds v s2)(fd \<mapsto> Listing ?a (children (view v s2) ?a) ns)" "view v s3 = view v s2"
    using open_dir [OF p(1,2) dir] by blast
  have "plain n" if "n \<in> ?C" for n using tree_ok_plain [OF V(1) that] .
  then have names: "{n \<in> set ns. \<not> is_dot_or_dotdot n} = ?C - {}"
    using s3(5) ch v2 by (auto simp: plain_def)
  have "set ns \<subseteq> ?C \<union> {''.'', ''..''}"
    using names by (auto simp: is_dot_or_dotdot_def)
  then have "card (set ns) \<le> card (?C \<union> {''.'', ''..''})"
    using count_children(1) [OF V(1)] by (intro card_mono) auto
  also have "\<dots> \<le> card ?C + card {''.'', ''..''}"
    by (rule card_Un_le)
  finally have "length ns < k"
    using k distinct_card [OF s3(4)] by simp
  moreover have "fds v s3 fd = Some (Listing ?a ?C ns)" "view v s3 = W {}"
    using s3(6,7) ch v2 by simp_all
  ultimately obtain s4 where s4: "copy_dents k os cp src dst fd 0 s3 = Some (0, s4)"
    "fds v s4 = (fds v s3)(fd \<mapsto> Listing ?a ?C [])" "view v s4 = W ({} \<union> ?C)"
    using copy_dents_fills [where C = ?C and W = W, OF p(1) ch cp [OF W_def] _ s3(4) names]
    by blast
  have "fds v s4 fd \<noteq> None" using s4(2) by simp
  note s5 = close_fd [OF p(1) this]
  have "fds v (sys_close os fd s4) = fds v s"
    using s5(2) s4(2) s3(6) s2(3) s1(3) s3(3) by (auto simp: fun_eq_iff)
  moreover have "copy_directory k os cp src dst st True s = Some (0, sys_close os fd s4)"
    using s1(1) s2(1) s3(1,2) s4(1) by (simp add: copy_directory_def)
  ultimately show ?thesis
    using s5(1) s4(3) by (intro exI [of _ "sys_close os fd s4"] exI [of _ mb]) (simp add: W_def)
qed

lemma copy_path_tree:
  assumes p: "posix os v"
  shows "okp os src \<Longrightarrow> okp os dst \<Longrightarrow>
    tree_ok (view v s) (place v src) \<Longrightarrow> links_fit os (view v s) (place v src) \<Longrightarrow>
    fits os (view v s) (place v src) src \<Longrightarrow> fits os (view v s) (place v src) dst \<Longrightarrow>
    free_at (view v s) (place v src) (place v dst) \<Longrightarrow> in_dir (view v s) (place v dst) \<Longrightarrow>
    weight (view v s) (place v src) + 3 \<le> k \<Longrightarrow>
    \<exists>s'. copy_path k os True src dst s = Some (0, s') \<and> fds v s' = fds v s \<and>
      view v s' = graft (view v s) (place v src) (place v dst)"
proof (induction "weight (view v s) (place v src)" arbitrary: src dst s k rule: less_induct)
  case less
  let ?V = "view v s" and ?a = "place v src" and ?b = "place v dst"
  obtain k' where k: "k = Suc k'" "weight ?V ?a + 2 \<le> k'"
    using less.prems(9) by (cases k) auto
  obtain nd where nd: "?V ?a = Some nd"
    using less.prems(3) by (auto simp: tree_ok_def)
  obtain ret st s1 where l: "sys_lstat os src s = (ret, st, s1)" "0 \<le> ret" "st_type st = type_of nd"
    "perm_is nd (st_perm st)" "(st_dev st, st_ino st) = ident v s ?a"
    "view v s1 = ?V" "fds v s1 = fds v s" "ident v s1 = ident v s"
    using lstat_some [OF p less.prems(1) nd] by metis
  have ne: "?a \<noteq> ?b" using less.prems(7) by (auto simp: free_at_def)
  have none: "?V ?b = None" using less.prems(7) unfolding free_at_def by (metis append_Nil2)
  show ?case
  proof (cases nd)
    case (File m c)
    have "length c < k'"
    proof -
      have "cost (the (?V (?a @ []))) \<le> weight ?V ?a"
        unfolding weight_def
        by (rule member_le_sum [OF tree_ok_root [OF less.prems(3)]]) (use less.prems(3) in \<open>auto simp: tree_ok_def\<close>)
      then show ?thesis using nd File k(2) by simp
    qed
    then have "\<exists>s'. copy_regular k' os src dst st s1 = Some (0, s') \<and> fds v s' = fds v s1 \<and>
        view v s' = (view v s1)(?b \<mapsto> File m c)"
      using copy_regular_copies [OF p less.prems(1,2) ne, of s1 m c st k'] nd File l less.prems(8) none by simp
    then show ?thesis
      using k(1) l File graft_leaf [OF less.prems(3,7) nd] by auto
  next
    case (Link t)
    then have t: "length t + 1 < MAXPATH os"
      using less.prems(4) nd unfolding links_fit_def by (metis append_Nil2)
    obtain s2 where "copy_symlink os src dst s1 = (0, s2)" "fds v s2 = fds v s1"
      "view v s2 = (view v s1)(?b \<mapsto> Link t)"
      using copy_symlink_copies [OF p less.prems(1,2) _ t, of s1] nd Link none less.prems(8) l(6) by auto
    then show ?thesis
      using k(1) l Link graft_leaf [OF less.prems(3,7) nd] by auto
  next
    case (Dir m)
    have cp: "\<exists>q1 q2 t'. join_path (MAXPATH os) src n = Inr q1 \<and> join_path (MAXPATH os) dst n = Inr q2 \<and>
        copy_path k' os True q1 q2 t = Some (0, t') \<and> fds v t' = fds v t \<and> view v t' = W (insert n D)"
      if W: "W = filling (view v s1) ?a ?b mb" and n: "n \<in> children (view v s1) ?a - D" and t: "view v t = W D"
      for W mb n D t
    proof -
      have n': "n \<in> children ?V ?a" "n \<notin> D" using n l(6) by auto
      have pl: "plain n" using tree_ok_plain [OF less.prems(3) n'(1)] .
      obtain q1 where q1: "join_path (MAXPATH os) src n = Inr q1" "okp os q1"
        "length q1 \<le> length src + length n + 1" "place v q1 = ?a @ [n]"
        using join_place [OF p _ pl fits_name [OF less.prems(5) n'(1)]] less.prems(1) by (auto simp: okp_def)
      obtain q2 where q2: "join_path (MAXPATH os) dst n = Inr q2" "okp os q2"
        "length q2 \<le> length dst + length n + 1" "place v q2 = ?b @ [n]"
        using join_place [OF p _ pl fits_name [OF less.prems(6) n'(1)]] less.prems(2) by (auto simp: okp_def)
      have src: "view v t ((?a @ [n]) @ r) = ?V ((?a @ [n]) @ r)" for r
        using filling_source [OF less.prems(3,7), of mb D "n # r"] t W l(6) by simp
      have same: "tree_ok (view v t) (?a @ [n]) = tree_ok ?V (?a @ [n])"
        "weight (view v t) (?a @ [n]) = weight ?V (?a @ [n])"
        "links_fit os (view v t) (?a @ [n]) = links_fit os ?V (?a @ [n])"
        "fits os (view v t) (?a @ [n]) p = fits os ?V (?a @ [n]) p" for p
        by (rule same_below, rule src)+
      have smaller: "weight (view v t) (place v q1) < weight ?V ?a"
        using weight_child [OF less.prems(3) n'(1)] same(2) q1(4) by simp
      have "free_at (view v t) (place v q1) (place v q2)"
        unfolding free_at_def
      proof (intro conjI allI)
        fix r
        show "view v t (place v q2 @ r) = None"
          using filling_free [OF n'(2) less.prems(7)] t W l(6) q2(4) by simp
        show "\<not> prefix (place v q1) (place v q2)"
          using less.prems(7) ne q1(4) q2(4) by (auto simp: free_at_def dest: append_prefixD)
        show "view v t (place v q1) \<noteq> None"
          using src [of "[]"] n'(1) q1(4) by (simp add: children_def)
      qed
      moreover have "in_dir (view v t) (place v q2)"
        using filling_dir [of ?V ?a ?b mb D n] t W l(6) q2(4) by simp
      moreover have "weight (view v t) (place v q1) + 3 \<le> k'"
        using smaller k(2) by simp
      moreover have "tree_ok (view v t) (place v q1)" "links_fit os (view v t) (place v q1)"
        "fits os (view v t) (place v q1) q1" "fits os (view v t) (place v q1) q2"
        using tree_ok_child [OF less.prems(3) n'(1)] links_fit_child [OF less.prems(4)]
          fits_child [OF less.prems(5) q1(3)] fits_child [OF less.prems(6) q2(3)] same q1(4) by simp_all
      ultimately obtain t' where t': "copy_path k' os True q1 q2 t = Some (0, t')" "fds v t' = fds v t"
        "view v t' = graft (view v t) (place v q1) (place v q2)"
        using less.hyps [OF smaller q1(2) q2(2)] by blast
      have "view v t' = W (insert n D)"
        using t'(3) filling_graft [OF less.prems(3,7), of mb D n] t W l(6) q1(4) q2(4) by simp
      with t' q1(1) q2(1) show ?thesis by blast
    qed
    have card: "card (children (view v s1) ?a) + 2 < k'"
      using weight_children [OF less.prems(3)] k(2) l(6) by simp
    have prems1: "tree_ok (view v s1) ?a" "view v s1 ?a = Some (Dir m)" "free_at (view v s1) ?a ?b"
      "in_dir (view v s1) ?b"
      using less.prems nd Dir l(6) by simp_all
    have "\<exists>s2 mb. copy_directory k' os (copy_path k' os True) src dst st True s1 = Some (0, s2) \<and>
        fds v s2 = fds v s1 \<and> view v s2 = filling (view v s1) ?a ?b mb (children (view v s1) ?a)"
      by (rule copy_directory_fills [OF p less.prems(1,2) prems1 _ card]) (erule (2) cp)
    then obtain s2 mb where s2: "copy_directory k' os (copy_path k' os True) src dst st True s1 = Some (0, s2)"
      "fds v s2 = fds v s1" "view v s2 = filling (view v s1) ?a ?b mb (children (view v s1) ?a)"
      by blast
    have "view v s2 ?b = Some (Dir mb)" using s2(3) by (simp add: filling_def)
    from chmod_node [OF p less.prems(2) this, of m] obtain r s3
      where s3: "sys_fchmodat os dst m s2 = (r, s3)" "0 \<le> r" "view v s3 = (view v s2)(?b \<mapsto> Dir m)"
        "fds v s3 = fds v s2"
      by auto
    have "view v s3 = graft ?V ?a ?b"
      using s3(3) s2(3) filling_done [OF prems1(1,3,2)] l(6) by simp
    moreover have "copy_path k os True src dst s = Some (0, s3)"
      using k(1) l(1-4) Dir s2(1) s3(1,2) by simp
    ultimately show ?thesis using s3(4) s2(2) l(7) by auto
  qed
qed

end
