(* ===== verification/FsRemove.thy ===== *)
theory FsRemove
  imports FsCopy
begin

section \<open>Removing and moving trees\<close>

text \<open>
  \<open>remove_path\<close> opens the directory, looks for the first child, closes it, removes the child and
  starts again.  On a kernel that keeps its promises this ends, and exactly the tree is gone.  A
  move to another device, which copies and removes, then does what \<open>rename\<close> does on one device.
\<close>

definition prune :: "(string list \<Rightarrow> node option) \<Rightarrow> string list \<Rightarrow> string list \<Rightarrow> node option" where
  "prune V a = (\<lambda>cs. if prefix a cs then None else V cs)"

lemma prune_child:
  assumes "tree_ok V a" "n \<in> children V a"
  shows "tree_ok (prune V (a @ [n])) a" "card (sub_places (prune V (a @ [n])) a) < card (sub_places V a)"
    "prune (prune V (a @ [n])) a = prune V a" "sub_places (prune V (a @ [n])) a \<subseteq> sub_places V a"
proof -
  let ?W = "prune V (a @ [n])"
  have W: "?W (a @ r) = (if prefix [n] r then None else V (a @ r))" for r
    by (simp add: prune_def)
  show sub: "sub_places ?W a \<subseteq> sub_places V a"
    by (auto simp: sub_places_def W split: if_splits)
  have fin: "finite (sub_places V a)" using assms(1) by (simp add: tree_ok_def)
  have "[n] \<in> sub_places V a - sub_places ?W a"
    using assms(2) by (auto simp: sub_places_def W children_def)
  with sub fin show "card (sub_places ?W a) < card (sub_places V a)"
    by (intro psubset_card_mono) auto
  show "tree_ok ?W a"
    unfolding tree_ok_def
  proof (intro conjI allI impI)
    show "finite (sub_places ?W a)" using sub fin by (rule finite_subset)
    show "?W a \<noteq> None" using assms(1) W [of "[]"] by (simp add: tree_ok_def)
    fix r x assume "?W (a @ r @ [x]) \<noteq> None"
    then have "\<not> prefix [n] (r @ [x])" "V (a @ r @ [x]) \<noteq> None"
      using W [of "r @ [x]"] by (auto split: if_splits)
    moreover from this have "?W (a @ r) = V (a @ r)"
      using W [of r] by (auto simp: prefix_append)
    ultimately show "plain x" "\<exists>m. ?W (a @ r) = Some (Dir m)"
      using assms(1) by (auto simp: tree_ok_def)
  qed
  show "prune ?W a = prune V a"
    by (auto simp: prune_def fun_eq_iff dest: append_prefixD)
qed

lemma prune_leaf: "tree_ok V a \<Longrightarrow> children V a = {} \<Longrightarrow> V(a := None) = prune V a"
proof -
  assume t: "tree_ok V a" "children V a = {}"
  have "V (a @ r) = None" if "r \<noteq> []" for r
    using tree_ok_no_child [OF t(1)] t(2) that by (cases r) auto
  then show ?thesis
    by (fastforce simp: prune_def fun_eq_iff prefix_def)
qed

lemma fits_sub:
  assumes "fits os V a p" "sub_places W a \<subseteq> sub_places V a"
  shows "fits os W a p"
  using assms by (auto simp: fits_def sub_places_def)

lemma scan_chunk_finds:
  assumes "entries buf nread pos now"
    "\<And>n. n \<in> set now \<Longrightarrow> \<not> is_dot_or_dotdot n \<Longrightarrow> \<exists>q. join_path (MAXPATH os) path n = Inr q"
  shows "(\<forall>n\<in>set now. is_dot_or_dotdot n) \<and> scan_chunk os path buf nread pos = Inr None \<or>
    (\<exists>n q. n \<in> set now \<and> \<not> is_dot_or_dotdot n \<and> join_path (MAXPATH os) path n = Inr q \<and>
      scan_chunk os path buf nread pos = Inr (Some q))"
  using assms
proof (induction now arbitrary: pos)
  case Nil
  then show ?case by (subst scan_chunk.simps) simp
next
  case (Cons n now)
  show ?case
  proof (cases "is_dot_or_dotdot n")
    case True
    then have "scan_chunk os path buf nread pos = scan_chunk os path buf nread (pos + d_reclen (buf pos))"
      using Cons.prems(1) by (subst scan_chunk.simps) simp
    then show ?thesis
      using Cons.IH [of "pos + d_reclen (buf pos)"] Cons.prems True by auto
  next
    case False
    then obtain q where "join_path (MAXPATH os) path n = Inr q" using Cons.prems(2) by auto
    with False Cons.prems(1) show ?thesis
      by (intro disjI2 exI [of _ n] exI [of _ q]) (subst scan_chunk.simps, simp)
  qed
qed

lemma find_child_finds:
  assumes p: "posix os v"
    and j: "\<And>n. n \<in> C \<Longrightarrow> \<exists>q. join_path (MAXPATH os) path n = Inr q"
  shows "fds v s fd = Some (Listing a C ns) \<Longrightarrow> children (view v s) a = C \<Longrightarrow>
    {n \<in> set ns. \<not> is_dot_or_dotdot n} = C \<Longrightarrow> length ns < k \<Longrightarrow>
    \<exists>r s' f. find_child k os path fd s = Some (r, s') \<and> view v s' = view v s \<and>
      fds v s' = (fds v s)(fd \<mapsto> f) \<and>
      (if C = {} then r = Inr None
       else \<exists>n q. n \<in> C \<and> join_path (MAXPATH os) path n = Inr q \<and> r = Inr (Some q))"
proof (induction k arbitrary: ns s)
  case (Suc k)
  have "fds v s fd = Some (Listing a (children (view v s) a) ns)"
    using Suc.prems(1,2) by simp
  from list_dir [OF p this] obtain now rest nread buf s1
    where g: "sys_getdents os fd FSUTIL_DIRENT_BUFSZ s = (int nread, buf, s1)"
      "ns = now @ rest" "now = [] \<longrightarrow> ns = []" "nread = 0 \<longleftrightarrow> now = []" "entries buf nread 0 now"
      and s1: "fds v s1 = (fds v s)(fd \<mapsto> Listing a (children (view v s) a) rest)" "view v s1 = view v s"
    by metis
  show ?case
  proof (cases "nread = 0")
    case True
    then have "C = {}" using g Suc.prems(3) by auto
    with True g(1) s1 show ?thesis
      by (intro exI [of _ "Inr None"] exI [of _ s1] exI [of _ "Listing a (children (view v s) a) rest"]) simp
  next
    case False
    have jn: "\<exists>q. join_path (MAXPATH os) path n = Inr q" if "n \<in> set now" "\<not> is_dot_or_dotdot n" for n
      using j [of n] that Suc.prems(3) g(2) by auto
    note scan = scan_chunk_finds [OF g(5) jn]
    show ?thesis
    proof (cases "\<forall>n\<in>set now. is_dot_or_dotdot n")
      case True
      have "fds v s1 fd = Some (Listing a C rest)" "children (view v s1) a = C"
        using s1 Suc.prems(2) by simp_all
      moreover have "{n \<in> set rest. \<not> is_dot_or_dotdot n} = C"
        using Suc.prems(3) g(2) True by auto
      moreover have "length rest < k"
        using Suc.prems(4) g False by (auto simp: neq_Nil_conv)
      ultimately obtain r s2 f where s2: "find_child k os path fd s1 = Some (r, s2)" "view v s2 = view v s1"
        "fds v s2 = (fds v s1)(fd \<mapsto> f)"
        "if C = {} then r = Inr None
         else \<exists>n q. n \<in> C \<and> join_path (MAXPATH os) path n = Inr q \<and> r = Inr (Some q)"
        using Suc.IH [of s1 rest] by blast
      have "find_child (Suc k) os path fd s = find_child k os path fd s1"
        using g(1) False scan True by auto
      with s2 s1 show ?thesis
        by (intro exI [of _ r] exI [of _ s2] exI [of _ f]) simp
    next
      case nd: False
      then obtain n q where n: "n \<in> set now" "\<not> is_dot_or_dotdot n" "join_path (MAXPATH os) path n = Inr q"
        "scan_chunk os path buf nread 0 = Inr (Some q)"
        using scan nd by blast
      then have "n \<in> C" using Suc.prems(3) g(2) by auto
      moreover have "find_child (Suc k) os path fd s = Some (Inr (Some q), s1)"
        using g(1) False n(4) by simp
      ultimately show ?thesis
        using s1 n(3) by (intro exI [of _ "Inr (Some q)"] exI [of _ s1]
            exI [of _ "Listing a (children (view v s) a) rest"]) auto
    qed
  qed
qed simp

text \<open>One turn of the loop over a directory.\<close>

lemma remove_turn:
  assumes p: "posix os v" "okp os path" and V: "tree_ok (view v s) a" "a = place v path"
    "view v s a = Some (Dir m)" "fits os (view v s) a path"
    and k: "card (sub_places (view v s) a) + 2 \<le> k"
  obtains fd s1 r s2 where "sys_open os path O_RDONLY s = (fd, s1)" "0 \<le> fd"
    "find_child k os path fd s1 = Some (r, s2)"
    "view v (sys_close os fd s2) = view v s" "fds v (sys_close os fd s2) = fds v s"
    "if children (view v s) a = {} then r = Inr None
     else \<exists>n q. n \<in> children (view v s) a \<and> join_path (MAXPATH os) path n = Inr q \<and> r = Inr (Some q)"
proof -
  let ?C = "children (view v s) a"
  have "view v s (place v path) = Some (Dir m)" using V(2,3) by simp
  from open_dir [OF p this] obtain fd s1 ns where o: "sys_open os path O_RDONLY s = (fd, s1)" "0 \<le> fd"
    "fds v s fd = None" "distinct ns"
    "{n \<in> set ns. \<not> is_dot_or_dotdot n} = {n \<in> children (view v s) (place v path). \<not> is_dot_or_dotdot n}"
    "fds v s1 = (fds v s)(fd \<mapsto> Listing (place v path) (children (view v s) (place v path)) ns)"
    "view v s1 = view v s"
    by blast
  have plain: "plain n" if "n \<in> ?C" for n using tree_ok_plain [OF V(1) that] .
  then have names: "{n \<in> set ns. \<not> is_dot_or_dotdot n} = ?C"
    using o(5) V(2) by (auto simp: plain_def)
  have "set ns \<subseteq> ?C \<union> {''.'', ''..''}"
    using names by (auto simp: is_dot_or_dotdot_def)
  then have "card (set ns) \<le> card (?C \<union> {''.'', ''..''})"
    using count_children(1) [OF V(1)] by (intro card_mono) auto
  also have "\<dots> \<le> card ?C + card {''.'', ''..''}" by (rule card_Un_le)
  finally have len: "length ns < k"
    using k count_children(2) [OF V(1)] distinct_card [OF o(4)] by simp
  have join: "\<exists>q. join_path (MAXPATH os) path n = Inr q" if "n \<in> ?C" for n
    using join_place [OF p(1) _ plain [OF that] fits_name [OF V(4) that]] p(2) by (metis okp_def)
  obtain r s2 f where f: "find_child k os path fd s1 = Some (r, s2)" "view v s2 = view v s1"
    "fds v s2 = (fds v s1)(fd \<mapsto> f)"
    "if ?C = {} then r = Inr None
     else \<exists>n q. n \<in> ?C \<and> join_path (MAXPATH os) path n = Inr q \<and> r = Inr (Some q)"
    using find_child_finds [OF p(1) join, where a = a and s = s1 and fd = fd and ns = ns and k = k]
      o(6,7) V(2) names len by auto
  have "fds v s2 fd \<noteq> None" using f(3) by simp
  note c = close_fd [OF p(1) this]
  show ?thesis
  proof (rule that [OF o(1,2) f(1) _ _ f(4)])
    show "view v (sys_close os fd s2) = view v s" using c(1) f(2) o(7) by simp
    show "fds v (sys_close os fd s2) = fds v s" using c(2) f(3) o(3,6) by (auto simp: fun_eq_iff)
  qed
qed

lemma remove_path_step:
  assumes p: "posix os v" "okp os path" "copy_basename (MAXPATH os) path = Inr b" "\<not> is_dot_or_dotdot b"
    and V: "tree_ok (view v s) (place v path)" "place v path \<noteq> []"
    and dir: "\<And>s1 m. view v s1 = view v s \<Longrightarrow> view v s (place v path) = Some (Dir m) \<Longrightarrow>
      \<exists>s'. remove_children k os force path s1 = Some (0, s') \<and> fds v s' = fds v s1 \<and>
        view v s' = prune (view v s1) (place v path)"
  shows "\<exists>s'. remove_path (Suc k) os True force path s = Some (0, s') \<and> fds v s' = fds v s \<and>
    view v s' = prune (view v s) (place v path)"
proof -
  obtain nd where nd: "view v s (place v path) = Some nd"
    using V(1) by (auto simp: tree_ok_def)
  obtain ret st s1 where l: "sys_lstat os path s = (ret, st, s1)" "0 \<le> ret" "st_type st = type_of nd"
    "view v s1 = view v s" "fds v s1 = fds v s"
    using lstat_some [OF p(1,2) nd] by metis
  show ?thesis
  proof (cases "type_of nd = Directory")
    case True
    then obtain m where "nd = Dir m" by (cases nd) auto
    with dir [OF l(4)] nd obtain s' where "remove_children k os force path s1 = Some (0, s')"
      "fds v s' = fds v s1" "view v s' = prune (view v s1) (place v path)"
      by blast
    with l p(3,4) True show ?thesis by auto
  next
    case False
    have none: "children (view v s) (place v path) = {}"
      using leaf_no_child [OF V(1) nd False] by (auto simp: children_def)
    obtain s2 where s2: "sys_unlink os path s1 = (0, s2)" "view v s2 = (view v s1)(place v path := None)"
      "fds v s2 = fds v s1"
      using unlink_leaf [OF p(1,2), of s1 nd] nd none V(2) l(4) by auto
    have "remove_path (Suc k) os True force path s = Some (0, s2)"
      using l(1-3) p(3,4) False s2(1) by (simp add: forgive_def)
    with s2 l prune_leaf [OF V(1) none] show ?thesis by auto
  qed
qed

lemma remove_children_tree:
  assumes p: "posix os v"
  shows "okp os path \<Longrightarrow> tree_ok (view v s) (place v path) \<Longrightarrow> place v path \<noteq> [] \<Longrightarrow>
    fits os (view v s) (place v path) path \<Longrightarrow> view v s (place v path) = Some (Dir m) \<Longrightarrow>
    2 * card (sub_places (view v s) (place v path)) + 4 \<le> k \<Longrightarrow>
    \<exists>s'. remove_children k os force path s = Some (0, s') \<and> fds v s' = fds v s \<and>
      view v s' = prune (view v s) (place v path)"
proof (induction "card (sub_places (view v s) (place v path))" arbitrary: path s m k rule: less_induct)
  case less
  let ?V = "view v s" and ?a = "place v path"
  let ?N = "card (sub_places ?V ?a)"
  obtain k1 where k: "k = Suc k1" "2 * ?N + 3 \<le> k1"
    using less.prems(6) by (cases k) auto
  have "?N + 2 \<le> k1" using k(2) by simp
  from remove_turn [OF p less.prems(1,2) refl less.prems(5,4) this] obtain fd s1 r s2
    where t: "sys_open os path O_RDONLY s = (fd, s1)" "0 \<le> fd" "find_child k1 os path fd s1 = Some (r, s2)"
      and c: "view v (sys_close os fd s2) = ?V" "fds v (sys_close os fd s2) = fds v s"
      and r: "if children ?V ?a = {} then r = Inr None
        else \<exists>n q. n \<in> children ?V ?a \<and> join_path (MAXPATH os) path n = Inr q \<and> r = Inr (Some q)"
    by blast
  let ?s3 = "sys_close os fd s2"
  show ?case
  proof (cases "children ?V ?a = {}")
    case True
    obtain s4 where s4: "sys_unlink os path ?s3 = (0, s4)" "view v s4 = (view v ?s3)(?a := None)"
      "fds v s4 = fds v ?s3"
      using unlink_leaf [OF p less.prems(1), of ?s3] less.prems(3,5) True c(1) by auto
    have "remove_children k os force path s = Some (0, s4)"
      using k(1) t r True s4(1) by (simp add: Let_def forgive_def)
    with s4 c prune_leaf [OF less.prems(2) True] show ?thesis by auto
  next
    case False
    with r obtain n q where n: "n \<in> children ?V ?a" "join_path (MAXPATH os) path n = Inr q" "r = Inr (Some q)"
      by auto
    have pl: "plain n" using tree_ok_plain [OF less.prems(2) n(1)] .
    obtain q' where "join_path (MAXPATH os) path n = Inr q'" "okp os q'" "length q' \<le> length path + length n + 1"
      "place v q' = ?a @ [n]" "copy_basename (MAXPATH os) q' = Inr n"
      using join_place [OF p _ pl fits_name [OF less.prems(4) n(1)]] less.prems(1) by (auto simp: okp_def)
    with n(2) have q: "okp os q" "length q \<le> length path + length n + 1" "place v q = ?a @ [n]"
      "copy_basename (MAXPATH os) q = Inr n"
      by simp_all
    have small: "card (sub_places ?V (?a @ [n])) < ?N"
    proof -
      have "finite (sub_places ?V ?a)" using less.prems(2) by (simp add: tree_ok_def)
      then have "card (Cons n ` sub_places ?V (?a @ [n])) < ?N"
        using sub_places_child [of n ?V ?a] tree_ok_root [OF less.prems(2)]
        by (intro psubset_card_mono) blast+
      then show ?thesis by (simp add: card_image)
    qed
    obtain k2 where k2: "k1 = Suc k2" using k(2) by (cases k1) auto
    have "\<exists>s'. remove_path k1 os True force q ?s3 = Some (0, s') \<and> fds v s' = fds v ?s3 \<and>
        view v s' = prune (view v ?s3) (place v q)"
      unfolding k2
    proof (rule remove_path_step [OF p q(1,4)])
      show "\<not> is_dot_or_dotdot n" using pl by (simp add: plain_def)
      show "tree_ok (view v ?s3) (place v q)" using tree_ok_child [OF less.prems(2) n(1)] c(1) q(3) by simp
      show "place v q \<noteq> []" using q(3) by simp
      fix s1 m'
      assume s1: "view v s1 = view v ?s3" "view v ?s3 (place v q) = Some (Dir m')"
      show "\<exists>s'. remove_children k2 os force q s1 = Some (0, s') \<and> fds v s' = fds v s1 \<and>
          view v s' = prune (view v s1) (place v q)"
      proof (rule less.hyps [OF _ q(1)])
        show "card (sub_places (view v s1) (place v q)) < ?N" using small s1(1) c(1) q(3) by simp
        show "tree_ok (view v s1) (place v q)"
          using tree_ok_child [OF less.prems(2) n(1)] c(1) q(3) s1(1) by simp
        show "fits os (view v s1) (place v q) q"
          using fits_child [OF less.prems(4) q(2)] c(1) q(3) s1(1) by simp
        show "view v s1 (place v q) = Some (Dir m')" using s1 by simp
        show "2 * card (sub_places (view v s1) (place v q)) + 4 \<le> k2"
          using small k(2) k2 s1(1) c(1) q(3) by simp
      qed (use q(3) in simp)
    qed
    then obtain s4 where s4: "remove_path k1 os True force q ?s3 = Some (0, s4)" "fds v s4 = fds v s"
      "view v s4 = prune ?V (?a @ [n])"
      using c q(3) by auto
    note pc = prune_child [OF less.prems(2) n(1)]
    have "\<exists>s'. remove_children k1 os force path s4 = Some (0, s') \<and> fds v s' = fds v s4 \<and>
        view v s' = prune (view v s4) ?a"
    proof (rule less.hyps [OF _ less.prems(1)])
      show "card (sub_places (view v s4) ?a) < ?N" "tree_ok (view v s4) ?a"
        using pc(1,2) s4(3) by simp_all
      show "fits os (view v s4) ?a path"
        using fits_sub [OF less.prems(4) pc(4)] s4(3) by simp
      show "view v s4 ?a = Some (Dir m)"
        using less.prems(5) s4(3) by (simp add: prune_def)
      show "2 * card (sub_places (view v s4) ?a) + 4 \<le> k1"
        using pc(2) s4(3) k(2) by simp
    qed (rule less.prems(3))
    then obtain s5 where s5: "remove_children k1 os force path s4 = Some (0, s5)" "fds v s5 = fds v s4"
      "view v s5 = prune (view v s4) ?a"
      by blast
    have "remove_children k os force path s = Some (0, s5)"
      using k(1) t n(3) s4(1) s5(1) by (simp add: Let_def)
    with s4 s5 pc(3) show ?thesis by auto
  qed
qed

lemma remove_path_tree:
  assumes "posix os v" "okp os path" "copy_basename (MAXPATH os) path = Inr b" "\<not> is_dot_or_dotdot b"
    "tree_ok (view v s) (place v path)" "place v path \<noteq> []" "fits os (view v s) (place v path) path"
    "2 * card (sub_places (view v s) (place v path)) + 5 \<le> k"
  shows "\<exists>s'. remove_path k os True force path s = Some (0, s') \<and> fds v s' = fds v s \<and>
    view v s' = prune (view v s) (place v path)"
proof -
  obtain j where j: "k = Suc j" "2 * card (sub_places (view v s) (place v path)) + 4 \<le> j"
    using assms(8) by (cases k) auto
  show ?thesis
    unfolding j(1)
  proof (rule remove_path_step [OF assms(1-6)])
    fix s1 m
    assume s1: "view v s1 = view v s" "view v s (place v path) = Some (Dir m)"
    show "\<exists>s'. remove_children j os force path s1 = Some (0, s') \<and> fds v s' = fds v s1 \<and>
        view v s' = prune (view v s1) (place v path)"
      by (rule remove_children_tree [OF assms(1,2), where m = m])
        (use assms(5-7) j(2) s1 in simp_all)
  qed
qed

end
