(* ===== verification/Ramfs.thy ===== *)
theory Ramfs
  imports FsTree "HOL-Library.AList"
begin

section \<open>A kernel in memory\<close>

text \<open>
  A concrete kernel that keeps the promises of \<open>FsTree\<close>, for the instances of the theorems.  The
  file system is an association list from places to nodes, the descriptor table a list.  Reads
  and writes move at most seven bytes, \<open>getdents\<close> gives one entry per call, and every \<open>rename\<close> is
  one between two devices.
\<close>

record ram =
  nodes :: "(string list \<times> node) list"
  table :: "ofile option list"

fun comps_from :: "string \<Rightarrow> string \<Rightarrow> string list" where
  "comps_from w [] = (if w = [] then [] else [w])"
| "comps_from w (c # cs) =
     (if c = SLASH then (if w = [] then [] else [w]) @ comps_from [] cs else comps_from (w @ [c]) cs)"

definition comps :: "string \<Rightarrow> string list" where
  "comps = comps_from []"

definition ram_view :: "ram \<Rightarrow> string list \<Rightarrow> node option" where
  "ram_view s = map_of (nodes s)"

definition ram_fds :: "ram \<Rightarrow> int \<Rightarrow> ofile option" where
  "ram_fds s fd = (if 0 \<le> fd \<and> nat fd < length (table s) then table s ! nat fd else None)"

definition inode :: "ram \<Rightarrow> string list \<Rightarrow> nat" where
  "inode s cs = length (takeWhile (\<lambda>x. fst x \<noteq> cs) (nodes s))"

definition names :: "ram \<Rightarrow> string list \<Rightarrow> string list" where
  "names s cs = remdups (map last (filter (\<lambda>k. k \<noteq> [] \<and> butlast k = cs) (map fst (nodes s))))"

definition ramview :: "ram fsview" where
  "ramview = \<lparr>place = comps, view = ram_view, fds = ram_fds, ident = (\<lambda>s cs. (0, inode s cs))\<rparr>"

fun perm_of :: "node \<Rightarrow> nat" where
  "perm_of (File m c) = m"
| "perm_of (Dir m) = m"
| "perm_of (Link t) = 511"

definition ram_lstat :: "string \<Rightarrow> ram \<Rightarrow> int \<times> stat \<times> ram" where
  "ram_lstat p s =
     (case map_of (nodes s) (comps p) of
        None \<Rightarrow> (- ENOENT, \<lparr>st_dev = 0, st_ino = 0, st_type = Special, st_perm = 0\<rparr>, s)
      | Some nd \<Rightarrow> (0, \<lparr>st_dev = 0, st_ino = inode s (comps p), st_type = type_of nd, st_perm = perm_of nd\<rparr>, s))"

definition push :: "ofile \<Rightarrow> ram \<Rightarrow> int \<times> ram" where
  "push f s = (int (length (table s)), s\<lparr>table := table s @ [Some f]\<rparr>)"

definition put :: "string list \<Rightarrow> node \<Rightarrow> ram \<Rightarrow> ram" where
  "put cs nd s = s\<lparr>nodes := AList.update cs nd (nodes s)\<rparr>"

fun ram_open :: "string \<Rightarrow> oflags \<Rightarrow> ram \<Rightarrow> int \<times> ram" where
  "ram_open p O_RDONLY s =
     (case map_of (nodes s) (comps p) of
        Some (File m c) \<Rightarrow> push (Reading (comps p) 0) s
      | Some (Dir m) \<Rightarrow> push (Listing (comps p) (children (ram_view s) (comps p)) (''.'' # ''..'' # filter (\<lambda>n. \<not> is_dot_or_dotdot n) (names s (comps p)))) s
      | _ \<Rightarrow> (- ENOENT, s))"
| "ram_open p O_WRONLY_CREAT_TRUNC s =
     (case map_of (nodes s) (comps p) of
        Some (Dir m) \<Rightarrow> (- EISDIR, s)
      | _ \<Rightarrow> push (Writing (comps p)) (put (comps p) (File 420 []) s))"

definition ram_close :: "int \<Rightarrow> ram \<Rightarrow> ram" where
  "ram_close fd s = (if 0 \<le> fd then s\<lparr>table := (table s)[nat fd := None]\<rparr> else s)"

definition ram_read :: "int \<Rightarrow> nat \<Rightarrow> ram \<Rightarrow> int \<times> string \<times> ram" where
  "ram_read fd n s =
     (case ram_fds s fd of
        Some (Reading cs off) \<Rightarrow>
          (case map_of (nodes s) cs of
             Some (File m c) \<Rightarrow>
               let bs = take (min n 7) (drop off c)
               in (int (length bs), bs, s\<lparr>table := (table s)[nat fd := Some (Reading cs (off + length bs))]\<rparr>)
           | _ \<Rightarrow> (- EIO, [], s))
      | _ \<Rightarrow> (- EINVAL, [], s))"

definition ram_write :: "int \<Rightarrow> string \<Rightarrow> ram \<Rightarrow> int \<times> ram" where
  "ram_write fd bs s =
     (case ram_fds s fd of
        Some (Writing cs) \<Rightarrow>
          (case map_of (nodes s) cs of
             Some (File m c) \<Rightarrow> (int (min 7 (length bs)), put cs (File m (c @ take 7 bs)) s)
           | _ \<Rightarrow> (- EIO, s))
      | _ \<Rightarrow> (- EINVAL, s))"

definition ram_getdents :: "int \<Rightarrow> nat \<Rightarrow> ram \<Rightarrow> int \<times> (nat \<Rightarrow> dirent) \<times> ram" where
  "ram_getdents fd n s =
     (let none = (\<lambda>_. \<lparr>d_ino = 0, d_reclen = 0, d_name = []\<rparr>) in
      case ram_fds s fd of
        Some (Listing cs all (x # rest)) \<Rightarrow>
          (24, none(0 := \<lparr>d_ino = 1, d_reclen = 24, d_name = x\<rparr>),
           s\<lparr>table := (table s)[nat fd := Some (Listing cs all rest)]\<rparr>)
      | Some (Listing cs all []) \<Rightarrow> (0, none, s)
      | _ \<Rightarrow> (- EINVAL, none, s))"

definition ramfs :: "ram kernel" where
  "ramfs = \<lparr>MAXPATH = 512, sys_lstat = ram_lstat, sys_stat = ram_lstat, sys_open = ram_open,
     sys_close = ram_close, sys_read = ram_read, sys_write = ram_write, sys_getdents = ram_getdents,
     sys_readlink = (\<lambda>p n s. case map_of (nodes s) (comps p) of
        Some (Link t) \<Rightarrow> (int (length (take n t)), take n t, s) | _ \<Rightarrow> (- EINVAL, [], s)),
     sys_symlink = (\<lambda>t p s. (0, put (comps p) (Link t) s)),
     sys_unlink = (\<lambda>p s. if names s (comps p) \<noteq> [] then (- EISDIR, s)
        else (0, s\<lparr>nodes := AList.delete (comps p) (nodes s)\<rparr>)),
     sys_mkdir = (\<lambda>p s. (0, put (comps p) (Dir 493) s)),
     sys_rename = (\<lambda>p q s. (- EXDEV, s)),
     sys_fchmodat = (\<lambda>p m s. case map_of (nodes s) (comps p) of
        Some nd \<Rightarrow> (0, put (comps p) (set_perm m nd) s) | None \<Rightarrow> (- ENOENT, s))\<rparr>"

subsection \<open>It keeps the promises\<close>

lemmas ram_simps = ramfs_def ramview_def ram_view_def

lemma comps_from_append: "comps_from w (d @ SLASH # n) = comps_from w d @ comps_from [] n"
  by (induction w d rule: comps_from.induct) auto

lemma comps_from_plain: "SLASH \<notin> set n \<Longrightarrow> comps_from w n = (if w @ n = [] then [] else [w @ n])"
  by (induction n arbitrary: w) auto

lemma ram_path: "path_laws ramview"
  by (auto simp: path_laws_def ram_simps comps_def comps_from_append comps_from_plain plain_def)

lemma names_children: "set (names s cs) = children (ram_view s) cs"
proof -
  have "n \<in> set (names s cs) \<longleftrightarrow> cs @ [n] \<in> fst ` set (nodes s)" for n
  proof
    assume "n \<in> set (names s cs)"
    then obtain k where "k \<in> fst ` set (nodes s)" "k \<noteq> []" "butlast k = cs" "last k = n"
      by (auto simp: names_def)
    then show "cs @ [n] \<in> fst ` set (nodes s)"
      by (metis append_butlast_last_id)
  next
    assume "cs @ [n] \<in> fst ` set (nodes s)"
    then have "last (cs @ [n]) \<in> set (names s cs)"
      unfolding names_def by force
    then show "n \<in> set (names s cs)" by simp
  qed
  then show ?thesis
    by (auto simp: children_def ram_view_def map_of_eq_None_iff simp del: not_None_eq)
qed

lemma length_takeWhile_lt: "\<exists>x\<in>set xs. \<not> P x \<Longrightarrow> length (takeWhile P xs) < length xs"
  by (induction xs) auto

lemma inode_inj: "inj_on (inode s) {cs. ram_view s cs \<noteq> None}"
proof (rule inj_onI)
  fix a b
  assume ab: "a \<in> {cs. ram_view s cs \<noteq> None}" "b \<in> {cs. ram_view s cs \<noteq> None}" "inode s a = inode s b"
  have at: "inode s cs < length (nodes s) \<and> fst (nodes s ! inode s cs) = cs" if "ram_view s cs \<noteq> None" for cs
  proof -
    have "\<exists>x\<in>set (nodes s). fst x = cs"
      using that by (auto simp: ram_view_def map_of_eq_None_iff simp del: not_None_eq)
    then have "inode s cs < length (nodes s)"
      unfolding inode_def using length_takeWhile_lt [of "nodes s" "\<lambda>x. fst x \<noteq> cs"] by simp
    then show ?thesis
      using nth_length_takeWhile [of "\<lambda>x. fst x \<noteq> cs" "nodes s"] by (simp add: inode_def)
  qed
  have "fst (nodes s ! inode s a) = a" "fst (nodes s ! inode s b) = b"
    using at ab(1,2) by blast+
  with ab(3) show "a = b" by metis
qed

lemma perm_is_of: "perm_is nd (perm_of nd)"
  by (cases nd) auto

lemma ram_lstat: "lstat_laws ramfs ramview"
  unfolding lstat_laws_def
proof (intro conjI allI impI)
  fix s
  show "inj_on (ident ramview s) {cs. view ramview s cs \<noteq> None}"
    using inode_inj [of s] by (auto simp: ram_simps inj_on_def)
qed (auto simp: ram_simps ram_lstat_def perm_is_of)

lemma ram_fds_push: "ram_fds (s\<lparr>table := table s @ [Some f]\<rparr>) = (ram_fds s)(int (length (table s)) \<mapsto> f)"
  by (auto simp: ram_fds_def fun_eq_iff nth_append)

lemma ram_fds_new: "ram_fds s (int (length (table s))) = None"
  by (simp add: ram_fds_def)

lemma ram_fds_set:
  "ram_fds s fd \<noteq> None \<Longrightarrow> ram_fds (s\<lparr>table := (table s)[nat fd := x]\<rparr>) = (ram_fds s)(fd := x)"
  by (auto simp: ram_fds_def fun_eq_iff nth_list_update split: if_splits)

lemma ram_fds_nodes [simp]: "ram_fds (s\<lparr>nodes := ns\<rparr>) = ram_fds s" "table (put cs nd s) = table s"
    "ram_fds (put cs nd s) = ram_fds s"
  by (simp_all add: ram_fds_def fun_eq_iff put_def)

lemma put_nodes [simp]: "map_of (nodes (put cs nd s)) = (map_of (nodes s))(cs \<mapsto> nd)"
  by (simp add: put_def update_conv')


lemma ram_open: "open_laws ramfs ramview"
  unfolding open_laws_def
proof (intro conjI allI impI; (elim conjE)?)
  fix p s m c
  assume "okp ramfs p" "view ramview s (place ramview p) = Some (File m c)"
  then show "\<exists>fd s'. sys_open ramfs p O_RDONLY s = (fd, s') \<and> 0 \<le> fd \<and> fds ramview s fd = None \<and>
      fds ramview s' = (fds ramview s)(fd \<mapsto> Reading (place ramview p) 0) \<and> view ramview s' = view ramview s"
    by (simp add: ram_simps push_def ram_fds_push ram_fds_new)
next
  fix p s m
  assume "okp ramfs p" "view ramview s (place ramview p) = Some (Dir m)"
  moreover have "distinct (''.'' # ''..'' # filter (\<lambda>n. \<not> is_dot_or_dotdot n) (names s (comps p)))"
    by (auto simp: is_dot_or_dotdot_def names_def)
  ultimately show "\<exists>fd s' ns. sys_open ramfs p O_RDONLY s = (fd, s') \<and> 0 \<le> fd \<and> fds ramview s fd = None \<and>
      distinct ns \<and> {n \<in> set ns. \<not> is_dot_or_dotdot n} =
        {n \<in> children (view ramview s) (place ramview p). \<not> is_dot_or_dotdot n} \<and>
      fds ramview s' = (fds ramview s)(fd \<mapsto> Listing (place ramview p) (children (view ramview s) (place ramview p)) ns) \<and>
      view ramview s' = view ramview s"
    using names_children [of s "comps p"]
    by (intro exI [of _ "int (length (table s))"] exI [of _ "snd (ram_open p O_RDONLY s)"]
        exI [of _ "''.'' # ''..'' # filter (\<lambda>n. \<not> is_dot_or_dotdot n) (names s (comps p))"])
      (auto simp: ram_simps push_def ram_fds_push ram_fds_new is_dot_or_dotdot_def)
next
  fix p s
  assume "okp ramfs p" "view ramview s (place ramview p) = None \<or> (\<exists>m c. view ramview s (place ramview p) = Some (File m c))"
  then show "\<exists>fd s' m. sys_open ramfs p O_WRONLY_CREAT_TRUNC s = (fd, s') \<and> 0 \<le> fd \<and> fds ramview s fd = None \<and>
      fds ramview s' = (fds ramview s)(fd \<mapsto> Writing (place ramview p)) \<and>
      view ramview s' = (view ramview s)(place ramview p \<mapsto> File m [])"
    using ram_fds_push [of "put (comps p) (File 420 []) s"]
    by (intro exI [of _ "int (length (table s))"] exI [of _ "snd (ram_open p O_WRONLY_CREAT_TRUNC s)"] exI [of _ 420])
      (auto simp: ram_simps push_def ram_fds_new)
next
  fix fd s
  assume "fds ramview s fd \<noteq> None"
  then show "view ramview (sys_close ramfs fd s) = view ramview s"
    "fds ramview (sys_close ramfs fd s) = (fds ramview s)(fd := None)"
    using ram_fds_set [of s fd None] by (auto simp: ram_simps ram_close_def ram_fds_def split: if_splits)
qed

lemma ram_data: "data_laws ramfs ramview"
  unfolding data_laws_def
proof (intro conjI allI impI; (elim conjE)?)
  fix fd n s cs off m c
  assume f: "fds ramview s fd = Some (Reading cs off)" "view ramview s cs = Some (File m c)"
  then have set: "ram_fds (s\<lparr>table := (table s)[nat fd := x]\<rparr>) = (ram_fds s)(fd := x)" for x
    by (intro ram_fds_set) (simp add: ram_simps)
  have part: "\<exists>rest. drop off c = take (min n 7) (drop off c) @ rest"
    by (metis append_take_drop_id)
  show "\<exists>bs s'. sys_read ramfs fd n s = (int (length bs), bs, s') \<and> length bs \<le> n \<and>
      (\<exists>rest. drop off c = bs @ rest) \<and> (bs = [] \<longrightarrow> n = 0 \<or> drop off c = []) \<and>
      fds ramview s' = (fds ramview s)(fd \<mapsto> Reading cs (off + length bs)) \<and> view ramview s' = view ramview s"
    using f set part
    by (intro exI [of _ "take (min n 7) (drop off c)"] exI [of _ "snd (snd (ram_read fd n s))"])
      (auto simp: ram_simps ram_read_def Let_def)
next
  fix fd and bs :: string and s cs m c
  assume f: "fds ramview s fd = Some (Writing cs)" "view ramview s cs = Some (File m c)" "bs \<noteq> []"
  then show "\<exists>w s'. sys_write ramfs fd bs s = (int w, s') \<and> 0 < w \<and> w \<le> length bs \<and>
      fds ramview s' = fds ramview s \<and> view ramview s' = (view ramview s)(cs \<mapsto> File m (c @ take w bs))"
    by (intro exI [of _ "min 7 (length bs)"] exI [of _ "snd (ram_write fd bs s)"])
      (auto simp: ram_simps ram_write_def min_def)
next
  fix fd n s cs all ns
  assume f: "fds ramview s fd = Some (Listing cs all ns)"
  then have set: "ram_fds (s\<lparr>table := (table s)[nat fd := x]\<rparr>) = (ram_fds s)(fd := x)" for x
    by (intro ram_fds_set) (simp add: ram_simps)
  show "\<exists>now rest nread buf s'. sys_getdents ramfs fd n s = (int nread, buf, s') \<and>
      ns = now @ rest \<and> (now = [] \<longrightarrow> ns = []) \<and> (nread = 0 \<longleftrightarrow> now = []) \<and>
      entries buf nread 0 now \<and> fds ramview s' = (fds ramview s)(fd \<mapsto> Listing cs all rest) \<and>
      view ramview s' = view ramview s"
  proof (cases ns)
    case Nil
    with f have "ram_fds s = (ram_fds s)(fd \<mapsto> Listing cs all [])"
      by (simp add: fun_upd_idem ram_simps)
    with Nil f show ?thesis
      by (intro exI [of _ "[]"] exI [of _ 0] exI [of _ "fst (snd (ram_getdents fd n s))"] exI [of _ s])
        (simp add: ram_simps ram_getdents_def Let_def)
  next
    case (Cons x rest)
    with f set show ?thesis
      by (intro exI [of _ "[x]"] exI [of _ rest] exI [of _ 24] exI [of _ "fst (snd (ram_getdents fd n s))"]
          exI [of _ "snd (snd (ram_getdents fd n s))"])
        (simp add: ram_simps ram_getdents_def Let_def)
  qed
qed

lemma ram_change: "change_laws ramfs ramview"
  unfolding change_laws_def
proof (intro conjI allI impI; (elim conjE)?)
  fix p s nd
  assume "children (view ramview s) (place ramview p) = {}"
  then have "names s (comps p) = []"
    using names_children [of s "comps p"] by (simp add: ram_simps)
  then show "\<exists>s'. sys_unlink ramfs p s = (0, s') \<and> view ramview s' = (view ramview s)(place ramview p := None) \<and>
      fds ramview s' = fds ramview s"
    by (simp add: ram_simps delete_conv')
qed (auto simp: ram_simps)

lemma posix_ramfs: "posix ramfs ramview"
  by (simp add: posix_def ram_path ram_lstat ram_open ram_data ram_change)

end
