(* ===== verification/FileTools.thy ===== *)
theory FileTools
  imports FsRemove Ramfs
begin

section \<open>cp.c, mv.c and rm.c\<close>

text \<open>
  The programs read their options, resolve the destination of each source and call \<open>fsutil.c\<close>.  The
  result is the exit status and the state; the messages on the error descriptor are left out.
  Arguments are those after the program's name.
\<close>

text \<open>The option words of \<open>cp\<close>: \<^const>\<open>None\<close> is the exit on an unknown letter.\<close>

definition is_option :: "string \<Rightarrow> bool" where
  "is_option w \<longleftrightarrow> (case w of CHR ''-'' # _ # _ \<Rightarrow> True | _ \<Rightarrow> False)"

fun cp_options :: "string list \<Rightarrow> bool \<Rightarrow> (bool \<times> string list) option" where
  "cp_options [] recursive = Some (recursive, [])"
| "cp_options (w # ws) recursive =
     (if is_option w then
        (if list_all (\<lambda>c. c = CHR ''r'' \<or> c = CHR ''R'') (tl w) then cp_options ws True else None)
      else Some (recursive, w # ws))"

fun cp_files :: "nat \<Rightarrow> 's kernel \<Rightarrow> bool \<Rightarrow> bool \<Rightarrow> string \<Rightarrow> string list \<Rightarrow> nat \<Rightarrow> 's \<Rightarrow> (nat \<times> 's) option" where
  "cp_files k os recursive many dst [] status s = Some (status, s)"
| "cp_files k os recursive many dst (f # fs) status s =
     (case resolve_target os (MAXPATH os) f dst many s of
        (Inl ret, s) \<Rightarrow> cp_files k os recursive many dst fs 1 s
      | (Inr final_dst, s) \<Rightarrow>
          (case copy_path k os recursive f final_dst s of
             None \<Rightarrow> None
           | Some (ret, s) \<Rightarrow> cp_files k os recursive many dst fs (if ret < 0 then 1 else status) s))"

definition cp_main :: "nat \<Rightarrow> 's kernel \<Rightarrow> string list \<Rightarrow> 's \<Rightarrow> (nat \<times> 's) option" where
  "cp_main k os args s =
     (case cp_options args False of
        None \<Rightarrow> Some (1, s)
      | Some (recursive, paths) \<Rightarrow>
          if length paths < 2 then Some (1, s)
          else cp_files k os recursive (2 < length paths) (last paths) (butlast paths) 0 s)"

fun mv_files :: "nat \<Rightarrow> 's kernel \<Rightarrow> bool \<Rightarrow> string \<Rightarrow> string list \<Rightarrow> nat \<Rightarrow> 's \<Rightarrow> (nat \<times> 's) option" where
  "mv_files k os many dst [] status s = Some (status, s)"
| "mv_files k os many dst (f # fs) status s =
     (case resolve_target os (MAXPATH os) f dst many s of
        (Inl ret, s) \<Rightarrow> mv_files k os many dst fs 1 s
      | (Inr final_dst, s) \<Rightarrow>
          (case move_path k os f final_dst s of
             None \<Rightarrow> None
           | Some (ret, s) \<Rightarrow> mv_files k os many dst fs (if ret < 0 then 1 else status) s))"

definition mv_main :: "nat \<Rightarrow> 's kernel \<Rightarrow> string list \<Rightarrow> 's \<Rightarrow> (nat \<times> 's) option" where
  "mv_main k os args s =
     (if length args < 2 then Some (1, s)
      else mv_files k os (2 < length args) (last args) (butlast args) 0 s)"

fun rm_letters :: "string \<Rightarrow> bool \<times> bool \<Rightarrow> (bool \<times> bool) option" where
  "rm_letters [] rf = Some rf"
| "rm_letters (c # cs) (recursive, force) =
     (if c = CHR ''f'' then rm_letters cs (recursive, True)
      else if c = CHR ''r'' \<or> c = CHR ''R'' then rm_letters cs (True, force)
      else None)"

fun rm_options :: "string list \<Rightarrow> bool \<times> bool \<Rightarrow> ((bool \<times> bool) \<times> string list) option" where
  "rm_options [] rf = Some (rf, [])"
| "rm_options (w # ws) rf =
     (if is_option w then Option.bind (rm_letters (tl w) rf) (rm_options ws)
      else Some (rf, w # ws))"

fun rm_files :: "nat \<Rightarrow> 's kernel \<Rightarrow> bool \<Rightarrow> bool \<Rightarrow> string list \<Rightarrow> nat \<Rightarrow> 's \<Rightarrow> (nat \<times> 's) option" where
  "rm_files k os recursive force [] status s = Some (status, s)"
| "rm_files k os recursive force (f # fs) status s =
     (case remove_path k os recursive force f s of
        None \<Rightarrow> None
      | Some (ret, s) \<Rightarrow>
          rm_files k os recursive force fs
            (if ret < 0 \<and> \<not> (force \<and> ret = - ENOENT) then 1 else status) s)"

definition rm_main :: "nat \<Rightarrow> 's kernel \<Rightarrow> string list \<Rightarrow> 's \<Rightarrow> (nat \<times> 's) option" where
  "rm_main k os args s =
     (case rm_options args (False, False) of
        None \<Rightarrow> Some (1, s)
      | Some ((recursive, force), paths) \<Rightarrow>
          if paths = [] then Some (1, s) else rm_files k os recursive force paths 0 s)"

subsection \<open>Where the destination is\<close>

text \<open>
  \<open>lands\<close> says where a source with base name \<open>base\<close> goes: into a directory that exists, under its own
  base name, or to a new name; \<open>room\<close> is the length the path can have.
\<close>

definition lands :: "'s kernel \<Rightarrow> 's fsview \<Rightarrow> 's \<Rightarrow> string \<Rightarrow> string \<Rightarrow> string list \<Rightarrow> nat \<Rightarrow> bool" where
  "lands os v s src dst to room \<longleftrightarrow> okp os dst \<and>
     (if view v s (place v dst) = None then in_dir (view v s) (place v dst) \<and> to = place v dst \<and> room = length dst
      else type_of (the (view v s (place v dst))) = Directory \<and>
        (\<exists>base. copy_basename (MAXPATH os) src = Inr base \<and> plain base \<and>
           length dst + length base + 2 \<le> MAXPATH os \<and>
           to = place v dst @ [base] \<and> room = length dst + length base + 1))"

lemma resolve_lands:
  assumes "posix os v" "lands os v s src dst to room"
  shows "\<exists>t s'. resolve_target os (MAXPATH os) src dst False s = (Inr t, s') \<and> place v t = to \<and>
    okp os t \<and> length t \<le> room \<and> in_dir (view v s) to \<and>
    view v s' = view v s \<and> fds v s' = fds v s"
proof (cases "view v s (place v dst)")
  case None
  with assms(2) have d: "okp os dst" "in_dir (view v s) (place v dst)" "to = place v dst" "room = length dst"
    by (auto simp: lands_def)
  obtain st s1 where "sys_lstat os dst s = (- ENOENT, st, s1)" "view v s1 = view v s" "fds v s1 = fds v s"
    using lstat_none [OF assms(1) d(1) None d(2)] by metis
  with d show ?thesis by (auto simp: resolve_target_def okp_def)
next
  case (Some nd)
  with assms(2) obtain base where d: "okp os dst" "type_of nd = Directory"
    "copy_basename (MAXPATH os) src = Inr base" "plain base" "length dst + length base + 2 \<le> MAXPATH os"
    "to = place v dst @ [base]" "room = length dst + length base + 1"
    by (auto simp: lands_def)
  obtain ret st s1 where s1: "sys_lstat os dst s = (ret, st, s1)" "0 \<le> ret" "st_type st = type_of nd"
    "view v s1 = view v s" "fds v s1 = fds v s"
    using lstat_some [OF assms(1) d(1) Some] by metis
  have "dst \<noteq> []" using d(1) by (simp add: okp_def)
  then obtain q where "join_path (MAXPATH os) dst base = Inr q" "okp os q"
    "length q \<le> length dst + length base + 1" "place v q = place v dst @ [base]"
    using join_place [OF assms(1) _ d(4,5)] by metis
  moreover have "in_dir (view v s) (place v dst @ [base])"
    using Some d(2) by (cases nd) (auto simp: in_dir_def)
  ultimately show ?thesis
    using s1 d by (auto simp: resolve_target_def)
qed

definition copyable :: "'s kernel \<Rightarrow> 's fsview \<Rightarrow> 's \<Rightarrow> string \<Rightarrow> string list \<Rightarrow> nat \<Rightarrow> bool" where
  "copyable os v s src to room \<longleftrightarrow>
     okp os src \<and> tree_ok (view v s) (place v src) \<and> links_fit os (view v s) (place v src) \<and>
     fits os (view v s) (place v src) src \<and> free_at (view v s) (place v src) to \<and>
     (\<forall>r. view v s (place v src @ r) \<noteq> None \<longrightarrow> room + name_bytes r < MAXPATH os)"

definition removable :: "'s kernel \<Rightarrow> 's fsview \<Rightarrow> 's \<Rightarrow> string \<Rightarrow> bool" where
  "removable os v s path \<longleftrightarrow>
     okp os path \<and> tree_ok (view v s) (place v path) \<and> place v path \<noteq> [] \<and>
     fits os (view v s) (place v path) path \<and>
     (\<exists>b. copy_basename (MAXPATH os) path = Inr b \<and> \<not> is_dot_or_dotdot b)"


subsection \<open>What the programs do to the tree\<close>

lemma copyable_copies:
  assumes "posix os v" "copyable os v s src to room" "place v t = to" "okp os t" "length t \<le> room"
    "in_dir (view v s) to" "weight (view v s) (place v src) + 3 \<le> k"
  shows "\<exists>s'. copy_path k os True src t s = Some (0, s') \<and> fds v s' = fds v s \<and>
    view v s' = graft (view v s) (place v src) to"
proof -
  have "fits os (view v s) (place v src) t"
    using assms(2,5) unfolding copyable_def fits_def by (meson add_le_mono1 le_less_trans)
  then show ?thesis
    using copy_path_tree [OF assms(1), of src t s k] assms by (simp add: copyable_def)
qed

lemma copyable_same:
  "view v s' = view v s \<Longrightarrow> copyable os v s' src to room = copyable os v s src to room"
  by (simp add: copyable_def)

lemma removable_same: "view v s' = view v s \<Longrightarrow> removable os v s' p = removable os v s p"
  by (simp add: removable_def)

lemma removable_removes:
  assumes "posix os v" "removable os v s path" "2 * card (sub_places (view v s) (place v path)) + 5 \<le> k"
  shows "\<exists>s'. remove_path k os True force path s = Some (0, s') \<and> fds v s' = fds v s \<and>
    view v s' = prune (view v s) (place v path)"
  using remove_path_tree [OF assms(1)] assms(2,3) unfolding removable_def by blast

text \<open>A move across devices: the copy, then the removal of the source.\<close>

lemma graft_source:
  assumes "tree_ok V a" "free_at V a b"
  shows "graft V a b (a @ r) = V (a @ r)"
  using prefix_below [OF assms] by (simp add: graft_def)

lemma move_across:
  assumes p: "posix os v" and c: "copyable os v s src to room" "removable os v s src"
    and t: "place v t = to" "okp os t" "length t \<le> room" "in_dir (view v s) to"
    and dev: "\<And>s. \<exists>s'. sys_rename os src t s = (- EXDEV, s') \<and> view v s' = view v s \<and> fds v s' = fds v s"
    and k: "2 * weight (view v s) (place v src) + 5 \<le> k"
  shows "\<exists>s'. move_path k os src t s = Some (0, s') \<and> fds v s' = fds v s \<and>
    view v s' = prune (graft (view v s) (place v src) to) (place v src)"
proof -
  let ?V = "view v s" and ?a = "place v src"
  have ok: "okp os src" "tree_ok ?V ?a" "free_at ?V ?a to"
    using c(1) by (simp_all add: copyable_def)
  obtain nd where nd: "?V ?a = Some nd" using ok(2) by (auto simp: tree_ok_def)
  obtain s1 where s1: "sys_rename os src t s = (- EXDEV, s1)" "view v s1 = ?V" "fds v s1 = fds v s"
    using dev by blast
  obtain ret st s2 where s2: "sys_lstat os src s1 = (ret, st, s2)" "0 \<le> ret" "st_type st = type_of nd"
    "view v s2 = ?V" "fds v s2 = fds v s"
    using lstat_some [OF p ok(1), of s1 nd] nd s1(2,3) by metis
  have "copyable os v s2 src to room" "weight (view v s2) ?a + 3 \<le> k"
    using c(1) copyable_same [OF s2(4)] k s2(4) by simp_all
  then obtain s3 where s3: "copy_path k os True src t s2 = Some (0, s3)" "fds v s3 = fds v s2"
    "view v s3 = graft ?V ?a to"
    using copyable_copies [OF p _ t(1-3), of s2] t(4) s2(4) by auto
  have keep: "view v s3 (?a @ r) = ?V (?a @ r)" for r
    using graft_source [OF ok(2,3)] s3(3) by simp
  note same = same_below [of "view v s3" ?a ?V, OF keep]
  have fits3: "fits os (view v s3) ?a src = fits os ?V ?a src"
    by (rule same_below) (rule keep)
  have rem: "removable os v s3 src"
    using c(2) same(2) fits3 by (simp add: removable_def)
  have k3: "2 * card (sub_places (view v s3) ?a) + 5 \<le> k"
    using k same(1) card_le_weight [of ?V ?a] by simp
  show ?thesis
  proof (cases "type_of nd = Directory")
    case True
    obtain s4 where "remove_path k os True False src s3 = Some (0, s4)" "fds v s4 = fds v s3"
      "view v s4 = prune (view v s3) ?a"
      using removable_removes [OF p rem k3] by blast
    with s1 s2 s3 True show ?thesis by (auto simp: move_path_def)
  next
    case False
    have nd3: "view v s3 ?a = Some nd" using keep [of "[]"] nd by simp
    have none: "children (view v s3) ?a = {}"
      using leaf_no_child [of "view v s3", OF _ nd3 False] ok(2) same(2) by (auto simp: children_def)
    obtain s4 where s4: "sys_unlink os src s3 = (0, s4)" "view v s4 = (view v s3)(?a := None)"
      "fds v s4 = fds v s3"
      using unlink_leaf [OF p ok(1) nd3 _ none] c(2) by (auto simp: removable_def)
    with s1 s2 s3 False prune_leaf [OF _ none] ok(2) same(2) show ?thesis
      by (auto simp: move_path_def)
  qed
qed


subsection \<open>A file system to run the programs on\<close>

definition home :: ram where
  "home = \<lparr>nodes = [([], Dir 493), ([''a''], Dir 448), ([''a'', ''x''], File 384 ''hello world''),
     ([''a'', ''l''], Link ''x''), ([''a'', ''d''], Dir 493), ([''b''], Dir 493)], table = []\<rparr>"

lemma ram_below:
  "list_all (\<lambda>(k, nd). prefix cs k \<longrightarrow> P (drop (length cs) k)) (nodes s) \<Longrightarrow> ram_view s (cs @ r) \<noteq> None \<Longrightarrow> P r"
proof -
  assume l: "list_all (\<lambda>(k, nd). prefix cs k \<longrightarrow> P (drop (length cs) k)) (nodes s)" "ram_view s (cs @ r) \<noteq> None"
  then obtain nd where "(cs @ r, nd) \<in> set (nodes s)"
    by (auto simp: ram_view_def dest: map_of_SomeD)
  with l(1) show ?thesis by (fastforce simp: list_all_iff)
qed

lemma ram_tree:
  assumes "map_of (nodes s) cs \<noteq> None"
    "list_all (\<lambda>(k, nd). prefix cs k \<longrightarrow> drop (length cs) k = [] \<or> plain (last (drop (length cs) k)) \<and>
       (case map_of (nodes s) (cs @ butlast (drop (length cs) k)) of Some (Dir m) \<Rightarrow> True | _ \<Rightarrow> False)) (nodes s)"
  shows "tree_ok (ram_view s) cs"
  unfolding tree_ok_def
proof (intro conjI allI impI)
  have "sub_places (ram_view s) cs \<subseteq> (\<lambda>x. drop (length cs) (fst x)) ` set (nodes s)"
    by (force simp: sub_places_def ram_view_def dest: map_of_SomeD)
  then show "finite (sub_places (ram_view s) cs)"
    by (rule finite_subset) simp
  show "ram_view s cs \<noteq> None" using assms(1) by (simp add: ram_view_def)
  fix r n assume "ram_view s (cs @ r @ [n]) \<noteq> None"
  with ram_below [OF assms(2)] have *: "plain n"
    "case map_of (nodes s) (cs @ r) of Some (Dir m) \<Rightarrow> True | _ \<Rightarrow> False"
    by fastforce+
  then show "plain n" "\<exists>m. ram_view s (cs @ r) = Some (Dir m)"
    by (auto simp: ram_view_def split: option.splits node.splits)
qed

lemma home_a: "comps ''a'' = [''a'']" "comps ''b'' = [''b'']"
  by (simp_all add: comps_def)

lemma home_tree: "tree_ok (ram_view home) [''a'']"
  by (rule ram_tree) (simp_all add: home_def plain_def is_dot_or_dotdot_def)

lemma home_fits: "ram_view home ([''a''] @ r) \<noteq> None \<Longrightarrow> room + 2 < 512 \<Longrightarrow> room + name_bytes r < 512"
  by (rule ram_below [of "[''a'']" "\<lambda>r. room + name_bytes r < 512" home])
    (simp_all add: home_def name_bytes_def)

lemma home_below: "sub_places (ram_view home) [''a''] = {[], [''x''], [''l''], [''d'']}"
  by (auto simp: sub_places_def ram_view_def home_def split: if_splits)

lemma home_weight: "weight (ram_view home) [''a''] = 15"
  by (simp add: weight_def home_below) (simp add: ram_view_def home_def)

lemma home_base: "copy_basename 512 ''a'' = Inr ''a''"
  by (simp add: copy_basename_def)

lemma home_lands: "lands ramfs ramview home ''a'' ''b'' [''b'', ''a''] 3"
  by (auto simp: lands_def okp_def home_a home_base ramfs_def ramview_def)
    (simp_all add: home_def ram_view_def plain_def is_dot_or_dotdot_def)

lemma home_copyable: "copyable ramfs ramview home ''a'' [''b'', ''a''] 3"
proof -
  have "links_fit ramfs (ram_view home) [''a'']"
    by (auto simp: links_fit_def ramfs_def ram_view_def home_def split: if_splits)
  moreover have "fits ramfs (ram_view home) [''a''] ''a''"
    using home_fits [where room = 1] by (simp add: fits_def ramfs_def)
  moreover have "free_at (ram_view home) [''a''] [''b'', ''a'']"
    by (auto simp: free_at_def ram_view_def home_def)
  ultimately show ?thesis
    using home_tree home_fits [where room = 3]
    by (simp add: copyable_def okp_def ramview_def home_a) (simp add: ramfs_def)
qed

lemma home_removable: "removable ramfs ramview home ''a''"
proof -
  have "fits ramfs (ram_view home) [''a''] ''a''"
    using home_fits [where room = 1] by (simp add: fits_def ramfs_def)
  then show ?thesis
    using home_tree home_base
    by (simp add: removable_def okp_def ramview_def home_a) (simp add: ramfs_def is_dot_or_dotdot_def)
qed

lemma home_views: "place ramview = comps" "view ramview home = ram_view home"
  by (simp_all add: ramview_def)

subsection \<open>The programs\<close>

text \<open>
  C2. \<open>cp -r src dst\<close> ends with status 0 on a kernel that keeps its promises, and leaves at the
  destination (under the base name when it is a directory) the tree at the source, with the same
  contents, permissions and links; nothing else changes and no descriptor stays open.
\<close>

theorem cp_copies_tree:
  assumes "posix os v" "lands os v s src dst to room" "copyable os v s src to room" "\<not> is_option src"
    "\<not> is_option dst" "weight (view v s) (place v src) + 3 \<le> k"
  shows "\<exists>s'. cp_main k os [''-r'', src, dst] s = Some (0, s') \<and> fds v s' = fds v s \<and>
    view v s' = graft (view v s) (place v src) to"
proof -
  obtain t s1 where t: "resolve_target os (MAXPATH os) src dst False s = (Inr t, s1)" "place v t = to"
    "okp os t" "length t \<le> room" "in_dir (view v s) to" "view v s1 = view v s" "fds v s1 = fds v s"
    using resolve_lands [OF assms(1,2)] by blast
  obtain s2 where "copy_path k os True src t s1 = Some (0, s2)" "fds v s2 = fds v s"
    "view v s2 = graft (view v s) (place v src) to"
    using copyable_copies [OF assms(1) _ t(2-4), of s1 src k] assms(3,6) t(5-7) copyable_same [OF t(6)] by auto
  moreover have "cp_main k os [''-r'', src, dst] s = cp_files k os True False dst [src] 0 s"
    using assms(4,5) by (simp add: cp_main_def is_option_def)
  ultimately show ?thesis using t(1) by simp
qed

lemma cp_copies_tree_witness:
  "\<exists>s'. cp_main 20 ramfs [''-r'', ''a'', ''b''] home = Some (0, s') \<and>
     ram_view s' [''b'', ''a'', ''x''] = Some (File 384 ''hello world'') \<and>
     ram_view s' [''b'', ''a''] = Some (Dir 448) \<and> ram_view s' [''a'', ''l''] = Some (Link ''x'')"
proof -
  have o: "\<not> is_option ''a''" "\<not> is_option ''b''" by (simp_all add: is_option_def)
  have k: "weight (view ramview home) (place ramview ''a'') + 3 \<le> 20"
    by (simp add: home_views home_a home_weight)
  obtain s' where "cp_main 20 ramfs [''-r'', ''a'', ''b''] home = Some (0, s')"
    "view ramview s' = graft (view ramview home) (place ramview ''a'') [''b'', ''a'']"
    using cp_copies_tree [OF posix_ramfs home_lands home_copyable o k] by blast
  then show ?thesis
    by (auto simp: ramview_def graft_def home_a) (simp_all add: ram_view_def home_def)
qed

text \<open>
  C23. \<open>mv\<close> across devices, where \<open>rename\<close> fails with \<open>EXDEV\<close>, ends with status 0 and has the effect
  of a rename: the whole tree is at the destination and gone from the source, and nothing else
  changes.
\<close>

theorem mv_moves_tree:
  assumes "posix os v" "lands os v s src dst to room" "copyable os v s src to room" "removable os v s src"
    "\<And>t s. \<exists>s'. sys_rename os src t s = (- EXDEV, s') \<and> view v s' = view v s \<and> fds v s' = fds v s"
    "2 * weight (view v s) (place v src) + 5 \<le> k"
  shows "\<exists>s'. mv_main k os [src, dst] s = Some (0, s') \<and> fds v s' = fds v s \<and>
    view v s' = prune (graft (view v s) (place v src) to) (place v src)"
proof -
  obtain t s1 where t: "resolve_target os (MAXPATH os) src dst False s = (Inr t, s1)" "place v t = to"
    "okp os t" "length t \<le> room" "in_dir (view v s) to" "view v s1 = view v s" "fds v s1 = fds v s"
    using resolve_lands [OF assms(1,2)] by blast
  obtain s2 where "move_path k os src t s1 = Some (0, s2)" "fds v s2 = fds v s"
    "view v s2 = prune (graft (view v s) (place v src) to) (place v src)"
    using move_across [OF assms(1) _ _ t(2-4) _ assms(5), of s1 k] assms(3,4,6) t(5-7)
      copyable_same [OF t(6)] removable_same [OF t(6)] by auto
  with t(1) show ?thesis by (simp add: mv_main_def)
qed

lemma mv_moves_tree_witness:
  "\<exists>s'. mv_main 40 ramfs [''a'', ''b''] home = Some (0, s') \<and>
     ram_view s' [''b'', ''a'', ''x''] = Some (File 384 ''hello world'') \<and> ram_view s' [''a''] = None"
proof -
  have k: "2 * weight (view ramview home) (place ramview ''a'') + 5 \<le> 40"
    by (simp add: home_views home_a home_weight)
  have dev: "\<exists>s'. sys_rename ramfs ''a'' t s = (- EXDEV, s') \<and> view ramview s' = view ramview s \<and>
      fds ramview s' = fds ramview s" for t s
    by (simp add: ramfs_def)
  obtain s' where "mv_main 40 ramfs [''a'', ''b''] home = Some (0, s')"
    "view ramview s' = prune (graft (view ramview home) (place ramview ''a'') [''b'', ''a'']) (place ramview ''a'')"
    using mv_moves_tree [OF posix_ramfs home_lands home_copyable home_removable dev k] by blast
  then show ?thesis
    by (auto simp: ramview_def prune_def graft_def home_a) (simp_all add: ram_view_def home_def)
qed

text \<open>
  C9. \<open>rm -r path\<close> ends with status 0 on a kernel that keeps its promises: exactly the tree at the
  path is gone, every descriptor is closed, and the loop that reopens the directory after each
  child ends.
\<close>

theorem rm_removes_tree:
  assumes "posix os v" "removable os v s path" "\<not> is_option path"
    "2 * card (sub_places (view v s) (place v path)) + 5 \<le> k"
  shows "\<exists>s'. rm_main k os [''-r'', path] s = Some (0, s') \<and> fds v s' = fds v s \<and>
    view v s' = prune (view v s) (place v path)"
proof -
  obtain s' where "remove_path k os True False path s = Some (0, s')" "fds v s' = fds v s"
    "view v s' = prune (view v s) (place v path)"
    using removable_removes [OF assms(1,2,4)] by blast
  moreover have "rm_main k os [''-r'', path] s = rm_files k os True False [path] 0 s"
    using assms(3) by (simp add: rm_main_def is_option_def)
  ultimately show ?thesis by simp
qed

lemma rm_removes_tree_witness:
  "\<exists>s'. rm_main 13 ramfs [''-r'', ''a''] home = Some (0, s') \<and> ram_view s' [''a'', ''x''] = None \<and>
     ram_view s' [''b''] = Some (Dir 493)"
proof -
  have o: "\<not> is_option ''a''" by (simp add: is_option_def)
  have k: "2 * card (sub_places (view ramview home) (place ramview ''a'')) + 5 \<le> 13"
    by (simp add: home_views home_a home_below)
  obtain s' where "rm_main 13 ramfs [''-r'', ''a''] home = Some (0, s')"
    "view ramview s' = prune (view ramview home) (place ramview ''a'')"
    using rm_removes_tree [OF posix_ramfs home_removable o k] by blast
  then show ?thesis
    by (auto simp: ramview_def prune_def home_a) (simp_all add: ram_view_def home_def)
qed

end
