(* ===== verification/FsDescriptors.thy ===== *)
theory FsDescriptors
  imports FileTools
begin

section \<open>No descriptor is lost\<close>

text \<open>
  Whatever the kernel answers, errors in the middle of a tree included, \<open>fsutil.c\<close> leaves exactly the
  descriptors open that were open before.  All that is assumed is that \<open>open\<close> gives a new
  descriptor or a negative number, that \<open>close\<close> closes, and that the other calls open and close
  nothing.
\<close>

definition fd_laws :: "'s kernel \<Rightarrow> ('s \<Rightarrow> int set) \<Rightarrow> bool" where
  "fd_laws os opened \<longleftrightarrow>
     (\<forall>p f s. case sys_open os p f s of (fd, s') \<Rightarrow>
        if fd < 0 then opened s' = opened s else fd \<notin> opened s \<and> opened s' = insert fd (opened s)) \<and>
     (\<forall>fd s. opened (sys_close os fd s) = opened s - {fd}) \<and>
     (\<forall>p s. opened (snd (snd (sys_lstat os p s))) = opened s) \<and>
     (\<forall>p s. opened (snd (snd (sys_stat os p s))) = opened s) \<and>
     (\<forall>fd n s. opened (snd (snd (sys_read os fd n s))) = opened s) \<and>
     (\<forall>fd bs s. opened (snd (sys_write os fd bs s)) = opened s) \<and>
     (\<forall>fd n s. opened (snd (snd (sys_getdents os fd n s))) = opened s) \<and>
     (\<forall>p n s. opened (snd (snd (sys_readlink os p n s))) = opened s) \<and>
     (\<forall>t p s. opened (snd (sys_symlink os t p s)) = opened s) \<and>
     (\<forall>p s. opened (snd (sys_unlink os p s)) = opened s) \<and>
     (\<forall>p s. opened (snd (sys_mkdir os p s)) = opened s) \<and>
     (\<forall>p q s. opened (snd (sys_rename os p q s)) = opened s) \<and>
     (\<forall>p m s. opened (snd (sys_fchmodat os p m s)) = opened s)"

lemma fd_keep:
  assumes "fd_laws os opened"
  shows "sys_lstat os p s = (r, st, s') \<Longrightarrow> opened s' = opened s"
    "sys_stat os p s = (r, st, s') \<Longrightarrow> opened s' = opened s"
    "sys_read os fd n s = (r, bs, s') \<Longrightarrow> opened s' = opened s"
    "sys_write os fd bs s = (r, s') \<Longrightarrow> opened s' = opened s"
    "sys_getdents os fd n s = (r, buf, s') \<Longrightarrow> opened s' = opened s"
    "sys_readlink os p n s = (r, bs, s') \<Longrightarrow> opened s' = opened s"
    "sys_symlink os t p s = (r, s') \<Longrightarrow> opened s' = opened s"
    "sys_unlink os p s = (r, s') \<Longrightarrow> opened s' = opened s"
    "sys_mkdir os p s = (r, s') \<Longrightarrow> opened s' = opened s"
    "sys_rename os p q s = (r, s') \<Longrightarrow> opened s' = opened s"
    "sys_fchmodat os p m s = (r, s') \<Longrightarrow> opened s' = opened s"
  using assms unfolding fd_laws_def by (metis snd_conv)+

lemma fd_open:
  assumes "fd_laws os opened" "sys_open os p f s = (fd, s')"
  shows "fd < 0 \<Longrightarrow> opened s' = opened s" "\<not> fd < 0 \<Longrightarrow> fd \<notin> opened s" "\<not> fd < 0 \<Longrightarrow> opened s' = insert fd (opened s)"
proof -
  note assms(1) [unfolded fd_laws_def, THEN conjunct1, THEN spec, of p, THEN spec, of f, THEN spec, of s]
  with assms(2) show "fd < 0 \<Longrightarrow> opened s' = opened s" "\<not> fd < 0 \<Longrightarrow> fd \<notin> opened s"
    "\<not> fd < 0 \<Longrightarrow> opened s' = insert fd (opened s)"
    by simp_all
qed

lemma fd_close: "fd_laws os opened \<Longrightarrow> opened (sys_close os fd s) = opened s - {fd}"
  by (simp add: fd_laws_def)

lemma write_all_fds: "fd_laws os opened \<Longrightarrow> write_all os fd bs s = (r, s') \<Longrightarrow> opened s' = opened s"
proof (induction os fd bs s rule: write_all.induct)
  case (2 os dfd c cs s)
  obtain w s1 where w: "sys_write os dfd (c # cs) s = (w, s1)" by fastforce
  show ?case
    using "2.IH" [OF w [symmetric]] "2.prems" fd_keep(4) [OF "2.prems"(1) w] w by (auto split: if_splits)
qed simp

lemma copy_data_fds: "fd_laws os opened \<Longrightarrow> copy_data k os a b s = Some (r, s') \<Longrightarrow> opened s' = opened s"
proof (induction k arbitrary: s)
  case (Suc k)
  obtain n buf s1 where n: "sys_read os a FSUTIL_COPY_BUFSZ s = (n, buf, s1)" by (metis prod_cases3)
  obtain r2 s2 where w: "write_all os b (take (nat n) buf) s1 = (r2, s2)" by fastforce
  show ?case
    using Suc.IH [of s2] Suc.prems n w fd_keep(3) [OF Suc.prems(1) n] write_all_fds [OF Suc.prems(1) w]
    by (auto split: if_splits)
qed simp

lemma copy_regular_fds:
  assumes l: "fd_laws os opened" and c: "copy_regular k os src dst st s = Some (r, s')"
  shows "opened s' = opened s"
proof -
  obtain ret dst_st s1 where 1: "sys_lstat os dst s = (ret, dst_st, s1)" by (metis prod_cases3)
  obtain sfd s2 where 2: "sys_open os src O_RDONLY s1 = (sfd, s2)" by fastforce
  obtain dfd s3 where 3: "sys_open os dst O_WRONLY_CREAT_TRUNC s2 = (dfd, s3)" by fastforce
  note f1 = fd_keep(1) [OF l 1] and f2 = fd_open [OF l 2] and f3 = fd_open [OF l 3]
  show ?thesis
  proof (cases "(0 \<le> ret \<and> same_file st dst_st) \<or> sfd < 0 \<or> dfd < 0")
    case True
    with c 1 2 3 f1 f2 f3 show ?thesis
      by (auto simp: copy_regular_def fd_close [OF l] split: if_splits)
  next
    case False
    then obtain r4 s4 where 4: "copy_data k os sfd dfd s3 = Some (r4, s4)"
      using c 1 2 3 by (auto simp: copy_regular_def split: option.splits if_splits)
    obtain r5 s5 where 5: "sys_fchmodat os dst (st_perm st) (sys_close os sfd (sys_close os dfd s4)) = (r5, s5)"
      by fastforce
    have "opened (sys_close os sfd (sys_close os dfd s4)) = opened s"
      using copy_data_fds [OF l 4] f1 f2 f3 False by (auto simp: fd_close [OF l])
    moreover from this fd_keep(11) [OF l 5] have "opened s5 = opened s" by simp
    ultimately show ?thesis
      using c 1 2 3 4 5 False by (auto simp: copy_regular_def Let_def split: if_splits)
  qed
qed

lemma copy_symlink_fds:
  assumes l: "fd_laws os opened" and c: "copy_symlink os src dst s = (r, s')"
  shows "opened s' = opened s"
proof -
  obtain ret buf s1 where 1: "sys_readlink os src (MAXPATH os - 1) s = (ret, buf, s1)" by (metis prod_cases3)
  obtain ret2 st s2 where 2: "sys_lstat os dst s1 = (ret2, st, s2)" by (metis prod_cases3)
  obtain ret3 s3 where 3: "sys_unlink os dst s2 = (ret3, s3)" by fastforce
  note f = fd_keep(6) [OF l 1] fd_keep(1) [OF l 2] fd_keep(8) [OF l 3] fd_keep(7) [OF l]
  show ?thesis
    using c 1 2 3 f by (auto simp: copy_symlink_def Let_def split: if_splits)
qed

lemma copy_entries_fds:
  assumes cp: "\<And>p q s r s'. cp p q s = Some (r, s') \<Longrightarrow> opened s' = opened s"
  shows "copy_entries os cp src dst buf nread pos ret s = Some (r, s') \<Longrightarrow> opened s' = opened s"
proof (induction "nread - pos" arbitrary: pos ret s rule: less_induct)
  case less
  let ?de = "buf pos"
  have IH: "opened s' = opened s1" if "pos < nread" "d_reclen ?de \<noteq> 0"
    "copy_entries os cp src dst buf nread (pos + d_reclen ?de) ret1 s1 = Some (r, s')" for ret1 s1
    by (rule less.hyps [OF _ that(3)]) (use that(1,2) in simp)
  show ?case
    using less.prems cp IH unfolding copy_entries.simps [of os cp src dst buf nread pos]
    by (fastforce split: if_splits sum.splits option.splits)
qed

lemma copy_dents_fds:
  assumes l: "fd_laws os opened" and cp: "\<And>p q s r s'. cp p q s = Some (r, s') \<Longrightarrow> opened s' = opened s"
  shows "copy_dents k os cp src dst fd ret s = Some (r, s') \<Longrightarrow> opened s' = opened s"
proof (induction k arbitrary: ret s)
  case (Suc k)
  obtain n buf s1 where n: "sys_getdents os fd FSUTIL_DIRENT_BUFSZ s = (n, buf, s1)" by (metis prod_cases3)
  show ?case
    using Suc.prems n fd_keep(5) [OF l n] Suc.IH copy_entries_fds [where cp = cp and opened = opened, OF cp]
    by (fastforce split: if_splits option.splits)
qed simp

lemma copy_directory_fds:
  assumes l: "fd_laws os opened" and cp: "\<And>p q s r s'. cp p q s = Some (r, s') \<Longrightarrow> opened s' = opened s"
    and c: "copy_directory k os cp src dst st recursive s = Some (r, s')"
  shows "opened s' = opened s"
proof -
  obtain ret dst_st s1 where 1: "sys_lstat os dst s = (ret, dst_st, s1)" by (metis prod_cases3)
  define m where "m = (if 0 \<le> ret then
      (if st_type dst_st \<noteq> Directory then (- ENOTDIR, s1)
       else if same_file st dst_st then (- EINVAL, s1) else (0, s1))
    else if ret = - ENOENT then sys_mkdir os dst s1 else (ret, s1))"
  obtain ret2 s2 where 2: "m = (ret2, s2)" by fastforce
  have f2: "opened s2 = opened s"
    using 2 fd_keep(1) [OF l 1] fd_keep(9) [OF l, of dst s1] by (auto simp: m_def split: if_splits)
  obtain fd s3 where 3: "sys_open os src O_RDONLY s2 = (fd, s3)" by fastforce
  note f3 = fd_open [OF l 3]
  show ?thesis
  proof (cases "recursive \<and> \<not> ret2 < 0 \<and> \<not> fd < 0")
    case True
    then obtain r4 s4 where 4: "copy_dents k os cp src dst fd 0 s3 = Some (r4, s4)"
      using c 1 2 3 by (auto simp: copy_directory_def m_def [symmetric] split: option.splits if_splits)
    from copy_dents_fds [where cp = cp and opened = opened, OF l cp 4] have "opened s4 = opened s3" .
    with c 1 2 3 4 True f2 f3 show ?thesis
      by (auto simp: copy_directory_def m_def [symmetric] fd_close [OF l])
  next
    case False
    with c 1 2 3 f2 f3 show ?thesis
      by (auto simp: copy_directory_def m_def [symmetric] fd_keep(1) [OF l 1] split: if_splits)
  qed
qed


lemma copy_path_fds:
  assumes l: "fd_laws os opened"
  shows "copy_path k os recursive src dst s = Some (r, s') \<Longrightarrow> opened s' = opened s"
proof (induction k arbitrary: src dst s r s')
  case (Suc k)
  obtain ret st s1 where 1: "sys_lstat os src s = (ret, st, s1)" by (metis prod_cases3)
  obtain ret2 s2 where 2: "copy_symlink os src dst s1 = (ret2, s2)" by fastforce
  obtain ret3 st3 s3 where 3: "sys_stat os src s2 = (ret3, st3, s3)" by (metis prod_cases3)
  note f = fd_keep(1) [OF l 1] copy_symlink_fds [OF l 2] fd_keep(2) [OF l 3]
  have dir: "opened t' = opened t"
    if "copy_directory k os (copy_path k os recursive) src dst st' recursive t = Some (r', t')" for st' t r' t'
    by (rule copy_directory_fds [OF l _ that]) (rule Suc.IH)
  note reg = copy_regular_fds [OF l]
  show ?case
  proof (cases "0 \<le> ret")
    case False
    with Suc.prems 1 f show ?thesis by simp
  next
    case True
    show ?thesis
    proof (cases "st_type st")
      case Regular
      with True Suc.prems 1 have "copy_regular k os src dst st s1 = Some (r, s')" by simp
      with reg f show ?thesis by metis
    next
      case Directory
      with True Suc.prems 1 obtain r4 s4
        where 4: "copy_directory k os (copy_path k os recursive) src dst st recursive s1 = Some (r4, s4)"
        by (auto split: option.splits)
      obtain r5 s5 where 5: "sys_fchmodat os dst (st_perm st) s4 = (r5, s5)" by fastforce
      show ?thesis
        using True Directory Suc.prems 1 4 5 f dir [OF 4] fd_keep(11) [OF l 5] by (auto split: if_splits)
    next
      case Symlink
      with True Suc.prems 1 2 3 have "(r, s') = (0, s2) \<or> (r, s') = (ret2, s3) \<or>
          copy_regular k os src dst st3 s3 = Some (r, s') \<or>
          copy_directory k os (copy_path k os recursive) src dst st3 recursive s3 = Some (r, s')"
        by (auto split: if_splits)
      with f reg dir show ?thesis by (metis prod.inject)
    next
      case Special
      with True Suc.prems 1 f show ?thesis by simp
    qed
  qed
qed simp

lemma find_child_fds:
  assumes l: "fd_laws os opened"
  shows "find_child k os path fd s = Some (r, s') \<Longrightarrow> opened s' = opened s"
proof (induction k arbitrary: s)
  case (Suc k)
  obtain n buf s1 where n: "sys_getdents os fd FSUTIL_DIRENT_BUFSZ s = (n, buf, s1)" by (metis prod_cases3)
  show ?case
    using Suc.prems n fd_keep(5) [OF l n] Suc.IH by (fastforce split: if_splits option.splits sum.splits)
qed simp

lemma remove_fds:
  assumes l: "fd_laws os opened"
  shows "(remove_path k os recursive force path s = Some (r, s') \<longrightarrow> opened s' = opened s) \<and>
    (remove_children k os force path s = Some (r, s') \<longrightarrow> opened s' = opened s)"
proof (induction k arbitrary: recursive path s r s')
  case (Suc k)
  obtain ret st s1 where 1: "sys_lstat os path s = (ret, st, s1)" by (metis prod_cases3)
  obtain ret2 s2 where 2: "sys_unlink os path s1 = (ret2, s2)" by fastforce
  have "opened s' = opened s" if "remove_path (Suc k) os recursive force path s = Some (r, s')"
    using that 1 2 fd_keep(1) [OF l 1] fd_keep(8) [OF l 2] Suc.IH
    by (auto split: if_splits sum.splits)
  moreover
  obtain fd t1 where o: "sys_open os path O_RDONLY s = (fd, t1)" by fastforce
  have "opened s' = opened s" if c: "remove_children (Suc k) os force path s = Some (r, s')"
  proof (cases "fd < 0")
    case True
    with c o fd_open [OF l o] show ?thesis by simp
  next
    case False
    with c o obtain x t2 where f: "find_child k os path fd t1 = Some (x, t2)"
      by (auto split: option.splits)
    let ?t = "sys_close os fd t2"
    have t: "opened ?t = opened s"
      using fd_open [OF l o] find_child_fds [OF l f] False by (simp add: fd_close [OF l])
    obtain r3 t3 where u: "sys_unlink os path ?t = (r3, t3)" by fastforce
    from c o f False u have "s' = ?t \<or> s' = t3 \<or>
        (\<exists>child r4 t4. remove_path k os True force child ?t = Some (r4, t4) \<and>
           (s' = t4 \<or> remove_children k os force path t4 = Some (r, s')))"
      by (fastforce simp: Let_def split: sum.splits option.splits if_splits)
    with t fd_keep(8) [OF l u] Suc.IH show ?thesis by metis
  qed
  ultimately show ?case by blast
qed simp

lemma move_path_fds:
  assumes l: "fd_laws os opened" and m: "move_path k os src dst s = Some (r, s')"
  shows "opened s' = opened s"
proof -
  obtain ret s1 where 1: "sys_rename os src dst s = (ret, s1)" by fastforce
  obtain ret2 st s2 where 2: "sys_lstat os src s1 = (ret2, st, s2)" by (metis prod_cases3)
  note f = fd_keep(10) [OF l 1] fd_keep(1) [OF l 2]
  from m 1 2 have "s' = s1 \<or> s' = s2 \<or> (\<exists>r3 s3. copy_path k os True src dst s2 = Some (r3, s3) \<and>
      (s' = s3 \<or> remove_path k os True False src s3 = Some (r, s') \<or> sys_unlink os src s3 = (r, s')))"
    by (auto simp: move_path_def split: if_splits option.splits)
  then show ?thesis
    using f copy_path_fds [OF l] remove_fds [OF l] fd_keep(8) [OF l] by metis
qed

definition ram_opened :: "ram \<Rightarrow> int set" where
  "ram_opened s = {fd. ram_fds s fd \<noteq> None}"

lemma ram_opened_upd:
  "ram_fds s fd = Some g \<Longrightarrow> ram_opened (s\<lparr>table := (table s)[nat fd := Some f]\<rparr>) = ram_opened s"
  using ram_fds_set [of s fd "Some f"] by (auto simp: ram_opened_def)

lemma ram_opened_close: "ram_opened (ram_close fd s) = ram_opened s - {fd}"
proof (cases "0 \<le> fd \<and> nat fd < length (table s)")
  case True
  then have "nat x = nat fd \<longleftrightarrow> x = fd" if "0 \<le> x" for x
    using that by (simp add: eq_nat_nat_iff)
  with True show ?thesis
    by (auto simp: ram_opened_def ram_close_def ram_fds_def nth_list_update split: if_splits)
qed (auto simp: ram_opened_def ram_close_def ram_fds_def not_less list_update_beyond)

lemma ram_opened_nodes: "ram_opened (put cs nd s) = ram_opened s" "ram_opened (s\<lparr>nodes := ns\<rparr>) = ram_opened s"
  by (simp_all add: ram_opened_def)

lemma push_law:
  assumes "ram_opened t = ram_opened s"
  shows "case push f t of (fd, s') \<Rightarrow>
    if fd < 0 then ram_opened s' = ram_opened s else fd \<notin> ram_opened s \<and> ram_opened s' = insert fd (ram_opened s)"
proof -
  have "ram_opened (t\<lparr>table := table t @ [Some f]\<rparr>) = insert (int (length (table t))) (ram_opened t)"
    "int (length (table t)) \<notin> ram_opened t"
    by (auto simp: ram_opened_def ram_fds_push ram_fds_new)
  with assms show ?thesis by (simp add: push_def)
qed

lemma ram_fd_laws: "fd_laws ramfs ram_opened"
  unfolding fd_laws_def
proof (intro conjI allI)
  fix p f s
  show "case sys_open ramfs p f s of (fd, s') \<Rightarrow>
      if fd < 0 then ram_opened s' = ram_opened s
      else fd \<notin> ram_opened s \<and> ram_opened s' = insert fd (ram_opened s)"
    by (cases f) (simp_all add: ramfs_def push_law ram_opened_nodes split: option.split node.split split del: if_split)
qed (auto simp: ramfs_def ram_opened_close ram_opened_nodes ram_opened_upd ram_lstat_def ram_read_def
    ram_write_def ram_getdents_def Let_def split: option.splits ofile.splits node.splits list.splits)



end
