(* ===== verification/Copying.thy ===== *)
theory Copying
  imports Io Printf
begin

section \<open>dd.c and cat.c\<close>

text \<open>
  Copying one descriptor to another.  Opening, reading, writing and seeking are parameters, in a
  record; what is printed on the error descriptor is the list of the calls of \<open>fprintf\<close>, a format
  with its arguments each.
\<close>

abbreviation NL :: char where "NL \<equiv> CHR 0x0a"

type_synonym message = "string \<times> arg list"

record ('s, 'o) device =
  open_in :: "string \<Rightarrow> 's option"
  open_out :: "string \<Rightarrow> 'o option"
  std_in :: 's
  std_out :: 'o
  rd :: "'s reader"
  wr :: "'o \<Rightarrow> string \<Rightarrow> int \<times> 'o"
  seek_in :: "int \<Rightarrow> 's \<Rightarrow> 's option"
  seek_out :: "int \<Rightarrow> 'o \<Rightarrow> 'o option"

text \<open>What the documentation promises of regular files: reads fill the buffer, writes take all.\<close>

definition fills :: "'s reader \<Rightarrow> ('s \<Rightarrow> string) \<Rightarrow> bool" where
  "fills r contents \<longleftrightarrow>
     (\<forall>s n. \<exists>s'. r s n = Some (take n (contents s), s') \<and> contents s' = drop n (contents s))"

definition takes_all :: "('o \<Rightarrow> string \<Rightarrow> int \<times> 'o) \<Rightarrow> ('o \<Rightarrow> string) \<Rightarrow> bool" where
  "takes_all w written \<longleftrightarrow> (\<forall>t b. \<exists>t'. w t b = (int (length b), t') \<and> written t' = written t @ b)"

text \<open>Seeking in a file that has just been opened.\<close>

definition seeks :: "(int \<Rightarrow> 's \<Rightarrow> 's option) \<Rightarrow> ('s \<Rightarrow> string) \<Rightarrow> 's \<Rightarrow> bool" where
  "seeks sk contents s \<longleftrightarrow>
     (\<forall>k. 0 \<le> k \<longrightarrow> (\<exists>s'. sk k s = Some s' \<and> contents s' = drop (nat k) (contents s)))"

lemma seek_start:
  assumes "0 \<le> k" "seeks sk contents s"
  shows "\<exists>s'. (if 0 < k then sk k s else Some s) = Some s' \<and> contents s' = drop (nat k) (contents s)"
  using assms by (cases "0 < k") (simp_all add: seeks_def)

lemma fillsE:
  assumes "fills r contents"
  obtains s' where "r s n = Some (take n (contents s), s')" "contents s' = drop n (contents s)"
  using assms unfolding fills_def by meson

lemma takesE:
  assumes "takes_all w written"
  obtains t' where "w t b = (int (length b), t')" "written t' = written t @ b"
  using assms unfolding takes_all_def by meson

subsection \<open>Numbers\<close>

text \<open>\<open>int64\<close> wraps; the result is read as signed.  \<open>K\<close> and \<open>M\<close> alone are zero.\<close>

definition num_step :: "64 word \<Rightarrow> char \<Rightarrow> 64 word" where
  "num_step n c = n * 10 + word_of_int (sc c - 48)"

interpretation num_digits: digit_reader num_step uint "2 ^ 64"
proof
  fix c and n :: "64 word" assume "is_digit c"
  then have "num_step n c = word_of_int (10 * uint n + int (digit c))"
    by (simp add: num_step_def int_digit)
  then have "uint (num_step n c) = (10 * uint n + int (digit c)) mod 2 ^ 64"
    by (simp only: uint_word_of_int) simp
  then show "uint (num_step n c) mod 2 ^ 64 = (10 * uint n + int (digit c)) mod 2 ^ 64"
    by simp
qed

definition suffix_scale :: "64 word \<Rightarrow> string \<Rightarrow> 64 word \<times> string" where
  "suffix_scale n s =
     (case s of
        [] \<Rightarrow> (n, [])
      | c # r \<Rightarrow>
          if c = CHR ''K'' \<or> c = CHR ''k'' then (n * 1024, r)
          else if c = CHR ''M'' \<or> c = CHR ''m'' then (n * (1024 * 1024), r)
          else (n, s))"

definition parse_num :: "string \<Rightarrow> int" where
  "parse_num s =
     (if s = [] then - 1
      else case suffix_scale (foldl num_step 0 (takeWhile is_digit s)) (dropWhile is_digit s) of
        (n, rest) \<Rightarrow> if rest \<noteq> [] then - 1 else sint n)"

lemma sint_small: "0 \<le> v \<Longrightarrow> v < 2 ^ 63 \<Longrightarrow> uint w = v \<Longrightarrow> sint w = v" for w :: "64 word"
  by (simp add: sint64)

text \<open>Digits with a suffix, when the product fits.\<close>

lemma parse_num_value:
  assumes "\<forall>c\<in>set ds. is_digit c" "ds \<noteq> []" "(t, k) \<in> {([], 1), (''K'', 1024), (''k'', 1024), (''M'', 1048576), (''m'', 1048576)}"
    "dec_value ds * k < 2 ^ 63"
  shows "parse_num (ds @ t) = int (dec_value ds * k)"
proof -
  let ?w = "foldl num_step 0 ds"
  have k: "1 \<le> k" using assms(3) by auto
  have "dec_value ds * 1 \<le> dec_value ds * k" using k by (rule mult_le_mono2)
  then have small: "dec_value ds < 2 ^ 63" using assms(4) by linarith
  have "uint ?w mod 2 ^ 64 = int (dec_value ds) mod 2 ^ 64"
    by (rule num_digits.fold_digits_zero) (use assms(1) in simp_all)
  then have u: "uint ?w = int (dec_value ds)"
    using uint_bounds64 [of ?w] small by simp
  then have w: "?w = word_of_int (int (dec_value ds))"
    by (metis word_of_int_uint)
  have nd: "\<forall>c\<in>set t. \<not> is_digit c" using assms(3) by (auto simp: is_digit_uc uc_def)
  have split: "takeWhile is_digit (ds @ t) = ds" "dropWhile is_digit (ds @ t) = t"
    using assms(1) nd by (cases t; auto simp: takeWhile_append dropWhile_append)+
  define m where "m = dec_value ds * k"
  have m: "m < 2 ^ 63" using assms(4) by (simp add: m_def)
  have mult: "?w * of_nat k = word_of_int (int m)"
    by (simp add: w m_def)
  have "uint (word_of_int (int m) :: 64 word) = int m"
    by (subst uint_word_of_int) (rule mod_pos_pos_trivial, use m in simp_all)
  then have val: "sint (word_of_int (int m) :: 64 word) = int m"
    using m by (intro sint_small) simp_all
  have "suffix_scale ?w t = (word_of_int (int m), [])"
    using assms(3) mult by (auto simp: suffix_scale_def)
  with split assms(2) val show ?thesis
    by (simp add: parse_num_def m_def [symmetric])
qed

subsection \<open>dd\<close>

definition DEFAULT_BS :: int where "DEFAULT_BS = 512"
definition MAX_BS :: int where "MAX_BS = 65536"

fun match_opt :: "string \<Rightarrow> string \<Rightarrow> string option" where
  "match_opt arg [] = (case arg of CHR ''='' # val \<Rightarrow> Some val | _ \<Rightarrow> None)"
| "match_opt arg (p # prefix) =
     (case arg of [] \<Rightarrow> None | a # arg \<Rightarrow> if a \<noteq> p then None else match_opt arg prefix)"

record dd_options =
  infile :: "string option"
  outfile :: "string option"
  bs :: int
  count :: int
  skip :: int
  seek :: int

definition dd_defaults :: dd_options where
  "dd_defaults = \<lparr>infile = None, outfile = None, bs = DEFAULT_BS, count = - 1, skip = 0, seek = 0\<rparr>"

definition dd_option :: "string \<Rightarrow> dd_options \<Rightarrow> message list + dd_options" where
  "dd_option arg opts =
     (case match_opt arg ''if'' of
        Some val \<Rightarrow> Inr (opts\<lparr>infile := Some val\<rparr>)
      | None \<Rightarrow>
     (case match_opt arg ''of'' of
        Some val \<Rightarrow> Inr (opts\<lparr>outfile := Some val\<rparr>)
      | None \<Rightarrow>
     (case match_opt arg ''bs'' of
        Some val \<Rightarrow>
          (let n = parse_num val
           in if n \<le> 0 \<or> MAX_BS < n
              then Inl [(''dd: invalid bs=%s (max %d)'' @ [NL], [VStr (Some val), VInt (word_of_int MAX_BS)])]
              else Inr (opts\<lparr>bs := n\<rparr>))
      | None \<Rightarrow>
     (case match_opt arg ''count'' of
        Some val \<Rightarrow>
          (let n = parse_num val
           in if n < 0 then Inl [(''dd: invalid count=%s'' @ [NL], [VStr (Some val)])]
              else Inr (opts\<lparr>count := n\<rparr>))
      | None \<Rightarrow>
     (case match_opt arg ''skip'' of
        Some val \<Rightarrow>
          (let n = parse_num val
           in if n < 0 then Inl [(''dd: invalid skip=%s'' @ [NL], [VStr (Some val)])]
              else Inr (opts\<lparr>skip := n\<rparr>))
      | None \<Rightarrow>
     (case match_opt arg ''seek'' of
        Some val \<Rightarrow>
          (let n = parse_num val
           in if n < 0 then Inl [(''dd: invalid seek=%s'' @ [NL], [VStr (Some val)])]
              else Inr (opts\<lparr>seek := n\<rparr>))
      | None \<Rightarrow>
          Inl [(''dd: unknown option: %s'' @ [NL], [VStr (Some arg)]),
               (''Usage: dd [if=FILE] [of=FILE] [bs=N] [count=N] [skip=N] [seek=N]'' @ [NL], [])]))))))"

fun dd_args :: "string list \<Rightarrow> dd_options \<Rightarrow> message list + dd_options" where
  "dd_args [] opts = Inr opts"
| "dd_args (a # as) opts = (case dd_option a opts of Inl e \<Rightarrow> Inl e | Inr opts \<Rightarrow> dd_args as opts)"

text \<open>Reading and discarding, when the input cannot seek.\<close>

fun skip_blocks :: "'s reader \<Rightarrow> nat \<Rightarrow> nat \<Rightarrow> 's \<Rightarrow> 's" where
  "skip_blocks r n 0 s = s"
| "skip_blocks r n (Suc i) s =
     (case r s n of
        None \<Rightarrow> s
      | Some (b, s) \<Rightarrow> if b = [] then s else skip_blocks r n i s)"

record ('s, 'o) copy_state =
  ifd :: 's
  ofd :: 'o
  blocks_in :: nat
  partial_in :: nat
  blocks_out :: nat
  partial_out :: nat
  ndone :: nat

text \<open>The left value is an error: the output so far and the message.\<close>

partial_function (option) dd_loop ::
    "('s, 'o) device \<Rightarrow> dd_options \<Rightarrow> ('s, 'o) copy_state \<Rightarrow> ('o \<times> message list + ('s, 'o) copy_state) option" where
  "dd_loop dev opts st =
     (if count opts < 0 \<or> int (ndone st) < count opts then
        (case rd dev (ifd st) (nat (bs opts)) of
           None \<Rightarrow> Some (Inl (ofd st, [(''dd: read error'' @ [NL], [])]))
         | Some (buf, s) \<Rightarrow>
             if buf = [] then Some (Inr (st\<lparr>ifd := s\<rparr>))
             else
               (let n = int (length buf);
                    st = st\<lparr>ifd := s\<rparr>;
                    st = (if n = bs opts then st\<lparr>blocks_in := blocks_in st + 1\<rparr>
                          else st\<lparr>partial_in := partial_in st + 1\<rparr>)
                in case wr dev (ofd st) buf of (w, t) \<Rightarrow>
                  if w \<noteq> n then Some (Inl (t, [(''dd: write error'' @ [NL], [])]))
                  else
                    (let st = st\<lparr>ofd := t\<rparr>;
                         st = (if w = bs opts then st\<lparr>blocks_out := blocks_out st + 1\<rparr>
                               else st\<lparr>partial_out := partial_out st + 1\<rparr>)
                     in dd_loop dev opts (st\<lparr>ndone := ndone st + 1\<rparr>))))
      else Some (Inr st))"

definition wrap64 :: "int \<Rightarrow> int" where
  "wrap64 i = sint (word_of_int i :: 64 word)"

lemma wrap64_small: "0 \<le> i \<Longrightarrow> i < 2 ^ 63 \<Longrightarrow> wrap64 i = i"
  unfolding wrap64_def by (rule sint_small) (simp_all add: uint_word_of_int)

definition records_msg :: "string \<Rightarrow> nat \<Rightarrow> nat \<Rightarrow> message" where
  "records_msg dir full part =
     (''%d+%d records '' @ dir @ [NL], [VInt (word_of_nat full), VInt (word_of_nat part)])"

text \<open>The exit status, the output descriptor at the end, the messages.\<close>

definition dd_run :: "('s, 'o) device \<Rightarrow> dd_options \<Rightarrow> (nat \<times> 'o \<times> message list) option" where
  "dd_run dev opts =
     (case (case infile opts of None \<Rightarrow> Some (std_in dev) | Some f \<Rightarrow> open_in dev f) of
        None \<Rightarrow> Some (1, std_out dev, [(''dd: cannot open %s'' @ [NL], [VStr (infile opts)])])
      | Some s \<Rightarrow>
     (case (case outfile opts of None \<Rightarrow> Some (std_out dev) | Some f \<Rightarrow> open_out dev f) of
        None \<Rightarrow> Some (1, std_out dev, [(''dd: cannot open %s'' @ [NL], [VStr (outfile opts)])])
      | Some t \<Rightarrow>
     (let s = (if 0 < skip opts then
                 (case seek_in dev (wrap64 (skip opts * bs opts)) s of
                    Some s \<Rightarrow> s
                  | None \<Rightarrow> skip_blocks (rd dev) (nat (bs opts)) (nat (skip opts)) s)
               else s)
      in case (if 0 < seek opts then seek_out dev (wrap64 (seek opts * bs opts)) t else Some t) of
        None \<Rightarrow> Some (1, t, [(''dd: cannot seek on output'' @ [NL], [])])
      | Some t \<Rightarrow>
          (case dd_loop dev opts
              \<lparr>ifd = s, ofd = t, blocks_in = 0, partial_in = 0, blocks_out = 0, partial_out = 0, ndone = 0\<rparr> of
             None \<Rightarrow> None
           | Some (Inl (t, msgs)) \<Rightarrow> Some (1, t, msgs)
           | Some (Inr st) \<Rightarrow>
               Some (0, ofd st, [records_msg ''in'' (blocks_in st) (partial_in st),
                                 records_msg ''out'' (blocks_out st) (partial_out st)])))))"

definition dd_main :: "('s, 'o) device \<Rightarrow> string list \<Rightarrow> (nat \<times> 'o \<times> message list) option" where
  "dd_main dev args =
     (case dd_args args dd_defaults of
        Inl msgs \<Rightarrow> Some (1, std_out dev, msgs)
      | Inr opts \<Rightarrow> dd_run dev opts)"


text \<open>What a run over a regular file copies, and how many full and partial blocks it counts.\<close>

definition to_copy :: "dd_options \<Rightarrow> nat \<Rightarrow> string \<Rightarrow> string" where
  "to_copy opts already c =
     (if count opts < 0 then c else take (nat (count opts - int already) * nat (bs opts)) c)"

definition short_blocks :: "nat \<Rightarrow> string \<Rightarrow> nat" where
  "short_blocks b c = (if length c mod b = 0 then 0 else 1)"

lemma to_copy_step:
  assumes "count opts < 0 \<or> int n < count opts"
  shows "to_copy opts n c = take (nat (bs opts)) c @ to_copy opts (Suc n) (drop (nat (bs opts)) c)"
proof (cases "count opts < 0")
  case False
  let ?b = "nat (bs opts)"
  have "nat (count opts - int n) = Suc (nat (count opts - int (Suc n)))"
    using assms False by simp
  then have "to_copy opts n c = take (?b + nat (count opts - int (Suc n)) * ?b) c"
    using False by (simp only: to_copy_def if_False mult_Suc)
  also have "\<dots> = take ?b c @ take (nat (count opts - int (Suc n)) * ?b) (drop ?b c)"
    by (rule take_add)
  finally show ?thesis using False by (simp add: to_copy_def)
qed (simp add: to_copy_def)

lemma blocks_step:
  assumes "0 < b" "c \<noteq> []" "drop b c = [] \<longrightarrow> d = []"
  shows "(if length (take b c) = b then 1 else 0) + length d div b = length (take b c @ d) div b"
    "(if length (take b c) = b then 0 else 1) + short_blocks b d = short_blocks b (take b c @ d)"
  using assms by (auto simp: short_blocks_def not_less min_def div_add_self1 split: if_splits)

lemma dd_loop_copies:
  assumes r: "fills (rd dev) contents" and w: "takes_all (wr dev) written" and b: "0 < bs opts"
  shows "\<exists>st'. dd_loop dev opts st = Some (Inr st') \<and>
    written (ofd st') = written (ofd st) @ to_copy opts (ndone st) (contents (ifd st)) \<and>
    blocks_in st' = blocks_in st + length (to_copy opts (ndone st) (contents (ifd st))) div nat (bs opts) \<and>
    partial_in st' = partial_in st + short_blocks (nat (bs opts)) (to_copy opts (ndone st) (contents (ifd st))) \<and>
    blocks_out st' = blocks_out st + length (to_copy opts (ndone st) (contents (ifd st))) div nat (bs opts) \<and>
    partial_out st' = partial_out st + short_blocks (nat (bs opts)) (to_copy opts (ndone st) (contents (ifd st)))"
proof (induction "length (contents (ifd st))" arbitrary: st rule: less_induct)
  case less
  let ?b = "nat (bs opts)" and ?c = "contents (ifd st)"
  show ?case
  proof (cases "count opts < 0 \<or> int (ndone st) < count opts")
    case False
    then show ?thesis by (simp add: dd_loop.simps [of dev opts st] to_copy_def short_blocks_def)
  next
    case more: True
    obtain s1 where s1: "rd dev (ifd st) ?b = Some (take ?b ?c, s1)" "contents s1 = drop ?b ?c"
      using fillsE [OF r] by metis
    show ?thesis
    proof (cases "?c = []")
      case True
      with more s1 show ?thesis
        by (simp add: dd_loop.simps [of dev opts st] to_copy_def short_blocks_def)
    next
      case False
      let ?buf = "take ?b ?c"
      have buf: "?buf \<noteq> []" using False b by simp
      obtain t1 where t1: "wr dev (ofd st) ?buf = (int (length ?buf), t1)" "written t1 = written (ofd st) @ ?buf"
        using takesE [OF w] by metis
      define full where "full = (if length ?buf = ?b then 1 else 0 :: nat)"
      define part where "part = (if length ?buf = ?b then 0 else 1 :: nat)"
      define st1 where "st1 = st\<lparr>ifd := s1, ofd := t1, blocks_in := blocks_in st + full, partial_in := partial_in st + part,
        blocks_out := blocks_out st + full, partial_out := partial_out st + part, ndone := ndone st + 1\<rparr>"
      have full: "int (length ?buf) = bs opts \<longleftrightarrow> length ?buf = ?b" using b by auto
      have step: "dd_loop dev opts st = dd_loop dev opts st1"
        unfolding dd_loop.simps [of dev opts st] using more s1(1) buf t1(1) full
        by (cases st) (simp add: Let_def st1_def full_def part_def del: length_take)
      have "length (contents (ifd st1)) < length ?c"
        using False b s1(2) by (simp add: st1_def)
      from less.hyps [OF this] obtain st2 where st2: "dd_loop dev opts st1 = Some (Inr st2)"
        "written (ofd st2) = written t1 @ to_copy opts (Suc (ndone st)) (drop ?b ?c)"
        "blocks_in st2 = blocks_in st + full + length (to_copy opts (Suc (ndone st)) (drop ?b ?c)) div ?b"
        "partial_in st2 = partial_in st + part + short_blocks ?b (to_copy opts (Suc (ndone st)) (drop ?b ?c))"
        "blocks_out st2 = blocks_out st + full + length (to_copy opts (Suc (ndone st)) (drop ?b ?c)) div ?b"
        "partial_out st2 = partial_out st + part + short_blocks ?b (to_copy opts (Suc (ndone st)) (drop ?b ?c))"
        by (auto simp: st1_def s1(2))
      have "drop ?b ?c = [] \<longrightarrow> to_copy opts (Suc (ndone st)) (drop ?b ?c) = []"
        by (simp add: to_copy_def)
      note bl = blocks_step [OF _ False this]
      have bpos: "0 < ?b" using b by simp
      show ?thesis
        unfolding to_copy_step [OF more, of ?c] bl [OF bpos, symmetric] step
        using st2 t1(2) by (auto simp: full_def part_def)
    qed
  qed
qed

text \<open>
  C17. \<open>dd\<close> on regular files writes exactly the bytes of the input from block \<open>skip\<close> on, \<open>count\<close>
  blocks of them when a count is given and all otherwise, behind the position it seeks to, and
  reports how many full and partial blocks it read and wrote.
\<close>

theorem dd_copies_range:
  assumes "dd_args args dd_defaults = Inr opts" "infile opts = Some f" "outfile opts = Some g"
    "open_in dev f = Some s" "open_out dev g = Some t" "0 < bs opts"
    and r: "fills (rd dev) contents" and w: "takes_all (wr dev) written"
    and skip: "0 \<le> skip opts" "skip opts * bs opts < 2 ^ 63"
      "seeks (seek_in dev) contents s"
    and seek: "if 0 < seek opts then seek_out dev (wrap64 (seek opts * bs opts)) t = Some t1 else t1 = t"
    and D: "D = to_copy opts 0 (drop (nat (skip opts * bs opts)) (contents s))"
  shows "\<exists>u. dd_main dev args = Some (0, u,
      [records_msg ''in'' (length D div nat (bs opts)) (short_blocks (nat (bs opts)) D),
       records_msg ''out'' (length D div nat (bs opts)) (short_blocks (nat (bs opts)) D)]) \<and>
    written u = written t1 @ D"
proof -
  have k: "0 \<le> skip opts * bs opts" using skip(1) assms(6) by simp
  have wrap: "wrap64 (skip opts * bs opts) = skip opts * bs opts"
    by (rule wrap64_small [OF k skip(2)])
  obtain s1 where s1: "(if 0 < skip opts then
        (case seek_in dev (wrap64 (skip opts * bs opts)) s of
           Some s \<Rightarrow> s | None \<Rightarrow> skip_blocks (rd dev) (nat (bs opts)) (nat (skip opts)) s)
      else s) = s1" "contents s1 = drop (nat (skip opts * bs opts)) (contents s)"
  proof (cases "0 < skip opts")
    case True
    obtain s2 where "seek_in dev (skip opts * bs opts) s = Some s2"
      "contents s2 = drop (nat (skip opts * bs opts)) (contents s)"
      using skip(3) k unfolding seeks_def by blast
    with that [of s2] True wrap show ?thesis by simp
  next
    case False
    then have "skip opts = 0" using skip(1) by simp
    with that [of s] show ?thesis by simp
  qed
  let ?st = "\<lparr>ifd = s1, ofd = t1, blocks_in = 0, partial_in = 0, blocks_out = 0, partial_out = 0, ndone = 0\<rparr>"
  obtain st where st: "dd_loop dev opts ?st = Some (Inr st)" "written (ofd st) = written t1 @ D"
    "blocks_in st = length D div nat (bs opts)" "partial_in st = short_blocks (nat (bs opts)) D"
    "blocks_out st = length D div nat (bs opts)" "partial_out st = short_blocks (nat (bs opts)) D"
    using dd_loop_copies [OF r w assms(6), of ?st] s1(2) D by auto
  have "(if 0 < seek opts then seek_out dev (wrap64 (seek opts * bs opts)) t else Some t) = Some t1"
    using seek by (simp split: if_splits)
  then have "dd_run dev opts = Some (0, ofd st,
      [records_msg ''in'' (blocks_in st) (partial_in st), records_msg ''out'' (blocks_out st) (partial_out st)])"
    unfolding dd_run_def using assms(2-5) s1(1) st(1) by (simp add: Let_def)
  with assms(1) st show ?thesis by (simp add: dd_main_def)
qed


definition memory :: "string \<Rightarrow> (string, string) device" where
  "memory input = \<lparr>open_in = (\<lambda>f. Some input), open_out = (\<lambda>f. Some []), std_in = [], std_out = [],
     rd = full_reads, wr = (\<lambda>t b. (int (length b), t @ b)),
     seek_in = (\<lambda>k s. Some (drop (nat k) s)), seek_out = (\<lambda>k t. Some t)\<rparr>"

lemma memory_fills: "fills (rd (memory i)) (\<lambda>s. s)"
  by (auto simp: fills_def memory_def full_reads_def)

lemma memory_takes: "takes_all (wr (memory i)) (\<lambda>t. t)"
  by (auto simp: takes_all_def memory_def)

lemma dd_copies_range_witness:
  "dd_main (memory ''abcdefghij'') [''if=in'', ''of=out'', ''bs=4'', ''skip=1'', ''count=2''] =
     Some (0, ''efghij'', [records_msg ''in'' 1 1, records_msg ''out'' 1 1])"
proof -
  let ?opts = "\<lparr>infile = Some ''in'', outfile = Some ''out'', bs = 4, count = 2, skip = 1, seek = 0\<rparr>"
  have num: "parse_num ''4'' = 4" "parse_num ''1'' = 1" "parse_num ''2'' = 2"
    using parse_num_value [of "''4''" "[]" 1] parse_num_value [of "''1''" "[]" 1] parse_num_value [of "''2''" "[]" 1]
    by (simp_all add: is_digit_uc uc_def digit_def sc_def)
  have args: "dd_args [''if=in'', ''of=out'', ''bs=4'', ''skip=1'', ''count=2''] dd_defaults = Inr ?opts"
    by (simp add: dd_defaults_def dd_option_def num MAX_BS_def)
  have D: "''efghij'' = to_copy ?opts 0 (drop (nat (skip ?opts * bs ?opts)) ''abcdefghij'')"
    by (simp add: to_copy_def)
  let ?dev = "memory ''abcdefghij''"
  have dev: "open_in ?dev ''in'' = Some ''abcdefghij''" "open_out ?dev ''out'' = Some []"
    by (simp_all add: memory_def)
  have skip: "seeks (seek_in ?dev) (\<lambda>s. s) ''abcdefghij''"
    by (simp add: memory_def seeks_def)
  have opts: "infile ?opts = Some ''in''" "outfile ?opts = Some ''out''" "0 < bs ?opts" "0 \<le> skip ?opts"
    "skip ?opts * bs ?opts < 2 ^ 63"
    "if 0 < seek ?opts then seek_out ?dev (wrap64 (seek ?opts * bs ?opts)) [] = Some [] else [] = ([] :: string)"
    by simp_all
  show ?thesis
    using dd_copies_range [where contents = "\<lambda>s. s" and written = "\<lambda>t. t",
        OF args opts(1,2) dev opts(3) memory_fills memory_takes opts(4,5) skip opts(6) D]
    by (simp add: short_blocks_def)
qed

subsection \<open>cat\<close>

text \<open>\<open>write\<close> must take the whole piece.  The left value is an exit with its message.\<close>

partial_function (option) cat :: "('s, 'o) device \<Rightarrow> 's \<Rightarrow> 'o \<Rightarrow> ('o \<times> message + 'o) option" where
  "cat dev fd out =
     (case rd dev fd 512 of
        None \<Rightarrow> Some (Inl (out, ''cat: read error'' @ [NL], []))
      | Some (buf, fd) \<Rightarrow>
          if buf = [] then Some (Inr out)
          else (case wr dev out buf of (w, out) \<Rightarrow>
            if w \<noteq> int (length buf) then Some (Inl (out, ''cat: write error'' @ [NL], []))
            else cat dev fd out))"

fun cat_files :: "('s, 'o) device \<Rightarrow> string list \<Rightarrow> 'o \<Rightarrow> (nat \<times> 'o \<times> message list) option" where
  "cat_files dev [] out = Some (0, out, [])"
| "cat_files dev (f # fs) out =
     (case open_in dev f of
        None \<Rightarrow> Some (1, out, [(''cat: cannot open %s'' @ [NL], [VStr (Some f)])])
      | Some fd \<Rightarrow>
          (case cat dev fd out of
             None \<Rightarrow> None
           | Some (Inl (out, msg)) \<Rightarrow> Some (1, out, [msg])
           | Some (Inr out) \<Rightarrow> cat_files dev fs out))"

definition cat_main :: "('s, 'o) device \<Rightarrow> string list \<Rightarrow> (nat \<times> 'o \<times> message list) option" where
  "cat_main dev args =
     (if args = [] then
        (case cat dev (std_in dev) (std_out dev) of
           None \<Rightarrow> None
         | Some (Inl (out, msg)) \<Rightarrow> Some (1, out, [msg])
         | Some (Inr out) \<Rightarrow> Some (0, out, []))
      else cat_files dev args (std_out dev))"

lemma cat_copies:
  assumes r: "reads (rd dev) contents" and w: "takes_all (wr dev) written"
  shows "\<exists>t. cat dev fd out = Some (Inr t) \<and> written t = written out @ contents fd"
proof (induction "length (contents fd)" arbitrary: fd out rule: less_induct)
  case less
  obtain buf fd1 where b: "rd dev fd 512 = Some (buf, fd1)" "contents fd = buf @ contents fd1"
    "buf = [] \<longrightarrow> (512 :: nat) = 0 \<or> contents fd = []"
    using readsE [OF r] by metis
  show ?case
  proof (cases "buf = []")
    case True
    with b show ?thesis by (simp add: cat.simps [of dev fd out])
  next
    case False
    obtain t1 where t1: "wr dev out buf = (int (length buf), t1)" "written t1 = written out @ buf"
      using takesE [OF w] by metis
    have "length (contents fd1) < length (contents fd)" using b(2) False by simp
    from less [OF this] obtain t where "cat dev fd1 t1 = Some (Inr t)" "written t = written t1 @ contents fd1"
      by blast
    with b t1 False show ?thesis by (simp add: cat.simps [of dev fd out])
  qed
qed

text \<open>
  \<open>cat\<close> writes the contents of its files one after the other, however short the reads are; without
  arguments those of the standard input.
\<close>

theorem cat_concatenates:
  assumes "reads (rd dev) contents" "takes_all (wr dev) written" "list_all (\<lambda>f. open_in dev f \<noteq> None) args"
  shows "\<exists>t. cat_main dev args = Some (0, t, []) \<and>
    written t = written (std_out dev) @
      (if args = [] then contents (std_in dev) else concat (map (\<lambda>f. contents (the (open_in dev f))) args))"
proof -
  have files: "\<exists>t. cat_files dev fs out = Some (0, t, []) \<and>
      written t = written out @ concat (map (\<lambda>f. contents (the (open_in dev f))) fs)"
    if "list_all (\<lambda>f. open_in dev f \<noteq> None) fs" for fs out
    using that
  proof (induction fs arbitrary: out)
    case (Cons f fs)
    then obtain fd where fd: "open_in dev f = Some fd" by auto
    obtain t1 where t1: "cat dev fd out = Some (Inr t1)" "written t1 = written out @ contents fd"
      using cat_copies [OF assms(1,2)] by blast
    obtain t where "cat_files dev fs t1 = Some (0, t, [])"
      "written t = written t1 @ concat (map (\<lambda>f. contents (the (open_in dev f))) fs)"
      using Cons.IH [of t1] Cons.prems by auto
    with fd t1 show ?case by simp
  qed simp
  show ?thesis
  proof (cases "args = []")
    case True
    with cat_copies [OF assms(1,2), of "std_in dev" "std_out dev"] show ?thesis
      by (auto simp: cat_main_def)
  next
    case False
    with files [OF assms(3), of "std_out dev"] show ?thesis by (auto simp: cat_main_def)
  qed
qed

theorem cat_concatenates_witness:
  "\<exists>t. cat_main (memory ''abc'') [''x'', ''y''] = Some (0, t, []) \<and> t = [] @ ''abcabc''"
  using cat_concatenates [of "memory ''abc''" "\<lambda>s. s" "\<lambda>t. t" "[''x'', ''y'']"] memory_takes [of "''abc''"] reads_full
  by (simp add: memory_def)

end
