(* ===== verification/Dh.thy ===== *)
theory Dh
  imports Copying
begin

section \<open>dh.c\<close>

text \<open>
  The hex dump.  A line is built in an array of 256 bytes; \<^const>\<open>None\<close> is a write behind its end.
  Messages are the calls of \<open>fprintf\<close> on the error descriptor, as in \<open>Copying\<close>.
\<close>

subsection \<open>Numbers and options\<close>

definition is_hexdigit :: "char \<Rightarrow> bool" where
  "is_hexdigit c \<longleftrightarrow> is_digit c \<or> 97 \<le> sc c \<and> sc c \<le> 102 \<or> 65 \<le> sc c \<and> sc c \<le> 70"

definition hex_step :: "64 word \<Rightarrow> char \<Rightarrow> 64 word" where
  "hex_step n c = n * 16 + word_of_int
     (if is_digit c then sc c - 48 else if 97 \<le> sc c \<and> sc c \<le> 102 then sc c - 97 + 10 else sc c - 65 + 10)"

definition dh_parse_num :: "string \<Rightarrow> int" where
  "dh_parse_num s =
     (if s = [] then - 1
      else
        (let hex = (take 2 s = ''0x'' \<or> take 2 s = ''0X'');
             n = (if hex then foldl hex_step 0 (takeWhile is_hexdigit (drop 2 s))
                  else foldl num_step 0 (takeWhile is_digit s));
             rest = (if hex then dropWhile is_hexdigit (drop 2 s) else dropWhile is_digit s)
         in case suffix_scale n rest of (n, rest) \<Rightarrow> if rest \<noteq> [] then - 1 else sint n))"

definition DEFAULT_LENGTH :: int where "DEFAULT_LENGTH = 256"
definition DEFAULT_WIDTH :: int where "DEFAULT_WIDTH = 16"
definition MAX_WIDTH :: int where "MAX_WIDTH = 64"
definition READ_BUF :: nat where "READ_BUF = 4096"

record dh_options =
  dh_offset :: int
  dh_length :: int
  dh_width :: int
  dh_file :: "string option"

definition dh_defaults :: dh_options where
  "dh_defaults = \<lparr>dh_offset = 0, dh_length = DEFAULT_LENGTH, dh_width = DEFAULT_WIDTH, dh_file = None\<rparr>"

definition dh_usage :: message where
  "dh_usage = (''Usage: dh [-s offset] [-n length] [-w width] <file>'' @ [NL], [])"

fun dh_args :: "string list \<Rightarrow> dh_options \<Rightarrow> message list + dh_options" where
  "dh_args [] opts = Inr opts"
| "dh_args (w # ws) opts =
     (if w = ''-s'' then
        (case ws of
           [] \<Rightarrow> Inl [(''dh: -s requires an argument'' @ [NL], [])]
         | v # ws' \<Rightarrow>
             (if dh_parse_num v < 0 then Inl [(''dh: invalid offset: %s'' @ [NL], [VStr (Some v)])]
              else dh_args ws' (opts\<lparr>dh_offset := dh_parse_num v\<rparr>)))
      else if w = ''-n'' then
        (case ws of
           [] \<Rightarrow> Inl [(''dh: -n requires an argument'' @ [NL], [])]
         | v # ws' \<Rightarrow>
             (if dh_parse_num v \<le> 0 then Inl [(''dh: invalid length: %s'' @ [NL], [VStr (Some v)])]
              else dh_args ws' (opts\<lparr>dh_length := dh_parse_num v\<rparr>)))
      else if w = ''-w'' then
        (case ws of
           [] \<Rightarrow> Inl [(''dh: -w requires an argument'' @ [NL], [])]
         | v # ws' \<Rightarrow>
             (if atoi v < 1 \<or> MAX_WIDTH < atoi v
              then Inl [(''dh: width must be 1-%d'' @ [NL], [VInt (word_of_int MAX_WIDTH)])]
              else dh_args ws' (opts\<lparr>dh_width := atoi v\<rparr>)))
      else if deref w = CHR ''-'' then
        Inl [(''dh: unknown option: %s'' @ [NL], [VStr (Some w)]), dh_usage]
      else dh_args ws (opts\<lparr>dh_file := Some w\<rparr>))"

subsection \<open>Lines\<close>

definition hex_chars :: string where
  "hex_chars = ''0123456789abcdef''"

definition LINE_SIZE :: nat where "LINE_SIZE = 256"

text \<open>\<open>line[pos++] = c\<close> for each byte in turn.\<close>

fun store_line :: "string \<Rightarrow> string \<Rightarrow> string option" where
  "store_line line [] = Some line"
| "store_line line (c # cs) = (if length line < LINE_SIZE then store_line (line @ [c]) cs else None)"

definition addr_chars :: "64 word \<Rightarrow> string" where
  "addr_chars addr = map (\<lambda>i. hex_chars ! unat (drop_bit i addr AND 0xf)) [28, 24, 20, 16, 12, 8, 4, 0]"

definition hex_cell :: "string \<Rightarrow> nat \<Rightarrow> nat \<Rightarrow> string" where
  "hex_cell data width i =
     (if i = width div 2 then '' '' else []) @
     (if i < length data
      then [hex_chars ! nat (uc (data ! i) div 16), hex_chars ! nat (uc (data ! i) mod 16)]
      else ''  '') @ '' ''"

definition ascii_char :: "char \<Rightarrow> char" where
  "ascii_char c = (if 0x20 \<le> uc c \<and> uc c \<le> 0x7e then c else CHR ''.'')"

definition hexline :: "64 word \<Rightarrow> string \<Rightarrow> nat \<Rightarrow> string option" where
  "hexline addr data width = do {
     line \<leftarrow> store_line [] (addr_chars addr);
     line \<leftarrow> store_line line '': '';
     line \<leftarrow> store_line line (concat (map (hex_cell data width) [0..<width]));
     line \<leftarrow> store_line line ''|'';
     line \<leftarrow> store_line line (map ascii_char data);
     line \<leftarrow> store_line line (replicate (width - length data) (CHR '' ''));
     store_line line [CHR ''|'', NL]
   }"

text \<open>The lines of one piece and the next address; the options make the width at least 1.\<close>

function dh_lines :: "64 word \<Rightarrow> string \<Rightarrow> nat \<Rightarrow> (string list \<times> 64 word) option" where
  "dh_lines addr data width =
     (if data = [] \<or> width = 0 then Some ([], addr)
      else do {
        line \<leftarrow> hexline addr (take width data) width;
        (ls, addr) \<leftarrow> dh_lines (addr + of_nat (length (take width data))) (drop width data) width;
        Some (line # ls, addr)
      })"
  by pat_completeness auto
termination
  by (relation "measure (\<lambda>(addr, data, width). length data)") auto

declare dh_lines.simps [simp del]

text \<open>The exit status and message when reading fails, and the lines written.\<close>

function dh_loop :: "'s reader \<Rightarrow> 's \<Rightarrow> int \<Rightarrow> 64 word \<Rightarrow> nat \<Rightarrow> (nat \<times> string list \<times> message list) option" where
  "dh_loop r fd remaining addr width =
     (if remaining \<le> 0 then Some (0, [], [])
      else
        (case r fd (min READ_BUF (nat remaining)) of
           None \<Rightarrow> Some (1, [], [(''dh: read error'' @ [NL], [])])
         | Some (buf, fd) \<Rightarrow>
             if buf = [] then Some (0, [], [])
             else do {
               (ls, addr) \<leftarrow> dh_lines addr buf width;
               (st, ls2, msgs) \<leftarrow> dh_loop r fd (remaining - int (length buf)) addr width;
               Some (st, ls @ ls2, msgs)
             }))"
  by pat_completeness auto
termination
  by (relation "measure (\<lambda>(r, fd, remaining, addr, width). nat remaining)") auto

declare dh_loop.simps [simp del]

definition dh_main :: "('s, 'o) device \<Rightarrow> string list \<Rightarrow> (nat \<times> string list \<times> message list) option" where
  "dh_main dev args =
     (case dh_args args dh_defaults of
        Inl msgs \<Rightarrow> Some (1, [], msgs)
      | Inr opts \<Rightarrow>
     (case dh_file opts of
        None \<Rightarrow> Some (1, [], [dh_usage,
          (''  -s offset   byte offset (supports 0x hex, K/M suffix)'' @ [NL], []),
          (''  -n length   bytes to dump (default: %d)'' @ [NL], [VInt (word_of_int DEFAULT_LENGTH)]),
          (''  -w width    bytes per line (default: %d)'' @ [NL], [VInt (word_of_int DEFAULT_WIDTH)])])
      | Some f \<Rightarrow>
     (case open_in dev f of
        None \<Rightarrow> Some (1, [], [(''dh: cannot open %s'' @ [NL], [VStr (Some f)])])
      | Some fd \<Rightarrow>
     (case (if 0 < dh_offset opts then seek_in dev (dh_offset opts) fd else Some fd) of
        None \<Rightarrow> Some (1, [], [(''dh: cannot seek to offset'' @ [NL], [])])
      | Some fd \<Rightarrow> dh_loop (rd dev) fd (dh_length opts) (word_of_int (dh_offset opts)) (nat (dh_width opts))))))"

subsection \<open>How long a line is\<close>

lemma store_line_all:
  "store_line line cs = (if cs = [] \<or> length line + length cs \<le> LINE_SIZE then Some (line @ cs) else None)"
  by (induction line cs rule: store_line.induct) auto

lemma length_cells:
  "length (concat (map (hex_cell data width) [0..<i])) = 3 * i + (if width div 2 < i then 1 else 0)"
  by (induction i) (auto simp: hex_cell_def)

definition line_chars :: "64 word \<Rightarrow> string \<Rightarrow> nat \<Rightarrow> string" where
  "line_chars addr data width =
     addr_chars addr @ '': '' @ concat (map (hex_cell data width) [0..<width]) @ ''|'' @ map ascii_char data @
     replicate (width - length data) (CHR '' '') @ [CHR ''|'', NL]"

lemma hexline_fits:
  assumes "length data \<le> width" "0 < width"
  shows "hexline addr data width = (if width \<le> 60 then Some (line_chars addr data width) else None)"
proof -
  have "length (concat (map (hex_cell data width) [0..<width])) = 3 * width + 1"
    using length_cells [of data width width] assms by auto
  then show ?thesis
    using assms
    by (auto simp: hexline_def store_line_all LINE_SIZE_def addr_chars_def line_chars_def bind_eq_Some_conv
        simp del: length_concat)
qed


subsection \<open>Reading a dump back\<close>

definition cell_pos :: "nat \<Rightarrow> nat \<Rightarrow> nat" where
  "cell_pos width i = 10 + 3 * i + (if width div 2 \<le> i then 1 else 0)"

definition hex_value :: "char \<Rightarrow> int" where
  "hex_value c = (if is_digit c then sc c - 48 else sc c - 87)"

definition undump :: "nat \<Rightarrow> string \<Rightarrow> string" where
  "undump width line =
     map (\<lambda>i. to_char (16 * hex_value (line ! cell_pos width i) + hex_value (line ! (cell_pos width i + 1))))
       (takeWhile (\<lambda>i. line ! cell_pos width i \<noteq> CHR '' '') [0..<width])"

text \<open>Every line starts with the low 32 bits of the address of its first byte.\<close>

fun addressed :: "nat \<Rightarrow> 64 word \<Rightarrow> string list \<Rightarrow> bool" where
  "addressed width addr [] \<longleftrightarrow> True"
| "addressed width addr (l # ls) \<longleftrightarrow>
     take 8 l = addr_chars addr \<and> addressed width (addr + of_nat (length (undump width l))) ls"

lemma hex_chars_cases: "n < 16 \<Longrightarrow> hex_value (hex_chars ! n) = int n \<and> hex_chars ! n \<noteq> CHR '' ''"
proof -
  have "\<forall>n<16. hex_value (hex_chars ! n) = int n \<and> hex_chars ! n \<noteq> CHR '' ''"
    by (simp add: All_less_Suc numeral_eq_Suc hex_chars_def hex_value_def is_digit_def sc_def)
  then show "n < 16 \<Longrightarrow> ?thesis" by blast
qed

lemma upt_split: "i < n \<Longrightarrow> [0..<n] = [0..<i] @ i # [Suc i..<n]"
  using upt_add_eq_append [of 0 i "n - i"] by (simp add: upt_conv_Cons)

lemma nth_at: "length xs = k \<Longrightarrow> (xs @ ys) ! (k + j) = ys ! j"
  by auto

lemma line_cell:
  assumes "i < width" "j < 2"
  shows "line_chars addr data width ! (cell_pos width i + j) =
    (if i < length data then [hex_chars ! nat (uc (data ! i) div 16), hex_chars ! nat (uc (data ! i) mod 16)] ! j
     else CHR '' '')"
proof -
  let ?c = "hex_cell data width"
  let ?digits = "if i < length data
    then [hex_chars ! nat (uc (data ! i) div 16), hex_chars ! nat (uc (data ! i) mod 16)] else ''  ''"
  define pre where "pre = addr_chars addr @ '': '' @ concat (map ?c [0..<i]) @ (if i = width div 2 then '' '' else [])"
  define post where "post = '' '' @ concat (map ?c [Suc i..<width]) @ ''|'' @ map ascii_char data @
     replicate (width - length data) (CHR '' '') @ [CHR ''|'', NL]"
  have "line_chars addr data width = pre @ ?digits @ post"
    by (simp add: line_chars_def upt_split [OF assms(1)] hex_cell_def pre_def post_def)
  moreover have "length pre = cell_pos width i"
    using length_cells [of data width i]
    by (simp add: pre_def cell_pos_def addr_chars_def del: length_concat)
  ultimately have "line_chars addr data width ! (cell_pos width i + j) = (?digits @ post) ! j"
    by (simp add: nth_at)
  also have "\<dots> = ?digits ! j"
    using assms(2) by (auto simp: nth_append)
  finally show ?thesis
    using assms(2) by (auto simp: less_2_cases_iff)
qed

lemma undump_line:
  assumes "length data \<le> width"
  shows "undump width (line_chars addr data width) = data"
proof -
  let ?l = "line_chars addr data width"
  have div: "uc c div 16 < 16" "0 \<le> uc c div 16" "uc c mod 16 < 16" "0 \<le> uc c mod 16" for c
    using uc_bounds [of c] by presburger+
  have nospace: "?l ! cell_pos width i \<noteq> CHR '' '' \<longleftrightarrow> i < length data" if "i < width" for i
    using line_cell [OF that, of 0 addr data] hex_chars_cases [of "nat (uc (data ! i) div 16)"] div [of "data ! i"]
    by auto
  have "takeWhile (\<lambda>i. ?l ! cell_pos width i \<noteq> CHR '' '') [0..<width] =
      takeWhile (\<lambda>i. i < length data) [0..<width]"
    by (rule takeWhile_cong) (use nospace in auto)
  also have "\<dots> = [0..<length data]"
  proof -
    have split: "[0..<width] = [0..<length data] @ [length data..<width]"
      using upt_add_eq_append [of 0 "length data" "width - length data"] assms by simp
    show ?thesis
      unfolding split by (cases "length data < width") (auto simp: takeWhile_append upt_conv_Cons)
  qed
  finally have idx: "takeWhile (\<lambda>i. ?l ! cell_pos width i \<noteq> CHR '' '') [0..<width] = [0..<length data]" .
  have "to_char (16 * hex_value (?l ! cell_pos width i) + hex_value (?l ! (cell_pos width i + 1))) = data ! i"
    if "i < length data" for i
  proof -
    have i: "i < width" using that assms by simp
    have "?l ! cell_pos width i = hex_chars ! nat (uc (data ! i) div 16)"
      "?l ! (cell_pos width i + 1) = hex_chars ! nat (uc (data ! i) mod 16)"
      using line_cell [OF i, of 0 addr data] line_cell [OF i, of 1 addr data] that by simp_all
    then have "16 * hex_value (?l ! cell_pos width i) + hex_value (?l ! (cell_pos width i + 1)) =
        16 * (uc (data ! i) div 16) + uc (data ! i) mod 16"
      using hex_chars_cases [of "nat (uc (data ! i) div 16)"] hex_chars_cases [of "nat (uc (data ! i) mod 16)"]
        div [of "data ! i"] by simp
    also have "\<dots> = uc (data ! i)" by simp
    finally show ?thesis by simp
  qed
  then show ?thesis
    unfolding undump_def idx by (intro nth_equalityI) simp_all
qed

lemma dh_lines_dumps:
  assumes w: "0 < width" "width \<le> 60"
  shows "\<exists>ls. dh_lines addr data width = Some (ls, addr + of_nat (length data)) \<and>
    concat (map (undump width) ls) = data \<and> addressed width addr ls"
proof (induction "length data" arbitrary: data addr rule: less_induct)
  case less
  show ?case
  proof (cases "data = []")
    case True
    then show ?thesis by (simp add: dh_lines.simps)
  next
    case False
    let ?d = "take width data"
    have "length (drop width data) < length data" using False w by simp
    from less [OF this] obtain ls where ls:
      "dh_lines (addr + of_nat (length ?d)) (drop width data) width =
        Some (ls, addr + of_nat (length ?d) + of_nat (length (drop width data)))"
      "concat (map (undump width) ls) = drop width data" "addressed width (addr + of_nat (length ?d)) ls"
      by blast
    have line: "hexline addr ?d width = Some (line_chars addr ?d width)"
      using hexline_fits [of ?d width addr] w by simp
    have inv: "undump width (line_chars addr ?d width) = ?d"
      by (rule undump_line) simp
    have "of_nat (length ?d) + of_nat (length (drop width data)) = (of_nat (length data) :: 64 word)"
      by (metis append_take_drop_id length_append of_nat_add)
    then have "dh_lines addr data width = Some (line_chars addr ?d width # ls, addr + of_nat (length data))"
      using False w line ls(1) by (subst dh_lines.simps) (simp add: add.assoc del: length_take length_drop)
    moreover have "take 8 (line_chars addr ?d width) = addr_chars addr"
      by (simp add: line_chars_def addr_chars_def)
    ultimately show ?thesis using ls(2,3) inv by (auto simp del: length_take)
  qed
qed

lemma addressed_append:
  "addressed width addr ls \<Longrightarrow> addressed width (addr + of_nat (length (concat (map (undump width) ls)))) ls2 \<Longrightarrow>
   addressed width addr (ls @ ls2)"
  by (induction ls arbitrary: addr) (auto simp: add.assoc)

lemma dh_loop_dumps:
  assumes r: "reads rr contents" and w: "0 < width" "width \<le> 60"
  shows "\<exists>ls. dh_loop rr fd n addr width = Some (0, ls, []) \<and>
    concat (map (undump width) ls) = take (nat n) (contents fd) \<and> addressed width addr ls"
proof (induction "nat n" arbitrary: n fd addr rule: less_induct)
  case less
  show ?case
  proof (cases "n \<le> 0")
    case True
    then show ?thesis by (simp add: dh_loop.simps)
  next
    case False
    let ?k = "min READ_BUF (nat n)"
    have k: "0 < ?k" using False by (simp add: READ_BUF_def)
    obtain buf fd1 where b: "rr fd ?k = Some (buf, fd1)" "contents fd = buf @ contents fd1" "length buf \<le> ?k"
      "buf = [] \<longrightarrow> ?k = 0 \<or> contents fd = []"
      using readsE [OF r] by metis
    show ?thesis
    proof (cases "buf = []")
      case True
      then have "contents fd = []" using b(4) k by simp
      with True b(1) False show ?thesis by (simp add: dh_loop.simps [of rr fd n])
    next
      case buf: False
      obtain ls where ls: "dh_lines addr buf width = Some (ls, addr + of_nat (length buf))"
        "concat (map (undump width) ls) = buf" "addressed width addr ls"
        using dh_lines_dumps [OF w] by blast
      have "nat (n - int (length buf)) < nat n" using buf False by simp
      from less [OF this, of fd1 "addr + of_nat (length buf)"] obtain ls2 where ls2:
        "dh_loop rr fd1 (n - int (length buf)) (addr + of_nat (length buf)) width = Some (0, ls2, [])"
        "concat (map (undump width) ls2) = take (nat (n - int (length buf))) (contents fd1)"
        "addressed width (addr + of_nat (length buf)) ls2"
        by blast
      have len: "nat (n - int (length buf)) = nat n - length buf"
        by linarith
      have "dh_loop rr fd n addr width = Some (0, ls @ ls2, [])"
        using False b(1) buf ls(1) ls2(1) by (simp add: dh_loop.simps [of rr fd n])
      moreover have "take (nat n) (contents fd) = buf @ take (nat (n - int (length buf))) (contents fd1)"
        using b(2,3) by (simp add: len)
      ultimately show ?thesis
        using ls ls2 addressed_append [of width addr ls ls2] by simp
    qed
  qed
qed

text \<open>
  C18. \<open>dh\<close> with a width up to 60 prints lines from which exactly the bytes of the range asked for
  can be read back, however short the reads are, and each line starts with the address of its
  first byte.
\<close>

theorem dh_dump_roundtrip:
  assumes "dh_args args dh_defaults = Inr opts" "dh_file opts = Some f" "open_in dev f = Some fd"
    "1 \<le> dh_width opts" "dh_width opts \<le> 60" "0 \<le> dh_offset opts"
    "reads (rd dev) contents" "seeks (seek_in dev) contents fd"
  shows "\<exists>ls. dh_main dev args = Some (0, ls, []) \<and>
    concat (map (undump (nat (dh_width opts))) ls) =
      take (nat (dh_length opts)) (drop (nat (dh_offset opts)) (contents fd)) \<and>
    addressed (nat (dh_width opts)) (word_of_int (dh_offset opts)) ls"
proof -
  obtain fd1 where fd1: "(if 0 < dh_offset opts then seek_in dev (dh_offset opts) fd else Some fd) = Some fd1"
    "contents fd1 = drop (nat (dh_offset opts)) (contents fd)"
    using seek_start [OF assms(6,8)] by blast
  have w: "0 < nat (dh_width opts)" "nat (dh_width opts) \<le> 60" using assms(4,5) by simp_all
  obtain ls where "dh_loop (rd dev) fd1 (dh_length opts) (word_of_int (dh_offset opts)) (nat (dh_width opts)) = Some (0, ls, [])"
    "concat (map (undump (nat (dh_width opts))) ls) = take (nat (dh_length opts)) (contents fd1)"
    "addressed (nat (dh_width opts)) (word_of_int (dh_offset opts)) ls"
    using dh_loop_dumps [OF assms(7) w] by blast
  with assms(1-3) fd1 show ?thesis by (simp add: dh_main_def)
qed

lemma memory_reads: "reads (rd (memory i)) (\<lambda>s. s)"
  using reads_full by (simp add: memory_def)

lemma memory_seeks: "seeks (seek_in (memory i)) (\<lambda>s. s) s"
  by (simp add: memory_def seeks_def)

lemma memory_open: "open_in (memory i) f = Some i"
  by (simp add: memory_def)

theorem dh_dump_roundtrip_witness:
  "\<exists>ls. dh_main (memory ''Hello'') [''file''] = Some (0, ls, []) \<and> concat (map (undump 16) ls) = ''Hello''"
proof -
  let ?o = "\<lparr>dh_offset = 0, dh_length = 256, dh_width = 16, dh_file = Some ''file''\<rparr>"
  have args: "dh_args [''file''] dh_defaults = Inr ?o"
    by (simp add: dh_defaults_def DEFAULT_LENGTH_def DEFAULT_WIDTH_def)
  have o: "dh_file ?o = Some ''file''" "1 \<le> dh_width ?o" "dh_width ?o \<le> 60" "0 \<le> dh_offset ?o"
    by simp_all
  show ?thesis
    using dh_dump_roundtrip [where contents = "\<lambda>s. s", OF args o(1) memory_open o(2-4) memory_reads memory_seeks,
        of "''Hello''"] by auto
qed

text \<open>
  The widths from 61 to 64 are accepted, but a line then has more than 256 bytes: as soon as
  there is a byte to dump, \<open>dh\<close> writes behind the end of its line.
\<close>

theorem dh_wide_line_overruns:
  assumes "dh_args args dh_defaults = Inr opts" "dh_file opts = Some f" "open_in dev f = Some fd"
    "61 \<le> dh_width opts" "0 < dh_length opts" "0 \<le> dh_offset opts"
    "reads (rd dev) contents" "seeks (seek_in dev) contents fd"
    "nat (dh_offset opts) < length (contents fd)"
  shows "dh_main dev args = None"
proof -
  obtain fd1 where fd1: "(if 0 < dh_offset opts then seek_in dev (dh_offset opts) fd else Some fd) = Some fd1"
    "contents fd1 = drop (nat (dh_offset opts)) (contents fd)"
    using seek_start [OF assms(6,8)] by blast
  let ?k = "min READ_BUF (nat (dh_length opts))" and ?w = "nat (dh_width opts)"
  obtain buf fd2 where b: "rd dev fd1 ?k = Some (buf, fd2)" "buf = [] \<longrightarrow> ?k = 0 \<or> contents fd1 = []"
    using readsE [OF assms(7)] by metis
  have "buf \<noteq> []" using b(2) assms(5,9) fd1(2) by (auto simp: READ_BUF_def)
  moreover have "hexline a (take ?w buf) ?w = None" for a
    using hexline_fits [of "take ?w buf" ?w a] assms(4) by simp
  ultimately have "dh_lines a buf ?w = None" for a
    using assms(4) by (subst dh_lines.simps) simp
  with b(1) \<open>buf \<noteq> []\<close> assms(5) have "dh_loop (rd dev) fd1 (dh_length opts) a ?w = None" for a
    by (subst dh_loop.simps) simp
  with assms(1-3) fd1(1) show ?thesis by (simp add: dh_main_def)
qed


theorem dh_wide_line_overruns_witness:
  "dh_main (memory ''a'') [''-w'', ''64'', ''file''] = None"
proof -
  let ?o = "\<lparr>dh_offset = 0, dh_length = 256, dh_width = 64, dh_file = Some ''file''\<rparr>"
  have "atoi ''64'' = 64"
    using atoi_run_value [of "''64''"] by (simp add: is_digit_uc uc_def digit_def sc_def)
  then have args: "dh_args [''-w'', ''64'', ''file''] dh_defaults = Inr ?o"
    by (simp add: dh_defaults_def DEFAULT_LENGTH_def DEFAULT_WIDTH_def MAX_WIDTH_def)
  have o: "dh_file ?o = Some ''file''" "61 \<le> dh_width ?o" "0 < dh_length ?o" "0 \<le> dh_offset ?o"
    "nat (dh_offset ?o) < length ''a''"
    by simp_all
  show ?thesis
    using dh_wide_line_overruns [where contents = "\<lambda>s. s", OF args o(1) memory_open o(2-4) memory_reads memory_seeks o(5)]
    by simp
qed

end
