(* ===== verification/Primes.thy ===== *)
theory Primes
  imports Main
begin

section \<open>primes.c\<close>

text \<open>
  A sieve of processes.  Each stage reads numbers from the pipe of the stage before it, prints the
  first one, forks the next stage, and passes on what the first does not divide.  A pipe is the
  list of the numbers sent through it before it is closed; a stage prints before it forks, so the
  numbers are printed in the order of the stages.  Failing \<open>pipe\<close> and \<open>fork\<close> are left out.
\<close>

definition LIMIT :: nat where "LIMIT = 280"

text \<open>
  The loop of a stage whose number is \<open>n\<close>: what it sends, and whether it ended before its input.
  The number that ends it is sent once more behind the loop.
\<close>

fun relay :: "nat \<Rightarrow> nat list \<Rightarrow> nat list \<times> bool" where
  "relay n [] = ([], False)"
| "relay n (rcv # rest) =
     (let sent = (if rcv mod n \<noteq> 0 then [rcv] else [])
      in if LIMIT \<le> rcv then (sent @ [rcv], True)
         else (case relay n rest of (more, ok) \<Rightarrow> (sent @ more, ok)))"

lemma relay_smaller:
  "length (filter (\<lambda>x. x < LIMIT) (fst (relay n rest))) \<le> length (filter (\<lambda>x. x < LIMIT) rest)"
  by (induction n rest rule: relay.induct) (auto simp: Let_def split: prod.splits)

text \<open>What a stage and all behind it print, and whether none of them met the end of its input.\<close>

function primes :: "nat list \<Rightarrow> nat list \<times> bool" where
  "primes pip =
     (case pip of
        [] \<Rightarrow> ([], False)
      | cur_num # rest \<Rightarrow>
          if LIMIT \<le> cur_num then ([], True)
          else (case primes (fst (relay cur_num rest)) of
                  (printed, ok) \<Rightarrow> (cur_num # printed, snd (relay cur_num rest) \<and> ok)))"
  by pat_completeness auto
termination
proof (relation "measure (\<lambda>pip. length (filter (\<lambda>x. x < LIMIT) pip))", goal_cases)
  case (2 pip cur_num rest)
  then show ?case
    using relay_smaller [of cur_num rest] by (simp add: less_Suc_eq_le)
qed simp

declare primes.simps [simp del]

definition primes_main :: "nat list \<times> bool" where
  "primes_main = primes [2..<LIMIT + 1]"

subsection \<open>What the stages print\<close>

text \<open>A list as a single stage sieves it.\<close>

function sieve :: "nat list \<Rightarrow> nat list" where
  "sieve [] = []"
| "sieve (n # xs) = n # sieve (filter (\<lambda>x. x mod n \<noteq> 0) xs)"
  by pat_completeness auto
termination
  by (relation "measure length") (auto intro: le_imp_less_Suc)

lemma relay_filters:
  assumes "\<forall>x\<in>set xs. x < LIMIT" "LIMIT \<le> y"
  shows "\<exists>zs. relay n (xs @ y # ys) = (filter (\<lambda>x. x mod n \<noteq> 0) xs @ y # zs, True)"
  using assms by (induction xs) (auto simp: Let_def)

lemma primes_sieve:
  "\<forall>x\<in>set xs. x < LIMIT \<Longrightarrow> LIMIT \<le> y \<Longrightarrow> primes (xs @ y # ys) = (sieve xs, True)"
proof (induction xs arbitrary: ys rule: sieve.induct)
  case 1
  then show ?case by (simp add: primes.simps)
next
  case (2 n xs)
  obtain zs where "relay n (xs @ y # ys) = (filter (\<lambda>x. x mod n \<noteq> 0) xs @ y # zs, True)"
    using relay_filters [of xs y n ys] "2.prems" by auto
  with "2.IH" [of zs] "2.prems" show ?case
    by (subst primes.simps) (auto simp: not_le)
qed

definition is_prime :: "nat \<Rightarrow> bool" where
  "is_prime p \<longleftrightarrow> 2 \<le> p \<and> (\<forall>d\<in>{2..<p}. p mod d \<noteq> 0)"

lemma sieve_primes:
  assumes "2 \<le> k"
  shows "sieve (filter (\<lambda>x. \<forall>d\<in>{2..<k}. x mod d \<noteq> 0) [k..<n]) = filter is_prime [k..<n]"
  using assms
proof (induction "n - k" arbitrary: k)
  case (Suc m)
  then have k: "[k..<n] = k # [Suc k..<n]" by (simp add: upt_conv_Cons)
  have IH: "sieve (filter (\<lambda>x. \<forall>d\<in>{2..<Suc k}. x mod d \<noteq> 0) [Suc k..<n]) = filter is_prime [Suc k..<n]"
    using Suc by simp
  have split: "{2..<Suc k} = insert k {2..<k}" using Suc.prems by auto
  show ?case
  proof (cases "is_prime k")
    case True
    then have "filter (\<lambda>x. \<forall>d\<in>{2..<k}. x mod d \<noteq> 0) [k..<n] =
        k # filter (\<lambda>x. \<forall>d\<in>{2..<k}. x mod d \<noteq> 0) [Suc k..<n]"
      by (simp add: k is_prime_def)
    moreover have "filter (\<lambda>x. x mod k \<noteq> 0) (filter (\<lambda>x. \<forall>d\<in>{2..<k}. x mod d \<noteq> 0) [Suc k..<n]) =
        filter (\<lambda>x. \<forall>d\<in>{2..<Suc k}. x mod d \<noteq> 0) [Suc k..<n]"
      by (simp add: split conj_commute)
    ultimately show ?thesis using IH True by (simp add: k)
  next
    case False
    then obtain d where d: "d \<in> {2..<k}" "k mod d = 0"
      using Suc.prems by (auto simp: is_prime_def)
    have divides: "x mod d = 0" if "x mod k = 0" for x
      using that d by (metis dvd_trans mod_eq_0_iff_dvd)
    have "(\<forall>d\<in>{2..<Suc k}. x mod d \<noteq> 0) \<longleftrightarrow> (\<forall>d\<in>{2..<k}. x mod d \<noteq> 0)" for x
      using divides [of x] d by (metis insert_iff split)
    moreover have "\<not> (\<forall>d\<in>{2..<k}. k mod d \<noteq> 0)"
      using d by (auto intro!: bexI [of _ d])
    ultimately have "filter (\<lambda>x. \<forall>d\<in>{2..<k}. x mod d \<noteq> 0) [k..<n] =
        filter (\<lambda>x. \<forall>d\<in>{2..<Suc k}. x mod d \<noteq> 0) [Suc k..<n]"
      by (simp only: k filter.simps if_False)
    with IH False show ?thesis by (simp add: k)
  qed
qed simp

text \<open>
  C26. The network of stages prints exactly the primes below 280, in order, and no stage meets the
  end of its input.
\<close>

theorem primes_main_prints_primes: "primes_main = (filter is_prime [2..<280], True)"
proof -
  have "[2..<LIMIT + 1] = [2..<LIMIT] @ LIMIT # []"
    using upt_Suc_append [of 2 LIMIT] by (simp only: LIMIT_def Suc_eq_plus1)
  then have "primes_main = (sieve [2..<LIMIT], True)"
    using primes_sieve [of "[2..<LIMIT]" LIMIT "[]"] by (simp add: primes_main_def)
  moreover have "filter (\<lambda>x. \<forall>d\<in>{2..<2}. x mod d \<noteq> 0) [2..<LIMIT] = [2..<LIMIT]"
    by simp
  then have "sieve [2..<LIMIT] = filter is_prime [2..<LIMIT]"
    using sieve_primes [of 2 LIMIT] by simp
  ultimately show ?thesis by (simp only: LIMIT_def)
qed

end
