(* ===== verification/Keyinject.thy ===== *)
theory Keyinject
  imports Prelude
begin

section \<open>keyinject.c\<close>

text \<open>
  Keyinject writes keyboard events to \<open>/dev/kbd\<close>: for a text, for one named key, or for a chord
  with the control key.  The device is a parameter: the modifier bits of its header file, the size
  of an event, and the answer to a write, which may depend on the events taken before.  The state
  is the list of the events the device took.  Messages and pauses are left out.
\<close>

record kbd_event =
  scancode :: nat
  pressed :: bool
  modifiers :: nat

record keyboard =
  kbd_mod_shift :: nat
  kbd_mod_ctrl :: nat
  event_bytes :: int
  kbd_write :: "kbd_event list \<Rightarrow> kbd_event \<Rightarrow> int"

record key_map =
  km_ch :: char
  km_code :: nat
  km_shift :: bool

definition key_map :: "key_map list" where
  "key_map = List.map (\<lambda>(c, code, shift). \<lparr>km_ch = c, km_code = code, km_shift = shift\<rparr>)
    [(CHR ''1'', 2, False), (CHR ''2'', 3, False), (CHR ''3'', 4, False), (CHR ''4'', 5, False),
     (CHR ''5'', 6, False), (CHR ''6'', 7, False), (CHR ''7'', 8, False), (CHR ''8'', 9, False),
     (CHR ''9'', 10, False), (CHR ''0'', 11, False), (CHR ''-'', 12, False), (CHR ''='', 13, False),
     (CHR ''q'', 16, False), (CHR ''w'', 17, False), (CHR ''e'', 18, False), (CHR ''r'', 19, False),
     (CHR ''t'', 20, False), (CHR ''y'', 21, False), (CHR ''u'', 22, False), (CHR ''i'', 23, False),
     (CHR ''o'', 24, False), (CHR ''p'', 25, False), (CHR ''['', 26, False), (CHR '']'', 27, False),
     (CHR ''a'', 30, False), (CHR ''s'', 31, False), (CHR ''d'', 32, False), (CHR ''f'', 33, False),
     (CHR ''g'', 34, False), (CHR ''h'', 35, False), (CHR ''j'', 36, False), (CHR ''k'', 37, False),
     (CHR ''l'', 38, False), (CHR '';'', 39, False), (CHR 0x27, 40, False), (CHR 0x60, 41, False),
     (CHR 0x5C, 43, False), (CHR ''z'', 44, False), (CHR ''x'', 45, False), (CHR ''c'', 46, False),
     (CHR ''v'', 47, False), (CHR ''b'', 48, False), (CHR ''n'', 49, False), (CHR ''m'', 50, False),
     (CHR '','', 51, False), (CHR ''.'', 52, False), (CHR ''/'', 53, False), (CHR '' '', 57, False),
     (CHR ''!'', 2, True), (CHR ''@'', 3, True), (CHR ''#'', 4, True), (CHR ''$'', 5, True),
     (CHR ''%'', 6, True), (CHR ''^'', 7, True), (CHR ''&'', 8, True), (CHR ''*'', 9, True),
     (CHR ''('', 10, True), (CHR '')'', 11, True), (CHR ''_'', 12, True), (CHR ''+'', 13, True),
     (CHR ''{'', 26, True), (CHR ''}'', 27, True), (CHR '':'', 39, True), (CHR 0x22, 40, True),
     (CHR ''~'', 41, True), (CHR ''|'', 43, True), (CHR ''<'', 51, True), (CHR ''>'', 52, True),
     (CHR ''?'', 53, True)]"

type_synonym key_state = "kbd_event list"

text \<open>One call after another, the second only if the first did not fail.\<close>

definition and_then :: "(key_state \<Rightarrow> int \<times> key_state) \<Rightarrow> (key_state \<Rightarrow> int \<times> key_state) \<Rightarrow> key_state \<Rightarrow> int \<times> key_state" where
  "and_then f g sent = (case f sent of (r, sent') \<Rightarrow> if r < 0 then (-1, sent') else g sent')"

definition only_if :: "bool \<Rightarrow> (key_state \<Rightarrow> int \<times> key_state) \<Rightarrow> key_state \<Rightarrow> int \<times> key_state" where
  "only_if c f sent = (if c then f sent else (0, sent))"

definition write_key :: "keyboard \<Rightarrow> nat \<Rightarrow> bool \<Rightarrow> nat \<Rightarrow> key_state \<Rightarrow> int \<times> key_state" where
  "write_key kb code down mods sent =
     (let ev = \<lparr>scancode = code, pressed = down, modifiers = mods\<rparr>
      in if kbd_write kb sent ev \<noteq> event_bytes kb then (-1, sent) else (0, sent @ [ev]))"

definition is_upper :: "char \<Rightarrow> bool" where
  "is_upper ch \<longleftrightarrow> sc (CHR ''A'') \<le> sc ch \<and> sc ch \<le> sc (CHR ''Z'')"

definition lookup_char :: "char \<Rightarrow> key_map option" where
  "lookup_char ch =
     (let lower = (if is_upper ch then to_char (sc ch - sc (CHR ''A'') + sc (CHR ''a'')) else ch)
      in List.find (\<lambda>km. km_ch km = lower) key_map)"

definition tap_key :: "keyboard \<Rightarrow> nat \<Rightarrow> nat \<Rightarrow> key_state \<Rightarrow> int \<times> key_state" where
  "tap_key kb code mods = and_then (write_key kb code True mods) (write_key kb code False mods)"

definition type_char :: "keyboard \<Rightarrow> char \<Rightarrow> key_state \<Rightarrow> int \<times> key_state" where
  "type_char kb ch sent =
     (case lookup_char ch of
        None \<Rightarrow> (-1, sent)
      | Some km \<Rightarrow>
          (let shift = (km_shift km \<or> is_upper ch)
           in and_then (only_if shift (write_key kb 42 True (kbd_mod_shift kb)))
                (and_then (tap_key kb (km_code km) (if shift then kbd_mod_shift kb else 0))
                   (only_if shift (write_key kb 42 False 0))) sent))"

definition key_code :: "string \<Rightarrow> nat" where
  "key_code name =
     (if name = ''enter'' then 28
      else if name = ''tab'' then 15
      else if name = ''backspace'' then 14
      else if name = ''delete'' then 111
      else if name = ''esc'' \<or> name = ''escape'' then 1
      else if length name = 1 then
        (case lookup_char (hd name) of Some km \<Rightarrow> km_code km | None \<Rightarrow> 0)
      else 0)"

definition chord_ctrl :: "keyboard \<Rightarrow> string \<Rightarrow> key_state \<Rightarrow> int \<times> key_state" where
  "chord_ctrl kb key sent =
     (let code = key_code key
      in if code = 0 then (-1, sent)
         else and_then (write_key kb 29 True (kbd_mod_ctrl kb))
                (and_then (tap_key kb code (kbd_mod_ctrl kb)) (write_key kb 29 False 0)) sent)"

fun type_text :: "keyboard \<Rightarrow> string \<Rightarrow> key_state \<Rightarrow> int \<times> key_state" where
  "type_text kb [] sent = (0, sent)"
| "type_text kb (ch # p) sent =
     (case type_char kb ch sent of (r, sent') \<Rightarrow> if r < 0 then (1, sent') else type_text kb p sent')"

text \<open>
  The main function with the arguments behind the name of the program; \<open>opens\<close> says whether the
  device can be opened.  The result is the exit status and the events the device took.
\<close>

definition keyinject_main :: "keyboard \<Rightarrow> bool \<Rightarrow> string list \<Rightarrow> int \<times> key_state" where
  "keyinject_main kb opens args =
     (case args of
        mode # arg # _ \<Rightarrow>
          if \<not> opens then (1, [])
          else if mode = ''text'' then type_text kb arg []
          else if mode = ''key'' then
            (let code = key_code arg
             in if code = 0 then (1, [])
                else (case tap_key kb code 0 [] of (r, sent) \<Rightarrow> (if r < 0 then 1 else 0, sent)))
          else if mode = ''chord'' \<and> take 5 arg = ''ctrl+'' then
            (case chord_ctrl kb (drop 5 arg) [] of (r, sent) \<Rightarrow> (if r < 0 then 1 else 0, sent))
          else (1, [])
      | _ \<Rightarrow> (1, []))"

subsection \<open>A keyboard with the US layout\<close>

text \<open>
  What a reader of the device makes of the events: the left shift key is scan code 42, and the
  keys of the four rows give the characters printed on them.  The layout is written down row by
  row, from the key with the lowest code, independently of the table of the program.
\<close>

definition row_key :: "nat \<Rightarrow> string \<Rightarrow> nat \<Rightarrow> char option" where
  "row_key first row code =
     (if first \<le> code \<and> code < first + length row then Some (row ! (code - first)) else None)"

definition us_rows :: "bool \<Rightarrow> (nat \<times> string) list" where
  "us_rows shift =
     (if shift
      then [(2, ''!@#$%^&*()_+''), (16, ''QWERTYUIOP{}''), (30, ''ASDFGHJKL:'' @ [CHR 0x22, CHR ''~'']),
            (43, ''|ZXCVBNM<>?''), (57, '' '')]
      else [(2, ''1234567890-=''), (16, ''qwertyuiop[]''), (30, ''asdfghjkl;'' @ [CHR 0x27, CHR 0x60]),
            (43, CHR 0x5C # ''zxcvbnm,./''), (57, '' '')])"

fun first_row :: "(nat \<times> string) list \<Rightarrow> nat \<Rightarrow> char option" where
  "first_row [] code = None"
| "first_row ((first, row) # rows) code =
     (case row_key first row code of Some c \<Rightarrow> Some c | None \<Rightarrow> first_row rows code)"

fun typed :: "bool \<Rightarrow> kbd_event list \<Rightarrow> string" where
  "typed shift [] = []"
| "typed shift (ev # evs) =
     (if scancode ev = 42 then typed (pressed ev) evs
      else if pressed ev then
        (case first_row (us_rows shift) (scancode ev) of
           Some c \<Rightarrow> c # typed shift evs
         | None \<Rightarrow> typed shift evs)
      else typed shift evs)"

text \<open>The keys that are down after some events.\<close>

fun held :: "nat set \<Rightarrow> kbd_event list \<Rightarrow> nat set" where
  "held down [] = down"
| "held down (ev # evs) =
     held (if pressed ev then insert (scancode ev) down else down - {scancode ev}) evs"

definition accepts_all :: "keyboard \<Rightarrow> bool" where
  "accepts_all kb \<longleftrightarrow> (\<forall>sent ev. kbd_write kb sent ev = event_bytes kb)"

lemma held_append [simp]: "held down (as @ bs) = held (held down as) bs"
  by (induction as arbitrary: down) auto

definition printable :: "char \<Rightarrow> bool" where
  "printable c \<longleftrightarrow> 32 \<le> uc c \<and> uc c \<le> 126"

lemma printable_cases: "printable c \<Longrightarrow> c \<in> set (List.map (to_char \<circ> int) [32..<127])"
proof -
  assume "printable c"
  then have c: "32 \<le> uc c" "uc c \<le> 126" by (simp_all add: printable_def)
  then have "c = (to_char \<circ> int) (nat (uc c))" by simp
  moreover have "nat (uc c) \<in> set [32..<127]"
    unfolding set_upt atLeastLessThan_iff using c by linarith
  ultimately show ?thesis by (metis image_eqI list.set_map)
qed

definition on_layout :: "char \<Rightarrow> bool" where
  "on_layout c =
     (case lookup_char c of
        None \<Rightarrow> False
      | Some km \<Rightarrow> km_code km \<noteq> 42 \<and> km_code km \<noteq> 0 \<and>
          first_row (us_rows (km_shift km \<or> is_upper c)) (km_code km) = Some c)"

lemma printable_on_layout: "printable c \<Longrightarrow> on_layout c"
proof -
  have "list_all on_layout (List.map (to_char \<circ> int) [32..<127])"
    by code_simp
  then show "on_layout c" if "printable c"
    using printable_cases [OF that] by (simp only: list_all_iff)
qed

subsection \<open>What the program types\<close>

lemma write_key_accepts:
  "accepts_all kb \<Longrightarrow> write_key kb code down mods sent =
     (0, sent @ [\<lparr>scancode = code, pressed = down, modifiers = mods\<rparr>])"
  by (simp add: write_key_def accepts_all_def)

lemmas key_steps = and_then_def only_if_def tap_key_def write_key_accepts

lemma type_char_types:
  assumes "accepts_all kb" "printable c"
  shows "\<exists>evs. type_char kb c sent = (0, sent @ evs) \<and>
           (\<forall>rest. typed False (evs @ rest) = c # typed False rest) \<and> held {} evs = {}"
proof -
  obtain km where "lookup_char c = Some km" "km_code km \<noteq> 42"
    "first_row (us_rows (km_shift km \<or> is_upper c)) (km_code km) = Some c"
    using printable_on_layout [OF assms(2)] by (auto simp: on_layout_def split: option.splits)
  with assms(1) show ?thesis
    by (cases "km_shift km \<or> is_upper c") (auto simp: type_char_def key_steps)
qed

lemma type_text_types:
  assumes "accepts_all kb" "\<forall>c\<in>set p. printable c"
  shows "\<exists>evs. type_text kb p sent = (0, sent @ evs) \<and> typed False evs = p \<and> held {} evs = {}"
  using assms(2)
proof (induction p arbitrary: sent)
  case (Cons c p)
  then obtain evs where evs: "type_char kb c sent = (0, sent @ evs)"
    "\<forall>rest. typed False (evs @ rest) = c # typed False rest" "held {} evs = {}"
    using type_char_types [OF assms(1), of c sent] by auto
  obtain more where "type_text kb p (sent @ evs) = (0, (sent @ evs) @ more)"
    "typed False more = p" "held {} more = {}"
    using Cons.IH [of "sent @ evs"] Cons.prems by auto
  with evs show ?case by (intro exI [of _ "evs @ more"]) simp
qed simp

text \<open>
  When the device takes every event, keyinject types any text of printable characters: a
  keyboard with the US layout reads exactly the text from the events, no key stays pressed, and
  the exit status is 0.
\<close>

theorem keyinject_types_text:
  assumes "accepts_all kb" "\<forall>c\<in>set txt. printable c"
  shows "\<exists>evs. keyinject_main kb True [''text'', txt] = (0, evs) \<and> typed False evs = txt \<and> held {} evs = {}"
  using type_text_types [OF assms, of "[]"] by (simp add: keyinject_main_def)

definition good_keyboard :: keyboard where
  "good_keyboard = \<lparr>kbd_mod_shift = 1, kbd_mod_ctrl = 2, event_bytes = 4, kbd_write = (\<lambda>sent ev. 4)\<rparr>"

theorem keyinject_types_text_witness:
  "\<exists>evs. keyinject_main good_keyboard True [''text'', ''Hello, World!''] = (0, evs) \<and>
     typed False evs = ''Hello, World!'' \<and> held {} evs = {}"
  by (rule keyinject_types_text) (simp_all add: accepts_all_def good_keyboard_def printable_def uc_def)

text \<open>No call leaves a key down when the device takes every event.\<close>

definition lets_go :: "(key_state \<Rightarrow> int \<times> key_state) \<Rightarrow> bool" where
  "lets_go f \<longleftrightarrow> (\<forall>sent. held {} sent = {} \<longrightarrow> held {} (snd (f sent)) = {})"

lemma tap_key_lets_go: "accepts_all kb \<Longrightarrow> lets_go (tap_key kb code mods)"
  by (auto simp: lets_go_def key_steps)

lemma type_char_lets_go: "accepts_all kb \<Longrightarrow> lets_go (type_char kb c)"
proof (cases "lookup_char c")
  case (Some km)
  assume "accepts_all kb"
  with Some show ?thesis
    by (cases "km_shift km \<or> is_upper c") (auto simp: lets_go_def type_char_def key_steps)
qed (simp add: lets_go_def type_char_def)

lemma chord_ctrl_lets_go: "accepts_all kb \<Longrightarrow> lets_go (chord_ctrl kb key)"
  by (auto simp: lets_go_def chord_ctrl_def key_steps Let_def)

lemma type_text_lets_go: "accepts_all kb \<Longrightarrow> lets_go (type_text kb p)"
proof (induction p)
  case (Cons c p)
  then show ?case
    using type_char_lets_go [of kb c] by (auto simp: lets_go_def split: prod.splits)
qed (simp add: lets_go_def)

text \<open>
  Whatever the arguments are, unsupported characters and unknown keys included, no key stays
  pressed when the device takes every event.
\<close>

theorem keyinject_releases_keys:
  assumes "accepts_all kb"
  shows "held {} (snd (keyinject_main kb opens args)) = {}"
proof -
  have "held {} (snd (f [])) = {}" if "lets_go f" for f
    using that by (simp add: lets_go_def)
  note stays = this [OF tap_key_lets_go [OF assms]] this [OF type_text_lets_go [OF assms]]
    this [OF chord_ctrl_lets_go [OF assms]]
  show ?thesis
    by (simp add: keyinject_main_def Let_def stays split_beta split: list.split)
qed

theorem keyinject_releases_keys_witness:
  "held {} (snd (keyinject_main good_keyboard True [''chord'', ''ctrl+c''])) = {}"
  by (rule keyinject_releases_keys) (simp add: accepts_all_def good_keyboard_def)

text \<open>
  The single-key mode has no shift: a name of one character that needs it presses the bare key, so
  \<open>key !\<close> types the digit 1 and reports success.
\<close>

theorem keyinject_key_drops_shift:
  "fst (keyinject_main good_keyboard True [''key'', ''!'']) = 0 \<and>
   typed False (snd (keyinject_main good_keyboard True [''key'', ''!''])) = ''1''"
  by code_simp

end
