(* ===== verification/Mouseinject.thy ===== *)
theory Mouseinject
  imports Ulib "HOL-Library.Signed_Division"
begin

section \<open>mouseinject.c\<close>

text \<open>
  Mouseinject writes mouse events with absolute coordinates to \<open>/dev/mouse\<close>: one event, a double
  click, or a drag in steps.  Coordinates run from 0 to 65535 and are stored in 16 bits.  The
  device is a parameter: the flag and the size of an event from its header file, and the answer to
  a write, which may depend on the events taken before.  Messages and pauses are left out.
\<close>

record mouse_event =
  flags :: nat
  dx :: "16 word"
  dy :: "16 word"
  buttons :: "8 word"

record mouse =
  f_absolute :: nat
  event_size :: int
  mouse_write :: "mouse_event list \<Rightarrow> mouse_event \<Rightarrow> int"

definition parse_int :: "string option \<Rightarrow> int \<Rightarrow> int \<Rightarrow> int \<Rightarrow> int" where
  "parse_int s fallback lo hi =
     (case s of
        None \<Rightarrow> fallback
      | Some s \<Rightarrow> (let v = atoi s in if v < lo then lo else if hi < v then hi else v))"

definition parse_coord :: "string option \<Rightarrow> int \<Rightarrow> int" where
  "parse_coord s fallback =
     (case s of
        None \<Rightarrow> fallback
      | Some s \<Rightarrow> (let v = atoi s in if v < 0 then 0 else if 65535 < v then 65535 else v))"

text \<open>The conditional argument, with the arguments behind the name of the program.\<close>

definition arg :: "string list \<Rightarrow> nat \<Rightarrow> string option" where
  "arg args i = (if i < length args then Some (args ! i) else None)"

definition event :: "mouse \<Rightarrow> int \<Rightarrow> int \<Rightarrow> int \<Rightarrow> mouse_event" where
  "event m x y b = \<lparr>flags = f_absolute m, dx = word_of_int x, dy = word_of_int y, buttons = word_of_int b\<rparr>"

definition write_event :: "mouse \<Rightarrow> int \<Rightarrow> int \<Rightarrow> int \<Rightarrow> mouse_event list \<Rightarrow> int \<times> mouse_event list" where
  "write_event m x y b sent =
     (let ev = event m (parse_coord None x) (parse_coord None y) b
      in if mouse_write m sent ev \<noteq> event_size m then (-1, sent) else (0, sent @ [ev]))"

text \<open>Several events one after another until one fails.\<close>

fun write_events :: "mouse \<Rightarrow> (int \<times> int \<times> int) list \<Rightarrow> mouse_event list \<Rightarrow> int \<times> mouse_event list" where
  "write_events m [] sent = (0, sent)"
| "write_events m ((x, y, b) # evs) sent =
     (case write_event m x y b sent of
        (r, sent') \<Rightarrow> if r < 0 then (-1, sent') else write_events m evs sent')"

text \<open>C divides towards zero, \<open>steps\<close> is positive.\<close>

definition drag_coord :: "int \<Rightarrow> int \<Rightarrow> int \<Rightarrow> int \<Rightarrow> int" where
  "drag_coord a b i steps = a + ((b - a) * i) sdiv steps"

function drag_loop :: "mouse \<Rightarrow> int \<Rightarrow> int \<Rightarrow> int \<Rightarrow> int \<Rightarrow> int \<Rightarrow> int \<Rightarrow> mouse_event list \<Rightarrow> int \<times> mouse_event list" where
  "drag_loop m x0 y0 x1 y1 steps i sent =
     (if i \<le> steps then
        (case write_event m (drag_coord x0 x1 i steps) (drag_coord y0 y1 i steps) 1 sent of
           (r, sent') \<Rightarrow> if r < 0 then (-1, sent') else drag_loop m x0 y0 x1 y1 steps (i + 1) sent')
      else (0, sent))"
  by pat_completeness auto
termination
  by (relation "measure (\<lambda>(m, x0, y0, x1, y1, steps, i, sent). nat (steps + 1 - i))") auto

declare drag_loop.simps [simp del]

definition dblclick :: "mouse \<Rightarrow> bool \<Rightarrow> string list \<Rightarrow> int \<times> mouse_event list" where
  "dblclick m opens args =
     (let x = parse_coord (arg args 1) 32768;
          y = parse_coord (arg args 2) 32768
      in if \<not> opens then (1, [])
         else (case write_events m [(x, y, 0), (x, y, 1), (x, y, 0)] [] of
            (r, sent) \<Rightarrow>
              if r < 0 then (1, sent)
              else (case write_events m [(x, y, 1), (x, y, 0)] sent of
                      (r, sent) \<Rightarrow> (if r < 0 then 1 else 0, sent))))"

definition drag :: "mouse \<Rightarrow> bool \<Rightarrow> string list \<Rightarrow> int \<times> mouse_event list" where
  "drag m opens args =
     (let x0 = parse_coord (arg args 1) 32768;
          y0 = parse_coord (arg args 2) 32768;
          x1 = parse_coord (arg args 3) x0;
          y1 = parse_coord (arg args 4) y0;
          steps = parse_int (arg args 5) 48 1 512
      in if \<not> opens then (1, [])
         else (case write_events m [(x0, y0, 0), (x0, y0, 1)] [] of
            (r, sent) \<Rightarrow>
              if r < 0 then (1, sent)
              else (case drag_loop m x0 y0 x1 y1 steps 1 sent of
                 (r, sent) \<Rightarrow>
                   if r < 0 then (1, sent)
                   else (case write_event m x1 y1 0 sent of
                           (r, sent) \<Rightarrow> (if r < 0 then 1 else 0, sent)))))"

definition single :: "mouse \<Rightarrow> bool \<Rightarrow> string list \<Rightarrow> int \<times> mouse_event list" where
  "single m opens args =
     (let ev = event m (parse_coord (arg args 0) 32768) (parse_coord (arg args 1) 32768) (parse_coord (arg args 2) 0)
      in if \<not> opens then (1, [])
         else if mouse_write m [] ev \<noteq> event_size m then (1, []) else (0, [ev]))"

definition mouseinject_main :: "mouse \<Rightarrow> bool \<Rightarrow> string list \<Rightarrow> int \<times> mouse_event list" where
  "mouseinject_main m opens args =
     (if arg args 0 = Some ''dblclick'' then dblclick m opens args
      else if arg args 0 = Some ''drag'' then drag m opens args
      else single m opens args)"

subsection \<open>The path of a drag\<close>

definition takes_events :: "mouse \<Rightarrow> bool" where
  "takes_events m \<longleftrightarrow> (\<forall>sent ev. mouse_write m sent ev = event_size m)"

text \<open>What a reader of the device sees: coordinates without sign, and the buttons.\<close>

definition seen :: "mouse_event \<Rightarrow> int \<times> int \<times> int" where
  "seen ev = (uint (dx ev), uint (dy ev), uint (buttons ev))"

definition on_screen :: "int \<Rightarrow> bool" where
  "on_screen x \<longleftrightarrow> 0 \<le> x \<and> x < 65536"

lemma parse_coord_on_screen: "on_screen fallback \<Longrightarrow> on_screen (parse_coord s fallback)"
  by (auto simp: parse_coord_def on_screen_def Let_def split: option.splits)

lemma on_screen_default [simp]: "on_screen 32768"
  by (simp add: on_screen_def)

lemma parse_int_range: "lo \<le> fallback \<Longrightarrow> fallback \<le> hi \<Longrightarrow> lo \<le> parse_int s fallback lo hi \<and> parse_int s fallback lo hi \<le> hi"
  by (auto simp: parse_int_def Let_def split: option.splits)

lemma seen_event:
  assumes "on_screen x" "on_screen y" "0 \<le> b" "b < 256"
  shows "seen (event m x y b) = (x, y, b)"
  using assms by (simp add: seen_def event_def on_screen_def uint_word_of_int)

lemma write_event_takes: "takes_events m \<Longrightarrow> write_event m x y b sent = (0, sent @ [event m x y b])"
  by (simp add: write_event_def takes_events_def parse_coord_def)

lemma drag_coord_cases:
  assumes "0 \<le> i" "0 < n"
  shows "drag_coord a b i n = (if a \<le> b then a + (b - a) * i div n else a - (a - b) * i div n)"
proof (cases "a = b \<or> i = 0")
  case False
  then have "sgn ((b - a) * i) = (if a \<le> b then 1 else -1)" "\<bar>(b - a) * i\<bar> = \<bar>b - a\<bar> * i"
    using assms by (auto simp: sgn_mult abs_mult)
  then show ?thesis
    using assms by (auto simp: drag_coord_def signed_divide_int_def)
qed (auto simp: drag_coord_def)

lemma part_of: "0 \<le> i \<Longrightarrow> i \<le> n \<Longrightarrow> 0 < n \<Longrightarrow> 0 \<le> d \<Longrightarrow> 0 \<le> d * i div n \<and> d * i div n \<le> d" for d i n :: int
proof -
  assume n: "0 \<le> i" "i \<le> n" "0 < n" "0 \<le> d"
  then have "d * i div n \<le> d * n div n"
    by (intro zdiv_mono1 mult_left_mono) simp_all
  with n show ?thesis by (simp add: pos_imp_zdiv_nonneg_iff)
qed

lemma drag_coord_between:
  assumes "0 \<le> i" "i \<le> n" "0 < n"
  shows "min a b \<le> drag_coord a b i n" "drag_coord a b i n \<le> max a b"
  using part_of [OF assms, of "b - a"] part_of [OF assms, of "a - b"] assms
  by (auto simp: drag_coord_cases)

lemma drag_coord_distance:
  assumes "0 \<le> i" "i \<le> n" "0 < n"
  shows "\<bar>drag_coord a b i n - a\<bar> = \<bar>b - a\<bar> * i div n"
  using part_of [OF assms, of "b - a"] part_of [OF assms, of "a - b"] assms
  by (auto simp: drag_coord_cases)

lemma drag_coord_end: "0 < n \<Longrightarrow> drag_coord a b n n = b"
  by (simp add: drag_coord_cases)

definition drag_moves :: "int \<Rightarrow> int \<Rightarrow> int \<Rightarrow> int \<Rightarrow> int \<Rightarrow> int \<Rightarrow> (int \<times> int) list" where
  "drag_moves x0 y0 x1 y1 steps i = List.map (\<lambda>i. (drag_coord x0 x1 i steps, drag_coord y0 y1 i steps)) [i..steps]"

lemma drag_loop_moves:
  assumes "takes_events m"
  shows "drag_loop m x0 y0 x1 y1 steps i sent =
    (0, sent @ List.map (\<lambda>(x, y). event m x y 1) (drag_moves x0 y0 x1 y1 steps i))"
  using assms
proof (induction m x0 y0 x1 y1 steps i sent rule: drag_loop.induct)
  case (1 m x0 y0 x1 y1 steps i sent)
  show ?case
  proof (cases "i \<le> steps")
    case True
    with 1 have "drag_loop m x0 y0 x1 y1 steps i sent =
        (0, (sent @ [event m (drag_coord x0 x1 i steps) (drag_coord y0 y1 i steps) 1]) @
          List.map (\<lambda>(x, y). event m x y 1) (drag_moves x0 y0 x1 y1 steps (i + 1)))"
      by (subst drag_loop.simps) (simp add: write_event_takes)
    with True show ?thesis
      by (simp add: drag_moves_def upto_rec1)
  qed (subst drag_loop.simps, simp add: drag_moves_def)
qed

lemma drag_moves_props:
  assumes "0 < n"
  shows "length (drag_moves x0 y0 x1 y1 n 1) = nat n"
    "last (drag_moves x0 y0 x1 y1 n 1) = (x1, y1)"
    "\<forall>(x, y)\<in>set (drag_moves x0 y0 x1 y1 n 1).
       min x0 x1 \<le> x \<and> x \<le> max x0 x1 \<and> min y0 y1 \<le> y \<and> y \<le> max y0 y1"
    "sorted (List.map (\<lambda>(x, y). \<bar>x - x0\<bar>) (drag_moves x0 y0 x1 y1 n 1))"
    "sorted (List.map (\<lambda>(x, y). \<bar>y - y0\<bar>) (drag_moves x0 y0 x1 y1 n 1))"
proof -
  show "length (drag_moves x0 y0 x1 y1 n 1) = nat n"
    by (simp add: drag_moves_def)
  show "last (drag_moves x0 y0 x1 y1 n 1) = (x1, y1)"
    using assms by (simp add: drag_moves_def upto_rec2 drag_coord_end)
  show "\<forall>(x, y)\<in>set (drag_moves x0 y0 x1 y1 n 1).
       min x0 x1 \<le> x \<and> x \<le> max x0 x1 \<and> min y0 y1 \<le> y \<and> y \<le> max y0 y1"
    using drag_coord_between [of _ n] assms by (auto simp: drag_moves_def)
  have distance: "sorted (List.map (\<lambda>i. \<bar>drag_coord a b i n - a\<bar>) [1..n])" for a b
  proof -
    have eq: "List.map (\<lambda>i. \<bar>drag_coord a b i n - a\<bar>) [1..n] = List.map (\<lambda>i. \<bar>b - a\<bar> * i div n) [1..n]"
      using assms by (simp add: drag_coord_distance)
    have "sorted (List.map (\<lambda>i. \<bar>b - a\<bar> * i div n) [1..n])"
      using assms
      by (intro sorted_map_mono [of _ "\<lambda>i. \<bar>b - a\<bar> * i div n"]) (auto intro!: mono_onI zdiv_mono1 mult_left_mono)
    then show ?thesis by (simp only: eq)
  qed
  show "sorted (List.map (\<lambda>(x, y). \<bar>x - x0\<bar>) (drag_moves x0 y0 x1 y1 n 1))"
    using distance [of x0 x1] by (simp add: drag_moves_def comp_def)
  show "sorted (List.map (\<lambda>(x, y). \<bar>y - y0\<bar>) (drag_moves x0 y0 x1 y1 n 1))"
    using distance [of y0 y1] by (simp add: drag_moves_def comp_def)
qed

text \<open>
  A drag, for any arguments, on a device that takes every event: the pointer appears at the
  start with the button up, then down, makes as many moves as there are steps with the button
  down, and lets go at the target.  The moves stay in the box between start and target, never
  turn back, and end at the target; every coordinate survives its 16 bits.
\<close>

theorem mouse_drag_path:
  assumes "takes_events m"
    "x0 = parse_coord (arg (''drag'' # args) 1) 32768" "y0 = parse_coord (arg (''drag'' # args) 2) 32768"
    "x1 = parse_coord (arg (''drag'' # args) 3) x0" "y1 = parse_coord (arg (''drag'' # args) 4) y0"
    "steps = parse_int (arg (''drag'' # args) 5) 48 1 512"
  shows "\<exists>evs moves. mouseinject_main m True (''drag'' # args) = (0, evs) \<and>
    List.map seen evs =
      (x0, y0, 0) # (x0, y0, 1) # List.map (\<lambda>(x, y). (x, y, 1)) moves @ [(x1, y1, 0)] \<and>
    length moves = nat steps \<and> 0 < steps \<and> last moves = (x1, y1) \<and>
    (\<forall>(x, y)\<in>set moves. min x0 x1 \<le> x \<and> x \<le> max x0 x1 \<and> min y0 y1 \<le> y \<and> y \<le> max y0 y1) \<and>
    sorted (List.map (\<lambda>(x, y). \<bar>x - x0\<bar>) moves) \<and> sorted (List.map (\<lambda>(x, y). \<bar>y - y0\<bar>) moves)"
proof -
  have on: "on_screen x0" "on_screen y0" "on_screen x1" "on_screen y1"
    using assms(2-5) by (simp_all add: parse_coord_on_screen)
  have steps: "0 < steps"
    using assms(6) parse_int_range [of 1 48 512 "arg (''drag'' # args) 5"] by simp
  let ?moves = "drag_moves x0 y0 x1 y1 steps 1"
  let ?evs = "[event m x0 y0 0, event m x0 y0 1] @ List.map (\<lambda>(x, y). event m x y 1) ?moves @ [event m x1 y1 0]"
  have "on_screen x \<and> on_screen y" if "(x, y) \<in> set ?moves" for x y
    using that drag_moves_props(3) [OF steps] on by (fastforce simp: on_screen_def)
  then have "List.map seen ?evs =
      (x0, y0, 0) # (x0, y0, 1) # List.map (\<lambda>(x, y). (x, y, 1)) ?moves @ [(x1, y1, 0)]"
    using on by (auto simp: seen_event)
  moreover have "mouseinject_main m True (''drag'' # args) = (0, ?evs)"
    using assms by (simp add: mouseinject_main_def drag_def arg_def Let_def write_event_takes drag_loop_moves)
  ultimately show ?thesis
    by (intro exI [of _ ?evs] exI [of _ ?moves] conjI drag_moves_props [OF steps] steps)
qed

definition good_mouse :: mouse where
  "good_mouse = \<lparr>f_absolute = 1, event_size = 8, mouse_write = (\<lambda>sent ev. 8)\<rparr>"

theorem mouse_drag_path_witness:
  "\<exists>evs moves. mouseinject_main good_mouse True [''drag'', ''10'', ''70000'', ''1'', ''2'', ''4''] = (0, evs) \<and>
    List.map seen evs =
      (10, 65535, 0) # (10, 65535, 1) # List.map (\<lambda>(x, y). (x, y, 1)) moves @ [(1, 2, 0)] \<and>
    length moves = 4 \<and> last moves = (1, 2)"
proof -
  have "takes_events good_mouse" by (simp add: takes_events_def good_mouse_def)
  moreover have "parse_coord (Some ''10'') 32768 = 10" "parse_coord (Some ''70000'') 32768 = 65535"
    "parse_coord (Some ''1'') 10 = 1" "parse_coord (Some ''2'') 65535 = 2" "parse_int (Some ''4'') 48 1 512 = 4"
    by code_simp+
  ultimately show ?thesis
    using mouse_drag_path [of good_mouse 10 "[''10'', ''70000'', ''1'', ''2'', ''4'']" 65535 1 2 4]
    by (fastforce simp: arg_def)
qed

text \<open>A double click presses and releases the button twice at one place.\<close>

theorem mouse_dblclick:
  assumes "takes_events m" "x = parse_coord (arg (''dblclick'' # args) 1) 32768"
    "y = parse_coord (arg (''dblclick'' # args) 2) 32768"
  shows "\<exists>evs. mouseinject_main m True (''dblclick'' # args) = (0, evs) \<and>
    List.map seen evs = [(x, y, 0), (x, y, 1), (x, y, 0), (x, y, 1), (x, y, 0)]"
proof -
  have "on_screen x" "on_screen y"
    using assms by (simp_all add: parse_coord_on_screen)
  with assms show ?thesis
    by (simp add: mouseinject_main_def dblclick_def arg_def Let_def write_event_takes seen_event)
qed

end
