(* ===== verification/PrintfTypes.thy ===== *)
theory PrintfTypes
  imports Printf
begin

section \<open>Formats and the types of their arguments\<close>

text \<open>
  Whether a call of the formatters is well formed depends on the format and on the types of the
  arguments only, not on their values.  So one evaluation with sample arguments shows that all calls
  with the same format and argument types print a text.
\<close>

datatype arg_type = TInt | TLong | TStr

fun type_of_arg :: "arg \<Rightarrow> arg_type" where
  "type_of_arg (VInt w) = TInt"
| "type_of_arg (VLong w) = TLong"
| "type_of_arg (VStr s) = TStr"

abbreviation types :: "arg list \<Rightarrow> arg_type list" where
  "types \<equiv> List.map type_of_arg"

definition sample_arg :: "arg_type \<Rightarrow> arg" where
  "sample_arg t = (case t of TInt \<Rightarrow> VInt 0 | TLong \<Rightarrow> VLong 0 | TStr \<Rightarrow> VStr None)"

lemma type_sample_arg [simp]: "type_of_arg (sample_arg t) = t"
  by (cases t) (simp_all add: sample_arg_def)

text \<open>The decision: does a call with arguments of these types print a text?\<close>

definition format_ok :: "string \<Rightarrow> arg_type list \<Rightarrow> bool" where
  "format_ok fmt ts \<longleftrightarrow>
     render [] fmt (List.map sample_arg ts) \<noteq> None \<and> render ''%n'' fmt (List.map sample_arg ts) \<noteq> None"

lemma types_Cons:
  "types bs = type_of_arg a # ts \<longleftrightarrow> (\<exists>b bs'. bs = b # bs' \<and> type_of_arg b = type_of_arg a \<and> types bs' = ts)"
  by (cases bs) auto

lemma type_eqs [simp]:
  "type_of_arg a = TInt \<longleftrightarrow> (\<exists>w. a = VInt w)" "TInt = type_of_arg a \<longleftrightarrow> (\<exists>w. a = VInt w)"
  "type_of_arg a = TLong \<longleftrightarrow> (\<exists>w. a = VLong w)" "TLong = type_of_arg a \<longleftrightarrow> (\<exists>w. a = VLong w)"
  "type_of_arg a = TStr \<longleftrightarrow> (\<exists>w. a = VStr w)" "TStr = type_of_arg a \<longleftrightarrow> (\<exists>w. a = VStr w)"
  by (cases a; auto)+

lemma parse_number_types:
  assumes "parse_number fmt as = Some (f, n, as')" "types as = types bs"
  shows "\<exists>m bs'. parse_number fmt bs = Some (f, m, bs') \<and> types as' = types bs'"
proof (cases "fmt = [] \<or> hd fmt \<noteq> CHR ''*''")
  case True
  then show ?thesis using assms by (cases fmt) (auto simp: parse_number_def split: prod.splits)
next
  case False
  then obtain rest where "fmt = CHR ''*'' # rest" by (cases fmt) auto
  then show ?thesis
    using assms by (auto simp: parse_number_def Cons_eq_map_conv split: list.splits arg.splits)
qed

lemma parse_precision_types:
  assumes "parse_precision fmt as = Some (f, n, as')" "types as = types bs"
  shows "\<exists>m bs'. parse_precision fmt bs = Some (f, m, bs') \<and> types as' = types bs'"
proof (cases "fmt \<noteq> [] \<and> hd fmt = CHR ''.''")
  case True
  then obtain rest where f: "fmt = CHR ''.'' # rest" by (cases fmt) auto
  with assms(1) obtain p where "parse_number rest as = Some (f, p, as')"
    by (auto simp: parse_precision_def)
  from parse_number_types [OF this assms(2)] obtain m bs' where
    "parse_number rest bs = Some (f, m, bs')" "types as' = types bs'" by blast
  then show ?thesis
    by (intro exI [of _ "if m < 0 then 0 else m"] exI [of _ bs']) (simp add: f parse_precision_def)
qed (use assms in \<open>auto simp: parse_precision_def split: list.splits\<close>)

lemma parse_directive_types:
  assumes "parse_directive fmt as = Some (f, d, as')" "types as = types bs"
  shows "\<exists>e bs'. parse_directive fmt bs = Some (f, e, bs') \<and> d_long e = d_long d \<and> types as' = types bs'"
proof -
  obtain f1 fl where p: "parse_flags fmt {} = (f1, fl)" by fastforce
  with assms(1) obtain f2 w as1 f3 pr as2 l where
    1: "parse_number f1 as = Some (f2, w, as1)" and 2: "parse_precision f2 as1 = Some (f3, pr, as2)"
    and 3: "parse_length f3 = (f, l)" "d = \<lparr>d_flags = fl, d_width = w, d_prec = pr, d_long = l\<rparr>" "as' = as2"
    by (auto simp: parse_directive_def split: prod.splits Option.bind_splits)
  obtain w' bs1 where 4: "parse_number f1 bs = Some (f2, w', bs1)" "types as1 = types bs1"
    using parse_number_types [OF 1 assms(2)] by blast
  obtain pr' bs2 where "parse_precision f2 bs1 = Some (f3, pr', bs2)" "types as2 = types bs2"
    using parse_precision_types [OF 2 4(2)] by blast
  with p 3 4 show ?thesis by (simp add: parse_directive_def)
qed

lemma gen_digits_total: "\<exists>ds. gen_digits 32 dig base (unat (w :: 64 word)) = Some ds"
  if "base = 8 \<or> base = 10 \<or> base = 16" for base
proof -
  have "unat w < 2 ^ 64" by (rule order.strict_trans2 [OF unsigned_less]) simp
  also have "(2::nat) ^ 64 \<le> base ^ 22" using that by auto
  finally have "unat w < base ^ 22" .
  then show ?thesis
    using gen_digits_value [of base 22 "unat w" dig] gen_digits_more [of 22 dig base "unat w" _ 10] that by fastforce
qed

lemma format_int_total: "base = 8 \<or> base = 10 \<or> base = 16 \<Longrightarrow> format_int val base is_signed flags \<noteq> None"
  using gen_digits_total [of base] by (auto simp: format_int_def Let_def)

lemma take_number_types:
  "take_number l sg as = Some (v, as') \<Longrightarrow> types as = types bs \<Longrightarrow>
   \<exists>u bs'. take_number l sg bs = Some (u, bs') \<and> types as' = types bs'"
  by (cases as) (auto simp: Cons_eq_map_conv elim!: take_number.elims split: if_splits)

lemma number_text_types:
  assumes "number_text c d as = Some (s, as')" "types as = types bs" "d_long e = d_long d"
  shows "\<exists>s' bs'. number_text c e bs = Some (s', bs') \<and> types as' = types bs'"
proof -
  let ?sg = "c = CHR ''d'' \<or> c = CHR ''i''"
  let ?base = "if c = CHR ''x'' \<or> c = CHR ''X'' then 16 else if c = CHR ''o'' then 8 else 10 :: nat"
  obtain v as1 where "take_number (d_long d) ?sg as = Some (v, as1)" "as' = as1"
    using assms(1) by (auto simp: number_text_def Let_def split: Option.bind_splits prod.splits)
  then obtain u bs' where u: "take_number (d_long e) ?sg bs = Some (u, bs')" "types as' = types bs'"
    using take_number_types [OF _ assms(2)] assms(3) by metis
  let ?fl = "if c = CHR ''x'' then d_flags e - {UPPER} else if c = CHR ''X'' then insert UPPER (d_flags e) else d_flags e"
  have "format_int u ?base ?sg ?fl \<noteq> None"
    by (rule format_int_total) simp
  then obtain s' where "format_int u ?base ?sg ?fl = Some s'" by blast
  then have "number_text c e bs = Some (s', bs')"
    unfolding number_text_def Let_def using u(1) by simp
  with u(2) show ?thesis by blast
qed

lemma directive_text_types:
  assumes "directive_text t c d as = Some (s, as')" "types as = types bs" "d_long e = d_long d"
  shows "\<exists>s' bs'. directive_text t c e bs = Some (s', bs') \<and> types as' = types bs'"
proof (cases "numeric c")
  case True
  with assms(1) obtain s1 where "number_text c d as = Some (s1, as')"
    by (auto simp: directive_text_def)
  from number_text_types [OF this assms(2,3)] True show ?thesis
    by (auto simp: directive_text_def)
next
  case False
  then show ?thesis
    using assms by (cases as; cases bs)
      (auto simp: directive_text_def elim!: take_ptr.elims take_str.elims take_char.elims split: if_splits)
qed

lemma render_types:
  "types as = types bs \<Longrightarrow> render t fmt as \<noteq> None \<Longrightarrow> render t fmt bs \<noteq> None"
proof (induction "length fmt" arbitrary: fmt as bs rule: less_induct)
  case less
  show ?case
  proof (cases fmt)
    case (Cons c f)
    show ?thesis
    proof (cases "c = CHR ''%'' \<and> f \<noteq> []")
      case False
      then show ?thesis
        using less.prems less.hyps [of f as bs] by (auto simp: Cons render.simps(2))
    next
      case True
      then obtain x f' d as1 s as2 where p: "parse_directive f as = Some (x # f', d, as1)"
          "directive_text t x d as1 = Some (s, as2)" "render t f' as2 \<noteq> None"
        using less.prems(2) by (auto simp: Cons render.simps(2) split: option.splits list.splits)
      obtain e bs1 where b: "parse_directive f bs = Some (x # f', e, bs1)" "d_long e = d_long d" "types as1 = types bs1"
        using parse_directive_types [OF p(1) less.prems(1)] by blast
      obtain s' bs2 where c: "directive_text t x e bs1 = Some (s', bs2)" "types as2 = types bs2"
        using directive_text_types [OF p(2) b(3,2)] by blast
      have "length f' < length fmt" using parse_directive_le [OF p(1)] by (simp add: Cons)
      then have "render t f' bs2 \<noteq> None" using less.hyps c(2) p(3) by blast
      with True b c show ?thesis by (simp add: Cons render.simps(2))
    qed
  qed simp
qed

text \<open>A call whose arguments have the types that its format asks for prints a text.\<close>

lemma format_okD:
  assumes "format_ok fmt (types args)"
  shows "render [] fmt args \<noteq> None" "render ''%n'' fmt args \<noteq> None"
  using render_types [of "List.map sample_arg (types args)" args "[]" fmt]
    render_types [of "List.map sample_arg (types args)" args "''%n''" fmt] assms
  by (simp_all add: format_ok_def comp_def)

lemma format_ok_vprintf: "format_ok fmt (types args) \<Longrightarrow> vprintf fmt args \<noteq> None"
  using format_okD(1) [of fmt args] vprintf_loop_renders [of fmt args _ "[]" "[]"] by (fastforce simp: vprintf_def)

lemma format_ok_vsnprintf:
  "format_ok fmt (types args) \<Longrightarrow> 0 < cap \<Longrightarrow> cap \<le> length buf \<Longrightarrow> vsnprintf buf cap fmt args \<noteq> None"
  using format_okD(2) [of fmt args] vsnprintf_text [of fmt args _ cap buf] by fastforce

end
