(* ===== verification/TopParse.thy ===== *)
theory TopParse
  imports Io Printf
begin

section \<open>top.c: reading the reports of the kernel\<close>

text \<open>
  Top reads the text files of a Linux-shaped \<open>/proc\<close> into snapshots.  What the kernel answers
  while one snapshot is taken is a parameter: the contents behind every path, read through
  descriptors in pieces, and the entries of the directory \<open>/proc\<close>, in the portions that
  \<open>getdents\<close> gives.  \<open>int\<close> is a 32-bit word, \<open>uint64\<close> a 64-bit word.
\<close>

record 's procfs =
  fs_open :: "string \<Rightarrow> 's option"
  fs_read :: "'s reader"
  proc_entries :: "(nat \<times> string) list list option"

record proc_snap =
  pid :: "32 word"
  ppid :: "32 word"
  uid :: "32 word"
  name :: string
  state :: string
  vm_kb :: "64 word"
  cputime_ticks :: "64 word"
  p_fs_bytes_read :: "64 word"
  p_fs_bytes_written :: "64 word"
  p_net_bytes_sent :: "64 word"
  p_net_bytes_recv :: "64 word"
  p_bio_reads :: "64 word"
  p_bio_writes :: "64 word"

record cpu_snap =
  busy_ticks :: "64 word"
  total_ticks :: "64 word"

record sys_snap =
  uptime_ms :: "64 word"
  load_avg_5s_x100 :: "64 word"
  cpu_busy :: "64 word"
  cpu_total :: "64 word"
  cpu :: "cpu_snap list"
  fs_bytes_read :: "64 word"
  fs_bytes_written :: "64 word"
  net_bytes_sent :: "64 word"
  net_bytes_recv :: "64 word"
  bio_reads :: "64 word"
  bio_writes :: "64 word"

definition MAX_PROCS :: nat where "MAX_PROCS = 128"
definition MAX_CPUS :: nat where "MAX_CPUS = 64"
definition MAX_USERS :: nat where "MAX_USERS = 64"
definition MAX_UNAME :: nat where "MAX_UNAME = 16"

subsection \<open>Strings\<close>

fun strncmp_local :: "string \<Rightarrow> string \<Rightarrow> nat \<Rightarrow> int" where
  "strncmp_local a b 0 = 0"
| "strncmp_local a b (Suc n) =
     (if deref a \<noteq> deref b then uc (deref a) - uc (deref b)
      else if deref a = NUL then 0
      else strncmp_local (tl a) (tl b) n)"

interpretation top_cmp: bounded_strcmp strncmp_local
proof
  show "strncmp_local a b n = 0 \<longleftrightarrow> take n a = take n b" if "cstring a" "cstring b" for a b n
    using that
  proof (induction a b n rule: strncmp_local.induct)
    case (2 a b n)
    then show ?case by (cases a; cases b) auto
  qed simp
qed

definition is_numeric :: "string \<Rightarrow> bool" where
  "is_numeric s \<longleftrightarrow> s \<noteq> [] \<and> list_all is_digit s"

definition u64_step :: "64 word \<Rightarrow> char \<Rightarrow> 64 word" where
  "u64_step v c = v * 10 + word_of_int (sc c - 48)"

definition parse_u64_token :: "string \<Rightarrow> 64 word" where
  "parse_u64_token s = foldl u64_step 0 (takeWhile is_digit s)"

definition parse_u64_field :: "string \<Rightarrow> string \<Rightarrow> 64 word option" where
  "parse_u64_field line key =
     (let klen = length key
      in if strncmp_local line key klen \<noteq> 0 then None
         else Some (foldl u64_step 0
           (takeWhile is_digit (dropWhile (\<lambda>c. c = CHR '':'' \<or> c = CHR 0x09 \<or> c = CHR '' '') (drop klen line)))))"

subsection \<open>Files\<close>

text \<open>
  The loop that fills a buffer of which \<open>room\<close> bytes are left, and the string that it holds in the
  end: a terminator is put behind the bytes, and the first zero byte ends the string.
\<close>

function read_loop :: "'s reader \<Rightarrow> 's \<Rightarrow> nat \<Rightarrow> string \<Rightarrow> string" where
  "read_loop rd s room got =
     (if room = 0 then got
      else case rd s room of
        None \<Rightarrow> got
      | Some (bs, s') \<Rightarrow>
          if bs = [] then got else read_loop rd s' (room - length bs) (got @ bs))"
  by pat_completeness auto
termination
  by (relation "measure (\<lambda>(rd, s, room, got). room)") auto

declare read_loop.simps [simp del]

definition read_file_into :: "'s procfs \<Rightarrow> string \<Rightarrow> nat \<Rightarrow> string option" where
  "read_file_into fs path bufsz =
     map_option (\<lambda>s. read_loop (fs_read fs) s (bufsz - 1) []) (fs_open fs path)"

definition c_string :: "string \<Rightarrow> string" where
  "c_string = takeWhile (\<lambda>c. c \<noteq> NUL)"

text \<open>The file as a string, if it can be opened and is not empty.\<close>

definition file_string :: "'s procfs \<Rightarrow> string \<Rightarrow> nat \<Rightarrow> string option" where
  "file_string fs path bufsz =
     (case read_file_into fs path bufsz of
        None \<Rightarrow> None
      | Some bs \<Rightarrow> if bs = [] then None else Some (c_string bs))"

text \<open>The lines as the parsers cut them: what is behind the last newline counts if it is not empty.\<close>

function lines :: "string \<Rightarrow> string list" where
  "lines p =
     (if p = [] then []
      else takeWhile (\<lambda>c. c \<noteq> CHR 0x0A) p #
        (if CHR 0x0A \<in> set p then lines (tl (dropWhile (\<lambda>c. c \<noteq> CHR 0x0A) p)) else []))"
  by pat_completeness auto
termination
  by (relation "measure length") (simp_all only: in_measure wf_measure rest_less not_False_eq_True)

declare lines.simps [simp del]

text \<open>A path below \<open>/proc\<close>, printed into a buffer of 64 bytes.\<close>

definition print_into :: "nat \<Rightarrow> string \<Rightarrow> Printf.arg list \<Rightarrow> string option" where
  "print_into size_buf fmt args =
     map_option (\<lambda>(buf, n). str_at buf 0) (vsnprintf (replicate size_buf NUL) size_buf fmt args)"

definition proc_file :: "'s procfs \<Rightarrow> string \<Rightarrow> 32 word \<Rightarrow> nat \<Rightarrow> string option" where
  "proc_file fs fmt p bufsz = Option.bind (print_into 64 fmt [VInt p]) (\<lambda>path. file_string fs path bufsz)"

subsection \<open>One process\<close>

definition empty_snap :: proc_snap where
  "empty_snap = \<lparr>pid = 0, ppid = 0, uid = 0, name = [], state = [], vm_kb = 0, cputime_ticks = 0,
     p_fs_bytes_read = 0, p_fs_bytes_written = 0, p_net_bytes_sent = 0, p_net_bytes_recv = 0,
     p_bio_reads = 0, p_bio_writes = 0\<rparr>"

definition status_line :: "string \<Rightarrow> proc_snap \<Rightarrow> proc_snap" where
  "status_line p ps =
     (if strncmp_local p (''Name:'' @ [CHR 0x09]) 6 = 0 then ps\<lparr>name := take 16 (drop 6 p)\<rparr>
      else if strncmp_local p (''State:'' @ [CHR 0x09]) 7 = 0 then ps\<lparr>state := take 7 (drop 7 p)\<rparr>
      else case parse_u64_field p ''Pid'' of
        Some tmp \<Rightarrow> ps\<lparr>pid := ucast tmp\<rparr>
      | None \<Rightarrow>
        (case parse_u64_field p ''PPid'' of
           Some tmp \<Rightarrow> ps\<lparr>ppid := ucast tmp\<rparr>
         | None \<Rightarrow>
           (case parse_u64_field p ''Uid'' of
              Some tmp \<Rightarrow> ps\<lparr>uid := ucast tmp\<rparr>
            | None \<Rightarrow>
              (case parse_u64_field p ''VmSize'' of
                 Some tmp \<Rightarrow> ps\<lparr>vm_kb := tmp\<rparr>
               | None \<Rightarrow> ps))))"

definition parse_status :: "'s procfs \<Rightarrow> 32 word \<Rightarrow> proc_snap \<Rightarrow> proc_snap option" where
  "parse_status fs p ps =
     map_option (\<lambda>buf. fold status_line (lines buf)
         (ps\<lparr>pid := p, ppid := 0, uid := -1, name := [], state := [], vm_kb := 0, cputime_ticks := 0\<rparr>))
       (proc_file fs ''/proc/%d/status'' p 512)"

function stat_loop :: "string \<Rightarrow> nat \<Rightarrow> 64 word \<Rightarrow> 64 word \<Rightarrow> 64 word \<times> 64 word" where
  "stat_loop p field utime stime =
     (if p = [] \<or> 15 < field then (utime, stime)
      else
        (let start = dropWhile (\<lambda>c. c = CHR '' '') p;
             p = dropWhile (\<lambda>c. c \<noteq> CHR '' '') start
         in stat_loop p (field + 1)
              (if field = 14 then parse_u64_token start else utime)
              (if field = 15 then parse_u64_token start else stime)))"
  by pat_completeness auto
termination
  by (relation "measure (\<lambda>(p, field, utime, stime). 16 - field)") auto

declare stat_loop.simps [simp del]

text \<open>What is behind the last closing parenthesis.\<close>

definition after_comm :: "string \<Rightarrow> string option" where
  "after_comm buf =
     (if CHR '')'' \<in> set buf then Some (rev (takeWhile (\<lambda>c. c \<noteq> CHR '')'') (rev buf))) else None)"

definition parse_pid_stat :: "'s procfs \<Rightarrow> 32 word \<Rightarrow> proc_snap \<Rightarrow> proc_snap" where
  "parse_pid_stat fs p ps =
     (case proc_file fs ''/proc/%d/stat'' p 512 of
        None \<Rightarrow> ps
      | Some buf \<Rightarrow>
          (case after_comm buf of
             None \<Rightarrow> ps
           | Some rest \<Rightarrow>
               (case stat_loop (dropWhile (\<lambda>c. c = CHR '' '') rest) 3 0 0 of
                  (utime, stime) \<Rightarrow> ps\<lparr>cputime_ticks := utime + stime\<rparr>)))"

definition set_field :: "string \<Rightarrow> string \<Rightarrow> 64 word \<Rightarrow> 64 word" where
  "set_field line key old = (case parse_u64_field line key of Some v \<Rightarrow> v | None \<Rightarrow> old)"

definition resource_line :: "string \<Rightarrow> proc_snap \<Rightarrow> proc_snap" where
  "resource_line p ps =
     ps\<lparr>p_fs_bytes_read := set_field p ''fs_bytes_read'' (p_fs_bytes_read ps),
        p_fs_bytes_written := set_field p ''fs_bytes_written'' (p_fs_bytes_written ps),
        p_net_bytes_sent := set_field p ''net_bytes_sent'' (p_net_bytes_sent ps),
        p_net_bytes_recv := set_field p ''net_bytes_recv'' (p_net_bytes_recv ps),
        p_bio_reads := set_field p ''bio_reads'' (p_bio_reads ps),
        p_bio_writes := set_field p ''bio_writes'' (p_bio_writes ps)\<rparr>"

definition parse_resources :: "'s procfs \<Rightarrow> 32 word \<Rightarrow> proc_snap \<Rightarrow> proc_snap" where
  "parse_resources fs p ps =
     (case proc_file fs ''/proc/%d/resources'' p 2048 of
        None \<Rightarrow> ps
      | Some buf \<Rightarrow> fold resource_line (lines buf) ps)"

definition proc_entry :: "'s procfs \<Rightarrow> nat \<times> string \<Rightarrow> proc_snap list \<Rightarrow> proc_snap list" where
  "proc_entry fs de procs =
     (case de of (ino, nm) \<Rightarrow>
        if ino \<noteq> 0 \<and> is_numeric nm \<and> length procs < MAX_PROCS then
          (let p = word_of_int (atoi nm)
           in case parse_status fs p empty_snap of
                None \<Rightarrow> procs
              | Some ps \<Rightarrow> procs @ [parse_resources fs p (parse_pid_stat fs p ps)])
        else procs)"

text \<open>The processes of a snapshot; a directory that cannot be opened leaves none.\<close>

definition scan_procs :: "'s procfs \<Rightarrow> proc_snap list" where
  "scan_procs fs =
     (case proc_entries fs of
        None \<Rightarrow> []
      | Some portions \<Rightarrow> fold (fold (proc_entry fs)) portions [])"

definition find_by_pid :: "proc_snap list \<Rightarrow> 32 word \<Rightarrow> proc_snap option" where
  "find_by_pid procs p = List.find (\<lambda>ps. pid ps = p) procs"

subsection \<open>The system\<close>

definition scale_frac :: "64 word \<Rightarrow> nat \<Rightarrow> 64 word" where
  "scale_frac frac k = (if k = 0 then frac * 100 else if k = 1 then frac * 10 else frac)"

definition parse_decimal_x100 :: "string \<Rightarrow> 64 word" where
  "parse_decimal_x100 s =
     (let whole = parse_u64_token s;
          rest = dropWhile is_digit s;
          digits = (if deref rest = CHR ''.'' then take 2 (takeWhile is_digit (tl rest)) else [])
      in whole * 100 + scale_frac (foldl u64_step 0 digits) (length digits))"

definition next_token :: "string \<Rightarrow> string" where
  "next_token line = dropWhile (\<lambda>c. c = CHR '' '') (dropWhile (\<lambda>c. c \<noteq> CHR '' '') line)"

fun cpu_values :: "nat \<Rightarrow> string \<Rightarrow> 64 word list" where
  "cpu_values 0 line = []"
| "cpu_values (Suc room) line =
     (if line = [] then [] else parse_u64_token line # cpu_values room (next_token line))"

definition parse_cpu_line :: "string \<Rightarrow> 64 word \<times> 64 word" where
  "parse_cpu_line line =
     (let vals = cpu_values 10 (next_token line);
          sum = sum_list vals;
          idle = (if 3 < length vals then vals ! 3 else 0) + (if 4 < length vals then vals ! 4 else 0)
      in (if idle < sum then sum - idle else 0, sum))"

definition empty_sys :: sys_snap where
  "empty_sys = \<lparr>uptime_ms = 0, load_avg_5s_x100 = 0, cpu_busy = 0, cpu_total = 0, cpu = [],
     fs_bytes_read = 0, fs_bytes_written = 0, net_bytes_sent = 0, net_bytes_recv = 0,
     bio_reads = 0, bio_writes = 0\<rparr>"

definition read_proc_uptime :: "'s procfs \<Rightarrow> sys_snap \<Rightarrow> sys_snap" where
  "read_proc_uptime fs ss =
     (case file_string fs ''/proc/uptime'' 128 of
        None \<Rightarrow> ss
      | Some buf \<Rightarrow> ss\<lparr>uptime_ms := parse_decimal_x100 buf * 10\<rparr>)"

definition read_proc_loadavg :: "'s procfs \<Rightarrow> sys_snap \<Rightarrow> sys_snap" where
  "read_proc_loadavg fs ss =
     (case file_string fs ''/proc/loadavg'' 128 of
        None \<Rightarrow> ss
      | Some buf \<Rightarrow> ss\<lparr>load_avg_5s_x100 := parse_decimal_x100 (next_token buf)\<rparr>)"

definition stat_line :: "string \<Rightarrow> sys_snap \<Rightarrow> sys_snap" where
  "stat_line line ss =
     (if strncmp_local line ''cpu '' 4 = 0 then
        (case parse_cpu_line line of (busy, all) \<Rightarrow> ss\<lparr>cpu_busy := busy, cpu_total := all\<rparr>)
      else if strncmp_local line ''cpu'' 3 = 0 \<and> is_digit (deref (drop 3 line)) \<and> length (cpu ss) < MAX_CPUS then
        (case parse_cpu_line line of
           (busy, all) \<Rightarrow> ss\<lparr>cpu := cpu ss @ [\<lparr>busy_ticks = busy, total_ticks = all\<rparr>]\<rparr>)
      else ss)"

definition read_proc_stat :: "'s procfs \<Rightarrow> sys_snap \<Rightarrow> sys_snap" where
  "read_proc_stat fs ss =
     (case file_string fs ''/proc/stat'' 2048 of
        None \<Rightarrow> ss
      | Some buf \<Rightarrow> fold stat_line (lines buf) ss)"

definition read_system_snapshot :: "'s procfs \<Rightarrow> sys_snap" where
  "read_system_snapshot fs = read_proc_stat fs (read_proc_loadavg fs (read_proc_uptime fs empty_sys))"

definition fill_io_totals :: "proc_snap list \<Rightarrow> sys_snap \<Rightarrow> sys_snap" where
  "fill_io_totals procs ss =
     ss\<lparr>fs_bytes_read := sum_list (List.map p_fs_bytes_read procs),
        fs_bytes_written := sum_list (List.map p_fs_bytes_written procs),
        net_bytes_sent := sum_list (List.map p_net_bytes_sent procs),
        net_bytes_recv := sum_list (List.map p_net_bytes_recv procs),
        bio_reads := sum_list (List.map p_bio_reads procs),
        bio_writes := sum_list (List.map p_bio_writes procs)\<rparr>"

subsection \<open>Users\<close>

record uid_entry =
  u_uid :: "32 word"
  u_name :: string

definition int_step :: "32 word \<Rightarrow> char \<Rightarrow> 32 word" where
  "int_step u c = u * 10 + word_of_int (sc c - 48)"

definition passwd_entry :: "string \<Rightarrow> uid_entry option" where
  "passwd_entry line =
     (if CHR '':'' \<notin> set line then None
      else
        (let rest = tl (dropWhile (\<lambda>c. c \<noteq> CHR '':'') line)
         in if CHR '':'' \<notin> set rest then None
            else Some
              \<lparr>u_uid = foldl int_step 0 (takeWhile is_digit (tl (dropWhile (\<lambda>c. c \<noteq> CHR '':'') rest))),
               u_name = take (MAX_UNAME - 1) (takeWhile (\<lambda>c. c \<noteq> CHR '':'') line)\<rparr>))"

fun passwd_loop :: "string list \<Rightarrow> uid_entry list \<Rightarrow> uid_entry list" where
  "passwd_loop [] cache = cache"
| "passwd_loop (line # rest) cache =
     (if length cache < MAX_USERS
      then passwd_loop rest (case passwd_entry line of None \<Rightarrow> cache | Some e \<Rightarrow> cache @ [e])
      else cache)"

definition load_passwd :: "'s procfs \<Rightarrow> uid_entry list" where
  "load_passwd fs =
     (case read_file_into fs ''/etc/passwd'' 2048 of
        None \<Rightarrow> []
      | Some bs \<Rightarrow> passwd_loop (lines (c_string bs)) [])"

definition uid_to_name :: "uid_entry list \<Rightarrow> 32 word \<Rightarrow> string option" where
  "uid_to_name cache u = map_option u_name (List.find (\<lambda>e. u_uid e = u) cache)"

end
