(* ===== verification/TopFiles.thy ===== *)
theory TopFiles
  imports TopParse
begin

section \<open>Reading back what the kernel reports\<close>

text \<open>
  The files of \<open>/proc\<close> as Linux lays them out, written by functions from the state of a process,
  and the proof that the parsers of top read that state back: for names with blanks and
  parentheses in them, with lines in between that top does not know, through reads of any size.
\<close>

subsection \<open>Files and lines\<close>

lemma read_loop_reads:
  assumes "reads rd contents"
  shows "read_loop rd s room got = got @ take room (contents s)"
  using assms
proof (induction rd s room got rule: read_loop.induct)
  case (1 rd s room got)
  obtain bs s' where r: "rd s room = Some (bs, s')" "contents s = bs @ contents s'" "length bs \<le> room"
      "bs = [] \<longrightarrow> room = 0 \<or> contents s = []"
    using readsE [OF "1.prems"] by metis
  show ?case
  proof (cases "room = 0 \<or> bs = []")
    case False
    then have "read_loop rd s' (room - length bs) (got @ bs) = (got @ bs) @ take (room - length bs) (contents s')"
      using "1.IH" [OF _ r(1) refl] "1.prems" by simp
    with False r show ?thesis by (subst read_loop.simps) simp
  qed (use r in \<open>auto simp: read_loop.simps [of rd s]\<close>)
qed

definition join_lines :: "string list \<Rightarrow> string" where
  "join_lines ls = concat (List.map (\<lambda>l. l @ [CHR 0x0A]) ls)"

definition plain :: "string \<Rightarrow> bool" where
  "plain l \<longleftrightarrow> CHR 0x0A \<notin> set l \<and> cstring l"

lemma lines_line: "CHR 0x0A \<notin> set l \<Longrightarrow> lines (l @ CHR 0x0A # p) = l # lines p"
proof -
  assume "CHR 0x0A \<notin> set l"
  then have "\<forall>c\<in>set l. c \<noteq> CHR 0x0A" by auto
  then show ?thesis by (subst lines.simps) (simp add: takeWhile_tail dropWhile_append3)
qed

lemma lines_join: "\<forall>l\<in>set ls. plain l \<Longrightarrow> lines (join_lines ls) = ls"
proof (induction ls)
  case (Cons l ls)
  then show ?case by (simp add: join_lines_def plain_def lines_line)
qed (simp add: join_lines_def lines.simps)

lemma cstring_join: "\<forall>l\<in>set ls. plain l \<Longrightarrow> cstring (join_lines ls)"
  by (induction ls) (auto simp: join_lines_def plain_def cstring_def)

lemma c_string_cstring [simp]: "cstring s \<Longrightarrow> c_string s = s"
  by (auto simp: c_string_def cstring_def)

subsection \<open>Numbers\<close>

interpretation u64_digits: digit_reader u64_step uint "2 ^ 64"
proof
  fix c and n :: "64 word" assume "is_digit c"
  then have "u64_step n c = word_of_int (10 * uint n + int (digit c))"
    by (simp add: u64_step_def int_digit)
  then have "uint (u64_step n c) = (10 * uint n + int (digit c)) mod 2 ^ 64"
    by (simp only: uint_word_of_int) simp
  then show "uint (u64_step n c) mod 2 ^ 64 = (10 * uint n + int (digit c)) mod 2 ^ 64"
    by simp
qed

lemma u64_digits_value:
  assumes "\<forall>c\<in>set ds. is_digit c"
  shows "foldl u64_step 0 ds = of_nat (dec_value ds)"
proof -
  have "uint (foldl u64_step 0 ds) mod 2 ^ 64 = int (dec_value ds) mod 2 ^ 64"
    using assms by (rule u64_digits.fold_digits_zero) simp
  then have "uint (foldl u64_step 0 ds) = uint (of_nat (dec_value ds) :: 64 word)"
    using uint_bounds64 [of "foldl u64_step 0 ds"] by (simp add: unsigned_of_nat take_bit_eq_mod zmod_int)
  then show ?thesis by (rule word_uint_eqI)
qed

text \<open>A number in decimal.\<close>

fun dec :: "nat \<Rightarrow> string" where
  "dec n = (if n < 10 then [digits_lower ! n] else dec (n div 10) @ [digits_lower ! (n mod 10)])"

declare dec.simps [simp del]

lemma dec_digits: "(\<forall>c\<in>set (dec n). is_digit c) \<and> dec_value (dec n) = n \<and> dec n \<noteq> []"
proof (induction n rule: dec.induct)
  case (1 n)
  then show ?case
    by (subst (1 2 3) dec.simps) (auto simp: digit_chars)
qed

lemma dec_digit: "c \<in> set (dec n) \<Longrightarrow> is_digit c"
  using dec_digits [of n] by blast

lemma dec_value_dec [simp]: "dec_value (dec n) = n"
  using dec_digits [of n] by blast

lemma dec_nonempty [simp]: "dec n \<noteq> []"
  using dec_digits [of n] by blast

lemma cstring_append [simp]: "cstring (s @ t) \<longleftrightarrow> cstring s \<and> cstring t"
  by (auto simp: cstring_def)

lemma dec_cstring [simp]: "cstring (dec n)"
  using dec_digit [of NUL n] by (auto simp: cstring_def is_digit_def sc_def)

lemma gen_digits_dec:
  "0 < k \<Longrightarrow> n < 10 ^ k \<Longrightarrow> gen_digits k digits_lower 10 n = Some (rev (dec n))"
proof (induction k arbitrary: n)
  case (Suc k)
  show ?case
  proof (cases "n < 10")
    case True
    then show ?thesis by (simp add: dec.simps [of n])
  next
    case False
    then have "n div 10 < 10 ^ k" "0 < k" using Suc.prems by (auto intro: gr0I)
    then have "gen_digits k digits_lower 10 (n div 10) = Some (rev (dec (n div 10)))" by (rule Suc.IH [rotated])
    then show ?thesis using False by (simp add: dec.simps [of n])
  qed
qed simp

lemma sint_of_nat32:
  assumes "n < 2 ^ 31"
  shows "sint (of_nat n :: 32 word) = int n"
proof -
  have "uint (of_nat n :: 32 word) = int n"
    using assms by (simp add: unsigned_of_nat take_bit_eq_mod)
  then show ?thesis using assms by (simp add: sint32)
qed

lemma format_int_of_nat:
  assumes "n < 2 ^ 31"
  shows "format_int (scast (of_nat n :: 32 word)) 10 True {} = Some (dec n)"
proof -
  let ?v = "scast (of_nat n :: 32 word) :: 64 word"
  have "sint (of_nat n :: 32 word) = int n"
    using assms by (rule sint_of_nat32)
  moreover have "sint ?v = sint (of_nat n :: 32 word)"
    by (rule sint_up_scast) (simp add: is_up)
  ultimately have v: "sint ?v = int n" by simp
  then have "uint ?v = int n"
    using uint_bounds64 [of ?v] by (auto simp: sint64 split: if_splits)
  then have "unat ?v = n" by (simp add: unat_eq_nat_uint)
  moreover have "gen_digits 32 digits_lower 10 n = Some (rev (dec n))"
    using assms by (intro gen_digits_dec) auto
  ultimately show ?thesis using v by (simp add: format_int_def)
qed

lemma print_into_text:
  assumes "render ''%n'' fmt args = Some s" "length s < cap" "cstring s"
  shows "print_into cap fmt args = Some s"
proof -
  have "vsnprintf (replicate cap NUL) cap fmt args =
      Some (s @ NUL # drop (Suc (length s)) (replicate cap NUL), of_nat (length s))"
    using vsnprintf_text [OF assms(1), of cap "replicate cap NUL"] assms(2) by (simp add: min_absorb1)
  with assms(3) show ?thesis by (simp add: print_into_def str_at_write)
qed

text \<open>The path of a file of a process.\<close>

definition proc_path :: "nat \<Rightarrow> string \<Rightarrow> string" where
  "proc_path p leaf = ''/proc/'' @ dec p @ ''/'' @ leaf"

lemma dec_length: "n < 10 ^ k \<Longrightarrow> 0 < k \<Longrightarrow> length (dec n) \<le> k"
proof (induction k arbitrary: n)
  case (Suc k)
  show ?case
  proof (cases "n < 10")
    case False
    then have "n div 10 < 10 ^ k" "0 < k" using Suc.prems by (auto intro: gr0I)
    then show ?thesis using False Suc.IH [of "n div 10"] by (simp add: dec.simps [of n])
  qed (simp add: dec.simps [of n])
qed simp

lemma render_proc_path:
  assumes "format_int (scast w) 10 True {} = Some d" "CHR ''%'' \<notin> set leaf"
  shows "render ''%n'' (''/proc/%d/'' @ leaf) [VInt w] = Some (''/proc/'' @ d @ ''/'' @ leaf)"
  using assms render_plain [OF assms(2)] by (simp add: render_eval)

lemma proc_path_printed:
  assumes "p < 2 ^ 31" "CHR ''%'' \<notin> set leaf" "length leaf < 40" "cstring leaf"
  shows "print_into 64 (''/proc/%d/'' @ leaf) [VInt (of_nat p)] = Some (proc_path p leaf)"
proof (rule print_into_text)
  show "render ''%n'' (''/proc/%d/'' @ leaf) [VInt (of_nat p)] = Some (proc_path p leaf)"
    unfolding proc_path_def by (rule render_proc_path [OF format_int_of_nat [OF assms(1)] assms(2)])
  show "length (proc_path p leaf) < 64"
    using assms dec_length [of p 10] by (simp add: proc_path_def)
  show "cstring (proc_path p leaf)"
    using assms(4) by (simp add: proc_path_def)
qed

subsection \<open>Fields\<close>

lemma field_prefix:
  assumes "cstring line" "cstring key"
  shows "parse_u64_field line key =
    (if take (length key) line = key
     then Some (foldl u64_step 0 (takeWhile is_digit
       (dropWhile (\<lambda>c. c = CHR '':'' \<or> c = CHR 0x09 \<or> c = CHR '' '') (drop (length key) line))))
     else None)"
  using assms by (simp add: parse_u64_field_def top_cmp.cmp_zero)

definition separator :: "string \<Rightarrow> bool" where
  "separator sep \<longleftrightarrow> (\<forall>c\<in>set sep. c = CHR '':'' \<or> c = CHR 0x09 \<or> c = CHR '' '')"

definition no_digit_first :: "string \<Rightarrow> bool" where
  "no_digit_first t \<longleftrightarrow> (t = [] \<or> \<not> is_digit (hd t))"

lemma no_digit_takeWhile: "no_digit_first t \<Longrightarrow> takeWhile is_digit t = []"
  by (cases t) (auto simp: no_digit_first_def)

lemma takeWhile_dec: "no_digit_first t \<Longrightarrow> takeWhile is_digit (dec n @ t) = dec n"
  using dec_digits [of n] by (simp add: no_digit_takeWhile)

lemma not_digits [simp]:
  "\<not> is_digit (CHR '':'')" "\<not> is_digit (CHR 0x09)" "\<not> is_digit (CHR '' '')" "\<not> is_digit (CHR '')'')"
  "\<not> is_digit (CHR 0x0A)" "\<not> is_digit NUL"
  by (simp_all add: is_digit_def sc_def)

lemma dropWhile_separator:
  assumes "separator sep"
  shows "dropWhile (\<lambda>c. c = CHR '':'' \<or> c = CHR 0x09 \<or> c = CHR '' '') (sep @ dec n @ t) = dec n @ t"
proof -
  obtain d ds where d: "dec n = d # ds" by (cases "dec n") auto
  then have "is_digit d" using dec_digit [of d n] by simp
  then have "d \<noteq> CHR '':''" "d \<noteq> CHR 0x09" "d \<noteq> CHR '' ''"
    using not_digits by metis+
  then have "dropWhile (\<lambda>c. c = CHR '':'' \<or> c = CHR 0x09 \<or> c = CHR '' '') (d # ds @ t) = d # ds @ t"
    by simp
  with assms show ?thesis
    unfolding separator_def d by (induction sep) simp_all
qed

lemma separator_cstring: "separator sep \<Longrightarrow> cstring sep"
  unfolding separator_def cstring_def by (rule notI, drule (1) bspec, simp)

lemma parse_field_line:
  assumes "cstring key" "separator sep" "no_digit_first t" "cstring t"
  shows "parse_u64_field (key @ sep @ dec n @ t) key = Some (of_nat n)"
  using assms dec_digits [of n]
  by (simp add: field_prefix separator_cstring dropWhile_separator no_digit_takeWhile u64_digits_value)

lemma parse_u64_token_dec: "no_digit_first t \<Longrightarrow> parse_u64_token (dec n @ t) = of_nat n"
  using dec_digits [of n] by (simp add: parse_u64_token_def no_digit_takeWhile u64_digits_value)

subsection \<open>The files of a process\<close>

text \<open>
  A process, and its three files.  The lines that top does not look at are parameters: \<open>gap i\<close> are the
  lines in the \<open>i\<close>-th gap, \<open>mid\<close> the eleven tokens of \<open>stat\<close> from the state on, \<open>after\<close> those behind
  the times.
\<close>

record process =
  q_pid :: nat
  q_ppid :: nat
  q_uid :: nat
  q_name :: string
  q_state :: string
  q_vm :: nat
  q_utime :: nat
  q_stime :: nat
  q_rd :: nat
  q_wr :: nat
  q_tx :: nat
  q_rx :: nat
  q_bio_rd :: nat
  q_bio_wr :: nat

definition status_lines :: "process \<Rightarrow> (nat \<Rightarrow> string list) \<Rightarrow> string list" where
  "status_lines q gap =
     [''Name:'' @ [CHR 0x09] @ q_name q] @ gap 0 @ [''State:'' @ [CHR 0x09] @ q_state q] @ gap 1 @
     [''Pid:'' @ [CHR 0x09] @ dec (q_pid q)] @ gap 2 @ [''PPid:'' @ [CHR 0x09] @ dec (q_ppid q)] @ gap 3 @
     [''Uid:'' @ [CHR 0x09] @ dec (q_uid q) @ [CHR 0x09] @ dec (q_uid q)] @ gap 4 @
     [''VmSize:'' @ [CHR 0x09] @ dec (q_vm q) @ '' kB''] @ gap 5"

definition blank_join :: "string list \<Rightarrow> string" where
  "blank_join ts = concat (List.map (\<lambda>t. CHR '' '' # t) ts)"

definition stat_text :: "process \<Rightarrow> string list \<Rightarrow> string list \<Rightarrow> string" where
  "stat_text q mid after =
     dec (q_pid q) @ '' ('' @ q_name q @ '')'' @ blank_join (mid @ [dec (q_utime q), dec (q_stime q)] @ after)"

definition resource_lines :: "process \<Rightarrow> (nat \<Rightarrow> string list) \<Rightarrow> string list" where
  "resource_lines q gap =
     [''fs_bytes_read: '' @ dec (q_rd q)] @ gap 6 @ [''fs_bytes_written: '' @ dec (q_wr q)] @ gap 7 @
     [''net_bytes_sent: '' @ dec (q_tx q)] @ gap 8 @ [''net_bytes_recv: '' @ dec (q_rx q)] @ gap 9 @
     [''bio_reads: '' @ dec (q_bio_rd q)] @ gap 10 @ [''bio_writes: '' @ dec (q_bio_wr q)] @ gap 11"

definition status_keys :: "string list" where
  "status_keys = [''Name:'' @ [CHR 0x09], ''State:'' @ [CHR 0x09], ''Pid'', ''PPid'', ''Uid'', ''VmSize'']"

definition resource_keys :: "string list" where
  "resource_keys = [''fs_bytes_read'', ''fs_bytes_written'', ''net_bytes_sent'', ''net_bytes_recv'', ''bio_reads'', ''bio_writes'']"

text \<open>Lines and tokens that top skips.\<close>

definition unknown_line :: "string list \<Rightarrow> string \<Rightarrow> bool" where
  "unknown_line keys l \<longleftrightarrow> plain l \<and> list_all (\<lambda>k. take (length k) l \<noteq> k) keys"

definition stat_token :: "string \<Rightarrow> bool" where
  "stat_token t \<longleftrightarrow> t \<noteq> [] \<and> CHR '' '' \<notin> set t \<and> CHR '')'' \<notin> set t \<and> cstring t"

text \<open>What top should make of the process.\<close>

definition process_snap :: "process \<Rightarrow> proc_snap" where
  "process_snap q =
     \<lparr>pid = of_nat (q_pid q), ppid = of_nat (q_ppid q), uid = of_nat (q_uid q),
      name = take 16 (q_name q), state = take 7 (q_state q), vm_kb = of_nat (q_vm q),
      cputime_ticks = of_nat (q_utime q + q_stime q),
      p_fs_bytes_read = of_nat (q_rd q), p_fs_bytes_written = of_nat (q_wr q),
      p_net_bytes_sent = of_nat (q_tx q), p_net_bytes_recv = of_nat (q_rx q),
      p_bio_reads = of_nat (q_bio_rd q), p_bio_writes = of_nat (q_bio_wr q)\<rparr>"

lemma status_line_unknown:
  assumes "unknown_line status_keys l"
  shows "status_line l ps = ps"
proof -
  have keys: "list_all (\<lambda>k. take (length k) l \<noteq> k) status_keys" and "cstring l"
    using assms by (simp_all add: unknown_line_def plain_def)
  then have "take 6 l \<noteq> ''Name:'' @ [CHR 0x09]" "take 7 l \<noteq> ''State:'' @ [CHR 0x09]"
    by (auto simp: status_keys_def eval_nat_numeral)
  with keys \<open>cstring l\<close> show ?thesis
    by (simp add: status_keys_def status_line_def field_prefix top_cmp.cmp_zero)
qed

lemma resource_line_unknown: "unknown_line resource_keys l \<Longrightarrow> resource_line l ps = ps"
  by (simp add: unknown_line_def plain_def resource_keys_def resource_line_def set_field_def field_prefix)

lemma fold_unknown:
  "list_all (unknown_line keys) ls \<Longrightarrow> (\<And>l ps. unknown_line keys l \<Longrightarrow> f l ps = ps) \<Longrightarrow> fold f ls ps = ps"
  by (induction ls arbitrary: ps) auto

lemma ucast_of_nat64 [simp]: "(ucast (of_nat n :: 64 word) :: 32 word) = of_nat n"
proof -
  have "(ucast (word_of_int (int n) :: 64 word) :: 32 word) = word_of_int (int n)"
    by (rule ucast_down_wi) (simp add: is_down)
  then show ?thesis by simp
qed

lemma status_line_cases:
  "cstring nm \<Longrightarrow> status_line (''Name:'' @ [CHR 0x09] @ nm) ps = ps\<lparr>name := take 16 nm\<rparr>"
  "cstring nm \<Longrightarrow> status_line (''State:'' @ [CHR 0x09] @ nm) ps = ps\<lparr>state := take 7 nm\<rparr>"
  "status_line (''Pid:'' @ [CHR 0x09] @ dec n) ps = ps\<lparr>pid := of_nat n\<rparr>"
  "status_line (''PPid:'' @ [CHR 0x09] @ dec n) ps = ps\<lparr>ppid := of_nat n\<rparr>"
  "status_line (''Uid:'' @ [CHR 0x09] @ dec n @ [CHR 0x09] @ dec m) ps = ps\<lparr>uid := of_nat n\<rparr>"
  "status_line (''VmSize:'' @ [CHR 0x09] @ dec n @ '' kB'') ps = ps\<lparr>vm_kb := of_nat n\<rparr>"
proof -
  show "cstring nm \<Longrightarrow> status_line (''Name:'' @ [CHR 0x09] @ nm) ps = ps\<lparr>name := take 16 nm\<rparr>"
    by (simp add: status_line_def top_cmp.cmp_zero)
  show "cstring nm \<Longrightarrow> status_line (''State:'' @ [CHR 0x09] @ nm) ps = ps\<lparr>state := take 7 nm\<rparr>"
    by (simp add: status_line_def top_cmp.cmp_zero)
  show "status_line (''Pid:'' @ [CHR 0x09] @ dec n) ps = ps\<lparr>pid := of_nat n\<rparr>"
    using parse_field_line [of "''Pid''" "'':'' @ [CHR 0x09]" "[]" n]
    by (simp add: status_line_def top_cmp.cmp_zero separator_def no_digit_first_def)
  show "status_line (''PPid:'' @ [CHR 0x09] @ dec n) ps = ps\<lparr>ppid := of_nat n\<rparr>"
    using parse_field_line [of "''PPid''" "'':'' @ [CHR 0x09]" "[]" n]
    by (simp add: status_line_def top_cmp.cmp_zero separator_def no_digit_first_def field_prefix)
  show "status_line (''Uid:'' @ [CHR 0x09] @ dec n @ [CHR 0x09] @ dec m) ps = ps\<lparr>uid := of_nat n\<rparr>"
    using parse_field_line [of "''Uid''" "'':'' @ [CHR 0x09]" "[CHR 0x09] @ dec m" n]
    by (simp add: status_line_def top_cmp.cmp_zero separator_def no_digit_first_def field_prefix)
  show "status_line (''VmSize:'' @ [CHR 0x09] @ dec n @ '' kB'') ps = ps\<lparr>vm_kb := of_nat n\<rparr>"
    using parse_field_line [of "''VmSize''" "'':'' @ [CHR 0x09]" "'' kB''" n]
    by (simp add: status_line_def top_cmp.cmp_zero separator_def no_digit_first_def field_prefix)
qed

lemma resource_line_cases:
  "resource_line (''fs_bytes_read: '' @ dec n) ps = ps\<lparr>p_fs_bytes_read := of_nat n\<rparr>"
  "resource_line (''fs_bytes_written: '' @ dec n) ps = ps\<lparr>p_fs_bytes_written := of_nat n\<rparr>"
  "resource_line (''net_bytes_sent: '' @ dec n) ps = ps\<lparr>p_net_bytes_sent := of_nat n\<rparr>"
  "resource_line (''net_bytes_recv: '' @ dec n) ps = ps\<lparr>p_net_bytes_recv := of_nat n\<rparr>"
  "resource_line (''bio_reads: '' @ dec n) ps = ps\<lparr>p_bio_reads := of_nat n\<rparr>"
  "resource_line (''bio_writes: '' @ dec n) ps = ps\<lparr>p_bio_writes := of_nat n\<rparr>"
  using parse_field_line [of "''fs_bytes_read''" "'': ''" "[]" n] parse_field_line [of "''fs_bytes_written''" "'': ''" "[]" n]
    parse_field_line [of "''net_bytes_sent''" "'': ''" "[]" n] parse_field_line [of "''net_bytes_recv''" "'': ''" "[]" n]
    parse_field_line [of "''bio_reads''" "'': ''" "[]" n] parse_field_line [of "''bio_writes''" "'': ''" "[]" n]
  by (simp_all add: resource_line_def set_field_def separator_def no_digit_first_def field_prefix)

text \<open>The gaps of a process: lines that neither file has a use for.\<close>

definition gaps_ok :: "(nat \<Rightarrow> string list) \<Rightarrow> bool" where
  "gaps_ok gap \<longleftrightarrow> (\<forall>i. list_all (unknown_line (status_keys @ resource_keys)) (gap i))"

lemma fold_gap:
  assumes "gaps_ok gap"
  shows "fold status_line (gap i) ps = ps" "fold resource_line (gap i) ps = ps"
proof -
  have "list_all (unknown_line status_keys) (gap i)" "list_all (unknown_line resource_keys) (gap i)"
    using assms by (auto simp: gaps_ok_def unknown_line_def list_all_iff)
  then show "fold status_line (gap i) ps = ps" "fold resource_line (gap i) ps = ps"
    using fold_unknown status_line_unknown resource_line_unknown by metis+
qed

lemma fold_status_lines:
  assumes "gaps_ok gap" "cstring (q_name q)" "cstring (q_state q)"
  shows "fold status_line (status_lines q gap) ps =
    ps\<lparr>pid := of_nat (q_pid q), ppid := of_nat (q_ppid q), uid := of_nat (q_uid q),
       name := take 16 (q_name q), state := take 7 (q_state q), vm_kb := of_nat (q_vm q)\<rparr>"
  unfolding status_lines_def fold_append comp_apply fold_simps fold_gap [OF assms(1)]
    status_line_cases(1) [OF assms(2)] status_line_cases(2) [OF assms(3)] status_line_cases(3-)
  by (cases ps) simp

lemma fold_resource_lines:
  assumes "gaps_ok gap"
  shows "fold resource_line (resource_lines q gap) ps =
    ps\<lparr>p_fs_bytes_read := of_nat (q_rd q), p_fs_bytes_written := of_nat (q_wr q),
       p_net_bytes_sent := of_nat (q_tx q), p_net_bytes_recv := of_nat (q_rx q),
       p_bio_reads := of_nat (q_bio_rd q), p_bio_writes := of_nat (q_bio_wr q)\<rparr>"
  unfolding resource_lines_def fold_append comp_apply fold_simps fold_gap [OF assms] resource_line_cases
  by (cases ps) simp

subsection \<open>The times of a process\<close>

lemma after_comm_text: "CHR '')'' \<notin> set t \<Longrightarrow> after_comm (s @ '')'' @ t) = Some t"
proof -
  assume "CHR '')'' \<notin> set t"
  then have "takeWhile (\<lambda>c. c \<noteq> CHR '')'') (rev t @ CHR '')'' # rev s) = rev t"
    by (simp add: takeWhile_tail) (metis (full_types) rev_swap set_rev takeWhile_eq_all_conv)
  then show ?thesis by (simp add: after_comm_def)
qed

lemma blank_join_simps [simp]: "blank_join [] = []" "blank_join (t # ts) = CHR '' '' # t @ blank_join ts"
  by (simp_all add: blank_join_def)

lemma skip_blanks:
  assumes "stat_token t"
  shows "dropWhile (\<lambda>c. c = CHR '' '') (CHR '' '' # t @ r) = t @ r"
  using assms by (cases t) (auto simp: stat_token_def)

lemma skip_token:
  assumes "stat_token t"
  shows "dropWhile (\<lambda>c. c \<noteq> CHR '' '') (t @ blank_join ts) = blank_join ts"
proof -
  have "\<forall>c\<in>set t. c \<noteq> CHR '' ''" using assms by (auto simp: stat_token_def)
  then show ?thesis by (cases ts) (simp_all add: dropWhile_append2 dropWhile_append3)
qed

lemma stat_loop_token:
  assumes "stat_token t" "f \<le> 15"
  shows "stat_loop (CHR '' '' # t @ blank_join ts) f u s =
    stat_loop (blank_join ts) (f + 1) (if f = 14 then parse_u64_token (t @ blank_join ts) else u)
      (if f = 15 then parse_u64_token (t @ blank_join ts) else s)"
  using assms by (subst stat_loop.simps) (simp only: skip_blanks skip_token Let_def, simp)

lemma stat_loop_skip:
  assumes "\<forall>t\<in>set mid. stat_token t" "f + length mid \<le> 14"
  shows "stat_loop (blank_join (mid @ ts)) f u s = stat_loop (blank_join ts) (f + length mid) u s"
  using assms by (induction mid arbitrary: f) (auto simp: stat_loop_token)

lemma stat_loop_drop:
  assumes "stat_token t"
  shows "stat_loop (dropWhile (\<lambda>c. c = CHR '' '') (blank_join (t # ts))) f u s = stat_loop (blank_join (t # ts)) f u s"
proof -
  obtain c t' where t: "t = c # t'" "c \<noteq> CHR '' ''" using assms by (cases t) (auto simp: stat_token_def)
  then show ?thesis
    using skip_blanks [OF assms, of "blank_join ts"] by (simp add: stat_loop.simps [of "c # _"] stat_loop.simps [of "CHR '' '' # _"])
qed

lemma dec_token: "stat_token (dec n)"
  using dec_digit [of "CHR '' ''" n] dec_digit [of "CHR '')''" n] by (auto simp: stat_token_def)

lemma no_digit_blank_join [simp]: "no_digit_first (blank_join ts)"
  by (cases ts) (simp_all add: no_digit_first_def)

lemma stat_times:
  assumes "\<forall>t\<in>set mid. stat_token t" "length mid = 11" "\<forall>t\<in>set after. stat_token t"
  shows "stat_loop (dropWhile (\<lambda>c. c = CHR '' '') (blank_join (mid @ [dec u, dec s] @ after))) 3 0 0 = (of_nat u, of_nat s)"
proof -
  obtain m ms where m: "mid = m # ms" using assms(2) by (cases mid) auto
  have "stat_loop (dropWhile (\<lambda>c. c = CHR '' '') (blank_join (mid @ [dec u, dec s] @ after))) 3 0 0 =
      stat_loop (blank_join (mid @ [dec u, dec s] @ after)) 3 0 0"
    using stat_loop_drop [of m] assms(1) by (simp add: m)
  also have "\<dots> = stat_loop (blank_join ([dec u, dec s] @ after)) 14 0 0"
    using stat_loop_skip [OF assms(1), of 3] assms(2) by simp
  also have "\<dots> = stat_loop (blank_join after) 16 (of_nat u) (of_nat s)"
    using stat_loop_token [OF dec_token [of u], of 14 "dec s # after" 0 0]
      stat_loop_token [OF dec_token [of s], of 15 after "of_nat u" 0]
      parse_u64_token_dec [OF no_digit_blank_join, of u "dec s # after"]
      parse_u64_token_dec [OF no_digit_blank_join, of s after]
    by simp
  also have "\<dots> = (of_nat u, of_nat s)"
    by (subst stat_loop.simps) simp
  finally show ?thesis .
qed

subsection \<open>A whole process\<close>

text \<open>The directory and the three files of a process as a kernel presents them.\<close>

definition serves :: "'s procfs \<Rightarrow> ('s \<Rightarrow> string) \<Rightarrow> string \<Rightarrow> string \<Rightarrow> bool" where
  "serves fs contents path txt \<longleftrightarrow> (\<exists>s. fs_open fs path = Some s \<and> contents s = txt)"

definition presents :: "'s procfs \<Rightarrow> ('s \<Rightarrow> string) \<Rightarrow> process \<Rightarrow> bool" where
  "presents fs contents q \<longleftrightarrow>
     q_pid q < 2 ^ 31 \<and> plain (q_name q) \<and> plain (q_state q) \<and>
     (\<exists>gap mid after.
        gaps_ok gap \<and> list_all stat_token mid \<and> length mid = 11 \<and> list_all stat_token after \<and>
        serves fs contents (proc_path (q_pid q) ''status'') (join_lines (status_lines q gap)) \<and>
        length (join_lines (status_lines q gap)) < 512 \<and>
        serves fs contents (proc_path (q_pid q) ''stat'') (stat_text q mid after) \<and>
        length (stat_text q mid after) < 512 \<and>
        serves fs contents (proc_path (q_pid q) ''resources'') (join_lines (resource_lines q gap)) \<and>
        length (join_lines (resource_lines q gap)) < 2048)"

lemma file_string_serves:
  assumes "reads (fs_read fs) contents" "serves fs contents path txt" "length txt < n" "txt \<noteq> []" "cstring txt"
  shows "file_string fs path n = Some txt"
  using assms by (auto simp: serves_def file_string_def read_file_into_def read_loop_reads)

lemma proc_file_serves:
  assumes "reads (fs_read fs) contents" "serves fs contents (proc_path p leaf) txt" "length txt < n" "txt \<noteq> []"
    "cstring txt" "p < 2 ^ 31" "CHR ''%'' \<notin> set leaf" "length leaf < 40" "cstring leaf"
  shows "proc_file fs (''/proc/%d/'' @ leaf) (of_nat p) n = Some txt"
  unfolding proc_file_def proc_path_printed [OF assms(6-9)] using file_string_serves [OF assms(1-5)] by simp

lemma gap_plain: "gaps_ok gap \<Longrightarrow> l \<in> set (gap i) \<Longrightarrow> plain l"
  by (auto simp: gaps_ok_def list_all_iff unknown_line_def)

lemma plain_simps [simp]:
  "plain []" "plain (c # s) \<longleftrightarrow> c \<noteq> CHR 0x0A \<and> c \<noteq> NUL \<and> plain s" "plain (s @ t) \<longleftrightarrow> plain s \<and> plain t"
  by (auto simp: plain_def cstring_def)

lemma plain_dec [simp]: "plain (dec n)"
  using dec_digit [of "CHR 0x0A" n] by (auto simp: plain_def)

lemma status_lines_plain:
  "gaps_ok gap \<Longrightarrow> plain (q_name q) \<Longrightarrow> plain (q_state q) \<Longrightarrow> \<forall>l\<in>set (status_lines q gap). plain l"
  unfolding status_lines_def set_append ball_Un
  by (intro conjI) (simp_all add: gap_plain)

lemma resource_lines_plain: "gaps_ok gap \<Longrightarrow> \<forall>l\<in>set (resource_lines q gap). plain l"
  unfolding resource_lines_def set_append ball_Un
  by (intro conjI) (simp_all add: gap_plain)

lemma blank_join_tokens:
  assumes "list_all stat_token ts"
  shows "cstring (blank_join ts)" "CHR '')'' \<notin> set (blank_join ts)"
  using assms by (induction ts) (auto simp: stat_token_def)

lemma stat_text_cstring:
  "plain (q_name q) \<Longrightarrow> list_all stat_token mid \<Longrightarrow> list_all stat_token after \<Longrightarrow> cstring (stat_text q mid after)"
  by (simp add: stat_text_def plain_def blank_join_tokens dec_token)

text \<open>Reading a process that the kernel presents: the entry of \<open>/proc\<close> becomes its snapshot.\<close>

lemma proc_entry_presents:
  assumes "reads (fs_read fs) contents" "presents fs contents q" "ino \<noteq> 0" "length procs < MAX_PROCS"
  shows "proc_entry fs (ino, dec (q_pid q)) procs = procs @ [process_snap q]"
proof -
  obtain gap mid after where q: "q_pid q < 2 ^ 31" "plain (q_name q)" "plain (q_state q)" "gaps_ok gap"
      "list_all stat_token mid" "length mid = 11" "list_all stat_token after"
    and f1: "serves fs contents (proc_path (q_pid q) ''status'') (join_lines (status_lines q gap))"
      "length (join_lines (status_lines q gap)) < 512"
    and f2: "serves fs contents (proc_path (q_pid q) ''stat'') (stat_text q mid after)" "length (stat_text q mid after) < 512"
    and f3: "serves fs contents (proc_path (q_pid q) ''resources'') (join_lines (resource_lines q gap))"
      "length (join_lines (resource_lines q gap)) < 2048"
    using assms(2) unfolding presents_def by blast
  note pl = status_lines_plain [OF q(4,2,3)] resource_lines_plain [OF q(4), of q]
  let ?p = "of_nat (q_pid q) :: 32 word"
  have "proc_file fs (''/proc/%d/'' @ ''status'') ?p 512 = Some (join_lines (status_lines q gap))"
    by (rule proc_file_serves [OF assms(1) f1 _ cstring_join [OF pl(1)] q(1)]) (simp_all add: join_lines_def status_lines_def)
  then have 1: "parse_status fs ?p empty_snap = Some (fold status_line (status_lines q gap)
      (empty_snap\<lparr>pid := ?p, ppid := 0, uid := -1, name := [], state := [], vm_kb := 0, cputime_ticks := 0\<rparr>))"
    by (simp add: parse_status_def lines_join [OF pl(1)])
  have "proc_file fs (''/proc/%d/'' @ ''stat'') ?p 512 = Some (stat_text q mid after)"
    by (rule proc_file_serves [OF assms(1) f2 _ stat_text_cstring [OF q(2,5,7)] q(1)]) (simp_all add: stat_text_def)
  moreover have "after_comm (stat_text q mid after) = Some (blank_join (mid @ [dec (q_utime q), dec (q_stime q)] @ after))"
    using after_comm_text [OF blank_join_tokens(2), of "mid @ [dec (q_utime q), dec (q_stime q)] @ after" "dec (q_pid q) @ '' ('' @ q_name q"] q(5,7)
    by (simp add: stat_text_def dec_token)
  ultimately have 2: "parse_pid_stat fs ?p ps = ps\<lparr>cputime_ticks := of_nat (q_utime q + q_stime q)\<rparr>" for ps
    using stat_times [of mid after "q_utime q" "q_stime q"] q(5-7) by (simp add: parse_pid_stat_def list_all_iff)
  have "proc_file fs (''/proc/%d/'' @ ''resources'') ?p 2048 = Some (join_lines (resource_lines q gap))"
    by (rule proc_file_serves [OF assms(1) f3 _ cstring_join [OF pl(2)] q(1)]) (simp_all add: join_lines_def resource_lines_def)
  then have 3: "parse_resources fs ?p ps = fold resource_line (resource_lines q gap) ps" for ps
    by (simp add: parse_resources_def lines_join [OF pl(2)])
  have tw: "takeWhile is_digit (dec (q_pid q)) = dec (q_pid q)"
    using dec_digits [of "q_pid q"] by (simp add: takeWhile_eq_all_conv)
  have "is_numeric (dec (q_pid q))" using dec_digits [of "q_pid q"] by (simp add: is_numeric_def list_all_iff)
  moreover have "atoi (dec (q_pid q)) = int (q_pid q)"
    using atoi_run_value [of "dec (q_pid q)"] q(1) by (simp add: tw)
  moreover have "cstring (q_name q)" "cstring (q_state q)" using q(2,3) by (simp_all add: plain_def)
  ultimately show ?thesis
    using assms(3,4) unfolding proc_entry_def
    by (simp add: 1 2 3 fold_status_lines [OF q(4)] fold_resource_lines [OF q(4)])
      (simp add: process_snap_def empty_snap_def)
qed

definition proc_numeric :: "nat \<times> string \<Rightarrow> bool" where
  "proc_numeric de = (case de of (ino, nm) \<Rightarrow> ino \<noteq> 0 \<and> is_numeric nm)"

lemma proc_entry_other: "\<not> proc_numeric de \<Longrightarrow> proc_entry fs de procs = procs"
  by (auto simp: proc_numeric_def proc_entry_def split: prod.splits)

lemma proc_entry_full: "MAX_PROCS \<le> length procs \<Longrightarrow> proc_entry fs de procs = procs"
  by (auto simp: proc_entry_def split: prod.splits)

lemma fold_entries_full: "MAX_PROCS \<le> length procs \<Longrightarrow> fold (proc_entry fs) des procs = procs"
  by (induction des) (simp_all add: proc_entry_full)

lemma fold_entries:
  assumes "reads (fs_read fs) contents" "\<forall>q\<in>set qs. presents fs contents q"
    "filter proc_numeric des = List.map (\<lambda>q. (ino q, dec (q_pid q))) qs"
  shows "fold (proc_entry fs) des procs = procs @ take (MAX_PROCS - length procs) (List.map process_snap qs)"
  using assms(2,3)
proof (induction des arbitrary: procs qs)
  case (Cons de des)
  show ?case
  proof (cases "proc_numeric de")
    case True
    then obtain q qs' where q: "qs = q # qs'" "de = (ino q, dec (q_pid q))"
        "filter proc_numeric des = List.map (\<lambda>q. (ino q, dec (q_pid q))) qs'"
      using Cons.prems(2) by (cases qs) auto
    show ?thesis
    proof (cases "length procs < MAX_PROCS")
      case room: True
      have "ino q \<noteq> 0" using True q(2) by (simp add: proc_numeric_def)
      then have "proc_entry fs de procs = procs @ [process_snap q]"
        using proc_entry_presents [OF assms(1), of q] Cons.prems(1) q room by simp
      then have "fold (proc_entry fs) (de # des) procs =
          (procs @ [process_snap q]) @ take (MAX_PROCS - Suc (length procs)) (List.map process_snap qs')"
        using Cons.IH [of qs' "procs @ [process_snap q]"] Cons.prems(1) q by simp
      with room q show ?thesis by (simp add: Suc_diff_Suc take_Cons' Suc_diff_le)
    qed (simp add: proc_entry_full fold_entries_full not_less)
  qed (use Cons in \<open>simp add: proc_entry_other\<close>)
qed simp


definition sample_process :: process where
  "sample_process = \<lparr>q_pid = 7, q_ppid = 1, q_uid = 0, q_name = ''a) b'', q_state = ''S'', q_vm = 64,
     q_utime = 3, q_stime = 4, q_rd = 5, q_wr = 6, q_tx = 0, q_rx = 9, q_bio_rd = 1, q_bio_wr = 2\<rparr>"

definition sample_procfs :: "string procfs" where
  "sample_procfs =
     \<lparr>fs_open = (\<lambda>path.
        if path = ''/proc/7/status'' then Some (join_lines (status_lines sample_process (\<lambda>i. [''Threads: 1''])))
        else if path = ''/proc/7/stat'' then Some (stat_text sample_process ([''S'', ''0'', ''0'', ''0'', ''0'', ''0'', ''0'', ''0'', ''0'', ''0'', ''0'']) [''0''])
        else if path = ''/proc/7/resources'' then Some (join_lines (resource_lines sample_process (\<lambda>i. [''Threads: 1''])))
        else None),
      fs_read = byte_reads, proc_entries = Some [[(1, ''.''), (1, ''..'')], [(4, ''7''), (0, ''8''), (5, ''self'')]]\<rparr>"

lemma dec_small: "n < 10 \<Longrightarrow> dec n = [digits_lower ! n]"
  by (simp add: dec.simps [of n])

lemma sample_dec: "dec 64 = ''64''"
  by (simp add: dec.simps [of 64] dec_small digits_lower_def)


subsection \<open>The names of the users\<close>

record user =
  w_name :: string
  w_password :: string
  w_uid :: nat
  w_rest :: string

definition passwd_line :: "user \<Rightarrow> string" where
  "passwd_line w = w_name w @ '':'' @ w_password w @ '':'' @ dec (w_uid w) @ w_rest w"

definition user_ok :: "user \<Rightarrow> bool" where
  "user_ok w \<longleftrightarrow> plain (w_name w) \<and> CHR '':'' \<notin> set (w_name w) \<and> plain (w_password w) \<and>
     CHR '':'' \<notin> set (w_password w) \<and> w_uid w < 2 ^ 32 \<and> plain (w_rest w) \<and> no_digit_first (w_rest w)"

interpretation int_digits: digit_reader int_step uint "2 ^ 32"
proof
  fix c and n :: "32 word" assume "is_digit c"
  then have "int_step n c = word_of_int (10 * uint n + int (digit c))"
    by (simp add: int_step_def int_digit)
  then have "uint (int_step n c) = (10 * uint n + int (digit c)) mod 2 ^ 32"
    by (simp only: uint_word_of_int) simp
  then show "uint (int_step n c) mod 2 ^ 32 = (10 * uint n + int (digit c)) mod 2 ^ 32"
    by simp
qed

lemma int_digits_value: "foldl int_step 0 (dec n) = of_nat n"
proof -
  have "uint (foldl int_step 0 (dec n)) mod 2 ^ 32 = int (dec_value (dec n)) mod 2 ^ 32"
    using dec_digits [of n] by (intro int_digits.fold_digits_zero) simp_all
  then have "uint (foldl int_step 0 (dec n)) = uint (of_nat n :: 32 word)"
    using uint_bounds32 [of "foldl int_step 0 (dec n)"] by (simp add: unsigned_of_nat take_bit_eq_mod zmod_int)
  then show ?thesis by (rule word_uint_eqI)
qed

lemma colon_field:
  assumes "CHR '':'' \<notin> set s"
  shows "takeWhile (\<lambda>c. c \<noteq> CHR '':'') (s @ CHR '':'' # t) = s" "dropWhile (\<lambda>c. c \<noteq> CHR '':'') (s @ CHR '':'' # t) = CHR '':'' # t"
proof -
  have "\<forall>c\<in>set s. c \<noteq> CHR '':''" using assms by auto
  then show "takeWhile (\<lambda>c. c \<noteq> CHR '':'') (s @ CHR '':'' # t) = s" "dropWhile (\<lambda>c. c \<noteq> CHR '':'') (s @ CHR '':'' # t) = CHR '':'' # t"
    by (simp_all add: takeWhile_append2 dropWhile_append2)
qed

lemma passwd_entry_line:
  assumes "user_ok w"
  shows "passwd_entry (passwd_line w) = Some \<lparr>u_uid = of_nat (w_uid w), u_name = take 15 (w_name w)\<rparr>"
  using assms takeWhile_dec [of "w_rest w" "w_uid w"]
  by (simp add: passwd_entry_def passwd_line_def user_ok_def colon_field Let_def int_digits_value no_digit_takeWhile MAX_UNAME_def)

definition user_entry :: "user \<Rightarrow> uid_entry" where
  "user_entry w = \<lparr>u_uid = of_nat (w_uid w), u_name = take 15 (w_name w)\<rparr>"

lemma passwd_loop_lines:
  "\<forall>w\<in>set ws. user_ok w \<Longrightarrow>
   passwd_loop (List.map passwd_line ws) cache = cache @ take (MAX_USERS - length cache) (List.map user_entry ws)"
proof (induction ws arbitrary: cache)
  case (Cons w ws)
  then show ?case
    by (simp add: passwd_entry_line user_entry_def take_Cons' Suc_diff_le)
qed simp

lemma find_user_entry:
  "\<forall>w\<in>set ws. user_ok w \<Longrightarrow> u < 2 ^ 32 \<Longrightarrow>
   uid_to_name (List.map user_entry ws) (of_nat u) = map_option (\<lambda>w. take 15 (w_name w)) (List.find (\<lambda>w. w_uid w = u) ws)"
proof (induction ws)
  case (Cons w ws)
  have "(of_nat (w_uid w) :: 32 word) = of_nat u \<longleftrightarrow> w_uid w = u"
    using Cons.prems by (auto simp: user_ok_def word_unat_eq_iff unat_of_nat)
  with Cons show ?case by (simp add: uid_to_name_def user_entry_def)
qed (simp add: uid_to_name_def)

text \<open>
  The name of a user is the first one that \<open>/etc/passwd\<close> gives for the number among its first 64
  lines, cut to 15 characters.
\<close>

theorem top_user_names:
  assumes "reads (fs_read fs) contents" "serves fs contents ''/etc/passwd'' (join_lines (List.map passwd_line ws))"
    "length (join_lines (List.map passwd_line ws)) < 2048" "\<forall>w\<in>set ws. user_ok w" "u < 2 ^ 32"
  shows "uid_to_name (load_passwd fs) (of_nat u) =
    map_option (\<lambda>w. take 15 (w_name w)) (List.find (\<lambda>w. w_uid w = u) (take 64 ws))"
proof -
  have pl: "\<forall>l\<in>set (List.map passwd_line ws). plain l"
    using assms(4) by (auto simp: passwd_line_def user_ok_def)
  have "load_passwd fs = take 64 (List.map user_entry ws)"
    using assms(1-3) passwd_loop_lines [OF assms(4), of "[]"] lines_join [OF pl] cstring_join [OF pl]
    by (auto simp: load_passwd_def read_file_into_def serves_def read_loop_reads MAX_USERS_def)
  then show ?thesis
    using find_user_entry [of "take 64 ws" u] assms(4,5) by (simp add: take_map) (meson in_set_takeD)
qed

subsection \<open>Processor times\<close>

lemma next_token_blank_join:
  assumes "stat_token t" "\<forall>u\<in>set ts. stat_token u"
  shows "next_token (t @ blank_join ts) = concat (List.map (\<lambda>u. u) (take 1 ts)) @ blank_join (tl ts)"
proof (cases ts)
  case Nil
  have "dropWhile (\<lambda>c. c \<noteq> CHR '' '') t = []" using skip_token [OF assms(1), of "[]"] by (simp only: blank_join_simps append_Nil2)
  with Nil show ?thesis by (simp add: next_token_def del: dropWhile_eq_Nil_conv)
next
  case (Cons u us)
  then show ?thesis
    using skip_token [OF assms(1), of ts] skip_blanks [of u "blank_join us"] assms(2) by (simp add: next_token_def)
qed

lemma cpu_values_dec:
  "cpu_values k (case vs of [] \<Rightarrow> [] | v # vs' \<Rightarrow> dec v @ blank_join (List.map dec vs')) = List.map of_nat (take k vs)"
proof (induction k arbitrary: vs)
  case (Suc k)
  show ?case
  proof (cases vs)
    case (Cons v vs')
    have "next_token (dec v @ blank_join (List.map dec vs')) =
        (case vs' of [] \<Rightarrow> [] | w # ws \<Rightarrow> dec w @ blank_join (List.map dec ws))"
      using next_token_blank_join [of "dec v" "List.map dec vs'"] by (cases vs') (simp_all add: dec_token)
    with Cons Suc.IH [of vs'] show ?thesis
      by (simp add: parse_u64_token_dec [OF no_digit_blank_join])
  qed simp
qed simp

text \<open>
  A line of processor times gives the sum of its first ten numbers as the total, and as busy time
  that sum without the fourth and the fifth, the times spent idle and waiting.
\<close>

theorem parse_cpu_line_times:
  assumes "stat_token lbl" "5 \<le> length vs" "sum_list (take 10 vs) < 2 ^ 64"
  shows "parse_cpu_line (lbl @ blank_join (List.map dec vs)) =
    (of_nat (sum_list (take 10 vs) - (vs ! 3 + vs ! 4)), of_nat (sum_list (take 10 vs)))"
proof -
  obtain a b c d e vs' where vs: "vs = a # b # c # d # e # vs'"
    using assms(2) by (auto simp: numeral_eq_Suc Suc_le_length_iff)
  let ?S = "sum_list (take 10 vs)"
  have "next_token (lbl @ blank_join (List.map dec vs)) = dec a @ blank_join (List.map dec (b # c # d # e # vs'))"
    using next_token_blank_join [OF assms(1), of "List.map dec vs"] by (simp add: vs dec_token)
  then have vals: "cpu_values 10 (next_token (lbl @ blank_join (List.map dec vs))) = List.map of_nat (take 10 vs)"
    using cpu_values_dec [of 10 vs] by (simp add: vs)
  have le: "d + e \<le> ?S" by (simp add: vs)
  have sum: "sum_list (List.map of_nat xs) = (of_nat (sum_list xs) :: 64 word)" for xs
    by (induction xs) simp_all
  have "(of_nat d + of_nat e :: 64 word) < of_nat ?S \<longleftrightarrow> d + e < ?S"
    using assms(3) le by (simp add: word_less_nat_alt unat_of_nat flip: of_nat_add)
  moreover have "(of_nat ?S - (of_nat d + of_nat e) :: 64 word) = of_nat (?S - (d + e))"
    using le by (simp add: of_nat_diff)
  moreover have "List.map of_nat (take 10 vs) ! 3 = (of_nat d :: 64 word)" "List.map of_nat (take 10 vs) ! 4 = (of_nat e :: 64 word)"
      "3 < length (List.map of_nat (take 10 vs) :: 64 word list)" "4 < length (List.map of_nat (take 10 vs) :: 64 word list)"
    by (simp_all add: vs)
  ultimately have "parse_cpu_line (lbl @ blank_join (List.map dec vs)) =
      (if d + e < ?S then of_nat (?S - (d + e)) else 0, of_nat ?S)"
    unfolding parse_cpu_line_def vals sum Let_def by (simp only: if_True)
  moreover have "vs ! 3 = d" "vs ! 4 = e" by (simp_all add: vs)
  ultimately show ?thesis using le by (cases "d + e < ?S") (simp_all only: if_True if_False, simp)
qed

end
