(* ===== verification/Top.thy ===== *)
theory Top
  imports TopParse "HOL-Library.Signed_Division"
begin

section \<open>top.c: what is printed, and the main loop\<close>

text \<open>
  The output is the sequence of the calls of \<open>printf\<close>, each with its format and arguments, and of
  the pauses.  Texts that are formatted into buffers first go through the model of \<open>snprintf\<close>.
\<close>

datatype event = Say string "Printf.arg list" | Nap "32 word"

abbreviation int_arg :: "64 word \<Rightarrow> Printf.arg" where
  "int_arg w \<equiv> VInt (ucast w)"

abbreviation str_arg :: "string \<Rightarrow> Printf.arg" where
  "str_arg s \<equiv> VStr (Some s)"

subsection \<open>Amounts\<close>

definition fmt_scaled :: "nat \<Rightarrow> string \<Rightarrow> 64 word \<Rightarrow> 64 word \<Rightarrow> string option" where
  "fmt_scaled bufsz fmt unit bytes =
     print_into bufsz fmt [int_arg (bytes div unit), int_arg (bytes mod unit * 10 div unit)]"

definition fmt_bytes :: "nat \<Rightarrow> 64 word \<Rightarrow> string option" where
  "fmt_bytes bufsz bytes =
     (if bytes < 1024 then print_into bufsz ''%d B'' [int_arg bytes]
      else if bytes < 1024 * 1024 then fmt_scaled bufsz ''%d.%d KB'' 1024 bytes
      else if bytes < 1024 * 1024 * 1024 then fmt_scaled bufsz ''%d.%d MB'' (1024 * 1024) bytes
      else fmt_scaled bufsz ''%d.%d GB'' (1024 * 1024 * 1024) bytes)"

definition fmt_rate :: "nat \<Rightarrow> 64 word \<Rightarrow> 32 word \<Rightarrow> string option" where
  "fmt_rate bufsz delta_bytes secs =
     (let secs = (if sint secs \<le> 0 then 1 else secs);
          rate = delta_bytes div ucast secs
      in if rate < 1024 then print_into bufsz ''%d B/s'' [int_arg rate]
         else if rate < 1024 * 1024 then fmt_scaled bufsz ''%d.%d KB/s'' 1024 rate
         else fmt_scaled bufsz ''%d.%d MB/s'' (1024 * 1024) rate)"

subsection \<open>The header\<close>

definition util_pct :: "sys_snap option \<Rightarrow> nat \<Rightarrow> cpu_snap \<Rightarrow> 32 word" where
  "util_pct prev i c =
     (let (busy, all) =
        (case prev of
           None \<Rightarrow> (busy_ticks c, total_ticks c)
         | Some p \<Rightarrow>
             if i < length (cpu p)
             then (busy_ticks c - busy_ticks (cpu p ! i), total_ticks c - total_ticks (cpu p ! i))
             else (busy_ticks c, total_ticks c));
          pct = (if 0 < all then ucast (busy * 100 div all) else 0)
      in if 100 < sint pct then 100 else pct)"

definition amount :: "sys_snap option \<Rightarrow> (sys_snap \<Rightarrow> 64 word) \<Rightarrow> sys_snap \<Rightarrow> 32 word \<Rightarrow> string option" where
  "amount prev f cur secs =
     (case prev of
        Some p \<Rightarrow> fmt_rate 32 (f cur - f p) secs
      | None \<Rightarrow> fmt_bytes 32 (f cur))"

definition print_header :: "sys_snap \<Rightarrow> sys_snap option \<Rightarrow> 32 word \<Rightarrow> event list option" where
  "print_header cur prev secs = do {
     let up_s = uptime_ms cur div 1000;
     let load_int = load_avg_5s_x100 cur div 100;
     let load_frac = load_avg_5s_x100 cur mod 100;
     rbuf \<leftarrow> amount prev fs_bytes_read cur secs;
     wbuf \<leftarrow> amount prev fs_bytes_written cur secs;
     txb \<leftarrow> amount prev net_bytes_sent cur secs;
     rxb \<leftarrow> amount prev net_bytes_recv cur secs;
     Some ([Say (''Uptime: %d:%02d:%02d   CPUs: %d   Load(5s): %d.%02d'' @ [CHR 0x0A])
              [int_arg (up_s div 3600), int_arg (up_s div 60 mod 60), int_arg (up_s mod 60),
               VInt (of_nat (length (cpu cur))), int_arg load_int, int_arg load_frac],
            Say ''CPU  '' []] @
           List.map (\<lambda>(i, c). Say '' [%d:u=%d%%]'' [VInt (of_nat i), VInt (util_pct prev i c)])
             (List.enumerate 0 (take MAX_CPUS (cpu cur))) @
           [Say [CHR 0x0A] [],
            Say (''Disk   rd=%d wr=%d  %s / %s'' @ [CHR 0x0A])
              [int_arg (bio_reads cur), int_arg (bio_writes cur), str_arg rbuf, str_arg wbuf],
            Say (''Net    tx/rx  %s / %s'' @ [CHR 0x0A]) [str_arg txb, str_arg rxb]])
   }"

subsection \<open>The table of processes\<close>

definition columns_fmt :: string where
  "columns_fmt = ''%-6s %-8s %-16s %-5s %5s %8s %6s %9s %9s %9s %9s'' @ [CHR 0x0A]"

definition row_fmt :: string where
  "row_fmt = ''%-6d %-8s %-16s %-5s %5d %8d %3d.%d %9s %9s %9s %9s'' @ [CHR 0x0A]"

definition delta_columns :: "string list" where
  "delta_columns = [''PID'', ''USER'', ''NAME'', ''STATE'', ''VM'', ''CPU(ms)'', ''CPU%'',
     ''FS_RD/s'', ''FS_WR/s'', ''NTX/s'', ''NRX/s'']"

definition absolute_columns :: "string list" where
  "absolute_columns = [''PID'', ''USER'', ''NAME'', ''STATE'', ''VM'', ''CPU(ms)'', ''CPU%'',
     ''FS_RD'', ''FS_WR'', ''NET_TX'', ''NET_RX'']"

definition USER_HZ :: "64 word" where "USER_HZ = 100"

definition cpu_pct_x10 :: "proc_snap list option \<Rightarrow> proc_snap \<Rightarrow> 64 word \<Rightarrow> 32 word" where
  "cpu_pct_x10 prev cur interval_ticks =
     (case prev of
        Some procs \<Rightarrow>
          if 0 < interval_ticks then
            (case find_by_pid procs (pid cur) of
               Some old \<Rightarrow> ucast ((cputime_ticks cur - cputime_ticks old) * 1000 div interval_ticks)
             | None \<Rightarrow> 0)
          else 0
      | None \<Rightarrow> 0)"

definition since :: "proc_snap option \<Rightarrow> (proc_snap \<Rightarrow> 64 word) \<Rightarrow> proc_snap \<Rightarrow> 64 word" where
  "since old f cur = (case old of Some p \<Rightarrow> f cur - f p | None \<Rightarrow> f cur)"

text \<open>The four amounts of a row, formatted into 16 bytes each.\<close>

definition row_amount :: "proc_snap list option \<Rightarrow> 64 word \<Rightarrow> (proc_snap \<Rightarrow> 64 word) \<Rightarrow> proc_snap \<Rightarrow> string option" where
  "row_amount prev interval_ms f cur =
     (case prev of
        Some procs \<Rightarrow>
          (let secs = ucast (interval_ms div 1000)
           in fmt_rate 16 (since (find_by_pid procs (pid cur)) f cur) (if sint secs < 1 then 1 else secs))
      | None \<Rightarrow> fmt_bytes 16 (f cur))"

definition print_row :: "uid_entry list \<Rightarrow> proc_snap list option \<Rightarrow> 64 word \<Rightarrow> 64 word \<Rightarrow> proc_snap \<Rightarrow> event option" where
  "print_row users prev interval_ms interval_ticks cur = do {
     let pct = cpu_pct_x10 prev cur interval_ticks;
     let cputime_ms = cputime_ticks cur * 1000 div USER_HZ;
     uname \<leftarrow> (case uid_to_name users (uid cur) of
                 Some nm \<Rightarrow> Some nm
               | None \<Rightarrow> print_into 12 ''%d'' [VInt (uid cur)]);
     frd \<leftarrow> row_amount prev interval_ms p_fs_bytes_read cur;
     fwr \<leftarrow> row_amount prev interval_ms p_fs_bytes_written cur;
     ntx \<leftarrow> row_amount prev interval_ms p_net_bytes_sent cur;
     nrx \<leftarrow> row_amount prev interval_ms p_net_bytes_recv cur;
     Some (Say row_fmt
       [VInt (pid cur), str_arg uname, str_arg (name cur), str_arg (state cur), int_arg (vm_kb cur),
        int_arg cputime_ms, VInt (word_of_int (sint pct sdiv 10)), VInt (word_of_int (sint pct smod 10)),
        str_arg frd, str_arg fwr, str_arg ntx, str_arg nrx])
   }"

fun all_rows :: "(proc_snap \<Rightarrow> event option) \<Rightarrow> proc_snap list \<Rightarrow> event list option" where
  "all_rows row [] = Some []"
| "all_rows row (p # procs) = do { e \<leftarrow> row p; es \<leftarrow> all_rows row procs; Some (e # es) }"

definition print_procs :: "uid_entry list \<Rightarrow> proc_snap list \<Rightarrow> proc_snap list option \<Rightarrow> bool \<Rightarrow> 64 word \<Rightarrow> 64 word \<Rightarrow> event list option" where
  "print_procs users procs prev show_all interval_ms interval_ticks = do {
     let user_count = length (filter (\<lambda>p. 0 < vm_kb p) procs);
     rows \<leftarrow> all_rows (print_row users prev interval_ms interval_ticks)
               (filter (\<lambda>p. show_all \<or> vm_kb p \<noteq> 0) procs);
     Some ([Say (''Procs: %d user, %d kernel, %d total'' @ [CHR 0x0A, CHR 0x0A])
              [VInt (of_nat user_count), VInt (of_nat (length procs - user_count)), VInt (of_nat (length procs))],
            Say columns_fmt (List.map str_arg (if prev \<noteq> None then delta_columns else absolute_columns))] @ rows)
   }"

subsection \<open>The main loop\<close>

record options =
  show_all :: bool
  iterations :: "32 word"
  delay_secs :: "32 word"

definition at_least_1 :: "string \<Rightarrow> 32 word" where
  "at_least_1 s = (if atoi s < 1 then 1 else word_of_int (atoi s))"

definition usage :: "event list" where
  "usage = [Say (''Usage: top [-a] [-n N] [-d SECS]'' @ [CHR 0x0A]) [],
     Say (''  -a        show all (including kernel threads)'' @ [CHR 0x0A]) [],
     Say (''  -n N      refresh N times then exit (default: 1)'' @ [CHR 0x0A]) [],
     Say (''  -d SECS   delay between refreshes (default: 2)'' @ [CHR 0x0A]) []]"

text \<open>The arguments: an exit status with what is printed before it, or the options.\<close>

fun parse_args :: "string list \<Rightarrow> options \<Rightarrow> int \<times> event list + options" where
  "parse_args [] opts = Inr opts"
| "parse_args (a # args) opts =
     (if a = ''-a'' then parse_args args (opts\<lparr>show_all := True\<rparr>)
      else if a = ''-n'' \<and> args \<noteq> [] then parse_args (tl args) (opts\<lparr>iterations := at_least_1 (hd args)\<rparr>)
      else if a = ''-d'' \<and> args \<noteq> [] then parse_args (tl args) (opts\<lparr>delay_secs := at_least_1 (hd args)\<rparr>)
      else if a = ''-h'' then Inl (0, usage)
      else Inl (1, Say (''top: unknown option '' @ [CHR 0x27] @ ''%s'' @ [CHR 0x27, CHR 0x0A]) [str_arg a] # usage))"

text \<open>
  The state of the loop: the two slots of system snapshots and of process tables, the current slot,
  how many snapshots were taken, and the output.  \<open>world t\<close> is what the kernel answers while the
  snapshot number \<open>t\<close> is taken.
\<close>

record top_state =
  ks :: "nat \<Rightarrow> sys_snap"
  snap :: "nat \<Rightarrow> proc_snap list"
  cur_slot :: nat
  taken :: nat
  out :: "event list"

definition take_snapshot :: "(nat \<Rightarrow> 's procfs) \<Rightarrow> nat \<Rightarrow> top_state \<Rightarrow> top_state" where
  "take_snapshot world slot st =
     (let fs = world (taken st);
          procs = scan_procs fs;
          msg = (if proc_entries fs = None then [Say (''top: cannot open /proc'' @ [CHR 0x0A]) []] else [])
      in st\<lparr>ks := (ks st)(slot := fill_io_totals procs (read_system_snapshot fs)),
            snap := (snap st)(slot := procs), taken := taken st + 1, out := out st @ msg\<rparr>)"

definition emit :: "event list \<Rightarrow> top_state \<Rightarrow> top_state" where
  "emit es st = st\<lparr>out := out st @ es\<rparr>"

definition show_slots :: "uid_entry list \<Rightarrow> options \<Rightarrow> nat \<Rightarrow> top_state \<Rightarrow> top_state option" where
  "show_slots users opts prev st = do {
     let cur = cur_slot st;
     let interval_ms = uptime_ms (ks st cur) - uptime_ms (ks st prev);
     let interval_ticks = cpu_total (ks st cur) - cpu_total (ks st prev);
     header \<leftarrow> print_header (ks st cur) (Some (ks st prev)) (ucast (interval_ms div 1000));
     table \<leftarrow> print_procs users (snap st cur) (Some (snap st prev)) (show_all opts) interval_ms interval_ticks;
     Some (emit (header @ [Say [CHR 0x0A] []] @ table) st)
   }"

definition top_iter :: "(nat \<Rightarrow> 's procfs) \<Rightarrow> uid_entry list \<Rightarrow> options \<Rightarrow> nat \<Rightarrow> top_state \<Rightarrow> top_state option" where
  "top_iter world users opts iter st = do {
     let (prev, st) =
       (if iter = 0
        then (0, (take_snapshot world 1 (emit [Nap 1000] (take_snapshot world 0 st)))\<lparr>cur_slot := 1\<rparr>)
        else (cur_slot st, take_snapshot world (1 - cur_slot st) (st\<lparr>cur_slot := 1 - cur_slot st\<rparr>)));
     let st = (if 0 < iter
               then emit [Say ([CHR 0x0A] @ ''--- refresh %d/%d ---'' @ [CHR 0x0A, CHR 0x0A])
                            [VInt (of_nat iter + 1), VInt (iterations opts)]] st
               else st);
     st \<leftarrow> show_slots users opts prev st;
     Some (if int iter + 1 < sint (iterations opts) then emit [Nap (delay_secs opts * 1000)] st else st)
   }"

fun top_loop :: "(nat \<Rightarrow> 's procfs) \<Rightarrow> uid_entry list \<Rightarrow> options \<Rightarrow> nat \<Rightarrow> nat \<Rightarrow> top_state \<Rightarrow> top_state option" where
  "top_loop world users opts iter 0 st = Some st"
| "top_loop world users opts iter (Suc n) st = do {
     st \<leftarrow> top_iter world users opts iter st;
     top_loop world users opts (Suc iter) n st
   }"

definition first_state :: top_state where
  "first_state = \<lparr>ks = (\<lambda>i. empty_sys), snap = (\<lambda>i. []), cur_slot = 0, taken = 0, out = []\<rparr>"

definition top_main :: "(nat \<Rightarrow> 's procfs) \<Rightarrow> string list \<Rightarrow> (int \<times> event list) option" where
  "top_main world args =
     (case parse_args args \<lparr>show_all = False, iterations = 1, delay_secs = 2\<rparr> of
        Inl (rc, es) \<Rightarrow> Some (rc, es)
      | Inr opts \<Rightarrow>
          map_option (\<lambda>st. (0, out st))
            (top_loop world (load_passwd (world 0)) opts 0 (nat (sint (iterations opts))) first_state))"

end
