(* ===== verification/TopShow.thy ===== *)
theory TopShow
  imports Top TopFiles PrintfTypes
begin

section \<open>top.c: what the display shows\<close>

text \<open>
  The calls of \<open>printf\<close> and \<open>snprintf\<close> that top makes are well typed, so that it always prints; the two
  alternating slots hold the last two snapshots; amounts and percentages are what they say.
\<close>

subsection \<open>Every call prints\<close>

definition call_ok :: "event \<Rightarrow> bool" where
  "call_ok e = (case e of Say fmt args \<Rightarrow> format_ok fmt (types args) | Nap w \<Rightarrow> True)"

lemma print_into_total: "format_ok fmt (types args) \<Longrightarrow> 0 < n \<Longrightarrow> print_into n fmt args \<noteq> None"
  using format_ok_vsnprintf [of fmt args n "replicate n NUL"] by (simp add: print_into_def)

lemma formats_ok:
  "format_ok ''%d B'' [TInt]" "format_ok ''%d.%d KB'' [TInt, TInt]" "format_ok ''%d.%d MB'' [TInt, TInt]"
  "format_ok ''%d.%d GB'' [TInt, TInt]" "format_ok ''%d B/s'' [TInt]" "format_ok ''%d.%d KB/s'' [TInt, TInt]"
  "format_ok ''%d.%d MB/s'' [TInt, TInt]" "format_ok ''%d'' [TInt]" "format_ok ''CPU  '' []"
  "format_ok '' [%d:u=%d%%]'' [TInt, TInt]" "format_ok [CHR 0x0A] []"
  "format_ok (''Disk   rd=%d wr=%d  %s / %s'' @ [CHR 0x0A]) [TInt, TInt, TStr, TStr]"
  "format_ok (''Net    tx/rx  %s / %s'' @ [CHR 0x0A]) [TStr, TStr]"
  "format_ok (''Uptime: %d:%02d:%02d   CPUs: %d   Load(5s): %d.%02d'' @ [CHR 0x0A]) [TInt, TInt, TInt, TInt, TInt, TInt]"
  "format_ok (''Procs: %d user, %d kernel, %d total'' @ [CHR 0x0A, CHR 0x0A]) [TInt, TInt, TInt]"
  "format_ok ([CHR 0x0A] @ ''--- refresh %d/%d ---'' @ [CHR 0x0A, CHR 0x0A]) [TInt, TInt]"
  "format_ok (''top: unknown option '' @ [CHR 0x27] @ ''%s'' @ [CHR 0x27, CHR 0x0A]) [TStr]"
  "format_ok (''top: cannot open /proc'' @ [CHR 0x0A]) []"
  by code_simp+

lemma columns_ok: "format_ok columns_fmt [TStr, TStr, TStr, TStr, TStr, TStr, TStr, TStr, TStr, TStr, TStr]"
  by code_simp

lemma row_ok: "format_ok row_fmt [TInt, TStr, TStr, TStr, TInt, TInt, TInt, TInt, TStr, TStr, TStr, TStr]"
  by code_simp

lemma usage_ok: "list_all call_ok usage"
  by code_simp

lemma fmt_scaled_total:
  "format_ok fmt [TInt, TInt] \<Longrightarrow> 0 < n \<Longrightarrow> fmt_scaled n fmt unit bytes \<noteq> None"
  using print_into_total [of fmt _ n] by (simp add: fmt_scaled_def)

lemma fmt_bytes_total: "0 < n \<Longrightarrow> fmt_bytes n w \<noteq> None"
  using print_into_total [of "''%d B''" "[int_arg w]" n]
  by (simp add: fmt_bytes_def fmt_scaled_total formats_ok del: not_None_eq)

lemma fmt_rate_total: "0 < n \<Longrightarrow> fmt_rate n w secs \<noteq> None"
  by (simp add: fmt_rate_def Let_def fmt_scaled_total print_into_total formats_ok del: not_None_eq)

lemma amount_total: "amount prev f cur secs \<noteq> None"
  by (cases prev) (simp_all add: amount_def fmt_bytes_total fmt_rate_total del: not_None_eq)

lemma row_amount_total: "row_amount prev ms f cur \<noteq> None"
  by (cases prev) (simp_all add: row_amount_def Let_def fmt_bytes_total fmt_rate_total del: not_None_eq)

definition prints :: "event list option \<Rightarrow> bool" where
  "prints r = (case r of Some es \<Rightarrow> list_all call_ok es | None \<Rightarrow> False)"

lemma print_header_ok: "prints (print_header cur prev secs)"
proof -
  obtain a b c d where "amount prev fs_bytes_read cur secs = Some a" "amount prev fs_bytes_written cur secs = Some b"
      "amount prev net_bytes_sent cur secs = Some c" "amount prev net_bytes_recv cur secs = Some d"
    using amount_total by (metis not_None_eq)
  then show ?thesis
    unfolding prints_def print_header_def
    by (simp add: call_ok_def formats_ok [simplified] list_all_iff Let_def split_beta)
qed

lemma print_row_ok: "\<exists>e. print_row users prev ms ticks cur = Some e \<and> call_ok e"
proof -
  obtain a b c d where am: "row_amount prev ms p_fs_bytes_read cur = Some a" "row_amount prev ms p_fs_bytes_written cur = Some b"
      "row_amount prev ms p_net_bytes_sent cur = Some c" "row_amount prev ms p_net_bytes_recv cur = Some d"
    using row_amount_total by (metis not_None_eq)
  obtain u where "print_into 12 ''%d'' [VInt (uid cur)] = Some u"
    using print_into_total [of "''%d''" "[VInt (uid cur)]" 12] formats_ok(8) by auto
  with am show ?thesis
    by (cases "uid_to_name users (uid cur)") (simp_all add: print_row_def call_ok_def row_ok Let_def)
qed

lemma all_rows_ok:
  assumes "\<And>p. \<exists>e. row p = Some e \<and> call_ok e"
  shows "prints (all_rows row procs)"
proof (induction procs)
  case (Cons p procs)
  then show ?case using assms [of p] by (auto simp: prints_def split: option.splits)
qed (simp add: prints_def)

lemma print_procs_ok: "prints (print_procs users procs prev all ms ticks)"
proof -
  obtain rows where rows: "all_rows (print_row users prev ms ticks) (filter (\<lambda>p. all \<or> vm_kb p \<noteq> 0) procs) = Some rows"
      "list_all call_ok rows"
    using all_rows_ok [of "print_row users prev ms ticks"] print_row_ok
    by (metis (no_types, lifting) option.case_eq_if option.collapse prints_def)
  then show ?thesis
    by (simp add: prints_def print_procs_def call_ok_def formats_ok [simplified] columns_ok delta_columns_def absolute_columns_def Let_def)
qed

subsection \<open>The two slots\<close>

text \<open>
  The reference without slots: every snapshot is kept, and iteration \<open>i\<close> compares snapshot \<open>i + 1\<close>
  with snapshot \<open>i\<close>.
\<close>

definition shot :: "'s procfs \<Rightarrow> sys_snap \<times> proc_snap list" where
  "shot fs = (fill_io_totals (scan_procs fs) (read_system_snapshot fs), scan_procs fs)"

definition open_msg :: "'s procfs \<Rightarrow> event list" where
  "open_msg fs = (if proc_entries fs = None then [Say (''top: cannot open /proc'' @ [CHR 0x0A]) []] else [])"

definition report :: "uid_entry list \<Rightarrow> options \<Rightarrow> sys_snap \<times> proc_snap list \<Rightarrow> sys_snap \<times> proc_snap list \<Rightarrow> event list option" where
  "report users opts prev cur = do {
     let ms = uptime_ms (fst cur) - uptime_ms (fst prev);
     let ticks = cpu_total (fst cur) - cpu_total (fst prev);
     header \<leftarrow> print_header (fst cur) (Some (fst prev)) (ucast (ms div 1000));
     table \<leftarrow> print_procs users (snd cur) (Some (snd prev)) (show_all opts) ms ticks;
     Some (header @ [Say [CHR 0x0A] []] @ table)
   }"

definition banner :: "options \<Rightarrow> nat \<Rightarrow> event list" where
  "banner opts i =
     (if 0 < i then [Say ([CHR 0x0A] @ ''--- refresh %d/%d ---'' @ [CHR 0x0A, CHR 0x0A])
                       [VInt (of_nat i + 1), VInt (iterations opts)]] else [])"

definition iteration :: "(nat \<Rightarrow> 's procfs) \<Rightarrow> uid_entry list \<Rightarrow> options \<Rightarrow> nat \<Rightarrow> event list option" where
  "iteration world users opts i =
     map_option (\<lambda>es.
         (if i = 0 then open_msg (world 0) @ [Nap 1000] else []) @ open_msg (world (i + 1)) @ banner opts i @ es @
         (if int i + 1 < sint (iterations opts) then [Nap (delay_secs opts * 1000)] else []))
       (report users opts (shot (world i)) (shot (world (i + 1))))"

definition holds :: "(nat \<Rightarrow> 's procfs) \<Rightarrow> nat \<Rightarrow> top_state \<Rightarrow> bool" where
  "holds world t st \<longleftrightarrow> taken st = t + 1 \<and> cur_slot st \<le> 1 \<and>
     (ks st (cur_slot st), snap st (cur_slot st)) = shot (world t)"

lemma report_prints: "\<exists>es. report users opts prev cur = Some es \<and> list_all call_ok es"
proof -
  let ?ms = "uptime_ms (fst cur) - uptime_ms (fst prev)" and ?ticks = "cpu_total (fst cur) - cpu_total (fst prev)"
  obtain h t where "print_header (fst cur) (Some (fst prev)) (ucast (?ms div 1000)) = Some h" "list_all call_ok h"
      "print_procs users (snd cur) (Some (snd prev)) (show_all opts) ?ms ?ticks = Some t" "list_all call_ok t"
    using print_header_ok [of "fst cur" "Some (fst prev)" "ucast (?ms div 1000)"]
      print_procs_ok [of users "snd cur" "Some (snd prev)" "show_all opts" ?ms ?ticks]
    by (auto simp: prints_def split: option.splits)
  then show ?thesis by (simp add: report_def Let_def call_ok_def formats_ok(11))
qed

lemma iteration_prints: "\<exists>es. iteration world users opts i = Some es \<and> list_all call_ok es"
  using report_prints [of users opts "shot (world i)" "shot (world (i + 1))"]
  by (auto simp: iteration_def call_ok_def open_msg_def banner_def formats_ok [simplified])

lemma show_slots_report:
  "show_slots users opts prev st =
     map_option (\<lambda>es. emit es st)
       (report users opts (ks st prev, snap st prev) (ks st (cur_slot st), snap st (cur_slot st)))"
  by (simp add: show_slots_def report_def Let_def Option.map_conv_bind_option comp_def)

lemma take_snapshot_simps [simp]:
  "ks (take_snapshot world slot st) = (ks st)(slot := fst (shot (world (taken st))))"
  "snap (take_snapshot world slot st) = (snap st)(slot := snd (shot (world (taken st))))"
  "cur_slot (take_snapshot world slot st) = cur_slot st"
  "taken (take_snapshot world slot st) = taken st + 1"
  "out (take_snapshot world slot st) = out st @ open_msg (world (taken st))"
  by (simp_all add: take_snapshot_def shot_def open_msg_def Let_def)

lemma emit_simps [simp]:
  "ks (emit es st) = ks st" "snap (emit es st) = snap st" "cur_slot (emit es st) = cur_slot st"
  "taken (emit es st) = taken st" "out (emit es st) = out st @ es"
  by (simp_all add: emit_def)

lemma top_iter_step:
  assumes "i = 0 \<and> taken st = 0 \<or> 0 < i \<and> holds world i st"
  shows "\<exists>es st'. iteration world users opts i = Some es \<and> top_iter world users opts i st = Some st' \<and>
    out st' = out st @ es \<and> holds world (i + 1) st'"
proof -
  obtain es where es: "report users opts (shot (world i)) (shot (world (i + 1))) = Some es"
    using report_prints by blast
  show ?thesis
  proof (cases "i = 0")
    case True
    with assms es show ?thesis
      by (simp add: iteration_def top_iter_def show_slots_report holds_def banner_def)
  next
    case False
    then have h: "taken st = i + 1" "cur_slot st = 0 \<or> cur_slot st = 1"
        "ks st (cur_slot st) = fst (shot (world i))" "snap st (cur_slot st) = snd (shot (world i))"
      using assms by (auto simp: holds_def) (metis fst_conv snd_conv)+
    with False es show ?thesis
      by (elim disjE) (simp_all add: iteration_def top_iter_def show_slots_report holds_def banner_def)
  qed
qed

lemma top_loop_iterations:
  assumes "i = 0 \<and> taken st = 0 \<or> 0 < i \<and> holds world i st"
  shows "\<exists>ess st'. those (List.map (iteration world users opts) [i..<i + n]) = Some ess \<and>
    top_loop world users opts i n st = Some st' \<and> out st' = out st @ concat ess"
  using assms
proof (induction n arbitrary: i st)
  case (Suc n)
  obtain es st1 where 1: "iteration world users opts i = Some es" "top_iter world users opts i st = Some st1"
      "out st1 = out st @ es" "holds world (i + 1) st1"
    using top_iter_step [OF Suc.prems] by blast
  obtain ess st2 where "those (List.map (iteration world users opts) [Suc i..<Suc i + n]) = Some ess"
      "top_loop world users opts (Suc i) n st1 = Some st2" "out st2 = out st1 @ concat ess"
    using Suc.IH [of "Suc i" st1] 1(4) by auto
  moreover have "[i..<i + Suc n] = i # [Suc i..<Suc i + n]" by (simp add: upt_conv_Cons)
  ultimately show ?case using 1 by simp
qed simp

lemma top_main_run:
  assumes "parse_args args \<lparr>show_all = False, iterations = 1, delay_secs = 2\<rparr> = Inr opts"
  shows "\<exists>ess. those (List.map (iteration world (load_passwd (world 0)) opts) [0..<nat (sint (iterations opts))]) = Some ess \<and>
    top_main world args = Some (0, concat ess)"
proof -
  obtain ess st' where "those (List.map (iteration world (load_passwd (world 0)) opts) [0..<0 + nat (sint (iterations opts))]) = Some ess"
      "top_loop world (load_passwd (world 0)) opts 0 (nat (sint (iterations opts))) first_state = Some st'"
      "out st' = out first_state @ concat ess"
    using top_loop_iterations [of 0 first_state world "load_passwd (world 0)" opts "nat (sint (iterations opts))"]
    by (simp add: first_state_def) blast
  with assms show ?thesis by (simp add: top_main_def first_state_def)
qed

lemma those_all: "those (List.map f xs) = Some ys \<Longrightarrow> (\<And>x. \<exists>y. f x = Some y \<and> P y) \<Longrightarrow> list_all P ys"
proof (induction xs arbitrary: ys)
  case (Cons x xs)
  obtain y where "f x = Some y" "P y" using Cons.prems(2) by blast
  with Cons show ?case by (auto simp: map_option_case split: option.splits)
qed simp

lemma list_all_concat: "list_all (list_all P) xss \<Longrightarrow> list_all P (concat xss)"
  by (induction xss) auto

lemma parse_args_prints: "parse_args args opts = Inl (rc, es) \<Longrightarrow> list_all call_ok es"
  using usage_ok
  by (induction args opts rule: parse_args.induct)
    (auto simp: call_ok_def formats_ok [simplified] split: if_splits)

definition prints_text :: "event \<Rightarrow> bool" where
  "prints_text e = (case e of Say fmt args \<Rightarrow> vprintf fmt args \<noteq> None | Nap w \<Rightarrow> True)"

lemma call_ok_prints: "call_ok e \<Longrightarrow> prints_text e"
  using format_ok_vprintf by (auto simp: call_ok_def prints_text_def simp del: not_None_eq split: event.splits)

text \<open>
  C28. Top ends for all arguments and whatever the kernel reports, and every call of \<open>printf\<close> on the
  way is well typed: its arguments have the types its format asks for, and \<open>vprintf\<close> prints its text.
\<close>

theorem top_calls_well_typed:
  "\<exists>rc es. top_main world args = Some (rc, es) \<and> list_all prints_text es"
proof (cases "parse_args args \<lparr>show_all = False, iterations = 1, delay_secs = 2\<rparr>")
  case (Inl r)
  then show ?thesis
    using parse_args_prints call_ok_prints by (cases r) (fastforce simp: top_main_def list_all_iff)
next
  case (Inr opts)
  then obtain ess where "those (List.map (iteration world (load_passwd (world 0)) opts) [0..<nat (sint (iterations opts))]) = Some ess"
      "top_main world args = Some (0, concat ess)"
    using top_main_run by blast
  moreover from this(1) have "list_all (list_all call_ok) ess"
    by (rule those_all) (rule iteration_prints)
  ultimately show ?thesis
    using list_all_concat [of call_ok ess] call_ok_prints by (auto simp: list_all_iff)
qed



subsection \<open>Amounts\<close>

lemma render_scaled:
  assumes "format_int (scast a) 10 True {} = Some d" "format_int (scast b) 10 True {} = Some e" "CHR ''%'' \<notin> set u"
  shows "render ''%n'' (''%d.%d'' @ u) [VInt a, VInt b] = Some (d @ ''.'' @ e @ u)"
  using assms render_plain [OF assms(3)] by (simp add: render_eval)

lemma ucast_div64:
  assumes "m < 2 ^ 64" "k < 2 ^ 64"
  shows "(ucast (of_nat m div of_nat k :: 64 word) :: 32 word) = of_nat (m div k)"
proof -
  have "(of_nat m div of_nat k :: 64 word) = of_nat (m div k)"
    using assms by (simp add: word_arith_nat_div unat_of_nat)
  then show ?thesis by (simp only: ucast_of_nat64)
qed

lemma fmt_scaled_text:
  assumes "0 < unit" "unit * 10 < 2 ^ 64" "bytes div unit < 2 ^ 31" "bytes < 2 ^ 64" "length u + 12 < n"
    "CHR ''%'' \<notin> set u" "cstring u"
  shows "fmt_scaled n (''%d.%d'' @ u) (of_nat unit) (of_nat bytes) =
    Some (dec (bytes div unit) @ ''.'' @ dec (bytes mod unit * 10 div unit) @ u)"
proof -
  have "bytes mod unit * 10 < unit * 10" using assms(1) by simp
  then have r: "bytes mod unit * 10 < 2 ^ 64" "bytes mod unit * 10 div unit < 10"
    using less_trans [OF _ assms(2)] by (blast, simp add: less_mult_imp_div_less mult.commute)
  have "(of_nat bytes mod of_nat unit * 10 :: 64 word) = of_nat (bytes mod unit * 10)"
    using assms by (simp add: word_arith_nat_mod unat_of_nat)
  then have "fmt_scaled n (''%d.%d'' @ u) (of_nat unit) (of_nat bytes) =
      print_into n (''%d.%d'' @ u) [VInt (of_nat (bytes div unit)), VInt (of_nat (bytes mod unit * 10 div unit))]"
    using assms r ucast_div64 [of bytes unit] ucast_div64 [of "bytes mod unit * 10" unit] by (simp add: fmt_scaled_def)
  also have "\<dots> = Some (dec (bytes div unit) @ ''.'' @ dec (bytes mod unit * 10 div unit) @ u)"
  proof (rule print_into_text)
    show "render ''%n'' (''%d.%d'' @ u) [VInt (of_nat (bytes div unit)), VInt (of_nat (bytes mod unit * 10 div unit))] =
        Some (dec (bytes div unit) @ ''.'' @ dec (bytes mod unit * 10 div unit) @ u)"
      using assms r by (intro render_scaled format_int_of_nat) auto
    show "length (dec (bytes div unit) @ ''.'' @ dec (bytes mod unit * 10 div unit) @ u) < n"
      using assms r dec_length [of "bytes div unit" 10] dec_length [of "bytes mod unit * 10 div unit" 1] by simp
  qed (use assms in simp)
  finally show ?thesis .
qed

definition unit_of :: "nat \<Rightarrow> nat \<times> string" where
  "unit_of n = (if n < 2 ^ 20 then (2 ^ 10, '' KB'') else if n < 2 ^ 30 then (2 ^ 20, '' MB'') else (2 ^ 30, '' GB''))"

lemma of_nat_less64: "n < 2 ^ 64 \<Longrightarrow> k < 2 ^ 64 \<Longrightarrow> (of_nat n :: 64 word) < of_nat k \<longleftrightarrow> n < k"
  by (simp add: word_less_nat_alt unat_of_nat)

lemma tenths:
  fixes u n :: nat
  assumes "0 < u"
  shows "u * (10 * (n div u) + n mod u * 10 div u) \<le> 10 * n" "10 * n < u * (10 * (n div u) + n mod u * 10 div u + 1)"
proof -
  have n: "10 * n = u * (10 * (n div u)) + n mod u * 10"
    using mult_div_mod_eq [of u n] by (metis mult.commute distrib_right mult.left_commute)
  have "u * (n mod u * 10 div u) \<le> n mod u * 10" by simp
  then show "u * (10 * (n div u) + n mod u * 10 div u) \<le> 10 * n"
    unfolding n distrib_left by simp
  have "n mod u * 10 < u * (n mod u * 10 div u) + u" using dividend_less_times_div [OF assms, of "n mod u * 10"] by simp
  then show "10 * n < u * (10 * (n div u) + n mod u * 10 div u + 1)"
    unfolding n distrib_left by simp
qed

text \<open>
  An amount is shown with one digit behind the point, rounded down, in the largest unit that it
  reaches: from 1024 bytes on and below \<open>2 ^ 61\<close> the text, which fits in the 16 bytes of a column,
  names \<open>q\<close> whole units and \<open>d\<close> tenths with \<open>q + d / 10\<close> units at most the amount and the amount less
  than one tenth of a unit above it.
\<close>

theorem fmt_bytes_rounds_down:
  assumes "1024 \<le> n" "n < 2 ^ 61" "unit_of n = (unit, suffix)"
  shows "\<exists>q d. fmt_bytes 16 (of_nat n) = Some (dec q @ ''.'' @ dec d @ suffix) \<and>
    d < 10 \<and> unit * (10 * q + d) \<le> 10 * n \<and> 10 * n < unit * (10 * q + d + 1) \<and> 0 < q"
proof -
  let ?q = "n div unit" and ?d = "n mod unit * 10 div unit"
  have u: "0 < unit" "unit \<le> n" "n div unit < 2 ^ 31" "unit * 10 < 2 ^ 64"
    using assms by (auto simp: unit_of_def div_less_iff_less_mult split: if_splits)
  have cmp: "\<not> (of_nat n :: 64 word) < 1024" "(of_nat n :: 64 word) < 1048576 \<longleftrightarrow> n < 2 ^ 20"
      "(of_nat n :: 64 word) < 1073741824 \<longleftrightarrow> n < 2 ^ 30"
    using of_nat_less64 [of n 1024] of_nat_less64 [of n "2 ^ 20"] of_nat_less64 [of n "2 ^ 30"] assms(1,2) by simp_all
  have "fmt_bytes 16 (of_nat n) = Some (dec ?q @ ''.'' @ dec ?d @ suffix)"
    using assms u fmt_scaled_text [of unit n suffix 16] cmp
    by (auto simp: fmt_bytes_def unit_of_def split: if_splits)
  moreover have "?d < 10" using u(1) by (simp add: less_mult_imp_div_less mult.commute)
  moreover have "0 < ?q" using u by (simp add: div_greater_zero_iff)
  ultimately show ?thesis using tenths [OF u(1), of n] by blast
qed

theorem fmt_bytes_rounds_down_witness:
  "\<exists>q d. fmt_bytes 16 2560 = Some (dec q @ ''.'' @ dec d @ '' KB'') \<and> d < 10 \<and>
    1024 * (10 * q + d) \<le> 25600 \<and> 25600 < 1024 * (10 * q + d + 1)"
  using fmt_bytes_rounds_down [of 2560 "2 ^ 10" "'' KB''"] by (auto simp: unit_of_def)

text \<open>
  The utilisation of a processor is the busy share of the time between two snapshots in percent,
  rounded down, and lies between 0 and 100, as long as both counters advance, the busy one not more
  than the total, by less than \<open>2 ^ 57\<close> ticks.
\<close>

theorem util_pct_share:
  assumes "i < length (cpu p)" "cpu p ! i = \<lparr>busy_ticks = of_nat b0, total_ticks = of_nat t0\<rparr>"
    "c = \<lparr>busy_ticks = of_nat (b0 + b), total_ticks = of_nat (t0 + t)\<rparr>" "b \<le> t" "t < 2 ^ 57"
  shows "util_pct (Some p) i c = of_nat (b * 100 div t) \<and>
    0 \<le> sint (util_pct (Some p) i c) \<and> sint (util_pct (Some p) i c) \<le> 100"
proof -
  have le: "b * 100 div t \<le> 100"
  proof (cases "t = 0")
    case False
    have "b * 100 div t \<le> t * 100 div t" using assms(4) by (intro div_le_mono mult_le_mono1)
    with False show ?thesis by simp
  qed simp
  then have s: "sint (of_nat (b * 100 div t) :: 32 word) = int (b * 100 div t)"
    by (intro sint_of_nat32) simp
  have "(0 :: 64 word) < of_nat t \<longleftrightarrow> 0 < t"
    using of_nat_less64 [of 0 t] assms(5) by simp
  moreover have "(of_nat b * 100 :: 64 word) = of_nat (b * 100)" by simp
  ultimately have "util_pct (Some p) i c = of_nat (b * 100 div t)"
    using assms s le ucast_div64 [of "b * 100" t] by (simp add: util_pct_def Let_def)
  with s le show ?thesis by simp
qed

theorem util_pct_share_witness:
  "util_pct (Some (empty_sys\<lparr>cpu := [\<lparr>busy_ticks = 10, total_ticks = 40\<rparr>]\<rparr>)) 0 \<lparr>busy_ticks = 35, total_ticks = 140\<rparr> = 25"
  using util_pct_share [of 0 "empty_sys\<lparr>cpu := [\<lparr>busy_ticks = 10, total_ticks = 40\<rparr>]\<rparr>" 10 40 _ 25 100] by simp

text \<open>
  The totals of the header are sums over the processes that are alive.  When a process that has read
  4096 bytes ends between two snapshots the sum falls, the difference wraps around, and the header
  shows a negative rate.
\<close>

theorem rate_after_exit:
  "amount (Some (fill_io_totals [empty_snap\<lparr>p_fs_bytes_read := 4096\<rparr>] empty_sys)) fs_bytes_read
     (fill_io_totals [] empty_sys) 1 = Some ''-1.9 MB/s''"
  by code_simp

end
