(* ===== verification/Dns.thy ===== *)
theory Dns
  imports Ulib
begin

section \<open>dnsstress.c: building queries and reading replies\<close>

text \<open>
  Dnsstress sends two queries for a host to a DNS server, for the IPv4 and the IPv6 address, and
  judges the replies.  Messages are byte lists; every access to a buffer is checked, and an access
  outside it gives \<^const>\<open>None\<close>.
\<close>

subsection \<open>Numbers and addresses\<close>

definition bswap16 :: "16 word \<Rightarrow> 16 word" where
  "bswap16 x = or (push_bit 8 x) (drop_bit 8 x)"

definition get16 :: "char list \<Rightarrow> nat \<Rightarrow> int option" where
  "get16 p i = do { a \<leftarrow> aget p i; b \<leftarrow> aget p (i + 1); Some (256 * uc a + uc b) }"

text \<open>The loop of \<open>parse_ipv4\<close>: the rest of the string, the parts so far and the value of the next one.\<close>

definition add_part :: "int list \<Rightarrow> int \<Rightarrow> int list option" where
  "add_part parts v = (if 4 \<le> length parts then None else Some (parts @ [v]))"

fun ipv4_loop :: "string \<Rightarrow> int list \<Rightarrow> int \<Rightarrow> int list option" where
  "ipv4_loop [] parts v = add_part parts v"
| "ipv4_loop (c # s) parts v =
     (if is_digit c then
        (let v = v * 10 + (sc c - 48) in if 255 < v then None else ipv4_loop s parts v)
      else if c = CHR ''.'' then
        (case add_part parts v of None \<Rightarrow> None | Some parts \<Rightarrow> ipv4_loop s parts 0)
      else None)"

definition parse_ipv4 :: "string \<Rightarrow> int" where
  "parse_ipv4 s =
     (case ipv4_loop s [] 0 of
        Some [a, b, c, d] \<Rightarrow> a + b * 2 ^ 8 + c * 2 ^ 16 + d * 2 ^ 24
      | _ \<Rightarrow> 0)"

subsection \<open>Queries\<close>

text \<open>
  The loop of \<open>put_qname\<close>: the rest of the host name, where the length of the current label goes, the
  next free byte, the length so far, and the buffer.  The result is -1 or the offset behind the name.
\<close>

fun qname_loop :: "nat \<Rightarrow> string \<Rightarrow> nat \<Rightarrow> nat \<Rightarrow> nat \<Rightarrow> char list \<Rightarrow> (int \<times> char list) option" where
  "qname_loop cap [] label_start off label_len buf =
     (if label_len = 0 \<or> 63 < label_len \<or> cap \<le> label_start then Some (-1, buf)
      else do {
        buf \<leftarrow> aset buf label_start (to_char (int label_len));
        if cap \<le> off then Some (-1, buf)
        else do { buf \<leftarrow> aset buf off NUL; Some (int off + 1, buf) }
      })"
| "qname_loop cap (c # host) label_start off label_len buf =
     (if c = CHR ''.'' then
        (if label_len = 0 \<or> 63 < label_len \<or> cap \<le> label_start then Some (-1, buf)
         else do {
           buf \<leftarrow> aset buf label_start (to_char (int label_len));
           qname_loop cap host off (off + 1) 0 buf
         })
      else if cap \<le> off then Some (-1, buf)
      else do {
        buf \<leftarrow> aset buf off c;
        qname_loop cap host label_start (off + 1) (label_len + 1) buf
      })"

definition put_qname :: "char list \<Rightarrow> nat \<Rightarrow> nat \<Rightarrow> string \<Rightarrow> (int \<times> char list) option" where
  "put_qname buf off cap host = qname_loop cap host off (off + 1) 0 buf"

definition hi8 :: "16 word \<Rightarrow> char" where "hi8 w = to_char (uint w div 256)"
definition lo8 :: "16 word \<Rightarrow> char" where "lo8 w = to_char (uint w)"

definition make_query :: "nat \<Rightarrow> 16 word \<Rightarrow> string \<Rightarrow> 16 word \<Rightarrow> (int \<times> char list) option" where
  "make_query cap qid host qtype = do {
     let buf = replicate cap NUL;
     buf \<leftarrow> aset buf 0 (hi8 qid);
     buf \<leftarrow> aset buf 1 (lo8 qid);
     buf \<leftarrow> aset buf 2 (CHR 0x01);
     buf \<leftarrow> aset buf 5 (CHR 0x01);
     (off, buf) \<leftarrow> put_qname buf 12 cap host;
     if off < 0 \<or> int cap < off + 4 then Some (-1, buf)
     else do {
       buf \<leftarrow> aset buf (nat off) (hi8 qtype);
       buf \<leftarrow> aset buf (nat off + 1) (lo8 qtype);
       buf \<leftarrow> aset buf (nat off + 2) NUL;
       buf \<leftarrow> aset buf (nat off + 3) (CHR 0x01);
       Some (off + 4, buf)
     }
   }"

subsection \<open>Replies\<close>

function skip_name :: "char list \<Rightarrow> nat \<Rightarrow> nat \<Rightarrow> int option" where
  "skip_name buf len off =
     (if len \<le> off then Some (-1)
      else case aget buf off of
        None \<Rightarrow> None
      | Some c \<Rightarrow>
          (let n = nat (uc c); off = off + 1
           in if n = 0 then Some (int off)
              else if n div 64 = 3 then (if len \<le> off then Some (-1) else Some (int off + 1))
              else if n div 64 \<noteq> 0 \<or> len < off + n then Some (-1)
              else skip_name buf len (off + n)))"
  by pat_completeness auto
termination
  by (relation "measure (\<lambda>(buf, len, off). len - off)") auto

declare skip_name.simps [simp del]

fun skip_questions :: "char list \<Rightarrow> nat \<Rightarrow> nat \<Rightarrow> nat \<Rightarrow> int option" where
  "skip_questions buf len 0 off = Some (int off)"
| "skip_questions buf len (Suc qd) off = do {
     o1 \<leftarrow> skip_name buf len off;
     if o1 < 0 \<or> int len < o1 + 4 then Some (-1)
     else skip_questions buf len qd (nat o1 + 4)
   }"

fun scan_answers :: "char list \<Rightarrow> nat \<Rightarrow> int \<Rightarrow> nat \<Rightarrow> nat \<Rightarrow> int option" where
  "scan_answers buf len qtype 0 off = Some 0"
| "scan_answers buf len qtype (Suc an) off = do {
     o1 \<leftarrow> skip_name buf len off;
     if o1 < 0 \<or> int len < o1 + 10 then Some (-1)
     else do {
       let off = nat o1;
       typ \<leftarrow> get16 buf off;
       cls \<leftarrow> get16 buf (off + 2);
       rdlen \<leftarrow> get16 buf (off + 8);
       let off = off + 10;
       if int len < int off + rdlen then Some (-1)
       else if cls = 1 \<and> typ = qtype \<and> (qtype = 1 \<and> rdlen = 4 \<or> qtype = 28 \<and> rdlen = 16) then Some 1
       else scan_answers buf len qtype an (off + nat rdlen)
     }
   }"

definition response_usable :: "char list \<Rightarrow> nat \<Rightarrow> int \<Rightarrow> int \<Rightarrow> int option" where
  "response_usable buf len want qtype =
     (if len < 12 then Some (-1)
      else do {
        rid \<leftarrow> get16 buf 0;
        if rid \<noteq> want then Some (-1)
        else do {
          f \<leftarrow> aget buf 3;
          if uc f mod 16 \<noteq> 0 then Some 0
          else do {
            qd \<leftarrow> get16 buf 4;
            an \<leftarrow> get16 buf 6;
            off \<leftarrow> skip_questions buf len (nat qd) 12;
            if off < 0 then Some (-1) else scan_answers buf len qtype (nat an) (nat off)
          }
        }
      })"

subsection \<open>One pair of queries\<close>

datatype reason = NONE | BUILD | SOCKET | SERVER | SEND4 | SEND6 | POLL | RECV | BADSRC | BAD4 | TIMEOUT4

record dns_result =
  reason :: reason
  detail :: int
  got4 :: int
  got6 :: int
  bad_src_addr :: int
  bad_src_port :: int

definition dns_result_init :: dns_result where
  "dns_result_init = \<lparr>reason = NONE, detail = 0, got4 = 0, got6 = 0, bad_src_addr = 0, bad_src_port = 0\<rparr>"

definition dns_fail_reason_name :: "reason \<Rightarrow> string" where
  "dns_fail_reason_name r =
     (case r of BUILD \<Rightarrow> ''build'' | SOCKET \<Rightarrow> ''socket'' | SERVER \<Rightarrow> ''server'' | SEND4 \<Rightarrow> ''send4''
      | SEND6 \<Rightarrow> ''send6'' | POLL \<Rightarrow> ''poll'' | RECV \<Rightarrow> ''recv'' | BADSRC \<Rightarrow> ''badsrc'' | BAD4 \<Rightarrow> ''bad4''
      | TIMEOUT4 \<Rightarrow> ''timeout4'' | NONE \<Rightarrow> ''unknown'')"

text \<open>
  What \<open>recvfrom\<close> gives: its result, the reply buffer after it, and the source.  A call of \<open>poll\<close>
  answers with a number, and after it the datagrams arrive that the inner loop sees before \<open>EAGAIN\<close>.
\<close>

record datagram =
  result :: int
  reply :: "char list"
  src_addr :: int
  src_port :: int

record network =
  socket_answer :: int
  send4_answer :: int
  send6_answer :: int
  waits :: "nat \<Rightarrow> int \<times> datagram list"

record dns_state =
  g4 :: int
  g6 :: int
  res :: dns_result

text \<open>The inner loop: whether the pair fails at once, and the state.\<close>

fun recv_loop :: "int \<Rightarrow> int \<Rightarrow> int \<Rightarrow> int \<Rightarrow> datagram list \<Rightarrow> dns_state \<Rightarrow> (bool \<times> dns_state) option" where
  "recv_loop addr port id4 id6 [] st = Some (False, st)"
| "recv_loop addr port id4 id6 (d # ds) st =
     (if result d \<le> 0 then Some (True, st\<lparr>res := (res st)\<lparr>reason := RECV, detail := result d\<rparr>\<rparr>)
      else if src_addr d \<noteq> addr \<or> src_port d \<noteq> port then
        recv_loop addr port id4 id6 ds
          (st\<lparr>res := (res st)\<lparr>reason := BADSRC, bad_src_addr := src_addr d, bad_src_port := src_port d\<rparr>\<rparr>)
      else do {
        rid \<leftarrow> get16 (reply d) 0;
        if rid = id4 then do {
          ok \<leftarrow> response_usable (reply d) (nat (result d)) id4 1;
          if 0 < ok then recv_loop addr port id4 id6 ds (st\<lparr>g4 := 1\<rparr>)
          else if ok < 0 then Some (True, st\<lparr>res := (res st)\<lparr>reason := BAD4, detail := result d\<rparr>\<rparr>)
          else recv_loop addr port id4 id6 ds (st\<lparr>g4 := -1\<rparr>)
        }
        else if rid = id6 then do {
          ok \<leftarrow> response_usable (reply d) (nat (result d)) id6 28;
          recv_loop addr port id4 id6 ds (st\<lparr>g6 := if 0 < ok then 1 else -1\<rparr>)
        }
        else recv_loop addr port id4 id6 ds st
      })"

fun wait_loop :: "int \<Rightarrow> int \<Rightarrow> int \<Rightarrow> int \<Rightarrow> (nat \<Rightarrow> int \<times> datagram list) \<Rightarrow> nat \<Rightarrow> nat \<Rightarrow> dns_state \<Rightarrow> (bool \<times> dns_state) option" where
  "wait_loop addr port id4 id6 ws i 0 st = Some (False, st)"
| "wait_loop addr port id4 id6 ws i (Suc n) st =
     (if g4 st \<noteq> 0 \<and> g6 st \<noteq> 0 then Some (False, st)
      else (case ws i of (prc, ds) \<Rightarrow>
        if prc < 0 then Some (True, st\<lparr>res := (res st)\<lparr>reason := POLL, detail := prc\<rparr>\<rparr>)
        else if prc = 0 then wait_loop addr port id4 id6 ws (i + 1) n st
        else do {
          (failed, st) \<leftarrow> recv_loop addr port id4 id6 ds st;
          if failed then Some (True, st) else wait_loop addr port id4 id6 ws (i + 1) n st
        }))"

text \<open>
  The result is 0 or -1, the record of the failure, and how often the socket was opened and closed.
\<close>

definition DNS_PORT :: "16 word" where "DNS_PORT = 53"

definition query_pair :: "network \<Rightarrow> int \<Rightarrow> string \<Rightarrow> string \<Rightarrow> int \<Rightarrow> (int \<times> dns_result \<times> nat \<times> nat) option" where
  "query_pair net mypid server host iter = do {
     let id4 = (word_of_int (16384 + (mypid * 37 + iter * 2)) :: 16 word);
     let id6 = id4 + 1;
     (q4len, q4) \<leftarrow> make_query 512 id4 host 1;
     (q6len, q6) \<leftarrow> make_query 512 id6 host 28;
     let r0 = dns_result_init;
     if q4len < 0 \<or> q6len < 0 then Some (-1, r0\<lparr>reason := BUILD\<rparr>, 0, 0)
     else if socket_answer net < 0 then Some (-1, r0\<lparr>reason := SOCKET, detail := socket_answer net\<rparr>, 0, 0)
     else do {
       let addr = parse_ipv4 server;
       let port = uint (bswap16 DNS_PORT);
       if addr = 0 then Some (-1, r0\<lparr>reason := SERVER\<rparr>, 1, 1)
       else if send4_answer net \<noteq> q4len then Some (-1, r0\<lparr>reason := SEND4, detail := send4_answer net\<rparr>, 1, 1)
       else if send6_answer net \<noteq> q6len then Some (-1, r0\<lparr>reason := SEND6, detail := send6_answer net\<rparr>, 1, 1)
       else do {
         (failed, st) \<leftarrow> wait_loop addr port (uint id4) (uint id6) (waits net) 0 8 \<lparr>g4 = 0, g6 = 0, res = r0\<rparr>;
         if failed then Some (-1, res st, 1, 1)
         else if g4 st = 1 then Some (0, res st, 1, 1)
         else Some (-1, (if reason (res st) = NONE then (res st)\<lparr>reason := TIMEOUT4\<rparr> else res st)
                \<lparr>got4 := g4 st, got6 := g6 st\<rparr>, 1, 1)
       }
     }
   }"

text \<open>
  The main function: \<open>run i j\<close> is the result of the \<open>j\<close>-th pair of child \<open>i\<close>, and \<open>forks\<close> says whether
  child \<open>i\<close> could be made.  A child exits with 0 when none of its pairs failed, and the parent with 0
  when all its children did.
\<close>

definition dns_counts :: "string list \<Rightarrow> int \<times> int" where
  "dns_counts args =
     (let iters = (if 2 < length args then atoi (args ! 2) else 30);
          parallel = (if 3 < length args then atoi (args ! 3) else 6)
      in (if iters < 1 then 1 else iters, if parallel < 1 then 1 else if 16 < parallel then 16 else parallel))"

definition child_status :: "(nat \<Rightarrow> int) \<Rightarrow> nat \<Rightarrow> int" where
  "child_status outcome iters = (if filter (\<lambda>j. outcome j \<noteq> 0) [0..<iters] = [] then 0 else 1)"

definition dns_main :: "(nat \<Rightarrow> bool) \<Rightarrow> (nat \<Rightarrow> nat \<Rightarrow> int) \<Rightarrow> string list \<Rightarrow> int" where
  "dns_main forks run args =
     (case dns_counts args of (iters, parallel) \<Rightarrow>
        if \<exists>i\<in>{0..<nat parallel}. \<not> forks i then 1
        else
          (let failed = length (filter (\<lambda>i. child_status (run i) (nat iters) \<noteq> 0) [0..<nat parallel])
           in if failed = 0 then 0 else 1))"

end
