(* ===== verification/DnsMessages.thy ===== *)
theory DnsMessages
  imports Dns
begin

section \<open>DNS messages on the wire\<close>

text \<open>
  The wire format of names, queries and replies, written as an encoder, and the proofs that
  \<open>make_query\<close> builds exactly these bytes and that \<open>response_usable\<close> judges every encoded reply by
  its answers and never reads outside a packet, whatever the packet holds.
\<close>

subsection \<open>Names\<close>

fun labels :: "string \<Rightarrow> string list" where
  "labels [] = [[]]"
| "labels (c # s) =
     (if c = CHR ''.'' then [] # labels s
      else (case labels s of [] \<Rightarrow> [[c]] | l # ls \<Rightarrow> (c # l) # ls))"

definition encode_labels :: "string list \<Rightarrow> string" where
  "encode_labels ls = concat (List.map (\<lambda>l. to_char (int (length l)) # l) ls)"

definition qname :: "string list \<Rightarrow> string" where
  "qname ls = encode_labels ls @ [NUL]"

definition label_ok :: "nat \<Rightarrow> bool" where
  "label_ok n \<longleftrightarrow> 1 \<le> n \<and> n \<le> 63"

definition host_ok :: "string list \<Rightarrow> bool" where
  "host_ok ls \<longleftrightarrow> list_all (\<lambda>l. label_ok (length l)) ls"

lemma labels_nonempty [simp]: "labels s \<noteq> []"
  by (induction s) (auto split: list.splits)

lemma encode_labels_simps [simp]:
  "encode_labels [] = []" "encode_labels (l # ls) = to_char (int (length l)) # l @ encode_labels ls"
  "encode_labels (ls @ ms) = encode_labels ls @ encode_labels ms"
  by (simp_all add: encode_labels_def)

lemma length_qname: "length (qname (l # ls)) = Suc (length l) + length (qname ls)"
  by (simp add: qname_def)

subsection \<open>Writing a name\<close>

text \<open>What the loop returns, and that it stays in the buffer.\<close>

definition name_fits :: "nat \<Rightarrow> string \<Rightarrow> nat \<Rightarrow> nat \<Rightarrow> bool" where
  "name_fits cap host start len =
     (label_ok (len + length (hd (labels host))) \<and> host_ok (tl (labels host)) \<and>
      start + len + length (qname (labels host)) \<le> cap)"

lemma qname_loop_result:
  assumes "length buf = cap" "off = start + len + 1"
  shows "\<exists>buf'. qname_loop cap host start off len buf =
    Some (if name_fits cap host start len then int (start + len + length (qname (labels host))) else -1, buf') \<and>
    length buf' = cap"
  using assms
proof (induction cap host start off len buf rule: qname_loop.induct)
  case (1 cap start off len buf)
  then show ?case
    by (auto simp: name_fits_def label_ok_def host_ok_def qname_def aset_def)
next
  case (2 cap c host start off len buf)
  obtain l ls where l: "labels host = l # ls" by (cases "labels host") auto
  show ?case
  proof (cases "c = CHR ''.''")
    case dot: True
    show ?thesis
    proof (cases "len = 0 \<or> 63 < len \<or> cap \<le> start")
      case True
      then show ?thesis using 2 dot l by (auto simp: name_fits_def label_ok_def qname_def)
    next
      case False
      then have s: "aset buf start (to_char (int len)) = Some (buf[start := to_char (int len)])"
        using 2 by simp
      obtain buf' where b: "qname_loop cap host off (off + 1) 0 (buf[start := to_char (int len)]) =
          Some (if name_fits cap host off 0 then int (off + 0 + length (qname (labels host))) else -1, buf')" "length buf' = cap"
        using "2.IH"(1) [OF dot False s] 2 by auto
      have "name_fits cap host off 0 \<longleftrightarrow> name_fits cap (c # host) start len"
        using False dot l "2.prems" by (auto simp: name_fits_def label_ok_def host_ok_def length_qname)
      then show ?thesis
        using b False dot s "2.prems" by (simp add: length_qname)
    qed
  next
    case char: False
    show ?thesis
    proof (cases "cap \<le> off")
      case True
      then show ?thesis using 2 char l by (auto simp: name_fits_def length_qname)
    next
      case False
      then have s: "aset buf off c = Some (buf[off := c])" using 2 by simp
      obtain buf' where b: "qname_loop cap host start (off + 1) (len + 1) (buf[off := c]) =
          Some (if name_fits cap host start (len + 1) then int (start + (len + 1) + length (qname (labels host))) else -1, buf')"
          "length buf' = cap"
        using "2.IH"(2) [OF char False s] 2 by auto
      have "name_fits cap host start (len + 1) \<longleftrightarrow> name_fits cap (c # host) start len"
        using char l by (auto simp: name_fits_def length_qname)
      then show ?thesis
        using b False char s l by (simp add: length_qname)
    qed
  qed
qed

text \<open>What the loop writes when the name fits: the current label is \<open>cur\<close>, \<open>x\<close> the place of its length.\<close>

lemma qname_loop_bytes:
  assumes "label_ok (length (cur @ l))" "host_ok ls" "labels host = l # ls"
    "length (qname ((cur @ l) # ls)) \<le> Suc (length (cur @ R))" "cap = length (A @ x # cur @ R)"
  shows "qname_loop cap host (length A) (length A + 1 + length cur) (length cur) (A @ x # cur @ R) =
    Some (int (length A + length (qname ((cur @ l) # ls))),
      A @ qname ((cur @ l) # ls) @ drop (length (qname ((cur @ l) # ls)) - Suc (length cur)) R)"
  using assms
proof (induction host arbitrary: l ls cur A x R)
  case Nil
  then obtain r R' where R: "R = r # R'" by (cases R) (auto simp: qname_def)
  have "(A @ to_char (int (length cur)) # cur @ r # R')[length A + 1 + length cur := NUL] =
      A @ to_char (int (length cur)) # cur @ NUL # R'"
    by (simp add: list_update_append)
  with Nil show ?case
    by (auto simp: R qname_def label_ok_def)
next
  case (Cons c host)
  have "R \<noteq> []"
  proof
    assume "R = []"
    with Cons.prems show False
      by (cases "labels host") (auto simp: qname_def split: if_splits)
  qed
  then obtain r R' where R: "R = r # R'" by (cases R) auto
  obtain l' ls' where l': "labels host = l' # ls'" by (cases "labels host") auto
  show ?case
  proof (cases "c = CHR ''.''")
    case True
    with Cons.prems l' have l: "l = []" "ls = l' # ls'" by auto
    have cur: "cur \<noteq> []" "length cur \<le> 63" using Cons.prems(1) by (auto simp: l label_ok_def)
    let ?A = "A @ to_char (int (length cur)) # cur"
    have "qname_loop cap host (length ?A) (length ?A + 1 + length ([] :: string)) (length ([] :: string)) (?A @ r # [] @ R') =
        Some (int (length ?A + length (qname (([] @ l') # ls'))),
          ?A @ qname (([] @ l') # ls') @ drop (length (qname (([] @ l') # ls')) - Suc (length ([] :: string))) R')"
      using Cons.prems l' by (intro Cons.IH) (auto simp: l R host_ok_def length_qname)
    moreover have "qname_loop cap (c # host) (length A) (length A + 1 + length cur) (length cur) (A @ x # cur @ R) =
        qname_loop cap host (length ?A) (length ?A + 1) 0 (?A @ r # R')"
      using True Cons.prems(5) cur by (simp add: R)
    ultimately show ?thesis
      by (simp add: l R qname_def)
  next
    case False
    with Cons.prems l' have l: "l = c # l'" "ls = ls'" by auto
    have "qname_loop cap host (length A) (length A + 1 + length (cur @ [c])) (length (cur @ [c])) (A @ x # (cur @ [c]) @ R') =
        Some (int (length A + length (qname (((cur @ [c]) @ l') # ls'))),
          A @ qname (((cur @ [c]) @ l') # ls') @ drop (length (qname (((cur @ [c]) @ l') # ls')) - Suc (length (cur @ [c]))) R')"
      using Cons.prems l' by (intro Cons.IH) (auto simp: l R)
    moreover have "(A @ x # cur @ r # R')[length A + 1 + length cur := c] = A @ x # cur @ c # R'"
      by (simp add: list_update_append)
    then have "qname_loop cap (c # host) (length A) (length A + 1 + length cur) (length cur) (A @ x # cur @ R) =
        qname_loop cap host (length A) (length A + 1 + length (cur @ [c])) (length (cur @ [c])) (A @ x # (cur @ [c]) @ R')"
      using False Cons.prems(5) by (simp add: R)
    ultimately show ?thesis
      by (simp add: l R qname_def)
  qed
qed

subsection \<open>Queries\<close>

text \<open>A query: the identifier, the flag for recursion, one question, and zeros behind it.\<close>

definition encode_query :: "16 word \<Rightarrow> string list \<Rightarrow> 16 word \<Rightarrow> string" where
  "encode_query qid ls qtype =
     [hi8 qid, lo8 qid, CHR 0x01, NUL, NUL, CHR 0x01, NUL, NUL, NUL, NUL, NUL, NUL] @ qname ls @
     [hi8 qtype, lo8 qtype, NUL, CHR 0x01]"

lemma put_qname_bytes:
  assumes "host_ok (labels host)" "length A + length (qname (labels host)) \<le> cap" "cap = length A + length R"
  shows "put_qname (A @ R) (length A) cap host =
    Some (int (length A + length (qname (labels host))), A @ qname (labels host) @ drop (length (qname (labels host))) R)"
proof -
  obtain l ls where l: "labels host = l # ls" by (cases "labels host") auto
  have "R \<noteq> []" using assms(2,3) by (auto simp: l qname_def)
  then obtain x R' where R: "R = x # R'" by (cases R) auto
  have d: "drop (length (qname (l # ls)) - Suc 0) R' = drop (length (qname (l # ls))) R"
    by (simp add: R drop_Cons' qname_def)
  show ?thesis
    using qname_loop_bytes [of "[]" l ls host R' cap A x] assms d by (simp add: put_qname_def l R host_ok_def)
qed

lemma put_qname_fails:
  assumes "\<not> (host_ok (labels host) \<and> off + length (qname (labels host)) \<le> cap)" "length buf = cap"
  shows "\<exists>buf'. put_qname buf off cap host = Some (-1, buf')"
proof -
  obtain l ls where l: "labels host = l # ls" by (cases "labels host") auto
  have "\<not> name_fits cap host off 0"
    using assms(1) by (auto simp: l name_fits_def host_ok_def)
  then show ?thesis
    using qname_loop_result [of buf cap "off + 1" off 0 host] assms(2) by (auto simp: put_qname_def)
qed

lemma write_four:
  "do { b \<leftarrow> aset (A @ [w, x, y, z] @ R) (length A) a; b \<leftarrow> aset b (length A + 1) c;
        b \<leftarrow> aset b (length A + 2) d; b \<leftarrow> aset b (length A + 3) e; Some (n, b) } =
   Some (n :: int, A @ [a, c, d, e] @ R)"
  by (simp add: list_update_append numeral_eq_Suc)

lemma make_query_bytes:
  assumes "12 \<le> cap"
  shows "(if host_ok (labels host) \<and> length (encode_query qid (labels host) qtype) \<le> cap
     then make_query cap qid host qtype =
       Some (int (length (encode_query qid (labels host) qtype)),
         encode_query qid (labels host) qtype @ replicate (cap - length (encode_query qid (labels host) qtype)) NUL)
     else \<exists>buf. make_query cap qid host qtype = Some (-1, buf))"
proof -
  let ?hdr = "[hi8 qid, lo8 qid, CHR 0x01, NUL, NUL, CHR 0x01, NUL, NUL, NUL, NUL, NUL, NUL]"
  let ?q = "qname (labels host)" and ?n = "length (qname (labels host))"
  obtain k where k: "cap = 12 + k" using assms by (metis le_iff_add)
  define H where "H = ?hdr"
  have H: "length H = 12" by (simp add: H_def)
  have hdr: "replicate cap NUL = replicate 12 NUL @ replicate k NUL"
    by (simp only: k replicate_add)
  have start: "make_query cap qid host qtype = do {
      (off, buf) \<leftarrow> put_qname (H @ replicate k NUL) 12 cap host;
      if off < 0 \<or> int cap < off + 4 then Some (-1, buf)
      else do {
        buf \<leftarrow> aset buf (nat off) (hi8 qtype);
        buf \<leftarrow> aset buf (nat off + 1) (lo8 qtype);
        buf \<leftarrow> aset buf (nat off + 2) NUL;
        buf \<leftarrow> aset buf (nat off + 3) (CHR 0x01);
        Some (off + 4, buf)
      } }"
    unfolding make_query_def hdr Let_def by (simp add: k H_def numeral_eq_Suc)
  show ?thesis
  proof (cases "host_ok (labels host) \<and> 12 + ?n \<le> cap")
    case False
    then obtain buf where "put_qname (H @ replicate k NUL) 12 cap host = Some (-1, buf)"
      using put_qname_fails [of host 12 cap "H @ replicate k NUL"] k H by auto
    then show ?thesis using False by (auto simp: start encode_query_def)
  next
    case True
    then have p: "put_qname (H @ replicate k NUL) 12 cap host =
        Some (int (12 + ?n), H @ ?q @ replicate (k - ?n) NUL)"
      using put_qname_bytes [of host H cap "replicate k NUL"] k H by simp
    show ?thesis
    proof (cases "12 + ?n + 4 \<le> cap")
      case False
      then show ?thesis using p by (auto simp: start encode_query_def)
    next
      case fits: True
      then have "4 \<le> k - ?n" using k by linarith
      then obtain j where j1: "k - ?n = 4 + j" using le_Suc_ex by blast
      with fits k have j: "k - ?n = 4 + j" "cap = 12 + ?n + 4 + j" by linarith+
      let ?A = "H @ ?q"
      have tail: "H @ ?q @ replicate (k - ?n) NUL = ?A @ [NUL, NUL, NUL, NUL] @ replicate j NUL"
        unfolding j(1) replicate_add by (simp add: numeral_eq_Suc)
      have A: "length ?A = 12 + ?n" by (simp add: H)
      have "make_query cap qid host qtype =
          Some (int (12 + ?n) + 4, ?A @ [hi8 qtype, lo8 qtype, NUL, CHR 0x01] @ replicate j NUL)"
      proof -
        have "nat (int (12 + ?n)) = length ?A" "\<not> (int (12 + ?n) < 0 \<or> int cap < int (12 + ?n) + 4)"
          using A fits by simp_all
        then show ?thesis
          unfolding start p tail by (simp only: Option.bind.simps prod.case if_False write_four)
      qed
      then show ?thesis
        using True fits by (simp add: encode_query_def j(2) H_def)
    qed
  qed
qed

lemma make_query_total: "12 \<le> cap \<Longrightarrow> \<exists>l q. make_query cap qid host qtype = Some (l, q)"
  using make_query_bytes [of cap host qid qtype] by (metis (no_types, lifting))

text \<open>
  \<open>make_query\<close> writes exactly the query for the host and fills the rest of the buffer with zeros,
  when every label of the host has between 1 and 63 bytes and the query fits; otherwise it answers
  -1.  It never writes outside its buffer.
\<close>

theorem make_query_wire:
  assumes "12 \<le> cap"
  shows "(if host_ok (labels host) \<and> length (encode_query qid (labels host) qtype) \<le> cap
     then make_query cap qid host qtype =
       Some (int (length (encode_query qid (labels host) qtype)),
         encode_query qid (labels host) qtype @ replicate (cap - length (encode_query qid (labels host) qtype)) NUL)
     else \<exists>buf. make_query cap qid host qtype = Some (-1, buf))"
  using assms by (rule make_query_bytes)

theorem make_query_wire_witness:
  "make_query 40 258 ''a.io'' 1 = Some (22, encode_query 258 [''a'', ''io''] 1 @ replicate 18 NUL)"
proof -
  have "labels ''a.io'' = [''a'', ''io'']" by simp
  moreover have "length (encode_query 258 [''a'', ''io''] 1) = 22" by (simp add: encode_query_def qname_def)
  ultimately show ?thesis
    using make_query_wire [of 40 "''a.io''" 258 1] by (simp add: host_ok_def label_ok_def)
qed

subsection \<open>No access outside a packet\<close>

lemma get16_in: "i + 2 \<le> length p \<Longrightarrow> \<exists>v. get16 p i = Some v \<and> 0 \<le> v \<and> v < 65536"
  using uc_bounds [of "p ! i"] uc_bounds [of "p ! Suc i"] by (auto simp: get16_def simp del: uc_bounds)

lemma skip_name_in:
  "len \<le> length buf \<Longrightarrow> \<exists>r. skip_name buf len off = Some r \<and> (r = -1 \<or> int off < r \<and> r \<le> int len)"
proof (induction buf len off rule: skip_name.induct)
  case (1 buf len off)
  show ?case
  proof (cases "len \<le> off")
    case False
    then obtain c where c: "aget buf off = Some c" using 1 by auto
    show ?thesis
    proof (cases "nat (uc c) = 0 \<or> nat (uc c) div 64 = 3 \<or> nat (uc c) div 64 \<noteq> 0 \<or> len < off + 1 + nat (uc c)")
      case True
      with False c show ?thesis by (subst skip_name.simps) (auto simp: Let_def)
    next
      case loop: False
      then obtain r where "skip_name buf len (off + 1 + nat (uc c)) = Some r"
          "r = -1 \<or> int (off + 1 + nat (uc c)) < r \<and> r \<le> int len"
        using "1.IH" [OF False c refl refl] "1.prems" by auto
      with False c loop show ?thesis by (subst skip_name.simps) (auto simp: Let_def)
    qed
  qed (simp add: skip_name.simps)
qed

lemma skip_questions_in:
  "len \<le> length buf \<Longrightarrow> \<exists>r. skip_questions buf len n off = Some r"
proof (induction n arbitrary: off)
  case (Suc n)
  obtain r where "skip_name buf len off = Some r" using skip_name_in [OF Suc.prems] by blast
  then show ?case using Suc by simp
qed simp

lemma scan_answers_in:
  "len \<le> length buf \<Longrightarrow> \<exists>r\<in>{-1, 0, 1}. scan_answers buf len qtype n off = Some r"
proof (induction n arbitrary: off)
  case (Suc n)
  obtain r where r: "skip_name buf len off = Some r" using skip_name_in [OF Suc.prems] by blast
  show ?case
  proof (cases "r < 0 \<or> int len < r + 10")
    case False
    then have "nat r + 10 \<le> length buf" using Suc.prems by linarith
    then obtain a b c where "get16 buf (nat r) = Some a" "get16 buf (nat r + 2) = Some b" "get16 buf (nat r + 8) = Some c"
      using get16_in [of "nat r" buf] get16_in [of "nat r + 2" buf] get16_in [of "nat r + 8" buf] by auto
    with False r Suc show ?thesis by simp
  qed (use r in simp)
qed simp

lemma response_usable_in:
  assumes "len \<le> length buf"
  shows "\<exists>r\<in>{-1, 0, 1}. response_usable buf len want qtype = Some r"
proof (cases "len < 12")
  case False
  then have "12 \<le> length buf" using assms by linarith
  then obtain a b c where g: "get16 buf 0 = Some a" "get16 buf 4 = Some b" "get16 buf 6 = Some c" "aget buf 3 = Some (buf ! 3)"
    using get16_in [of 0 buf] get16_in [of 4 buf] get16_in [of 6 buf] by auto
  obtain o1 where "skip_questions buf len (nat b) 12 = Some o1"
    using skip_questions_in [OF assms] by blast
  with False g show ?thesis
    using scan_answers_in [OF assms] by (simp add: response_usable_def)
qed (simp add: response_usable_def)

text \<open>
  C30. Judging a packet is safe: whatever bytes it holds, names with loops or wrong counts included,
  \<open>response_usable\<close> ends, reads only bytes of the packet, and answers -1, 0 or 1.
\<close>

theorem response_usable_safe:
  assumes "len \<le> length buf"
  shows "\<exists>r\<in>{-1, 0, 1}. response_usable buf len want qtype = Some r"
  using assms by (rule response_usable_in)

theorem response_usable_safe_witness: "\<exists>r\<in>{-1, 0, 1}. response_usable (replicate 30 (CHR 0x01)) 30 257 1 = Some r"
  by (rule response_usable_safe) simp

subsection \<open>Replies as a server writes them\<close>

text \<open>
  A name ends with the root or with a pointer to an earlier one.  A record has a type, a class, a
  time to live and its data.
\<close>

record name =
  n_labels :: "string list"
  n_pointer :: "nat option"

record rr =
  rr_name :: name
  rr_type :: nat
  rr_class :: nat
  rr_ttl :: string
  rr_data :: string

record message =
  m_id :: nat
  m_flags :: char
  m_rcode :: char
  m_questions :: "(name \<times> string) list"
  m_answers :: "rr list"
  m_counts :: string
  m_rest :: string

definition enc16 :: "nat \<Rightarrow> string" where
  "enc16 n = [to_char (int n div 256), to_char (int n)]"

definition encode_name :: "name \<Rightarrow> string" where
  "encode_name n = encode_labels (n_labels n) @
     (case n_pointer n of None \<Rightarrow> [NUL] | Some p \<Rightarrow> [to_char (192 + int p div 256), to_char (int p)])"

definition encode_rr :: "rr \<Rightarrow> string" where
  "encode_rr r = encode_name (rr_name r) @ enc16 (rr_type r) @ enc16 (rr_class r) @ rr_ttl r @
     enc16 (length (rr_data r)) @ rr_data r"

definition encode_message :: "message \<Rightarrow> string" where
  "encode_message m = enc16 (m_id m) @ [m_flags m, m_rcode m] @ enc16 (length (m_questions m)) @
     enc16 (length (m_answers m)) @ m_counts m @
     concat (List.map (\<lambda>(n, tc). encode_name n @ tc) (m_questions m)) @
     concat (List.map encode_rr (m_answers m)) @ m_rest m"

definition name_ok :: "name \<Rightarrow> bool" where
  "name_ok n \<longleftrightarrow> host_ok (n_labels n) \<and> (case n_pointer n of None \<Rightarrow> True | Some p \<Rightarrow> p < 2 ^ 14)"

definition rr_ok :: "rr \<Rightarrow> bool" where
  "rr_ok r \<longleftrightarrow> name_ok (rr_name r) \<and> rr_type r < 2 ^ 16 \<and> rr_class r < 2 ^ 16 \<and> length (rr_ttl r) = 4 \<and>
     length (rr_data r) < 2 ^ 16"

definition message_ok :: "message \<Rightarrow> bool" where
  "message_ok m \<longleftrightarrow> m_id m < 2 ^ 16 \<and> length (m_questions m) < 2 ^ 16 \<and> length (m_answers m) < 2 ^ 16 \<and>
     length (m_counts m) = 4 \<and> list_all (\<lambda>(n, tc). name_ok n \<and> length tc = 4) (m_questions m) \<and>
     list_all rr_ok (m_answers m)"

text \<open>An address record of the internet class that answers the query.\<close>

definition answers_query :: "int \<Rightarrow> rr \<Rightarrow> bool" where
  "answers_query qtype r \<longleftrightarrow> rr_class r = 1 \<and> int (rr_type r) = qtype \<and>
     (qtype = 1 \<and> length (rr_data r) = 4 \<or> qtype = 28 \<and> length (rr_data r) = 16)"

lemma skip_name_labels:
  assumes "host_ok ls" "length (A @ encode_labels ls) \<le> len"
  shows "skip_name (A @ encode_labels ls @ B) len (length A) =
    skip_name (A @ encode_labels ls @ B) len (length (A @ encode_labels ls))"
  using assms
proof (induction ls arbitrary: A)
  case (Cons l ls)
  let ?A = "A @ to_char (int (length l)) # l"
  have l: "l \<noteq> []" "length l \<le> 63" using Cons.prems by (auto simp: host_ok_def label_ok_def)
  have "skip_name (A @ encode_labels (l # ls) @ B) len (length A) = skip_name (?A @ encode_labels ls @ B) len (length ?A)"
    using l Cons.prems(2) by (subst skip_name.simps) (simp add: Let_def nth_append)
  also have "\<dots> = skip_name (?A @ encode_labels ls @ B) len (length (?A @ encode_labels ls))"
    using Cons.prems by (intro Cons.IH) (simp_all add: host_ok_def)
  finally show ?case by simp
qed simp

lemma skip_name_encoded:
  assumes "name_ok n" "length (A @ encode_name n) \<le> len"
  shows "skip_name (A @ encode_name n @ B) len (length A) = Some (int (length (A @ encode_name n)))"
proof (cases "n_pointer n")
  case None
  then have "skip_name (A @ encode_name n @ B) len (length A) =
      skip_name (A @ encode_labels (n_labels n) @ NUL # B) len (length (A @ encode_labels (n_labels n)))"
    using skip_name_labels [of "n_labels n" A len "NUL # B"] assms by (simp add: name_ok_def encode_name_def)
  also have "\<dots> = Some (int (length (A @ encode_name n)))"
    using assms(2) None by (subst skip_name.simps) (simp add: encode_name_def nth_append)
  finally show ?thesis .
next
  case (Some p)
  let ?B = "to_char (192 + int p div 256) # to_char (int p) # B"
  have p: "p < 16384" using assms(1) Some by (simp add: name_ok_def)
  define y where "y = p div 256"
  have y: "int p div 256 = int y" "y < 64"
    using p by (simp_all add: y_def zdiv_int less_mult_imp_div_less)
  have "(192 + y) div 64 = 3" using y(2) div_mult_self1 [of 64 y 3] by (simp add: add.commute)
  then have byte: "(192 + int p div 256) mod 256 = 192 + int p div 256" "nat (192 + int p div 256) div 64 = 3"
    "0 \<le> int p div 256"
    using y by (simp_all add: nat_add_distrib)
  have "skip_name (A @ encode_name n @ B) len (length A) =
      skip_name (A @ encode_labels (n_labels n) @ ?B) len (length (A @ encode_labels (n_labels n)))"
    using skip_name_labels [of "n_labels n" A len ?B] assms Some by (simp add: name_ok_def encode_name_def)
  also have "\<dots> = Some (int (length (A @ encode_name n)))"
    using assms(2) Some byte by (subst skip_name.simps) (simp add: encode_name_def nth_append)
  finally show ?thesis .
qed

lemma get16_enc16: "n < 2 ^ 16 \<Longrightarrow> get16 (A @ enc16 n @ B) (length A) = Some (int n)"
  by (simp add: get16_def enc16_def nth_append zmod_int mult_div_mod_eq)

lemma skip_questions_encoded:
  assumes "list_all (\<lambda>(n, tc). name_ok n \<and> length tc = 4) qs"
    "length (A @ concat (List.map (\<lambda>(n, tc). encode_name n @ tc) qs)) \<le> len"
  shows "skip_questions (A @ concat (List.map (\<lambda>(n, tc). encode_name n @ tc) qs) @ B) len (length qs) (length A) =
    Some (int (length (A @ concat (List.map (\<lambda>(n, tc). encode_name n @ tc) qs))))"
  using assms
proof (induction qs arbitrary: A)
  case (Cons q qs)
  obtain n tc where q: "q = (n, tc)" by fastforce
  let ?Q = "concat (List.map (\<lambda>(n, tc). encode_name n @ tc) qs)"
  have "skip_name (A @ encode_name n @ (tc @ ?Q @ B)) len (length A) = Some (int (length (A @ encode_name n)))"
    using Cons.prems by (intro skip_name_encoded) (simp_all add: q)
  moreover have "skip_questions ((A @ encode_name n @ tc) @ ?Q @ B) len (length qs) (length (A @ encode_name n @ tc)) =
      Some (int (length ((A @ encode_name n @ tc) @ ?Q)))"
    using Cons.prems by (intro Cons.IH) (simp_all add: q)
  ultimately show ?case
    using Cons.prems by (simp add: q nat_add_distrib add.assoc)
qed simp

lemma scan_answers_encoded:
  assumes "list_all rr_ok rs" "length (A @ concat (List.map encode_rr rs)) \<le> len"
  shows "scan_answers (A @ concat (List.map encode_rr rs) @ B) len qtype (length rs) (length A) =
    Some (if list_ex (answers_query qtype) rs then 1 else 0)"
  using assms
proof (induction rs arbitrary: A)
  case (Cons r rs)
  let ?N = "A @ encode_name (rr_name r)" and ?R = "concat (List.map encode_rr rs)"
  let ?buf = "A @ encode_rr r @ ?R @ B" and ?d = "length (rr_data r)"
  have r: "rr_ok r" and e: "length (enc16 n) = 2" for n using Cons.prems(1) by (simp_all add: enc16_def)
  have "skip_name ?buf len (length A) = Some (int (length ?N))"
    using Cons.prems skip_name_encoded [of "rr_name r" A len] r by (simp add: encode_rr_def rr_ok_def)
  moreover have "get16 ?buf (length ?N) = Some (int (rr_type r))"
    using get16_enc16 [of "rr_type r" ?N] r by (simp add: encode_rr_def rr_ok_def)
  moreover have "get16 ?buf (length ?N + 2) = Some (int (rr_class r))"
    using get16_enc16 [of "rr_class r" "?N @ enc16 (rr_type r)"] r by (simp add: encode_rr_def rr_ok_def e)
  moreover have "get16 ?buf (length ?N + 8) = Some (int ?d)"
    using get16_enc16 [of ?d "?N @ enc16 (rr_type r) @ enc16 (rr_class r) @ rr_ttl r"] r
    by (simp add: encode_rr_def rr_ok_def e add.commute [of 8])
  moreover have "scan_answers ((A @ encode_rr r) @ ?R @ B) len qtype (length rs) (length (A @ encode_rr r)) =
      Some (if list_ex (answers_query qtype) rs then 1 else 0)"
    using Cons.prems by (intro Cons.IH) simp_all
  moreover have l: "length (A @ encode_rr r) = length ?N + 10 + ?d" "length ?N + 10 + ?d \<le> len"
    using r Cons.prems(2) by (simp_all add: encode_rr_def rr_ok_def e)
  moreover obtain k where "length ?N = k" by blast
  ultimately show ?case
    by (simp add: answers_query_def [of qtype r] Let_def del: length_append)
qed simp

lemma response_usable_encoded:
  assumes "message_ok m" "int (m_id m) = want" "length (encode_message m) \<le> len"
  shows "response_usable (encode_message m @ junk) len want qtype =
    Some (if uc (m_rcode m) mod 16 \<noteq> 0 then 0 else if list_ex (answers_query qtype) (m_answers m) then 1 else 0)"
proof -
  let ?buf = "encode_message m @ junk" and ?I = "enc16 (m_id m)"
  let ?Q = "concat (List.map (\<lambda>(n, tc). encode_name n @ tc) (m_questions m))" and ?R = "concat (List.map encode_rr (m_answers m))"
  let ?nq = "enc16 (length (m_questions m))" and ?na = "enc16 (length (m_answers m))"
  let ?H = "?I @ [m_flags m, m_rcode m] @ ?nq @ ?na @ m_counts m"
  have ok: "m_id m < 2 ^ 16" "length (m_questions m) < 2 ^ 16" "length (m_answers m) < 2 ^ 16" "length (m_counts m) = 4"
    "list_all (\<lambda>(n, tc). name_ok n \<and> length tc = 4) (m_questions m)" "list_all rr_ok (m_answers m)"
    using assms(1) by (simp_all add: message_ok_def)
  have e [simp]: "length (enc16 n) = 2" for n by (simp add: enc16_def)
  have H: "length ?H = 12" using ok(4) by simp
  have buf: "?buf = ?H @ ?Q @ ?R @ m_rest m @ junk" by (simp add: encode_message_def)
  have len: "length (?H @ ?Q @ ?R) \<le> len" using assms(3) by (simp add: encode_message_def)
  then have "12 \<le> len" using H by simp
  moreover have "get16 ?buf 0 = Some want"
    using get16_enc16 [OF ok(1), of "[]"] assms(2) by (simp add: encode_message_def)
  moreover have "aget ?buf 3 = Some (m_rcode m)"
    by (simp add: encode_message_def aget_def nth_append eval_nat_numeral enc16_def)
  moreover have "get16 ?buf 4 = Some (int (length (m_questions m)))"
    using get16_enc16 [OF ok(2), of "?I @ [m_flags m, m_rcode m]"] by (simp add: encode_message_def)
  moreover have "get16 ?buf 6 = Some (int (length (m_answers m)))"
    using get16_enc16 [OF ok(3), of "?I @ [m_flags m, m_rcode m] @ ?nq"] by (simp add: encode_message_def)
  moreover have "skip_questions ?buf len (length (m_questions m)) 12 = Some (int (length (?H @ ?Q)))"
    using skip_questions_encoded [OF ok(5), of ?H len "?R @ m_rest m @ junk"] len H unfolding buf by simp
  moreover have "scan_answers ?buf len qtype (length (m_answers m)) (length (?H @ ?Q)) =
      Some (if list_ex (answers_query qtype) (m_answers m) then 1 else 0)"
    using scan_answers_encoded [OF ok(6), of "?H @ ?Q" len "m_rest m @ junk"] len unfolding buf by simp
  ultimately show ?thesis
    by (simp add: response_usable_def del: length_append)
qed

text \<open>
  C31. \<open>response_usable\<close> judges a reply by its answers: for every reply with the identifier of the query,
  whose names may use compression, it answers 0 when the server reports an error and otherwise 1
  exactly when some answer is an address record of the kind that was asked for.
\<close>

theorem response_usable_answers:
  assumes "message_ok m" "int (m_id m) = want" "length (encode_message m) \<le> len"
  shows "response_usable (encode_message m @ junk) len want qtype =
    Some (if uc (m_rcode m) mod 16 \<noteq> 0 then 0 else if list_ex (answers_query qtype) (m_answers m) then 1 else 0)"
  using assms by (rule response_usable_encoded)

definition sample_reply :: message where
  "sample_reply = \<lparr>m_id = 7, m_flags = CHR 0x81, m_rcode = CHR 0x80,
     m_questions = [(\<lparr>n_labels = [''a'', ''io''], n_pointer = None\<rparr>, ''1234'')],
     m_answers = [\<lparr>rr_name = \<lparr>n_labels = [], n_pointer = Some 12\<rparr>, rr_type = 5, rr_class = 1, rr_ttl = ''ttl.'', rr_data = ''xyz''\<rparr>,
       \<lparr>rr_name = \<lparr>n_labels = [''b''], n_pointer = Some 12\<rparr>, rr_type = 1, rr_class = 1, rr_ttl = ''ttl.'', rr_data = ''addr''\<rparr>],
     m_counts = ''0000'', m_rest = []\<rparr>"

theorem response_usable_answers_witness:
  "response_usable (encode_message sample_reply @ ''more'') (length (encode_message sample_reply)) 7 1 = Some 1"
proof -
  have "message_ok sample_reply"
    by (simp add: message_ok_def sample_reply_def name_ok_def rr_ok_def host_ok_def label_ok_def)
  then have "response_usable (encode_message sample_reply @ ''more'') (length (encode_message sample_reply)) 7 1 =
      Some (if uc (m_rcode sample_reply) mod 16 \<noteq> 0 then 0 else if list_ex (answers_query 1) (m_answers sample_reply) then 1 else 0)"
    by (rule response_usable_answers) (simp_all add: sample_reply_def)
  then show ?thesis by (simp add: sample_reply_def answers_query_def uc_def)
qed

end
