(* ===== verification/DnsPair.thy ===== *)
theory DnsPair
  imports DnsMessages
begin

section \<open>A pair of queries\<close>

text \<open>
  What the kernel promises of a socket: a datagram is stored in the reply buffer of 1536 bytes.  Under
  this promise a pair of queries never reads outside a buffer and always closes its socket; it
  succeeds only with a usable reply of the server that was asked, and does succeed when the server
  answers.
\<close>

definition stored :: "datagram \<Rightarrow> bool" where
  "stored d \<longleftrightarrow> length (reply d) = 1536 \<and> result d \<le> 1536"

definition delivers :: "network \<Rightarrow> bool" where
  "delivers net \<longleftrightarrow> (\<forall>i. list_all stored (snd (waits net i)))"

text \<open>A reply of the server to the query for the IPv4 address, and a usable one.\<close>

definition answers4 :: "int \<Rightarrow> int \<Rightarrow> int \<Rightarrow> datagram \<Rightarrow> bool" where
  "answers4 addr port id4 d \<longleftrightarrow>
     0 < result d \<and> src_addr d = addr \<and> src_port d = port \<and> get16 (reply d) 0 = Some id4"

definition usable4 :: "int \<Rightarrow> int \<Rightarrow> int \<Rightarrow> datagram \<Rightarrow> bool" where
  "usable4 addr port id4 d \<longleftrightarrow>
     answers4 addr port id4 d \<and> response_usable (reply d) (nat (result d)) id4 1 = Some 1"

lemma stored_reads:
  assumes "stored d"
  obtains v r4 r6 where "get16 (reply d) 0 = Some v"
    "response_usable (reply d) (nat (result d)) id4 1 = Some r4" "r4 \<in> {-1, 0, 1}"
    "response_usable (reply d) (nat (result d)) id6 28 = Some r6" "r6 \<in> {-1, 0, 1}"
proof -
  have "nat (result d) \<le> length (reply d)" "0 + 2 \<le> length (reply d)"
    using assms by (auto simp: stored_def)
  then show ?thesis
    using that get16_in [of 0 "reply d"] response_usable_in [of "nat (result d)" "reply d" id4 1]
      response_usable_in [of "nat (result d)" "reply d" id6 28] by blast
qed

text \<open>One datagram: the loop stops, or goes on with a state that knows of success only from it.\<close>

lemma recv_loop_step:
  assumes "stored d"
  obtains (stops) st1 where "recv_loop addr port id4 id6 (d # ds) st = Some (True, st1)" "g4 st1 = g4 st"
  | (goes_on) st1 where "recv_loop addr port id4 id6 (d # ds) st = recv_loop addr port id4 id6 ds st1"
      "g4 st1 = g4 st \<or> g4 st1 = -1 \<or> usable4 addr port id4 d"
proof -
  obtain v r4 r6 where r: "get16 (reply d) 0 = Some v"
    "response_usable (reply d) (nat (result d)) id4 1 = Some r4" "r4 \<in> {-1, 0, 1}"
    "response_usable (reply d) (nat (result d)) id6 28 = Some r6" "r6 \<in> {-1, 0, 1}"
    using stored_reads [OF assms] by blast
  consider "result d \<le> 0" | "0 < result d" "src_addr d \<noteq> addr \<or> src_port d \<noteq> port"
    | "0 < result d" "src_addr d = addr" "src_port d = port" "v = id4"
    | "0 < result d" "src_addr d = addr" "src_port d = port" "v \<noteq> id4" "v = id6"
    | "0 < result d" "src_addr d = addr" "src_port d = port" "v \<noteq> id4" "v \<noteq> id6"
    by linarith
  then show thesis
  proof cases
    case 1
    then show thesis by (intro stops [of "st\<lparr>res := (res st)\<lparr>reason := RECV, detail := result d\<rparr>\<rparr>"]) simp_all
  next
    case 2
    then show thesis
      by (intro goes_on [of "st\<lparr>res := (res st)\<lparr>reason := BADSRC, bad_src_addr := src_addr d, bad_src_port := src_port d\<rparr>\<rparr>"]) auto
  next
    case 3
    show thesis
    proof (cases "r4 = -1")
      case True
      with 3 r show thesis by (intro stops [of "st\<lparr>res := (res st)\<lparr>reason := BAD4, detail := result d\<rparr>\<rparr>"]) simp_all
    next
      case False
      with 3 r show thesis
        by (intro goes_on [of "st\<lparr>g4 := if r4 = 1 then 1 else -1\<rparr>"]) (auto simp: usable4_def answers4_def)
    qed
  next
    case 4
    with r show thesis by (intro goes_on [of "st\<lparr>g6 := if 0 < r6 then 1 else -1\<rparr>"]) simp_all
  next
    case 5
    with r show thesis by (intro goes_on [of st]) simp_all
  qed
qed

text \<open>
  The inner loop ends with a state; it reports success for the IPv4 query only after a usable reply.
\<close>

definition learns :: "dns_state \<Rightarrow> dns_state \<Rightarrow> bool \<Rightarrow> bool" where
  "learns st st' usable \<longleftrightarrow> (g4 st' = 1 \<longrightarrow> g4 st = 1 \<or> usable)"

lemma learns_trans: "learns st st1 a \<Longrightarrow> learns st1 st2 b \<Longrightarrow> learns st st2 (a \<or> b)"
  by (auto simp: learns_def)

lemma learns_refl [simp]: "learns st st a"
  by (simp add: learns_def)

lemma learns_mono: "learns st st' a \<Longrightarrow> (a \<longrightarrow> b) \<Longrightarrow> learns st st' b"
  by (auto simp: learns_def)

lemma recv_loop_sound:
  assumes "list_all stored ds"
  shows "\<exists>failed st'. recv_loop addr port id4 id6 ds st = Some (failed, st') \<and>
    learns st st' (list_ex (usable4 addr port id4) ds)"
  using assms
proof (induction ds arbitrary: st)
  case (Cons d ds)
  then have "stored d" by simp
  then show ?case
  proof (cases rule: recv_loop_step [of d addr port id4 id6 ds st])
    case (stops st1)
    then show ?thesis by (intro exI [of _ True] exI [of _ st1]) (simp add: learns_def)
  next
    case (goes_on st1)
    then have "learns st st1 (usable4 addr port id4 d)" by (auto simp: learns_def)
    moreover obtain failed st' where "recv_loop addr port id4 id6 ds st1 = Some (failed, st')"
        "learns st1 st' (list_ex (usable4 addr port id4) ds)"
      using Cons.IH [of st1] Cons.prems by auto
    ultimately show ?thesis
      unfolding goes_on(1) using learns_trans by fastforce
  qed
next
  case Nil
  show ?case by (intro exI [of _ False] exI [of _ st]) simp
qed

lemma wait_loop_sound:
  assumes "\<forall>i. list_all stored (snd (ws i))"
  shows "\<exists>failed st'. wait_loop addr port id4 id6 ws i n st = Some (failed, st') \<and>
    learns st st' (\<exists>j\<in>{i..<i + n}. list_ex (usable4 addr port id4) (snd (ws j)))"
proof (induction n arbitrary: i st)
  case (Suc n)
  obtain prc ds where ws: "ws i = (prc, ds)" by fastforce
  then have "list_all stored ds" using assms by (metis snd_conv)
  from recv_loop_sound [OF this] obtain failed st1 where
    r: "recv_loop addr port id4 id6 ds st = Some (failed, st1)" "learns st st1 (list_ex (usable4 addr port id4) ds)"
    by blast
  let ?later = "\<exists>j\<in>{i + 1..<i + 1 + n}. list_ex (usable4 addr port id4) (snd (ws j))"
  have split: "(\<exists>j\<in>{i..<i + Suc n}. list_ex (usable4 addr port id4) (snd (ws j))) \<longleftrightarrow>
      list_ex (usable4 addr port id4) ds \<or> ?later"
  proof -
    have "{i..<i + Suc n} = insert i {i + 1..<i + 1 + n}" by auto
    then show ?thesis by (simp add: ws)
  qed
  have st1: "learns st st1 (list_ex (usable4 addr port id4) ds \<or> ?later)"
    using r(2) by (rule learns_mono) simp
  obtain f2 st2 where 2: "wait_loop addr port id4 id6 ws (i + 1) n st = Some (f2, st2)" "learns st st2 ?later"
    using Suc.IH by blast
  obtain f3 st3 where 3: "wait_loop addr port id4 id6 ws (i + 1) n st1 = Some (f3, st3)" "learns st1 st3 ?later"
    using Suc.IH by blast
  have st2: "learns st st2 (list_ex (usable4 addr port id4) ds \<or> ?later)"
    using 2(2) by (rule learns_mono) simp
  have same: "learns st (st\<lparr>res := r\<rparr>) a" for r a by (simp add: learns_def)
  show ?case
    unfolding split using ws r(1) st1 st2 2(1) 3(1) learns_trans [OF r(2) 3(2)] same by (cases failed) auto
next
  case 0
  show ?case by (intro exI [of _ False] exI [of _ st]) simp
qed


definition silent_network :: network where
  "silent_network = \<lparr>socket_answer = 3, send4_answer = 22, send6_answer = 22, waits = (\<lambda>i. (0, []))\<rparr>"


text \<open>A datagram that does no harm: it is stored, and if it answers the IPv4 query it is usable.\<close>

definition harmless :: "int \<Rightarrow> int \<Rightarrow> int \<Rightarrow> datagram \<Rightarrow> bool" where
  "harmless addr port id4 d \<longleftrightarrow> stored d \<and> 0 < result d \<and> (answers4 addr port id4 d \<longrightarrow> usable4 addr port id4 d)"

lemma recv_loop_harmless:
  assumes "list_all (harmless addr port id4) ds"
  shows "\<exists>st'. recv_loop addr port id4 id6 ds st = Some (False, st') \<and>
    g4 st' = (if list_ex (answers4 addr port id4) ds then 1 else g4 st)"
  using assms
proof (induction ds arbitrary: st)
  case (Cons d ds)
  have d: "0 < result d" "stored d" "answers4 addr port id4 d \<longrightarrow> usable4 addr port id4 d"
    using Cons.prems by (auto simp: harmless_def)
  obtain v r4 r6 where r: "get16 (reply d) 0 = Some v"
    "response_usable (reply d) (nat (result d)) id4 1 = Some r4"
    "response_usable (reply d) (nat (result d)) id6 28 = Some r6"
    using stored_reads [OF d(2)] by metis
  have IH: "\<exists>st'. recv_loop addr port id4 id6 ds st1 = Some (False, st') \<and>
      g4 st' = (if list_ex (answers4 addr port id4) ds then 1 else g4 st1)" for st1
    using Cons by simp
  consider "src_addr d \<noteq> addr \<or> src_port d \<noteq> port"
    | "src_addr d = addr" "src_port d = port" "v = id4"
    | "src_addr d = addr" "src_port d = port" "v \<noteq> id4" "v = id6"
    | "src_addr d = addr" "src_port d = port" "v \<noteq> id4" "v \<noteq> id6"
    by linarith
  then show ?case
  proof cases
    case 1
    then have "\<not> answers4 addr port id4 d" by (auto simp: answers4_def)
    moreover have "recv_loop addr port id4 id6 (d # ds) st = recv_loop addr port id4 id6 ds
        (st\<lparr>res := (res st)\<lparr>reason := BADSRC, bad_src_addr := src_addr d, bad_src_port := src_port d\<rparr>\<rparr>)"
      using d(1) 1 by auto
    moreover obtain st' where "recv_loop addr port id4 id6 ds
        (st\<lparr>res := (res st)\<lparr>reason := BADSRC, bad_src_addr := src_addr d, bad_src_port := src_port d\<rparr>\<rparr>) = Some (False, st')"
      "g4 st' = (if list_ex (answers4 addr port id4) ds then 1 else g4 st)"
      using IH [of "st\<lparr>res := (res st)\<lparr>reason := BADSRC, bad_src_addr := src_addr d, bad_src_port := src_port d\<rparr>\<rparr>"] by auto
    ultimately show ?thesis by (intro exI [of _ st']) simp
  next
    case 2
    then have "answers4 addr port id4 d" using d(1) r(1) by (simp add: answers4_def)
    moreover from this d(3) r(2) have "r4 = 1" by (simp add: usable4_def)
    moreover obtain st' where "recv_loop addr port id4 id6 ds (st\<lparr>g4 := 1\<rparr>) = Some (False, st')" "g4 st' = 1"
      using IH [of "st\<lparr>g4 := 1\<rparr>"] by auto
    ultimately show ?thesis using 2 d(1) r by (intro exI [of _ st']) simp
  next
    case 3
    then have "\<not> answers4 addr port id4 d" using r(1) by (simp add: answers4_def)
    moreover obtain st' where "recv_loop addr port id4 id6 ds (st\<lparr>g6 := if 0 < r6 then 1 else -1\<rparr>) = Some (False, st')"
      "g4 st' = (if list_ex (answers4 addr port id4) ds then 1 else g4 st)"
      using IH [of "st\<lparr>g6 := if 0 < r6 then 1 else -1\<rparr>"] by auto
    ultimately show ?thesis using 3 d(1) r by (intro exI [of _ st']) simp
  next
    case 4
    then have "\<not> answers4 addr port id4 d" using r(1) by (simp add: answers4_def)
    then show ?thesis using 4 d(1) r IH [of st] by simp
  qed
qed simp

lemma wait_loop_keeps:
  assumes "\<forall>j\<in>{i..<i + n}. 0 \<le> fst (ws j) \<and> list_all (harmless addr port id4) (snd (ws j))" "g4 st = 1"
  shows "\<exists>st'. wait_loop addr port id4 id6 ws i n st = Some (False, st') \<and> g4 st' = 1"
  using assms
proof (induction n arbitrary: i st)
  case (Suc n)
  obtain prc ds where ws: "ws i = (prc, ds)" by fastforce
  have "0 \<le> prc" "list_all (harmless addr port id4) ds"
    using bspec [OF Suc.prems(1), of i] ws by simp_all
  moreover from recv_loop_harmless [OF this(2)] Suc.prems(2) obtain st1 where
    "recv_loop addr port id4 id6 ds st = Some (False, st1)" "g4 st1 = 1" by (metis (full_types))
  moreover have later: "\<forall>j\<in>{i + 1..<i + 1 + n}. 0 \<le> fst (ws j) \<and> list_all (harmless addr port id4) (snd (ws j))"
    using Suc.prems(1) by auto
  ultimately show ?case
    using ws Suc.IH [OF later Suc.prems(2)] Suc.IH [OF later \<open>g4 st1 = 1\<close>] Suc.prems(2) by auto
qed simp

text \<open>
  C33. A pair of queries succeeds when the server answers: if the queries are built and sent, no call
  fails, what arrives in the first wait holds an answer to the IPv4 query, and every such answer of
  the server is usable, the result is 0, whatever other datagrams arrive, and the socket is closed.
\<close>

theorem query_pair_succeeds:
  assumes "host_ok (labels host)" "length (encode_query 0 (labels host) 1) \<le> 512" "0 \<le> socket_answer net" "parse_ipv4 server \<noteq> 0"
    and "send4_answer net = int (length (encode_query 0 (labels host) 1))"
    and "send6_answer net = int (length (encode_query 0 (labels host) 28))"
    and "id4 = uint (word_of_int (16384 + (mypid * 37 + iter * 2)) :: 16 word)"
    and "\<forall>i<8. 0 \<le> fst (waits net i) \<and>
      list_all (harmless (parse_ipv4 server) (uint (bswap16 DNS_PORT)) id4) (snd (waits net i))"
    and "0 < fst (waits net 0)" "list_ex (answers4 (parse_ipv4 server) (uint (bswap16 DNS_PORT)) id4) (snd (waits net 0))"
  shows "\<exists>r. query_pair net mypid server host iter = Some (0, r, 1, 1)"
proof -
  let ?id4 = "word_of_int (16384 + (mypid * 37 + iter * 2)) :: 16 word"
  let ?addr = "parse_ipv4 server" and ?port = "uint (bswap16 DNS_PORT)"
  let ?st0 = "\<lparr>g4 = 0, g6 = 0, res = dns_result_init\<rparr>"
  have len: "length (encode_query a ls b) = length (encode_query 0 ls 1)" for a b ls
    by (simp add: encode_query_def)
  have "\<exists>b. make_query 512 x host t = Some (int (length (encode_query 0 (labels host) 1)), b)" for x t
    using make_query_bytes [of 512 host x t] assms(1,2) len [of x "labels host" t] by simp
  then obtain q4 q6 where q: "make_query 512 ?id4 host 1 = Some (send4_answer net, q4)"
      "make_query 512 (?id4 + 1) host 28 = Some (send6_answer net, q6)"
    using assms(5,6) len [of 0 "labels host" 28] by metis
  obtain prc ds where ws: "waits net 0 = (prc, ds)" by fastforce
  then have ds: "list_all (harmless ?addr ?port (uint ?id4)) ds" "0 < prc" "list_ex (answers4 ?addr ?port (uint ?id4)) ds"
    using assms(7-10) spec [OF assms(8), of 0] by simp_all
  then obtain st1 where 1: "recv_loop ?addr ?port (uint ?id4) (uint (?id4 + 1)) ds ?st0 = Some (False, st1)" "g4 st1 = 1"
    using recv_loop_harmless [OF ds(1), of "uint (?id4 + 1)" ?st0] by auto
  have later: "\<forall>j\<in>{1..<1 + 7}. 0 \<le> fst (waits net j) \<and> list_all (harmless ?addr ?port (uint ?id4)) (snd (waits net j))"
    using assms(7,8) by auto
  obtain st' where "wait_loop ?addr ?port (uint ?id4) (uint (?id4 + 1)) (waits net) 1 7 st1 = Some (False, st')" "g4 st' = 1"
    using wait_loop_keeps [OF later 1(2)] by blast
  then have "wait_loop ?addr ?port (uint ?id4) (uint (?id4 + 1)) (waits net) 0 (Suc 7) ?st0 = Some (False, st')"
    using 1 ws ds(2) by (subst wait_loop.simps(2)) simp
  moreover have "Suc 7 = 8" by simp
  ultimately have w: "wait_loop ?addr ?port (uint ?id4) (uint (?id4 + 1)) (waits net) 0 8 ?st0 = Some (False, st')"
    by (simp only:)
  have "\<not> (send4_answer net < 0 \<or> send6_answer net < 0)" using assms(5,6) by simp
  then have "query_pair net mypid server host iter = Some (0, res st', 1, 1)"
    unfolding query_pair_def Let_def q Option.bind.simps prod.case w using assms(3,4) \<open>g4 st' = 1\<close> by simp
  then show ?thesis by blast
qed

definition answering_network :: network where
  "answering_network = \<lparr>socket_answer = 3, send4_answer = 22, send6_answer = 22,
     waits = (\<lambda>i. if i = 0
       then (1, [\<lparr>result = int (length (encode_message (sample_reply\<lparr>m_id := 16384\<rparr>))),
                  reply = take 1536 (encode_message (sample_reply\<lparr>m_id := 16384\<rparr>) @ replicate 1536 NUL),
                  src_addr = 50462730, src_port = 13568\<rparr>])
       else (0, []))\<rparr>"

theorem query_pair_succeeds_witness:
  "\<exists>r. query_pair answering_network 0 ''10.0.2.3'' ''a.io'' 0 = Some (0, r, 1, 1)"
proof -
  let ?m = "sample_reply\<lparr>m_id := 16384\<rparr>"
  let ?addr = "parse_ipv4 ''10.0.2.3''" and ?port = "uint (bswap16 DNS_PORT)"
  let ?d = "\<lparr>result = int (length (encode_message ?m)), reply = take 1536 (encode_message ?m @ replicate 1536 NUL),
    src_addr = 50462730, src_port = 13568\<rparr>"
  have addr: "?addr = 50462730" "?port = 13568" by code_simp+
  have len: "length (encode_message ?m) = 55" by code_simp
  have reply: "take 1536 (encode_message ?m @ replicate 1536 NUL) = encode_message ?m @ replicate 1481 NUL"
    using len by simp
  have "message_ok ?m"
    by (simp add: message_ok_def sample_reply_def name_ok_def rr_ok_def host_ok_def label_ok_def)
  then have usable: "response_usable (encode_message ?m @ replicate 1481 NUL) 55 16384 1 = Some 1"
    using response_usable_encoded [of ?m 16384 55 "replicate 1481 NUL" 1] len by (simp add: sample_reply_def answers_query_def uc_def)
  have "get16 (encode_message ?m @ replicate 1481 NUL) 0 = Some 16384"
    using get16_enc16 [of 16384 "[]"] by (simp add: encode_message_def sample_reply_def)
  then have d: "answers4 ?addr ?port 16384 ?d" "usable4 ?addr ?port 16384 ?d" "harmless ?addr ?port 16384 ?d"
    using usable len by (simp_all add: answers4_def usable4_def harmless_def stored_def addr reply)
  have l: "labels ''a.io'' = [''a'', ''io'']" by simp
  show ?thesis
    by (rule query_pair_succeeds [where ?id4.0 = 16384])
      (use d in \<open>simp_all add: l host_ok_def label_ok_def encode_query_def qname_def answering_network_def addr\<close>)
qed

end
