(* ===== verification/ShList.thy ===== *)
theory ShList
  imports ShEdit ShEnv TopFiles PrintfTypes
begin

section \<open>sh.c: the user, ls and history\<close>

text \<open>
  The name of the user for the prompt, the built-in \<open>ls\<close> and the list of the history.  What the
  kernel and the files answer are parameters.  A call of \<open>printf\<close> is its format and its arguments;
  \<open>Err\<close> goes to the standard error.
\<close>

datatype message = Out string "Printf.arg list" | Err string "Printf.arg list"

subsection \<open>The name of the user\<close>

text \<open>\<open>getcwd\<close> fills the path of the prompt, or it becomes a question mark.\<close>

definition update_cwd :: "string option \<Rightarrow> string" where
  "update_cwd cwd = (case cwd of Some path \<Rightarrow> path | None \<Rightarrow> ''?'')"

text \<open>A line of \<open>/etc/passwd\<close>: the number and the name, if it has two colons.\<close>

definition sh_passwd_line :: "string \<Rightarrow> (32 word \<times> string) option" where
  "sh_passwd_line line =
     (if CHR '':'' \<notin> set line then None
      else
        (let rest = tl (dropWhile (\<lambda>c. c \<noteq> CHR '':'') line)
         in if CHR '':'' \<notin> set rest then None
            else Some
              (foldl int_step 0 (takeWhile is_digit (tl (dropWhile (\<lambda>c. c \<noteq> CHR '':'') rest))),
               takeWhile (\<lambda>c. c \<noteq> CHR '':'') line)))"

fun find_user :: "string list \<Rightarrow> 32 word \<Rightarrow> string option" where
  "find_user [] u = None"
| "find_user (line # rest) u =
     (case sh_passwd_line line of
        None \<Rightarrow> find_user rest u
      | Some (pw_uid, nm) \<Rightarrow> if pw_uid = u then Some nm else find_user rest u)"

definition USER_NAME_SIZE :: nat where "USER_NAME_SIZE = 64"

text \<open>The buffer of the name afterwards, \<^const>\<open>None\<close> for a write outside it.\<close>

definition update_user_info :: "'s procfs \<Rightarrow> 32 word \<Rightarrow> char list \<Rightarrow> char list option" where
  "update_user_info fs u ubuf =
     (let numeric = map_option fst (itoa_local ubuf 0 (sint u) (int USER_NAME_SIZE))
      in case read_file_into fs ''/etc/passwd'' 1024 of
           None \<Rightarrow> numeric
         | Some bs \<Rightarrow>
             (case find_user (lines (c_string bs)) u of
                None \<Rightarrow> numeric
              | Some nm \<Rightarrow>
                  (let namelen = (if USER_NAME_SIZE \<le> length nm then USER_NAME_SIZE - 1 else length nm)
                   in awrite ubuf 0 (take namelen nm @ [NUL]))))"

subsection \<open>The list of files\<close>

datatype file_type = DIR | LNK | CHARDEV | BLK | FIFO | SOCK | OTHER

text \<open>
  A mode: its type, and the nine permission bits in the order owner, group, others, each read,
  write, execute.
\<close>

record mode =
  m_type :: file_type
  m_bits :: "bool list"

record file_stat =
  st_mode :: mode
  st_nlink :: "64 word"
  st_size :: "64 word"

definition mode_type_char :: "mode \<Rightarrow> char" where
  "mode_type_char m =
     (case m_type m of DIR \<Rightarrow> CHR ''d'' | LNK \<Rightarrow> CHR ''l'' | CHARDEV \<Rightarrow> CHR ''c'' | BLK \<Rightarrow> CHR ''b''
      | FIFO \<Rightarrow> CHR ''p'' | SOCK \<Rightarrow> CHR ''s'' | OTHER \<Rightarrow> CHR ''-'')"

definition perm_char :: "mode \<Rightarrow> nat \<Rightarrow> char \<Rightarrow> char" where
  "perm_char m i c = (if m_bits m ! i then c else CHR ''-'')"

definition format_permissions :: "mode \<Rightarrow> string" where
  "format_permissions m =
     [perm_char m 0 (CHR ''r''), perm_char m 1 (CHR ''w''), perm_char m 2 (CHR ''x''),
      perm_char m 3 (CHR ''r''), perm_char m 4 (CHR ''w''), perm_char m 5 (CHR ''x''),
      perm_char m 6 (CHR ''r''), perm_char m 7 (CHR ''w''), perm_char m 8 (CHR ''x'')]"

definition name_indicator :: "mode \<Rightarrow> char option" where
  "name_indicator m =
     (case m_type m of DIR \<Rightarrow> Some (CHR ''/'') | LNK \<Rightarrow> Some (CHR ''@'') | SOCK \<Rightarrow> Some (CHR ''='')
      | FIFO \<Rightarrow> Some (CHR ''|'')
      | _ \<Rightarrow> if m_bits m ! 2 \<or> m_bits m ! 5 \<or> m_bits m ! 8 then Some (CHR ''*'') else None)"

definition char_arg :: "char \<Rightarrow> Printf.arg" where
  "char_arg c = VInt (word_of_int (sc c))"

definition ls_basename :: "string \<Rightarrow> string" where
  "ls_basename path = rev (takeWhile (\<lambda>c. c \<noteq> CHR ''/'') (rev path))"

definition ls_print_entry :: "string \<Rightarrow> file_stat \<Rightarrow> message" where
  "ls_print_entry path st =
     (let args = [char_arg (mode_type_char (st_mode st)), VStr (Some (format_permissions (st_mode st))),
                  VLong (st_nlink st), VLong (st_size st), VStr (Some (ls_basename path))]
      in case name_indicator (st_mode st) of
           Some ind \<Rightarrow> Out (''%c%s %3lu %7ld %s%c'' @ [CHR 0x0A]) (args @ [char_arg ind])
         | None \<Rightarrow> Out (''%c%s %3lu %7ld %s'' @ [CHR 0x0A]) args)"

record ls_os =
  can_open :: "string \<Rightarrow> bool"
  ls_fstat :: "string \<Rightarrow> file_stat option"
  ls_stat :: "string \<Rightarrow> file_stat option"
  ls_entries :: "string \<Rightarrow> (nat \<times> string) list list"

definition NAME_MAX :: nat where "NAME_MAX = 255"
definition LS_BUF :: nat where "LS_BUF = 512"

text \<open>
  One entry of the directory: its name is copied behind the path and the slash in \<open>buf\<close>; a name
  that does not fit gives \<^const>\<open>None\<close>.
\<close>

definition ls_entry :: "ls_os \<Rightarrow> string \<Rightarrow> nat \<times> string \<Rightarrow> message list option" where
  "ls_entry os path de =
     (case de of (ino, nm) \<Rightarrow>
        if ino = 0 then Some []
        else if LS_BUF < length path + 1 + length nm + 1 then None
        else (let buf = path @ ''/'' @ nm
              in case ls_stat os buf of
                   None \<Rightarrow> Some [Out (''ls: cannot stat %s'' @ [CHR 0x0A]) [VStr (Some buf)]]
                 | Some st \<Rightarrow> Some [ls_print_entry buf st]))"

fun ls_loop :: "ls_os \<Rightarrow> string \<Rightarrow> (nat \<times> string) list \<Rightarrow> message list option" where
  "ls_loop os path [] = Some []"
| "ls_loop os path (de # des) = do { m \<leftarrow> ls_entry os path de; ms \<leftarrow> ls_loop os path des; Some (m @ ms) }"

text \<open>The messages, and how many descriptors are opened and closed.\<close>

definition builtin_ls :: "ls_os \<Rightarrow> string \<Rightarrow> (message list \<times> nat \<times> nat) option" where
  "builtin_ls os path =
     (if \<not> can_open os path then Some ([Err (''ls: cannot open %s'' @ [CHR 0x0A]) [VStr (Some path)]], 0, 0)
      else case ls_fstat os path of
        None \<Rightarrow> Some ([Err (''ls: cannot stat %s'' @ [CHR 0x0A]) [VStr (Some path)]], 1, 1)
      | Some st \<Rightarrow>
          if m_type (st_mode st) \<noteq> DIR then Some ([ls_print_entry path st], 1, 1)
          else if LS_BUF < length path + 1 + NAME_MAX + 1
          then Some ([Out (''ls: path too long'' @ [CHR 0x0A]) []], 1, 1)
          else map_option (\<lambda>ms. (ms, 1, 1)) (ls_loop os path (concat (ls_entries os path))))"

subsection \<open>The history\<close>

definition builtin_history :: "editor \<Rightarrow> message list option" where
  "builtin_history e =
     those (List.map (\<lambda>i. map_option (\<lambda>s. Out (''%3d  %s'' @ [CHR 0x0A]) [VInt (of_nat i + 1), VStr (Some s)])
         (aget (history e) ((history_start e + i) mod HISTORY_SIZE)))
       [0..<history_count e])"

subsection \<open>What they show\<close>

lemma sh_passwd_line_user:
  "user_ok w \<Longrightarrow> sh_passwd_line (passwd_line w) = Some (of_nat (w_uid w), w_name w)"
  using takeWhile_dec [of "w_rest w" "w_uid w"]
  by (simp add: sh_passwd_line_def passwd_line_def user_ok_def colon_field Let_def int_digits_value no_digit_takeWhile)

lemma find_user_lines:
  "\<forall>w\<in>set ws. user_ok w \<Longrightarrow> u < 2 ^ 32 \<Longrightarrow>
   find_user (List.map passwd_line ws) (of_nat u) = map_option w_name (List.find (\<lambda>w. w_uid w = u) ws)"
proof (induction ws)
  case (Cons w ws)
  have "(of_nat (w_uid w) :: 32 word) = of_nat u \<longleftrightarrow> w_uid w = u"
    using Cons.prems by (auto simp: user_ok_def word_unat_eq_iff unat_of_nat)
  with Cons show ?case by (simp add: sh_passwd_line_user)
qed simp

text \<open>
  The prompt shows the first user of \<open>/etc/passwd\<close> with the number of the shell, the name cut to
  63 bytes, and the number itself when there is none; the buffer of 64 bytes is never overrun.
\<close>

theorem user_of_prompt:
  assumes "reads (fs_read fs) contents" "serves fs contents ''/etc/passwd'' (join_lines (List.map passwd_line ws))"
    "length (join_lines (List.map passwd_line ws)) < 1024" "\<forall>w\<in>set ws. user_ok w" "u < 2 ^ 31" "length ubuf = 64"
  shows "\<exists>buf. update_user_info fs (of_nat u) ubuf = Some buf \<and> length buf = 64 \<and>
    (case List.find (\<lambda>w. w_uid w = u) ws of
       Some w \<Rightarrow> str_at buf 0 = take 63 (w_name w)
     | None \<Rightarrow> list_all is_digit (str_at buf 0) \<and> dec_value (str_at buf 0) = u)"
proof -
  have pl: "\<forall>l\<in>set (List.map passwd_line ws). plain l"
    using assms(4) by (auto simp: passwd_line_def user_ok_def)
  have "read_file_into fs ''/etc/passwd'' 1024 = Some (join_lines (List.map passwd_line ws))"
    using assms(1-3) by (auto simp: read_file_into_def serves_def read_loop_reads)
  moreover have "lines (c_string (join_lines (List.map passwd_line ws))) = List.map passwd_line ws"
    using cstring_join [OF pl] lines_join [OF pl] by simp
  moreover have "find_user (List.map passwd_line ws) (of_nat u) = map_option w_name (List.find (\<lambda>w. w_uid w = u) ws)"
    using assms(4,5) by (intro find_user_lines) auto
  ultimately have info: "update_user_info fs (of_nat u) ubuf =
      (case List.find (\<lambda>w. w_uid w = u) ws of
         None \<Rightarrow> map_option fst (itoa_local ubuf 0 (int u) 64)
       | Some w \<Rightarrow> awrite ubuf 0 (take (min 63 (length (w_name w))) (w_name w) @ [NUL]))"
    using sint_of_nat32 [OF assms(5)]
    by (auto simp: update_user_info_def Let_def USER_NAME_SIZE_def min_def split: option.splits)
  show ?thesis
  proof (cases "List.find (\<lambda>w. w_uid w = u) ws")
    case None
    obtain buf n where "itoa_local ubuf 0 (int u) 64 = Some (buf, n)" "length buf = length ubuf"
        "\<forall>c\<in>set (str_at buf 0). is_digit c" "int (dec_value (str_at buf 0)) = int u"
      using itoa_local_nonneg [of "int u" 64 ubuf] assms(5,6) by auto
    with None info assms(6) show ?thesis by (simp add: list_all_iff)
  next
    case (Some w)
    then have "w \<in> set ws" by (metis find_Some_iff nth_mem)
    then have c: "cstring (take 63 (w_name w))" using assms(4) by (auto simp: user_ok_def plain_def)
    have "awrite ubuf 0 (take 63 (w_name w) @ [NUL]) = Some (take 63 (w_name w) @ NUL # drop (Suc (length (take 63 (w_name w)))) ubuf)"
      using assms(6) by (simp add: awrite_def)
    with Some info assms(6) c show ?thesis
      by (simp add: str_at_write min_def take_all split: if_splits)
  qed
qed

definition shown :: "message \<Rightarrow> bool" where
  "shown m = (case m of Out fmt args \<Rightarrow> vprintf fmt args \<noteq> None | Err fmt args \<Rightarrow> vprintf fmt args \<noteq> None)"

lemma ls_formats:
  "format_ok (''%c%s %3lu %7ld %s%c'' @ [CHR 0x0A]) [TInt, TStr, TLong, TLong, TStr, TInt]"
  "format_ok (''%c%s %3lu %7ld %s'' @ [CHR 0x0A]) [TInt, TStr, TLong, TLong, TStr]"
  "format_ok (''ls: cannot stat %s'' @ [CHR 0x0A]) [TStr]"
  "format_ok (''ls: cannot open %s'' @ [CHR 0x0A]) [TStr]"
  "format_ok (''ls: path too long'' @ [CHR 0x0A]) []"
  by code_simp+

lemma ls_print_entry_shown: "shown (ls_print_entry path st)"
  by (auto simp: shown_def ls_print_entry_def Let_def char_arg_def ls_formats [simplified] intro!: format_ok_vprintf
      simp del: not_None_eq split: option.splits)

definition alice :: user where
  "alice = \<lparr>w_name = ''alice'', w_password = ''x'', w_uid = 7, w_rest = '':7:/home''\<rparr>"

definition passwd_procfs :: "string procfs" where
  "passwd_procfs = \<lparr>fs_open = (\<lambda>path. if path = ''/etc/passwd'' then Some (join_lines [passwd_line alice]) else None),
     fs_read = byte_reads, proc_entries = None\<rparr>"

theorem user_of_prompt_witness:
  "\<exists>buf. update_user_info passwd_procfs 7 (replicate 64 NUL) = Some buf \<and> str_at buf 0 = ''alice''"
proof -
  have "user_ok alice" "passwd_line alice = ''alice:x:7:7:/home''"
    by (simp_all add: user_ok_def alice_def passwd_line_def dec_small digits_lower_def no_digit_first_def)
  then show ?thesis
    using user_of_prompt [of passwd_procfs "\<lambda>s. s" "[alice]" 7 "replicate 64 NUL"] reads_byte
    by (auto simp: serves_def passwd_procfs_def join_lines_def alice_def)
qed

lemma ls_loop_shown:
  "\<forall>(ino, nm)\<in>set des. length nm \<le> NAME_MAX \<Longrightarrow> length path + 1 + NAME_MAX + 1 \<le> LS_BUF \<Longrightarrow>
   \<exists>ms. ls_loop os path des = Some ms \<and> list_all shown ms"
proof (induction des)
  case (Cons de des)
  obtain ino nm where de: "de = (ino, nm)" by fastforce
  have "shown (Out (''ls: cannot stat %s'' @ [CHR 0x0A]) [VStr (Some buf)])" for buf
    by (simp add: shown_def ls_formats [simplified] format_ok_vprintf del: not_None_eq)
  then have "\<exists>ms. ls_entry os path de = Some ms \<and> list_all shown ms"
    using Cons.prems ls_print_entry_shown by (auto simp: de ls_entry_def Let_def split: option.splits)
  with Cons show ?case by auto
qed simp

text \<open>
  \<open>ls\<close> is safe: when no name in the directory is longer than \<open>NAME_MAX\<close>, it stays within its path
  buffer for every path, closes every descriptor it opens, and each of its calls of \<open>printf\<close> is well
  typed.
\<close>

theorem builtin_ls_safe:
  assumes "\<forall>(ino, nm)\<in>set (concat (ls_entries os path)). length nm \<le> NAME_MAX"
  shows "\<exists>ms opened closed. builtin_ls os path = Some (ms, opened, closed) \<and> opened = closed \<and> list_all shown ms"
proof -
  have "shown (Err (''ls: cannot open %s'' @ [CHR 0x0A]) [VStr (Some path)])"
      "shown (Err (''ls: cannot stat %s'' @ [CHR 0x0A]) [VStr (Some path)])" "shown (Out (''ls: path too long'' @ [CHR 0x0A]) [])"
    by (simp_all add: shown_def ls_formats [simplified] format_ok_vprintf del: not_None_eq)
  moreover obtain ms where "length path + 1 + NAME_MAX + 1 \<le> LS_BUF \<Longrightarrow>
      ls_loop os path (concat (ls_entries os path)) = Some ms \<and> list_all shown ms"
    using ls_loop_shown [OF assms] by blast
  ultimately show ?thesis
    using ls_print_entry_shown [of path] by (auto simp: builtin_ls_def not_less split: option.splits)
qed

theorem builtin_ls_safe_witness:
  "\<exists>ms n. builtin_ls \<lparr>can_open = \<lambda>p. True, ls_fstat = \<lambda>p. Some \<lparr>st_mode = \<lparr>m_type = DIR, m_bits = replicate 9 True\<rparr>, st_nlink = 1, st_size = 0\<rparr>,
     ls_stat = \<lambda>p. None, ls_entries = \<lambda>p. [[(1, ''file'')]]\<rparr> ''dir'' = Some (ms, n, n) \<and> list_all shown ms"
  using builtin_ls_safe [of "\<lparr>can_open = \<lambda>p. True, ls_fstat = \<lambda>p. Some \<lparr>st_mode = \<lparr>m_type = DIR, m_bits = replicate 9 True\<rparr>, st_nlink = 1, st_size = 0\<rparr>,
     ls_stat = \<lambda>p. None, ls_entries = \<lambda>p. [[(1, ''file'')]]\<rparr>" "''dir''"]
  by (auto simp: NAME_MAX_def)

text \<open>The mode that the first ten characters of a line stand for.\<close>

definition read_mode :: "string \<Rightarrow> mode" where
  "read_mode s =
     \<lparr>m_type = (if hd s = CHR ''d'' then DIR else if hd s = CHR ''l'' then LNK else if hd s = CHR ''c'' then CHARDEV
        else if hd s = CHR ''b'' then BLK else if hd s = CHR ''p'' then FIFO else if hd s = CHR ''s'' then SOCK else OTHER),
      m_bits = List.map (\<lambda>c. c \<noteq> CHR ''-'') (take 9 (tl s))\<rparr>"

lemma char_arg_text: "to_char (uint (word_of_int (sc c) :: 32 word)) = c"
proof -
  have "uint (word_of_int (sc c) :: 32 word) mod 256 = uc c"
    using uc_bounds [of c] by (auto simp: uint_word_of_int sc_uc mod_mod_cancel simp del: uc_bounds)
  then have "uc (to_char (uint (word_of_int (sc c) :: 32 word))) = uc c" by (simp only: uc_to_char)
  then show ?thesis by (simp only: uc_eq_iff)
qed

lemma render_char: "render [] (CHR ''%'' # CHR ''c'' # fmt) (VInt w # args) = map_option ((#) (to_char (uint w))) (render [] fmt args)"
proof -
  have "(@) [x] = (#) x" for x :: char by auto
  then show ?thesis by (simp add: render_eval)
qed

lemma render_string: "render [] (CHR ''%'' # CHR ''s'' # fmt) (VStr (Some s) # args) = map_option ((@) s) (render [] fmt args)"
  by (simp add: render_eval cut_def)

text \<open>
  A line of \<open>ls\<close> shows the mode of the file: its first ten characters determine the type and the nine
  permission bits.
\<close>

theorem ls_line_shows_mode:
  assumes "length (m_bits (st_mode st)) = 9" "ls_print_entry path st = Out fmt args" "render [] fmt args = Some s"
  shows "read_mode s = st_mode st"
proof -
  obtain t where s: "s = mode_type_char (st_mode st) # format_permissions (st_mode st) @ t"
    using assms(2,3)
    by (auto simp: ls_print_entry_def Let_def render_char render_string char_arg_def char_arg_text split: option.splits)
  obtain a b c d e f g h i where "m_bits (st_mode st) = [a, b, c, d, e, f, g, h, i]"
    using assms(1) by (auto simp: numeral_eq_Suc length_Suc_conv)
  then show ?thesis
    by (cases "st_mode st", cases "m_type (st_mode st)")
      (auto simp: s read_mode_def mode_type_char_def format_permissions_def perm_char_def)
qed

text \<open>The history is listed in order, oldest line first, with numbers from 1.\<close>

lemma those_Some: "those (List.map (\<lambda>x. Some (f x)) xs) = Some (List.map f xs)"
  by (induction xs) auto

theorem history_listed:
  assumes "hist_ok e"
  shows "builtin_history e =
    Some (List.map (\<lambda>i. Out (''%3d  %s'' @ [CHR 0x0A]) [VInt (of_nat i + 1), VStr (Some (hist e ! i))]) [0..<length (hist e)])"
proof -
  have "aget (history e) ((history_start e + i) mod HISTORY_SIZE) = Some (hist e ! i)" if "i < history_count e" for i
    using assms that by (auto simp: aget_def hist_ok_def hist_nth)
  then have "builtin_history e = those (List.map (\<lambda>i. Some
      (Out (''%3d  %s'' @ [CHR 0x0A]) [VInt (of_nat i + 1), VStr (Some (hist e ! i))])) [0..<history_count e])"
    unfolding builtin_history_def by (intro arg_cong [of _ _ those] map_cong) auto
  then show ?thesis by (simp only: those_Some length_hist)
qed

end
