(* ===== verification/Consolerecord.thy ===== *)
theory Consolerecord
  imports Prelude
begin

section \<open>consolerecord.c: records for the console\<close>

text \<open>
  The three ways to hand text to the console as records: one record from the argument, a batch from
  a file, and the terminal batch, which is taken from a private file that must be unlinked before
  its text is committed.  The system calls are a record of functions on a state of the kernel's own
  choosing; the limits of the interface and the predicates that judge a text come from headers
  outside the repository and are the record \<open>con_abi\<close>.  A loop that goes on while \<open>read\<close> is
  interrupted has fuel.  \<^const>\<open>None\<close> is running out of it, or a write outside the buffer.
\<close>

abbreviation EINTR :: int where "EINTR \<equiv> 4"
abbreviation ENOENT :: int where "ENOENT \<equiv> 2"

record file_info =
  fi_dev :: nat
  fi_ino :: nat
  fi_uid :: nat
  fi_mode :: "32 word"
  fi_size :: int
  fi_nlink :: nat

record con_abi =
  S_ISREG :: "32 word \<Rightarrow> bool"
  TERMINAL_MARKER_MAX :: nat
  TERMINAL_MAX_LOGICAL :: nat
  MAX_INPUT :: nat
  BATCH_MAX_LOGICAL :: nat
  BATCH_MAX_RECORDS :: nat
  wire_text_valid :: "string \<Rightarrow> bool"
  batch_text_valid :: "string \<Rightarrow> nat \<Rightarrow> bool"
  commit_text_valid :: "string \<Rightarrow> nat \<Rightarrow> string \<Rightarrow> bool"

datatype open_mode = Reads_nofollow | Writes

text \<open>What is handed to \<open>ioctl\<close>: a batch with its flag, its text and its number of records, or one record.\<close>

datatype request = Batch bool string nat | Record string

record 's con_os =
  con_lstat :: "string \<Rightarrow> 's \<Rightarrow> int \<times> file_info \<times> 's"
  con_fstat :: "int \<Rightarrow> 's \<Rightarrow> int \<times> file_info \<times> 's"
  con_open :: "string \<Rightarrow> open_mode \<Rightarrow> 's \<Rightarrow> int \<times> 's"
  con_read :: "int \<Rightarrow> nat \<Rightarrow> 's \<Rightarrow> int \<times> string \<times> 's"
  con_close :: "int \<Rightarrow> 's \<Rightarrow> int \<times> 's"
  con_unlink :: "string \<Rightarrow> 's \<Rightarrow> int \<times> 's"
  con_ioctl :: "int \<Rightarrow> request \<Rightarrow> 's \<Rightarrow> int \<times> 's"
  con_malloc :: "nat \<Rightarrow> 's \<Rightarrow> bool \<times> 's"
  con_free :: "'s \<Rightarrow> 's"
  con_errno :: "'s \<Rightarrow> int"
  con_clear_errno :: "'s \<Rightarrow> 's"
  con_euid :: "'s \<Rightarrow> nat"

subsection \<open>The terminal batch\<close>

definition alphanumeric :: "char \<Rightarrow> bool" where
  "alphanumeric c \<longleftrightarrow> (uc (CHR ''0'') \<le> uc c \<and> uc c \<le> uc (CHR ''9'')) \<or>
     (uc (CHR ''A'') \<le> uc c \<and> uc c \<le> uc (CHR ''Z'')) \<or> (uc (CHR ''a'') \<le> uc c \<and> uc c \<le> uc (CHR ''z''))"

text \<open>The length of the marker when it is valid.\<close>

fun marker_loop :: "con_abi \<Rightarrow> string \<Rightarrow> nat \<Rightarrow> nat option" where
  "marker_loop abi [] len = Some len"
| "marker_loop abi (c # cs) len =
     (if len = TERMINAL_MARKER_MAX abi \<or> \<not> alphanumeric c then None else marker_loop abi cs (Suc len))"

definition terminal_marker_valid :: "con_abi \<Rightarrow> string \<Rightarrow> nat option" where
  "terminal_marker_valid abi marker =
     (case marker_loop abi marker 0 of
        None \<Rightarrow> None
      | Some len \<Rightarrow> if len = 0 then None else Some len)"

definition terminal_private_source_valid :: "con_abi \<Rightarrow> 's con_os \<Rightarrow> 's \<Rightarrow> file_info \<Rightarrow> nat \<Rightarrow> bool" where
  "terminal_private_source_valid abi os s st expected_links \<longleftrightarrow>
     S_ISREG abi (fi_mode st) \<and> fi_uid st = con_euid os s \<and> fi_mode st AND 0x3F = 0 \<and> fi_nlink st = expected_links"

definition terminal_source_identity_matches :: "file_info \<Rightarrow> file_info \<Rightarrow> bool" where
  "terminal_source_identity_matches l r \<longleftrightarrow>
     fi_dev l = fi_dev r \<and> fi_ino l = fi_ino r \<and> fi_uid l = fi_uid r \<and> fi_mode l = fi_mode r \<and> fi_size l = fi_size r"

text \<open>
  \<open>while (offset < want)\<close>: reads until \<open>want\<close> bytes are in the buffer of \<open>cap\<close> bytes.  The bytes so far are
  \<open>data\<close>; whether all of them arrived.
\<close>

fun read_exactly :: "nat \<Rightarrow> 's con_os \<Rightarrow> int \<Rightarrow> nat \<Rightarrow> nat \<Rightarrow> string \<Rightarrow> 's \<Rightarrow> (bool \<times> string \<times> 's) option" where
  "read_exactly 0 os fd want cap data s = None"
| "read_exactly (Suc k) os fd want cap data s =
     (if want \<le> length data then Some (True, data, s)
      else (case con_read os fd (want - length data) s of (n, bs, s) \<Rightarrow>
        if n < 0 \<and> con_errno os s = EINTR then read_exactly k os fd want cap data s
        else if n \<le> 0 then Some (False, data, s)
        else if cap < length data + nat n then None
        else read_exactly k os fd want cap (data @ take (nat n) bs) s))"

text \<open>\<open>for (;;)\<close> over \<open>read(fd, &extra, 1)\<close>: whether the file ends here.\<close>

fun at_end :: "nat \<Rightarrow> 's con_os \<Rightarrow> int \<Rightarrow> 's \<Rightarrow> (bool \<times> 's) option" where
  "at_end 0 os fd s = None"
| "at_end (Suc k) os fd s =
     (case con_read os fd 1 s of (n, bs, s) \<Rightarrow>
        if n < 0 \<and> con_errno os s = EINTR then at_end k os fd s else Some (n = 0, s))"

definition close_if :: "'s con_os \<Rightarrow> int \<Rightarrow> 's \<Rightarrow> 's" where
  "close_if os fd s = (if 0 \<le> fd then snd (con_close os fd s) else s)"

text \<open>The label \<open>out\<close>.\<close>

definition out :: "'s con_os \<Rightarrow> int \<Rightarrow> int \<Rightarrow> int \<Rightarrow> 's \<Rightarrow> int \<times> 's" where
  "out os input_fd console_fd status s = (status, close_if os console_fd (close_if os input_fd s))"

text \<open>\<open>lstat\<close> or \<open>fstat\<close>, and whether its answer is the private file with so many links and this identity.\<close>

definition same_source :: "con_abi \<Rightarrow> 's con_os \<Rightarrow> file_info \<Rightarrow> nat \<Rightarrow> int \<times> file_info \<times> 's \<Rightarrow> bool \<times> 's" where
  "same_source abi os path_stat links answer =
     (case answer of (ret, st, s) \<Rightarrow>
        (\<not> (ret < 0 \<or> \<not> terminal_private_source_valid abi os s st links \<or>
            \<not> terminal_source_identity_matches path_stat st), s))"

text \<open>From the second look at the path to the request: the file must be unchanged, unlinked and gone.\<close>

definition terminal_commit ::
  "con_abi \<Rightarrow> 's con_os \<Rightarrow> string \<Rightarrow> file_info \<Rightarrow> int \<Rightarrow> int \<Rightarrow> string \<Rightarrow> 's \<Rightarrow> int \<times> 's" where
  "terminal_commit abi os path path_stat input_fd console_fd data s =
     (case same_source abi os path_stat 1 (con_lstat os path s) of (ok, s) \<Rightarrow>
      if \<not> ok then out os input_fd console_fd 2 s
      else case same_source abi os path_stat 1 (con_fstat os input_fd s) of (ok, s) \<Rightarrow>
      if \<not> ok then out os input_fd console_fd 2 s
      else case con_unlink os path s of (ret, s) \<Rightarrow>
      if ret < 0 then out os input_fd console_fd 2 s
      else case con_lstat os path (con_clear_errno os s) of (ret, verify_stat, s) \<Rightarrow>
      if ret = 0 \<or> con_errno os s \<noteq> ENOENT then out os input_fd console_fd 2 s
      else case same_source abi os path_stat 0 (con_fstat os input_fd s) of (ok, s) \<Rightarrow>
      if \<not> ok then out os input_fd console_fd 2 s
      else case con_close os input_fd s of (ret, s) \<Rightarrow>
      if ret < 0 then out os input_fd console_fd 2 s
      else case con_ioctl os console_fd (Batch True data 2) s of (ret, s) \<Rightarrow>
      if ret = int (length data) then (0, snd (con_close os console_fd s))
      else out os (- 1) console_fd 4 s)"

definition terminal_batch_file ::
  "nat \<Rightarrow> con_abi \<Rightarrow> 's con_os \<Rightarrow> string \<Rightarrow> string \<Rightarrow> 's \<Rightarrow> (int \<times> 's) option" where
  "terminal_batch_file k abi os path marker s =
     (case if path = [] then None else terminal_marker_valid abi marker of
        None \<Rightarrow> Some (2, s)
      | Some marker_len \<Rightarrow>
     (let expected_len = marker_len * 2 + 13 in
      case con_lstat os path s of (ret, path_stat, s) \<Rightarrow>
      if ret < 0 \<or> \<not> terminal_private_source_valid abi os s path_stat 1 \<or> fi_size path_stat \<noteq> int expected_len
      then Some (2, s)
      else case con_open os path Reads_nofollow s of (input_fd, s) \<Rightarrow>
      if input_fd < 0 then Some (2, s)
      else case same_source abi os path_stat 1 (con_fstat os input_fd s) of (ok, s) \<Rightarrow>
      if \<not> ok then Some (out os input_fd (- 1) 2 s)
      else case con_open os ''/dev/console'' Writes s of (console_fd, s) \<Rightarrow>
      if console_fd < 0 then Some (out os input_fd console_fd 3 s)
      else case read_exactly k os input_fd expected_len (TERMINAL_MAX_LOGICAL abi) [] s of
        None \<Rightarrow> None
      | Some (ok, data, s) \<Rightarrow>
      if \<not> ok then Some (out os input_fd console_fd 2 s)
      else case at_end k os input_fd s of
        None \<Rightarrow> None
      | Some (ok, s) \<Rightarrow>
      if \<not> ok \<or> \<not> commit_text_valid abi data 2 marker then Some (out os input_fd console_fd 2 s)
      else Some (terminal_commit abi os path path_stat input_fd console_fd data s)))"

subsection \<open>A batch from a file\<close>

text \<open>The loop over the text: the record that is being read and the number of those that are complete.\<close>

fun scan_records :: "con_abi \<Rightarrow> string \<Rightarrow> string \<Rightarrow> nat \<Rightarrow> (string \<times> nat) option" where
  "scan_records abi [] rec count = Some (rec, count)"
| "scan_records abi (c # cs) rec count =
     (let rec = rec @ [c] in
      if MAX_INPUT abi < length rec then None
      else if c = CHR 0x0A then
        (if length rec = 1 \<or> \<not> wire_text_valid abi rec \<or> count = BATCH_MAX_RECORDS abi then None
         else scan_records abi cs [] (Suc count))
      else if uc c < 0x20 \<or> 0x7E < uc c then None
      else scan_records abi cs rec count)"

definition batch_records :: "con_abi \<Rightarrow> string \<Rightarrow> nat option" where
  "batch_records abi data =
     (case scan_records abi data [] 0 of
        None \<Rightarrow> None
      | Some (rec, count) \<Rightarrow>
          if rec \<noteq> [] \<or> count = 0 \<or> \<not> batch_text_valid abi data count then None else Some count)"

definition same_file :: "con_abi \<Rightarrow> file_info \<Rightarrow> int \<times> file_info \<Rightarrow> bool" where
  "same_file abi path_stat answer \<longleftrightarrow>
     (case answer of (ret, st) \<Rightarrow> \<not> (ret < 0 \<or> \<not> S_ISREG abi (fi_mode st) \<or> fi_dev st \<noteq> fi_dev path_stat \<or>
        fi_ino st \<noteq> fi_ino path_stat \<or> fi_size st \<noteq> fi_size path_stat))"

definition give_up :: "'s con_os \<Rightarrow> int \<Rightarrow> 's \<Rightarrow> (string \<times> nat) option \<times> 's" where
  "give_up os fd s = (None, snd (con_close os fd (con_free os s)))"

text \<open>The text and the number of its records; the block of the text is only kept with them.\<close>

definition read_batch_file ::
  "nat \<Rightarrow> con_abi \<Rightarrow> 's con_os \<Rightarrow> string \<Rightarrow> 's \<Rightarrow> ((string \<times> nat) option \<times> 's) option" where
  "read_batch_file k abi os path s =
     (if path = [] then Some (None, s)
      else case con_lstat os path s of (ret, path_stat, s) \<Rightarrow>
      if ret < 0 \<or> \<not> S_ISREG abi (fi_mode path_stat) \<or> fi_size path_stat \<le> 0 \<or>
         int (BATCH_MAX_LOGICAL abi) < fi_size path_stat
      then Some (None, s)
      else case con_open os path Reads_nofollow s of (fd, s) \<Rightarrow>
      if fd < 0 then Some (None, s)
      else case con_fstat os fd s of (ret, file_stat, s) \<Rightarrow>
      if \<not> same_file abi path_stat (ret, file_stat) then Some (None, snd (con_close os fd s))
      else case con_malloc os (nat (fi_size file_stat)) s of (ok, s) \<Rightarrow>
      if \<not> ok then Some (None, snd (con_close os fd s))
      else case read_exactly k os fd (nat (fi_size file_stat)) (nat (fi_size file_stat)) [] s of
        None \<Rightarrow> None
      | Some (ok, data, s) \<Rightarrow>
      if \<not> ok then Some (give_up os fd s)
      else case at_end k os fd s of
        None \<Rightarrow> None
      | Some (ok, s) \<Rightarrow>
      if \<not> ok then Some (give_up os fd s)
      else case con_fstat os fd s of (ret, file_stat, s) \<Rightarrow>
      if ret < 0 \<or> fi_dev file_stat \<noteq> fi_dev path_stat \<or> fi_ino file_stat \<noteq> fi_ino path_stat \<or>
         fi_size file_stat \<noteq> fi_size path_stat
      then Some (give_up os fd s)
      else (case con_close os fd s of (ret, s) \<Rightarrow>
        (case batch_records abi data of
           None \<Rightarrow> Some (None, con_free os s)
         | Some count \<Rightarrow> Some (Some (data, count), s))))"

subsection \<open>main\<close>

definition batch_file :: "nat \<Rightarrow> con_abi \<Rightarrow> 's con_os \<Rightarrow> string \<Rightarrow> 's \<Rightarrow> (int \<times> 's) option" where
  "batch_file k abi os path s =
     (case read_batch_file k abi os path s of
        None \<Rightarrow> None
      | Some (None, s) \<Rightarrow> Some (2, s)
      | Some (Some (data, count), s) \<Rightarrow>
          (case con_open os ''/dev/console'' Writes s of (fd, s) \<Rightarrow>
           if fd < 0 then Some (3, con_free os s)
           else (case con_ioctl os fd (Batch False data count) s of (ret, s) \<Rightarrow>
             Some (if ret = int (length data) then 0 else 4, con_free os (snd (con_close os fd s))))))"

text \<open>The argument copied into \<open>record\<close>, if it fits and is printable.\<close>

fun copy_record :: "con_abi \<Rightarrow> string \<Rightarrow> string \<Rightarrow> string option" where
  "copy_record abi [] rec = Some rec"
| "copy_record abi (c # cs) rec =
     (if int (MAX_INPUT abi) - 1 \<le> int (length rec) \<or> uc c < 0x20 \<or> 0x7E < uc c then None
      else copy_record abi cs (rec @ [c]))"

definition one_record :: "con_abi \<Rightarrow> 's con_os \<Rightarrow> string \<Rightarrow> 's \<Rightarrow> int \<times> 's" where
  "one_record abi os arg s =
     (case copy_record abi arg [] of
        None \<Rightarrow> (2, s)
      | Some rec \<Rightarrow>
          if rec = [] then (2, s)
          else (let rec = rec @ [CHR 0x0A] in
            if \<not> wire_text_valid abi rec then (2, s)
            else case con_open os ''/dev/console'' Writes s of (fd, s) \<Rightarrow>
            if fd < 0 then (3, s)
            else (case con_ioctl os fd (Record rec) s of (ret, s) \<Rightarrow>
              (if ret = int (length rec) then 0 else 4, snd (con_close os fd s)))))"

definition consolerecord_main :: "nat \<Rightarrow> con_abi \<Rightarrow> 's con_os \<Rightarrow> string list \<Rightarrow> 's \<Rightarrow> (int \<times> 's) option" where
  "consolerecord_main k abi os argv s =
     (if length argv = 4 \<and> argv ! 1 = ''--terminal-batch-file''
      then terminal_batch_file k abi os (argv ! 2) (argv ! 3) s
      else if length argv = 3 \<and> argv ! 1 = ''--batch-file'' then batch_file k abi os (argv ! 2) s
      else if length argv \<noteq> 2 then Some (2, s)
      else Some (one_record abi os (argv ! 1) s))"

end
