(* ===== verification/ConsoleSafe.thy ===== *)
theory ConsoleSafe
  imports Consolerecord
begin

section \<open>consolerecord.c: what reaches the console\<close>

text \<open>
  The locale says what a kernel does, through what can be observed of its state: the open
  descriptors, the requests it was sent, each with the answer and the paths that were unlinked by
  then, the unlinked paths, the blocks of the heap, and how often it may still interrupt a read.  Each part of the program is proved against these laws;
  a kernel in memory interprets them.
\<close>

record 's con_view =
  opened :: "'s \<Rightarrow> int set"
  sent :: "'s \<Rightarrow> (int \<times> request \<times> int \<times> string set) list"
  gone :: "'s \<Rightarrow> string set"
  live :: "'s \<Rightarrow> nat"
  patience :: "'s \<Rightarrow> nat"

text \<open>Nothing that can be observed changes.\<close>

definition quiet :: "'s con_view \<Rightarrow> 's \<Rightarrow> 's \<Rightarrow> bool" where
  "quiet v s s' \<longleftrightarrow> opened v s' = opened v s \<and> sent v s' = sent v s \<and> gone v s' = gone v s \<and>
     live v s' = live v s \<and> patience v s' \<le> patience v s"

subsection \<open>What a request must be\<close>

definition printable :: "char \<Rightarrow> bool" where
  "printable c \<longleftrightarrow> 0x20 \<le> uc c \<and> uc c \<le> 0x7E"

text \<open>A text of complete records.\<close>

definition records_of :: "con_abi \<Rightarrow> string \<Rightarrow> string list \<Rightarrow> bool" where
  "records_of abi data recs \<longleftrightarrow> data = concat (List.map (\<lambda>r. r @ [CHR 0x0A]) recs) \<and>
     length recs \<le> BATCH_MAX_RECORDS abi \<and>
     (\<forall>r\<in>set recs. r \<noteq> [] \<and> length r < MAX_INPUT abi \<and> (\<forall>c\<in>set r. printable c) \<and> wire_text_valid abi (r @ [CHR 0x0A]))"

fun payload :: "request \<Rightarrow> string" where
  "payload (Batch b data n) = data"
| "payload (Record rec) = rec"

text \<open>What may be sent for these arguments when these paths have been unlinked.\<close>

fun accepted :: "con_abi \<Rightarrow> string list \<Rightarrow> string set \<Rightarrow> request \<Rightarrow> bool" where
  "accepted abi argv G (Record rec) \<longleftrightarrow>
     length argv = 2 \<and> rec = argv ! 1 @ [CHR 0x0A] \<and> records_of (abi\<lparr>BATCH_MAX_RECORDS := 1\<rparr>) rec [argv ! 1]"
| "accepted abi argv G (Batch False data n) \<longleftrightarrow>
     length argv = 3 \<and> (\<exists>recs. records_of abi data recs \<and> length recs = n \<and> 0 < n) \<and> batch_text_valid abi data n"
| "accepted abi argv G (Batch True data n) \<longleftrightarrow>
     length argv = 4 \<and> n = 2 \<and> argv ! 2 \<in> G \<and> length data = 2 * length (argv ! 3) + 13 \<and> argv ! 3 \<noteq> [] \<and>
     (\<forall>c\<in>set (argv ! 3). alphanumeric c) \<and> commit_text_valid abi data 2 (argv ! 3)"

lemma printable_line: "printable c \<Longrightarrow> c \<noteq> CHR 0x0A"
  by (auto simp: printable_def uc_def)

lemma scan_records_complete:
  assumes "\<forall>c\<in>set r. printable c"
  shows "scan_records abi data r n = Some (rest, m) \<Longrightarrow> n \<le> BATCH_MAX_RECORDS abi \<Longrightarrow>
    \<exists>recs. r @ data = concat (List.map (\<lambda>r. r @ [CHR 0x0A]) recs) @ rest \<and> n + length recs = m \<and> m \<le> BATCH_MAX_RECORDS abi \<and>
      (\<forall>r\<in>set recs. r \<noteq> [] \<and> length r < MAX_INPUT abi \<and> (\<forall>c\<in>set r. printable c) \<and> wire_text_valid abi (r @ [CHR 0x0A]))"
  using assms
proof (induction abi data r n rule: scan_records.induct)
  case (1 abi rec n)
  then show ?case by (intro exI [of _ "[]"]) simp
next
  case (2 abi c cs rec n)
  show ?case
  proof (cases "c = CHR 0x0A")
    case True
    with "2.prems" have ok: "length rec < MAX_INPUT abi" "rec \<noteq> []" "wire_text_valid abi (rec @ [c])" "Suc n \<le> BATCH_MAX_RECORDS abi"
        "scan_records abi cs [] (Suc n) = Some (rest, m)"
      by (auto simp: Let_def split: if_splits)
    obtain recs where "cs = concat (List.map (\<lambda>r. r @ [CHR 0x0A]) recs) @ rest" "Suc n + length recs = m" "m \<le> BATCH_MAX_RECORDS abi"
      "\<forall>r\<in>set recs. r \<noteq> [] \<and> length r < MAX_INPUT abi \<and> (\<forall>c\<in>set r. printable c) \<and> wire_text_valid abi (r @ [CHR 0x0A])"
      using "2.IH"(1) [OF refl] ok True by auto
    with ok True "2.prems"(3) show ?thesis by (intro exI [of _ "rec # recs"]) auto
  next
    case False
    with "2.prems" have "scan_records abi cs (rec @ [c]) n = Some (rest, m)" "printable c" "\<not> MAX_INPUT abi < length (rec @ [c])"
      by (auto simp: Let_def printable_def split: if_splits)
    with "2.IH"(2) [OF refl] "2.prems"(2,3) False show ?thesis by (auto simp: printable_def)
  qed
qed

lemma scan_records_accepts:
  "\<forall>c\<in>set t. printable c \<Longrightarrow> length r + length t < MAX_INPUT abi \<Longrightarrow>
   scan_records abi (t @ rest) r n = scan_records abi rest (r @ t) n"
  by (induction t arbitrary: r) (auto simp: Let_def printable_line printable_def)

lemma batch_records_iff:
  "batch_records abi data = Some n \<longleftrightarrow>
     (\<exists>recs. records_of abi data recs \<and> length recs = n \<and> 0 < n) \<and> batch_text_valid abi data n"
proof
  assume a: "batch_records abi data = Some n"
  then have "scan_records abi data [] 0 = Some ([], n)" "0 < n" "batch_text_valid abi data n"
    by (auto simp: batch_records_def split: option.splits if_splits)
  with scan_records_complete [of "[]" abi data 0 "[]" n]
  show "(\<exists>recs. records_of abi data recs \<and> length recs = n \<and> 0 < n) \<and> batch_text_valid abi data n"
    by (auto simp: records_of_def)
next
  have scan: "scan_records abi (concat (List.map (\<lambda>r. r @ [CHR 0x0A]) recs)) [] m = Some ([], m + length recs)"
    if "m + length recs \<le> BATCH_MAX_RECORDS abi"
      "\<forall>r\<in>set recs. r \<noteq> [] \<and> length r < MAX_INPUT abi \<and> (\<forall>c\<in>set r. printable c) \<and> wire_text_valid abi (r @ [CHR 0x0A])" for recs m
    using that
  proof (induction recs arbitrary: m)
    case (Cons r recs)
    then show ?case using Cons.IH [of "Suc m"]
      by (simp add: scan_records_accepts [of r "[]", simplified] Let_def)
  qed simp
  assume "(\<exists>recs. records_of abi data recs \<and> length recs = n \<and> 0 < n) \<and> batch_text_valid abi data n"
  with scan [of 0] show "batch_records abi data = Some n"
    by (auto simp: records_of_def batch_records_def)
qed

lemma copy_record_same:
  "copy_record abi cs r = Some t \<Longrightarrow> t = r @ cs \<and> (\<forall>c\<in>set cs. printable c) \<and> (cs \<noteq> [] \<longrightarrow> length t < MAX_INPUT abi)"
  by (induction abi cs r rule: copy_record.induct) (auto simp: printable_def split: if_splits)

subsection \<open>The kernel\<close>

locale console_kernel =
  fixes os :: "'s con_os" and v :: "'s con_view"
  assumes lstat_quiet: "con_lstat os p s = (r, st, s') \<Longrightarrow> quiet v s s'"
    and fstat_quiet: "con_fstat os fd s = (r, st, s') \<Longrightarrow> quiet v s s'"
    and clear_quiet: "quiet v s (con_clear_errno os s)"
    and open_law: "con_open os p m s = (fd, s') \<Longrightarrow>
      opened v s' = (if fd < 0 then opened v s else insert fd (opened v s)) \<and> (0 \<le> fd \<longrightarrow> fd \<notin> opened v s) \<and>
      sent v s' = sent v s \<and> gone v s' = gone v s \<and> live v s' = live v s \<and> patience v s' \<le> patience v s"
    and read_law: "con_read os fd n s = (r, bs, s') \<Longrightarrow> quiet v s s' \<and> r \<le> int n \<and> (0 \<le> r \<longrightarrow> r = int (length bs))"
    and interrupt_law: "con_read os fd n s = (r, bs, s') \<Longrightarrow> r < 0 \<Longrightarrow> con_errno os s' = EINTR \<Longrightarrow> patience v s' < patience v s"
    and close_law: "con_close os fd s = (r, s') \<Longrightarrow> opened v s' = opened v s - {fd} \<and>
      sent v s' = sent v s \<and> gone v s' = gone v s \<and> live v s' = live v s \<and> patience v s' \<le> patience v s"
    and unlink_law: "con_unlink os p s = (r, s') \<Longrightarrow> gone v s' = (if r < 0 then gone v s else insert p (gone v s)) \<and>
      opened v s' = opened v s \<and> sent v s' = sent v s \<and> live v s' = live v s \<and> patience v s' \<le> patience v s"
    and ioctl_law: "con_ioctl os fd q s = (r, s') \<Longrightarrow> sent v s' = sent v s @ [(fd, q, r, gone v s)] \<and>
      opened v s' = opened v s \<and> gone v s' = gone v s \<and> live v s' = live v s \<and> patience v s' \<le> patience v s"
    and malloc_law: "con_malloc os n s = (ok, s') \<Longrightarrow> live v s' = (if ok then Suc (live v s) else live v s) \<and>
      opened v s' = opened v s \<and> sent v s' = sent v s \<and> gone v s' = gone v s \<and> patience v s' \<le> patience v s"
    and free_law: "live v (con_free os s) = live v s - 1" "opened v (con_free os s) = opened v s"
      "sent v (con_free os s) = sent v s" "gone v (con_free os s) = gone v s" "patience v (con_free os s) \<le> patience v s"
begin

lemma quiet_trans: "quiet v a b \<Longrightarrow> quiet v b c \<Longrightarrow> quiet v a c"
  by (auto simp: quiet_def)

lemma same_source_state: "same_source abi os path_stat links (r, st, s1) = (ok, s') \<Longrightarrow> s' = s1"
  by (simp add: same_source_def)

lemma same_source_quiet:
  "same_source abi os path_stat links (con_lstat os p s) = (ok, s') \<Longrightarrow> quiet v s s'"
  "same_source abi os path_stat links (con_fstat os fd s) = (ok, s') \<Longrightarrow> quiet v s s'"
  using lstat_quiet fstat_quiet same_source_state by (metis prod_cases3)+

lemma marker_loop_valid:
  "marker_loop abi cs n = Some len \<Longrightarrow> len = n + length cs \<and> (\<forall>c\<in>set cs. alphanumeric c) \<and>
     (cs = [] \<or> n \<le> TERMINAL_MARKER_MAX abi \<longrightarrow> len \<le> TERMINAL_MARKER_MAX abi \<or> cs = [])"
  by (induction abi cs n rule: marker_loop.induct) (auto split: if_splits)

lemma marker_valid:
  "terminal_marker_valid abi marker = Some len \<Longrightarrow>
     len = length marker \<and> 0 < len \<and> len \<le> TERMINAL_MARKER_MAX abi \<and> (\<forall>c\<in>set marker. alphanumeric c)"
  using marker_loop_valid [of abi marker 0] by (auto simp: terminal_marker_valid_def split: option.splits if_splits)

lemma read_exactly_ends:
  "want - length data + patience v s < k \<Longrightarrow> want \<le> cap \<Longrightarrow> length data \<le> want \<Longrightarrow>
   \<exists>ok data' s'. read_exactly k os fd want cap data s = Some (ok, data', s') \<and> quiet v s s' \<and>
     (ok \<longrightarrow> length data' = want)"
proof (induction k arbitrary: data s)
  case (Suc k)
  obtain n bs s1 where r: "con_read os fd (want - length data) s = (n, bs, s1)" by (metis prod_cases3)
  note law = read_law [OF r] interrupt_law [OF r]
  define data1 where "data1 = (if n < 0 then data else data @ take (nat n) bs)"
  have more: "\<exists>ok data' s'. read_exactly k os fd want cap data1 s1 = Some (ok, data', s') \<and> quiet v s s' \<and>
      (ok \<longrightarrow> length data' = want)"
    if "\<not> want \<le> length data" "n < 0 \<and> con_errno os s1 = EINTR \<or> 0 < n"
  proof -
    have len: "length data1 = length data + nat n" "length data + nat n \<le> want"
      using law(1) that Suc.prems(3) by (auto simp: data1_def)
    have "nat n = 0 \<longrightarrow> patience v s1 < patience v s" "patience v s1 \<le> patience v s"
      using law that(2) by (auto simp: quiet_def)
    with len that(1) have "want - length data1 + patience v s1 < want - length data + patience v s" "length data1 \<le> want"
      by linarith+
    then have "want - length data1 + patience v s1 < k" using Suc.prems(1) by simp
    from Suc.IH [OF this Suc.prems(2) \<open>length data1 \<le> want\<close>] law(1) quiet_trans [of s s1]
    show ?thesis by blast
  qed
  have "quiet v s s" by (simp add: quiet_def)
  moreover have "\<not> want \<le> length data \<longrightarrow> 0 < n \<longrightarrow> length data + nat n \<le> cap"
    using law(1) Suc.prems(2) by linarith
  ultimately show ?case
    using more r law(1) Suc.prems(3) by (auto simp: data1_def split: if_splits)
qed simp

lemma at_end_ends:
  "patience v s < k \<Longrightarrow> \<exists>ok s'. at_end k os fd s = Some (ok, s') \<and> quiet v s s'"
proof (induction k arbitrary: s)
  case (Suc k)
  obtain n bs s1 where r: "con_read os fd 1 s = (n, bs, s1)" by (metis prod_cases3)
  note law = read_law [OF r] interrupt_law [OF r]
  show ?case
  proof (cases "n < 0 \<and> con_errno os s1 = EINTR")
    case True
    with law Suc.prems have "patience v s1 < k" by auto
    from Suc.IH [OF this] obtain ok s' where "at_end k os fd s1 = Some (ok, s')" "quiet v s1 s'" by blast
    moreover from this(2) law(1) have "quiet v s s'" using quiet_trans [of s s1] by blast
    ultimately show ?thesis using True r by simp
  next
    case False
    with r law show ?thesis by auto
  qed
qed simp

lemma out_closes:
  assumes "out os a b status s = (r, s')"
  shows "r = status \<and> opened v s' = opened v s - {x. 0 \<le> x \<and> (x = a \<or> x = b)} \<and> sent v s' = sent v s \<and>
    gone v s' = gone v s \<and> live v s' = live v s"
proof -
  obtain r1 s1 r2 s2 r3 s3 where "con_close os a s = (r1, s1)" "con_close os b s1 = (r2, s2)" "con_close os b s = (r3, s3)"
    by fastforce
  with assms show ?thesis
    using close_law [of a s r1 s1] close_law [of b s1 r2 s2] close_law [of b s r3 s3]
    by (auto simp: out_def close_if_def split: if_splits)
qed

text \<open>One request was sent, through a descriptor that is open in \<open>s1\<close>, and the status is what its answer says.\<close>

lemma terminal_commit_sends:
  assumes "terminal_commit abi os path path_stat a b data s = (r, s')" "0 \<le> a" "0 \<le> b" "a \<noteq> b"
  shows "opened v s' = opened v s - {a, b} \<and> live v s' = live v s \<and>
    (r = 2 \<and> sent v s' = sent v s \<or>
     (\<exists>ret. sent v s' = sent v s @ [(b, Batch True data 2, ret, insert path (gone v s))] \<and>
        r = (if ret = int (length data) then 0 else 4)))"
proof -
  obtain ok1 s1 where 1: "same_source abi os path_stat 1 (con_lstat os path s) = (ok1, s1)" by fastforce
  obtain ok2 s2 where 2: "same_source abi os path_stat 1 (con_fstat os a s1) = (ok2, s2)" by fastforce
  obtain r3 s3 where 3: "con_unlink os path s2 = (r3, s3)" by fastforce
  obtain r4 st s4 where 4: "con_lstat os path (con_clear_errno os s3) = (r4, st, s4)" by (metis prod_cases3)
  obtain ok5 s5 where 5: "same_source abi os path_stat 0 (con_fstat os a s4) = (ok5, s5)" by fastforce
  obtain r6 s6 where 6: "con_close os a s5 = (r6, s6)" by fastforce
  obtain r7 s7 where 7: "con_ioctl os b (Batch True data 2) s6 = (r7, s7)" by fastforce
  obtain r8 s8 where 8: "con_close os b s7 = (r8, s8)" by fastforce
  note q = same_source_quiet(1) [OF 1] same_source_quiet(2) [OF 2] clear_quiet [of s3] lstat_quiet [OF 4] same_source_quiet(2) [OF 5]
  have e: "opened v s2 = opened v s" "opened v s3 = opened v s" "opened v s5 = opened v s" "opened v s4 = opened v s"
      "opened v s6 = opened v s - {a}" "opened v s8 = opened v s - {a} - {b}" "opened v s7 = opened v s - {a}"
      "live v s2 = live v s" "live v s3 = live v s" "live v s5 = live v s" "live v s4 = live v s" "live v s6 = live v s"
      "live v s7 = live v s" "live v s8 = live v s"
      "sent v s2 = sent v s" "sent v s3 = sent v s" "sent v s5 = sent v s" "sent v s4 = sent v s" "sent v s6 = sent v s"
      "opened v s1 = opened v s" "live v s1 = live v s" "sent v s1 = sent v s"
    using q unlink_law [OF 3] close_law [OF 6] ioctl_law [OF 7] close_law [OF 8] by (simp_all add: quiet_def)
  have g: "r3 < 0 \<or> gone v s6 = insert path (gone v s)"
    using q unlink_law [OF 3] close_law [OF 6] by (auto simp: quiet_def)
  have i: "sent v s7 = sent v s @ [(b, Batch True data 2, r7, gone v s6)]" "sent v s8 = sent v s7"
    using e ioctl_law [OF 7] close_law [OF 8] by simp_all
  have set: "{x. 0 \<le> x \<and> (x = a \<or> x = b)} = {a, b}" "{x. 0 \<le> x \<and> (x = - 1 \<or> x = b)} = {b}"
    using assms(2,3) by auto
  have stop: ?thesis if "out os a b 2 t = (r, s')" "opened v t - {a, b} = opened v s - {a, b}" "sent v t = sent v s" "live v t = live v s" for t
    using out_closes [OF that(1)] that(2-4) set(1) by simp
  have fail: ?thesis if "out os (- 1) b 4 s7 = (r, s')" "r7 \<noteq> int (length data)" "\<not> r3 < 0"
    using out_closes [OF that(1)] that(2,3) set(2) e i g by auto
  have finish: ?thesis if "(0, s8) = (r, s')" "r7 = int (length data)" "\<not> r3 < 0"
    using that e i g by auto
  have "(if \<not> ok1 then out os a b 2 s1 else if \<not> ok2 then out os a b 2 s2 else if r3 < 0 then out os a b 2 s3
      else if r4 = 0 \<or> con_errno os s4 \<noteq> ENOENT then out os a b 2 s4 else if \<not> ok5 then out os a b 2 s5
      else if r6 < 0 then out os a b 2 s6 else if r7 = int (length data) then (0, s8) else out os (- 1) b 4 s7) = (r, s')"
    using assms(1) by (simp only: terminal_commit_def 1 2 3 4 5 6 7 8 prod.case snd_conv)
  then consider t where "t \<in> {s1, s2, s3, s4, s5, s6}" "out os a b 2 t = (r, s')"
    | "out os (- 1) b 4 s7 = (r, s')" "r7 \<noteq> int (length data)" "\<not> r3 < 0"
    | "(0, s8) = (r, s')" "r7 = int (length data)" "\<not> r3 < 0"
    by (simp only: insert_iff split: if_split_asm) blast+
  then show ?thesis
  proof cases
    case (1 t)
    moreover have "opened v t - {a, b} = opened v s - {a, b}" "sent v t = sent v s" "live v t = live v s"
      using 1(1) e by auto
    ultimately show ?thesis by (intro stop)
  qed (use fail finish in blast)+
qed

lemma close_both:
  "0 \<le> a \<Longrightarrow> 0 \<le> b \<Longrightarrow> a \<notin> S \<Longrightarrow> b \<notin> insert a S \<Longrightarrow> insert b (insert a S) - {x. 0 \<le> x \<and> (x = a \<or> x = b)} = S"
  by auto

lemma terminal_batch_sends:
  assumes big: "2 * TERMINAL_MARKER_MAX abi + 13 \<le> TERMINAL_MAX_LOGICAL abi"
    and fuel: "patience v s + 2 * TERMINAL_MARKER_MAX abi + 13 < k"
  shows "\<exists>r s'. terminal_batch_file k abi os path marker s = Some (r, s') \<and> opened v s' = opened v s \<and> live v s' = live v s \<and>
    (r \<in> {2, 3} \<and> sent v s' = sent v s \<or>
     (\<exists>fd data ret. sent v s' = sent v s @ [(fd, Batch True data 2, ret, insert path (gone v s))] \<and>
        r = (if ret = int (length data) then 0 else 4) \<and> terminal_marker_valid abi marker = Some (length marker) \<and>
        length data = 2 * length marker + 13 \<and> commit_text_valid abi data 2 marker))" (is "\<exists>r s'. _ \<and> ?Q r s'")
proof (cases "path = [] \<or> terminal_marker_valid abi marker = None")
  case True
  then show ?thesis by (auto simp: terminal_batch_file_def)
next
  case False
  then have path: "path \<noteq> []" and m: "terminal_marker_valid abi marker = Some (length marker)" "length marker \<le> TERMINAL_MARKER_MAX abi"
    using marker_valid by fastforce+
  define want where "want = length marker * 2 + 13"
  have want: "want \<le> TERMINAL_MAX_LOGICAL abi" "patience v s + want < k"
    using m(2) big fuel by (auto simp: want_def)
  obtain r1 st s1 where 1: "con_lstat os path s = (r1, st, s1)" by (metis prod_cases3)
  obtain a s2 where 2: "con_open os path Reads_nofollow s1 = (a, s2)" by fastforce
  obtain ok3 s3 where 3: "same_source abi os st 1 (con_fstat os a s2) = (ok3, s3)" by fastforce
  obtain b s4 where 4: "con_open os ''/dev/console'' Writes s3 = (b, s4)" by fastforce
  note q = lstat_quiet [OF 1] open_law [OF 2] same_source_quiet(2) [OF 3] open_law [OF 4]
  have "patience v s4 \<le> patience v s" using q by (auto simp: quiet_def)
  then obtain ok5 data s5 where 5: "read_exactly k os a want (TERMINAL_MAX_LOGICAL abi) [] s4 = Some (ok5, data, s5)"
      "quiet v s4 s5" "ok5 \<longrightarrow> length data = want"
    using read_exactly_ends [of want "[]" s4 k "TERMINAL_MAX_LOGICAL abi" a] want by fastforce
  then obtain ok6 s6 where 6: "at_end k os a s5 = Some (ok6, s6)" "quiet v s5 s6"
    using at_end_ends [of s5 k a] want \<open>patience v s4 \<le> patience v s\<close> by (auto simp: quiet_def)
  obtain r7 s7 where 7: "terminal_commit abi os path st a b data s6 = (r7, s7)" by fastforce
  let ?bad = "r1 < 0 \<or> \<not> terminal_private_source_valid abi os s1 st 1 \<or> fi_size st \<noteq> int want"
  have e: "sent v s1 = sent v s" "sent v s2 = sent v s" "sent v s3 = sent v s" "sent v s4 = sent v s" "sent v s6 = sent v s"
      "sent v s5 = sent v s" "opened v s1 = opened v s"
      "live v s1 = live v s" "live v s2 = live v s" "live v s3 = live v s" "live v s4 = live v s" "live v s6 = live v s"
      "live v s5 = live v s" "gone v s6 = gone v s" "opened v s5 = opened v s4" "opened v s6 = opened v s4" "opened v s3 = opened v s2"
    using q 5(2) 6(2) by (simp_all add: quiet_def)
  have o: "a < 0 \<Longrightarrow> opened v s2 = opened v s" "\<not> a < 0 \<Longrightarrow> opened v s2 = insert a (opened v s) \<and> a \<notin> opened v s"
      "b < 0 \<Longrightarrow> opened v s4 = opened v s3" "\<not> b < 0 \<Longrightarrow> opened v s4 = insert b (opened v s3) \<and> b \<notin> opened v s3"
    using q e by auto
  obtain r s' where "(if ?bad then (2, s1) else if a < 0 then (2, s2) else if \<not> ok3 then out os a (- 1) 2 s3
       else if b < 0 then out os a b 3 s4 else if \<not> ok5 then out os a b 2 s5
       else if \<not> ok6 \<or> \<not> commit_text_valid abi data 2 marker then out os a b 2 s6 else (r7, s7)) = (r, s')"
    by (rule prod.exhaust)
  moreover from this have run: "terminal_batch_file k abi os path marker s = Some (r, s')"
    by (simp only: terminal_batch_file_def path m(1) if_False option.case Let_def want_def [symmetric] 1 2 3 4 5(1) 6(1) 7
        prod.case) (simp only: if_distrib [of Some, symmetric])
  ultimately consider "(2, s1) = (r, s')" | "a < 0" "(2, s2) = (r, s')" | "\<not> a < 0" "out os a (- 1) 2 s3 = (r, s')"
    | "\<not> a < 0" "b < 0" "out os a b 3 s4 = (r, s')"
    | t where "t \<in> {s5, s6}" "\<not> a < 0" "\<not> b < 0" "out os a b 2 t = (r, s')"
    | "\<not> a < 0" "\<not> b < 0" "ok5" "commit_text_valid abi data 2 marker" "(r7, s7) = (r, s')"
    by (simp only: insert_iff split: if_split_asm) blast+
  then have "?Q r s'"
  proof cases
    case 3
    with out_closes [OF 3(2)] o e show ?thesis by auto
  next
    case 4
    with out_closes [OF 4(3)] o e show ?thesis by auto
  next
    case (5 t)
    have t: "sent v t = sent v s" "live v t = live v s" "opened v t = opened v s4" using 5(1) e by auto
    moreover have "opened v s4 = insert b (insert a (opened v s))" "a \<notin> opened v s" "b \<notin> insert a (opened v s)"
      using 5(2,3) o(2) o(4) e(17) by metis+
    ultimately show ?thesis
      using out_closes [OF 5(4)] close_both [of a b "opened v s"] 5(2,3) by simp
  next
    case c: 6
    have f: "opened v s6 = insert b (insert a (opened v s))" "a \<notin> opened v s" "b \<notin> insert a (opened v s)"
      using c(1,2) o(2) o(4) e(16,17) by metis+
    then have "opened v s6 - {a, b} = opened v s" by auto
    moreover have "length data = 2 * length marker + 13"
      using c(3) \<open>ok5 \<longrightarrow> length data = want\<close> by (simp add: want_def)
    moreover have "opened v s7 = opened v s6 - {a, b} \<and> live v s7 = live v s6 \<and>
        (r7 = 2 \<and> sent v s7 = sent v s6 \<or>
         (\<exists>ret. sent v s7 = sent v s6 @ [(b, Batch True data 2, ret, insert path (gone v s6))] \<and>
            r7 = (if ret = int (length data) then 0 else 4)))"
      using terminal_commit_sends [OF 7] c(1,2) f by simp
    ultimately show ?thesis
      using c(4,5) e m(1) unfolding prod.inject by (metis insertI1)
  qed (use o e in auto)
  with run show ?thesis by blast
qed

lemma read_batch_file_keeps:
  assumes fuel: "patience v s + BATCH_MAX_LOGICAL abi < k"
  shows "\<exists>r s'. read_batch_file k abi os path s = Some (r, s') \<and> opened v s' = opened v s \<and> sent v s' = sent v s \<and>
    gone v s' = gone v s \<and>
    (case r of None \<Rightarrow> live v s' = live v s
     | Some (data, count) \<Rightarrow> live v s' = Suc (live v s) \<and> batch_records abi data = Some count)"
proof (cases "path = []")
  case True
  then show ?thesis by (simp add: read_batch_file_def)
next
  case path: False
  obtain r1 st s1 where 1: "con_lstat os path s = (r1, st, s1)" by (metis prod_cases3)
  obtain fd s2 where 2: "con_open os path Reads_nofollow s1 = (fd, s2)" by fastforce
  obtain r3 fs s3 where 3: "con_fstat os fd s2 = (r3, fs, s3)" by (metis prod_cases3)
  obtain ok4 s4 where 4: "con_malloc os (nat (fi_size fs)) s3 = (ok4, s4)" by fastforce
  note q = lstat_quiet [OF 1] open_law [OF 2] fstat_quiet [OF 3] malloc_law [OF 4]
  let ?bad = "r1 < 0 \<or> \<not> S_ISREG abi (fi_mode st) \<or> fi_size st \<le> 0 \<or> int (BATCH_MAX_LOGICAL abi) < fi_size st"
  have e: "sent v s1 = sent v s" "sent v s2 = sent v s" "sent v s3 = sent v s" "sent v s4 = sent v s"
      "gone v s1 = gone v s" "gone v s2 = gone v s" "gone v s3 = gone v s" "gone v s4 = gone v s"
      "live v s1 = live v s" "live v s2 = live v s" "live v s3 = live v s" "live v s4 = (if ok4 then Suc (live v s) else live v s)"
      "opened v s1 = opened v s" "opened v s3 = opened v s2" "opened v s4 = opened v s2" "patience v s4 \<le> patience v s"
    using q by (auto simp: quiet_def)
  have o: "fd < 0 \<Longrightarrow> opened v s2 = opened v s" "\<not> fd < 0 \<Longrightarrow> opened v s2 - {fd} = opened v s"
    using q e by auto
  have closed: "opened v (snd (con_close os fd t)) = opened v t - {fd} \<and> sent v (snd (con_close os fd t)) = sent v t \<and>
      gone v (snd (con_close os fd t)) = gone v t \<and> live v (snd (con_close os fd t)) = live v t" for t
    using close_law [of fd t] by (cases "con_close os fd t") auto
  show ?thesis
  proof (cases "?bad \<or> fd < 0 \<or> \<not> same_file abi st (r3, fs) \<or> \<not> ok4")
    case True
    then show ?thesis
      using path o e closed by (auto simp: read_batch_file_def 1 2 3 4)
  next
    case False
    define want where "want = nat (fi_size fs)"
    have "want \<le> BATCH_MAX_LOGICAL abi" using False by (auto simp: want_def same_file_def)
    then obtain ok5 data s5 where 5: "read_exactly k os fd want want [] s4 = Some (ok5, data, s5)" "quiet v s4 s5"
      using read_exactly_ends [of want "[]" s4 k want fd] fuel e(16) by fastforce
    then obtain ok6 s6 where 6: "at_end k os fd s5 = Some (ok6, s6)" "quiet v s5 s6"
      using at_end_ends [of s5 k fd] fuel e(16) by (auto simp: quiet_def)
    obtain r7 fs7 s7 where 7: "con_fstat os fd s6 = (r7, fs7, s7)" by (metis prod_cases3)
    obtain r8 s8 where 8: "con_close os fd s7 = (r8, s8)" by fastforce
    note q = 5(2) 6(2) fstat_quiet [OF 7] close_law [OF 8]
    have f: "t \<in> {s5, s6, s7} \<Longrightarrow> opened v t = opened v s2 \<and> sent v t = sent v s \<and> gone v t = gone v s \<and> live v t = Suc (live v s)" for t
      using q e False by (auto simp: quiet_def)
    have gave: "opened v (snd (give_up os fd t)) = opened v s \<and> sent v (snd (give_up os fd t)) = sent v s \<and>
        gone v (snd (give_up os fd t)) = gone v s \<and> live v (snd (give_up os fd t)) = live v s \<and> fst (give_up os fd t) = None"
      if "t \<in> {s5, s6, s7}" for t
      using f [OF that] closed [of "con_free os t"] free_law [of t] o(2) False by (simp add: give_up_def)
    have kept: "opened v s8 = opened v s" "sent v s8 = sent v s" "gone v s8 = gone v s" "live v s8 = Suc (live v s)"
      using q(4) f [of s7] o(2) False by simp_all
    define r where "r = (if \<not> ok5 then give_up os fd s5 else if \<not> ok6 then give_up os fd s6
      else if r7 < 0 \<or> fi_dev fs7 \<noteq> fi_dev st \<or> fi_ino fs7 \<noteq> fi_ino st \<or> fi_size fs7 \<noteq> fi_size st then give_up os fd s7
      else case batch_records abi data of None \<Rightarrow> (None, con_free os s8) | Some count \<Rightarrow> (Some (data, count), s8))"
    have bads: "?bad = False" "(fd < 0) = False" "(\<not> same_file abi st (r3, fs)) = False" "(\<not> ok4) = False"
      using False by auto
    have "read_batch_file k abi os path s = Some r"
      by (simp only: read_batch_file_def path 1 2 3 want_def [symmetric] 4 [folded want_def] 5(1) 6(1) 7 8 r_def if_False option.case prod.case bads
          split: if_split option.split) simp
    moreover have "opened v (snd r) = opened v s \<and> sent v (snd r) = sent v s \<and> gone v (snd r) = gone v s \<and>
        (case fst r of None \<Rightarrow> live v (snd r) = live v s
         | Some (data, count) \<Rightarrow> live v (snd r) = Suc (live v s) \<and> batch_records abi data = Some count)"
      using gave [of s5] gave [of s6] gave [of s7] kept free_law [of s8]
      by (cases "batch_records abi data") (auto simp: r_def)
    ultimately show ?thesis by (metis surjective_pairing)
  qed
qed

lemma batch_file_sends:
  assumes "patience v s + BATCH_MAX_LOGICAL abi < k"
  shows "\<exists>r s'. batch_file k abi os path s = Some (r, s') \<and> opened v s' = opened v s \<and> live v s' = live v s \<and>
    (r \<in> {2, 3} \<and> sent v s' = sent v s \<or>
     (\<exists>fd data count ret. sent v s' = sent v s @ [(fd, Batch False data count, ret, gone v s)] \<and>
        r = (if ret = int (length data) then 0 else 4) \<and> batch_records abi data = Some count))"
proof -
  obtain res s1 where 1: "read_batch_file k abi os path s = Some (res, s1)" "opened v s1 = opened v s" "sent v s1 = sent v s"
    "gone v s1 = gone v s" "case res of None \<Rightarrow> live v s1 = live v s
       | Some (data, count) \<Rightarrow> live v s1 = Suc (live v s) \<and> batch_records abi data = Some count"
    using read_batch_file_keeps [OF assms] by blast
  show ?thesis
  proof (cases res)
    case None
    with 1 show ?thesis by (simp add: batch_file_def)
  next
    case (Some x)
    obtain data count where x: "x = (data, count)" by fastforce
    obtain fd s2 where 2: "con_open os ''/dev/console'' Writes s1 = (fd, s2)" by fastforce
    obtain ret s3 where 3: "con_ioctl os fd (Batch False data count) s2 = (ret, s3)" by fastforce
    obtain r4 s4 where 4: "con_close os fd s3 = (r4, s4)" by fastforce
    have "opened v s4 = opened v s" if "\<not> fd < 0"
      using open_law [OF 2] ioctl_law [OF 3] close_law [OF 4] 1(2) that by auto
    then show ?thesis
      using 1 Some x open_law [OF 2] ioctl_law [OF 3] close_law [OF 4] free_law [of s2] free_law [of s4]
      by (auto simp: batch_file_def 2 3 4)
  qed
qed

lemma one_record_sends:
  assumes "one_record abi os arg s = (r, s')"
  shows "opened v s' = opened v s \<and> live v s' = live v s \<and>
    (r \<in> {2, 3} \<and> sent v s' = sent v s \<or>
     (\<exists>fd ret. sent v s' = sent v s @ [(fd, Record (arg @ [CHR 0x0A]), ret, gone v s)] \<and>
        r = (if ret = int (length (arg @ [CHR 0x0A])) then 0 else 4) \<and> copy_record abi arg [] = Some arg \<and> arg \<noteq> [] \<and>
        wire_text_valid abi (arg @ [CHR 0x0A])))"
proof -
  obtain fd s2 where 2: "con_open os ''/dev/console'' Writes s = (fd, s2)" by fastforce
  obtain ret s3 where 3: "con_ioctl os fd (Record (arg @ [CHR 0x0A])) s2 = (ret, s3)" by fastforce
  obtain r4 s4 where 4: "con_close os fd s3 = (r4, s4)" by fastforce
  have "opened v s4 = opened v s" if "\<not> fd < 0"
    using open_law [OF 2] ioctl_law [OF 3] close_law [OF 4] that by auto
  then show ?thesis
    using assms copy_record_same [of abi arg "[]"] open_law [OF 2] ioctl_law [OF 3] close_law [OF 4]
    by (auto simp: one_record_def Let_def 2 3 4 split: option.splits if_splits)
qed

lemma consolerecord_main_sends:
  assumes "2 * TERMINAL_MARKER_MAX abi + 13 \<le> TERMINAL_MAX_LOGICAL abi"
    "patience v s + TERMINAL_MAX_LOGICAL abi + BATCH_MAX_LOGICAL abi < k"
  shows "\<exists>r s'. consolerecord_main k abi os argv s = Some (r, s') \<and> opened v s' = opened v s \<and> live v s' = live v s \<and>
    (r \<in> {2, 3} \<and> sent v s' = sent v s \<or>
     (\<exists>fd q ret G. sent v s' = sent v s @ [(fd, q, ret, G)] \<and>
        r = (if ret = int (length (payload q)) then 0 else 4) \<and> accepted abi argv G q))"
proof -
  have fuel: "patience v s + 2 * TERMINAL_MARKER_MAX abi + 13 < k" "patience v s + BATCH_MAX_LOGICAL abi < k"
    using assms by simp_all
  let ?terminal = "length argv = 4 \<and> argv ! 1 = ''--terminal-batch-file''"
  let ?batch = "length argv = 3 \<and> argv ! 1 = ''--batch-file''"
  consider ?terminal | "\<not> ?terminal" ?batch | "length argv = 2" | "length argv \<noteq> 2" "\<not> ?terminal" "\<not> ?batch" by blast
  then show ?thesis
  proof cases
    case 1
    then have main: "consolerecord_main k abi os argv s = terminal_batch_file k abi os (argv ! 2) (argv ! 3) s"
      by (simp add: consolerecord_main_def)
    have "accepted abi argv (insert (argv ! 2) (gone v s)) (Batch True data 2)"
      if "terminal_marker_valid abi (argv ! 3) = Some (length (argv ! 3))" "length data = 2 * length (argv ! 3) + 13"
        "commit_text_valid abi data 2 (argv ! 3)" for data
      using that 1 marker_valid [OF that(1)] by auto
    with terminal_batch_sends [OF assms(1) fuel(1), of "argv ! 2" "argv ! 3"] show ?thesis
      unfolding main by (metis payload.simps(1))
  next
    case 2
    then have main: "consolerecord_main k abi os argv s = batch_file k abi os (argv ! 2) s"
      by (simp add: consolerecord_main_def)
    have "accepted abi argv (gone v s) (Batch False data n)" if "batch_records abi data = Some n" for data n
      using that 2(2) by (simp add: batch_records_iff)
    with batch_file_sends [OF fuel(2), of "argv ! 2"] show ?thesis
      unfolding main by (metis payload.simps(1))
  next
    case 3
    obtain r s' where one: "one_record abi os (argv ! 1) s = (r, s')" by fastforce
    then have main: "consolerecord_main k abi os argv s = Some (r, s')"
      using 3 by (simp add: consolerecord_main_def)
    have "accepted abi argv (gone v s) (Record (argv ! 1 @ [CHR 0x0A]))"
      if "copy_record abi (argv ! 1) [] = Some (argv ! 1)" "argv ! 1 \<noteq> []" "wire_text_valid abi (argv ! 1 @ [CHR 0x0A])"
      using that 3 copy_record_same [OF that(1)] by (simp add: records_of_def)
    with one_record_sends [OF one] show ?thesis
      unfolding main by (metis payload.simps(2))
  qed (auto simp: consolerecord_main_def)
qed

end

end
