(* ===== verification/ConsoleMemory.thy ===== *)
theory ConsoleMemory
  imports ConsoleSafe
begin

section \<open>consolerecord.c: a console in memory, and the contract of the program\<close>

text \<open>
  A kernel with files, descriptors, interrupted and short reads that satisfies the laws of
  \<open>ConsoleSafe\<close>, and the properties of the whole program.
\<close>

record con_mem =
  cm_files :: "(string \<times> file_info \<times> string) list"
  cm_fds :: "(int \<times> string \<times> file_info \<times> string) list"
  cm_sent :: "(int \<times> request \<times> int \<times> string set) list"
  cm_gone :: "string list"
  cm_live :: nat
  cm_interrupts :: nat
  cm_errno :: int

definition no_info :: file_info where
  "no_info = \<lparr>fi_dev = 0, fi_ino = 0, fi_uid = 0, fi_mode = 0, fi_size = 0, fi_nlink = 0\<rparr>"

definition fresh_fd :: "(int \<times> 'a) list \<Rightarrow> int" where
  "fresh_fd fds = foldr (\<lambda>x m. max (fst x) m) fds 2 + 1"

definition mem_read :: "int \<Rightarrow> nat \<Rightarrow> con_mem \<Rightarrow> int \<times> string \<times> con_mem" where
  "mem_read fd n s =
     (if 0 < cm_interrupts s then (- 1, [], s\<lparr>cm_errno := EINTR, cm_interrupts := cm_interrupts s - 1\<rparr>)
      else case map_of (cm_fds s) fd of
        None \<Rightarrow> (- 1, [], s\<lparr>cm_errno := 9\<rparr>)
      | Some (p, info, rest) \<Rightarrow>
          (let bs = take (min 5 n) rest in
           (int (length bs), bs,
            s\<lparr>cm_fds := List.map (\<lambda>x. if fst x = fd then (fd, p, info, drop (length bs) rest) else x) (cm_fds s)\<rparr>)))"

definition mem_console :: "con_mem con_os" where
  "mem_console = \<lparr>
     con_lstat = (\<lambda>p s. case map_of (cm_files s) p of
        None \<Rightarrow> (- 1, no_info, s\<lparr>cm_errno := ENOENT\<rparr>) | Some (info, t) \<Rightarrow> (0, info, s)),
     con_fstat = (\<lambda>fd s. case map_of (cm_fds s) fd of
        None \<Rightarrow> (- 1, no_info, s) | Some (p, info, t) \<Rightarrow> (0, if p \<in> set (cm_gone s) then info\<lparr>fi_nlink := 0\<rparr> else info, s)),
     con_open = (\<lambda>p m s. case map_of (cm_files s) p of
        None \<Rightarrow> (- 1, s\<lparr>cm_errno := ENOENT\<rparr>)
      | Some (info, t) \<Rightarrow> (fresh_fd (cm_fds s), s\<lparr>cm_fds := (fresh_fd (cm_fds s), p, info, t) # cm_fds s\<rparr>)),
     con_read = mem_read,
     con_close = (\<lambda>fd s. (0, s\<lparr>cm_fds := List.filter (\<lambda>x. fst x \<noteq> fd) (cm_fds s)\<rparr>)),
     con_unlink = (\<lambda>p s. (0, s\<lparr>cm_files := List.filter (\<lambda>x. fst x \<noteq> p) (cm_files s), cm_gone := p # cm_gone s\<rparr>)),
     con_ioctl = (\<lambda>fd q s. (int (length (payload q)), s\<lparr>cm_sent := cm_sent s @ [(fd, q, int (length (payload q)), set (cm_gone s))]\<rparr>)),
     con_malloc = (\<lambda>n s. (True, s\<lparr>cm_live := Suc (cm_live s)\<rparr>)),
     con_free = (\<lambda>s. s\<lparr>cm_live := cm_live s - 1\<rparr>),
     con_errno = cm_errno,
     con_clear_errno = (\<lambda>s. s\<lparr>cm_errno := 0\<rparr>),
     con_euid = (\<lambda>s. 1000)\<rparr>"

definition fd_set :: "(int \<times> 'a) list \<Rightarrow> int set" where
  "fd_set fds = fst ` set fds"

definition mem_view :: "con_mem con_view" where
  "mem_view = \<lparr>opened = (\<lambda>s. fd_set (cm_fds s)), sent = cm_sent, gone = (\<lambda>s. set (cm_gone s)), live = cm_live,
     patience = cm_interrupts\<rparr>"

lemma fresh_fd_new: "fresh_fd fds \<notin> fd_set fds" "0 \<le> fresh_fd fds"
proof -
  have "x \<in> set fds \<Longrightarrow> fst x < fresh_fd fds" for x
    unfolding fresh_fd_def by (induction fds) auto
  then show "fresh_fd fds \<notin> fd_set fds" by (fastforce simp: fd_set_def)
  show "0 \<le> fresh_fd fds" unfolding fresh_fd_def by (induction fds) auto
qed

lemma fd_set_simps [simp]:
  "fd_set (x # fds) = insert (fst x) (fd_set fds)"
  "fd_set (List.filter (\<lambda>x. fst x \<noteq> fd) fds) = fd_set fds - {fd}"
  "fd_set (List.map (\<lambda>x. if fst x = fd then (fd, y) else x) fds) = fd_set fds"
proof -
  have "fst (if fst x = fd then (fd, y) else x) = fst x" for x by simp
  then show "fd_set (List.map (\<lambda>x. if fst x = fd then (fd, y) else x) fds) = fd_set fds"
    by (simp only: fd_set_def set_map image_image)
qed (auto simp: fd_set_def)

lemma mem_read_quiet:
  "mem_read fd n s = (r, bs, s') \<Longrightarrow> quiet mem_view s s' \<and> r \<le> int n \<and> (0 \<le> r \<longrightarrow> r = int (length bs))"
  by (auto simp: mem_read_def mem_view_def quiet_def Let_def simp del: map_eq_conv split: if_splits option.splits)

interpretation memory: console_kernel mem_console mem_view
proof
  fix s p m fd s'
  assume "con_open mem_console p m s = (fd, s')"
  then show "opened mem_view s' = (if fd < 0 then opened mem_view s else insert fd (opened mem_view s)) \<and>
      (0 \<le> fd \<longrightarrow> fd \<notin> opened mem_view s) \<and>
      sent mem_view s' = sent mem_view s \<and> gone mem_view s' = gone mem_view s \<and>
      live mem_view s' = live mem_view s \<and> patience mem_view s' \<le> patience mem_view s"
    using fresh_fd_new [of "cm_fds s"] by (auto simp: mem_console_def mem_view_def split: option.splits)
next
  fix fd n s r bs s'
  assume "con_read mem_console fd n s = (r, bs, s')"
  then have m: "mem_read fd n s = (r, bs, s')" by (simp add: mem_console_def)
  from mem_read_quiet [OF m]
  show "quiet mem_view s s' \<and> r \<le> int n \<and> (0 \<le> r \<longrightarrow> r = int (length bs))" .
  assume "r < 0" "con_errno mem_console s' = EINTR"
  with m show "patience mem_view s' < patience mem_view s"
    by (auto simp: mem_read_def mem_console_def mem_view_def Let_def split: if_splits option.splits)
qed (auto simp: mem_console_def mem_view_def quiet_def split: option.splits if_splits)

subsection \<open>The contract\<close>

text \<open>
  C11. Whatever the kernel answers, \<open>consolerecord\<close> ends, closes every descriptor and frees every block
  it took.  It sends nothing and exits with 2 or 3, or it sends exactly one request, which is
  acceptable for its arguments, and exits with 0 just when the answer is the length of the text.  For
  a terminal batch the file was unlinked before the request.
\<close>

theorem consolerecord_contract:
  assumes "console_kernel os v" "2 * TERMINAL_MARKER_MAX abi + 13 \<le> TERMINAL_MAX_LOGICAL abi"
    "patience v s + TERMINAL_MAX_LOGICAL abi + BATCH_MAX_LOGICAL abi < k"
  shows "\<exists>r s'. consolerecord_main k abi os argv s = Some (r, s') \<and> opened v s' = opened v s \<and> live v s' = live v s \<and>
    (r \<in> {2, 3} \<and> sent v s' = sent v s \<or>
     (\<exists>fd q ret G. sent v s' = sent v s @ [(fd, q, ret, G)] \<and>
        r = (if ret = int (length (payload q)) then 0 else 4) \<and> accepted abi argv G q))"
  using console_kernel.consolerecord_main_sends [OF assms] .

definition small_abi :: con_abi where
  "small_abi = \<lparr>S_ISREG = (\<lambda>m. m AND 0xF000 = 0x8000), TERMINAL_MARKER_MAX = 4, TERMINAL_MAX_LOGICAL = 40, MAX_INPUT = 20,
     BATCH_MAX_LOGICAL = 60, BATCH_MAX_RECORDS = 3, wire_text_valid = (\<lambda>t. True), batch_text_valid = (\<lambda>t n. True),
     commit_text_valid = (\<lambda>t n m. take (length m) t = m)\<rparr>"

definition small_console :: con_mem where
  "small_console = \<lparr>cm_files = [(''/dev/console'', no_info, []),
       (''/tmp/t'', \<lparr>fi_dev = 1, fi_ino = 7, fi_uid = 1000, fi_mode = 0x8180, fi_size = 17, fi_nlink = 1\<rparr>, ''ab:commit:payload'')],
     cm_fds = [], cm_sent = [], cm_gone = [], cm_live = 0, cm_interrupts = 2, cm_errno = 0\<rparr>"

lemma small_run:
  "map_option fst (consolerecord_main 200 small_abi mem_console [''consolerecord'', ''--terminal-batch-file'', ''/tmp/t'', ''ab''] small_console) = Some 0"
  by code_simp

theorem consolerecord_contract_witness:
  "\<exists>s' fd q ret G. consolerecord_main 200 small_abi mem_console [''consolerecord'', ''--terminal-batch-file'', ''/tmp/t'', ''ab''] small_console = Some (0, s') \<and>
     cm_sent s' = [(fd, q, ret, G)] \<and> ''/tmp/t'' \<in> G"
proof -
  let ?argv = "[''consolerecord'', ''--terminal-batch-file'', ''/tmp/t'', ''ab'']"
  have k: "console_kernel mem_console mem_view" ..
  obtain r s' where s': "consolerecord_main 200 small_abi mem_console ?argv small_console = Some (r, s')"
      "r \<in> {2, 3} \<and> sent mem_view s' = sent mem_view small_console \<or>
       (\<exists>fd q ret G. sent mem_view s' = sent mem_view small_console @ [(fd, q, ret, G)] \<and>
        r = (if ret = int (length (payload q)) then 0 else 4) \<and> accepted small_abi ?argv G q)"
    using consolerecord_contract [OF k, of small_abi small_console 200 ?argv]
    by (auto simp: small_abi_def mem_view_def small_console_def)
  with small_run have "r = 0" by simp
  with s' obtain fd q ret G where "cm_sent s' = [(fd, q, ret, G)]" "accepted small_abi ?argv G q"
    by (auto simp: mem_view_def small_console_def)
  moreover from this(2) have "''/tmp/t'' \<in> G"
    by (cases "(small_abi, ?argv, G, q)" rule: accepted.cases) auto
  ultimately show ?thesis using s'(1) \<open>r = 0\<close> by blast
qed

text \<open>
  C34. A file is accepted as a batch exactly when it is a sequence of at most the allowed number of
  complete, printable, non-empty lines that fit the input buffer and that the interface accepts.
\<close>

theorem batch_accepts_complete_lines:
  "batch_records abi data = Some n \<longleftrightarrow>
     (\<exists>recs. records_of abi data recs \<and> length recs = n \<and> 0 < n) \<and> batch_text_valid abi data n"
  by (rule batch_records_iff)

end
