(* ===== verification/Find.thy ===== *)
theory Find
  imports Prelude
begin

section \<open>find.c: searching a tree\<close>

text \<open>
  Both builds of the program: \<open>find\<close> reads directory records of a fixed size through a descriptor,
  \<open>find_host\<close> uses directory streams.  The kernel is a record of functions on a state of its own
  choosing; the size of a name in a record and of a path come from its headers.  The recursion has
  fuel.  \<^const>\<open>None\<close> is running out of it, or a write outside the path buffer.
\<close>

datatype notice =
    Match string
  | No_stat string
  | No_dir string
  | No_open string
  | Too_long string

record 's find_os =
  DIRSIZ :: nat
  FIND_MAXPATH :: nat
  fo_open :: "string \<Rightarrow> 's \<Rightarrow> int \<times> 's"
  fo_fstat :: "int \<Rightarrow> 's \<Rightarrow> int \<times> bool \<times> 's"
  fo_stat :: "string \<Rightarrow> 's \<Rightarrow> int \<times> bool \<times> 's"
  fo_read :: "int \<Rightarrow> 's \<Rightarrow> (nat \<times> string) option \<times> 's"
  fo_close :: "int \<Rightarrow> 's \<Rightarrow> 's"

definition FIND_BUF :: nat where "FIND_BUF = 512"

definition dot_name :: "string \<Rightarrow> bool" where
  "dot_name n \<longleftrightarrow> n = ''.'' \<or> n = ''..''"

text \<open>The name in a record: its bytes up to the first NUL, at most \<open>DIRSIZ\<close>.\<close>

definition rec_name :: "'s find_os \<Rightarrow> string \<Rightarrow> string" where
  "rec_name os bytes = takeWhile (\<lambda>c. c \<noteq> NUL) (take (DIRSIZ os) bytes)"

fun find :: "nat \<Rightarrow> 's find_os \<Rightarrow> string \<Rightarrow> string \<Rightarrow> 's \<Rightarrow> (int \<times> notice list \<times> 's) option"
  and find_loop :: "nat \<Rightarrow> 's find_os \<Rightarrow> string \<Rightarrow> string \<Rightarrow> int \<Rightarrow> notice list \<Rightarrow> 's \<Rightarrow> (int \<times> notice list \<times> 's) option" where
  "find 0 os path name s = None"
| "find (Suc k) os path name s =
     (case fo_open os path s of (fd, s) \<Rightarrow>
      if fd < 0 then Some (- 1, [No_open path], s)
      else case fo_fstat os fd s of (ret, is_dir, s) \<Rightarrow>
      if ret < 0 then Some (- 1, [No_stat path], fo_close os fd s)
      else if \<not> is_dir then Some (- 1, [No_dir path], fo_close os fd s)
      else if FIND_BUF < length path + 2 then None
      else find_loop k os path name fd [] s)"
| "find_loop 0 os path name fd out s = None"
| "find_loop (Suc k) os path name fd out s =
     (case fo_read os fd s of
        (None, s) \<Rightarrow> Some (0, out, s)
      | (Some (inum, bytes), s) \<Rightarrow>
          if inum = 0 then find_loop k os path name fd out s
          else if FIND_BUF < length path + 1 + DIRSIZ os + 1 then None
          else (let p = rec_name os bytes; buf = path @ ''/'' @ p in
            case fo_stat os buf s of (ret, is_dir, s) \<Rightarrow>
            if ret < 0 then find_loop k os path name fd (out @ [No_stat buf]) s
            else (let out = (if p = name then out @ [Match buf] else out) in
              if is_dir \<and> \<not> dot_name p
              then (case find k os buf name s of
                      None \<Rightarrow> None
                    | Some (ret, msgs, s) \<Rightarrow> find_loop k os path name fd (out @ msgs) s)
              else find_loop k os path name fd out s)))"

definition find_main :: "nat \<Rightarrow> 's find_os \<Rightarrow> string list \<Rightarrow> 's \<Rightarrow> (int \<times> notice list \<times> 's) option" where
  "find_main k os argv s =
     (if length argv \<noteq> 3 then Some (1, [], s) else find k os (argv ! 1) (argv ! 2) s)"

subsection \<open>With directory streams\<close>

text \<open>
  Here \<open>fo_stat\<close> is \<open>lstat\<close>, and opening, reading and closing are those of a directory stream; a read
  that gives \<^const>\<open>None\<close> is \<open>readdir\<close> answering null.
\<close>

fun find_host :: "nat \<Rightarrow> 's find_os \<Rightarrow> string \<Rightarrow> string \<Rightarrow> 's \<Rightarrow> (int \<times> notice list \<times> 's) option"
  and host_loop :: "nat \<Rightarrow> 's find_os \<Rightarrow> string \<Rightarrow> string \<Rightarrow> int \<Rightarrow> int \<Rightarrow> notice list \<Rightarrow> 's \<Rightarrow> (int \<times> notice list \<times> 's) option" where
  "find_host 0 os path name s = None"
| "find_host (Suc k) os path name s =
     (case fo_stat os path s of (ret, is_dir, s) \<Rightarrow>
      if ret < 0 then Some (- 1, [No_stat path], s)
      else if \<not> is_dir then Some (- 1, [No_dir path], s)
      else case fo_open os path s of (dir, s) \<Rightarrow>
      if dir < 0 then Some (- 1, [No_open path], s)
      else host_loop k os path name dir 0 [] s)"
| "host_loop 0 os path name dir status out s = None"
| "host_loop (Suc k) os path name dir status out s =
     (case fo_read os dir s of
        (None, s) \<Rightarrow> Some (status, out, fo_close os dir s)
      | (Some (ino, d_name), s) \<Rightarrow>
          if dot_name d_name then host_loop k os path name dir status out s
          else (let child = path @ ''/'' @ d_name in
            if FIND_MAXPATH os \<le> length child then host_loop k os path name dir (- 1) (out @ [Too_long child]) s
            else case fo_stat os child s of (ret, is_dir, s) \<Rightarrow>
            if ret < 0 then host_loop k os path name dir (- 1) (out @ [No_stat child]) s
            else (let out = (if d_name = name then out @ [Match child] else out) in
              if is_dir
              then (case find_host k os child name s of
                      None \<Rightarrow> None
                    | Some (ret, msgs, s) \<Rightarrow>
                        host_loop k os path name dir (if ret < 0 then - 1 else status) (out @ msgs) s)
              else host_loop k os path name dir status out s)))"

definition find_host_main :: "nat \<Rightarrow> 's find_os \<Rightarrow> string list \<Rightarrow> 's \<Rightarrow> (int \<times> notice list \<times> 's) option" where
  "find_host_main k os argv s =
     (if length argv \<noteq> 3 then Some (1, [], s) else find_host k os (argv ! 1) (argv ! 2) s)"

subsection \<open>The tree\<close>

datatype tree = Leaf | Node "(string \<times> tree) list"

fun found :: "string \<Rightarrow> string \<Rightarrow> tree \<Rightarrow> string list" where
  "found path name Leaf = []"
| "found path name (Node cs) =
     concat (List.map (\<lambda>(n, t). (if n = name then [path @ ''/'' @ n] else []) @ found (path @ ''/'' @ n) name t) cs)"

text \<open>How many directories there are, and how much fuel a search takes when a directory has at most \<open>h\<close> other records.\<close>

fun dirs :: "tree \<Rightarrow> nat" where
  "dirs Leaf = 0"
| "dirs (Node cs) = Suc (sum_list (List.map (\<lambda>(n, t). dirs t) cs))"

fun fuel_of :: "nat \<Rightarrow> tree \<Rightarrow> nat" where
  "fuel_of h Leaf = 0"
| "fuel_of h (Node cs) = h + 2 + sum_list (List.map (\<lambda>(n, t). Suc (fuel_of h t)) cs)"

text \<open>Every directory has a path that leaves room for \<open>room\<close> more characters in a buffer of \<open>cap\<close>.\<close>

fun paths_fit :: "nat \<Rightarrow> nat \<Rightarrow> string \<Rightarrow> tree \<Rightarrow> bool" where
  "paths_fit cap room path Leaf = True"
| "paths_fit cap room path (Node cs) =
     (length path + room \<le> cap \<and> list_all (\<lambda>(n, t). paths_fit cap room (path @ ''/'' @ n) t) cs)"

end
