(* ===== verification/FindTree.thy ===== *)
theory FindTree
  imports Find Ramfs
begin

section \<open>find.c: what it prints and what it keeps open\<close>

text \<open>
  A kernel that serves a tree: \<open>node\<close> says which tree is at a path, \<open>dirfd\<close> which records an open
  directory has still to give, and \<open>nm\<close> how a record shows a name.  Besides the records of its entries
  a directory may have at most \<open>extra\<close> others: the two dots and unused slots.
\<close>

fun is_node :: "tree \<Rightarrow> bool" where
  "is_node Leaf = False"
| "is_node (Node cs) = True"

definition entry :: "(string \<Rightarrow> string) \<Rightarrow> nat \<times> string \<Rightarrow> bool" where
  "entry nm r \<longleftrightarrow> fst r \<noteq> 0 \<and> \<not> dot_name (nm (snd r))"

definition listed :: "(string \<Rightarrow> string) \<Rightarrow> (nat \<times> string) list \<Rightarrow> string list" where
  "listed nm es = List.map (nm \<circ> snd) (List.filter (entry nm) es)"

lemma listed_simps [simp]:
  "listed nm [] = []" "entry nm e \<Longrightarrow> listed nm (e # es) = nm (snd e) # listed nm es"
  "\<not> entry nm e \<Longrightarrow> listed nm (e # es) = listed nm es"
  by (simp_all add: listed_def)

locale dir_kernel =
  fixes os :: "'s find_os" and nm :: "string \<Rightarrow> string" and extra :: nat
    and node :: "string \<Rightarrow> tree option" and dirfd :: "'s \<Rightarrow> int \<Rightarrow> (nat \<times> string) list option"
  assumes child: "node p = Some (Node cs) \<Longrightarrow> (n, t) \<in> set cs \<Longrightarrow> node (p @ ''/'' @ n) = Some t"
    and names: "node p = Some (Node cs) \<Longrightarrow> (n, t) \<in> set cs \<Longrightarrow> \<not> dot_name n"
    and opens: "node p = Some (Node cs) \<Longrightarrow> \<exists>fd s' es. fo_open os p s = (fd, s') \<and> 0 \<le> fd \<and> dirfd s fd = None \<and>
      dirfd s' = (dirfd s)(fd \<mapsto> es) \<and> listed nm es = List.map fst cs \<and>
      length es \<le> extra + length cs"
    and fstats: "dirfd s fd \<noteq> None \<Longrightarrow> \<exists>r s'. fo_fstat os fd s = (r, True, s') \<and> 0 \<le> r \<and> dirfd s' = dirfd s"
    and stats: "node p = Some t \<Longrightarrow> \<exists>r s'. fo_stat os p s = (r, is_node t, s') \<and> 0 \<le> r \<and> dirfd s' = dirfd s"
    and dots: "node p = Some (Node cs) \<Longrightarrow> dot_name n \<Longrightarrow>
      \<exists>r s'. fo_stat os (p @ ''/'' @ n) s = (r, True, s') \<and> 0 \<le> r \<and> dirfd s' = dirfd s"
    and reads: "dirfd s fd = Some (e # es) \<Longrightarrow> \<exists>s'. fo_read os fd s = (Some e, s') \<and> dirfd s' = (dirfd s)(fd \<mapsto> es)"
    and ends: "dirfd s fd = Some [] \<Longrightarrow> \<exists>s'. fo_read os fd s = (None, s') \<and> dirfd s' = dirfd s"
    and closes: "dirfd (fo_close os fd s) = (dirfd s)(fd := None)"

lemma tree_size_child: "(n, t) \<in> set cs \<Longrightarrow> size t < size (Node cs)"
  by (induction cs) auto

text \<open>From \<open>s\<close> to \<open>s'\<close>, \<open>n\<close> more descriptors are open, and those that were are as they were, but for \<open>E\<close>.\<close>

definition leaks :: "('s \<Rightarrow> int \<Rightarrow> 'a option) \<Rightarrow> nat \<Rightarrow> int set \<Rightarrow> 's \<Rightarrow> 's \<Rightarrow> bool" where
  "leaks dirfd n E s s' \<longleftrightarrow> (\<exists>N. finite N \<and> card N = n \<and> N \<inter> dom (dirfd s) = {} \<and>
     dom (dirfd s') = dom (dirfd s) \<union> N \<and> (\<forall>x\<in>dom (dirfd s) - E. dirfd s' x = dirfd s x))"

lemma leaks_refl: "dirfd s' = dirfd s \<Longrightarrow> leaks dirfd 0 E s s'"
  unfolding leaks_def by (intro exI [of _ "{}"]) simp

lemma leaks_trans:
  assumes "leaks dirfd m E s t" "leaks dirfd n E t u"
  shows "leaks dirfd (m + n) E s u"
proof -
  obtain M where M: "finite M" "card M = m" "M \<inter> dom (dirfd s) = {}" "dom (dirfd t) = dom (dirfd s) \<union> M"
    "\<forall>x\<in>dom (dirfd s) - E. dirfd t x = dirfd s x"
    using assms(1) by (auto simp: leaks_def)
  obtain N where N: "finite N" "card N = n" "N \<inter> dom (dirfd t) = {}" "dom (dirfd u) = dom (dirfd t) \<union> N"
    "\<forall>x\<in>dom (dirfd t) - E. dirfd u x = dirfd t x"
    using assms(2) by (auto simp: leaks_def)
  have "card (M \<union> N) = m + n" using M N by (subst card_Un_disjoint) auto
  moreover have "(M \<union> N) \<inter> dom (dirfd s) = {}" "dom (dirfd u) = dom (dirfd s) \<union> (M \<union> N)" using M N by auto
  moreover have "dirfd u x = dirfd s x" if "x \<in> dom (dirfd s) - E" for x
    using that M(4) bspec [OF M(5) that] bspec [OF N(5), of x] by simp
  ultimately show ?thesis
    unfolding leaks_def using M(1) N(1) by blast
qed

lemma leaks_mono: "leaks dirfd n E s s' \<Longrightarrow> E \<subseteq> F \<Longrightarrow> leaks dirfd n F s s'"
  unfolding leaks_def by blast

lemma leaks_update: "dirfd s fd \<noteq> None \<Longrightarrow> dirfd s' = (dirfd s)(fd \<mapsto> es) \<Longrightarrow> leaks dirfd 0 {fd} s s'"
  unfolding leaks_def by (intro exI [of _ "{}"]) auto

lemma leaks_open:
  assumes "dirfd s fd = None" "dirfd t = (dirfd s)(fd \<mapsto> es)" "leaks dirfd n {fd} t u"
  shows "leaks dirfd (Suc n) {} s u"
proof -
  obtain N where N: "finite N" "card N = n" "N \<inter> dom (dirfd t) = {}" "dom (dirfd u) = dom (dirfd t) \<union> N"
    "\<forall>x\<in>dom (dirfd t) - {fd}. dirfd u x = dirfd t x"
    using assms(3) by (auto simp: leaks_def)
  have "x \<in> dom (dirfd s) \<Longrightarrow> dirfd u x = dirfd s x" for x
    using N(5) assms(1,2) by (cases "x = fd") auto
  then show ?thesis
    unfolding leaks_def using N assms(1,2) by (intro exI [of _ "insert fd N"]) auto
qed

locale native_kernel = dir_kernel os "rec_name os" extra node dirfd
  for os :: "'s find_os" and extra node dirfd
begin

lemma find_loop_prints:
  assumes node: "node path = Some (Node all)" and fit: "length path + DIRSIZ os + 2 \<le> FIND_BUF" and name: "\<not> dot_name name"
    and IH: "\<And>n t k s. (n, t) \<in> set all \<Longrightarrow> is_node t \<Longrightarrow> fuel_of extra t \<le> k \<Longrightarrow>
      \<exists>s'. find k os (path @ ''/'' @ n) name s = Some (0, List.map Match (found (path @ ''/'' @ n) name t), s') \<and>
        leaks dirfd (dirs t) {} s s'"
  shows "dirfd s fd = Some es \<Longrightarrow> set cs \<subseteq> set all \<Longrightarrow>
    listed (rec_name os) es = List.map fst cs \<Longrightarrow>
    length es + sum_list (List.map (\<lambda>(n, t). fuel_of extra t) cs) < k \<Longrightarrow>
    \<exists>s'. find_loop k os path name fd out s = Some (0, out @ List.map Match (found path name (Node cs)), s') \<and>
      leaks dirfd (sum_list (List.map (\<lambda>(n, t). dirs t) cs)) {fd} s s'"
proof (induction es arbitrary: cs out s k)
  case Nil
  obtain j where k: "k = Suc j" using Nil.prems(4) by (cases k) auto
  obtain s1 where "fo_read os fd s = (None, s1)" "dirfd s1 = dirfd s" using ends Nil.prems(1) by blast
  with Nil.prems(3) show ?case by (auto simp: k leaks_refl)
next
  case (Cons e es)
  obtain j where k: "k = Suc j" using Cons.prems(4) by (cases k) auto
  obtain inum bytes where e: "e = (inum, bytes)" by fastforce
  obtain s1 where s1: "fo_read os fd s = (Some (inum, bytes), s1)" "dirfd s1 = (dirfd s)(fd \<mapsto> es)"
    using reads Cons.prems(1) unfolding e by blast
  have l1: "leaks dirfd 0 {fd} s s1" using leaks_update [of dirfd s fd s1 es] s1(2) Cons.prems(1) by simp
  let ?p = "rec_name os bytes"
  have rest: "\<exists>s'. find_loop j os path name fd out' s2 = Some (0, out' @ List.map Match (found path name (Node cs')), s') \<and>
      leaks dirfd (sum_list (List.map (\<lambda>(n, t). dirs t) cs')) {fd} s2 s'"
    if "dirfd s2 fd = Some es" "set cs' \<subseteq> set cs"
      "listed (rec_name os) es = List.map fst cs'"
      "length es + sum_list (List.map (\<lambda>(n, t). fuel_of extra t) cs') < j" for cs' s2 out'
    using Cons.IH [OF that(1) subset_trans [OF that(2) Cons.prems(2)] that(3,4)] .
  have fit': "\<not> FIND_BUF < length path + 1 + DIRSIZ os + 1" using fit by simp
  show ?case
  proof (cases "inum = 0")
    case True
    then have "\<not> entry (rec_name os) e" by (simp add: entry_def e)
    with rest [of s1 cs out] Cons.prems(3,4) s1(2) k obtain s' where
      "find_loop j os path name fd out s1 = Some (0, out @ List.map Match (found path name (Node cs)), s')"
      "leaks dirfd (sum_list (List.map (\<lambda>(n, t). dirs t) cs)) {fd} s1 s'" by auto
    with leaks_trans [OF l1] True s1(1) show ?thesis by (auto simp: k)
  next
    case inum: False
    show ?thesis
    proof (cases "dot_name ?p")
      case True
      obtain r s2 where s2: "fo_stat os (path @ ''/'' @ ?p) s1 = (r, True, s2)" "0 \<le> r" "dirfd s2 = dirfd s1"
        using dots [OF node True] by blast
      have "\<not> entry (rec_name os) e" using True by (simp add: entry_def e)
      with rest [of s2 cs out] Cons.prems(3,4) s1(2) s2(3) k obtain s' where
        s': "find_loop j os path name fd out s2 = Some (0, out @ List.map Match (found path name (Node cs)), s')"
        "leaks dirfd (sum_list (List.map (\<lambda>(n, t). dirs t) cs)) {fd} s2 s'" by auto
      have "?p \<noteq> name" using True name by auto
      with s' s1(1) s2 inum fit' True leaks_trans [OF l1 leaks_trans [OF leaks_refl [of dirfd s2 s1] s'(2)]] show ?thesis
        by (simp add: k Let_def)
    next
      case False
      then have "entry (rec_name os) e" using inum by (simp add: entry_def e)
      then obtain t cs' where cs: "cs = (?p, t) # cs'"
          "listed (rec_name os) es = List.map fst cs'"
        using Cons.prems(3) by (cases cs) (auto simp: e)
      then have t: "(?p, t) \<in> set all" using Cons.prems(2) by auto
      obtain r s2 where s2: "fo_stat os (path @ ''/'' @ ?p) s1 = (r, is_node t, s2)" "0 \<le> r" "dirfd s2 = dirfd s1"
        using stats [OF child [OF node t]] by blast
      let ?out = "if ?p = name then out @ [Match (path @ ''/'' @ ?p)] else out"
      have "\<exists>msgs s3. (if is_node t then find j os (path @ ''/'' @ ?p) name s2 = Some (0, msgs, s3) else s3 = s2 \<and> msgs = []) \<and>
          msgs = List.map Match (found (path @ ''/'' @ ?p) name t) \<and> leaks dirfd (dirs t) {} s2 s3"
      proof (cases "is_node t")
        case True
        have "fuel_of extra t \<le> j" using Cons.prems(4) k cs(1) by simp
        from IH [OF t True this] True show ?thesis by auto
      next
        case False
        then have "t = Leaf" by (cases t) auto
        then show ?thesis by (simp add: leaks_refl)
      qed
      then obtain msgs s3 where s3: "if is_node t then find j os (path @ ''/'' @ ?p) name s2 = Some (0, msgs, s3) else s3 = s2 \<and> msgs = []"
        "msgs = List.map Match (found (path @ ''/'' @ ?p) name t)" "leaks dirfd (dirs t) {} s2 s3" by blast
      have "dirfd s3 fd = Some es"
        using s3(3) s2(3) s1(2) by (auto simp: leaks_def)
      with rest [of s3 cs' "?out @ msgs"] cs Cons.prems(4) k obtain s' where
        s': "find_loop j os path name fd (?out @ msgs) s3 = Some (0, (?out @ msgs) @ List.map Match (found path name (Node cs')), s')"
        "leaks dirfd (sum_list (List.map (\<lambda>(n, t). dirs t) cs')) {fd} s3 s'" by auto
      have "leaks dirfd (dirs t) {fd} s s3"
        using leaks_trans [OF l1 leaks_trans [OF leaks_refl [of dirfd s2 s1] leaks_mono [OF s3(3)]]] s2(3) by simp
      from leaks_trans [OF this s'(2)] s' s1(1) s2 s3(1,2) inum fit' False cs(1) show ?thesis
        by (auto simp: k Let_def split: if_splits)
    qed
  qed
qed

lemma find_prints:
  assumes "\<not> dot_name name"
  shows "node path = Some (Node cs) \<Longrightarrow> paths_fit FIND_BUF (DIRSIZ os + 2) path (Node cs) \<Longrightarrow> fuel_of extra (Node cs) \<le> k \<Longrightarrow>
    \<exists>s'. find k os path name s = Some (0, List.map Match (found path name (Node cs)), s') \<and> leaks dirfd (dirs (Node cs)) {} s s'"
proof (induction "size (Node cs)" arbitrary: path cs k s rule: less_induct)
  case less
  obtain j where k: "k = Suc j" using less.prems(3) by (cases k) auto
  obtain fd s1 es where s1: "fo_open os path s = (fd, s1)" "0 \<le> fd" "dirfd s fd = None" "dirfd s1 = (dirfd s)(fd \<mapsto> es)"
    "listed (rec_name os) es = List.map fst cs" "length es \<le> extra + length cs"
    using opens [OF less.prems(1)] by blast
  obtain r s2 where s2: "fo_fstat os fd s1 = (r, True, s2)" "0 \<le> r" "dirfd s2 = dirfd s1"
    using fstats [of s1 fd] s1(4) by auto
  have fit: "length path + DIRSIZ os + 2 \<le> FIND_BUF" using less.prems(2) by simp
  have IH: "\<exists>s'. find k os (path @ ''/'' @ n) name s = Some (0, List.map Match (found (path @ ''/'' @ n) name t), s') \<and>
      leaks dirfd (dirs t) {} s s'" if nt: "(n, t) \<in> set cs" and dir: "is_node t" and f: "fuel_of extra t \<le> k" for n t k s
  proof -
    obtain ds where t: "t = Node ds" using dir by (cases t) auto
    have "size t < size (Node cs)" using tree_size_child [OF nt] .
    moreover have "paths_fit FIND_BUF (DIRSIZ os + 2) (path @ ''/'' @ n) t"
      using less.prems(2) nt by (auto simp: list_all_iff)
    ultimately show ?thesis
      using less.hyps [of ds "path @ ''/'' @ n" k s] child [OF less.prems(1) nt] f t by blast
  qed
  have "length es + sum_list (List.map (\<lambda>(n, t). fuel_of extra t) cs) < j"
  proof -
    have "sum_list (List.map (\<lambda>(n, t). Suc (fuel_of extra t)) cs) = length cs + sum_list (List.map (\<lambda>(n, t). fuel_of extra t) cs)"
      by (induction cs) auto
    with less.prems(3) s1(6) k show ?thesis by simp
  qed
  from find_loop_prints [OF less.prems(1) fit assms IH _ subset_refl s1(5) this, of s2 fd "[]"] s1(4) s2(3)
  obtain s' where s': "find_loop j os path name fd [] s2 = Some (0, List.map Match (found path name (Node cs)), s')"
    "leaks dirfd (sum_list (List.map (\<lambda>(n, t). dirs t) cs)) {fd} s2 s'"
    by auto
  have "leaks dirfd (dirs (Node cs)) {} s s'"
    using leaks_open [OF s1(3) _ s'(2)] s1(4) s2(3) by simp
  with s' s1 s2 fit show ?case by (simp add: k)
qed

end

context native_kernel
begin

lemma find_long:
  assumes "node path = Some (Node cs)" "FIND_BUF < length path + 2" "0 < k"
  shows "find k os path name s = None"
proof -
  obtain j where k: "k = Suc j" using assms(3) by (cases k) auto
  obtain fd s1 es where s1: "fo_open os path s = (fd, s1)" "0 \<le> fd" "dirfd s1 = (dirfd s)(fd \<mapsto> es)"
    using opens [OF assms(1)] by blast
  obtain r s2 where "fo_fstat os fd s1 = (r, True, s2)" "0 \<le> r" using fstats [of s1 fd] s1(3) by auto
  with s1 assms(2) show ?thesis by (simp add: k)
qed

end

locale host_kernel = dir_kernel os "\<lambda>n. n" extra node dirfd
  for os :: "'s find_os" and extra node dirfd +
  assumes in_use: "fo_open os p s = (fd, s') \<Longrightarrow> 0 \<le> fd \<Longrightarrow> dirfd s' fd = Some es \<Longrightarrow> e \<in> set es \<Longrightarrow> fst e \<noteq> 0"
    and short: "node p = Some (Node cs) \<Longrightarrow> (n, t) \<in> set cs \<Longrightarrow> length n \<le> DIRSIZ os"
begin

lemma host_loop_prints:
  assumes node: "node path = Some (Node all)" and fit: "length path + DIRSIZ os + 2 \<le> FIND_MAXPATH os"
    and IH: "\<And>n t k s. (n, t) \<in> set all \<Longrightarrow> is_node t \<Longrightarrow> fuel_of extra t \<le> k \<Longrightarrow>
      \<exists>s'. find_host k os (path @ ''/'' @ n) name s = Some (0, List.map Match (found (path @ ''/'' @ n) name t), s') \<and>
        dirfd s' = dirfd s"
  shows "dirfd s fd = Some es \<Longrightarrow> set cs \<subseteq> set all \<Longrightarrow> \<forall>e\<in>set es. fst e \<noteq> 0 \<Longrightarrow> listed (\<lambda>n. n) es = List.map fst cs \<Longrightarrow>
    length es + sum_list (List.map (\<lambda>(n, t). fuel_of extra t) cs) < k \<Longrightarrow>
    \<exists>s'. host_loop k os path name fd 0 out s = Some (0, out @ List.map Match (found path name (Node cs)), s') \<and>
      dirfd s' = (dirfd s)(fd := None)"
proof (induction es arbitrary: cs out s k)
  case Nil
  obtain j where k: "k = Suc j" using Nil.prems(5) by (cases k) auto
  obtain s1 where "fo_read os fd s = (None, s1)" "dirfd s1 = dirfd s" using ends Nil.prems(1) by blast
  with Nil.prems(4) closes show ?case by (auto simp: k)
next
  case (Cons e es)
  obtain j where k: "k = Suc j" using Cons.prems(5) by (cases k) auto
  obtain inum n where e: "e = (inum, n)" "inum \<noteq> 0" using Cons.prems(3) by (cases e) auto
  obtain s1 where s1: "fo_read os fd s = (Some (inum, n), s1)" "dirfd s1 = (dirfd s)(fd \<mapsto> es)"
    using reads Cons.prems(1) unfolding e(1) by blast
  have used: "\<forall>e\<in>set es. fst e \<noteq> 0" using Cons.prems(3) by simp
  have rest: "\<exists>s'. host_loop j os path name fd 0 out' s2 = Some (0, out' @ List.map Match (found path name (Node cs')), s') \<and>
      dirfd s' = (dirfd s2)(fd := None)"
    if "dirfd s2 fd = Some es" "set cs' \<subseteq> set cs" "listed (\<lambda>n. n) es = List.map fst cs'"
      "length es + sum_list (List.map (\<lambda>(n, t). fuel_of extra t) cs') < j" for cs' s2 out'
    using Cons.IH [OF that(1) subset_trans [OF that(2) Cons.prems(2)] used that(3,4)] .
  show ?case
  proof (cases "dot_name n")
    case True
    then have "\<not> entry (\<lambda>n. n) e" by (simp add: entry_def e)
    with rest [of s1 cs out] Cons.prems(4,5) s1(2) k obtain s' where
      "host_loop j os path name fd 0 out s1 = Some (0, out @ List.map Match (found path name (Node cs)), s')"
      "dirfd s' = (dirfd s1)(fd := None)" by auto
    with True s1 show ?thesis by (auto simp: k)
  next
    case False
    then have "entry (\<lambda>n. n) e" by (simp add: entry_def e)
    then obtain t cs' where cs: "cs = (n, t) # cs'" "listed (\<lambda>n. n) es = List.map fst cs'"
      using Cons.prems(4) by (cases cs) (auto simp: e)
    then have t: "(n, t) \<in> set all" using Cons.prems(2) by auto
    obtain r s2 where s2: "fo_stat os (path @ ''/'' @ n) s1 = (r, is_node t, s2)" "0 \<le> r" "dirfd s2 = dirfd s1"
      using stats [OF child [OF node t]] by blast
    have fit': "\<not> FIND_MAXPATH os \<le> length (path @ ''/'' @ n)" using fit short [OF node t] by simp
    let ?out = "if n = name then out @ [Match (path @ ''/'' @ n)] else out"
    have "\<exists>msgs s3. (if is_node t then find_host j os (path @ ''/'' @ n) name s2 = Some (0, msgs, s3) else s3 = s2 \<and> msgs = []) \<and>
        msgs = List.map Match (found (path @ ''/'' @ n) name t) \<and> dirfd s3 = dirfd s2"
    proof (cases "is_node t")
      case True
      have "fuel_of extra t \<le> j" using Cons.prems(5) k cs(1) by simp
      from IH [OF t True this] True show ?thesis by auto
    next
      case False
      then have "t = Leaf" by (cases t) auto
      then show ?thesis by simp
    qed
    then obtain msgs s3 where s3: "if is_node t then find_host j os (path @ ''/'' @ n) name s2 = Some (0, msgs, s3) else s3 = s2 \<and> msgs = []"
      "msgs = List.map Match (found (path @ ''/'' @ n) name t)" "dirfd s3 = dirfd s2" by blast
    with rest [of s3 cs' "?out @ msgs"] cs Cons.prems(5) k s2(3) s1(2) obtain s' where
      "host_loop j os path name fd 0 (?out @ msgs) s3 = Some (0, (?out @ msgs) @ List.map Match (found path name (Node cs')), s')"
      "dirfd s' = (dirfd s)(fd := None)" by auto
    with s1(1) s2 s3(1,2) fit' False cs(1) show ?thesis
      by (auto simp: k Let_def split: if_splits)
  qed
qed

lemma find_host_prints:
  "node path = Some (Node cs) \<Longrightarrow> paths_fit (FIND_MAXPATH os) (DIRSIZ os + 2) path (Node cs) \<Longrightarrow> fuel_of extra (Node cs) \<le> k \<Longrightarrow>
   \<exists>s'. find_host k os path name s = Some (0, List.map Match (found path name (Node cs)), s') \<and> dirfd s' = dirfd s"
proof (induction "size (Node cs)" arbitrary: path cs k s rule: less_induct)
  case less
  obtain j where k: "k = Suc j" using less.prems(3) by (cases k) auto
  obtain r s0 where s0: "fo_stat os path s = (r, True, s0)" "0 \<le> r" "dirfd s0 = dirfd s"
    using stats [OF less.prems(1), of s] by auto
  obtain fd s1 es where s1: "fo_open os path s0 = (fd, s1)" "0 \<le> fd" "dirfd s0 fd = None" "dirfd s1 = (dirfd s0)(fd \<mapsto> es)"
    "listed (\<lambda>n. n) es = List.map fst cs" "length es \<le> extra + length cs"
    using opens [OF less.prems(1)] by blast
  have used: "\<forall>e\<in>set es. fst e \<noteq> 0" using in_use [OF s1(1,2)] s1(4) by simp
  have fit: "length path + DIRSIZ os + 2 \<le> FIND_MAXPATH os" using less.prems(2) by simp
  have IH: "\<exists>s'. find_host k os (path @ ''/'' @ n) name s = Some (0, List.map Match (found (path @ ''/'' @ n) name t), s') \<and>
      dirfd s' = dirfd s" if nt: "(n, t) \<in> set cs" and dir: "is_node t" and f: "fuel_of extra t \<le> k" for n t k s
  proof -
    obtain ds where t: "t = Node ds" using dir by (cases t) auto
    have "size t < size (Node cs)" using tree_size_child [OF nt] .
    moreover have "paths_fit (FIND_MAXPATH os) (DIRSIZ os + 2) (path @ ''/'' @ n) t"
      using less.prems(2) nt by (auto simp: list_all_iff)
    ultimately show ?thesis
      using less.hyps [of ds "path @ ''/'' @ n" k s] child [OF less.prems(1) nt] f t by blast
  qed
  have "sum_list (List.map (\<lambda>(n, t). Suc (fuel_of extra t)) cs) = length cs + sum_list (List.map (\<lambda>(n, t). fuel_of extra t) cs)"
    by (induction cs) auto
  then have "length es + sum_list (List.map (\<lambda>(n, t). fuel_of extra t) cs) < j"
    using less.prems(3) s1(6) k by simp
  from host_loop_prints [OF less.prems(1) fit IH _ subset_refl used s1(5) this, of s1 fd "[]"] s1(4)
  obtain s' where "host_loop j os path name fd 0 [] s1 = Some (0, List.map Match (found path name (Node cs)), s')"
    "dirfd s' = (dirfd s1)(fd := None)"
    by auto
  with s0 s1 show ?case by (auto simp: k)
qed

end

subsection \<open>A kernel in memory\<close>

fun walk :: "tree \<Rightarrow> string list \<Rightarrow> tree option" where
  "walk t [] = Some t"
| "walk Leaf (c # cs) = None"
| "walk (Node ds) (c # cs) = (case map_of ds c of None \<Rightarrow> None | Some t \<Rightarrow> walk t cs)"

fun tree_wf :: "tree \<Rightarrow> bool" where
  "tree_wf Leaf = True"
| "tree_wf (Node cs) = (distinct (List.map fst cs) \<and>
     list_all (\<lambda>(n, t). plain n \<and> cstring n \<and> length n \<le> 14 \<and> tree_wf t) cs)"

type_synonym dir_table = "(nat \<times> string) list option list"

definition mem_node :: "tree \<Rightarrow> string \<Rightarrow> tree option" where
  "mem_node root p = (if tree_wf root then walk root (comps p) else None)"

definition mem_dirs :: "dir_table \<Rightarrow> int \<Rightarrow> (nat \<times> string) list option" where
  "mem_dirs s fd = (if 0 \<le> fd \<and> nat fd < length s then s ! nat fd else None)"

definition mem_listing :: "bool \<Rightarrow> (string \<times> tree) list \<Rightarrow> (nat \<times> string) list" where
  "mem_listing holes cs = (if holes then [(0, ''old'')] else []) @ (1, ''.'') # (1, ''..'') # List.map (\<lambda>(n, t). (1, n)) cs"

definition mem_find :: "bool \<Rightarrow> tree \<Rightarrow> dir_table find_os" where
  "mem_find holes root = \<lparr>DIRSIZ = 14, FIND_MAXPATH = 128,
     fo_open = (\<lambda>p s. case mem_node root p of
        Some (Node cs) \<Rightarrow> (int (length s), s @ [Some (mem_listing holes cs)]) | _ \<Rightarrow> (- 1, s)),
     fo_fstat = (\<lambda>fd s. (if mem_dirs s fd = None then - 1 else 0, True, s)),
     fo_stat = (\<lambda>p s. case mem_node root p of
        Some t \<Rightarrow> (0, is_node t, s)
      | None \<Rightarrow> (if comps p \<noteq> [] \<and> dot_name (last (comps p)) then 0 else - 1, comps p \<noteq> [] \<and> dot_name (last (comps p)), s)),
     fo_read = (\<lambda>fd s. case mem_dirs s fd of Some (e # es) \<Rightarrow> (Some e, s[nat fd := Some es]) | _ \<Rightarrow> (None, s)),
     fo_close = (\<lambda>fd s. if 0 \<le> fd then s[nat fd := None] else s)\<rparr>"

lemma comps_child: "plain n \<or> dot_name n \<Longrightarrow> comps (p @ ''/'' @ n) = comps p @ [n]"
  by (auto simp: comps_def comps_from_append comps_from_plain plain_def dot_name_def)

lemma walk_append: "walk t (xs @ ys) = (case walk t xs of None \<Rightarrow> None | Some u \<Rightarrow> walk u ys)"
  by (induction t xs rule: walk.induct) (auto split: option.splits)

lemma walk_wf: "tree_wf t \<Longrightarrow> walk t cs = Some u \<Longrightarrow> tree_wf u"
proof (induction t cs rule: walk.induct)
  case (3 ds c cs)
  then show ?case by (auto simp: list_all_iff split: option.splits dest: map_of_SomeD)
qed auto

lemma mem_node_wf: "mem_node root p = Some t \<Longrightarrow> tree_wf t"
  by (auto simp: mem_node_def walk_wf split: if_splits)

lemma mem_node_child:
  assumes "mem_node root p = Some (Node cs)" "(n, t) \<in> set cs"
  shows "mem_node root (p @ ''/'' @ n) = Some t"
proof -
  have wf: "tree_wf (Node cs)" using mem_node_wf [OF assms(1)] .
  then have "plain n" "map_of cs n = Some t" using assms(2) by (auto simp: list_all_iff)
  then show ?thesis
    using assms(1) comps_child [of n p] by (auto simp: mem_node_def walk_append split: if_splits)
qed

lemma mem_listing_entries:
  assumes "tree_wf (Node cs)" "\<And>n t. (n, t) \<in> set cs \<Longrightarrow> nm n = n" "nm ''.'' = ''.''" "nm ''..'' = ''..''"
  shows "listed nm (mem_listing holes cs) = List.map fst cs"
proof -
  have e: "entry nm (1, n) \<and> nm n = n" if "(n, t) \<in> set cs" for n t
    using assms(1) that assms(2) [OF that] by (auto simp: list_all_iff entry_def plain_def dot_name_def is_dot_or_dotdot_def)
  have "listed nm (List.map (\<lambda>(n, t). (1, n)) ds) = List.map fst ds" if "set ds \<subseteq> set cs" for ds
    using that
  proof (induction ds)
    case (Cons d ds)
    with e [of "fst d" "snd d"] show ?case by (cases d) simp
  qed simp
  from this [OF subset_refl] have "listed nm (List.map (\<lambda>(n, t). (1, n)) cs) = List.map fst cs" .
  then show ?thesis
    using assms(3,4) by (simp add: mem_listing_def entry_def dot_name_def)
qed

lemma mem_dirs_push: "mem_dirs (s @ [x]) = (mem_dirs s)(int (length s) := x)"
  by (auto simp: mem_dirs_def fun_eq_iff nth_append)

lemma mem_dirs_upd: "mem_dirs s fd \<noteq> None \<Longrightarrow> mem_dirs (s[nat fd := x]) = (mem_dirs s)(fd := x)"
  by (auto simp: mem_dirs_def fun_eq_iff nth_list_update split: if_splits)

lemma mem_dirs_close: "0 \<le> fd \<Longrightarrow> mem_dirs (s[nat fd := None]) = (mem_dirs s)(fd := None)"
  by (auto simp: mem_dirs_def fun_eq_iff nth_list_update split: if_splits)

lemma mem_dir_kernel:
  assumes nm: "\<And>n. cstring n \<Longrightarrow> length n \<le> 14 \<Longrightarrow> nm n = n"
  shows "dir_kernel (mem_find holes root) nm 3 (mem_node root) mem_dirs"
proof
  fix p cs s
  assume p: "mem_node root p = Some (Node cs)"
  have wf: "tree_wf (Node cs)" using mem_node_wf [OF p] .
  have "listed nm (mem_listing holes cs) = List.map fst cs"
    using wf by (intro mem_listing_entries nm) (auto simp: list_all_iff)
  then show "\<exists>fd s' es. fo_open (mem_find holes root) p s = (fd, s') \<and> 0 \<le> fd \<and> mem_dirs s fd = None \<and>
      mem_dirs s' = (mem_dirs s)(fd \<mapsto> es) \<and> listed nm es = List.map fst cs \<and> length es \<le> 3 + length cs"
    using p by (auto simp: mem_find_def mem_dirs_push mem_listing_def) (auto simp: mem_dirs_def)
next
  fix p n t cs
  assume "mem_node root p = Some (Node cs)" "(n, t) \<in> set cs"
  then show "mem_node root (p @ ''/'' @ n) = Some t" by (rule mem_node_child)
next
  fix p n t cs
  assume "mem_node root p = Some (Node cs)" "(n, t) \<in> set cs"
  then show "\<not> dot_name n"
    using mem_node_wf [of root p "Node cs"] by (auto simp: list_all_iff plain_def dot_name_def is_dot_or_dotdot_def)
next
  fix p cs n s
  assume p: "mem_node root p = Some (Node cs)" "dot_name n"
  have "map_of cs n = None"
    using mem_node_wf [OF p(1)] p(2)
    by (auto simp: map_of_eq_None_iff list_all_iff plain_def dot_name_def is_dot_or_dotdot_def)
  then have "mem_node root (p @ ''/'' @ n) = None" "comps (p @ ''/'' @ n) = comps p @ [n]"
    using p comps_child [of n p] by (auto simp: mem_node_def walk_append split: if_splits)
  then show "\<exists>r s'. fo_stat (mem_find holes root) (p @ ''/'' @ n) s = (r, True, s') \<and> 0 \<le> r \<and> mem_dirs s' = mem_dirs s"
    using p(2) by (simp add: mem_find_def)
qed (auto simp: mem_find_def mem_dirs_upd mem_dirs_close, auto simp: mem_dirs_def)

interpretation native_mem: native_kernel "mem_find True root" 3 "mem_node root" mem_dirs for root
proof -
  have "rec_name (mem_find True root) n = n" if "cstring n" "length n \<le> 14" for n
    using that by (auto simp: rec_name_def mem_find_def takeWhile_eq_all_conv cstring_def)
  then show "native_kernel (mem_find True root) 3 (mem_node root) mem_dirs"
    unfolding native_kernel_def by (rule mem_dir_kernel)
qed

interpretation host_mem: host_kernel "mem_find False root" 3 "mem_node root" mem_dirs for root
proof -
  have "dir_kernel (mem_find False root) (\<lambda>n. n) 3 (mem_node root) mem_dirs" by (rule mem_dir_kernel) simp
  moreover have "host_kernel_axioms (mem_find False root) (mem_node root) mem_dirs"
  proof
    fix p s fd s' es e
    assume "fo_open (mem_find False root) p s = (fd, s')" "0 \<le> fd" "mem_dirs s' fd = Some es" "e \<in> set es"
    then show "fst e \<noteq> 0"
      by (auto simp: mem_find_def mem_dirs_push mem_listing_def split: option.splits tree.splits)
  next
    fix p cs n t
    assume "mem_node root p = Some (Node cs)" "(n, t) \<in> set cs"
    then show "length n \<le> DIRSIZ (mem_find False root)"
      using mem_node_wf [of root p "Node cs"] by (auto simp: list_all_iff mem_find_def)
  qed
  ultimately show "host_kernel (mem_find False root) 3 (mem_node root) mem_dirs"
    by (simp add: host_kernel_def)
qed

subsection \<open>What find does\<close>

text \<open>
  C35. \<open>find\<close> ends with status 0, stays in its path buffer, and prints the path of every entry with the
  name, in the order of the tree, when the path of every directory leaves room for a name; and it
  leaves one descriptor open for every directory it has read.
\<close>

theorem find_prints_matches:
  assumes "native_kernel os extra node dirfd" "node path = Some (Node cs)" "\<not> dot_name name"
    "paths_fit FIND_BUF (DIRSIZ os + 2) path (Node cs)" "fuel_of extra (Node cs) \<le> k"
  shows "\<exists>s'. find_main k os [prog, path, name] s = Some (0, List.map Match (found path name (Node cs)), s') \<and>
    leaks dirfd (dirs (Node cs)) {} s s'"
  using native_kernel.find_prints [OF assms(1,3,2,4,5)] by (simp add: find_main_def)

definition sample_tree :: tree where
  "sample_tree = Node [(''a'', Node [(''x'', Leaf), (''b'', Node [])]), (''x'', Leaf)]"

theorem find_prints_matches_witness:
  "\<exists>s'. find_main 40 (mem_find True sample_tree) [''find'', ''/'', ''x''] [] =
      Some (0, [Match ''//a/x'', Match ''//x''], s') \<and> leaks mem_dirs 3 {} [] s'"
proof -
  have k: "native_kernel (mem_find True sample_tree) 3 (mem_node sample_tree) mem_dirs" ..
  obtain cs where cs: "Node cs = sample_tree" by (simp add: sample_tree_def)
  have "mem_node sample_tree ''/'' = Some sample_tree" "paths_fit FIND_BUF 16 ''/'' sample_tree" "fuel_of 3 sample_tree \<le> 40"
      "found ''/'' ''x'' sample_tree = [''//a/x'', ''//x'']" "dirs sample_tree = 3" "DIRSIZ (mem_find True sample_tree) = 14"
    by code_simp+
  with find_prints_matches [OF k, of "''/''" cs "''x''" 40 "''find''" "[]"]
  show ?thesis by (simp add: cs dot_name_def)
qed

text \<open>
  The build with directory streams prints the same paths and closes every stream.
\<close>

theorem find_host_prints_matches:
  assumes "host_kernel os extra node dirfd" "node path = Some (Node cs)"
    "paths_fit (FIND_MAXPATH os) (DIRSIZ os + 2) path (Node cs)" "fuel_of extra (Node cs) \<le> k"
  shows "\<exists>s'. find_host_main k os [prog, path, name] s = Some (0, List.map Match (found path name (Node cs)), s') \<and>
    dirfd s' = dirfd s"
  using host_kernel.find_host_prints [OF assms] by (simp add: find_host_main_def)

text \<open>A path that is too long for the buffer is written behind its end.\<close>

theorem find_long_path_overruns:
  assumes "native_kernel os extra node dirfd" "node path = Some (Node cs)" "FIND_BUF < length path + 2" "0 < k"
  shows "find_main k os [prog, path, name] s = None"
  using native_kernel.find_long [OF assms] by (simp add: find_main_def)

end
