(* ===== verification/Commands.thy ===== *)
theory Commands
  imports Ulib
begin

section \<open>Small commands: mount, umount, losetup, kill, ps, lsblk, mknod, mkdir, ln, echo, free, sleep, sync\<close>

text \<open>
  A command reads its arguments, makes system calls and exits.  Its model gives the calls in their
  order and the exit status; what the kernel answers is a function of the calls made before and the
  call.  Messages are left out.  The bits of the mount flags and the other constants of the kernel's
  headers are parameters.
\<close>

datatype call =
    Mount "string option" string string "64 word"
  | Umount string
  | Losetup int int "string option"
  | Kill int int
  | Dumpproc int int
  | Dumpblk int
  | Mknod string bool int int
  | Mkdir string
  | Hardlink string string
  | Memstat "64 word"
  | Sleep int
  | Sync
  | Write string

type_synonym answers = "call list \<Rightarrow> call \<Rightarrow> int"

subsection \<open>mount, umount\<close>

text \<open>The positions of the bits in the flags.\<close>

record mount_bits =
  MS_REMOUNT :: nat
  MS_MOVE :: nat
  MS_RDONLY :: nat
  MS_NOATIME :: nat
  MS_NOSUID :: nat
  MS_NODEV :: nat
  MS_NOEXEC :: nat

fun my_strncmp :: "string \<Rightarrow> string \<Rightarrow> nat \<Rightarrow> int" where
  "my_strncmp a b 0 = 0"
| "my_strncmp a b (Suc n) =
     (if deref a \<noteq> deref b then uc (deref a) - uc (deref b)
      else if deref a = NUL then 0
      else my_strncmp (tl a) (tl b) n)"

definition flag :: "nat \<Rightarrow> 64 word" where
  "flag b = push_bit b 1"

text \<open>One option: \<open>len\<close> bytes from \<open>start\<close> on.\<close>

definition option_step :: "mount_bits \<Rightarrow> string \<Rightarrow> nat \<Rightarrow> 64 word \<Rightarrow> 64 word" where
  "option_step ms start len flags =
     (if len = 7 \<and> my_strncmp start ''remount'' 7 = 0 then flags OR flag (MS_REMOUNT ms)
      else if len = 4 \<and> my_strncmp start ''move'' 4 = 0 then flags OR flag (MS_MOVE ms)
      else if len = 2 \<and> my_strncmp start ''ro'' 2 = 0 then flags OR flag (MS_RDONLY ms)
      else if len = 2 \<and> my_strncmp start ''rw'' 2 = 0 then flags AND NOT (flag (MS_RDONLY ms))
      else if len = 7 \<and> my_strncmp start ''noatime'' 7 = 0 then flags OR flag (MS_NOATIME ms)
      else if len = 6 \<and> my_strncmp start ''nosuid'' 6 = 0 then flags OR flag (MS_NOSUID ms)
      else if len = 5 \<and> my_strncmp start ''nodev'' 5 = 0 then flags OR flag (MS_NODEV ms)
      else if len = 6 \<and> my_strncmp start ''noexec'' 6 = 0 then flags OR flag (MS_NOEXEC ms)
      else flags)"

lemma rest_shrinks: "p \<noteq> [] \<Longrightarrow> length (if dropWhile P p \<noteq> [] then tl (dropWhile P p) else dropWhile P p) < length p"
  using rest_less [of p P] by (cases "dropWhile P p = []") (simp_all only: if_True if_False not_not simp_thms list.size length_greater_0_conv)

function options_loop :: "mount_bits \<Rightarrow> string \<Rightarrow> 64 word \<Rightarrow> 64 word" where
  "options_loop ms p flags =
     (if p = [] then flags
      else (let rest = dropWhile (\<lambda>c. c \<noteq> CHR '','') p;
                flags = option_step ms p (length p - length rest) flags
            in options_loop ms (if rest \<noteq> [] then tl rest else rest) flags))"
  by pat_completeness auto
termination
proof (relation "measure (\<lambda>(ms, p, flags). length p)")
  fix ms p x and flags xa :: "64 word"
  assume "p \<noteq> []" "x = dropWhile (\<lambda>c. c \<noteq> CHR '','') p"
  then have "length (if x \<noteq> [] then tl x else x) < length p"
    using rest_shrinks by blast
  then show "((ms :: mount_bits, if x \<noteq> [] then tl x else x, xa), ms, p, flags) \<in> measure (\<lambda>(ms, p, flags). length p)"
    by (simp only: in_measure prod.case)
qed simp

declare options_loop.simps [simp del]

definition parse_options :: "mount_bits \<Rightarrow> string option \<Rightarrow> 64 word" where
  "parse_options ms opts = (case opts of None \<Rightarrow> 0 | Some p \<Rightarrow> options_loop ms p 0)"

record mount_args =
  ma_source :: "string option"
  ma_target :: "string option"
  ma_fstype :: "string option"
  ma_options :: "string option"

fun mount_args_loop :: "string list \<Rightarrow> mount_args \<Rightarrow> mount_args" where
  "mount_args_loop [] a = a"
| "mount_args_loop (w # ws) a =
     (if w = ''-o'' \<and> ws \<noteq> [] then mount_args_loop (tl ws) (a\<lparr>ma_options := Some (hd ws)\<rparr>)
      else mount_args_loop ws
        (if ma_source a = None then a\<lparr>ma_source := Some w\<rparr>
         else if ma_target a = None then a\<lparr>ma_target := Some w\<rparr>
         else if ma_fstype a = None then a\<lparr>ma_fstype := Some w\<rparr>
         else a))"

definition mount_main :: "mount_bits \<Rightarrow> answers \<Rightarrow> string list \<Rightarrow> call list \<times> int" where
  "mount_main ms ans argv =
     (let a = mount_args_loop (tl argv) \<lparr>ma_source = None, ma_target = None, ma_fstype = None, ma_options = None\<rparr>
      in case ma_target a of
           None \<Rightarrow> ([], 1)
         | Some target \<Rightarrow>
             (let c = Mount (ma_source a) target (case ma_fstype a of None \<Rightarrow> [] | Some t \<Rightarrow> t) (parse_options ms (ma_options a))
              in ([c], if ans [] c < 0 then 1 else 0)))"

definition umount_main :: "answers \<Rightarrow> string list \<Rightarrow> call list \<times> int" where
  "umount_main ans argv =
     (if length argv \<noteq> 2 then ([], 1)
      else ([Umount (argv ! 1)], if ans [] (Umount (argv ! 1)) < 0 then 1 else 0))"

subsection \<open>losetup\<close>

definition num_step :: "32 word \<Rightarrow> char \<Rightarrow> 32 word" where
  "num_step num c = num * 10 + word_of_int (sc c - 48)"

definition parse_loop_num :: "string \<Rightarrow> int" where
  "parse_loop_num dev =
     (let p = (if take 5 dev = ''/dev/'' then drop 5 dev else dev)
      in if take 4 p \<noteq> ''loop'' then - 1
         else (let p = drop 4 p
           in if p = [] then - 1
              else if dropWhile is_digit p \<noteq> [] then - 1
              else sint (foldl num_step 0 (takeWhile is_digit p))))"

definition losetup_main :: "answers \<Rightarrow> string list \<Rightarrow> call list \<times> int" where
  "losetup_main ans argv =
     (if length argv = 1 then ([Losetup 2 0 None], 0)
      else if length argv = 3 \<and> deref (argv ! 1) = CHR ''-'' \<and> deref (tl (argv ! 1)) = CHR ''d'' then
        (let num = parse_loop_num (argv ! 2); c = Losetup 1 num None
         in if num < 0 then ([], 1) else ([c], if ans [] c < 0 then 1 else 0))
      else if length argv = 3 then
        (let num = parse_loop_num (argv ! 1); c = Losetup 0 num (Some (argv ! 2))
         in if num < 0 then ([], 1) else ([c], if ans [] c < 0 then 1 else 0))
      else ([], 1))"

subsection \<open>kill\<close>

text \<open>The first loop: the signal, or \<^const>\<open>None\<close> for a bad one.\<close>

fun kill_signal :: "int \<Rightarrow> string list \<Rightarrow> int \<Rightarrow> int option" where
  "kill_signal NSIG [] signo = Some signo"
| "kill_signal NSIG (w # ws) signo =
     (if deref w = CHR ''-'' then
        (let signo = atoi (tl w) in if signo < 0 \<or> NSIG \<le> signo then None else kill_signal NSIG ws signo)
      else kill_signal NSIG ws signo)"

definition kill_main :: "int \<Rightarrow> int \<Rightarrow> string list \<Rightarrow> call list \<times> int" where
  "kill_main NSIG SIGKILL argv =
     (if length argv < 2 then ([], 1)
      else case kill_signal NSIG (tl argv) SIGKILL of
        None \<Rightarrow> ([], 1)
      | Some signo \<Rightarrow>
          (List.map (\<lambda>w. Kill (atoi w) signo) (List.filter (\<lambda>w. deref w \<noteq> CHR ''-'') (tl argv)), 0))"

subsection \<open>ps, lsblk\<close>

fun ps_loop :: "string list \<Rightarrow> int \<Rightarrow> int \<Rightarrow> (int \<times> int) option" where
  "ps_loop [] mode pid = Some (mode, pid)"
| "ps_loop (w # ws) mode pid =
     (if \<not> (deref w = CHR ''-'' \<and> length w = 2) then None
      else case (if w ! 1 = CHR ''l'' then Some 0 else if w ! 1 = CHR ''t'' then Some 1
                 else if w ! 1 = CHR ''s'' then Some 2 else if w ! 1 = CHR ''b'' then Some (3 :: int) else None) of
        None \<Rightarrow> None
      | Some mode \<Rightarrow>
          if 1 \<le> mode \<and> ws \<noteq> [] \<and> is_digit (deref (hd ws)) then ps_loop (tl ws) mode (atoi (hd ws))
          else ps_loop ws mode pid)"

definition ps_main :: "string list \<Rightarrow> call list \<times> int" where
  "ps_main argv = (case ps_loop (tl argv) 0 (- 1) of None \<Rightarrow> ([], 1) | Some (mode, pid) \<Rightarrow> ([Dumpproc mode pid], 0))"

definition lsblk_main :: "string list \<Rightarrow> call list \<times> int" where
  "lsblk_main argv =
     (if length argv \<le> 1 then ([Dumpblk 0], 0)
      else if argv ! 1 = ''-l'' then ([Dumpblk 1], 0)
      else if argv ! 1 = ''-a'' then ([Dumpblk 2], 0)
      else ([], 1))"

subsection \<open>mknod, mkdir, ln\<close>

text \<open>The second component of \<^const>\<open>Mknod\<close> says whether it is a block device.\<close>

definition mknod_main :: "answers \<Rightarrow> string list \<Rightarrow> call list \<times> int" where
  "mknod_main ans argv =
     (if length argv < 4 then ([], 1)
      else (let typed = (deref (argv ! 1) = CHR ''-''); kind = deref (tl (argv ! 1)); argidx = (if typed then 2 else 1);
                c = Mknod (argv ! argidx) (typed \<and> kind = CHR ''b'') (atoi (argv ! (argidx + 1))) (atoi (argv ! (argidx + 2)))
            in if typed \<and> kind \<noteq> CHR ''b'' \<and> kind \<noteq> CHR ''c'' then ([], 1)
               else if typed \<and> length argv < 5 then ([], 1)
               else ([c], if ans [] c < 0 then 1 else 0)))"

fun mkdir_loop :: "answers \<Rightarrow> string list \<Rightarrow> call list \<Rightarrow> call list" where
  "mkdir_loop ans [] calls = calls"
| "mkdir_loop ans (w # ws) calls =
     (if ans calls (Mkdir w) < 0 then calls @ [Mkdir w] else mkdir_loop ans ws (calls @ [Mkdir w]))"

definition mkdir_main :: "answers \<Rightarrow> string list \<Rightarrow> call list \<times> int" where
  "mkdir_main ans argv = (if length argv < 2 then ([], 1) else (mkdir_loop ans (tl argv) [], 0))"

definition ln_main :: "string list \<Rightarrow> call list \<times> int" where
  "ln_main argv = (if length argv \<noteq> 3 then ([], 1) else ([Hardlink (argv ! 1) (argv ! 2)], 0))"

subsection \<open>echo, free, sleep, sync\<close>

fun echo_loop :: "answers \<Rightarrow> string list \<Rightarrow> call list \<Rightarrow> call list \<times> int" where
  "echo_loop ans [] calls = (calls, 0)"
| "echo_loop ans (w # ws) calls =
     (let c = Write w; d = Write (if ws \<noteq> [] then '' '' else [CHR 0x0A])
      in if ans calls c < 0 then (calls @ [c], 1)
         else if ans (calls @ [c]) d < 0 then (calls @ [c, d], 1)
         else echo_loop ans ws (calls @ [c, d]))"

definition echo_main :: "answers \<Rightarrow> string list \<Rightarrow> call list \<times> int" where
  "echo_main ans argv = echo_loop ans (tl argv) []"

definition free_main :: "64 word \<Rightarrow> 64 word \<Rightarrow> string list \<Rightarrow> call list \<times> int" where
  "free_main base detailed argv =
     ([Memstat (foldl (\<lambda>flags w. if strcmp w ''-a'' = 0 then flags OR detailed else flags) base (tl argv))], 0)"

definition sleep_main :: "string list \<Rightarrow> call list \<times> int" where
  "sleep_main argv = (if length argv \<noteq> 2 then ([], 1) else ([Sleep (atoi (argv ! 1))], 0))"

definition sync_main :: "string list \<Rightarrow> call list \<times> int" where
  "sync_main argv = ([Sync], 0)"

subsection \<open>What they do\<close>

text \<open>The fields of the options between the commas.\<close>

fun fields :: "string \<Rightarrow> string list" where
  "fields [] = [[]]"
| "fields (c # s) = (if c = CHR '','' then [] # fields s else (c # hd (fields s)) # tl (fields s))"

lemma fields_nonempty [simp]: "fields s \<noteq> []"
  by (induction s) auto

lemma fields_first: "fields s = takeWhile (\<lambda>c. c \<noteq> CHR '','') s # (if CHR '','' \<in> set s then fields (tl (dropWhile (\<lambda>c. c \<noteq> CHR '','') s)) else [])"
  by (induction s) auto

definition word_step :: "mount_bits \<Rightarrow> 64 word \<Rightarrow> string \<Rightarrow> 64 word" where
  "word_step ms flags w =
     (if w = ''remount'' then flags OR flag (MS_REMOUNT ms) else if w = ''move'' then flags OR flag (MS_MOVE ms)
      else if w = ''ro'' then flags OR flag (MS_RDONLY ms) else if w = ''rw'' then flags AND NOT (flag (MS_RDONLY ms))
      else if w = ''noatime'' then flags OR flag (MS_NOATIME ms) else if w = ''nosuid'' then flags OR flag (MS_NOSUID ms)
      else if w = ''nodev'' then flags OR flag (MS_NODEV ms) else if w = ''noexec'' then flags OR flag (MS_NOEXEC ms)
      else flags)"

lemma my_strncmp_eq:
  "length a = n \<Longrightarrow> length b = n \<Longrightarrow> cstring a \<Longrightarrow> cstring b \<Longrightarrow> my_strncmp (a @ s) b n = 0 \<longleftrightarrow> a = b"
proof (induction n arbitrary: a b)
  case (Suc n)
  obtain x a' y b' where "a = x # a'" "b = y # b'" using Suc.prems(1,2) by (cases a; cases b) auto
  with Suc show ?case by (auto simp: cstring_def uc_eq_iff)
qed simp

lemma option_step_word:
  assumes "cstring p"
  shows "option_step ms p (length p - length (dropWhile (\<lambda>c. c \<noteq> CHR '','') p)) flags = word_step ms flags (takeWhile (\<lambda>c. c \<noteq> CHR '','') p)"
proof -
  let ?w = "takeWhile (\<lambda>c. c \<noteq> CHR '','') p"
  have len: "length p - length (dropWhile (\<lambda>c. c \<noteq> CHR '','') p) = length ?w"
    by (metis add_diff_cancel_right' length_append takeWhile_dropWhile_id)
  have c: "cstring ?w" using assms by (auto simp: cstring_def dest: set_takeWhileD)
  have eq: "(length ?w = n \<and> my_strncmp p b n = 0) = (?w = b)" if "length b = n" "cstring b" for b n
    using my_strncmp_eq [of ?w n b "dropWhile (\<lambda>c. c \<noteq> CHR '','') p"] c that by auto
  have words: "(length ?w = 7 \<and> my_strncmp p ''remount'' 7 = 0) = (?w = ''remount'')" "(length ?w = 4 \<and> my_strncmp p ''move'' 4 = 0) = (?w = ''move'')"
    "(length ?w = 2 \<and> my_strncmp p ''ro'' 2 = 0) = (?w = ''ro'')" "(length ?w = 2 \<and> my_strncmp p ''rw'' 2 = 0) = (?w = ''rw'')"
    "(length ?w = 7 \<and> my_strncmp p ''noatime'' 7 = 0) = (?w = ''noatime'')" "(length ?w = 6 \<and> my_strncmp p ''nosuid'' 6 = 0) = (?w = ''nosuid'')"
    "(length ?w = 5 \<and> my_strncmp p ''nodev'' 5 = 0) = (?w = ''nodev'')" "(length ?w = 6 \<and> my_strncmp p ''noexec'' 6 = 0) = (?w = ''noexec'')"
    by (rule eq; simp add: cstring_def)+
  show ?thesis
    unfolding option_step_def word_step_def len words by (rule refl)
qed

lemma options_loop_fields: "cstring p \<Longrightarrow> options_loop ms p flags = foldl (word_step ms) flags (fields p)"
proof (induction ms p flags rule: options_loop.induct)
  case (1 ms p flags)
  show ?case
  proof (cases "p = []")
    case True
    then show ?thesis by (simp add: options_loop.simps [of ms "[]"] word_step_def)
  next
    case False
    let ?rest = "dropWhile (\<lambda>c. c \<noteq> CHR '','') p"
    let ?flags = "option_step ms p (length p - length ?rest) flags"
    have c: "cstring (if ?rest \<noteq> [] then tl ?rest else ?rest)"
      using "1.prems" by (simp add: cstring_parts)
    have "options_loop ms p flags = options_loop ms (if ?rest \<noteq> [] then tl ?rest else ?rest) ?flags"
      using False by (simp add: options_loop.simps [of ms p] Let_def)
    also have "\<dots> = foldl (word_step ms) ?flags (fields (if ?rest \<noteq> [] then tl ?rest else ?rest))"
      using "1.IH" [OF False refl refl c] .
    also have "\<dots> = foldl (word_step ms) flags (fields p)"
    proof (cases "CHR '','' \<in> set p")
      case True
      then show ?thesis using option_step_word [OF "1.prems"] fields_first [of p] by auto
    next
      case False
      then have rest: "?rest = []" by auto
      have "fields p = [takeWhile (\<lambda>c. c \<noteq> CHR '','') p]" using fields_first [of p] False by simp
      moreover have "word_step ms w [] = w" for w by (simp add: word_step_def)
      ultimately show ?thesis using option_step_word [OF "1.prems"] by (simp add: rest del: dropWhile_eq_Nil_conv takeWhile_eq_all_conv)
    qed
    finally show ?thesis .
  qed
qed

text \<open>The words and the bits they set; \<open>ro\<close> and \<open>rw\<close> set and clear a bit of their own.\<close>

definition option_bits :: "mount_bits \<Rightarrow> (string \<times> nat) list" where
  "option_bits ms = [(''remount'', MS_REMOUNT ms), (''move'', MS_MOVE ms), (''noatime'', MS_NOATIME ms),
     (''nosuid'', MS_NOSUID ms), (''nodev'', MS_NODEV ms), (''noexec'', MS_NOEXEC ms)]"

definition bits_ok :: "mount_bits \<Rightarrow> bool" where
  "bits_ok ms \<longleftrightarrow> distinct (MS_RDONLY ms # List.map snd (option_bits ms)) \<and> (\<forall>b\<in>set (MS_RDONLY ms # List.map snd (option_bits ms)). b < 64)"

lemma bit_flag [simp]: "b < 64 \<Longrightarrow> bit (flag b) n \<longleftrightarrow> n = b"
  by (auto simp: flag_def bit_simps)

lemma word_step_map:
  "word_step ms flags x = (case map_of (option_bits ms) x of Some b \<Rightarrow> flags OR flag b
     | None \<Rightarrow> if x = ''ro'' then flags OR flag (MS_RDONLY ms) else if x = ''rw'' then flags AND NOT (flag (MS_RDONLY ms)) else flags)"
  by (simp add: word_step_def option_bits_def)

lemma option_names: "map_of (option_bits ms) ''ro'' = None" "map_of (option_bits ms) ''rw'' = None" "distinct (List.map fst (option_bits ms))"
  by (simp_all add: option_bits_def)

lemma distinct_values: "distinct (List.map snd xs) \<Longrightarrow> (w, b) \<in> set xs \<Longrightarrow> (x, b) \<in> set xs \<Longrightarrow> w = x"
  by (induction xs) force+

lemma word_step_bits:
  assumes "bits_ok ms"
  shows "(w, b) \<in> set (option_bits ms) \<Longrightarrow> bit (word_step ms flags x) b \<longleftrightarrow> bit flags b \<or> x = w"
    and "bit (word_step ms flags x) (MS_RDONLY ms) \<longleftrightarrow> (if x = ''ro'' then True else if x = ''rw'' then False else bit flags (MS_RDONLY ms))"
proof -
  let ?bs = "option_bits ms"
  have bits: "b < 64 \<and> b \<noteq> MS_RDONLY ms" if "(w, b) \<in> set ?bs" for w b
    using assms that by (force simp: bits_ok_def)
  have ro: "MS_RDONLY ms < 64" using assms by (simp add: bits_ok_def)
  have inj: "w = x" if "(w, b) \<in> set ?bs" "(x, b) \<in> set ?bs" for w x b
    using distinct_values [of ?bs] assms that by (simp add: bits_ok_def)
  show "bit (word_step ms flags x) b \<longleftrightarrow> bit flags b \<or> x = w" if "(w, b) \<in> set ?bs"
  proof (cases "map_of ?bs x")
    case None
    then have "x \<noteq> w" using that by (force simp: map_of_eq_None_iff)
    with None bits [OF that] ro show ?thesis by (auto simp: word_step_map bit_simps)
  next
    case (Some b')
    then have x: "(x, b') \<in> set ?bs" by (rule map_of_SomeD)
    have "b = b' \<Longrightarrow> x = w" using inj [OF that] x by blast
    moreover have "x = w \<Longrightarrow> b = b'" using map_of_is_SomeI [OF option_names(3) that] Some by simp
    ultimately have "b = b' \<longleftrightarrow> x = w" by blast
    with Some bits [OF x] show ?thesis by (auto simp: word_step_map bit_simps)
  qed
  show "bit (word_step ms flags x) (MS_RDONLY ms) \<longleftrightarrow> (if x = ''ro'' then True else if x = ''rw'' then False else bit flags (MS_RDONLY ms))"
  proof (cases "map_of ?bs x")
    case None
    with ro show ?thesis by (auto simp: word_step_map bit_simps)
  next
    case (Some b')
    then have "x \<noteq> ''ro''" "x \<noteq> ''rw''" using option_names(1,2) by auto
    with Some bits [OF map_of_SomeD [OF Some]] show ?thesis by (auto simp: word_step_map bit_simps)
  qed
qed

lemma foldl_word_bits:
  assumes "bits_ok ms" "(w, b) \<in> set (option_bits ms)"
  shows "bit (foldl (word_step ms) 0 ws) b \<longleftrightarrow> w \<in> set ws"
  by (induction ws rule: rev_induct) (auto simp: word_step_bits(1) [OF assms])

lemma foldl_word_rdonly:
  assumes "bits_ok ms"
  shows "bit (foldl (word_step ms) 0 ws) (MS_RDONLY ms) \<longleftrightarrow> (\<exists>pre post. ws = pre @ ''ro'' # post \<and> ''rw'' \<notin> set post)"
proof (induction ws rule: rev_induct)
  case (snoc x ws)
  have "(\<exists>pre post. ws @ [x] = pre @ ''ro'' # post \<and> ''rw'' \<notin> set post) \<longleftrightarrow>
      x = ''ro'' \<or> x \<noteq> ''rw'' \<and> (\<exists>pre post. ws = pre @ ''ro'' # post \<and> ''rw'' \<notin> set post)" (is "?L \<longleftrightarrow> ?R")
  proof
    assume ?L
    then obtain pre post where "ws @ [x] = pre @ ''ro'' # post" "''rw'' \<notin> set post" by blast
    then show ?R by (cases post rule: rev_cases) auto
  next
    assume ?R
    then show ?L
    proof
      assume "x = ''ro''"
      then show ?L by (intro exI [of _ ws] exI [of _ "[]"]) simp
    next
      assume "x \<noteq> ''rw'' \<and> (\<exists>pre post. ws = pre @ ''ro'' # post \<and> ''rw'' \<notin> set post)"
      then obtain pre post where "x \<noteq> ''rw''" "ws = pre @ ''ro'' # post" "''rw'' \<notin> set post" by blast
      then show ?L by (intro exI [of _ pre] exI [of _ "post @ [x]"]) simp
    qed
  qed
  with snoc show ?case by (simp add: word_step_bits(2) [OF assms])
qed simp

text \<open>
  \<open>mount\<close> asks for exactly the options between the commas: a flag is set just when its word is
  among them, and the mount is read-only just when an \<open>ro\<close> has no \<open>rw\<close> behind it.  It calls
  \<open>mount\<close> once, or not at all when there is no target, and its status is the answer.
\<close>

theorem mount_options_meaning:
  assumes "bits_ok ms" "cstring opts"
    and "mount_main ms ans (prog # ''-o'' # opts # source # target # rest) = (calls, status)"
    and "source \<noteq> ''-o''" "target \<noteq> ''-o''"
  shows "\<exists>fstype flags. calls = [Mount (Some source) target fstype flags] \<and>
    status = (if ans [] (Mount (Some source) target fstype flags) < 0 then 1 else 0) \<and>
    (''-o'' \<notin> set rest \<longrightarrow>
      (\<forall>(w, b)\<in>set (option_bits ms). bit flags b \<longleftrightarrow> w \<in> set (fields opts)) \<and>
      (bit flags (MS_RDONLY ms) \<longleftrightarrow> (\<exists>pre post. fields opts = pre @ ''ro'' # post \<and> ''rw'' \<notin> set post)))"
proof -
  have keep: "ma_source (mount_args_loop ws a) = ma_source a \<and> ma_target (mount_args_loop ws a) = ma_target a \<and>
      (''-o'' \<notin> set ws \<longrightarrow> ma_options (mount_args_loop ws a) = ma_options a)"
    if "ma_source a \<noteq> None" "ma_target a \<noteq> None" for ws a
    using that by (induction ws a rule: mount_args_loop.induct) (auto dest: list.set_sel(2))
  let ?a = "mount_args_loop rest \<lparr>ma_source = Some source, ma_target = Some target, ma_fstype = None, ma_options = Some opts\<rparr>"
  have a: "ma_source ?a = Some source" "ma_target ?a = Some target" "''-o'' \<notin> set rest \<Longrightarrow> ma_options ?a = Some opts"
    using keep [of "\<lparr>ma_source = Some source, ma_target = Some target, ma_fstype = None, ma_options = Some opts\<rparr>" rest] by simp_all
  let ?flags = "parse_options ms (ma_options ?a)"
  have flags: "''-o'' \<notin> set rest \<Longrightarrow> ?flags = foldl (word_step ms) 0 (fields opts)"
    using a(3) options_loop_fields [OF assms(2)] by (simp add: parse_options_def)
  show ?thesis
  proof (intro exI conjI impI)
    show "calls = [Mount (Some source) target (case ma_fstype ?a of None \<Rightarrow> [] | Some t \<Rightarrow> t) ?flags]"
      "status = (if ans [] (Mount (Some source) target (case ma_fstype ?a of None \<Rightarrow> [] | Some t \<Rightarrow> t) ?flags) < 0 then 1 else 0)"
      using assms(3-5) a by (auto simp: mount_main_def Let_def)
    assume "''-o'' \<notin> set rest"
    note f = flags [OF this]
    show "\<forall>(w, b)\<in>set (option_bits ms). bit ?flags b \<longleftrightarrow> w \<in> set (fields opts)"
      unfolding f using foldl_word_bits [OF assms(1)] by auto
    show "bit ?flags (MS_RDONLY ms) \<longleftrightarrow> (\<exists>pre post. fields opts = pre @ ''ro'' # post \<and> ''rw'' \<notin> set post)"
      unfolding f by (rule foldl_word_rdonly [OF assms(1)])
  qed
qed

definition linux_bits :: mount_bits where
  "linux_bits = \<lparr>MS_REMOUNT = 5, MS_MOVE = 13, MS_RDONLY = 0, MS_NOATIME = 10, MS_NOSUID = 1, MS_NODEV = 2, MS_NOEXEC = 3\<rparr>"

theorem mount_options_meaning_witness:
  "\<exists>flags. fst (mount_main linux_bits (\<lambda>cs c. 0) [''mount'', ''-o'', ''ro,nosuid'', ''dev'', ''/mnt'']) = [Mount (Some ''dev'') ''/mnt'' [] flags] \<and>
     bit flags (MS_RDONLY linux_bits)"
proof -
  obtain calls status where run: "mount_main linux_bits (\<lambda>cs c. 0) [''mount'', ''-o'', ''ro,nosuid'', ''dev'', ''/mnt''] = (calls, status)"
    by fastforce
  have "bits_ok linux_bits" "fields ''ro,nosuid'' = [] @ ''ro'' # [''nosuid'']" by code_simp+
  then obtain fstype flags where "calls = [Mount (Some ''dev'') ''/mnt'' fstype flags]" "bit flags (MS_RDONLY linux_bits)"
    using mount_options_meaning [OF _ _ run] by (fastforce simp: cstring_def)
  with run show ?thesis by (auto simp: mount_main_def)
qed

subsection \<open>losetup, kill, echo\<close>

lemma num_step_atoi: "num_step = atoi_step"
  by (rule ext)+ (simp add: num_step_def atoi_step_def add_diff_eq flip: wi_hom_sub)

text \<open>
  \<open>losetup\<close> takes \<open>loopN\<close> and \<open>/dev/loopN\<close> for the number N, and refuses every other name.
\<close>

theorem parse_loop_num_accepts:
  assumes "pre = [] \<or> pre = ''/dev/''" "ds \<noteq> []" "\<forall>c\<in>set ds. is_digit c" "dec_value ds < 2 ^ 31"
  shows "parse_loop_num (pre @ ''loop'' @ ds) = int (dec_value ds)"
proof -
  have t: "takeWhile is_digit ds = ds" "dropWhile is_digit ds = []" using assms(3) by (simp_all add: takeWhile_eq_all_conv)
  then have "sint (foldl num_step 0 ds) = int (dec_value ds)"
    using atoi_run_value [of ds, unfolded t(1)] assms(4) by (simp only: atoi_def atoi_loop_foldl num_step_atoi t(1))
  moreover have "parse_loop_num (pre @ ''loop'' @ ds) = sint (foldl num_step 0 (takeWhile is_digit ds))"
    using assms(1-3) by (auto simp: parse_loop_num_def Let_def)
  ultimately show ?thesis by (simp only: t(1))
qed

lemma prefix_split: "take n xs = ys \<Longrightarrow> xs = ys @ drop n xs"
  by auto

lemma parse_loop_num_refuses:
  assumes "0 \<le> parse_loop_num dev"
  shows "\<exists>pre ds. (pre = [] \<or> pre = ''/dev/'') \<and> dev = pre @ ''loop'' @ ds \<and> ds \<noteq> [] \<and> (\<forall>c\<in>set ds. is_digit c)"
proof -
  define p where "p = (if take 5 dev = ''/dev/'' then drop 5 dev else dev)"
  have "take 4 p = ''loop''" "drop 4 p \<noteq> []" "\<forall>c\<in>set (drop 4 p). is_digit c"
    using assms by (auto simp: parse_loop_num_def p_def [symmetric] Let_def split: if_splits)
  moreover have "p = take 4 p @ drop 4 p" by simp
  ultimately have p: "p = ''loop'' @ drop 4 p" "drop 4 p \<noteq> [] \<and> (\<forall>c\<in>set (drop 4 p). is_digit c)" by simp_all
  have "dev = (if take 5 dev = ''/dev/'' then ''/dev/'' else []) @ p"
    using prefix_split [of 5 dev "''/dev/''"] by (cases "take 5 dev = ''/dev/''") (simp_all only: p_def if_True if_False append_Nil refl simp_thms)
  then have "dev = (if take 5 dev = ''/dev/'' then ''/dev/'' else []) @ ''loop'' @ drop 4 p"
    using p(1) by (simp only:)
  with p(2) show ?thesis
    by (intro exI [of _ "if take 5 dev = ''/dev/'' then ''/dev/'' else []"] exI [of _ "drop 4 p"] conjI) (blast | simp only: split: if_split)+
qed

text \<open>A number beyond 32 bits wraps, so another device is used.\<close>

theorem parse_loop_num_wraps: "parse_loop_num ''loop4294967296'' = 0"
  by code_simp

lemma kill_signal_last:
  "kill_signal NSIG ws d =
     (let opts = List.filter (\<lambda>w. deref w = CHR ''-'') ws
      in if \<forall>w\<in>set opts. 0 \<le> atoi (tl w) \<and> atoi (tl w) < NSIG
         then Some (if opts = [] then d else atoi (tl (last opts))) else None)"
  by (induction NSIG ws d rule: kill_signal.induct) (auto simp: Let_def)

text \<open>
  C36. \<open>kill\<close> sends nothing when an option is a bad signal; otherwise every process named gets the signal of
  the last option, or \<open>SIGKILL\<close> without one, in the order of the arguments.
\<close>

theorem kill_sends_last_signal:
  assumes "opts = List.filter (\<lambda>w. deref w = CHR ''-'') ws" "ws \<noteq> []"
  shows "kill_main NSIG SIGKILL (prog # ws) =
    (if \<forall>w\<in>set opts. 0 \<le> atoi (tl w) \<and> atoi (tl w) < NSIG
     then (List.map (\<lambda>w. Kill (atoi w) (if opts = [] then SIGKILL else atoi (tl (last opts))))
             (List.filter (\<lambda>w. deref w \<noteq> CHR ''-'') ws), 0)
     else ([], 1))"
  using assms by (simp add: kill_main_def kill_signal_last Let_def)

theorem kill_sends_last_signal_witness:
  "kill_main 32 9 [''kill'', ''-2'', ''10'', ''-3'', ''11''] = ([Kill 10 3, Kill 11 3], 0)"
proof -
  have "atoi ''2'' = 2" "atoi ''3'' = 3" "atoi ''10'' = 10" "atoi ''11'' = 11" by code_simp+
  with kill_sends_last_signal [OF refl, of "[''-2'', ''10'', ''-3'', ''11'']" 32 9 "''kill''"] show ?thesis by simp
qed

fun written :: "call list \<Rightarrow> string" where
  "written [] = []"
| "written (Write t # cs) = t @ written cs"
| "written (_ # cs) = written cs"

definition joined :: "string list \<Rightarrow> string" where
  "joined ws = (if ws = [] then [] else concat (List.map (\<lambda>w. w @ '' '') (butlast ws)) @ last ws @ [CHR 0x0A])"

lemma written_append: "written (cs @ ds) = written cs @ written ds"
  by (induction cs rule: written.induct) auto

lemma echo_loop_writes:
  "\<forall>cs c. 0 \<le> ans cs c \<Longrightarrow> \<exists>cs. echo_loop ans ws calls = (calls @ cs, 0) \<and> written cs = joined ws"
proof (induction ws arbitrary: calls)
  case Nil
  then show ?case by (simp add: joined_def)
next
  case (Cons w ws)
  let ?two = "[Write w, Write (if ws \<noteq> [] then '' '' else [CHR 0x0A])]"
  obtain cs where "echo_loop ans ws (calls @ ?two) = ((calls @ ?two) @ cs, 0)" "written cs = joined ws"
    using Cons by blast
  with Cons.prems show ?case
    by (intro exI [of _ "?two @ cs"]) (auto simp: Let_def joined_def not_less [symmetric] written_append)
qed

text \<open>\<open>echo\<close> writes its arguments with blanks between them and a newline, when no write fails.\<close>

theorem echo_writes_arguments:
  assumes "\<forall>cs c. 0 \<le> ans cs c"
  shows "\<exists>calls. echo_main ans (prog # ws) = (calls, 0) \<and> written calls = joined ws"
  using echo_loop_writes [OF assms, of ws "[]"] by (auto simp: echo_main_def)

text \<open>\<open>mkdir\<close> stops at the first directory it cannot create, and reports success all the same.\<close>

theorem mkdir_hides_failure:
  assumes "ans [] (Mkdir d) < 0"
  shows "mkdir_main ans (prog # d # ds) = ([Mkdir d], 0)"
  using assms by (simp add: mkdir_main_def)

end
