(* ===== verification/Kprofile.thy ===== *)
theory Kprofile
  imports Top
begin

section \<open>kprofile.c: the maps of the sampled processes\<close>

text \<open>
  The part of the profiler that explains user addresses: it reads the memory maps of every sampled
  process, keeps them in a table of bounded size, attributes the samples to the maps and prints a
  ranking; and the options.  A slot of a table that is not used is \<^const>\<open>None\<close>.  The counters are
  numbers of events of one run and are natural numbers; addresses are 64-bit words.  The files of the
  kernel and the size of its ring of samples are parameters.
\<close>

definition KPROFILE_USERPC_MAP_PID_CAP :: nat where "KPROFILE_USERPC_MAP_PID_CAP = 64"
definition KPROFILE_USERPC_MAP_CAP :: nat where "KPROFILE_USERPC_MAP_CAP = 512"
definition KPROFILE_USERPC_MAP_PATH_LEN :: nat where "KPROFILE_USERPC_MAP_PATH_LEN = 160"
definition KPROFILE_USERPC_MAP_LINE_MAX :: nat where "KPROFILE_USERPC_MAP_LINE_MAX = 512"
definition KPROFILE_USERPC_MAP_SNAPSHOTS_PER_PID :: nat where "KPROFILE_USERPC_MAP_SNAPSHOTS_PER_PID = 4"
definition KPROFILE_USERPC_MODULE_PRINT_CAP :: nat where "KPROFILE_USERPC_MODULE_PRINT_CAP = 64"

abbreviation KPROFILE_UINT64_MAX :: "64 word" where "KPROFILE_UINT64_MAX \<equiv> - 1"

record pid_status =
  tgid :: int
  sampled_records :: nat
  last_counted_seq :: "64 word"
  last_sample_seq :: "64 word"
  last_scan_seq :: "64 word"
  snapshots :: nat
  open_failures :: nat
  read_failures :: nat
  lines_seen :: nat
  lines_stored :: nat
  last_error :: int

record map_entry =
  m_tgid :: int
  m_start :: "64 word"
  m_end :: "64 word"
  m_offset :: "64 word"
  m_major :: "64 word"
  m_minor :: "64 word"
  m_inode :: "64 word"
  m_perms :: string
  m_path :: string
  m_samples :: nat
  m_first :: "64 word"
  m_last :: "64 word"

record maps =
  pids :: "pid_status option list"
  entries :: "map_entry option list"
  pid_dropped :: nat
  map_dropped :: nat
  path_truncated :: nat
  line_truncated :: nat
  parse_failures :: nat
  attempted :: nat
  succeeded :: nat
  open_failed :: nat
  read_failed :: nat

definition userpc_maps_init :: maps where
  "userpc_maps_init = \<lparr>pids = replicate KPROFILE_USERPC_MAP_PID_CAP None, entries = replicate KPROFILE_USERPC_MAP_CAP None,
     pid_dropped = 0, map_dropped = 0, path_truncated = 0, line_truncated = 0, parse_failures = 0, attempted = 0,
     succeeded = 0, open_failed = 0, read_failed = 0\<rparr>"

subsection \<open>The table of processes\<close>

datatype slot = Present nat | Free nat | Full

fun pid_slot_loop :: "int \<Rightarrow> pid_status option list \<Rightarrow> nat \<Rightarrow> slot \<Rightarrow> slot" where
  "pid_slot_loop t [] i free = free"
| "pid_slot_loop t (x # xs) i free =
     (if x \<noteq> None \<and> tgid (the x) = t then Present i
      else pid_slot_loop t xs (Suc i) (if free = Full \<and> x = None then Free i else free))"

definition new_pid :: "int \<Rightarrow> pid_status" where
  "new_pid t = \<lparr>tgid = t, sampled_records = 0, last_counted_seq = 0, last_sample_seq = 0, last_scan_seq = 0, snapshots = 0,
     open_failures = 0, read_failures = 0, lines_seen = 0, lines_stored = 0, last_error = 0\<rparr>"

definition userpc_map_pid_slot :: "int \<Rightarrow> maps \<Rightarrow> nat option \<times> maps" where
  "userpc_map_pid_slot t m =
     (if t \<le> 0 then (None, m)
      else case pid_slot_loop t (pids m) 0 Full of
        Present i \<Rightarrow> (Some i, m)
      | Full \<Rightarrow> (None, m\<lparr>pid_dropped := pid_dropped m + 1\<rparr>)
      | Free i \<Rightarrow> (Some i, m\<lparr>pids := (pids m)[i := Some (new_pid t)]\<rparr>))"

subsection \<open>A line of a maps file\<close>

definition userpc_hex_digit :: "char \<Rightarrow> int" where
  "userpc_hex_digit c =
     (if sc (CHR ''0'') \<le> sc c \<and> sc c \<le> sc (CHR ''9'') then sc c - sc (CHR ''0'')
      else if sc (CHR ''a'') \<le> sc c \<and> sc c \<le> sc (CHR ''f'') then sc c - sc (CHR ''a'') + 10
      else if sc (CHR ''A'') \<le> sc c \<and> sc c \<le> sc (CHR ''F'') then sc c - sc (CHR ''A'') + 10
      else - 1)"

text \<open>The value and the string behind the delimiter.\<close>

fun hex_loop :: "char \<Rightarrow> string \<Rightarrow> 64 word \<Rightarrow> nat \<Rightarrow> (64 word \<times> string) option" where
  "hex_loop delim [] v digits = None"
| "hex_loop delim (c # p) v digits =
     (if c = delim then (if digits = 0 then None else Some (v, p))
      else (let d = userpc_hex_digit c in
        if d < 0 then None
        else if v > (KPROFILE_UINT64_MAX - word_of_int d) div 16 then None
        else hex_loop delim p (v * 16 + word_of_int d) (Suc digits)))"

definition userpc_parse_hex_until :: "char \<Rightarrow> string \<Rightarrow> (64 word \<times> string) option" where
  "userpc_parse_hex_until delim p = hex_loop delim p 0 0"

fun dec_loop :: "string \<Rightarrow> 64 word \<Rightarrow> (64 word \<times> string) option" where
  "dec_loop [] v = Some (v, [])"
| "dec_loop (c # p) v =
     (if is_digit c then
        (let d = word_of_int (sc c - sc (CHR ''0'')) in
         if v > (KPROFILE_UINT64_MAX - d) div 10 then None else dec_loop p (v * 10 + d))
      else Some (v, c # p))"

definition userpc_parse_dec_until_space :: "string \<Rightarrow> (64 word \<times> string) option" where
  "userpc_parse_dec_until_space p = (if p = [] \<or> \<not> is_digit (hd p) then None else dec_loop p 0)"

abbreviation blank_char :: "char \<Rightarrow> bool" where
  "blank_char c \<equiv> c = CHR '' '' \<or> c = CHR 0x09"

definition userpc_skip_spaces :: "string \<Rightarrow> string" where
  "userpc_skip_spaces p = dropWhile blank_char p"

fun copy_loop :: "nat \<Rightarrow> string \<Rightarrow> string \<Rightarrow> string \<times> bool" where
  "copy_loop dst_len [] dst = (dst, False)"
| "copy_loop dst_len (c # src) dst =
     (if c = CHR 0x0A \<or> c = CHR 0x0D then (dst, False)
      else if dst_len \<le> length dst + 1 then (dst, True)
      else copy_loop dst_len src (dst @ [if blank_char c then CHR ''_'' else c]))"

definition userpc_copy_sanitized_path :: "nat \<Rightarrow> string \<Rightarrow> string \<times> bool" where
  "userpc_copy_sanitized_path dst_len src = copy_loop dst_len (dropWhile blank_char src) []"

text \<open>The entry, and whether its path was cut.\<close>

definition userpc_parse_maps_line :: "string \<Rightarrow> (map_entry \<times> bool) option" where
  "userpc_parse_maps_line line = do {
     (start, p) \<leftarrow> userpc_parse_hex_until (CHR ''-'') line;
     (end_addr, p) \<leftarrow> userpc_parse_hex_until (CHR '' '') p;
     let p = userpc_skip_spaces p;
     (if length p < 4 \<or> (\<exists>c\<in>set (take 4 p). blank_char c) then None else Some ());
     let perms = take 4 p;
     let p = userpc_skip_spaces (drop 4 p);
     (offset, p) \<leftarrow> userpc_parse_hex_until (CHR '' '') p;
     let p = userpc_skip_spaces p;
     (dev_major, p) \<leftarrow> userpc_parse_hex_until (CHR '':'') p;
     (dev_minor, p) \<leftarrow> userpc_parse_hex_until (CHR '' '') p;
     let p = userpc_skip_spaces p;
     (inode, p) \<leftarrow> userpc_parse_dec_until_space p;
     let (path, was_cut) = userpc_copy_sanitized_path KPROFILE_USERPC_MAP_PATH_LEN (userpc_skip_spaces p);
     (if start < end_addr then
        Some (\<lparr>m_tgid = 0, m_start = start, m_end = end_addr, m_offset = offset, m_major = dev_major, m_minor = dev_minor,
          m_inode = inode, m_perms = perms, m_path = path, m_samples = 0, m_first = 0, m_last = 0\<rparr>, was_cut)
      else None)
   }"

subsection \<open>The table of maps\<close>

definition userpc_map_entry_same :: "map_entry option \<Rightarrow> map_entry \<Rightarrow> bool" where
  "userpc_map_entry_same x b \<longleftrightarrow>
     (case x of None \<Rightarrow> False
      | Some a \<Rightarrow> m_tgid a = m_tgid b \<and> m_start a = m_start b \<and> m_end a = m_end b \<and> m_offset a = m_offset b \<and>
          m_major a = m_major b \<and> m_minor a = m_minor b \<and> m_inode a = m_inode b \<and>
          strcmp (m_perms a) (m_perms b) = 0 \<and> strcmp (m_path a) (m_path b) = 0)"

fun store_loop :: "map_entry \<Rightarrow> map_entry option list \<Rightarrow> nat \<Rightarrow> slot \<Rightarrow> slot" where
  "store_loop e [] i free = free"
| "store_loop e (x # xs) i free =
     (if userpc_map_entry_same x e then Present i
      else store_loop e xs (Suc i) (if free = Full \<and> x = None then Free i else free))"

definition userpc_store_map_entry :: "map_entry \<Rightarrow> maps \<times> pid_status \<Rightarrow> maps \<times> pid_status" where
  "userpc_store_map_entry e s =
     (case s of (m, ps) \<Rightarrow>
        case store_loop e (entries m) 0 Full of
          Present i \<Rightarrow> (m, ps)
        | Full \<Rightarrow> (m\<lparr>map_dropped := map_dropped m + 1\<rparr>, ps)
        | Free i \<Rightarrow> (m\<lparr>entries := (entries m)[i := Some e]\<rparr>, ps\<lparr>lines_stored := lines_stored ps + 1\<rparr>))"

subsection \<open>Reading the maps of a process\<close>

text \<open>A complete line, with its newline if it has one.\<close>

definition take_line :: "string \<Rightarrow> maps \<times> pid_status \<Rightarrow> maps \<times> pid_status" where
  "take_line line s =
     (case s of (m, ps) \<Rightarrow>
        let ps = ps\<lparr>lines_seen := lines_seen ps + 1\<rparr> in
        case userpc_parse_maps_line (c_string line) of
          None \<Rightarrow> (m\<lparr>parse_failures := parse_failures m + 1\<rparr>, ps)
        | Some (e, was_cut) \<Rightarrow>
            (case userpc_store_map_entry (e\<lparr>m_tgid := tgid ps\<rparr>) (m, ps) of (m, ps) \<Rightarrow>
               (if was_cut then m\<lparr>path_truncated := path_truncated m + 1\<rparr> else m, ps)))"

text \<open>One byte: the line so far, whether the rest of a line is being discarded, and the tables.\<close>

type_synonym scan = "string \<times> bool \<times> maps \<times> pid_status"

definition scan_char :: "scan \<Rightarrow> char \<Rightarrow> scan" where
  "scan_char st c =
     (case st of (line, discarding, m, ps) \<Rightarrow>
        if discarding then (line, c \<noteq> CHR 0x0A, m, ps)
        else if KPROFILE_USERPC_MAP_LINE_MAX \<le> length line + 1 then ([], True, m\<lparr>line_truncated := line_truncated m + 1\<rparr>, ps)
        else (let line = line @ [c] in
          if c = CHR 0x0A then ([], False, take_line line (m, ps)) else (line, False, m, ps)))"

text \<open>
  An open file is the sequence of the answers to its reads: an error or some bytes.  The end of the
  sequence is the end of the file, as is a read of no byte.
\<close>

type_synonym map_files = "string \<Rightarrow> int + (int + string) list"

fun read_maps_loop :: "(int + string) list \<Rightarrow> scan \<Rightarrow> scan" where
  "read_maps_loop [] st = st"
| "read_maps_loop (Inl n # rs) st =
     (case st of (line, discarding, m, ps) \<Rightarrow>
        (line, discarding, m\<lparr>read_failed := read_failed m + 1\<rparr>,
         ps\<lparr>read_failures := read_failures ps + 1, last_error := n\<rparr>))"
| "read_maps_loop (Inr bs # rs) st = (if bs = [] then st else read_maps_loop rs (foldl scan_char st bs))"

definition last_line :: "scan \<Rightarrow> maps \<times> pid_status" where
  "last_line st =
     (case st of (line, discarding, m, ps) \<Rightarrow>
        if line \<noteq> [] \<and> \<not> discarding then take_line line (m, ps) else (m, ps))"

definition userpc_read_maps_for_pid :: "map_files \<Rightarrow> maps \<times> pid_status \<Rightarrow> (maps \<times> pid_status) option" where
  "userpc_read_maps_for_pid fs s =
     (case s of (m, ps) \<Rightarrow>
      if tgid ps \<le> 0 \<or> KPROFILE_USERPC_MAP_SNAPSHOTS_PER_PID \<le> snapshots ps \<or> last_scan_seq ps = last_sample_seq ps
      then Some (m, ps)
      else do {
        path \<leftarrow> print_into 64 ''/proc/%d/maps'' [VInt (word_of_int (tgid ps))];
        let m = m\<lparr>attempted := attempted m + 1\<rparr>;
        let ps = ps\<lparr>snapshots := snapshots ps + 1\<rparr>;
        Some (case fs path of
           Inl fd \<Rightarrow> (m\<lparr>open_failed := open_failed m + 1\<rparr>, ps\<lparr>open_failures := open_failures ps + 1, last_error := fd\<rparr>)
         | Inr rs \<Rightarrow>
             (case last_line (read_maps_loop rs ([], False, m, ps)) of (m, ps) \<Rightarrow>
                (m\<lparr>succeeded := succeeded m + 1\<rparr>, ps\<lparr>last_scan_seq := last_sample_seq ps\<rparr>)))
      })"

subsection \<open>The samples\<close>

record sample =
  r_tgid :: int
  r_seq :: "64 word"
  r_rip :: "64 word"

record snapshot =
  stored :: "64 word"
  capacity :: "64 word"
  records :: "sample list"

definition sample_count :: "nat \<Rightarrow> snapshot \<Rightarrow> nat" where
  "sample_count RING_CAP sn =
     (let count = stored sn;
          count = (if capacity sn < count then capacity sn else count);
          count = (if of_nat RING_CAP < count then of_nat RING_CAP else count)
      in unat count)"

definition counted :: "sample \<Rightarrow> bool" where
  "counted r \<longleftrightarrow> \<not> (r_tgid r \<le> 0 \<or> r_seq r = 0)"

definition count_sample :: "maps \<Rightarrow> sample \<Rightarrow> maps" where
  "count_sample m r =
     (if \<not> counted r then m
      else case userpc_map_pid_slot (r_tgid r) m of
        (None, m) \<Rightarrow> m
      | (Some i, m) \<Rightarrow>
          (case pids m ! i of None \<Rightarrow> m
           | Some ps \<Rightarrow>
               (let ps = (if last_counted_seq ps < r_seq r
                          then ps\<lparr>sampled_records := sampled_records ps + 1, last_counted_seq := r_seq r\<rparr> else ps);
                    ps = (if last_sample_seq ps < r_seq r then ps\<lparr>last_sample_seq := r_seq r\<rparr> else ps)
                in m\<lparr>pids := (pids m)[i := Some ps]\<rparr>)))"

fun scan_pids :: "map_files \<Rightarrow> nat list \<Rightarrow> maps \<Rightarrow> maps option" where
  "scan_pids fs [] m = Some m"
| "scan_pids fs (i # js) m =
     (case pids m ! i of
        None \<Rightarrow> scan_pids fs js m
      | Some ps \<Rightarrow>
          (case userpc_read_maps_for_pid fs (m, ps) of
             None \<Rightarrow> None
           | Some (m, ps) \<Rightarrow> scan_pids fs js (m\<lparr>pids := (pids m)[i := Some ps]\<rparr>)))"

definition collect_userpc_maps_from_snapshot :: "nat \<Rightarrow> map_files \<Rightarrow> snapshot \<Rightarrow> maps \<Rightarrow> maps option" where
  "collect_userpc_maps_from_snapshot RING_CAP fs sn m =
     scan_pids fs [0..<KPROFILE_USERPC_MAP_PID_CAP] (foldl count_sample m (take (sample_count RING_CAP sn) (records sn)))"

definition userpc_map_contains :: "map_entry option \<Rightarrow> sample \<Rightarrow> bool" where
  "userpc_map_contains x r \<longleftrightarrow>
     (case x of None \<Rightarrow> False | Some e \<Rightarrow> m_tgid e = r_tgid r \<and> m_start e \<le> r_rip r \<and> r_rip r < m_end e)"

definition hit :: "sample \<Rightarrow> map_entry \<Rightarrow> map_entry" where
  "hit r e = e\<lparr>m_samples := m_samples e + 1,
     m_first := (if m_first e = 0 \<or> r_seq r < m_first e then r_seq r else m_first e),
     m_last := (if m_last e < r_seq r then r_seq r else m_last e)\<rparr>"

fun attribute_sample :: "sample \<Rightarrow> map_entry option list \<Rightarrow> map_entry option list \<times> bool" where
  "attribute_sample r [] = ([], False)"
| "attribute_sample r (x # xs) =
     (if \<not> userpc_map_contains x r then (case attribute_sample r xs of (xs, found) \<Rightarrow> (x # xs, found))
      else (map_option (hit r) x # xs, True))"

definition attribute_step :: "map_entry option list \<times> nat \<Rightarrow> sample \<Rightarrow> map_entry option list \<times> nat" where
  "attribute_step s r =
     (case s of (es, unmapped) \<Rightarrow>
        if \<not> counted r then (es, unmapped)
        else (case attribute_sample r es of (es, found) \<Rightarrow> (es, if found then unmapped else unmapped + 1)))"

definition userpc_maps_attribute :: "nat \<Rightarrow> snapshot \<Rightarrow> maps \<Rightarrow> maps \<times> nat" where
  "userpc_maps_attribute RING_CAP sn m =
     (case foldl attribute_step
             (List.map (map_option (\<lambda>e. e\<lparr>m_samples := 0, m_first := 0, m_last := 0\<rparr>)) (entries m), 0)
             (take (sample_count RING_CAP sn) (records sn)) of
        (es, unmapped) \<Rightarrow> (m\<lparr>entries := es\<rparr>, unmapped))"

subsection \<open>The report\<close>

definition userpc_map_path :: "map_entry \<Rightarrow> string" where
  "userpc_map_path e = (if m_path e \<noteq> [] then m_path e else ''-'')"

text \<open>The next entry of the ranking: it has samples, and none before it has more of them or as many and a lower start.\<close>

fun best_loop :: "map_entry option list \<Rightarrow> bool list \<Rightarrow> nat list \<Rightarrow> nat option \<Rightarrow> nat option" where
  "best_loop es emitted [] best = best"
| "best_loop es emitted (i # js) best =
     (case es ! i of
        None \<Rightarrow> best_loop es emitted js best
      | Some e \<Rightarrow>
          if emitted ! i \<or> m_samples e = 0 then best_loop es emitted js best
          else (case best of
                  None \<Rightarrow> best_loop es emitted js (Some i)
                | Some b \<Rightarrow>
                    (let b_e = the (es ! b) in
                     if m_samples b_e < m_samples e \<or> (m_samples e = m_samples b_e \<and> m_start e < m_start b_e)
                     then best_loop es emitted js (Some i) else best_loop es emitted js best)))"

fun rank_loop :: "nat \<Rightarrow> map_entry option list \<Rightarrow> bool list \<Rightarrow> nat list" where
  "rank_loop 0 es emitted = []"
| "rank_loop (Suc n) es emitted =
     (case best_loop es emitted [0..<length es] None of
        None \<Rightarrow> []
      | Some b \<Rightarrow> b # rank_loop n es (emitted[b := True]))"

definition module_key :: "map_entry \<Rightarrow> string option" where
  "module_key e =
     (if strcmp (userpc_map_path e) ''-'' = 0
      then print_into 192 ''map:%ld/0x%lx-0x%lx/%s/0x%lx/%02lx:%02lx/%lu''
             [VLong (word_of_int (m_tgid e)), VLong (m_start e), VLong (m_end e), VStr (Some (m_perms e)),
              VLong (m_offset e), VLong (m_major e), VLong (m_minor e), VLong (m_inode e)]
      else Some (userpc_map_path e))"

abbreviation count_arg :: "nat \<Rightarrow> arg" where
  "count_arg n \<equiv> VLong (of_nat n)"

definition module_line :: "nat \<times> map_entry \<Rightarrow> event option" where
  "module_line r =
     (case r of (rank, e) \<Rightarrow> map_option (\<lambda>key.
        Say (''kprofile-userpc-module: rank=%d tgid=%ld module=%s range=0x%lx-0x%lx perms=%s offset=0x%lx ''
             @ ''dev=%02lx:%02lx inode=%lu samples=%lu first_seq=%lu last_seq=%lu module_key=%s'' @ [CHR 0x0A])
          [VInt (of_nat rank), VLong (word_of_int (m_tgid e)), VStr (Some (userpc_map_path e)), VLong (m_start e),
           VLong (m_end e), VStr (Some (m_perms e)), VLong (m_offset e), VLong (m_major e), VLong (m_minor e),
           VLong (m_inode e), count_arg (m_samples e), VLong (m_first e), VLong (m_last e), VStr (Some key)])
        (module_key e))"

definition map_line :: "map_entry \<Rightarrow> event" where
  "map_line e =
     Say (''kprofile-userpc-map: tgid=%ld start=0x%lx end=0x%lx perms=%s offset=0x%lx dev=%02lx:%02lx inode=%lu ''
          @ ''samples=%lu first_seq=%lu last_seq=%lu path=%s'' @ [CHR 0x0A])
       [VLong (word_of_int (m_tgid e)), VLong (m_start e), VLong (m_end e), VStr (Some (m_perms e)), VLong (m_offset e),
        VLong (m_major e), VLong (m_minor e), VLong (m_inode e), count_arg (m_samples e), VLong (m_first e),
        VLong (m_last e), VStr (Some (userpc_map_path e))]"

definition pid_line :: "pid_status \<Rightarrow> event" where
  "pid_line p =
     Say (''kprofile-userpc-map-pid: tgid=%ld sampled_records=%lu last_sample_seq=%lu snapshots=%lu open_failures=%lu ''
          @ ''read_failures=%lu last_error=%ld lines_seen=%lu lines_stored=%lu'' @ [CHR 0x0A])
       [VLong (word_of_int (tgid p)), count_arg (sampled_records p), VLong (last_sample_seq p), count_arg (snapshots p),
        count_arg (open_failures p), count_arg (read_failures p), VLong (word_of_int (last_error p)),
        count_arg (lines_seen p), count_arg (lines_stored p)]"

definition used :: "'a option list \<Rightarrow> 'a list" where
  "used xs = List.map the (filter (\<lambda>x. x \<noteq> None) xs)"

definition maps_status_line :: "maps \<Rightarrow> nat \<Rightarrow> event" where
  "maps_status_line m unmapped =
     Say (''kprofile-userpc-maps: status=%s sampled_pids=%lu pids=%lu pid_dropped=%lu maps=%lu map_dropped=%lu attempts=%lu ''
          @ ''succeeded=%lu open_failed=%lu read_failed=%lu parse_failures=%lu path_truncated=%lu line_truncated=%lu ''
          @ ''unmapped_samples=%lu source=proc_tgid_maps'' @ [CHR 0x0A])
       [VStr (Some (if used (entries m) \<noteq> [] then ''available'' else ''unavailable'')),
        count_arg (length (filter (\<lambda>p. sampled_records p \<noteq> 0) (used (pids m)))), count_arg (length (used (pids m))),
        count_arg (pid_dropped m), count_arg (length (used (entries m))), count_arg (map_dropped m), count_arg (attempted m),
        count_arg (succeeded m), count_arg (open_failed m), count_arg (read_failed m), count_arg (parse_failures m),
        count_arg (path_truncated m), count_arg (line_truncated m), count_arg unmapped]"

definition print_userpc_maps :: "nat \<Rightarrow> snapshot \<Rightarrow> maps option \<Rightarrow> event list option" where
  "print_userpc_maps RING_CAP sn maps =
     (case maps of
        None \<Rightarrow> Some [Say (''kprofile-userpc-maps: status=unavailable reason=no_cache'' @ [CHR 0x0A]) []]
      | Some m \<Rightarrow>
          (case userpc_maps_attribute RING_CAP sn m of (m, unmapped) \<Rightarrow>
             (let ranked = rank_loop KPROFILE_USERPC_MODULE_PRINT_CAP (entries m) (replicate KPROFILE_USERPC_MAP_CAP False) in
              map_option (\<lambda>modules. maps_status_line m unmapped # List.map pid_line (used (pids m)) @ List.map map_line (used (entries m)) @ modules)
                (those (List.map module_line (zip [1..<Suc (length ranked)] (List.map (\<lambda>i. the (entries m ! i)) ranked)))))))"

end
