(* ===== verification/KprofileMaps.thy ===== *)
theory KprofileMaps
  imports Kprofile TopFiles
begin

section \<open>kprofile.c: what the tables of maps hold\<close>

text \<open>
  A line of a maps file is read back field by field; a file gives the same tables however its bytes are cut
  into reads; the tables hold every map once, in the order of the files, until they are full; and every sample is
  attributed to the first map that contains its address.
\<close>

subsection \<open>Numbers\<close>

lemma unat_of_nat64: "n < 2 ^ 64 \<Longrightarrow> unat (of_nat n :: 64 word) = n"
  by (simp add: unsigned_of_nat take_bit_eq_mod)

text \<open>A digit that still fits passes the test for overflow.\<close>

lemma digit_fits:
  assumes "v * b + d < 2 ^ 64" "0 < b" "b < 2 ^ 64"
  shows "\<not> (- 1 - of_nat d) div of_nat b < (of_nat v :: 64 word)"
proof -
  have small: "d < 2 ^ 64" using assms(1) by linarith
  have vs: "v < 2 ^ 64"
  proof -
    have "v \<le> v * b" using assms(2) by simp
    then show ?thesis using assms(1) by linarith
  qed
  have "unat (- 1 - of_nat d :: 64 word) = 2 ^ 64 - 1 - d"
  proof -
    have "of_nat d \<le> (- 1 :: 64 word)" by simp
    then have "unat (- 1 - of_nat d :: 64 word) = unat (- 1 :: 64 word) - unat (of_nat d :: 64 word)"
      by (rule unat_sub)
    then show ?thesis using small by (simp add: unsigned_minus_1_eq_mask mask_eq_exp_minus_1 unat_of_nat64)
  qed
  then have "unat ((- 1 - of_nat d) div of_nat b :: 64 word) = (2 ^ 64 - 1 - d) div b"
    using assms(3) by (simp add: unat_div unat_of_nat64)
  moreover have "v \<le> (2 ^ 64 - 1 - d) div b"
  proof -
    have "v * b \<le> 2 ^ 64 - 1 - d" using assms(1) by linarith
    then show ?thesis using assms(2) by (simp add: less_eq_div_iff_mult_less_eq)
  qed
  ultimately show ?thesis using vs by (simp add: word_less_nat_alt unat_of_nat64)
qed

text \<open>The value of digits in a base, read from the left.\<close>

definition digits_value :: "nat \<Rightarrow> (char \<Rightarrow> int) \<Rightarrow> nat \<Rightarrow> string \<Rightarrow> nat" where
  "digits_value b dig v ds = foldl (\<lambda>v c. v * b + nat (dig c)) v ds"

lemma digits_value_simps:
  "digits_value b dig v [] = v" "digits_value b dig v (c # ds) = digits_value b dig (v * b + nat (dig c)) ds"
  by (simp_all add: digits_value_def)

lemma digits_value_ge: "0 < b \<Longrightarrow> v \<le> digits_value b dig v ds"
proof (induction ds arbitrary: v)
  case (Cons c ds)
  have "v \<le> v * b + nat (dig c)" using Cons.prems by (simp add: trans_le_add1)
  also have "\<dots> \<le> digits_value b dig (v * b + nat (dig c)) ds" using Cons by blast
  finally show ?case by (simp add: digits_value_simps)
qed (simp add: digits_value_simps)

abbreviation hex_value :: "string \<Rightarrow> nat" where
  "hex_value \<equiv> digits_value 16 userpc_hex_digit 0"

definition hex_number :: "string \<Rightarrow> bool" where
  "hex_number ds \<longleftrightarrow> ds \<noteq> [] \<and> (\<forall>c\<in>set ds. 0 \<le> userpc_hex_digit c) \<and> hex_value ds < 2 ^ 64"

definition dec_number :: "string \<Rightarrow> bool" where
  "dec_number ds \<longleftrightarrow> ds \<noteq> [] \<and> (\<forall>c\<in>set ds. is_digit c) \<and> dec_value ds < 2 ^ 64"

lemma hex_loop_digits:
  assumes "\<forall>c\<in>set ds. 0 \<le> userpc_hex_digit c" "userpc_hex_digit delim < 0"
    "digits_value 16 userpc_hex_digit v ds < 2 ^ 64" "0 < n + length ds"
  shows "hex_loop delim (ds @ delim # p) (of_nat v) n = Some (of_nat (digits_value 16 userpc_hex_digit v ds), p)"
  using assms
proof (induction ds arbitrary: v n)
  case (Cons c ds)
  obtain d where d: "userpc_hex_digit c = int d" using Cons.prems(1) nonneg_int_cases by auto
  have "v * 16 + d < 2 ^ 64"
    using Cons.prems(3) digits_value_ge [of 16 "v * 16 + d" userpc_hex_digit ds] by (simp add: digits_value_simps d)
  then have fits: "\<not> (- 1 - of_nat d) div 16 < (of_nat v :: 64 word)"
    using digit_fits [of v 16 d] by simp
  have "c \<noteq> delim" using Cons.prems(1,2) by auto
  then have "hex_loop delim ((c # ds) @ delim # p) (of_nat v) n = hex_loop delim (ds @ delim # p) (of_nat v * 16 + of_nat d) (Suc n)"
    using fits by (simp add: Let_def d)
  also have "\<dots> = hex_loop delim (ds @ delim # p) (of_nat (v * 16 + d)) (Suc n)" by simp
  also have "\<dots> = Some (of_nat (digits_value 16 userpc_hex_digit (v * 16 + d) ds), p)"
    using Cons.prems by (intro Cons.IH) (simp_all add: digits_value_simps d)
  finally show ?case by (simp only: digits_value_simps d nat_int)
qed (simp add: digits_value_simps)

lemma parse_hex_number:
  "hex_number ds \<Longrightarrow> userpc_hex_digit delim < 0 \<Longrightarrow>
   userpc_parse_hex_until delim (ds @ delim # p) = Some (of_nat (hex_value ds), p)"
  using hex_loop_digits [of ds delim 0 0 p] by (simp add: userpc_parse_hex_until_def hex_number_def)

lemma dec_loop_digits:
  assumes "\<forall>c\<in>set ds. is_digit c" "foldl (\<lambda>n c. 10 * n + digit c) v ds < 2 ^ 64" "p = [] \<or> \<not> is_digit (hd p)"
  shows "dec_loop (ds @ p) (of_nat v) = Some (of_nat (foldl (\<lambda>n c. 10 * n + digit c) v ds), p)"
  using assms(1,2)
proof (induction ds arbitrary: v)
  case Nil
  then show ?case using assms(3) by (cases p) simp_all
next
  case (Cons c ds)
  have d: "word_of_int (sc c - sc (CHR ''0'')) = (of_nat (digit c) :: 64 word)"
  proof -
    have "sc c - sc (CHR ''0'') = int (digit c)" using Cons.prems(1) int_digit [of c] by (simp add: sc_uc uc_def)
    then show ?thesis by (simp only: of_int_of_nat_eq)
  qed
  have "10 * v + digit c \<le> foldl (\<lambda>n c. 10 * n + digit c) (10 * v + digit c) ds"
    unfolding foldl_dec by (simp add: trans_le_add1)
  then have "v * 10 + digit c < 2 ^ 64" using Cons.prems(2) by simp
  then have fits: "\<not> (- 1 - of_nat (digit c)) div 10 < (of_nat v :: 64 word)"
    using digit_fits [of v 10 "digit c"] by simp
  have "dec_loop ((c # ds) @ p) (of_nat v) = dec_loop (ds @ p) (of_nat v * 10 + of_nat (digit c))"
    using fits Cons.prems(1) by (simp add: Let_def d del: of_int_diff)
  also have "\<dots> = dec_loop (ds @ p) (of_nat (10 * v + digit c))" by (simp add: mult.commute)
  also have "\<dots> = Some (of_nat (foldl (\<lambda>n c. 10 * n + digit c) (10 * v + digit c) ds), p)"
    using Cons.prems by (intro Cons.IH) simp_all
  finally show ?case by simp
qed

lemma parse_dec_number:
  assumes "dec_number ds" "p = [] \<or> \<not> is_digit (hd p)"
  shows "userpc_parse_dec_until_space (ds @ p) = Some (of_nat (dec_value ds), p)"
  using dec_loop_digits [of ds 0 p] assms
  by (cases ds) (auto simp: userpc_parse_dec_until_space_def dec_number_def dec_value_def)

subsection \<open>A line\<close>

text \<open>A memory region as the kernel writes it; \<open>g_rest\<close> is what follows the number of the inode.\<close>

record region =
  g_start :: string
  g_end :: string
  g_perms :: string
  g_offset :: string
  g_major :: string
  g_minor :: string
  g_inode :: string
  g_rest :: string

definition region_line :: "region \<Rightarrow> string" where
  "region_line g = g_start g @ CHR ''-'' # g_end g @ CHR '' '' # g_perms g @ CHR '' '' # g_offset g @ CHR '' '' #
     g_major g @ CHR '':'' # g_minor g @ CHR '' '' # g_inode g @ g_rest g"

definition plain_text :: "string \<Rightarrow> bool" where
  "plain_text s \<longleftrightarrow> (\<forall>c\<in>set s. c \<noteq> NUL \<and> c \<noteq> CHR 0x0A \<and> c \<noteq> CHR 0x0D)"

lemma plain_text_simps:
  "plain_text []" "plain_text (s @ t) \<longleftrightarrow> plain_text s \<and> plain_text t"
  "plain_text (c # s) \<longleftrightarrow> c \<noteq> NUL \<and> c \<noteq> CHR 0x0A \<and> c \<noteq> CHR 0x0D \<and> plain_text s"
  by (auto simp: plain_text_def)

definition region_ok :: "region \<Rightarrow> bool" where
  "region_ok g \<longleftrightarrow> hex_number (g_start g) \<and> hex_number (g_end g) \<and> hex_value (g_start g) < hex_value (g_end g) \<and>
     length (g_perms g) = 4 \<and> plain_text (g_perms g) \<and> (\<forall>c\<in>set (g_perms g). \<not> blank_char c) \<and>
     hex_number (g_offset g) \<and> hex_number (g_major g) \<and> hex_number (g_minor g) \<and> dec_number (g_inode g) \<and>
     plain_text (g_rest g) \<and> (g_rest g = [] \<or> \<not> is_digit (hd (g_rest g)))"

definition path_text :: "region \<Rightarrow> string" where
  "path_text g = dropWhile blank_char (g_rest g)"

definition region_entry :: "int \<Rightarrow> region \<Rightarrow> map_entry" where
  "region_entry t g = \<lparr>m_tgid = t, m_start = of_nat (hex_value (g_start g)), m_end = of_nat (hex_value (g_end g)),
     m_offset = of_nat (hex_value (g_offset g)), m_major = of_nat (hex_value (g_major g)),
     m_minor = of_nat (hex_value (g_minor g)), m_inode = of_nat (dec_value (g_inode g)), m_perms = g_perms g,
     m_path = List.map (\<lambda>c. if blank_char c then CHR ''_'' else c) (take 159 (path_text g)),
     m_samples = 0, m_first = 0, m_last = 0\<rparr>"

lemma copy_loop_text:
  assumes "plain_text src" "length dst < n" "rest = [] \<or> hd rest = CHR 0x0A"
  shows "copy_loop n (src @ rest) dst =
    (dst @ List.map (\<lambda>c. if blank_char c then CHR ''_'' else c) (take (n - 1 - length dst) src), n - 1 - length dst < length src)"
  using assms(1,2)
proof (induction src arbitrary: dst)
  case Nil
  then show ?case using assms(3) by (cases rest) auto
next
  case (Cons c src)
  show ?case
  proof (cases "n \<le> length dst + 1")
    case True
    then show ?thesis using Cons.prems by (auto simp: plain_text_def)
  next
    case False
    have "n - 1 - length dst = Suc (n - 1 - length (dst @ [x]))" for x :: char
      using False by simp
    then show ?thesis using False Cons.IH [of "dst @ [if blank_char c then CHR ''_'' else c]"] Cons.prems
      by (auto simp: plain_text_def)
  qed
qed

lemma hex_delims:
  "userpc_hex_digit (CHR ''-'') < 0" "userpc_hex_digit (CHR '' '') < 0" "userpc_hex_digit (CHR '':'') < 0"
  "userpc_hex_digit (CHR 0x09) < 0"
  by code_simp+

lemma hex_not_blank: "hex_number ds \<Longrightarrow> \<not> blank_char (hd ds)"
  using hex_delims by (cases ds) (auto simp: hex_number_def)

lemma skip_to: "xs \<noteq> [] \<Longrightarrow> \<not> blank_char (hd xs) \<Longrightarrow> userpc_skip_spaces (xs @ ys) = xs @ ys"
  by (cases xs) (auto simp: userpc_skip_spaces_def)

lemma skip_hex: "hex_number ds \<Longrightarrow> userpc_skip_spaces (ds @ ys) = ds @ ys"
  using hex_not_blank by (intro skip_to) (auto simp: hex_number_def)

lemma skip_blank: "userpc_skip_spaces (CHR '' '' # p) = userpc_skip_spaces p"
  by (simp add: userpc_skip_spaces_def)

lemma digit_not_blank: "is_digit c \<Longrightarrow> \<not> blank_char c"
  by (auto simp: is_digit_def sc_def)

lemma skip_dec: "dec_number ds \<Longrightarrow> userpc_skip_spaces (ds @ ys) = ds @ ys"
  using digit_not_blank by (intro skip_to) (auto simp: dec_number_def)

lemma sanitized_rest:
  assumes "plain_text r" "nl = [] \<or> nl = [CHR 0x0A]"
  shows "userpc_copy_sanitized_path 160 (userpc_skip_spaces (r @ nl)) =
    (List.map (\<lambda>c. if blank_char c then CHR ''_'' else c) (take 159 (dropWhile blank_char r)), 159 < length (dropWhile blank_char r))"
proof -
  have drop: "dropWhile blank_char (s @ nl) = dropWhile blank_char s @ nl" for s
    using assms(2) by (induction s) auto
  have "dropWhile blank_char (dropWhile blank_char (r @ nl)) = dropWhile blank_char r @ nl"
    by (simp only: drop dropWhile_idem)
  moreover have "plain_text (dropWhile blank_char r)"
    using assms(1) set_dropWhileD by (fastforce simp: plain_text_def)
  ultimately show ?thesis
    using copy_loop_text [of "dropWhile blank_char r" "[]" 160 nl] assms(2)
    by (simp only: userpc_copy_sanitized_path_def userpc_skip_spaces_def) auto
qed

lemma parse_region_line:
  assumes ok: "region_ok g" and nl: "nl = [] \<or> nl = [CHR 0x0A]"
  shows "userpc_parse_maps_line (region_line g @ nl) = Some (region_entry 0 g, 159 < length (path_text g))"
proof -
  have numbers: "hex_number (g_start g)" "hex_number (g_end g)" "hex_number (g_offset g)" "hex_number (g_major g)"
    "hex_number (g_minor g)" "dec_number (g_inode g)" and order: "hex_value (g_start g) < hex_value (g_end g)"
    and perms: "length (g_perms g) = 4" "\<forall>c\<in>set (g_perms g). \<not> blank_char c"
    and plain: "plain_text (g_rest g)" "g_rest g = [] \<or> \<not> is_digit (hd (g_rest g))"
    using ok unfolding region_ok_def by blast+
  have "g_perms g \<noteq> []" using perms(1) by (cases "g_perms g") simp_all
  then have skip_perms: "userpc_skip_spaces (g_perms g @ p) = g_perms g @ p" for p
    using perms(2) hd_in_set by (intro skip_to) blast+
  have rest: "g_rest g @ nl = [] \<or> \<not> is_digit (hd (g_rest g @ nl))"
    using plain(2) nl by (cases "g_rest g") (auto simp: is_digit_def sc_def)
  have less: "(of_nat (hex_value (g_start g)) :: 64 word) < of_nat (hex_value (g_end g))"
  proof -
    have "hex_value (g_start g) < 2 ^ 64" "hex_value (g_end g) < 2 ^ 64"
      using numbers(1,2) by (simp_all add: hex_number_def)
    then show ?thesis using order by (simp only: word_less_nat_alt unat_of_nat64)
  qed
  have path: "userpc_copy_sanitized_path 160 (userpc_skip_spaces (g_rest g @ nl)) = (m_path (region_entry 0 g), 159 < length (path_text g))"
    using sanitized_rest [OF plain(1) nl] by (simp add: region_entry_def path_text_def)
  have fields: "userpc_parse_hex_until (CHR ''-'') (region_line g @ nl)
      = Some (of_nat (hex_value (g_start g)), g_end g @ CHR '' '' # g_perms g @ CHR '' '' # g_offset g @ CHR '' '' #
          g_major g @ CHR '':'' # g_minor g @ CHR '' '' # g_inode g @ g_rest g @ nl)"
    using parse_hex_number [OF numbers(1) hex_delims(1)] by (simp add: region_line_def)
  have four: "take 4 (g_perms g @ p) = g_perms g" "drop 4 (g_perms g @ p) = p" "\<not> length (g_perms g @ p) < 4" for p
    using perms(1) by simp_all
  show ?thesis
    unfolding userpc_parse_maps_line_def
    by (simp only: fields Option.bind.bind_lunit prod.case parse_hex_number [OF _ hex_delims(1)]
        parse_hex_number [OF _ hex_delims(2)] parse_hex_number [OF _ hex_delims(3)] numbers Let_def skip_perms four if_False
        skip_blank skip_hex skip_dec parse_dec_number [OF numbers(6) rest] KPROFILE_USERPC_MAP_PATH_LEN_def path less if_True)
      (use perms(2) in \<open>simp add: region_entry_def\<close>)
qed

subsection \<open>The table of maps\<close>

text \<open>
  The entries that are in use come first, each once.  A new entry goes behind them, while there is room.
\<close>

definition fresh_entry :: "map_entry \<Rightarrow> bool" where
  "fresh_entry e \<longleftrightarrow> cstring (m_perms e) \<and> cstring (m_path e) \<and> m_samples e = 0 \<and> m_first e = 0 \<and> m_last e = 0"

definition table :: "map_entry list \<Rightarrow> map_entry option list" where
  "table es = List.map Some es @ replicate (KPROFILE_USERPC_MAP_CAP - length es) None"

definition add_entry :: "map_entry \<Rightarrow> map_entry list \<Rightarrow> map_entry list" where
  "add_entry e es = (if e \<in> set es \<or> KPROFILE_USERPC_MAP_CAP \<le> length es then es else es @ [e])"

lemma entry_same_iff:
  "fresh_entry a \<Longrightarrow> fresh_entry b \<Longrightarrow> userpc_map_entry_same (Some a) b \<longleftrightarrow> a = b"
  by (auto simp: userpc_map_entry_same_def fresh_entry_def intro: map_entry.equality)

lemma entry_same_None: "\<not> userpc_map_entry_same None e"
  by (simp add: userpc_map_entry_same_def)

lemma store_loop_None:
  "store_loop e (replicate n None) i free = (if free = Full \<and> 0 < n then Free i else free)"
  by (induction n arbitrary: i free) (auto simp: entry_same_None)

lemma store_loop_table:
  assumes "\<forall>x\<in>set es. fresh_entry x" "fresh_entry e"
  shows "e \<notin> set es \<Longrightarrow> store_loop e (List.map Some es @ xs) i Full = store_loop e xs (i + length es) Full"
    and "e \<in> set es \<Longrightarrow> \<exists>j. store_loop e (List.map Some es @ xs) i Full = Present j"
  using assms
  by (induction es arbitrary: i) (auto simp: entry_same_iff)

lemma table_update: "length es < KPROFILE_USERPC_MAP_CAP \<Longrightarrow> (table es)[length es := Some e] = table (es @ [e])"
  by (simp add: table_def list_update_append Suc_diff_Suc replicate_Suc [symmetric] del: replicate_Suc)
    (cases "KPROFILE_USERPC_MAP_CAP - length es"; simp add: Suc_diff_Suc)

lemma store_table:
  assumes "\<forall>x\<in>set es. fresh_entry x" "fresh_entry e" "entries m = table es"
  shows "\<exists>d n. userpc_store_map_entry e (m, ps)
    = (m\<lparr>entries := table (add_entry e es), map_dropped := d\<rparr>, ps\<lparr>lines_stored := n\<rparr>)"
proof -
  have scan: "store_loop e (entries m) 0 Full = store_loop e (replicate (KPROFILE_USERPC_MAP_CAP - length es) None) (length es) Full"
    if "e \<notin> set es"
    using store_loop_table(1) [OF assms(1,2) that, of "replicate (KPROFILE_USERPC_MAP_CAP - length es) None" 0] assms(3)
    by (simp only: table_def add_0)
  consider "e \<in> set es" | "e \<notin> set es" "KPROFILE_USERPC_MAP_CAP \<le> length es" | "e \<notin> set es" "length es < KPROFILE_USERPC_MAP_CAP"
    by linarith
  then show ?thesis
  proof cases
    case 1
    then obtain j where "store_loop e (entries m) 0 Full = Present j"
      using store_loop_table(2) [OF assms(1,2)] assms(3) by (auto simp: table_def)
    moreover have "m\<lparr>entries := table es, map_dropped := map_dropped m\<rparr> = m" "ps\<lparr>lines_stored := lines_stored ps\<rparr> = ps"
      using assms(3) by (cases m, simp) (cases ps, simp)
    ultimately show ?thesis using 1
      by (intro exI [of _ "map_dropped m"] exI [of _ "lines_stored ps"]) (simp add: userpc_store_map_entry_def add_entry_def)
  next
    case 2
    moreover have "m\<lparr>entries := table es\<rparr> = m" "ps\<lparr>lines_stored := lines_stored ps\<rparr> = ps"
      using assms(3) by (cases m, simp) (cases ps, simp)
    ultimately show ?thesis
      using scan by (intro exI [of _ "map_dropped m + 1"] exI [of _ "lines_stored ps"])
        (simp add: userpc_store_map_entry_def add_entry_def store_loop_None)
  next
    case 3
    moreover have "m\<lparr>entries := t, map_dropped := map_dropped m\<rparr> = m\<lparr>entries := t\<rparr>" for t
      by (cases m) simp
    ultimately show ?thesis
      using scan table_update [of es e] assms(3)
      by (intro exI [of _ "map_dropped m"] exI [of _ "lines_stored ps + 1"])
        (simp add: userpc_store_map_entry_def add_entry_def store_loop_None)
  qed
qed

lemma region_entry_fresh: "region_ok g \<Longrightarrow> fresh_entry (region_entry t g)"
proof -
  assume ok: "region_ok g"
  then have "plain_text (g_perms g)" "plain_text (g_rest g)" unfolding region_ok_def by blast+
  moreover have "set (path_text g) \<subseteq> set (g_rest g)" by (auto simp: path_text_def dest: set_dropWhileD)
  ultimately show ?thesis
    by (fastforce simp: fresh_entry_def region_entry_def plain_text_def cstring_def dest: in_set_takeD)
qed

lemma region_line_plain: "region_ok g \<Longrightarrow> plain_text (region_line g)"
proof -
  assume ok: "region_ok g"
  have plain_hex: "plain_text ds" if "hex_number ds" for ds
  proof -
    have "userpc_hex_digit NUL < 0" "userpc_hex_digit (CHR 0x0A) < 0" "userpc_hex_digit (CHR 0x0D) < 0" by code_simp+
    then show ?thesis using that by (fastforce simp: plain_text_def hex_number_def)
  qed
  have "dec_number (g_inode g)" using ok unfolding region_ok_def by blast
  then have "plain_text (g_inode g)" by (auto simp: dec_number_def plain_text_def is_digit_def sc_def)
  moreover have "plain_text (g_start g)" "plain_text (g_end g)" "plain_text (g_offset g)" "plain_text (g_major g)"
    "plain_text (g_minor g)" "plain_text (g_perms g)" "plain_text (g_rest g)"
    using ok plain_hex unfolding region_ok_def by blast+
  ultimately show ?thesis by (simp add: region_line_def plain_text_simps)
qed

subsection \<open>Reading a file\<close>

lemma scan_within:
  "CHR 0x0A \<notin> set l \<Longrightarrow> length line + length l \<le> 511 \<Longrightarrow> foldl scan_char (line, False, m, ps) l = (line @ l, False, m, ps)"
  by (induction l arbitrary: line) (auto simp: scan_char_def KPROFILE_USERPC_MAP_LINE_MAX_def)

lemma scan_discarding:
  "CHR 0x0A \<notin> set l \<Longrightarrow> foldl scan_char (line, True, m, ps) l = (line, True, m, ps)"
  by (induction l) (auto simp: scan_char_def)

lemma scan_short:
  assumes "CHR 0x0A \<notin> set l" "length l \<le> 510"
  shows "foldl scan_char ([], False, m, ps) (l @ [CHR 0x0A]) = ([], False, take_line (l @ [CHR 0x0A]) (m, ps))"
  using assms by (simp add: scan_within) (simp add: scan_char_def KPROFILE_USERPC_MAP_LINE_MAX_def)

lemma scan_cut:
  assumes "CHR 0x0A \<notin> set l" "512 \<le> length l"
  shows "foldl scan_char ([], False, m, ps) (l @ [CHR 0x0A]) = ([], False, m\<lparr>line_truncated := line_truncated m + 1\<rparr>, ps)"
proof -
  obtain a c b where l: "l = a @ c # b" and a: "length a = 511"
    using assms(2) id_take_nth_drop [of 511 l] that [of "take 511 l" "l ! 511" "drop (Suc 511) l"] by simp
  have "foldl scan_char ([], False, m, ps) a = (a, False, m, ps)"
    using assms(1) a l scan_within [of a "[]" m ps] by simp
  moreover have "scan_char (a, False, m, ps) c = ([], True, m\<lparr>line_truncated := line_truncated m + 1\<rparr>, ps)"
    using a by (simp add: scan_char_def KPROFILE_USERPC_MAP_LINE_MAX_def)
  moreover have "foldl scan_char ([], True, m', ps) b = ([], True, m', ps)" for m'
    using assms(1) l by (intro scan_discarding) simp
  ultimately show ?thesis using l by (simp add: scan_char_def)
qed

text \<open>The newline of a line of 511 characters finds the buffer full: the next line is lost as well.\<close>

lemma scan_swallows:
  assumes "CHR 0x0A \<notin> set l" "length l = 511" "CHR 0x0A \<notin> set l2"
  shows "foldl scan_char ([], False, m, ps) ((l @ [CHR 0x0A]) @ (l2 @ [CHR 0x0A]))
    = ([], False, m\<lparr>line_truncated := line_truncated m + 1\<rparr>, ps)"
proof -
  have "foldl scan_char ([], False, m, ps) (l @ [CHR 0x0A]) = ([], True, m\<lparr>line_truncated := line_truncated m + 1\<rparr>, ps)"
    using assms(1,2) by (simp add: scan_within) (simp add: scan_char_def KPROFILE_USERPC_MAP_LINE_MAX_def)
  then show ?thesis using assms(3) by (simp add: scan_discarding) (simp add: scan_char_def)
qed

lemma read_chunks:
  "[] \<notin> set chunks \<Longrightarrow> read_maps_loop (List.map Inr chunks) st = foldl scan_char st (concat chunks)"
  by (induction chunks arbitrary: st) auto

definition region_text :: "region list \<Rightarrow> string" where
  "region_text gs = concat (List.map (\<lambda>g. region_line g @ [CHR 0x0A]) gs)"

abbreviation kept_line :: "region \<Rightarrow> bool" where
  "kept_line g \<equiv> length (region_line g) \<le> 510"

text \<open>The tables after the lines \<open>gs\<close>.\<close>

definition read_regions :: "region list \<Rightarrow> map_entry list \<Rightarrow> maps \<times> pid_status \<Rightarrow> maps \<times> pid_status \<Rightarrow> bool" where
  "read_regions gs es s s' \<longleftrightarrow> (case s of (m, ps) \<Rightarrow> (\<exists>d n. s' =
     (m\<lparr>entries := table (fold (\<lambda>g. add_entry (region_entry (tgid ps) g)) (filter kept_line gs) es), map_dropped := d,
        line_truncated := line_truncated m + length (filter (\<lambda>g. \<not> kept_line g) gs),
        path_truncated := path_truncated m + length (filter (\<lambda>g. 159 < length (path_text g)) (filter kept_line gs))\<rparr>,
      ps\<lparr>lines_seen := lines_seen ps + length (filter kept_line gs), lines_stored := n\<rparr>)))"

lemma take_region_line:
  assumes "region_ok g" "\<forall>x\<in>set es. fresh_entry x" "entries m = table es"
  shows "kept_line g \<Longrightarrow> read_regions [g] es (m, ps) (take_line (region_line g @ [CHR 0x0A]) (m, ps))"
proof -
  have "cstring (region_line g @ [CHR 0x0A])"
    using region_line_plain [OF assms(1)] by (auto simp: plain_text_def cstring_def)
  then have parsed: "userpc_parse_maps_line (c_string (region_line g @ [CHR 0x0A])) = Some (region_entry 0 g, 159 < length (path_text g))"
    using parse_region_line [OF assms(1), of "[CHR 0x0A]"] by simp
  have entry: "(region_entry 0 g)\<lparr>m_tgid := t\<rparr> = region_entry t g" for t by (simp add: region_entry_def)
  obtain d n where "userpc_store_map_entry (region_entry (tgid ps) g) (m, ps\<lparr>lines_seen := lines_seen ps + 1\<rparr>)
      = (m\<lparr>entries := table (add_entry (region_entry (tgid ps) g) es), map_dropped := d\<rparr>,
         ps\<lparr>lines_seen := lines_seen ps + 1\<rparr>\<lparr>lines_stored := n\<rparr>)"
    using store_table [OF assms(2) region_entry_fresh [OF assms(1)] assms(3)] by blast
  then have taken: "take_line (region_line g @ [CHR 0x0A]) (m, ps)
      = (m\<lparr>entries := table (add_entry (region_entry (tgid ps) g) es), map_dropped := d,
           line_truncated := line_truncated m, path_truncated := path_truncated m + (if 159 < length (path_text g) then 1 else 0)\<rparr>,
         ps\<lparr>lines_seen := lines_seen ps + 1, lines_stored := n\<rparr>)"
    by (cases m) (simp add: take_line_def Let_def parsed entry)
  show "kept_line g \<Longrightarrow> read_regions [g] es (m, ps) (take_line (region_line g @ [CHR 0x0A]) (m, ps))"
    unfolding read_regions_def prod.case taken
    by (rule exI [of _ d], rule exI [of _ n]) simp
qed

lemma scan_region_line:
  assumes "region_ok g" "\<forall>x\<in>set es. fresh_entry x" "entries m = table es" "length (region_line g) \<noteq> 511"
  obtains s where "foldl scan_char ([], False, m, ps) (region_line g @ [CHR 0x0A]) = ([], False, s)"
    "read_regions [g] es (m, ps) s"
proof -
  have nl: "CHR 0x0A \<notin> set (region_line g)"
    using region_line_plain [OF assms(1)] by (auto simp: plain_text_def)
  show thesis
  proof (cases "kept_line g")
    case True
    then show ?thesis using that [OF scan_short [OF nl]] take_region_line [OF assms(1-3)] by blast
  next
    case False
    then have "512 \<le> length (region_line g)" using assms(4) by simp
    moreover have "read_regions [g] es (m, ps) (m\<lparr>line_truncated := line_truncated m + 1\<rparr>, ps)"
      unfolding read_regions_def prod.case
      by (rule exI [of _ "map_dropped m"], rule exI [of _ "lines_stored ps"], cases m, cases ps)
        (use False assms(3) in simp)
    ultimately show ?thesis using that [OF scan_cut [OF nl]] by blast
  qed
qed

lemma add_entry_fresh:
  "\<forall>x\<in>set es. fresh_entry x \<Longrightarrow> fresh_entry e \<Longrightarrow> \<forall>x\<in>set (add_entry e es). fresh_entry x"
  by (auto simp: add_entry_def)

lemma scan_regions:
  assumes "\<forall>g\<in>set gs. region_ok g \<and> length (region_line g) \<noteq> 511" "\<forall>x\<in>set es. fresh_entry x" "entries m = table es"
  obtains s where "foldl scan_char ([], False, m, ps) (region_text gs) = ([], False, s)" "read_regions gs es (m, ps) s"
  using assms
proof (induction gs arbitrary: es m ps thesis)
  case Nil
  have "read_regions [] es (m, ps) (m, ps)"
    unfolding read_regions_def prod.case
    by (rule exI [of _ "map_dropped m"], rule exI [of _ "lines_stored ps"], cases m, cases ps) (use Nil.prems(4) in simp)
  then show ?case using Nil.prems(1) by (simp add: region_text_def)
next
  case (Cons g gs)
  let ?es = "if kept_line g then add_entry (region_entry (tgid ps) g) es else es"
  have g: "region_ok g" "length (region_line g) \<noteq> 511" using Cons.prems(2) by simp_all
  obtain m1 ps1 where s1: "foldl scan_char ([], False, m, ps) (region_line g @ [CHR 0x0A]) = ([], False, m1, ps1)"
      "read_regions [g] es (m, ps) (m1, ps1)"
    by (rule scan_region_line [OF g(1) Cons.prems(3,4) g(2), of ps]) (metis surj_pair)
  then obtain d n where d: "m1 = m\<lparr>entries := table ?es, map_dropped := d,
        line_truncated := line_truncated m + (if kept_line g then 0 else 1),
        path_truncated := path_truncated m + (if kept_line g \<and> 159 < length (path_text g) then 1 else 0)\<rparr>"
      "ps1 = ps\<lparr>lines_seen := lines_seen ps + (if kept_line g then 1 else 0), lines_stored := n\<rparr>"
    by (cases "kept_line g"; cases "159 < length (path_text g)") (auto simp: read_regions_def)
  have es: "\<forall>x\<in>set ?es. fresh_entry x"
    using Cons.prems(3) add_entry_fresh [OF Cons.prems(3) region_entry_fresh [OF g(1), of "tgid ps"]] by presburger
  have gs: "\<forall>g\<in>set gs. region_ok g \<and> length (region_line g) \<noteq> 511" using Cons.prems(2) by simp
  have m1: "entries m1 = table ?es" by (simp only: d(1)) simp
  obtain s2 where s2: "foldl scan_char ([], False, m1, ps1) (region_text gs) = ([], False, s2)" "read_regions gs ?es (m1, ps1) s2"
    by (rule Cons.IH [OF _ gs es m1])
  have "read_regions (g # gs) es (m, ps) s2"
    using s2(2) unfolding read_regions_def prod.case d by (auto simp: add.assoc)
  moreover have "foldl scan_char ([], False, m, ps) (region_text (g # gs)) = ([], False, s2)"
    using s1(1) s2(1) by (simp add: region_text_def)
  ultimately show ?case using Cons.prems(1) by blast
qed

text \<open>
  C37. Reading the maps of a process does not depend on how the bytes of the file arrive: the table gets the region of
  every line once, behind the entries it has and while it has room, with the numbers the line shows; a path of more
  than 159 characters is cut and counted; a line of 512 characters or more is dropped and counted.  (A line of exactly
  511 characters is not covered: it takes the next line with it.)
\<close>

theorem kprofile_reads_maps:
  assumes lines: "\<forall>g\<in>set gs. region_ok g \<and> length (region_line g) \<noteq> 511"
    and file_data: "fs (proc_path p ''maps'') = Inr (List.map Inr chunks)" "[] \<notin> set chunks" "concat chunks = region_text gs"
    and proc: "tgid ps = int p" "0 < p" "p < 2 ^ 31" "snapshots ps < 4" "last_scan_seq ps \<noteq> last_sample_seq ps"
    and tab: "entries m = table es" "\<forall>e\<in>set es. fresh_entry e"
  shows "\<exists>m' ps'. userpc_read_maps_for_pid fs (m, ps) = Some (m', ps')
    \<and> entries m' = table (fold (\<lambda>g. add_entry (region_entry (int p) g)) (filter (\<lambda>g. length (region_line g) \<le> 510) gs) es)
    \<and> line_truncated m' = line_truncated m + length (filter (\<lambda>g. 510 < length (region_line g)) gs)
    \<and> path_truncated m' = path_truncated m
        + length (filter (\<lambda>g. length (region_line g) \<le> 510 \<and> 159 < length (path_text g)) gs)
    \<and> parse_failures m' = parse_failures m \<and> succeeded m' = succeeded m + 1 \<and> snapshots ps' = snapshots ps + 1"
proof -
  let ?m = "m\<lparr>attempted := attempted m + 1\<rparr>" and ?ps = "ps\<lparr>snapshots := snapshots ps + 1\<rparr>"
  have path: "print_into 64 ''/proc/%d/maps'' [VInt (word_of_int (tgid ps))] = Some (proc_path p ''maps'')"
    using proc_path_printed [of p "''maps''"] proc(1,3) by simp
  obtain m1 ps1 where s: "foldl scan_char ([], False, ?m, ?ps) (region_text gs) = ([], False, m1, ps1)"
      "read_regions gs es (?m, ?ps) (m1, ps1)"
    by (rule scan_regions [OF lines tab(2), of ?m ?ps]) (use tab(1) in \<open>auto simp: prod_eq_iff\<close>)
  have "userpc_read_maps_for_pid fs (m, ps)
      = Some (m1\<lparr>succeeded := succeeded m1 + 1\<rparr>, ps1\<lparr>last_scan_seq := last_sample_seq ps1\<rparr>)"
    using proc path file_data s(1)
    by (simp add: userpc_read_maps_for_pid_def KPROFILE_USERPC_MAP_SNAPSHOTS_PER_PID_def Let_def read_chunks last_line_def)
  then show ?thesis
    using s(2) proc(1) by (auto simp: read_regions_def not_le conj_commute filter_filter)
qed

definition sample_region :: region where
  "sample_region = \<lparr>g_start = ''1000'', g_end = ''2fff'', g_perms = ''r-xp'', g_offset = ''0'', g_major = ''08'', g_minor = ''01'',
     g_inode = ''42'', g_rest = ''   /bin/a shell''\<rparr>"

definition sample_status :: pid_status where
  "sample_status = (new_pid 7)\<lparr>last_sample_seq := 3\<rparr>"

lemma sample_digits:
  "userpc_hex_digit (CHR ''0'') = 0" "userpc_hex_digit (CHR ''1'') = 1" "userpc_hex_digit (CHR ''2'') = 2"
  "userpc_hex_digit (CHR ''8'') = 8" "userpc_hex_digit (CHR ''f'') = 15"
  by code_simp+

lemma sample_region_ok: "region_ok sample_region"
  unfolding region_ok_def sample_region_def
  by (simp add: hex_number_def dec_number_def digits_value_simps sample_digits plain_text_simps)
    (simp add: is_digit_def digit_def sc_def)

lemma kprofile_reads_maps_witness:
  "\<exists>m ps. userpc_read_maps_for_pid (\<lambda>f. Inr [Inr ''1000-2f'', Inr (''ff r-xp 0 08:01 42   /bin/a shell'' @ [CHR 0x0A])])
      (userpc_maps_init, sample_status) = Some (m, ps)
    \<and> entries m = table [region_entry 7 sample_region]"
proof -
  let ?chunks = "[''1000-2f'', ''ff r-xp 0 08:01 42   /bin/a shell'' @ [CHR 0x0A]]"
  have lines: "\<forall>g\<in>set [sample_region]. region_ok g \<and> length (region_line g) \<noteq> 511"
    and kept: "filter (\<lambda>g. length (region_line g) \<le> 510) [sample_region] = [sample_region]"
    using sample_region_ok by (simp_all add: region_line_def sample_region_def)
  have cuts: "[] \<notin> set ?chunks" "concat ?chunks = region_text [sample_region]"
    by (simp_all add: region_text_def region_line_def sample_region_def)
  have tab: "entries userpc_maps_init = table []" "\<forall>e\<in>set ([] :: map_entry list). fresh_entry e"
    by (simp_all add: userpc_maps_init_def table_def)
  have proc: "tgid sample_status = int 7" "snapshots sample_status < 4" "last_scan_seq sample_status \<noteq> last_sample_seq sample_status"
    by (simp_all add: sample_status_def new_pid_def)
  have seven: "0 < (7 :: nat)" "7 < (2 :: nat) ^ 31" by simp_all
  have "\<exists>m ps. userpc_read_maps_for_pid (\<lambda>f. Inr (List.map Inr ?chunks)) (userpc_maps_init, sample_status) = Some (m, ps)
      \<and> entries m = table (fold (\<lambda>g. add_entry (region_entry (int 7) g)) (filter (\<lambda>g. length (region_line g) \<le> 510) [sample_region]) [])"
    using kprofile_reads_maps [where fs = "\<lambda>f. Inr (List.map Inr ?chunks)", OF lines refl cuts proc(1) seven proc(2,3) tab]
    by blast
  then show ?thesis unfolding kept by (simp add: add_entry_def KPROFILE_USERPC_MAP_CAP_def)
qed

subsection \<open>The samples\<close>

text \<open>The slot of the first map that contains the address of a sample.\<close>

definition owner :: "map_entry option list \<Rightarrow> sample \<Rightarrow> nat option" where
  "owner es r = find (\<lambda>i. userpc_map_contains (es ! i) r) [0..<length es]"

lemma find_shift: "find p (List.map f xs) = map_option f (find (p \<circ> f) xs)"
  by (induction xs) auto

lemma owner_Cons: "owner (x # es) r = (if userpc_map_contains x r then Some 0 else map_option Suc (owner es r))"
proof -
  have "[0..<length (x # es)] = 0 # List.map Suc [0..<length es]" by (simp add: upt_conv_Cons map_Suc_upt del: upt_Suc)
  then show ?thesis by (simp add: owner_def find_shift comp_def)
qed

lemma owner_less: "owner es r = Some i \<Longrightarrow> i < length es \<and> es ! i \<noteq> None"
  by (auto simp: owner_def find_Some_iff userpc_map_contains_def split: option.splits)

lemma attribute_sample_owner:
  "attribute_sample r es =
     (case owner es r of None \<Rightarrow> (es, False) | Some i \<Rightarrow> (es[i := map_option (hit r) (es ! i)], True))"
proof (induction es)
  case (Cons x es)
  then show ?case by (auto simp: owner_Cons split: option.splits)
qed (simp add: owner_def)

lemma contains_hit: "userpc_map_contains (map_option (hit r) x) = userpc_map_contains x"
  by (auto simp: userpc_map_contains_def hit_def split: option.splits)

lemma owner_cong:
  "length es = length es' \<Longrightarrow> (\<And>i. i < length es \<Longrightarrow> userpc_map_contains (es ! i) = userpc_map_contains (es' ! i)) \<Longrightarrow>
   owner es = owner es'"
  unfolding owner_def by (rule ext) (metis (no_types, lifting) find_cong atLeastLessThan_iff set_upt)

lemma owner_hit: "owner (es[i := map_option (hit r) (es ! i)]) = owner es"
proof (rule owner_cong)
  fix k
  assume "k < length (es[i := map_option (hit r) (es ! i)])"
  then show "userpc_map_contains (es[i := map_option (hit r) (es ! i)] ! k) = userpc_map_contains (es ! k)"
    by (cases "k = i") (simp_all add: contains_hit)
qed simp

lemma hit_samples: "m_samples (hit r e) = m_samples e + 1"
  by (simp add: hit_def)

text \<open>One map gets the sample, or none does.\<close>

lemma attribute_step_counts:
  assumes "attribute_step (es, u) r = (es', u')"
  shows "length es' = length es" "owner es' = owner es"
    "u' = u + (if counted r \<and> owner es r = None then 1 else 0)"
    "i < length es \<Longrightarrow> map_option m_samples (es' ! i)
       = map_option (\<lambda>e. m_samples e + (if counted r \<and> owner es r = Some i then 1 else 0)) (es ! i)"
proof -
  consider "\<not> counted r" "es' = es" "u' = u" | "counted r" "owner es r = None" "es' = es" "u' = u + 1"
    | k where "counted r" "owner es r = Some k" "es' = es[k := map_option (hit r) (es ! k)]" "u' = u"
    using assms by (auto simp: attribute_step_def attribute_sample_owner split: if_splits option.splits)
  then have "length es' = length es \<and> owner es' = owner es \<and> u' = u + (if counted r \<and> owner es r = None then 1 else 0)
    \<and> (i < length es \<longrightarrow> map_option m_samples (es' ! i)
       = map_option (\<lambda>e. m_samples e + (if counted r \<and> owner es r = Some i then 1 else 0)) (es ! i))"
  proof cases
    case (3 k)
    then show ?thesis
      by (cases "k = i") (simp_all add: owner_hit option.map_comp comp_def hit_samples)
  qed simp_all
  then show "length es' = length es" "owner es' = owner es"
    "u' = u + (if counted r \<and> owner es r = None then 1 else 0)"
    "i < length es \<Longrightarrow> map_option m_samples (es' ! i)
       = map_option (\<lambda>e. m_samples e + (if counted r \<and> owner es r = Some i then 1 else 0)) (es ! i)"
    by blast+
qed

lemma attribute_counts:
  assumes "foldl attribute_step (es, u) rs = (es', u')"
  shows "length es' = length es \<and> owner es' = owner es
    \<and> u' = u + length (filter (\<lambda>r. counted r \<and> owner es r = None) rs)
    \<and> (\<forall>i<length es. map_option m_samples (es' ! i)
         = map_option (\<lambda>e. m_samples e + length (filter (\<lambda>r. counted r \<and> owner es r = Some i) rs)) (es ! i))"
  using assms
proof (induction rs arbitrary: es u)
  case (Cons r rs)
  obtain es1 u1 where step: "attribute_step (es, u) r = (es1, u1)" by (rule prod.exhaust)
  note s = attribute_step_counts [OF step]
  have "foldl attribute_step (es1, u1) rs = (es', u')" using Cons.prems step by simp
  note rest = Cons.IH [OF this]
  have "map_option m_samples (es' ! i)
      = map_option (\<lambda>e. m_samples e + length (filter (\<lambda>r. counted r \<and> owner es r = Some i) (r # rs))) (es ! i)"
    if i: "i < length es" for i
  proof -
    have "map_option m_samples (es' ! i) = map_option (\<lambda>n. n + length (filter (\<lambda>r. counted r \<and> owner es r = Some i) rs))
        (map_option m_samples (es1 ! i))"
      using rest i s(1,2) by (simp add: option.map_comp comp_def)
    then show ?thesis by (simp add: s(4) [OF i] option.map_comp comp_def)
  qed
  then show ?case using rest s(1-3) by auto
qed (simp add: option.map_comp comp_def)

lemma count_owners:
  "length rs = length (filter (\<lambda>r. f r = None) rs)
     + (\<Sum>i<n. length (filter (\<lambda>r. f r = Some i) rs))" if "\<forall>r\<in>set rs. \<forall>i. f r = Some i \<longrightarrow> i < (n :: nat)"
  using that
proof (induction rs)
  case (Cons r rs)
  have "(\<Sum>i<n. length (filter (\<lambda>r. f r = Some i) (r # rs)))
      = (\<Sum>i<n. length (filter (\<lambda>r. f r = Some i) rs)) + (\<Sum>i<n. if f r = Some i then 1 else 0)"
    by (subst sum.distrib [symmetric]) (rule sum.cong; simp)
  moreover have "(\<Sum>i<n. if f r = Some i then 1 else 0) = (if f r = None then 0 else (1 :: nat))"
    using Cons.prems by (cases "f r") (auto simp: sum.delta')
  ultimately show ?case using Cons by auto
qed simp

text \<open>
  C38. Every sample that counts goes to exactly one place: the number of samples of a map is the number of those whose
  address it is the first to contain, and the unmapped ones are the rest; the numbers add up to the samples.
\<close>

theorem kprofile_attributes_samples:
  assumes "userpc_maps_attribute RING_CAP sn m = (m', unmapped)"
    and rs: "rs = filter counted (take (sample_count RING_CAP sn) (records sn))"
  shows "length (entries m') = length (entries m)
    \<and> unmapped = length (filter (\<lambda>r. owner (entries m) r = None) rs)
    \<and> (\<forall>i<length (entries m). map_option m_samples (entries m' ! i)
         = map_option (\<lambda>e. length (filter (\<lambda>r. owner (entries m) r = Some i) rs)) (entries m ! i))
    \<and> length rs = unmapped + (\<Sum>i<length (entries m). length (filter (\<lambda>r. owner (entries m) r = Some i) rs))"
proof -
  let ?clear = "\<lambda>e. e\<lparr>m_samples := 0, m_first := 0, m_last := 0\<rparr>"
  let ?es = "List.map (map_option ?clear) (entries m)"
  let ?all = "take (sample_count RING_CAP sn) (records sn)"
  have same: "owner ?es = owner (entries m)"
    by (rule owner_cong) (auto simp: userpc_map_contains_def split: option.splits)
  have counts: "length (filter (\<lambda>r. counted r \<and> P r) ?all) = length (filter P rs)" for P
    by (simp add: rs conj_commute)
  obtain es' where fold: "foldl attribute_step (?es, 0) ?all = (es', unmapped)" and m': "m' = m\<lparr>entries := es'\<rparr>"
    using assms(1) by (auto simp: userpc_maps_attribute_def split: prod.splits)
  have u: "unmapped = length (filter (\<lambda>r. owner (entries m) r = None) rs)"
    using attribute_counts [OF fold] by (simp only: same counts add_0)
  have "map_option m_samples (es' ! i) = map_option (\<lambda>e. length (filter (\<lambda>r. owner (entries m) r = Some i) rs)) (entries m ! i)"
    if "i < length (entries m)" for i
    using attribute_counts [OF fold] that
    by (simp only: same counts length_map) (simp add: option.map_comp comp_def)
  moreover have "length rs = length (filter (\<lambda>r. owner (entries m) r = None) rs)
      + (\<Sum>i<length (entries m). length (filter (\<lambda>r. owner (entries m) r = Some i) rs))"
    by (rule count_owners) (use owner_less in blast)
  ultimately show ?thesis using attribute_counts [OF fold] u by (simp add: m')
qed

lemma kprofile_attributes_samples_witness:
  "map_option m_samples (entries (fst (userpc_maps_attribute 8
       \<lparr>stored = 2, capacity = 4, records = [\<lparr>r_tgid = 7, r_seq = 1, r_rip = 6144\<rparr>, \<lparr>r_tgid = 7, r_seq = 2, r_rip = 5\<rparr>]\<rparr>
       (userpc_maps_init\<lparr>entries := [Some (region_entry 7 sample_region)]\<rparr>))) ! 0) = Some 1"
proof -
  have hex: "of_nat (hex_value (g_start sample_region)) = (4096 :: 64 word)" "of_nat (hex_value (g_end sample_region)) = (12287 :: 64 word)"
    by (simp_all add: sample_region_def digits_value_simps sample_digits)
  let ?a = "\<lparr>r_tgid = 7, r_seq = 1, r_rip = 6144\<rparr>" and ?b = "\<lparr>r_tgid = 7, r_seq = 2, r_rip = 5\<rparr>"
  let ?m = "userpc_maps_init\<lparr>entries := [Some (region_entry 7 sample_region)]\<rparr>"
  let ?sn = "\<lparr>stored = 2, capacity = 4, records = [?a, ?b]\<rparr>"
  have "userpc_map_contains (Some (region_entry 7 sample_region)) ?a" "\<not> userpc_map_contains (Some (region_entry 7 sample_region)) ?b"
    by (simp_all add: userpc_map_contains_def region_entry_def hex)
  then have owners: "owner (entries ?m) ?a = Some 0" "owner (entries ?m) ?b = None"
    by (simp_all add: owner_Cons) (simp add: owner_def)
  have rs: "[?a, ?b] = filter counted (take (sample_count 8 ?sn) (records ?sn))"
    by (simp add: sample_count_def counted_def)
  have "\<forall>i<length (entries ?m). map_option m_samples (entries (fst (userpc_maps_attribute 8 ?sn ?m)) ! i)
      = map_option (\<lambda>e. length (filter (\<lambda>r. owner (entries ?m) r = Some i) [?a, ?b])) (entries ?m ! i)"
    using kprofile_attributes_samples [OF prod.collapse [symmetric] rs] by blast
  then have "map_option m_samples (entries (fst (userpc_maps_attribute 8 ?sn ?m)) ! 0)
      = map_option (\<lambda>e. length (filter (\<lambda>r. owner (entries ?m) r = Some 0) [?a, ?b])) (entries ?m ! 0)"
    by simp
  then show ?thesis using owners by simp
qed

end
