(* ===== verification/KprofileWait.thy ===== *)
theory KprofileWait
  imports Kprofile PrintfTypes
begin

section \<open>kprofile.c: options, and waiting for the profiled command\<close>

text \<open>
  The command line, and the loop of \<open>main\<close> that samples the process group of the command until it ends or
  its time is up: then it sends \<open>SIGTERM\<close>, two seconds later \<open>SIGKILL\<close>, and four seconds later it gives up.
  One round of the loop sees one \<open>poll_info\<close>, the answers of the kernel in that round.  The numbers of the signals
  are parameters.
\<close>

unbundle bit_operations_syntax

subsection \<open>The command line\<close>

definition KPROFILE_USERPC_PERIOD_MAX :: "64 word" where "KPROFILE_USERPC_PERIOD_MAX = 2147483647"

fun uint_loop :: "string \<Rightarrow> 64 word \<Rightarrow> 64 word option" where
  "uint_loop [] v = Some v"
| "uint_loop (c # s) v =
     (if \<not> is_digit c then None
      else (let digit = word_of_int (sc c - sc (CHR ''0'')) in
        if v > (KPROFILE_UINT64_MAX - digit) div 10 then None else uint_loop s (v * 10 + digit)))"

definition parse_uint_arg :: "string \<Rightarrow> 64 word option" where
  "parse_uint_arg s = (if s = [] then None else uint_loop s 0)"

record kp_opts =
  profile_pgroup :: bool
  timeout_ms :: "64 word"
  userpc :: bool
  userpc_period :: "64 word"
  userpc_limit :: "64 word"
  vfs_enoent_attr :: bool

text \<open>The options and the arguments from \<open>cmd_index\<close> on.\<close>

fun kp_options_loop :: "nat \<Rightarrow> kp_opts \<Rightarrow> string list \<Rightarrow> (kp_opts \<times> string list) option" where
  "kp_options_loop RING_CAP opts [] = Some (opts, [])"
| "kp_options_loop RING_CAP opts (a # args) =
     (if strcmp a ''--system-only'' = 0 \<or> strcmp a ''--no-pgroup'' = 0
      then kp_options_loop RING_CAP (opts\<lparr>profile_pgroup := False\<rparr>) args
      else if strcmp a ''--pgroup'' = 0 then kp_options_loop RING_CAP (opts\<lparr>profile_pgroup := True\<rparr>) args
      else if strcmp a ''--timeout-ms'' = 0 then
        (case args of
           [] \<Rightarrow> None
         | x # args \<Rightarrow>
             (case parse_uint_arg x of
                None \<Rightarrow> None
              | Some v \<Rightarrow> kp_options_loop RING_CAP (opts\<lparr>timeout_ms := v\<rparr>) args))
      else if strcmp a ''--userpc'' = 0 then
        kp_options_loop RING_CAP (opts\<lparr>userpc := True, profile_pgroup := True\<rparr>) args
      else if strcmp a ''--userpc-period'' = 0 then
        (case args of
           [] \<Rightarrow> None
         | x # args \<Rightarrow>
             (case parse_uint_arg x of
                None \<Rightarrow> None
              | Some v \<Rightarrow>
                  if v = 0 \<or> KPROFILE_USERPC_PERIOD_MAX < v then None
                  else kp_options_loop RING_CAP (opts\<lparr>userpc_period := v, userpc := True, profile_pgroup := True\<rparr>) args))
      else if strcmp a ''--userpc-limit'' = 0 then
        (case args of
           [] \<Rightarrow> None
         | x # args \<Rightarrow>
             (case parse_uint_arg x of
                None \<Rightarrow> None
              | Some v \<Rightarrow>
                  if v = 0 \<or> of_nat RING_CAP < v then None
                  else kp_options_loop RING_CAP (opts\<lparr>userpc_limit := v, userpc := True, profile_pgroup := True\<rparr>) args))
      else if strcmp a ''--vfs-enoent-attr'' = 0 then kp_options_loop RING_CAP (opts\<lparr>vfs_enoent_attr := True\<rparr>) args
      else if strcmp a ''--'' = 0 then Some (opts, args)
      else Some (opts, a # args))"

definition kp_parse_options :: "nat \<Rightarrow> string list \<Rightarrow> (kp_opts \<times> string list) option" where
  "kp_parse_options RING_CAP argv =
     (case kp_options_loop RING_CAP
             \<lparr>profile_pgroup = True, timeout_ms = 0, userpc = False, userpc_period = 1, userpc_limit = 0, vfs_enoent_attr = False\<rparr>
             (tl argv) of
        None \<Rightarrow> None
      | Some (opts, command) \<Rightarrow>
          if command = [] then None
          else Some (if userpc opts then opts\<lparr>profile_pgroup := True\<rparr> else opts, command))"

subsection \<open>Capturing the samples\<close>

text \<open>The last snapshot that could be read, and the tables of maps if there was memory for them.\<close>

record captured =
  cap_snap :: "snapshot option"
  cap_maps :: "maps option"

definition capture_userpc_state :: "nat \<Rightarrow> map_files \<Rightarrow> snapshot option \<Rightarrow> captured \<Rightarrow> captured option" where
  "capture_userpc_state RING_CAP fs ring c =
     (let c = (case ring of None \<Rightarrow> c | Some sn \<Rightarrow> c\<lparr>cap_snap := Some sn\<rparr>) in
      case (cap_maps c, cap_snap c) of
        (Some m, Some sn) \<Rightarrow> map_option (\<lambda>m. c\<lparr>cap_maps := Some m\<rparr>) (collect_userpc_maps_from_snapshot RING_CAP fs sn m)
      | _ \<Rightarrow> Some c)"

subsection \<open>The loop\<close>

record 'g poll_info =
  i_group :: "'g option"
  i_ring :: "snapshot option"
  i_files :: map_files
  i_wait :: int
  i_status :: "32 word"
  i_now :: "64 word"
  i_ring_again :: "snapshot option"
  i_files_again :: map_files

datatype action = Control bool | Signal int int | Sleep

record 'g watch =
  w_status :: "32 word"
  pg_after :: "'g option"
  captures :: captured
  userpc_armed :: bool
  timeout_hit :: bool
  term_sent :: bool
  kill_sent :: bool
  actions :: "action list"

definition do_action :: "action \<Rightarrow> 'g watch \<Rightarrow> 'g watch" where
  "do_action a w = w\<lparr>actions := actions w @ [a]\<rparr>"

definition disarm_userpc_if_armed :: "'g watch \<Rightarrow> 'g watch" where
  "disarm_userpc_if_armed w = (if userpc_armed w then do_action (Control False) (w\<lparr>userpc_armed := False\<rparr>) else w)"

definition capture :: "nat \<Rightarrow> map_files \<Rightarrow> snapshot option \<Rightarrow> 'g watch \<Rightarrow> 'g watch option" where
  "capture RING_CAP fs ring w = map_option (\<lambda>c. w\<lparr>captures := c\<rparr>) (capture_userpc_state RING_CAP fs ring (captures w))"

text \<open>What precedes a signal.\<close>

definition stop_sampling :: "nat \<Rightarrow> kp_opts \<Rightarrow> 'g poll_info \<Rightarrow> 'g watch \<Rightarrow> 'g watch option" where
  "stop_sampling RING_CAP opts i w =
     (if userpc opts then map_option disarm_userpc_if_armed (capture RING_CAP (i_files_again i) (i_ring_again i) w)
      else Some w)"

text \<open>A round: the state, and whether the loop is left.\<close>

definition watch_round ::
    "nat \<Rightarrow> int \<Rightarrow> int \<Rightarrow> kp_opts \<Rightarrow> int \<Rightarrow> 64 word \<Rightarrow> 'g poll_info \<Rightarrow> 'g watch \<Rightarrow> ('g watch \<times> bool) option" where
  "watch_round RING_CAP SIGTERM SIGKILL opts cpid child_start_ms i w = do {
     let w = (if i_group i \<noteq> None then w\<lparr>pg_after := i_group i\<rparr> else w);
     w \<leftarrow> (if userpc opts then capture RING_CAP (i_files i) (i_ring i) w else Some w);
     if i_wait i = cpid then Some (w\<lparr>w_status := i_status i\<rparr>, True)
     else if i_wait i < 0 then Some (w\<lparr>w_status := push_bit 8 1\<rparr>, True)
     else (let elapsed = i_now i - child_start_ms in
       if timeout_ms opts \<noteq> 0 \<and> timeout_ms opts \<le> elapsed then
         (let w = w\<lparr>timeout_hit := True\<rparr> in
          if \<not> term_sent w then do {
            w \<leftarrow> stop_sampling RING_CAP opts i w;
            Some (do_action Sleep ((do_action (Signal (- cpid) SIGTERM) w)\<lparr>term_sent := True\<rparr>), False)
          }
          else if \<not> kill_sent w \<and> timeout_ms opts + 2000 \<le> elapsed then do {
            w \<leftarrow> stop_sampling RING_CAP opts i w;
            Some (do_action Sleep ((do_action (Signal (- cpid) SIGKILL) w)\<lparr>kill_sent := True\<rparr>), False)
          }
          else if kill_sent w \<and> timeout_ms opts + 4000 \<le> elapsed then Some (w, True)
          else Some (do_action Sleep w, False))
       else Some (do_action Sleep w, False))
   }"

text \<open>The state after the rounds, and whether the loop has been left.\<close>

fun watch_loop ::
    "nat \<Rightarrow> int \<Rightarrow> int \<Rightarrow> kp_opts \<Rightarrow> int \<Rightarrow> 64 word \<Rightarrow> 'g poll_info list \<Rightarrow> 'g watch \<Rightarrow> ('g watch \<times> bool) option" where
  "watch_loop RING_CAP SIGTERM SIGKILL opts cpid child_start_ms [] w = Some (w, False)"
| "watch_loop RING_CAP SIGTERM SIGKILL opts cpid child_start_ms (i # polls) w =
     (case watch_round RING_CAP SIGTERM SIGKILL opts cpid child_start_ms i w of
        None \<Rightarrow> None
      | Some (w, left) \<Rightarrow>
          if left then Some (w, True) else watch_loop RING_CAP SIGTERM SIGKILL opts cpid child_start_ms polls w)"

definition watch_start :: "'g option \<Rightarrow> maps option \<Rightarrow> bool \<Rightarrow> 'g watch" where
  "watch_start kgroup maps armed =
     \<lparr>w_status = 0, pg_after = kgroup, captures = \<lparr>cap_snap = None, cap_maps = maps\<rparr>, userpc_armed = armed, timeout_hit = False,
      term_sent = False, kill_sent = False, actions = []\<rparr>"

definition kp_exit_code :: "32 word \<Rightarrow> 32 word" where
  "kp_exit_code s = (if s AND 0xff = 0 then drop_bit 8 s AND 0xff else 1)"

subsection \<open>Capturing never fails\<close>

lemma maps_path_ok: "format_ok ''/proc/%d/maps'' [TInt]"
  by code_simp

lemma maps_path_printed: "print_into 64 ''/proc/%d/maps'' [VInt w] \<noteq> None"
  using format_ok_vsnprintf [of "''/proc/%d/maps''" "[VInt w]" 64 "replicate 64 NUL"] maps_path_ok
  by (simp add: print_into_def)

lemma read_maps_total: "userpc_read_maps_for_pid fs s \<noteq> None"
  using maps_path_printed [of "word_of_int (tgid (snd s))"]
  by (cases s) (auto simp: userpc_read_maps_for_pid_def Let_def)

lemma scan_pids_total: "scan_pids fs js m \<noteq> None"
proof (induction js arbitrary: m)
  case (Cons i js)
  show ?case
  proof (cases "pids m ! i")
    case (Some ps)
    obtain m' ps' where "userpc_read_maps_for_pid fs (m, ps) = Some (m', ps')"
      using read_maps_total [of fs "(m, ps)"] by fastforce
    then show ?thesis using Cons Some by simp
  qed (use Cons in simp)
qed simp

lemma capture_total: "\<exists>c. capture RING_CAP fs ring w = Some (w\<lparr>captures := c\<rparr>)"
proof -
  have "capture_userpc_state RING_CAP fs ring (captures w) \<noteq> None"
    using scan_pids_total
    by (auto simp: capture_userpc_state_def collect_userpc_maps_from_snapshot_def Let_def split: option.splits)
  then show ?thesis by (auto simp: capture_def)
qed

subsection \<open>The signals\<close>

definition sent :: "'g watch \<Rightarrow> (int \<times> int) list" where
  "sent w = concat (List.map (\<lambda>a. case a of Signal p s \<Rightarrow> [(p, s)] | _ \<Rightarrow> []) (actions w))"

lemma sent_simps:
  "sent (do_action (Signal p s) w) = sent w @ [(p, s)]" "sent (do_action Sleep w) = sent w"
  "sent (do_action (Control b) w) = sent w" "sent (w\<lparr>captures := c\<rparr>) = sent w" "sent (w\<lparr>userpc_armed := b\<rparr>) = sent w"
  "sent (w\<lparr>timeout_hit := b\<rparr>) = sent w" "sent (w\<lparr>term_sent := b\<rparr>) = sent w" "sent (w\<lparr>kill_sent := b\<rparr>) = sent w"
  "sent (w\<lparr>pg_after := g\<rparr>) = sent w" "sent (w\<lparr>w_status := x\<rparr>) = sent w"
  by (simp_all add: sent_def do_action_def)

text \<open>What the schedule depends on: the signals sent and the flags and status the program keeps.\<close>

definition at_stage :: "'g watch \<Rightarrow> bool \<Rightarrow> bool \<Rightarrow> (int \<times> int) list \<Rightarrow> bool" where
  "at_stage w t k sigs \<longleftrightarrow> term_sent w = t \<and> kill_sent w = k \<and> sent w = sigs \<and> w_status w = 0"

lemma stage_simps:
  "at_stage (w\<lparr>captures := c\<rparr>) t k sigs = at_stage w t k sigs"
  "at_stage (w\<lparr>pg_after := g\<rparr>) t k sigs = at_stage w t k sigs"
  "at_stage (w\<lparr>timeout_hit := b\<rparr>) t k sigs = at_stage w t k sigs"
  "at_stage (w\<lparr>userpc_armed := b\<rparr>) t k sigs = at_stage w t k sigs"
  "at_stage (do_action Sleep w) t k sigs = at_stage w t k sigs"
  "at_stage (do_action (Control b) w) t k sigs = at_stage w t k sigs"
  by (simp_all add: at_stage_def sent_simps do_action_def sent_def)

lemma stage_signal:
  assumes "at_stage w t k sigs"
  shows "at_stage ((do_action (Signal p s) w)\<lparr>term_sent := True\<rparr>) True k (sigs @ [(p, s)])"
    and "at_stage ((do_action (Signal p s) w)\<lparr>kill_sent := True\<rparr>) t True (sigs @ [(p, s)])"
  using assms by (simp_all add: at_stage_def sent_simps) (simp_all add: do_action_def)

lemma stop_sampling_stage:
  assumes "at_stage w t k sigs"
  obtains w' where "stop_sampling RING_CAP opts i w = Some w'" "at_stage w' t k sigs"
proof -
  obtain c where "capture RING_CAP (i_files_again i) (i_ring_again i) w = Some (w\<lparr>captures := c\<rparr>)"
    using capture_total by blast
  then have "stop_sampling RING_CAP opts i w =
      Some (if userpc opts then disarm_userpc_if_armed (w\<lparr>captures := c\<rparr>) else w)"
    by (simp add: stop_sampling_def)
  then show thesis by (rule that) (use assms in \<open>simp add: disarm_userpc_if_armed_def stage_simps\<close>)
qed

lemma round_sampled:
  assumes "at_stage w t k sigs"
  obtains w' where "at_stage w' t k sigs"
    "(let w = (if i_group i \<noteq> None then w\<lparr>pg_after := i_group i\<rparr> else w)
      in if userpc opts then capture RING_CAP (i_files i) (i_ring i) w else Some w) = Some w'"
proof -
  obtain c where c: "capture RING_CAP (i_files i) (i_ring i) (if i_group i \<noteq> None then w\<lparr>pg_after := i_group i\<rparr> else w)
      = Some ((if i_group i \<noteq> None then w\<lparr>pg_after := i_group i\<rparr> else w)\<lparr>captures := c\<rparr>)"
    using capture_total by blast
  show thesis
    by (rule that [of "if userpc opts then (if i_group i \<noteq> None then w\<lparr>pg_after := i_group i\<rparr> else w)\<lparr>captures := c\<rparr>
            else (if i_group i \<noteq> None then w\<lparr>pg_after := i_group i\<rparr> else w)"])
      (use assms c in \<open>auto simp: stage_simps\<close>)
qed

subsection \<open>The schedule\<close>

text \<open>
  The time in milliseconds since the start at each round, while the command runs, determines the signals:
  \<open>SIGTERM\<close> in the first round past the limit, \<open>SIGKILL\<close> in a later round two seconds past it, and the loop is left
  in a still later round four seconds past it.
\<close>

definition escalation :: "int \<Rightarrow> int \<Rightarrow> nat \<Rightarrow> nat list \<Rightarrow> int list \<times> bool" where
  "escalation SIGTERM SIGKILL limit es =
     (if limit = 0 then ([], False)
      else case dropWhile (\<lambda>e. e < limit) es of
        [] \<Rightarrow> ([], False)
      | _ # es \<Rightarrow>
          (case dropWhile (\<lambda>e. e < limit + 2000) es of
             [] \<Rightarrow> ([SIGTERM], False)
           | _ # es \<Rightarrow> ([SIGTERM, SIGKILL], \<exists>e\<in>set es. limit + 4000 \<le> e)))"

lemma round_running:
  assumes stage: "at_stage w t k sigs" and running: "i_wait i = 0" "0 < cpid"
    and limit: "unat (timeout_ms opts) + 4000 < 2 ^ 64"
    and e: "e = unat (i_now i - start)" and l: "l = unat (timeout_ms opts)"
  obtains w' left where "watch_round RING_CAP SIGTERM SIGKILL opts cpid start i w = Some (w', left)"
    "at_stage w' (t \<or> l \<noteq> 0 \<and> l \<le> e) (k \<or> l \<noteq> 0 \<and> t \<and> l + 2000 \<le> e)
       (sigs @ (if l = 0 \<or> e < l then [] else if \<not> t then [(- cpid, SIGTERM)]
                else if \<not> k \<and> l + 2000 \<le> e then [(- cpid, SIGKILL)] else []))"
    "left \<longleftrightarrow> l \<noteq> 0 \<and> t \<and> k \<and> l + 4000 \<le> e"
proof -
  have words: "timeout_ms opts \<noteq> 0 \<longleftrightarrow> l \<noteq> 0" "timeout_ms opts \<le> i_now i - start \<longleftrightarrow> l \<le> e"
    "timeout_ms opts + 2000 \<le> i_now i - start \<longleftrightarrow> l + 2000 \<le> e"
    "timeout_ms opts + 4000 \<le> i_now i - start \<longleftrightarrow> l + 4000 \<le> e"
  proof -
    have "unat (timeout_ms opts + 2000) = l + 2000" "unat (timeout_ms opts + 4000) = l + 4000"
      using limit l by (subst unat_add_lem [THEN iffD1]; simp)+
    then show "timeout_ms opts + 2000 \<le> i_now i - start \<longleftrightarrow> l + 2000 \<le> e"
      "timeout_ms opts + 4000 \<le> i_now i - start \<longleftrightarrow> l + 4000 \<le> e"
      by (simp_all only: word_le_nat_alt e)
    show "timeout_ms opts \<noteq> 0 \<longleftrightarrow> l \<noteq> 0" by (simp add: l unat_eq_0)
    show "timeout_ms opts \<le> i_now i - start \<longleftrightarrow> l \<le> e" by (simp only: word_le_nat_alt e l)
  qed
  obtain w1 where w1: "at_stage w1 t k sigs"
      "(let w = (if i_group i \<noteq> None then w\<lparr>pg_after := i_group i\<rparr> else w)
        in if userpc opts then capture RING_CAP (i_files i) (i_ring i) w else Some w) = Some w1"
    by (rule round_sampled [OF stage])
  have flags: "term_sent w1 = t" "kill_sent w1 = k" using w1(1) by (simp_all add: at_stage_def)
  have flags': "term_sent (w1\<lparr>timeout_hit := b\<rparr>) = t" "kill_sent (w1\<lparr>timeout_hit := b\<rparr>) = k" for b
    using flags by simp_all
  obtain w2 where w2: "stop_sampling RING_CAP opts i (w1\<lparr>timeout_hit := True\<rparr>) = Some w2" "at_stage w2 t k sigs"
    by (rule stop_sampling_stage [of "w1\<lparr>timeout_hit := True\<rparr>" t k sigs]) (use w1(1) in \<open>auto simp: stage_simps\<close>)
  have round: "watch_round RING_CAP SIGTERM SIGKILL opts cpid start i w =
      (if l \<noteq> 0 \<and> l \<le> e then
         (if \<not> t then Some (do_action Sleep ((do_action (Signal (- cpid) SIGTERM) w2)\<lparr>term_sent := True\<rparr>), False)
          else if \<not> k \<and> l + 2000 \<le> e
            then Some (do_action Sleep ((do_action (Signal (- cpid) SIGKILL) w2)\<lparr>kill_sent := True\<rparr>), False)
          else if k \<and> l + 4000 \<le> e then Some (w1\<lparr>timeout_hit := True\<rparr>, True)
          else Some (do_action Sleep (w1\<lparr>timeout_hit := True\<rparr>), False))
       else Some (do_action Sleep w1, False))"
    using w1(2) running words by (simp add: watch_round_def Let_def flags w2)
  show thesis
  proof (cases "l \<noteq> 0 \<and> l \<le> e")
    case False
    then show ?thesis
      by (intro that [of "do_action Sleep w1" False]) (use w1(1) in \<open>auto simp: round stage_simps\<close>)
  next
    case due: True
    consider "\<not> t" | "t" "\<not> k" "l + 2000 \<le> e" | "t" "k" "l + 4000 \<le> e" | "t" "\<not> (\<not> k \<and> l + 2000 \<le> e)" "\<not> (k \<and> l + 4000 \<le> e)"
      by blast
    then show ?thesis
      using due w1(1) stage_signal [OF w2(2)] by cases (auto simp: round stage_simps intro!: that)
  qed
qed

abbreviation running :: "'g poll_info list \<Rightarrow> bool" where
  "running polls \<equiv> \<forall>i\<in>set polls. i_wait i = 0"

definition round_times :: "64 word \<Rightarrow> 'g poll_info list \<Rightarrow> nat list" where
  "round_times start polls = List.map (\<lambda>i. unat (i_now i - start)) polls"

lemma round_times_simps: "round_times start [] = []" "round_times start (i # polls) = unat (i_now i - start) # round_times start polls"
  by (simp_all add: round_times_def)

lemma round_killed:
  assumes "at_stage w True True sigs" "i_wait i = 0" "0 < cpid" "l = unat (timeout_ms opts)" "l + 4000 < 2 ^ 64" "l \<noteq> 0"
  shows "\<exists>w'. watch_round RING_CAP SIGTERM SIGKILL opts cpid start i w = Some (w', l + 4000 \<le> unat (i_now i - start))
    \<and> at_stage w' True True sigs"
  by (rule round_running [OF assms(1-3) _ refl assms(4), where start = start and RING_CAP = RING_CAP
        and SIGTERM = SIGTERM and SIGKILL = SIGKILL])
    (use assms(4-6) in \<open>simp_all cong: if_cong\<close>)

lemma round_terminated:
  assumes "at_stage w True False sigs" "i_wait i = 0" "0 < cpid" "l = unat (timeout_ms opts)" "l + 4000 < 2 ^ 64" "l \<noteq> 0"
  shows "\<exists>w'. watch_round RING_CAP SIGTERM SIGKILL opts cpid start i w = Some (w', False)
    \<and> (if l + 2000 \<le> unat (i_now i - start) then at_stage w' True True (sigs @ [(- cpid, SIGKILL)])
       else at_stage w' True False sigs)"
  by (rule round_running [OF assms(1-3) _ refl assms(4), where start = start and RING_CAP = RING_CAP
        and SIGTERM = SIGTERM and SIGKILL = SIGKILL])
    (use assms(4-6) in \<open>simp_all cong: if_cong split: if_splits\<close>)

lemma round_fresh:
  assumes "at_stage w False False []" "i_wait i = 0" "0 < cpid" "l = unat (timeout_ms opts)" "l + 4000 < 2 ^ 64"
  shows "\<exists>w'. watch_round RING_CAP SIGTERM SIGKILL opts cpid start i w = Some (w', False)
    \<and> (if l \<noteq> 0 \<and> l \<le> unat (i_now i - start) then at_stage w' True False [(- cpid, SIGTERM)]
       else at_stage w' False False [])"
  by (rule round_running [OF assms(1-3) _ refl assms(4), where start = start and RING_CAP = RING_CAP
        and SIGTERM = SIGTERM and SIGKILL = SIGKILL])
    (use assms(4-5) in \<open>auto simp: not_le cong: if_cong split: if_splits\<close>)

lemma loop_killed:
  assumes "running polls" "0 < cpid" "l = unat (timeout_ms opts)" "l + 4000 < 2 ^ 64" "l \<noteq> 0" "at_stage w True True sigs"
  shows "\<exists>w'. watch_loop RING_CAP SIGTERM SIGKILL opts cpid start polls w = Some (w', \<exists>e\<in>set (round_times start polls). l + 4000 \<le> e)
    \<and> at_stage w' True True sigs"
  using assms(1,6)
proof (induction polls arbitrary: w)
  case (Cons i polls)
  obtain w' where r: "watch_round RING_CAP SIGTERM SIGKILL opts cpid start i w = Some (w', l + 4000 \<le> unat (i_now i - start))"
      "at_stage w' True True sigs"
    using round_killed [OF Cons.prems(2) _ assms(2-5), of i RING_CAP SIGTERM SIGKILL start] Cons.prems(1) by auto
  show ?case
  proof (cases "l + 4000 \<le> unat (i_now i - start)")
    case True
    then show ?thesis using r by (simp add: round_times_simps)
  next
    case False
    then show ?thesis using r Cons.IH [OF _ r(2)] Cons.prems(1) by (simp add: round_times_simps)
  qed
qed (simp add: round_times_simps)

lemma loop_terminated:
  assumes "running polls" "0 < cpid" "l = unat (timeout_ms opts)" "l + 4000 < 2 ^ 64" "l \<noteq> 0" "at_stage w True False sigs"
  shows "\<exists>w' k left. watch_loop RING_CAP SIGTERM SIGKILL opts cpid start polls w = Some (w', left)
    \<and> (case dropWhile (\<lambda>e. e < l + 2000) (round_times start polls) of
         [] \<Rightarrow> left = False \<and> at_stage w' True k sigs
       | _ # es \<Rightarrow> left = (\<exists>e\<in>set es. l + 4000 \<le> e) \<and> at_stage w' True k (sigs @ [(- cpid, SIGKILL)]))"
  using assms(1,6)
proof (induction polls arbitrary: w)
  case (Cons i polls)
  let ?e = "unat (i_now i - start)"
  obtain w' where r: "watch_round RING_CAP SIGTERM SIGKILL opts cpid start i w = Some (w', False)"
      "if l + 2000 \<le> ?e then at_stage w' True True (sigs @ [(- cpid, SIGKILL)]) else at_stage w' True False sigs"
    using round_terminated [OF Cons.prems(2) _ assms(2-5), of i RING_CAP SIGTERM SIGKILL start] Cons.prems(1) by auto
  show ?case
  proof (cases "l + 2000 \<le> ?e")
    case True
    then have "at_stage w' True True (sigs @ [(- cpid, SIGKILL)])" using r(2) by simp
    from loop_killed [OF _ assms(2-5) this, of polls RING_CAP SIGTERM SIGKILL start] show ?thesis
      using True r(1) Cons.prems(1) by (auto simp: round_times_simps)
  next
    case False
    then have "at_stage w' True False sigs" using r(2) by simp
    from Cons.IH [OF _ this] show ?thesis using False r(1) Cons.prems(1) by (simp add: round_times_simps)
  qed
qed (use assms(6) in \<open>auto simp: round_times_simps\<close>)

lemma loop_escalates:
  assumes "running polls" "0 < cpid" "l = unat (timeout_ms opts)" "l + 4000 < 2 ^ 64" "at_stage w False False []"
  shows "\<exists>w' t k. watch_loop RING_CAP SIGTERM SIGKILL opts cpid start polls w
      = Some (w', snd (escalation SIGTERM SIGKILL l (round_times start polls)))
    \<and> at_stage w' t k (List.map (Pair (- cpid)) (fst (escalation SIGTERM SIGKILL l (round_times start polls))))"
  using assms(1,5)
proof (induction polls arbitrary: w)
  case (Cons i polls)
  let ?e = "unat (i_now i - start)"
  obtain w' where r: "watch_round RING_CAP SIGTERM SIGKILL opts cpid start i w = Some (w', False)"
      "if l \<noteq> 0 \<and> l \<le> ?e then at_stage w' True False [(- cpid, SIGTERM)] else at_stage w' False False []"
    using round_fresh [OF Cons.prems(2) _ assms(2-4), of i RING_CAP SIGTERM SIGKILL start] Cons.prems(1) by auto
  show ?case
  proof (cases "l \<noteq> 0 \<and> l \<le> ?e")
    case True
    then have "at_stage w' True False [(- cpid, SIGTERM)]" using r(2) by simp
    from loop_terminated [OF _ assms(2-4) _ this, of polls RING_CAP SIGTERM SIGKILL start] show ?thesis
      using True r(1) Cons.prems(1)
      by (cases "dropWhile (\<lambda>e. e < l + 2000) (round_times start polls)")
        (auto simp: round_times_simps escalation_def simp del: dropWhile_eq_Nil_conv, blast)
  next
    case False
    then have "at_stage w' False False []" using r(2) by argo
    moreover have "escalation SIGTERM SIGKILL l (round_times start (i # polls)) = escalation SIGTERM SIGKILL l (round_times start polls)"
      using False by (auto simp: round_times_simps escalation_def)
    ultimately show ?thesis using Cons.IH [of w'] r(1) Cons.prems(1) by simp
  qed
qed (auto simp: round_times_simps escalation_def)

lemma loop_append:
  assumes "watch_loop RING_CAP SIGTERM SIGKILL opts cpid start polls w = Some (w', False)"
  shows "watch_loop RING_CAP SIGTERM SIGKILL opts cpid start (polls @ later) w
    = watch_loop RING_CAP SIGTERM SIGKILL opts cpid start later w'"
  using assms
proof (induction polls arbitrary: w)
  case (Cons i polls)
  then show ?case by (auto split: option.splits if_splits)
qed simp

lemma round_ended:
  assumes "at_stage w t k sigs" "i_wait i = cpid"
  shows "\<exists>w'. watch_round RING_CAP SIGTERM SIGKILL opts cpid start i w = Some (w', True)
    \<and> sent w' = sigs \<and> w_status w' = i_status i"
proof -
  obtain w1 where w1: "at_stage w1 t k sigs"
      "(let w = (if i_group i \<noteq> None then w\<lparr>pg_after := i_group i\<rparr> else w)
        in if userpc opts then capture RING_CAP (i_files i) (i_ring i) w else Some w) = Some w1"
    by (rule round_sampled [OF assms(1)])
  then have "watch_round RING_CAP SIGTERM SIGKILL opts cpid start i w = Some (w1\<lparr>w_status := i_status i\<rparr>, True)"
    using assms(2) by (simp add: watch_round_def Let_def)
  then show ?thesis using w1(1) by (simp add: sent_simps at_stage_def)
qed

lemma start_stage: "at_stage (watch_start g maps armed) False False []"
  by (simp add: at_stage_def watch_start_def sent_def)

text \<open>
  C39. While the command runs, the loop sends exactly the signals of the schedule to its process group, and it is left
  when the schedule is over; the exit status is then 0.  If the command ends before that, the loop is left in that
  round, with no further signal, and the exit status is taken from the status of the command.
\<close>

theorem kprofile_escalates:
  assumes "\<forall>i\<in>set polls. i_wait i = 0" "0 < cpid" "unat (timeout_ms opts) + 4000 < 2 ^ 64"
    and plan: "escalation SIGTERM SIGKILL (unat (timeout_ms opts)) (List.map (\<lambda>i. unat (i_now i - start)) polls) = (sigs, over)"
  shows "\<exists>w. watch_loop RING_CAP SIGTERM SIGKILL opts cpid start polls (watch_start g maps armed) = Some (w, over)
      \<and> sent w = List.map (Pair (- cpid)) sigs \<and> (over \<longrightarrow> kp_exit_code (w_status w) = 0)
      \<and> (\<not> over \<longrightarrow> (\<forall>i later. i_wait i = cpid \<longrightarrow>
           (\<exists>w'. watch_loop RING_CAP SIGTERM SIGKILL opts cpid start (polls @ i # later) (watch_start g maps armed) = Some (w', True)
             \<and> sent w' = List.map (Pair (- cpid)) sigs \<and> w_status w' = i_status i)))"
proof -
  let ?loop = "\<lambda>is. watch_loop RING_CAP SIGTERM SIGKILL opts cpid start is (watch_start g maps armed)"
  obtain w t k where w: "?loop polls = Some (w, over)" "at_stage w t k (List.map (Pair (- cpid)) sigs)"
    using loop_escalates [OF assms(1,2) refl assms(3) start_stage, of RING_CAP SIGTERM SIGKILL start g maps armed] plan
    by (auto simp: round_times_def)
  have "\<exists>w'. ?loop (polls @ i # later) = Some (w', True) \<and> sent w' = List.map (Pair (- cpid)) sigs \<and> w_status w' = i_status i"
    if "\<not> over" "i_wait i = cpid" for i later
    using loop_append [of RING_CAP SIGTERM SIGKILL opts cpid start polls _ w "i # later"] w(1)
      round_ended [OF w(2) that(2), of RING_CAP SIGTERM SIGKILL opts start] that(1) by auto
  then show ?thesis using w by (auto simp: at_stage_def kp_exit_code_def)
qed

text \<open>Five rounds of a command that does not end, with a limit of one second.\<close>

definition sample_round :: "64 word \<Rightarrow> unit poll_info" where
  "sample_round t = \<lparr>i_group = Some (), i_ring = None, i_files = (\<lambda>f. Inl (- 2)), i_wait = 0, i_status = 0, i_now = t,
     i_ring_again = None, i_files_again = (\<lambda>f. Inl (- 2))\<rparr>"

definition sample_opts :: kp_opts where
  "sample_opts = \<lparr>profile_pgroup = True, timeout_ms = 1000, userpc = True, userpc_period = 1, userpc_limit = 0,
     vfs_enoent_attr = False\<rparr>"

lemma kprofile_escalates_witness:
  "\<exists>w. watch_loop 8 15 9 sample_opts 7 100 (List.map sample_round [200, 1100, 1200, 3300, 5100])
      (watch_start None (Some userpc_maps_init) True) = Some (w, True)
    \<and> sent w = [(- 7, 15), (- 7, 9)] \<and> kp_exit_code (w_status w) = 0"
  using kprofile_escalates [of "List.map sample_round [200, 1100, 1200, 3300, 5100]" 7 sample_opts 15 9 100 "[15, 9]" True 8
      None "Some userpc_maps_init" True]
  by (simp add: sample_round_def sample_opts_def escalation_def)

end
