(* ===== verification/Fbstat.thy ===== *)
theory Fbstat
  imports TopFiles
begin

section \<open>fbstat.c: rectangles of the screen\<close>

text \<open>
  The part of \<open>fbstat\<close> that reads the screen: the arguments, the clipping of a rectangle, the statistics of its
  pixels, and the picture that is written to a file.  The screen is the list of the bytes that are mapped or were
  read; a read outside it is \<^const>\<open>None\<close>.  The answers of the kernel are the record \<open>screen\<close>, and the
  output is a state with a function that writes.  Messages are left out.
\<close>

unbundle bit_operations_syntax

subsection \<open>The arguments\<close>

fun digits32 :: "string \<Rightarrow> 32 word \<Rightarrow> 32 word \<times> string" where
  "digits32 [] v = (v, [])"
| "digits32 (c # s) v = (if is_digit c then digits32 s (v * 10 + word_of_int (sc c - sc (CHR ''0''))) else (v, c # s))"

definition parse_mode :: "string \<Rightarrow> (32 word \<times> 32 word) option" where
  "parse_mode s =
     (case digits32 s 0 of (x, s) \<Rightarrow>
        if deref s \<noteq> CHR ''x'' \<and> deref s \<noteq> CHR ''X'' then None
        else (case digits32 (tl s) 0 of (y, s) \<Rightarrow> if deref s \<noteq> NUL \<or> x = 0 \<or> y = 0 then None else Some (x, y)))"

definition fb_parse_u32 :: "string \<Rightarrow> 32 word option" where
  "fb_parse_u32 s =
     (if s = [] then None else case digits32 s 0 of (v, s) \<Rightarrow> if s = [] then Some v else None)"

subsection \<open>The screen\<close>

record screen =
  s_open :: bool
  s_var :: "(32 word \<times> 32 word \<times> 32 word) option"
  s_pitch :: "32 word option"
  s_map :: "string option"

record rect =
  r_x :: "32 word"
  r_y :: "32 word"
  r_w :: "32 word"
  r_h :: "32 word"

text \<open>The layout of the screen, and the rectangle cut at its right and lower edge; the sums wrap around.\<close>

definition clip_rect :: "32 word \<Rightarrow> 32 word \<Rightarrow> rect \<Rightarrow> rect" where
  "clip_rect xres yres r =
     (let r = (if r_x r + r_w r > xres then r\<lparr>r_w := xres - r_x r\<rparr> else r)
      in if r_y r + r_h r > yres then r\<lparr>r_h := yres - r_y r\<rparr> else r)"

text \<open>A little-endian pixel at a byte offset.\<close>

definition pixel_at :: "string \<Rightarrow> nat \<Rightarrow> 32 word option" where
  "pixel_at fb i =
     map_option (\<lambda>b. word_of_int (uc (b ! 0) + 256 * uc (b ! 1) + 65536 * uc (b ! 2) + 16777216 * uc (b ! 3))) (aslice fb i 4)"

text \<open>The byte offset of a pixel: the row is computed in 64 bits.\<close>

definition pixel_offset :: "32 word \<Rightarrow> 32 word \<Rightarrow> nat \<Rightarrow> nat \<Rightarrow> nat" where
  "pixel_offset pitch x row col = row * unat pitch + (unat x + col) * 4"

fun row_pixels :: "string \<Rightarrow> 32 word \<Rightarrow> 32 word \<Rightarrow> nat \<Rightarrow> nat list \<Rightarrow> 32 word list option" where
  "row_pixels fb pitch x row [] = Some []"
| "row_pixels fb pitch x row (col # cols) =
     (case pixel_at fb (pixel_offset pitch x row col) of
        None \<Rightarrow> None
      | Some px \<Rightarrow> map_option ((#) px) (row_pixels fb pitch x row cols))"

subsection \<open>The statistics\<close>

record pixel_stats =
  st_total :: "64 word"
  st_nonzero :: "64 word"
  st_nonblack :: "64 word"
  st_r :: "64 word"
  st_g :: "64 word"
  st_b :: "64 word"
  st_hash :: "64 word"

definition no_pixels :: pixel_stats where
  "no_pixels = \<lparr>st_total = 0, st_nonzero = 0, st_nonblack = 0, st_r = 0, st_g = 0, st_b = 0, st_hash = 1469598103934665603\<rparr>"

definition add_pixel :: "32 word \<Rightarrow> pixel_stats \<Rightarrow> pixel_stats" where
  "add_pixel px s =
     (let rgb = px AND 0x00ffffff;
          r = drop_bit 16 rgb AND 0xff; g = drop_bit 8 rgb AND 0xff; b = rgb AND 0xff
      in \<lparr>st_total = st_total s + 1, st_nonzero = (if px \<noteq> 0 then st_nonzero s + 1 else st_nonzero s),
          st_nonblack = (if rgb \<noteq> 0 then st_nonblack s + 1 else st_nonblack s),
          st_r = st_r s + ucast r, st_g = st_g s + ucast g, st_b = st_b s + ucast b,
          st_hash = (st_hash s XOR ucast px) * 1099511628211\<rparr>)"

fun sample_rows :: "string \<Rightarrow> 32 word \<Rightarrow> rect \<Rightarrow> nat list \<Rightarrow> pixel_stats \<Rightarrow> pixel_stats option" where
  "sample_rows fb pitch r [] s = Some s"
| "sample_rows fb pitch r (row # rows) s =
     (case row_pixels fb pitch (r_x r) (unat (r_y r + of_nat row)) [0..<unat (r_w r)] of
        None \<Rightarrow> None
      | Some pxs \<Rightarrow> sample_rows fb pitch r rows (fold add_pixel pxs s))"

datatype sample_result = Failed | Sampled "32 word" "32 word" "32 word" rect pixel_stats "32 word" "32 word list"

definition sample_rect :: "screen \<Rightarrow> string \<Rightarrow> string \<Rightarrow> string \<Rightarrow> string \<Rightarrow> sample_result option" where
  "sample_rect sn x_arg y_arg w_arg h_arg =
     (case (fb_parse_u32 x_arg, fb_parse_u32 y_arg, fb_parse_u32 w_arg, fb_parse_u32 h_arg) of
        (Some x, Some y, Some w, Some h) \<Rightarrow>
          if w = 0 \<or> h = 0 \<or> \<not> s_open sn then Some Failed
          else (case (s_var sn, s_pitch sn) of
            (Some (xres, yres, bpp), Some pitch) \<Rightarrow>
              if bpp \<noteq> 32 \<or> pitch < xres * 4 then Some Failed
              else if xres \<le> x \<or> yres \<le> y then Some Failed
              else (let r = clip_rect xres yres \<lparr>r_x = x, r_y = y, r_w = w, r_h = h\<rparr> in
                case s_map sn of
                  None \<Rightarrow> Some Failed
                | Some fb \<Rightarrow> do {
                    st \<leftarrow> sample_rows fb pitch r [0..<unat (r_h r)] no_pixels;
                    let at = (\<lambda>row col. pixel_at fb (unat (ucast row * ucast pitch + ucast (col * 4) :: 64 word)));
                    tl_px \<leftarrow> at y x;
                    tr_px \<leftarrow> at y (x + r_w r - 1);
                    bl_px \<leftarrow> at (y + r_h r - 1) x;
                    br_px \<leftarrow> at (y + r_h r - 1) (x + r_w r - 1);
                    center \<leftarrow> at (y + r_h r div 2) (x + r_w r div 2);
                    Some (Sampled xres yres pitch r st center [tl_px, tr_px, bl_px, br_px])
                  })
          | _ \<Rightarrow> Some Failed)
      | _ \<Rightarrow> Some Failed)"

text \<open>
  The pixels of the rectangle as the kernel copied them, which begin at its corner: \<open>print_sample_pixels\<close> takes the
  low byte for the red one.
\<close>

definition add_pixel_current :: "32 word \<Rightarrow> pixel_stats \<Rightarrow> pixel_stats" where
  "add_pixel_current px s =
     (let rgb = px AND 0x00ffffff;
          r = rgb AND 0xff; g = drop_bit 8 rgb AND 0xff; b = drop_bit 16 rgb AND 0xff
      in \<lparr>st_total = st_total s + 1, st_nonzero = (if px \<noteq> 0 then st_nonzero s + 1 else st_nonzero s),
          st_nonblack = (if rgb \<noteq> 0 then st_nonblack s + 1 else st_nonblack s),
          st_r = st_r s + ucast r, st_g = st_g s + ucast g, st_b = st_b s + ucast b,
          st_hash = (st_hash s XOR ucast px) * 1099511628211\<rparr>)"

fun current_rows :: "string \<Rightarrow> 32 word \<Rightarrow> rect \<Rightarrow> nat list \<Rightarrow> pixel_stats \<Rightarrow> pixel_stats option" where
  "current_rows fb pitch r [] s = Some s"
| "current_rows fb pitch r (row # rows) s =
     (case row_pixels fb pitch 0 row [0..<unat (r_w r)] of
        None \<Rightarrow> None
      | Some pxs \<Rightarrow> current_rows fb pitch r rows (fold add_pixel_current pxs s))"

definition print_sample_pixels :: "32 word \<Rightarrow> 32 word \<Rightarrow> 32 word \<Rightarrow> rect \<Rightarrow> string \<Rightarrow> sample_result option" where
  "print_sample_pixels screen_w screen_h pitch r fb = do {
     st \<leftarrow> current_rows fb pitch r [0..<unat (r_h r)] no_pixels;
     let at = (\<lambda>row col. pixel_at fb (unat (ucast row * ucast pitch + ucast col * 4 :: 64 word)));
     tl_px \<leftarrow> at (0 :: 32 word) (0 :: 32 word);
     tr_px \<leftarrow> at 0 (r_w r - 1);
     bl_px \<leftarrow> at (r_h r - 1) 0;
     br_px \<leftarrow> at (r_h r - 1) (r_w r - 1);
     center \<leftarrow> at (r_h r div 2) (r_w r div 2);
     Some (Sampled screen_w screen_h pitch r st center [tl_px, tr_px, bl_px, br_px])
   }"

text \<open>\<open>scanout r\<close> is the answer of the kernel for a rectangle: the size of its screen, the pitch and the bytes.\<close>

definition sample_current_rect ::
    "screen \<Rightarrow> (rect \<Rightarrow> (32 word \<times> 32 word \<times> 32 word \<times> string) option) \<Rightarrow> string \<Rightarrow> string \<Rightarrow> string \<Rightarrow> string \<Rightarrow>
     sample_result option" where
  "sample_current_rect sn scanout x_arg y_arg w_arg h_arg =
     (case (fb_parse_u32 x_arg, fb_parse_u32 y_arg, fb_parse_u32 w_arg, fb_parse_u32 h_arg) of
        (Some x, Some y, Some w, Some h) \<Rightarrow>
          if w = 0 \<or> h = 0 \<or> \<not> s_open sn then Some Failed
          else (case s_var sn of
            Some (xres, yres, bpp) \<Rightarrow>
              if bpp \<noteq> 32 \<or> xres \<le> x \<or> yres \<le> y then Some Failed
              else (let r = clip_rect xres yres \<lparr>r_x = x, r_y = y, r_w = w, r_h = h\<rparr> in
                case scanout r of
                  None \<Rightarrow> Some Failed
                | Some (screen_w, screen_h, pitch, fb) \<Rightarrow> print_sample_pixels screen_w screen_h pitch r fb)
          | None \<Rightarrow> Some Failed)
      | _ \<Rightarrow> Some Failed)"

subsection \<open>The picture\<close>

fun write_full :: "('s \<Rightarrow> string \<Rightarrow> int \<times> 's) \<Rightarrow> string \<Rightarrow> 's \<Rightarrow> bool \<times> 's" where
  "write_full wr [] s = (True, s)"
| "write_full wr (c # p) s =
     (case wr s (take 0x7fffffff (c # p)) of (n, s) \<Rightarrow>
        if n \<le> 0 then (False, s) else write_full wr (drop (nat n) (c # p)) s)"

definition pixel_bytes :: "32 word \<Rightarrow> string" where
  "pixel_bytes px = [to_char (uint (drop_bit 16 px AND 0xff)), to_char (uint (drop_bit 8 px AND 0xff)), to_char (uint (px AND 0xff))]"

fun ppm_rows :: "('s \<Rightarrow> string \<Rightarrow> int \<times> 's) \<Rightarrow> string \<Rightarrow> 32 word \<Rightarrow> rect \<Rightarrow> nat list \<Rightarrow> 's \<Rightarrow> (bool \<times> 's) option" where
  "ppm_rows wr fb pitch r [] s = Some (True, s)"
| "ppm_rows wr fb pitch r (row # rows) s =
     (case row_pixels fb pitch (r_x r) (unat (r_y r + of_nat row)) [0..<unat (r_w r)] of
        None \<Rightarrow> None
      | Some pxs \<Rightarrow>
          if 4096 < 3 * length pxs then None
          else (case write_full wr (concat (List.map pixel_bytes pxs)) s of (ok, s) \<Rightarrow>
             if ok then ppm_rows wr fb pitch r rows s else Some (False, s)))"

definition ppm_header :: "rect \<Rightarrow> string option" where
  "ppm_header r = print_into 64 (''P6'' @ [CHR 0x0A] @ ''%u %u'' @ [CHR 0x0A] @ ''255'' @ [CHR 0x0A]) [VInt (r_w r), VInt (r_h r)]"

text \<open>
  The header and the rows, to an output that is open; the exit status.
\<close>

definition write_ppm :: "('s \<Rightarrow> string \<Rightarrow> int \<times> 's) \<Rightarrow> string \<Rightarrow> 32 word \<Rightarrow> rect \<Rightarrow> rect \<Rightarrow> 's \<Rightarrow> (int \<times> 's) option" where
  "write_ppm wr fb pitch src r s = do {
     header \<leftarrow> ppm_header r;
     case write_full wr header s of (ok, s) \<Rightarrow>
       if \<not> ok then Some (1, s)
       else map_option (\<lambda>(ok, s). (if ok then 0 else 1, s)) (ppm_rows wr fb pitch src [0..<unat (r_h r)] s)
   }"

text \<open>
  \<open>rq\<close> is the rectangle of the command line, if there is one; \<open>out\<close> the output, if it can be opened.
  The buffer of a row has 4096 bytes.
\<close>

definition dump_ppm :: "screen \<Rightarrow> ('s \<Rightarrow> string \<Rightarrow> int \<times> 's) \<Rightarrow> 's option \<Rightarrow> rect option \<Rightarrow> (int \<times> 's option) option" where
  "dump_ppm sn wr out rq =
     (if \<not> s_open sn then Some (1, None)
      else case (s_var sn, s_pitch sn) of
        (Some (xres, yres, bpp), Some pitch) \<Rightarrow>
          if bpp \<noteq> 32 \<or> pitch < xres * 4 then Some (1, None)
          else (let r = (case rq of None \<Rightarrow> \<lparr>r_x = 0, r_y = 0, r_w = xres, r_h = yres\<rparr> | Some r \<Rightarrow> r) in
            if xres \<le> r_x r \<or> yres \<le> r_y r \<or> r_w r = 0 \<or> r_h r = 0 then Some (1, None)
            else (let r = clip_rect xres yres r in
              if 4096 < r_w r * 3 then Some (1, None)
              else (case (s_map sn, out) of
                (Some fb, Some s) \<Rightarrow> map_option (map_prod id Some) (write_ppm wr fb pitch r r s)
              | _ \<Rightarrow> Some (1, None))))
      | _ \<Rightarrow> Some (1, None))"

text \<open>
  The same from the pixels that the kernel copies: \<open>scanout r\<close> is its answer for the rectangle, the pitch it
  leaves in the request and the bytes; they begin at the corner of the rectangle.
\<close>

definition dump_ppm_current ::
    "screen \<Rightarrow> (rect \<Rightarrow> (32 word \<times> string) option) \<Rightarrow> ('s \<Rightarrow> string \<Rightarrow> int \<times> 's) \<Rightarrow> 's option \<Rightarrow> rect option \<Rightarrow>
     (int \<times> 's option) option" where
  "dump_ppm_current sn scanout wr out rq =
     (if \<not> s_open sn then Some (1, None)
      else case s_var sn of
        Some (xres, yres, bpp) \<Rightarrow>
          if bpp \<noteq> 32 then Some (1, None)
          else (let r = (case rq of None \<Rightarrow> \<lparr>r_x = 0, r_y = 0, r_w = xres, r_h = yres\<rparr> | Some r \<Rightarrow> r) in
            if xres \<le> r_x r \<or> yres \<le> r_y r \<or> r_w r = 0 \<or> r_h r = 0 then Some (1, None)
            else (let r = clip_rect xres yres r in
              if 4096 < r_w r * 3 then Some (1, None)
              else (case (scanout r, out) of
                (Some (pitch, fb), Some s) \<Rightarrow> map_option (map_prod id Some) (write_ppm wr fb pitch (r\<lparr>r_x := 0, r_y := 0\<rparr>) r s)
              | _ \<Rightarrow> Some (1, None))))
      | None \<Rightarrow> Some (1, None))"

end
