(* ===== verification/FbstatPicture.thy ===== *)
theory FbstatPicture
  imports Fbstat
begin

section \<open>fbstat.c: the picture is the rectangle\<close>

text \<open>
  The file that \<open>fbstat ppm\<close> writes is the picture of the rectangle cut at the edges of the screen, whatever pieces
  the output takes, and nothing outside the screen is read, as long as the sums of the rectangle fit 32 bits; where
  they do not, the rows below the screen are read.
\<close>

subsection \<open>Pixels\<close>

unbundle bit_operations_syntax

lemma uint_low_byte: "uint (v AND 0xff :: 32 word) = uint v mod 256"
proof -
  have "v AND 0xff = take_bit 8 v" by (simp add: take_bit_eq_mask mask_eq_exp_minus_1)
  then have "uint (v AND 0xff) = uint (take_bit 8 v)" by (simp only:)
  also have "\<dots> = take_bit 8 (uint v)" by (rule unsigned_take_bit_eq)
  finally show ?thesis by (simp add: take_bit_eq_mod)
qed

lemma uint_drop32: "uint (drop_bit n v :: 32 word) = uint v div 2 ^ n"
proof -
  have "uint (drop_bit n v) = drop_bit n (take_bit LENGTH(32) (uint v))" by (rule unsigned_drop_bit_eq)
  also have "take_bit LENGTH(32) (uint v) = uint v" using uint_bounds32 [of v] by (simp add: take_bit_eq_mod)
  finally show ?thesis by (simp only: drop_bit_eq_div)
qed

lemma byte_fields:
  assumes "0 \<le> a" "a < 256" "0 \<le> b" "b < 256" "0 \<le> c" "c < (256 :: int)"
  shows "(a + 256 * b + 65536 * c + 16777216 * d) div 65536 mod 256 = c"
    "(a + 256 * b + 65536 * c + 16777216 * d) div 256 mod 256 = b"
    "(a + 256 * b + 65536 * c + 16777216 * d) mod 256 = a"
proof -
  have "a + 256 * b + 65536 * c + 16777216 * d = (a + 256 * b) + (c + 256 * d) * 65536" by simp
  moreover have "0 \<le> a + 256 * b" "a + 256 * b < 65536" using assms by linarith+
  ultimately have "(a + 256 * b + 65536 * c + 16777216 * d) div 65536 = c + 256 * d" by (simp only: div_mult_self1)
  then show "(a + 256 * b + 65536 * c + 16777216 * d) div 65536 mod 256 = c" using assms by simp
  have e: "a + 256 * b + 65536 * c + 16777216 * d = a + (b + 256 * (c + 256 * d)) * 256" by simp
  then have "(a + 256 * b + 65536 * c + 16777216 * d) div 256 = b + 256 * (c + 256 * d)"
    using assms(1,2) by (simp only: div_mult_self1)
  then show "(a + 256 * b + 65536 * c + 16777216 * d) div 256 mod 256 = b"
    using assms(3,4) by (simp only: mod_mult_self2 mod_pos_pos_trivial)
  show "(a + 256 * b + 65536 * c + 16777216 * d) mod 256 = a" unfolding e
    using assms(1,2) by (simp only: mod_mult_self1 mod_pos_pos_trivial)
qed

lemma pixel_in:
  assumes "i + 4 \<le> length fb"
  obtains px where "pixel_at fb i = Some px" "pixel_bytes px = [fb ! (i + 2), fb ! (i + 1), fb ! i]"
proof -
  let ?v = "uc (fb ! i) + 256 * uc (fb ! (i + 1)) + 65536 * uc (fb ! (i + 2)) + 16777216 * uc (fb ! (i + 3))"
  let ?px = "word_of_int ?v :: 32 word"
  have b: "0 \<le> uc (fb ! j) \<and> uc (fb ! j) < 256" for j by simp
  have v: "uint ?px = ?v"
  proof -
    have "?v < 4294967296" "0 \<le> ?v"
      using b [of i] b [of "i + 1"] b [of "i + 2"] b [of "i + 3"] by linarith+
    moreover have "(2 :: int) ^ LENGTH(32) = 4294967296" by simp
    ultimately show ?thesis by (simp only: uint_word_of_int mod_pos_pos_trivial)
  qed
  have at: "pixel_at fb i = Some ?px"
    using assms by (simp add: pixel_at_def aslice_def)
  note bytes = byte_fields [of "uc (fb ! i)" "uc (fb ! (i + 1))" "uc (fb ! (i + 2))" "uc (fb ! (i + 3))"]
  have "?v div 65536 mod 256 = uc (fb ! (i + 2))" "?v div 256 mod 256 = uc (fb ! (i + 1))" "?v mod 256 = uc (fb ! i)"
    by (rule bytes; simp)+
  then have "pixel_bytes ?px = [to_char (uc (fb ! (i + 2))), to_char (uc (fb ! (i + 1))), to_char (uc (fb ! i))]"
    unfolding pixel_bytes_def uint_low_byte uint_drop32 v by simp
  then show thesis by (intro that [OF at]) simp
qed

text \<open>The picture of a rectangle: three bytes for a pixel, the rows from above.\<close>

definition row_picture :: "string \<Rightarrow> nat \<Rightarrow> nat \<Rightarrow> nat \<Rightarrow> nat list \<Rightarrow> string" where
  "row_picture fb pitch x row cols = concat (List.map (\<lambda>col. let i = row * pitch + (x + col) * 4 in
     [fb ! (i + 2), fb ! (i + 1), fb ! i]) cols)"

definition picture :: "string \<Rightarrow> nat \<Rightarrow> nat \<Rightarrow> nat \<Rightarrow> nat \<Rightarrow> nat \<Rightarrow> string" where
  "picture fb pitch x y w h = concat (List.map (\<lambda>row. row_picture fb pitch x (y + row) [0..<w]) [0..<h])"

lemma row_pixels_in:
  assumes "\<forall>col\<in>set cols. row * unat pitch + (unat x + col) * 4 + 4 \<le> length fb"
  shows "\<exists>pxs. row_pixels fb pitch x row cols = Some pxs \<and> length pxs = length cols
    \<and> concat (List.map pixel_bytes pxs) = row_picture fb (unat pitch) (unat x) row cols"
  using assms
proof (induction cols)
  case (Cons col cols)
  obtain pxs where pxs: "row_pixels fb pitch x row cols = Some pxs" "length pxs = length cols"
      "concat (List.map pixel_bytes pxs) = row_picture fb (unat pitch) (unat x) row cols"
    using Cons by auto
  obtain px where px: "pixel_at fb (pixel_offset pitch x row col) = Some px"
      "pixel_bytes px = [fb ! (pixel_offset pitch x row col + 2), fb ! (pixel_offset pitch x row col + 1), fb ! pixel_offset pitch x row col]"
    by (rule pixel_in [of "pixel_offset pitch x row col" fb]) (use Cons.prems in \<open>auto simp: pixel_offset_def\<close>)
  then show ?case using pxs by (simp add: row_picture_def Let_def pixel_offset_def)
qed (simp add: row_picture_def)

subsection \<open>Writing\<close>

text \<open>An output that takes at least one byte of every write.\<close>

definition takes_some :: "('s \<Rightarrow> string \<Rightarrow> int \<times> 's) \<Rightarrow> ('s \<Rightarrow> string) \<Rightarrow> bool" where
  "takes_some wr written \<longleftrightarrow> (\<forall>s b. b \<noteq> [] \<longrightarrow>
     (\<exists>n s'. wr s b = (int n, s') \<and> 0 < n \<and> n \<le> length b \<and> written s' = written s @ take n b))"

lemma takes_someE:
  assumes "takes_some wr written" "b \<noteq> []"
  obtains n s' where "wr s b = (int n, s')" "0 < n" "n \<le> length b" "written s' = written s @ take n b"
  using assms unfolding takes_some_def by blast

lemma write_full_takes:
  assumes takes: "takes_some wr written"
  shows "\<exists>s'. write_full wr p s = (True, s') \<and> written s' = written s @ p"
proof (induction p arbitrary: s rule: length_induct)
  case (1 p)
  show ?case
  proof (cases p)
    case (Cons c q)
    have "take 0x7fffffff (c # q) \<noteq> []" by simp
    then obtain n s1 where w: "wr s (take 0x7fffffff (c # q)) = (int n, s1)" "0 < n" "n \<le> length (take 0x7fffffff (c # q))"
        "written s1 = written s @ take n (take 0x7fffffff (c # q))"
      by (rule takes_someE [OF takes])
    have "length (drop n (c # q)) < length p" using w(2) Cons by simp
    then obtain s2 where s2: "write_full wr (drop n (c # q)) s1 = (True, s2)" "written s2 = written s1 @ drop n (c # q)"
      using "1.IH" by blast
    have "n \<le> 0x7fffffff" using w(3) by simp
    then have "take n (take 0x7fffffff (c # q)) = take n (c # q)" by (simp only: take_take min.absorb1)
    then have "written s2 = written s @ p" using s2(2) w(4) Cons by simp
    moreover have "write_full wr p s = (True, s2)" using w(1,2) s2(1) by (simp add: Cons)
    ultimately show ?thesis by blast
  qed simp
qed

lemma ppm_rows_picture:
  assumes takes: "takes_some wr written" and row: "3 * unat (r_w r) \<le> 4096"
    and cells: "\<forall>row\<in>set rows. unat (r_y r + of_nat row) = y + row
      \<and> (\<forall>col<unat (r_w r). (y + row) * unat pitch + (unat (r_x r) + col) * 4 + 4 \<le> length fb)"
  shows "\<exists>s'. ppm_rows wr fb pitch r rows s = Some (True, s')
    \<and> written s' = written s @ concat (List.map (\<lambda>row. row_picture fb (unat pitch) (unat (r_x r)) (y + row) [0..<unat (r_w r)]) rows)"
  using cells
proof (induction rows arbitrary: s)
  case (Cons row rows)
  obtain pxs where pxs: "row_pixels fb pitch (r_x r) (y + row) [0..<unat (r_w r)] = Some pxs" "length pxs = unat (r_w r)"
      "concat (List.map pixel_bytes pxs) = row_picture fb (unat pitch) (unat (r_x r)) (y + row) [0..<unat (r_w r)]"
    using row_pixels_in [of "[0..<unat (r_w r)]" "y + row" pitch "r_x r" fb] Cons.prems by auto
  obtain s1 where s1: "write_full wr (concat (List.map pixel_bytes pxs)) s = (True, s1)"
      "written s1 = written s @ concat (List.map pixel_bytes pxs)"
    using write_full_takes [OF takes] by blast
  obtain s2 where s2: "ppm_rows wr fb pitch r rows s1 = Some (True, s2)"
      "written s2 = written s1 @ concat (List.map (\<lambda>row. row_picture fb (unat pitch) (unat (r_x r)) (y + row) [0..<unat (r_w r)]) rows)"
    using Cons.IH [of s1] Cons.prems by auto
  have y: "unat (r_y r + of_nat row) = y + row" using Cons.prems by simp
  have "ppm_rows wr fb pitch r (row # rows) s = Some (True, s2)"
    using pxs(1,2) s1(1) s2(1) row by (simp add: y)
  then show ?case using s2(2) s1(2) pxs(3) by simp
qed simp

subsection \<open>The header\<close>

lemma unat_bound32: "unat (w :: 32 word) < 4294967296"
  using unsigned_less [of w, where 'a = nat] by simp

lemma format_unsigned: "format_int (ucast (w :: 32 word)) 10 False {} = Some (dec (unat w))"
proof -
  have "uint (ucast w :: 64 word) = uint w" by (rule uint_up_ucast) (simp add: is_up)
  then have u: "unat (ucast w :: 64 word) = unat w" by (simp only: unat_eq_nat_uint)
  have "unat w < 10 ^ 32" using unat_bound32 [of w] by simp
  then have "gen_digits 32 digits_lower 10 (unat w) = Some (rev (dec (unat w)))" by (intro gen_digits_dec) simp_all
  then show ?thesis by (simp add: format_int_def u)
qed

definition header_text :: "nat \<Rightarrow> nat \<Rightarrow> string" where
  "header_text w h = ''P6'' @ [CHR 0x0A] @ dec w @ '' '' @ dec h @ [CHR 0x0A] @ ''255'' @ [CHR 0x0A]"

lemma render_size:
  assumes "format_int (ucast a) 10 False {} = Some d" "format_int (ucast b) 10 False {} = Some e" "CHR ''%'' \<notin> set u"
  shows "render ''%n'' (''P6'' @ [CHR 0x0A] @ ''%u %u'' @ u) [VInt a, VInt b] = Some (''P6'' @ [CHR 0x0A] @ d @ '' '' @ e @ u)"
  using assms render_plain [OF assms(3)] by (simp add: render_eval)

lemma ppm_header_text: "ppm_header r = Some (header_text (unat (r_w r)) (unat (r_h r)))"
  unfolding ppm_header_def
proof (rule print_into_text)
  show "render ''%n'' (''P6'' @ [CHR 0x0A] @ ''%u %u'' @ [CHR 0x0A] @ ''255'' @ [CHR 0x0A]) [VInt (r_w r), VInt (r_h r)]
      = Some (header_text (unat (r_w r)) (unat (r_h r)))"
    unfolding header_text_def by (rule render_size [OF format_unsigned format_unsigned]) simp
  have "length (dec (unat w)) \<le> 10" for w :: "32 word"
    using unat_bound32 [of w] by (intro dec_length) simp_all
  then have "length (dec (unat (r_w r))) \<le> 10" "length (dec (unat (r_h r))) \<le> 10" by blast+
  then show "length (header_text (unat (r_w r)) (unat (r_h r))) < 64" by (simp add: header_text_def)
  show "cstring (header_text (unat (r_w r)) (unat (r_h r)))" by (simp add: header_text_def)
qed

subsection \<open>The rectangle\<close>

lemma unat_add32: "unat x + unat w < 2 ^ 32 \<Longrightarrow> unat (x + w :: 32 word) = unat x + unat w"
  by (simp add: unat_word_ariths)

lemma clip_unat:
  assumes "unat (r_x r) < unat xres" "unat (r_y r) < unat yres"
    "unat (r_x r) + unat (r_w r) < 2 ^ 32" "unat (r_y r) + unat (r_h r) < 2 ^ 32"
  shows "r_x (clip_rect xres yres r) = r_x r" "r_y (clip_rect xres yres r) = r_y r"
    "unat (r_w (clip_rect xres yres r)) = min (unat (r_w r)) (unat xres - unat (r_x r))"
    "unat (r_h (clip_rect xres yres r)) = min (unat (r_h r)) (unat yres - unat (r_y r))"
proof -
  have "unat (xres - r_x r) = unat xres - unat (r_x r)" "unat (yres - r_y r) = unat yres - unat (r_y r)"
    using assms(1,2) by (simp_all add: unat_sub word_le_nat_alt)
  then show "r_x (clip_rect xres yres r) = r_x r" "r_y (clip_rect xres yres r) = r_y r"
    "unat (r_w (clip_rect xres yres r)) = min (unat (r_w r)) (unat xres - unat (r_x r))"
    "unat (r_h (clip_rect xres yres r)) = min (unat (r_h r)) (unat yres - unat (r_y r))"
    using assms unat_add32 [of "r_x r" "r_w r"] unat_add32 [of "r_y r" "r_h r"]
    by (auto simp: clip_rect_def Let_def word_less_nat_alt)
qed

lemma cell_inside:
  assumes "row < yres" "col < xres" "xres * 4 \<le> (pitch :: nat)"
  shows "row * pitch + col * 4 + 4 \<le> pitch * yres"
proof -
  have "row * pitch + (col * 4 + 4) \<le> row * pitch + pitch" using assms(2,3) by simp
  also have "\<dots> = pitch * Suc row" by simp
  also have "\<dots> \<le> pitch * yres" using assms(1) by (intro mult_le_mono) simp_all
  finally show ?thesis by simp
qed

text \<open>The screen has four bytes for a pixel and rows of the pitch.\<close>

definition screen_shows :: "screen \<Rightarrow> 32 word \<Rightarrow> 32 word \<Rightarrow> 32 word \<Rightarrow> string \<Rightarrow> bool" where
  "screen_shows sn xres yres pitch fb \<longleftrightarrow> s_open sn \<and> s_var sn = Some (xres, yres, 32) \<and> s_pitch sn = Some pitch \<and>
     s_map sn = Some fb \<and> unat xres * 4 \<le> unat pitch \<and> length fb = unat pitch * unat yres"

lemma pitch_ok: "unat xres * 4 \<le> unat pitch \<Longrightarrow> \<not> pitch < xres * (4 :: 32 word)"
  using unat_bound32 [of pitch] by (simp add: word_less_nat_alt unat_word_ariths)

lemma row_inside:
  assumes screen: "screen_shows sn xres yres pitch fb" and i: "unat y + i < unat yres" and w: "unat x + w \<le> unat xres"
  shows "unat (y + of_nat i :: 32 word) = unat y + i \<and> (\<forall>col<w. (unat y + i) * unat pitch + (unat x + col) * 4 + 4 \<le> length fb)"
proof -
  have "unat y + i < 2 ^ 32" using i unat_bound32 [of yres] by simp
  then have "unat (y + of_nat i) = unat y + i" by (simp add: unat_word_ariths unsigned_of_nat take_bit_eq_mod)
  moreover have "(unat y + i) * unat pitch + (unat x + col) * 4 + 4 \<le> length fb" if "col < w" for col
  proof -
    have "unat x + col < unat xres" using that w by linarith
    then show ?thesis
      using cell_inside [OF i, of "unat x + col" "unat xres" "unat pitch"] screen by (simp add: screen_shows_def)
  qed
  ultimately show ?thesis by blast
qed

text \<open>
  C40. The picture of a rectangle that begins on the screen is its part on the screen: a header with the size that is left,
  and three bytes for every pixel, row by row; this holds for every output that takes something of each write.
\<close>

theorem fbstat_writes_picture:
  assumes screen: "screen_shows sn xres yres pitch fb" and takes: "takes_some wr written"
    and origin: "unat (r_x r) < unat xres" "unat (r_y r) < unat yres" "r_w r \<noteq> 0" "r_h r \<noteq> 0"
    and sums: "unat (r_x r) + unat (r_w r) < 2 ^ 32" "unat (r_y r) + unat (r_h r) < 2 ^ 32"
    and w: "w = min (unat (r_w r)) (unat xres - unat (r_x r))" and h: "h = min (unat (r_h r)) (unat yres - unat (r_y r))"
    and row: "3 * w \<le> 4096"
  shows "\<exists>out. dump_ppm sn wr (Some s) (Some r) = Some (0, Some out)
    \<and> written out = written s @ header_text w h @ picture fb (unat pitch) (unat (r_x r)) (unat (r_y r)) w h"
proof -
  let ?r = "clip_rect xres yres r"
  note sn = screen [unfolded screen_shows_def]
  have clip: "r_x ?r = r_x r" "r_y ?r = r_y r" "unat (r_w ?r) = w" "unat (r_h ?r) = h"
    using clip_unat [OF origin(1,2) sums] w h by simp_all
  have "unat (r_w ?r * 3) = 3 * w" using row clip(3) by (simp add: unat_word_ariths)
  then have narrow: "\<not> 4096 < r_w ?r * 3" using row by (simp add: word_less_nat_alt)
  obtain s1 where s1: "write_full wr (header_text w h) s = (True, s1)" "written s1 = written s @ header_text w h"
    using write_full_takes [OF takes] by blast
  have "\<forall>i\<in>set [0..<h]. unat (r_y r + of_nat i) = unat (r_y r) + i
      \<and> (\<forall>col<w. (unat (r_y r) + i) * unat pitch + (unat (r_x r) + col) * 4 + 4 \<le> length fb)"
    by (intro ballI row_inside [OF screen]) (use h w origin(1,2) in auto)
  then obtain s2 where s2: "ppm_rows wr fb pitch ?r [0..<h] s1 = Some (True, s2)"
      "written s2 = written s1 @ concat (List.map (\<lambda>row. row_picture fb (unat pitch) (unat (r_x r)) (unat (r_y r) + row) [0..<w]) [0..<h])"
    using ppm_rows_picture [OF takes, of ?r "[0..<h]" "unat (r_y r)" pitch fb s1] row by (auto simp: clip)
  have "write_ppm wr fb pitch ?r ?r s = Some (0, s2)"
    using s1(1) s2(1) by (simp add: write_ppm_def ppm_header_text clip)
  then have "dump_ppm sn wr (Some s) (Some r) = Some (0, Some s2)"
    using sn pitch_ok [of xres pitch] origin narrow by (simp add: dump_ppm_def Let_def not_le word_le_nat_alt)
  then show ?thesis using s2(2) s1(2) by (simp add: picture_def)
qed

definition sample_screen :: screen where
  "sample_screen = \<lparr>s_open = True, s_var = Some (2, 1, 32), s_pitch = Some 8, s_map = Some ''bgrxBGRX''\<rparr>"

definition append_to :: "string \<Rightarrow> string \<Rightarrow> int \<times> string" where
  "append_to s b = (int (length b), s @ b)"

lemma append_takes: "takes_some append_to (\<lambda>s. s)"
  by (auto simp: takes_some_def append_to_def)

lemma fbstat_writes_picture_witness:
  "dump_ppm sample_screen append_to (Some []) (Some \<lparr>r_x = 1, r_y = 0, r_w = 5, r_h = 7\<rparr>)
    = Some (0, Some (header_text 1 1 @ ''RGB''))"
proof -
  have "screen_shows sample_screen 2 1 8 ''bgrxBGRX''" by (simp add: screen_shows_def sample_screen_def)
  from fbstat_writes_picture [OF this append_takes, of "\<lparr>r_x = 1, r_y = 0, r_w = 5, r_h = 7\<rparr>" 1 1 "[]"]
  show ?thesis by (simp add: picture_def row_picture_def)
qed

subsection \<open>A rectangle that is too tall\<close>

lemma row_outside:
  assumes "0 < w" "length fb \<le> row * unat pitch"
  shows "row_pixels fb pitch x row [0..<w] = None"
proof -
  have "[0..<w] = 0 # [1..<w]" using assms(1) by (simp add: upt_conv_Cons)
  moreover have "pixel_at fb (pixel_offset pitch x row 0) = None"
    using assms(2) by (simp add: pixel_at_def pixel_offset_def aslice_def)
  ultimately show ?thesis by simp
qed

lemma ppm_rows_append:
  "ppm_rows wr fb pitch r rows s = Some (True, s') \<Longrightarrow> ppm_rows wr fb pitch r (rows @ rows') s = ppm_rows wr fb pitch r rows' s'"
  by (induction rows arbitrary: s) (auto split: option.splits prod.splits if_splits)

text \<open>
  When the last row of the rectangle has no number of 32 bits, the height is not cut, and the row below the screen is
  read.
\<close>

lemma fbstat_tall_rect_overruns:
  assumes screen: "screen_shows sn xres yres pitch fb" and takes: "takes_some wr written"
    and origin: "unat (r_x r) < unat xres" "unat (r_y r) < unat yres" "r_w r \<noteq> 0"
    and sums: "unat (r_x r) + unat (r_w r) < 2 ^ 32" "2 ^ 32 \<le> unat (r_y r) + unat (r_h r)"
    and row: "3 * min (unat (r_w r)) (unat xres - unat (r_x r)) \<le> 4096"
  shows "dump_ppm sn wr (Some s) (Some r) = None"
proof -
  let ?r = "clip_rect xres yres r" and ?k = "unat yres - unat (r_y r)"
  let ?w = "min (unat (r_w r)) (unat xres - unat (r_x r))"
  note sn = screen [unfolded screen_shows_def]
  have "unat (r_y r + r_h r) = unat (r_y r) + unat (r_h r) - 2 ^ 32"
  proof -
    have "unat (r_y r) + unat (r_h r) - 2 ^ 32 < 2 ^ 32" using unat_bound32 [of "r_y r"] unat_bound32 [of "r_h r"] by simp
    then show ?thesis using sums(2) by (simp add: unat_word_ariths le_mod_geq)
  qed
  then have "\<not> yres < r_y r + r_h r" using origin(2) unat_bound32 [of "r_h r"] by (simp add: word_less_nat_alt)
  then have clip: "r_x ?r = r_x r" "r_y ?r = r_y r" "r_h ?r = r_h r" "unat (r_w ?r) = ?w"
    using clip_unat [of r xres "r_y r + 1"] origin sums(1) unat_add32 [OF sums(1)]
    by (auto simp: clip_rect_def Let_def word_less_nat_alt unat_sub word_le_nat_alt)
  have inside: "\<forall>i\<in>set [0..<?k]. unat (r_y ?r + of_nat i) = unat (r_y r) + i
      \<and> (\<forall>col<unat (r_w ?r). (unat (r_y r) + i) * unat pitch + (unat (r_x ?r) + col) * 4 + 4 \<le> length fb)"
    unfolding clip by (intro ballI row_inside [OF screen]) (use origin(1) in auto)
  have width: "0 < ?w" "3 * unat (r_w ?r) \<le> 4096" using origin(1,3) row by (auto simp: clip unat_gt_0)
  obtain s1 where s1: "write_full wr (header_text (unat (r_w ?r)) (unat (r_h ?r))) s = (True, s1)"
    using write_full_takes [OF takes] by blast
  obtain s2 where s2: "ppm_rows wr fb pitch ?r [0..<?k] s1 = Some (True, s2)"
    using ppm_rows_picture [OF takes width(2) inside] by blast
  have "4294967296 \<le> unat (r_y r) + unat (r_h r)" using sums(2) by simp
  then have "?k < unat (r_h r)" using unat_bound32 [of yres] origin(2) by linarith
  then have rows: "[0..<unat (r_h ?r)] = [0..<?k] @ ?k # [Suc ?k..<unat (r_h r)]"
    using upt_add_eq_append [of 0 ?k "unat (r_h r) - ?k"] by (simp add: clip upt_conv_Cons)
  have "unat (r_y r + of_nat ?k) = unat yres"
    using origin(2) unat_bound32 [of yres] by (simp add: unat_word_ariths unsigned_of_nat take_bit_eq_mod)
  then have "row_pixels fb pitch (r_x ?r) (unat (r_y ?r + of_nat ?k)) [0..<unat (r_w ?r)] = None"
    using row_outside [of "unat (r_w ?r)" fb "unat yres" pitch "r_x r"] width(1) sn by (simp add: clip mult.commute)
  then have "ppm_rows wr fb pitch ?r [0..<unat (r_h ?r)] s1 = None"
    unfolding rows ppm_rows_append [OF s2] by simp
  then have none: "write_ppm wr fb pitch ?r ?r s = None"
    using s1 by (simp add: write_ppm_def ppm_header_text)
  have "unat (r_w ?r * 3) = 3 * ?w" using row clip(4) by (simp add: unat_word_ariths)
  then have narrow: "\<not> 4096 < r_w ?r * 3" using row by (simp add: word_less_nat_alt)
  have "r_h r \<noteq> 0" using sums(2) unat_bound32 [of "r_y r"] by auto
  then show ?thesis
    using sn pitch_ok [of xres pitch] origin narrow none by (simp add: dump_ppm_def Let_def not_le word_le_nat_alt)
qed

subsection \<open>The two averages\<close>

text \<open>What \<open>fbstat sample\<close> counts as red, \<open>fbstat sample-current\<close> counts as blue.\<close>

definition swapped :: "pixel_stats \<Rightarrow> pixel_stats" where
  "swapped st = st\<lparr>st_r := st_b st, st_b := st_r st\<rparr>"

lemma current_swaps_colours: "fold add_pixel_current pxs (swapped st) = swapped (fold add_pixel pxs st)"
proof (induction pxs arbitrary: st)
  case (Cons px pxs)
  have "add_pixel_current px (swapped st) = swapped (add_pixel px st)"
    by (simp add: add_pixel_current_def add_pixel_def swapped_def Let_def)
  then show ?case using Cons.IH by simp
qed simp

end
