(* ===== verification/Spec2Isabelle.thy ===== *)
theory Spec2Isabelle
  imports Prelude Ulib ShEnv ShExpand ShEnvp ShEdit ShReadline ShComplete ShParse ShPrint ShRun ShLine Printf Umalloc Io Grep Wc Mkfs Init InitBoot Fsutil FsTree FsCopy FsRemove Ramfs FileTools FsDescriptors Copying Dh Primes Keyinject Mouseinject PrintfTypes TopParse TopFiles Top TopShow Dns DnsMessages DnsPair ShList Consolerecord ConsoleSafe ConsoleMemory Find FindTree Commands Kprofile KprofileMaps KprofileWait Fbstat FbstatPicture
begin

text \<open>
  \<^bold>\<open>A verification development for the xv6 user land.\<close>

  The repository is the user side of an xv6 system: a small C library under
  src/lib (strings and memory in ulib.c, formatted output in printf.c, the
  allocator in umalloc.c), the shell src/programs/sh/sh.c, the first process
  src/programs/init/init.c, the file system builder
  src/programs/mkfs_xv6fs/mkfs_xv6fs.c, small tools, and many test and probe
  programs.  Init mounts the file systems, starts the services of the startup
  file and keeps a shell running.  The shell reads lines with its own editor,
  expands variables, parses, and runs commands through pipes and
  redirections.  Every program prints through printf.c and allocates through
  umalloc.c.

  \<^bold>\<open>How code becomes definitions.\<close>  A struct is a record and a tagged union a
  datatype.  Strings are lists of characters without the terminator when the
  code treats them as values, and byte lists or an explicit byte memory where
  bounds matter.  Machine integers are words, or integers with the range
  written out.  An operation that may leave its buffer returns an option whose
  None is the write outside; the safety theorems show that None does not occur,
  or when exactly it does.  System calls are parameters or descriptor tables:
  reading is a function from a state and a request to the bytes and the next
  state (theory Io says which functions deliver a given content), writing
  answers with the number of bytes taken, the directory listing of the
  completion and the break of the heap are arguments.

  \<^bold>\<open>The theories.\<close>
  \<^item> Prelude: lemmas on lists, clipping, and digits; the theorem collections;
    the locales of a bounded comparison loop and of a digit reader, which
    several programs repeat and interpret on their own loops.
  \<^item> Ulib (ulib.c): strlen, strcmp, strchr, strcpy, memset, memmove, memcpy,
    memcmp, atoi, gets.  memmove moves overlapping blocks; atoi is the value of
    the digits; gets stays in its buffer.
  \<^item> ShEnv, ShExpand, ShEnvp (sh.c): the table of 64 variables with names
    of 63 and values of 255 bytes is a bounded map (a locale with its
    interpretation); expand\_env\_vars agrees with an unbounded expansion up to
    2047 bytes; the envp of a command is the table overridden by its own
    assignments; the PATH search.
  \<^item> ShEdit, ShReadline, ShComplete (sh.c): the line buffer, the screen row, the
    history ring, key decoding, raw mode, tab completion and do\_readline.  The
    editor refines a zipper with a bounded history.
  \<^item> ShParse, ShPrint (sh.c): gettoken, the recursive descent parser with
    its panics as values, nulterminate and dequote.  The fuel of the parser is
    one more than three times the length of the line and suffices for every
    line; parsing is the inverse of printing.
  \<^item> ShRun, ShLine (sh.c): runcmd over a descriptor table; run\_line with its
    builtins, run\_script, the options and main.  Pipelines wire their stages,
    scripts keep the table within its bounds.
  \<^item> Printf (printf.c): both formatters against one rendering of the format;
    format\_int over every 64-bit value; the overrun of a format cut inside a
    directive.
  \<^item> Umalloc (umalloc.c): the free ring as a heap of headers, refined to a
    sorted coalesced list of blocks.  The walks of the ring carry fuel, one
    turn of the ring, which the lemmas show to be enough.
  \<^item> Io: which read functions deliver a content.
  \<^item> Grep, Wc (grep.c, wc.c): the matcher against the language of its
    expression, and both programs over inputs that arrive in arbitrary pieces.
  \<^item> Mkfs (mkfs\_xv6fs.c): layout, superblock, inodes, bitmap and root
    directory on a device of 1024-byte blocks.
  \<^item> Init, InitBoot (init.c): the network configuration, the startup file, the
    loop that restarts the shell; the console, the calls at boot, and what the
    services and the shell inherit.
  \<^item> Fsutil (fsutil.c), FileTools (cp.c, mv.c, rm.c): the recursive copy, move and
    removal over a record of system calls, and the mains around them.  FsTree
    states what a kernel promises about paths, trees and descriptors (a
    locale); FsCopy and FsRemove prove copy\_path and remove\_path inside it;
    Ramfs is a file system in memory on which the locale is interpreted.  The
    recursion carries fuel: three more than the weight of the tree for a copy,
    five more than twice its nodes for a removal, and the theorems show that
    much to be enough.  FsDescriptors: no path through these functions leaks a
    descriptor, whatever the kernel answers.
  \<^item> Copying, Dh (dd.c, cat.c, dh.c): the copy loops with their block counters
    over devices that deliver and accept in pieces; the hexadecimal dump, which
    can be read back, and the width from which its line overruns.
  \<^item> Primes (primes.c): the sieve of processes, with pipes as lists.
  \<^item> Keyinject, Mouseinject (keyinject.c, mouseinject.c): the keyboard and mouse
    events of a text, a chord, a click and a drag.  Typed text is what the
    keyboard layout reads back, no key stays down but the shift that
    keyinject\_key\_drops\_shift names, and a drag follows the line between its
    ends.
  \<^item> PrintfTypes: a type system for calls of printf.  A call that checks
    prints; TopShow, ShList and KprofileWait rest on it.
  \<^item> TopParse, TopFiles, Top, TopShow (top.c): the files of /proc, of the
    accounts and of the processors, the two alternating snapshots, rates and
    shares, and the main loop.  A reader of a file is a state and a bound on
    its answers; parsing gives back the processes the files were printed from.
  \<^item> Dns, DnsMessages, DnsPair (dnsstress.c): the query, the reader of an answer
    with its compressed names, and the loop that waits for both answers within
    its time.  The answers of the network are a list, and the loop walks it.
  \<^item> ShList (sh.c): the user and directory of the prompt, ls and history.
  \<^item> Consolerecord, ConsoleSafe, ConsoleMemory (consolerecord.c): the three ways
    to hand records to the console, over a record of system calls.  The loops
    that repeat an interrupted call carry fuel, the patience of the kernel; a
    locale states that it is bounded, ConsoleSafe proves inside it that every
    path releases what it took and sends nothing or one request, and
    ConsoleMemory interprets it.
  \<^item> Find, FindTree (find.c): the search, over the same promises as FsTree and
    on the file system in memory; its fuel is two more than the entries of each
    directory on the way, which the tree bounds.
  \<^item> Commands (mount, umount, losetup, kill, ps, lsblk, mknod, mkdir, ln, echo,
    free, sleep, sync): the mains, as their system calls and exit status.
  \<^item> Kprofile, KprofileMaps, KprofileWait (kprofile.c): the maps of the
    processes that were sampled, their tables and report; the options, and the
    loop that waits for the command.  An open maps file is the list of the
    answers to its reads, and a round of the waiting loop is the answers of the
    kernel in it, so that both recursions are structural; a run that has not
    ended says so in its result.  Reading does not depend on the pieces that
    arrive, every sample has one place, and the signals follow the clock.

  \<^item> Fbstat, FbstatPicture (fbstat.c): the rectangles of the screen, their
    statistics and the pictures.  A picture is the part of its rectangle that
    is on the screen; where the sums of the rectangle wrap, the rows below the
    screen are read.

  \<^bold>\<open>Not modelled.\<close>  Of sh.c: the branch with ncurses.  Of ulib.c: start,
  fork, execve and stat, which are registers and system calls.  Of kprofile.c: setting up the child, and the
  counters that are read and printed without a decision.  Of fbstat.c: the mode
  and the report of the driver.  The tools that are one
  system call, the demonstrations and the test and probe programs call the
  kernel in sequence and compare its answers with device structures that are
  defined elsewhere; the system call stubs are generated from Perl, and the
  linker scripts, the start code and the build files hold no logic of the user
  land.
\<close>

end
